(* ===== verification/RuleOperators.thy ===== *)
theory RuleOperators
  imports Prelude
begin

text \<open>
  \<open>lib/tenancy/rule-operators.ts\<close>: what the four operators of a stored row rule
  mean.  The four appliers (the live WHERE, the generated Postgres policy, the
  in-process matcher and the jsonb conditions) read these definitions.

  A condition's value is a string or a list of strings, which is all the resolver
  ever produces; \<open>js_String\<close> is \<open>String(v)\<close> on such a value.
\<close>

datatype rule_operator = Eq | Neq | In | NotIn

datatype cond_value = Scalar string | Many "string list"

record operator_semantics =
  op_list :: bool
  op_sql :: string
  op_kysely :: string
  op_keep :: "string \<Rightarrow> cond_value \<Rightarrow> bool"

definition foldsCase :: "string \<Rightarrow> bool" where
  "foldsCase source \<longleftrightarrow> source = ''user_email''"

fun js_String :: "cond_value \<Rightarrow> string" where
  "js_String (Scalar s) = s"
| "js_String (Many xs) = js_join '','' xs"

definition same :: "string \<Rightarrow> cond_value \<Rightarrow> bool" where
  "same a b \<longleftrightarrow> a = js_String b"

fun asList :: "cond_value \<Rightarrow> string list" where
  "asList (Many xs) = xs"
| "asList (Scalar s) = [s]"

fun RULE_OPERATORS :: "rule_operator \<Rightarrow> operator_semantics" where
  "RULE_OPERATORS Eq = \<lparr> op_list = False, op_sql = ''='', op_kysely = ''='',
     op_keep = (\<lambda>v c. same v c) \<rparr>"
| "RULE_OPERATORS Neq = \<lparr> op_list = False, op_sql = ''<>'', op_kysely = ''!='',
     op_keep = (\<lambda>v c. \<not> same v c) \<rparr>"
| "RULE_OPERATORS In = \<lparr> op_list = True, op_sql = ''IN'', op_kysely = ''in'',
     op_keep = (\<lambda>v c. list_ex (\<lambda>x. same v (Scalar x)) (asList c)) \<rparr>"
| "RULE_OPERATORS NotIn = \<lparr> op_list = True, op_sql = ''NOT IN'', op_kysely = ''not in'',
     op_keep = (\<lambda>v c. \<not> list_ex (\<lambda>x. same v (Scalar x)) (asList c)) \<rparr>"

text \<open>A missing value is \<open>None\<close>: \<open>null\<close> and \<open>undefined\<close> are one to every reader.\<close>

definition droppedForMissingValue :: "string option \<Rightarrow> bool" where
  "droppedForMissingValue value \<longleftrightarrow> value = None"

definition keepsNothing :: "string \<Rightarrow> cond_value \<Rightarrow> bool" where
  "keepsNothing op value \<longleftrightarrow> op = ''in'' \<and> value = Many []"

definition keepsEveryPresent :: "string \<Rightarrow> cond_value \<Rightarrow> bool" where
  "keepsEveryPresent op value \<longleftrightarrow> op = ''not_in'' \<and> value = Many []"

datatype rls_error = UnsupportedOperator string string

definition unsupportedOperator :: "string \<Rightarrow> string \<Rightarrow> rls_error" where
  "unsupportedOperator field op = UnsupportedOperator field op"

text \<open>The keys of the operator table, and the entry a key names.\<close>

definition rule_operator_of :: "string \<Rightarrow> rule_operator option" where
  "rule_operator_of op =
    (if op = ''eq'' then Some Eq else if op = ''neq'' then Some Neq
     else if op = ''in'' then Some In else if op = ''not_in'' then Some NotIn else None)"

definition isRuleOperator :: "string \<Rightarrow> bool" where
  "isRuleOperator op \<longleftrightarrow> rule_operator_of op \<noteq> None"

section \<open>What the decisions mean\<close>

lemma rule_operator_of_simps [simp]:
  "rule_operator_of ''eq'' = Some Eq" "rule_operator_of ''neq'' = Some Neq"
  "rule_operator_of ''in'' = Some In" "rule_operator_of ''not_in'' = Some NotIn"
  by (simp_all add: rule_operator_of_def)

lemma rule_operator_of_Some:
  "rule_operator_of op = Some k \<longleftrightarrow>
    (case k of Eq \<Rightarrow> op = ''eq'' | Neq \<Rightarrow> op = ''neq'' | In \<Rightarrow> op = ''in'' | NotIn \<Rightarrow> op = ''not_in'')"
  by (cases k) (auto simp: rule_operator_of_def)

lemma rule_operator_of_bar_free: "rule_operator_of op = Some k \<Longrightarrow> CHR ''|'' \<notin> set op"
  by (cases k) (auto simp: rule_operator_of_Some)

text \<open>The reference reading of a condition: membership in the list of its values.\<close>

definition op_negative :: "rule_operator \<Rightarrow> bool" where
  "op_negative k \<longleftrightarrow> k = Neq \<or> k = NotIn"

definition op_values :: "rule_operator \<Rightarrow> cond_value \<Rightarrow> string list" where
  "op_values k c = (if op_list (RULE_OPERATORS k) then asList c else [js_String c])"

lemma keep_iff:
  "op_keep (RULE_OPERATORS k) v c \<longleftrightarrow> (v \<in> set (op_values k c)) \<noteq> op_negative k"
  by (cases k) (auto simp: op_values_def op_negative_def same_def list_ex_iff)

lemma op_list_iff: "op_list (RULE_OPERATORS k) \<longleftrightarrow> k = In \<or> k = NotIn"
  by (cases k) auto

lemma keepsNothing_iff:
  "rule_operator_of op = Some k \<Longrightarrow> keepsNothing op c \<longleftrightarrow> k = In \<and> c = Many []"
  by (cases k) (auto simp: keepsNothing_def rule_operator_of_Some)

lemma keepsEveryPresent_iff:
  "rule_operator_of op = Some k \<Longrightarrow> keepsEveryPresent op c \<longleftrightarrow> k = NotIn \<and> c = Many []"
  by (cases k) (auto simp: keepsEveryPresent_def rule_operator_of_Some)

end
