(* ===== verification/SqlExpr.thy ===== *)
theory SqlExpr
  imports RuleOperators
begin

text \<open>
  The SQL the row-rule generator emits: one constructor per template of
  \<open>row-rule-policy.ts\<close>, its text (\<open>sql_text\<close>, \<open>pred_text\<close>: the characters the
  code concatenates) and what Postgres makes of it (\<open>sql_eval\<close>, \<open>pred_eval\<close>).

  A column value is its text form, the column's type being known from the
  catalogue.  What Postgres does with a type is the parameter \<open>pg\<close>: reading a
  text into a type (\<open>None\<close> raises), equality in the type, \<open>lower\<close>.
\<close>

record pg =
  pg_norm :: "string \<Rightarrow> string \<Rightarrow> string option"
  pg_eq :: "string \<Rightarrow> string \<Rightarrow> string \<Rightarrow> bool"
  pg_lower :: "string \<Rightarrow> string"

type_synonym gucs = "string \<rightharpoonup> string"
type_synonym col_types = "string \<rightharpoonup> string"
type_synonym row = "string \<rightharpoonup> string"

datatype sql_expr =
    SCol string
  | SLower sql_expr
  | SSetting string
  | SNullifSetting string
  | SLit string
  | SCast sql_expr string

datatype sql_pred =
    PFalse
  | PCmp sql_expr rule_operator sql_expr
  | PList sql_expr rule_operator "sql_expr list"
  | PNotNull sql_expr
  | PHasRole string string
  | PNotHasRole string string
  | PNoActor
  | PExempt
  | PIssuerOff
  | PIssuerOn
  | POr "sql_pred list"
  | PAnd "sql_pred list"
  | PEither sql_pred sql_pred

section \<open>Text\<close>

text \<open>A single-quoted SQL literal, and a double-quoted identifier.\<close>

definition lit :: "string \<Rightarrow> string" where
  "lit v = [SQUOTE] @ replace_all SQUOTE [SQUOTE, SQUOTE] v @ [SQUOTE]"

definition is_ident_start :: "char \<Rightarrow> bool" where
  "is_ident_start c \<longleftrightarrow> is_letter c \<or> c = CHR ''_''"

definition is_ident_char :: "char \<Rightarrow> bool" where
  "is_ident_char c \<longleftrightarrow> is_ident_start c \<or> is_digit c"

definition is_ident :: "string \<Rightarrow> bool" where
  "is_ident name \<longleftrightarrow> name \<noteq> [] \<and> is_ident_start (hd name) \<and> list_all is_ident_char (tl name)"

definition ident :: "string \<Rightarrow> string option" where
  "ident name = (if is_ident name then Some ([DQUOTE] @ name @ [DQUOTE]) else None)"

fun sql_text :: "sql_expr \<Rightarrow> string" where
  "sql_text (SCol c) = [DQUOTE] @ c @ [DQUOTE]"
| "sql_text (SLower e) = ''lower('' @ sql_text e @ '')''"
| "sql_text (SSetting g) = ''(SELECT current_setting('' @ [SQUOTE] @ g @ [SQUOTE] @ '', true))''"
| "sql_text (SNullifSetting g) =
     ''(SELECT nullif(current_setting('' @ [SQUOTE] @ g @ [SQUOTE] @ '', true), ''
       @ [SQUOTE, SQUOTE] @ ''))''"
| "sql_text (SLit v) = lit v"
| "sql_text (SCast e ty) = ''CAST('' @ sql_text e @ '' AS '' @ ty @ '')''"

definition has_role_text :: "string \<Rightarrow> string \<Rightarrow> string" where
  "has_role_text r prefix =
     ''(SELECT '' @ lit r @ '' = ANY (string_to_array(coalesce(current_setting('' @ [SQUOTE] @ prefix
       @ ''user_roles'' @ [SQUOTE] @ '', true), '' @ [SQUOTE, SQUOTE] @ ''), ''
       @ [SQUOTE, COMMA, SQUOTE] @ '')))''"

fun pred_text :: "sql_pred \<Rightarrow> string" where
  "pred_text PFalse = ''false''"
| "pred_text (PCmp l k r) = sql_text l @ '' '' @ op_sql (RULE_OPERATORS k) @ '' '' @ sql_text r"
| "pred_text (PList l k rs) =
     sql_text l @ '' '' @ op_sql (RULE_OPERATORS k) @ '' ('' @ js_join '', '' (map sql_text rs) @ '')''"
| "pred_text (PNotNull e) = sql_text e @ '' IS NOT NULL''"
| "pred_text (PHasRole r prefix) = has_role_text r prefix"
| "pred_text (PNotHasRole r prefix) = ''NOT ('' @ has_role_text r prefix @ '')''"
| "pred_text PNoActor =
     ''(SELECT current_setting('' @ [SQUOTE] @ ''zveltio.actor'' @ [SQUOTE]
       @ '', true) IS DISTINCT FROM '' @ [SQUOTE] @ ''on'' @ [SQUOTE] @ '')''"
| "pred_text PExempt =
     ''(SELECT lower(coalesce(nullif(current_setting('' @ [SQUOTE] @ ''zveltio.rls_bypass'' @ [SQUOTE]
       @ '', true), '' @ [SQUOTE, SQUOTE] @ ''), '' @ [SQUOTE] @ ''off'' @ [SQUOTE] @ '')) IN (''
       @ [SQUOTE] @ ''on'' @ [SQUOTE] @ '', '' @ [SQUOTE] @ ''true'' @ [SQUOTE] @ '', ''
       @ [SQUOTE] @ ''1'' @ [SQUOTE] @ ''))''"
| "pred_text PIssuerOff =
     ''(SELECT coalesce(current_setting('' @ [SQUOTE] @ ''zveltio.issuer_rows'' @ [SQUOTE]
       @ '', true), '' @ [SQUOTE, SQUOTE] @ '') = '' @ [SQUOTE, SQUOTE] @ '')''"
| "pred_text PIssuerOn =
     ''(SELECT current_setting('' @ [SQUOTE] @ ''zveltio.issuer_rows'' @ [SQUOTE]
       @ '', true) = '' @ [SQUOTE] @ ''on'' @ [SQUOTE] @ '')''"
| "pred_text (POr ps) = ''('' @ js_join '' OR '' (map pred_text ps) @ '')''"
| "pred_text (PAnd ps) = ''('' @ js_join '' AND '' (map pred_text ps) @ '')''"
| "pred_text (PEither p q) = pred_text p @ '' OR '' @ pred_text q"

section \<open>What Postgres makes of it\<close>

definition text_like :: "string \<Rightarrow> bool" where
  "text_like ty \<longleftrightarrow> ty \<in> {''text'', ''character varying'', ''character''}"

text \<open>
  An expression has a type and a value, \<open>None\<close> within being NULL; the outer
  \<open>None\<close> is an error Postgres raises: a cast it refuses, a column that is not
  there, \<open>lower\<close> of a type that is not text.
\<close>

fun sql_eval ::
  "pg \<Rightarrow> gucs \<Rightarrow> col_types \<Rightarrow> row \<Rightarrow> sql_expr \<Rightarrow> (string \<times> string option) option" where
  "sql_eval pg g ts r (SCol c) = (case ts c of None \<Rightarrow> None | Some ty \<Rightarrow> Some (ty, r c))"
| "sql_eval pg g ts r (SLower e) =
    (case sql_eval pg g ts r e of None \<Rightarrow> None
     | Some (ty, v) \<Rightarrow>
        if text_like ty then Some (''text'', map_option (pg_lower pg) v) else None)"
| "sql_eval pg g ts r (SSetting s) = Some (''text'', g s)"
| "sql_eval pg g ts r (SNullifSetting s) = Some (''text'', if g s = Some [] then None else g s)"
| "sql_eval pg g ts r (SLit v) = Some (''text'', Some v)"
| "sql_eval pg g ts r (SCast e ty) =
    (case sql_eval pg g ts r e of None \<Rightarrow> None
     | Some (_, None) \<Rightarrow> Some (ty, None)
     | Some (_, Some v) \<Rightarrow> map_option (\<lambda>t. (ty, Some t)) (pg_norm pg ty v))"

definition sql_equal ::
  "pg \<Rightarrow> (string \<times> string option) \<Rightarrow> (string \<times> string option) \<Rightarrow> tv option" where
  "sql_equal pg a b =
    (if fst a \<noteq> fst b then None
     else Some (case (snd a, snd b) of (Some x, Some y) \<Rightarrow> Some (pg_eq pg (fst a) x y) | _ \<Rightarrow> None))"

text \<open>\<open>x IN (y1, \<dots>)\<close> is \<open>x = y1 OR \<dots>\<close>; every operand is evaluated, so an error anywhere is an error.\<close>

fun sql_in ::
  "pg \<Rightarrow> (string \<times> string option) \<Rightarrow> (string \<times> string option) option list \<Rightarrow> tv option" where
  "sql_in pg a [] = Some (Some False)"
| "sql_in pg a (b # bs) =
    (case b of None \<Rightarrow> None
     | Some y \<Rightarrow> (case (sql_equal pg a y, sql_in pg a bs) of
         (Some t, Some u) \<Rightarrow> Some (tv_or t u) | _ \<Rightarrow> None))"

definition signed :: "rule_operator \<Rightarrow> tv \<Rightarrow> tv" where
  "signed k t = (if op_negative k then tv_not t else t)"

text \<open>\<open>string_to_array(s, ',')\<close>: the empty string has no elements.\<close>

definition string_to_array :: "string \<Rightarrow> string list" where
  "string_to_array s = (if s = [] then [] else js_split COMMA s)"

definition held_roles :: "gucs \<Rightarrow> string \<Rightarrow> string list" where
  "held_roles g prefix =
    string_to_array (case g (prefix @ ''user_roles'') of None \<Rightarrow> [] | Some s \<Rightarrow> s)"

fun fold_tv :: "(tv \<Rightarrow> tv \<Rightarrow> tv) \<Rightarrow> bool \<Rightarrow> tv option list \<Rightarrow> tv option" where
  "fold_tv f z [] = Some (Some z)"
| "fold_tv f z (t # ts) =
    (case (t, fold_tv f z ts) of (Some x, Some y) \<Rightarrow> Some (f x y) | _ \<Rightarrow> None)"

fun pred_eval :: "pg \<Rightarrow> gucs \<Rightarrow> col_types \<Rightarrow> row \<Rightarrow> sql_pred \<Rightarrow> tv option" where
  "pred_eval pg g ts r PFalse = Some (Some False)"
| "pred_eval pg g ts r (PCmp l k rhs) =
    (case (sql_eval pg g ts r l, sql_eval pg g ts r rhs) of
       (Some a, Some b) \<Rightarrow> map_option (signed k) (sql_equal pg a b) | _ \<Rightarrow> None)"
| "pred_eval pg g ts r (PList l k rs) =
    (case sql_eval pg g ts r l of None \<Rightarrow> None
     | Some a \<Rightarrow> map_option (signed k) (sql_in pg a (map (sql_eval pg g ts r) rs)))"
| "pred_eval pg g ts r (PNotNull e) =
    map_option (\<lambda>a. Some (snd a \<noteq> None)) (sql_eval pg g ts r e)"
| "pred_eval pg g ts r (PHasRole role prefix) = Some (Some (role \<in> set (held_roles g prefix)))"
| "pred_eval pg g ts r (PNotHasRole role prefix) = Some (Some (role \<notin> set (held_roles g prefix)))"
| "pred_eval pg g ts r PNoActor = Some (Some (g ''zveltio.actor'' \<noteq> Some ''on''))"
| "pred_eval pg g ts r PExempt =
    Some (Some (case g ''zveltio.rls_bypass'' of None \<Rightarrow> False
      | Some s \<Rightarrow> s \<noteq> [] \<and> pg_lower pg s \<in> {''on'', ''true'', ''1''}))"
| "pred_eval pg g ts r PIssuerOff =
    Some (Some (case g ''zveltio.issuer_rows'' of None \<Rightarrow> True | Some s \<Rightarrow> s = []))"
| "pred_eval pg g ts r PIssuerOn =
    Some (map_option (\<lambda>s. s = ''on'') (g ''zveltio.issuer_rows''))"
| "pred_eval pg g ts r (POr ps) = fold_tv tv_or False (map (pred_eval pg g ts r) ps)"
| "pred_eval pg g ts r (PAnd ps) = fold_tv tv_and True (map (pred_eval pg g ts r) ps)"
| "pred_eval pg g ts r (PEither p q) = fold_tv tv_or False (map (pred_eval pg g ts r) [p, q])"

text \<open>A policy keeps a row when its predicate is TRUE; an error keeps nothing.\<close>

definition pred_keeps :: "pg \<Rightarrow> gucs \<Rightarrow> col_types \<Rightarrow> row \<Rightarrow> sql_pred \<Rightarrow> bool" where
  "pred_keeps pg g ts r p \<longleftrightarrow> pred_eval pg g ts r p = Some (Some True)"

end
