(* ===== verification/RowRulePolicy.thy ===== *)
theory RowRulePolicy
  imports SqlExpr
begin

text \<open>
  \<open>lib/tenancy/row-rule-policy.ts\<close>: the stored row rules of a collection compiled
  into the body of one RESTRICTIVE Postgres policy, and the door that refuses a
  rule no applier can express.  The predicate is built as a \<open>sql_pred\<close>, whose
  \<open>pred_text\<close> is the string the code returns.
\<close>

record row_rule =
  role :: string
  filter_field :: string
  filter_op :: string
  filter_value_source :: string

text \<open>Why a rule is not expressible; the wording of the message is left out.\<close>

datatype rule_problem =
    NotAnIdentifier string
  | NoSuchColumn string
  | Uncastable string string
  | UnknownOperator string
  | UnknownSource string
  | EmptyList
  | TextSource string string
  | WillNotCast string string

record generated_policy =
  predicate :: "sql_pred option"
  skipped :: "(row_rule \<times> rule_problem) list"
  columns :: "string list"

definition CASTABLE :: "string list" where
  "CASTABLE = [''text'', ''character varying'', ''character'', ''uuid'', ''integer'', ''bigint'',
     ''smallint'', ''boolean'', ''numeric'', ''double precision'', ''real'']"

definition CALLER :: string where "CALLER = ''zveltio.''"
definition ISSUER :: string where "ISSUER = ''zveltio.issuer_''"

abbreviation STATIC :: string where "STATIC \<equiv> ''static:''"

definition is_static :: "string \<Rightarrow> bool" where
  "is_static source \<longleftrightarrow> starts_with STATIC source"

definition static_value :: "string \<Rightarrow> string" where
  "static_value source = drop 7 source"

text \<open>\<open>split(',').map(trim).filter(Boolean)\<close>\<close>

definition list_items :: "string \<Rightarrow> string list" where
  "list_items s = filter (\<lambda>v. v \<noteq> []) (map js_trim (js_split COMMA s))"

definition castTo :: "string \<Rightarrow> sql_expr \<Rightarrow> sql_expr" where
  "castTo pgType inner = (if pgType = ''text'' then inner else SCast inner pgType)"

definition valueExpr :: "string \<Rightarrow> string \<Rightarrow> string \<Rightarrow> sql_expr option" where
  "valueExpr source pgType prefix =
    (if source = ''user_id'' \<or> source = ''user_email''
     then Some (castTo pgType (SNullifSetting (prefix @ source)))
     else if source = ''user_role'' then Some (castTo pgType (SSetting (prefix @ source)))
     else if is_static source then Some (castTo pgType (SLit (static_value source)))
     else None)"

definition roleGuard :: "string \<Rightarrow> string \<Rightarrow> sql_pred option" where
  "roleGuard r prefix = (if r = ''*'' then None else Some (PNotHasRole r prefix))"

definition issuerApplicable :: "row_rule \<Rightarrow> sql_pred \<Rightarrow> sql_pred" where
  "issuerApplicable rule condition =
    (case roleGuard (role rule) ISSUER of
       Some g \<Rightarrow> POr [g, condition] | None \<Rightarrow> POr [condition])"

definition applicable :: "row_rule \<Rightarrow> sql_pred \<Rightarrow> bool \<Rightarrow> sql_pred" where
  "applicable rule condition perActor =
    (let guards = (case roleGuard (role rule) CALLER of Some g \<Rightarrow> [g] | None \<Rightarrow> [])
                  @ (if perActor then [PNoActor] else [])
     in POr (guards @ [condition]))"

definition conditionOf ::
  "row_rule \<Rightarrow> rule_operator \<Rightarrow> sql_expr \<Rightarrow> string \<Rightarrow> sql_expr \<Rightarrow> sql_expr \<Rightarrow> sql_pred" where
  "conditionOf rule k col pgType lhs rhs =
    (if op_list (RULE_OPERATORS k) then
       (let src = filter_value_source rule;
            items = (if is_static src then Some (list_items (static_value src)) else None)
        in case items of
             Some vs \<Rightarrow>
               (if keepsNothing (filter_op rule) (Many vs) then PFalse
                else if keepsEveryPresent (filter_op rule) (Many vs) then PNotNull col
                else PList lhs k (map (\<lambda>v. castTo pgType (SLit v)) vs))
           | None \<Rightarrow> PList lhs k [rhs])
     else PCmp lhs k rhs)"

section \<open>The generator\<close>

record gen =
  g_terms :: "sql_pred list"
  g_issuerTerms :: "sql_pred list"
  g_skipped :: "(row_rule \<times> rule_problem) list"
  g_columns :: "string list"
  g_seen :: "string list"

definition fingerprint :: "row_rule \<Rightarrow> string" where
  "fingerprint r = role r @ ''|'' @ filter_field r @ ''|'' @ filter_op r @ ''|'' @ filter_value_source r"

definition deny :: "row_rule \<Rightarrow> bool \<Rightarrow> gen \<Rightarrow> gen" where
  "deny rule perActor s = s\<lparr> g_terms := g_terms s @ [applicable rule PFalse perActor],
     g_issuerTerms := g_issuerTerms s @ [issuerApplicable rule PFalse] \<rparr>"

definition skip :: "row_rule \<Rightarrow> rule_problem \<Rightarrow> gen \<Rightarrow> gen" where
  "skip rule why s = s\<lparr> g_skipped := g_skipped s @ [(rule, why)] \<rparr>"

text \<open>The condition of an expressible rule, read against the caller's settings or the issuer's.\<close>

definition conditionFor :: "row_rule \<Rightarrow> rule_operator \<Rightarrow> string \<Rightarrow> string \<Rightarrow> sql_pred" where
  "conditionFor rule k pgType prefix =
    (let fold = foldsCase (filter_value_source rule);
         col = SCol (filter_field rule);
         lhs = (if fold then SLower col else col);
         val = the (valueExpr (filter_value_source rule) pgType prefix);
         rhs = (if fold then SLower val else val)
     in conditionOf rule k col pgType lhs rhs)"

definition genRule :: "col_types \<Rightarrow> row_rule \<Rightarrow> gen \<Rightarrow> gen" where
  "genRule types rule s0 =
    (if fingerprint rule \<in> set (g_seen s0) then s0
     else let s = s0\<lparr> g_seen := fingerprint rule # g_seen s0 \<rparr>;
              perActor = (\<not> is_static (filter_value_source rule)) in
     (case valueExpr (filter_value_source rule) ''text'' CALLER of
        None \<Rightarrow> deny rule True s
      | Some _ \<Rightarrow>
     (if \<not> is_ident (filter_field rule)
      then deny rule perActor (skip rule (NotAnIdentifier (filter_field rule)) s)
      else (case types (filter_field rule) of
        None \<Rightarrow> deny rule perActor (skip rule (NoSuchColumn (filter_field rule)) s)
      | Some pgType \<Rightarrow>
     (if pgType \<notin> set CASTABLE
      then deny rule perActor (skip rule (Uncastable (filter_field rule) pgType) s)
      else (case rule_operator_of (filter_op rule) of
        None \<Rightarrow> deny rule perActor (skip rule (UnknownOperator (filter_op rule)) s)
      | Some k \<Rightarrow>
         (let condition = conditionFor rule k pgType CALLER in
          s\<lparr> g_columns := (if condition = PFalse then g_columns s
                           else List.insert (filter_field rule) (g_columns s)),
             g_terms := g_terms s @ [applicable rule condition perActor],
             g_issuerTerms := g_issuerTerms s
               @ [issuerApplicable rule (conditionFor rule k pgType ISSUER)] \<rparr>)))))))"

definition gen0 :: gen where
  "gen0 = \<lparr> g_terms = [], g_issuerTerms = [], g_skipped = [], g_columns = [], g_seen = [] \<rparr>"

definition buildRowRulePredicate :: "row_rule list \<Rightarrow> col_types \<Rightarrow> generated_policy" where
  "buildRowRulePredicate rules types =
    (let s = fold (genRule types) rules gen0 in
     if g_terms s = [] then \<lparr> predicate = None, skipped = g_skipped s, columns = [] \<rparr>
     else \<lparr> predicate = Some (PEither PExempt
              (PAnd (g_terms s @ [POr [PIssuerOff, PAnd (PIssuerOn # g_issuerTerms s)]]))),
            skipped = g_skipped s, columns = rev (g_columns s) \<rparr>)"

section \<open>The door\<close>

definition emptyStaticList :: "string \<Rightarrow> string \<Rightarrow> rule_problem option" where
  "emptyStaticList op source =
    (if op \<noteq> ''in'' \<and> op \<noteq> ''not_in'' then None
     else if \<not> is_static source then None
     else if list_items (static_value source) \<noteq> [] then None else Some EmptyList)"

definition digits1 :: "string \<Rightarrow> bool" where
  "digits1 s \<longleftrightarrow> s \<noteq> [] \<and> list_all is_digit s"

text \<open>\<open>/^-?\d+(\.\d+)?$/\<close>, \<open>/^(true|false|t|f|1|0)$/i\<close> and \<open>/^[0-9a-fA-F-]{36}$/\<close>\<close>

definition numeric_text :: "string \<Rightarrow> bool" where
  "numeric_text s =
    (let body = (case s of [] \<Rightarrow> [] | c # cs \<Rightarrow> if c = CHR ''-'' then cs else s)
     in case js_split (CHR ''.'') body of
          [a] \<Rightarrow> digits1 a
        | [a, b] \<Rightarrow> digits1 a \<and> digits1 b
        | _ \<Rightarrow> False)"

definition boolean_text :: "string \<Rightarrow> bool" where
  "boolean_text s \<longleftrightarrow> js_lower s \<in> {''true'', ''false'', ''t'', ''f'', ''1'', ''0''}"

definition uuid_text :: "string \<Rightarrow> bool" where
  "uuid_text s \<longleftrightarrow> length s = 36 \<and> list_all (\<lambda>c. is_hex c \<or> c = CHR ''-'') s"

definition NUMERIC :: "string list" where
  "NUMERIC = [''integer'', ''bigint'', ''smallint'', ''numeric'', ''double precision'', ''real'']"

definition casts_into :: "string \<Rightarrow> string \<Rightarrow> bool" where
  "casts_into pgType item =
    (if pgType \<in> set NUMERIC then numeric_text item
     else if pgType = ''boolean'' then boolean_text item else uuid_text item)"

text \<open>The values a static source lists for an operator.\<close>

definition static_items :: "string \<Rightarrow> string \<Rightarrow> string list" where
  "static_items op source =
    (if op = ''in'' \<or> op = ''not_in'' then list_items (static_value source) else [static_value source])"

definition known_source :: "string \<Rightarrow> bool" where
  "known_source source \<longleftrightarrow>
    source = ''user_id'' \<or> source = ''user_email'' \<or> source = ''user_role'' \<or> is_static source"

definition strict_type :: "string \<Rightarrow> bool" where
  "strict_type pgType \<longleftrightarrow> pgType \<in> set NUMERIC \<or> pgType = ''uuid'' \<or> pgType = ''boolean''"

definition describeRuleProblem :: "row_rule \<Rightarrow> col_types \<Rightarrow> rule_problem option" where
  "describeRuleProblem rule types =
    (let field = filter_field rule; op = filter_op rule; source = filter_value_source rule in
     if \<not> is_ident field then Some (NotAnIdentifier field)
     else (case types field of None \<Rightarrow> Some (NoSuchColumn field) | Some pgType \<Rightarrow>
       if pgType \<notin> set CASTABLE then Some (Uncastable field pgType)
       else if \<not> isRuleOperator op then Some (UnknownOperator op)
       else if \<not> known_source source then Some (UnknownSource source)
       else (case emptyStaticList op source of Some e \<Rightarrow> Some e | None \<Rightarrow>
         if \<not> strict_type pgType then None
         else if \<not> is_static source then Some (TextSource field source)
         else (let items = static_items op source in
           if items = [] then Some EmptyList
           else map_option (WillNotCast field) (find (\<lambda>v. \<not> casts_into pgType v) items)))))"

text \<open>What the door lets through.\<close>

lemma describe_None:
  assumes "describeRuleProblem rule types = None"
  obtains ty k where "is_ident (filter_field rule)" "types (filter_field rule) = Some ty"
    "ty \<in> set CASTABLE" "rule_operator_of (filter_op rule) = Some k"
    "known_source (filter_value_source rule)"
    "emptyStaticList (filter_op rule) (filter_value_source rule) = None"
    "strict_type ty \<Longrightarrow> is_static (filter_value_source rule)"
    "strict_type ty \<Longrightarrow> \<forall>v \<in> set (static_items (filter_op rule) (filter_value_source rule)). casts_into ty v"
proof -
  from assms obtain ty where ty: "types (filter_field rule) = Some ty" and c: "ty \<in> set CASTABLE"
    by (auto simp: describeRuleProblem_def Let_def split: if_splits option.splits)
  from assms ty c obtain k where "rule_operator_of (filter_op rule) = Some k"
    by (auto simp: describeRuleProblem_def Let_def isRuleOperator_def split: if_splits option.splits)
  then show thesis using assms ty c that
    by (auto simp: describeRuleProblem_def Let_def isRuleOperator_def find_None_iff
        split: if_splits option.splits)
qed

end
