(* ===== verification/SqlLex.thy ===== *)
theory SqlLex
  imports RowRulePolicy
begin

text \<open>
  The predicate is text pasted into \<open>CREATE POLICY\<close>, and a rule's role and value
  are pasted into it.  Postgres reads a literal from its quote to the next quote
  that is not doubled; \<open>sql_lex\<close> reads a text that way, with every other
  character a token of its own.  Read back, the predicate is the template it was
  built from, each of the rule's strings one literal.
\<close>

datatype sql_token = TString string | TQuoted string | TChar char

text \<open>The rest of a quoted token: its content, and what follows the closing quote.\<close>

fun scan_quoted :: "char \<Rightarrow> string \<Rightarrow> (string \<times> string) option" where
  "scan_quoted q [] = None"
| "scan_quoted q [c] = (if c = q then Some ([], []) else None)"
| "scan_quoted q (c # d # cs) =
    (if c = q then
       (if d = q then map_option (\<lambda>(v, rest). (q # v, rest)) (scan_quoted q cs) else Some ([], d # cs))
     else map_option (\<lambda>(v, rest). (c # v, rest)) (scan_quoted q (d # cs)))"

lemma scan_quoted_length: "scan_quoted q s = Some (v, rest) \<Longrightarrow> length rest < length s"
  by (induction q s arbitrary: v rest rule: scan_quoted.induct) (auto split: if_splits)

definition prepend :: "sql_token list \<Rightarrow> sql_token list option \<Rightarrow> sql_token list option" where
  "prepend ts r = map_option (\<lambda>us. ts @ us) r"

lemma prepend_simps [simp]:
  "prepend [] r = r" "prepend a (prepend b r) = prepend (a @ b) r" "prepend a (Some b) = Some (a @ b)"
  by (cases r; simp add: prepend_def)+

function (sequential) sql_lex :: "string \<Rightarrow> sql_token list option" where
  "sql_lex [] = Some []"
| "sql_lex (c # cs) =
    (if c = SQUOTE \<or> c = DQUOTE then
       (case scan_quoted c cs of None \<Rightarrow> None
        | Some (v, rest) \<Rightarrow>
            prepend [if c = SQUOTE then TString v else TQuoted v] (sql_lex rest))
     else prepend [TChar c] (sql_lex cs))"
  by pat_completeness auto
termination
  by (relation "measure length") (auto dest: scan_quoted_length)

definition plain :: "string \<Rightarrow> bool" where
  "plain s \<longleftrightarrow> SQUOTE \<notin> set s \<and> DQUOTE \<notin> set s"

definition quote_free_head :: "string \<Rightarrow> bool" where
  "quote_free_head s \<longleftrightarrow> s = [] \<or> hd s \<noteq> SQUOTE \<and> hd s \<noteq> DQUOTE"

text \<open>A text that reads as \<open>ts\<close> wherever it stands, and one that does before anything but a quote.\<close>

definition reads :: "string \<Rightarrow> sql_token list \<Rightarrow> bool" where
  "reads s ts \<longleftrightarrow> (\<forall>rest. sql_lex (s @ rest) = prepend ts (sql_lex rest))"

definition reads_open :: "string \<Rightarrow> sql_token list \<Rightarrow> bool" where
  "reads_open s ts \<longleftrightarrow>
    (\<forall>rest. quote_free_head rest \<longrightarrow> sql_lex (s @ rest) = prepend ts (sql_lex rest))"

lemma reads_openI: "reads s ts \<Longrightarrow> reads_open s ts"
  by (simp add: reads_def reads_open_def)

lemma reads_Nil [simp]: "reads [] []"
  by (simp add: reads_def)

lemma reads_plain: "plain s \<Longrightarrow> reads s (map TChar s)"
proof (induction s)
  case (Cons c s)
  then have "reads s (map TChar s)" by (simp add: plain_def)
  then show ?case using Cons.prems
    by (auto simp: reads_def plain_def)
qed simp

lemma reads_append: "reads s a \<Longrightarrow> reads t b \<Longrightarrow> reads (s @ t) (a @ b)"
  by (simp add: reads_def)

lemma reads_then_open: "reads s a \<Longrightarrow> reads_open t b \<Longrightarrow> reads_open (s @ t) (a @ b)"
  by (simp add: reads_def reads_open_def)

lemma open_then_plain:
  assumes "reads_open s a" "plain t" "t \<noteq> []"
  shows "reads (s @ t) (a @ map TChar t)"
proof -
  have "quote_free_head (t @ rest)" for rest
    using assms(2,3) by (cases t) (auto simp: plain_def quote_free_head_def)
  then show ?thesis
    using assms(1) reads_plain [OF assms(2)] by (simp add: reads_def reads_open_def)
qed

lemma open_then_reads:
  assumes "reads_open s a" "plain t" "t \<noteq> []" "reads_open u b"
  shows "reads_open (s @ t @ u) (a @ map TChar t @ b)"
  using reads_then_open [OF open_then_plain [OF assms(1-3)] assms(4)] by simp

lemma reads_whole: "reads_open s ts \<Longrightarrow> sql_lex s = Some ts"
  by (auto simp: reads_open_def quote_free_head_def dest: spec [of _ "[]"])

section \<open>Literals\<close>

lemma scan_literal:
  "quote_free_head rest \<Longrightarrow>
   scan_quoted SQUOTE (replace_all SQUOTE [SQUOTE, SQUOTE] v @ SQUOTE # rest) = Some (v, rest)"
proof (induction v)
  case Nil then show ?case by (cases rest) (auto simp: quote_free_head_def)
next
  case (Cons c v)
  have "\<exists>d ds. replace_all SQUOTE [SQUOTE, SQUOTE] v @ SQUOTE # rest = d # ds"
    by (cases "replace_all SQUOTE [SQUOTE, SQUOTE] v") auto
  then show ?case using Cons by auto
qed

lemma reads_lit: "reads_open (lit v) [TString v]"
  by (auto simp: reads_open_def lit_def scan_literal)

lemma scan_plain:
  "plain v \<Longrightarrow> q = SQUOTE \<or> q = DQUOTE \<Longrightarrow> rest = [] \<or> hd rest \<noteq> q \<Longrightarrow>
   scan_quoted q (v @ q # rest) = Some (v, rest)"
proof (induction v)
  case Nil then show ?case by (cases rest) auto
next
  case (Cons c v)
  then have "\<exists>d ds. v @ q # rest = d # ds" "c \<noteq> q" "plain v"
    by (cases v; auto simp: plain_def)+
  then show ?case using Cons by auto
qed

text \<open>A template's own literal, and an identifier.\<close>

lemma reads_name: "plain v \<Longrightarrow> reads_open ([SQUOTE] @ v @ [SQUOTE]) [TString v]"
  by (auto simp: reads_open_def quote_free_head_def scan_plain)

lemma reads_ident: "plain v \<Longrightarrow> reads_open ([DQUOTE] @ v @ [DQUOTE]) [TQuoted v]"
  by (auto simp: reads_open_def quote_free_head_def scan_plain)

section \<open>The predicate as pieces\<close>

text \<open>A piece of a template: its own characters, a literal, an identifier.\<close>

datatype piece = P string | L string | I string

fun piece_text :: "piece \<Rightarrow> string" where
  "piece_text (P s) = s"
| "piece_text (L v) = lit v"
| "piece_text (I v) = [DQUOTE] @ v @ [DQUOTE]"

fun piece_tokens :: "piece \<Rightarrow> sql_token list" where
  "piece_tokens (P s) = map TChar s"
| "piece_tokens (L v) = [TString v]"
| "piece_tokens (I v) = [TQuoted v]"

abbreviation pieces_text :: "piece list \<Rightarrow> string" where
  "pieces_text ps \<equiv> concat (map piece_text ps)"

abbreviation pieces_tokens :: "piece list \<Rightarrow> sql_token list" where
  "pieces_tokens ps \<equiv> concat (map piece_tokens ps)"

text \<open>Literals and identifiers stand apart, and the characters between hold no quote.\<close>

fun apart :: "piece list \<Rightarrow> bool" where
  "apart [] \<longleftrightarrow> True"
| "apart (P s # ps) \<longleftrightarrow> plain s \<and> apart ps"
| "apart [L v] \<longleftrightarrow> True"
| "apart [I v] \<longleftrightarrow> plain v"
| "apart (L v # P s # ps) \<longleftrightarrow> s \<noteq> [] \<and> plain s \<and> apart ps"
| "apart (I v # P s # ps) \<longleftrightarrow> plain v \<and> s \<noteq> [] \<and> plain s \<and> apart ps"
| "apart _ \<longleftrightarrow> False"

lemma apart_reads: "apart ps \<Longrightarrow> reads_open (pieces_text ps) (pieces_tokens ps)"
proof (induction ps rule: apart.induct)
  case 1 then show ?case by (simp add: reads_openI)
next
  case (2 s ps) then show ?case by (auto intro: reads_then_open reads_plain)
next
  case (3 v) then show ?case using reads_lit by simp
next
  case (4 v) then show ?case using reads_ident by simp
next
  case (5 v s ps) then show ?case
    using open_then_reads [OF reads_lit [of v], of s] by simp
next
  case (6 v s ps) then show ?case
    using open_then_reads [OF reads_ident [of v], of s] by simp
qed simp_all

lemma apart_P: "apart (P s # ps) \<longleftrightarrow> plain s \<and> apart ps"
  by simp

lemma apart_join:
  "apart a \<Longrightarrow> plain s \<Longrightarrow> s \<noteq> [] \<Longrightarrow> apart b \<Longrightarrow> apart (a @ P s # b)"
  by (induction a rule: apart.induct) auto

fun pieces_join :: "string \<Rightarrow> piece list list \<Rightarrow> piece list" where
  "pieces_join sep [] = []"
| "pieces_join sep [x] = x"
| "pieces_join sep (x # y # ys) = x @ P sep # pieces_join sep (y # ys)"

lemma pieces_join_text: "pieces_text (pieces_join sep xs) = js_join sep (map pieces_text xs)"
  by (induction sep xs rule: pieces_join.induct) auto

lemma pieces_join_apart:
  "plain sep \<Longrightarrow> sep \<noteq> [] \<Longrightarrow> \<forall>x \<in> set xs. apart x \<Longrightarrow> apart (pieces_join sep xs)"
  by (induction sep xs rule: pieces_join.induct) (auto intro: apart_join)

fun expr_pieces :: "sql_expr \<Rightarrow> piece list" where
  "expr_pieces (SCol c) = [I c]"
| "expr_pieces (SLower e) = [P ''lower(''] @ expr_pieces e @ [P '')'']"
| "expr_pieces (SSetting g) = [P ''(SELECT current_setting('', L g, P '', true))'']"
| "expr_pieces (SNullifSetting g) =
     [P ''(SELECT nullif(current_setting('', L g, P '', true), '', L [], P ''))'']"
| "expr_pieces (SLit v) = [L v]"
| "expr_pieces (SCast e ty) = [P ''CAST(''] @ expr_pieces e @ [P '' AS '', P ty, P '')'']"

definition role_pieces :: "string \<Rightarrow> string \<Rightarrow> piece list" where
  "role_pieces r prefix = [P ''(SELECT '', L r, P '' = ANY (string_to_array(coalesce(current_setting('',
     L (prefix @ ''user_roles''), P '', true), '', L [], P ''), '', L [COMMA], P '')))'']"

fun pred_pieces :: "sql_pred \<Rightarrow> piece list" where
  "pred_pieces PFalse = [P ''false'']"
| "pred_pieces (PCmp l k r) =
     expr_pieces l @ P '' '' # [P (op_sql (RULE_OPERATORS k))] @ P '' '' # expr_pieces r"
| "pred_pieces (PList l k rs) =
     expr_pieces l @ P '' '' # [P (op_sql (RULE_OPERATORS k))] @ P '' ('' # pieces_join '', '' (map expr_pieces rs)
       @ P '')'' # []"
| "pred_pieces (PNotNull e) = expr_pieces e @ P '' IS NOT NULL'' # []"
| "pred_pieces (PHasRole r prefix) = role_pieces r prefix"
| "pred_pieces (PNotHasRole r prefix) = P ''NOT ('' # role_pieces r prefix @ P '')'' # []"
| "pred_pieces PNoActor = [P ''(SELECT current_setting('', L ''zveltio.actor'',
     P '', true) IS DISTINCT FROM '', L ''on'', P '')'']"
| "pred_pieces PExempt = [P ''(SELECT lower(coalesce(nullif(current_setting('', L ''zveltio.rls_bypass'',
     P '', true), '', L [], P ''), '', L ''off'', P '')) IN ('', L ''on'', P '', '', L ''true'', P '', '', L ''1'', P ''))'']"
| "pred_pieces PIssuerOff = [P ''(SELECT coalesce(current_setting('', L ''zveltio.issuer_rows'',
     P '', true), '', L [], P '') = '', L [], P '')'']"
| "pred_pieces PIssuerOn = [P ''(SELECT current_setting('', L ''zveltio.issuer_rows'',
     P '', true) = '', L ''on'', P '')'']"
| "pred_pieces (POr ps) = P ''('' # pieces_join '' OR '' (map pred_pieces ps) @ P '')'' # []"
| "pred_pieces (PAnd ps) = P ''('' # pieces_join '' AND '' (map pred_pieces ps) @ P '')'' # []"
| "pred_pieces (PEither p q) = pred_pieces p @ P '' OR '' # pred_pieces q"

text \<open>The names a template holds: columns, settings, types.\<close>

fun plain_expr :: "sql_expr \<Rightarrow> bool" where
  "plain_expr (SCol c) \<longleftrightarrow> plain c"
| "plain_expr (SLower e) \<longleftrightarrow> plain_expr e"
| "plain_expr (SSetting g) \<longleftrightarrow> plain g"
| "plain_expr (SNullifSetting g) \<longleftrightarrow> plain g"
| "plain_expr (SLit v) \<longleftrightarrow> True"
| "plain_expr (SCast e ty) \<longleftrightarrow> plain_expr e \<and> plain ty"

fun plain_pred :: "sql_pred \<Rightarrow> bool" where
  "plain_pred (PCmp l k r) \<longleftrightarrow> plain_expr l \<and> plain_expr r"
| "plain_pred (PList l k rs) \<longleftrightarrow> plain_expr l \<and> list_all plain_expr rs"
| "plain_pred (PNotNull e) \<longleftrightarrow> plain_expr e"
| "plain_pred (PHasRole r prefix) \<longleftrightarrow> plain prefix"
| "plain_pred (PNotHasRole r prefix) \<longleftrightarrow> plain prefix"
| "plain_pred (POr ps) \<longleftrightarrow> list_all plain_pred ps"
| "plain_pred (PAnd ps) \<longleftrightarrow> list_all plain_pred ps"
| "plain_pred (PEither p q) \<longleftrightarrow> plain_pred p \<and> plain_pred q"
| "plain_pred _ \<longleftrightarrow> True"

lemma lit_plain: "plain v \<Longrightarrow> lit v = [SQUOTE] @ v @ [SQUOTE]"
proof -
  assume "plain v"
  then have "replace_all SQUOTE [SQUOTE, SQUOTE] v = v"
    by (induction v) (auto simp: plain_def)
  then show ?thesis by (simp add: lit_def)
qed

lemma expr_pieces_text: "plain_expr e \<Longrightarrow> pieces_text (expr_pieces e) = sql_text e"
  by (induction e) (simp_all add: lit_plain plain_def)

lemma expr_pieces_apart: "plain_expr e \<Longrightarrow> apart (expr_pieces e)"
  by (induction e) (auto simp: plain_def apart_P intro!: apart_join)

lemma role_pieces_text: "plain prefix \<Longrightarrow> pieces_text (role_pieces r prefix) = has_role_text r prefix"
  by (simp add: role_pieces_def has_role_text_def lit_plain plain_def)

lemma role_pieces_apart: "apart (role_pieces r prefix)"
  by (simp add: role_pieces_def plain_def)

lemma op_sql_plain: "plain (op_sql (RULE_OPERATORS k))" "op_sql (RULE_OPERATORS k) \<noteq> []"
  by (cases k; simp add: plain_def)+

lemma pred_pieces_text: "plain_pred p \<Longrightarrow> pieces_text (pred_pieces p) = pred_text p"
proof (induction p rule: pred_pieces.induct)
  case (3 l k rs)
  then have e: "map (pieces_text \<circ> expr_pieces) rs = map sql_text rs"
    by (auto simp: expr_pieces_text list_all_iff)
  show ?case using 3 by (simp add: expr_pieces_text pieces_join_text e)
next
  case (11 ps)
  then have e: "map (pieces_text \<circ> pred_pieces) ps = map pred_text ps"
    by (auto simp: list_all_iff)
  show ?case by (simp add: pieces_join_text e)
next
  case (12 ps)
  then have e: "map (pieces_text \<circ> pred_pieces) ps = map pred_text ps"
    by (auto simp: list_all_iff)
  show ?case by (simp add: pieces_join_text e)
qed (simp_all add: expr_pieces_text role_pieces_text lit_plain plain_def)

lemma pred_pieces_apart: "plain_pred p \<Longrightarrow> apart (pred_pieces p)"
proof (induction p rule: pred_pieces.induct)
  case (2 l k r) then show ?case
    using op_sql_plain [of k] expr_pieces_apart by (auto simp: plain_def intro!: apart_join)
next
  case (3 l k rs)
  then have "apart (pieces_join '', '' (map expr_pieces rs))"
    by (intro pieces_join_apart) (auto simp: list_all_iff plain_def expr_pieces_apart)
  then show ?case using 3 op_sql_plain [of k] expr_pieces_apart
    by (auto simp: plain_def intro!: apart_join)
next
  case (11 ps)
  then have "apart (pieces_join '' OR '' (map pred_pieces ps))"
    by (intro pieces_join_apart) (auto simp: list_all_iff plain_def)
  then show ?case by (auto simp: plain_def apart_P intro!: apart_join)
next
  case (12 ps)
  then have "apart (pieces_join '' AND '' (map pred_pieces ps))"
    by (intro pieces_join_apart) (auto simp: list_all_iff plain_def)
  then show ?case by (auto simp: plain_def apart_P intro!: apart_join)
qed (auto simp: plain_def apart_P expr_pieces_apart role_pieces_apart intro!: apart_join)

section \<open>What the generator emits\<close>

lemma ident_plain: "is_ident s \<Longrightarrow> plain s"
  by (cases s) (auto simp: plain_def is_ident_def is_ident_char_def is_ident_start_def is_letter_def
      is_digit_def list_all_iff)

lemma castable_plain: "ty \<in> set CASTABLE \<Longrightarrow> plain ty"
  by (auto simp: CASTABLE_def plain_def)

lemma prefix_plain: "plain CALLER" "plain ISSUER"
  by (simp_all add: CALLER_def ISSUER_def plain_def)

lemma value_plain:
  "plain ty \<Longrightarrow> plain prefix \<Longrightarrow> valueExpr src ty prefix = Some e \<Longrightarrow> plain_expr e"
  by (auto simp: valueExpr_def castTo_def plain_def split: if_splits)

lemma conditionFor_plain:
  assumes "is_ident (filter_field rule)" "ty \<in> set CASTABLE" "plain prefix"
    and "valueExpr (filter_value_source rule) ty prefix = Some e"
  shows "plain_pred (conditionFor rule k ty prefix)"
proof -
  have "plain_expr (castTo ty (SLit v))" for v
    using castable_plain [OF assms(2)] by (simp add: castTo_def)
  then show ?thesis
    using assms ident_plain [OF assms(1)] value_plain [OF castable_plain [OF assms(2)] assms(3,4)]
    by (simp add: conditionFor_def conditionOf_def Let_def list_all_iff)
qed

lemma applicable_plain:
  "plain_pred c \<Longrightarrow> plain_pred (applicable rule c b)" "plain_pred c \<Longrightarrow> plain_pred (issuerApplicable rule c)"
  by (auto simp: applicable_def issuerApplicable_def roleGuard_def Let_def prefix_plain)

lemma valueExpr_any: "valueExpr src ty p = Some e \<Longrightarrow> \<exists>e'. valueExpr src ty' p' = Some e'"
  by (auto simp: valueExpr_def split: if_splits)

definition gen_plain :: "gen \<Rightarrow> bool" where
  "gen_plain s \<longleftrightarrow> list_all plain_pred (g_terms s) \<and> list_all plain_pred (g_issuerTerms s)"

lemma genRule_plain: "gen_plain s \<Longrightarrow> gen_plain (genRule types rule s)"
proof -
  assume s: "gen_plain s"
  have "plain_pred (conditionFor rule k ty prefix)"
    if "is_ident (filter_field rule)" "ty \<in> set CASTABLE" "plain prefix"
      "valueExpr (filter_value_source rule) ''text'' CALLER = Some e" for k ty prefix e
    using that valueExpr_any [OF that(4), of ty prefix] by (auto intro: conditionFor_plain)
  then show ?thesis using s
    by (auto simp: genRule_def Let_def gen_plain_def deny_def skip_def applicable_plain prefix_plain
        split: option.splits)
qed

lemma gen_plain_fold: "gen_plain s \<Longrightarrow> gen_plain (fold (genRule types) rules s)"
  by (induction rules arbitrary: s) (simp_all add: genRule_plain)

lemma predicate_plain:
  "predicate (buildRowRulePredicate rules types) = Some p \<Longrightarrow> plain_pred p"
proof -
  have "gen_plain gen0" by (simp add: gen_plain_def gen0_def)
  then have "gen_plain (fold (genRule types) rules gen0)" by (rule gen_plain_fold)
  then show "predicate (buildRowRulePredicate rules types) = Some p \<Longrightarrow> plain_pred p"
    by (auto simp: buildRowRulePredicate_def Let_def gen_plain_def split: if_splits)
qed

text \<open>
  C2. Whatever the stored rules hold, the text of the generated policy reads back,
  quote by quote as Postgres reads it, as the template with each role and value one
  literal: no rule's string ends its literal early or reaches the SQL around it.
\<close>

theorem predicate_reads_back:
  assumes "predicate (buildRowRulePredicate rules types) = Some p"
  shows "sql_lex (pred_text p) = Some (pieces_tokens (pred_pieces p))"
  using reads_whole [OF apart_reads [OF pred_pieces_apart [OF predicate_plain [OF assms]]]]
  by (simp add: pred_pieces_text [OF predicate_plain [OF assms]])

definition quoted_rule :: row_rule where
  "quoted_rule = \<lparr> role = ''o'' @ [SQUOTE] @ ''x'', filter_field = ''owner'', filter_op = ''eq'',
     filter_value_source = ''static:'' @ [SQUOTE] @ '') OR ('' @ [SQUOTE] \<rparr>"

definition quoted_pred :: sql_pred where
  "quoted_pred = PEither PExempt (PAnd
     [POr [PNotHasRole (''o'' @ [SQUOTE] @ ''x'') CALLER,
           PCmp (SCol ''owner'') Eq (SLit ([SQUOTE] @ '') OR ('' @ [SQUOTE]))],
      POr [PIssuerOff, PAnd [PIssuerOn, POr [PNotHasRole (''o'' @ [SQUOTE] @ ''x'') ISSUER,
           PCmp (SCol ''owner'') Eq (SLit ([SQUOTE] @ '') OR ('' @ [SQUOTE]))]]]])"

lemma quoted_pred: "predicate (buildRowRulePredicate [quoted_rule] [''owner'' \<mapsto> ''text'']) = Some quoted_pred"
  by code_simp

theorem predicate_reads_back_witness:
  "sql_lex (pred_text quoted_pred) = Some (pieces_tokens (pred_pieces quoted_pred))
   \<and> TString ([SQUOTE] @ '') OR ('' @ [SQUOTE]) \<in> set (pieces_tokens (pred_pieces quoted_pred))"
  using predicate_reads_back [OF quoted_pred] by (simp add: quoted_pred_def)

end
