(* ===== verification/Permissions.thy ===== *)
theory Permissions
  imports Prelude
begin

text \<open>
  The questions \<open>lib/tenancy/permissions.ts\<close> answers for the row rules: is this
  principal allowed, which roles does it hold, which single role is it read as.

  The Casbin model and the \<open>"user"\<close> table are the parameter \<open>authority\<close>, its
  answers sums because every lookup may fail; the caches in front of them (which
  return what the lookup returned) are left out.
\<close>

datatype perm_error =
    LookupFailed
  | Unavailable string string   \<comment> \<open>the 503 problem: action, resource\<close>

record authority =
  au_user_role :: "string \<Rightarrow> (perm_error, string) result"
  au_allows :: "string \<Rightarrow> string \<Rightarrow> string \<Rightarrow> bool \<times> bool"
  au_roles :: "string \<Rightarrow> (perm_error, string list) result"
  au_implicit :: "string \<Rightarrow> (perm_error, string list) result"
  au_unloaded :: "string \<Rightarrow> (perm_error, string list) result"
  au_email :: "string \<Rightarrow> (perm_error, string option) result"

abbreviation bind_result :: "('e, 'a) result \<Rightarrow> ('a \<Rightarrow> ('e, 'b) result) \<Rightarrow> ('e, 'b) result" where
  "bind_result r f \<equiv> (case r of Inl e \<Rightarrow> Inl e | Inr x \<Rightarrow> f x)"

text \<open>\<open>await f().catch(() => false)\<close>\<close>

fun catch_false :: "('e, bool) result \<Rightarrow> bool" where
  "catch_false (Inr b) = b"
| "catch_false (Inl _) = False"

definition ANONYMOUS_SUBJECT :: string where "ANONYMOUS_SUBJECT = ''public''"
definition MEMBER_ROLE :: string where "MEMBER_ROLE = ''member''"

definition isApiKeySubject :: "string \<Rightarrow> bool" where
  "isApiKeySubject subject \<longleftrightarrow> starts_with ''apikey:'' subject"

definition lookupGod :: "authority \<Rightarrow> string \<Rightarrow> (perm_error, bool) result" where
  "lookupGod A userId =
    (if isApiKeySubject userId \<or> userId = ANONYMOUS_SUBJECT then Ok False
     else bind_result (au_user_role A userId) (\<lambda>r. Ok (r = ''god'')))"

definition isGodUser :: "authority \<Rightarrow> string \<Rightarrow> bool" where
  "isGodUser A userId = catch_false (lookupGod A userId)"

definition checkPermission ::
  "authority \<Rightarrow> string \<Rightarrow> string \<Rightarrow> string \<Rightarrow> (perm_error, bool) result" where
  "checkPermission A userId resource action =
    (if isApiKeySubject userId then Ok False
     else if lookupGod A userId = Ok True then Ok True
     else (let (allowed, unread) = au_allows A userId resource action;
               failed = (unread \<or> isl (lookupGod A userId))
           in if allowed \<or> \<not> failed then Ok allowed
              else Throw (Unavailable action resource)))"

definition keyIssuerAllows ::
  "authority \<Rightarrow> string \<Rightarrow> string option \<Rightarrow> string \<Rightarrow> string \<Rightarrow> (perm_error, bool) result" where
  "keyIssuerAllows A keyId authorUserId resource action =
    (if starts_with ''apikey:job:'' keyId then Ok True
     else (case authorUserId of
         None \<Rightarrow> Ok False
       | Some u \<Rightarrow> if u = [] then Ok False else checkPermission A u resource action))"

fun implicit_of_all :: "authority \<Rightarrow> string list \<Rightarrow> (perm_error, string list) result" where
  "implicit_of_all A [] = Ok []"
| "implicit_of_all A (d # ds) =
    bind_result (au_implicit A d) (\<lambda>xs.
    bind_result (implicit_of_all A ds) (\<lambda>ys. Ok (d # xs @ ys)))"

definition resolveUserRole ::
  "authority \<Rightarrow> string option \<Rightarrow> string option \<Rightarrow> (perm_error, string) result" where
  "resolveUserRole A uid role =
    (if role \<noteq> None \<and> role \<noteq> Some [] then Ok (the role)
     else (case uid of None \<Rightarrow> Ok ''public'' | Some u \<Rightarrow>
       if u = [] \<or> u = ANONYMOUS_SUBJECT \<or> isApiKeySubject u then Ok ''public''
       else bind_result (lookupGod A u) (\<lambda>god. if god then Ok ''god'' else
            bind_result (au_implicit A u) (\<lambda>implicit.
            bind_result (au_unloaded A u) (\<lambda>unloaded.
            bind_result (implicit_of_all A unloaded) (\<lambda>more.
              Ok (if MEMBER_ROLE \<in> set (implicit @ more) then MEMBER_ROLE else ''public'')))))))"

definition principalRole :: "authority \<Rightarrow> string \<Rightarrow> (perm_error, string) result" where
  "principalRole A userId =
    (if isApiKeySubject userId then Ok ''api_key'' else resolveUserRole A (Some userId) None)"

definition getUserRoles :: "authority \<Rightarrow> string \<Rightarrow> (perm_error, string list) result" where
  "getUserRoles A userId =
    (if isApiKeySubject userId then Ok []
     else bind_result (au_roles A userId) (\<lambda>held.
          bind_result (au_unloaded A userId) (\<lambda>unloaded.
            Ok (rev (remdups (rev (held @ unloaded)))))))"

section \<open>Facts the row rules use\<close>

lemma job_is_key: "starts_with ''apikey:job:'' k \<Longrightarrow> isApiKeySubject k"
  by (auto simp: isApiKeySubject_def starts_with_iff)

lemma key_subject_simps [simp]:
  assumes "isApiKeySubject u"
  shows "checkPermission A u r a = Ok False" "getUserRoles A u = Ok []" "principalRole A u = Ok ''api_key''"
        "lookupGod A u = Ok False"
  using assms by (simp_all add: checkPermission_def getUserRoles_def principalRole_def lookupGod_def)

lemma public_role [simp]:
  "principalRole A ''public'' = Ok ''public''" "lookupGod A ''public'' = Ok False"
  by (simp_all add: principalRole_def resolveUserRole_def isApiKeySubject_def starts_with_def
      ANONYMOUS_SUBJECT_def lookupGod_def)

lemma principalRole_cases:
  "principalRole A u = Ok r \<Longrightarrow> r \<in> {''api_key'', ''public'', ''god'', ''member''}"
  by (auto simp: principalRole_def resolveUserRole_def MEMBER_ROLE_def split: if_splits sum.splits)

text \<open>A god is allowed everything, and a refusal is given only when every lookup answered.\<close>

lemma checkPermission_god:
  "lookupGod A u = Ok True \<Longrightarrow> checkPermission A u r a = Ok True"
  by (auto simp: checkPermission_def lookupGod_def split: if_splits)

end
