(* ===== verification/Rls.thy ===== *)
theory Rls
  imports RowRulePolicy Permissions
begin

text \<open>
  \<open>lib/tenancy/rls.ts\<close>: the filters a caller's row rules impose, and three of the
  four appliers that read them (the WHERE of a live query, the in-process
  matcher, the jsonb conditions of a snapshot).
\<close>

record rls_policy = row_rule +
  pol_id :: string
  pol_collection :: string
  is_enabled :: bool

record filter_condition =
  c_op :: string
  c_value :: cond_value

record rule_filter =
  rf_field :: string
  rf_condition :: filter_condition
  rf_caseless :: bool

record rls_actor =
  ra_id :: string
  ra_email :: "string option"
  ra_role :: string
  ra_roles :: "string list"

datatype auth_type = Session | ApiKey | Anonymous

record rls_user =
  us_id :: string
  us_email :: "string option"
  us_rlsBypass :: "bool option"
  us_authorUserId :: "string option"

definition OWNER_SOURCES :: "string list" where
  "OWNER_SOURCES = [''user_id'', ''user_email'']"

definition resolveValue :: "string \<Rightarrow> rls_actor \<Rightarrow> string option" where
  "resolveValue source user =
    (if source = ''user_id'' then Some (ra_id user)
     else if source = ''user_email'' then Some (case ra_email user of None \<Rightarrow> [] | Some e \<Rightarrow> e)
     else if source = ''user_role'' then Some (ra_role user)
     else if is_static source then Some (static_value source)
     else None)"

definition nothing :: "string \<Rightarrow> rule_filter" where
  "nothing field = \<lparr> rf_field = field,
     rf_condition = \<lparr> c_op = ''in'', c_value = Many [] \<rparr>, rf_caseless = False \<rparr>"

text \<open>One policy's filter, \<open>None\<close> when its role is not the actor's.\<close>

definition ruleFor :: "'a row_rule_scheme \<Rightarrow> rls_actor \<Rightarrow> rule_filter option" where
  "ruleFor p actor =
    (if \<not> (role p = ''*'' \<or> role p \<in> set (ra_roles actor)) then None
     else (case resolveValue (filter_value_source p) actor of
        None \<Rightarrow> Some (nothing (filter_field p))
      | Some value \<Rightarrow>
       (if value = [] \<and> filter_value_source p \<in> set OWNER_SOURCES then Some (nothing (filter_field p))
        else (let op = (if filter_op p = [] then ''eq'' else filter_op p);
                  isListOp = (op = ''in'' \<or> op = ''not_in'');
                  condValue = (if isListOp \<and> is_static (filter_value_source p)
                               then Many (list_items value) else Scalar value)
              in if foldsCase (filter_value_source p)
                 then Some \<lparr> rf_field = filter_field p,
                   rf_condition = \<lparr> c_op = op, c_value = Scalar (js_lower (js_String condValue)) \<rparr>,
                   rf_caseless = True \<rparr>
                 else Some \<lparr> rf_field = filter_field p,
                   rf_condition = \<lparr> c_op = op, c_value = condValue \<rparr>, rf_caseless = False \<rparr>))))"

fun rulesFor :: "'a row_rule_scheme list \<Rightarrow> rls_actor \<Rightarrow> rule_filter list" where
  "rulesFor [] actor = []"
| "rulesFor (p # ps) actor =
    (case ruleFor p actor of None \<Rightarrow> rulesFor ps actor | Some f \<Rightarrow> f # rulesFor ps actor)"

section \<open>Who is exempt, and whose rules apply\<close>

datatype issuer_actor = IssuerExempt | IssuerUnknown | IssuerIs rls_actor

definition keyIssuerRowActor ::
  "authority \<Rightarrow> string \<Rightarrow> string option \<Rightarrow> (perm_error, issuer_actor) result" where
  "keyIssuerRowActor A keyId authorUserId =
    (if starts_with ''apikey:job:'' keyId then Ok IssuerExempt
     else (case authorUserId of None \<Rightarrow> Ok IssuerUnknown | Some issuer \<Rightarrow>
      (if issuer = [] then Ok IssuerUnknown
       else if catch_false (checkPermission A issuer ''data'' ''view_all'') then Ok IssuerExempt
       else bind_result (principalRole A issuer) (\<lambda>rl.
            bind_result (getUserRoles A issuer) (\<lambda>roles.
            bind_result (au_email A issuer) (\<lambda>email.
              Ok (IssuerIs \<lparr> ra_id = issuer,
                ra_email = Some (case email of None \<Rightarrow> [] | Some e \<Rightarrow> e),
                ra_role = rl, ra_roles = roles \<rparr>)))))))"

text \<open>
  \<open>getRlsFilters\<close> on the policies \<open>loadPolicies\<close> returns: the enabled ones of the
  collection and of \<open>*\<close>.
\<close>

definition rules_exempt :: "authority \<Rightarrow> rls_user \<Rightarrow> auth_type \<Rightarrow> bool" where
  "rules_exempt A user authType =
    (if authType = ApiKey
     then us_rlsBypass user = Some True
          \<and> catch_false (keyIssuerAllows A (us_id user) (us_authorUserId user) ''data'' ''view_all'')
     else catch_false (checkPermission A (us_id user) ''data'' ''view_all''))"

definition getRlsFilters ::
  "authority \<Rightarrow> 'a row_rule_scheme list \<Rightarrow> rls_user \<Rightarrow> auth_type \<Rightarrow> (perm_error, rule_filter list) result" where
  "getRlsFilters A policies user authType =
    (if rules_exempt A user authType then Ok []
     else if policies = [] then Ok []
     else bind_result (principalRole A (us_id user)) (\<lambda>direct.
          bind_result (getUserRoles A (us_id user)) (\<lambda>held.
          (let anonymous = (authType = Anonymous);
               userRoles = (if direct = ''api_key'' \<or> anonymous then List.insert direct held else held);
               result = rulesFor policies \<lparr> ra_id = (if anonymous then [] else us_id user),
                 ra_email = us_email user, ra_role = direct, ra_roles = userRoles \<rparr>
           in if authType \<noteq> ApiKey then Ok result
              else bind_result (keyIssuerRowActor A (us_id user) (us_authorUserId user)) (\<lambda>issuer.
                Ok (case issuer of
                      IssuerUnknown \<Rightarrow> result @ [nothing ''id'']
                    | IssuerExempt \<Rightarrow> result
                    | IssuerIs actor \<Rightarrow> result @ rulesFor policies actor))))))"

section \<open>The appliers\<close>

datatype where_cond =
    WFalse
  | WNotNull string
  | WCmp bool string rule_operator cond_value

text \<open>The conditions \<open>applyRlsFilters\<close> adds to a query, or the throw.\<close>

fun applyRlsFilters :: "rule_filter list \<Rightarrow> (rls_error, where_cond list) result" where
  "applyRlsFilters [] = Ok []"
| "applyRlsFilters (f # fs) =
    (let field = rf_field f; op = c_op (rf_condition f); value = c_value (rf_condition f) in
     if keepsNothing op value then map_sum id ((#) WFalse) (applyRlsFilters fs)
     else if keepsEveryPresent op value then map_sum id ((#) (WNotNull field)) (applyRlsFilters fs)
     else (case rule_operator_of op of
         Some k \<Rightarrow> map_sum id ((#) (WCmp (rf_caseless f) field k
           (if op_list (RULE_OPERATORS k) then Many (asList value) else value))) (applyRlsFilters fs)
       | None \<Rightarrow> Throw (unsupportedOperator field op)))"

fun matchesRlsFilters :: "row \<Rightarrow> rule_filter list \<Rightarrow> (rls_error, bool) result" where
  "matchesRlsFilters rec [] = Ok True"
| "matchesRlsFilters rec (f # fs) =
    (let field = rf_field f; op = c_op (rf_condition f); c = c_value (rf_condition f) in
     case rule_operator_of op of
       None \<Rightarrow> Throw (unsupportedOperator field op)
     | Some k \<Rightarrow>
        (let raw = rec field;
             value = (if rf_caseless f \<and> \<not> droppedForMissingValue raw
                      then Some (js_lower (the raw)) else raw)
         in if droppedForMissingValue value then Ok False
            else if \<not> op_keep (RULE_OPERATORS k) (the value) c then Ok False
            else matchesRlsFilters rec fs))"

datatype json_cond =
    JFalse
  | JNotNull string
  | JCmp bool string rule_operator string
  | JList bool string rule_operator "string list"

fun rlsJsonConditions :: "rule_filter list \<Rightarrow> (rls_error, json_cond list) result" where
  "rlsJsonConditions [] = Ok []"
| "rlsJsonConditions (f # fs) =
    (let field = rf_field f; op = c_op (rf_condition f); value = c_value (rf_condition f) in
     case rule_operator_of op of
       None \<Rightarrow> Throw (unsupportedOperator field op)
     | Some k \<Rightarrow> map_sum id ((#)
        (if keepsNothing op value then JFalse
         else if keepsEveryPresent op value then JNotNull field
         else if op_list (RULE_OPERATORS k)
              then JList (rf_caseless f) field k (map (\<lambda>v. js_String (Scalar v)) (asList value))
              else JCmp (rf_caseless f) field k (js_String value))) (rlsJsonConditions fs))"

section \<open>What Postgres makes of the conditions\<close>

text \<open>
  A bound parameter takes the type of the column it meets; a caseless one is
  compared with \<open>lower(column::text)\<close>.
\<close>

definition param :: "pg \<Rightarrow> string \<Rightarrow> string \<Rightarrow> (string \<times> string option) option" where
  "param pg ty v = map_option (\<lambda>t. (ty, Some t)) (pg_norm pg ty v)"

definition live_lhs :: "pg \<Rightarrow> col_types \<Rightarrow> row \<Rightarrow> bool \<Rightarrow> string \<Rightarrow> (string \<times> string option) option" where
  "live_lhs pg ts r caseless field =
    (case ts field of None \<Rightarrow> None
     | Some ty \<Rightarrow> Some (if caseless then (''text'', map_option (pg_lower pg) (r field))
                        else (ty, r field)))"

fun where_eval :: "pg \<Rightarrow> col_types \<Rightarrow> row \<Rightarrow> where_cond \<Rightarrow> tv option" where
  "where_eval pg ts r WFalse = Some (Some False)"
| "where_eval pg ts r (WNotNull f) =
    (case ts f of None \<Rightarrow> None | Some ty \<Rightarrow> Some (Some (r f \<noteq> None)))"
| "where_eval pg ts r (WCmp caseless f k c) =
    (case live_lhs pg ts r caseless f of None \<Rightarrow> None
     | Some a \<Rightarrow> map_option (signed k)
         (sql_in pg a (map (param pg (fst a)) (op_values k c))))"

definition live_keeps :: "pg \<Rightarrow> col_types \<Rightarrow> row \<Rightarrow> where_cond list \<Rightarrow> bool" where
  "live_keeps pg ts r cs \<longleftrightarrow> (\<forall>c \<in> set cs. where_eval pg ts r c = Some (Some True))"

text \<open>A snapshot is read as \<open>data ->> field\<close>: text, NULL when the key is missing or null.\<close>

fun json_eval :: "pg \<Rightarrow> row \<Rightarrow> json_cond \<Rightarrow> tv" where
  "json_eval pg d JFalse = Some False"
| "json_eval pg d (JNotNull f) = Some (d f \<noteq> None)"
| "json_eval pg d (JCmp caseless f k v) = signed k
    (map_option (\<lambda>t. t = v) (if caseless then map_option (pg_lower pg) (d f) else d f))"
| "json_eval pg d (JList caseless f k vs) = signed k
    (map_option (\<lambda>t. t \<in> set vs) (if caseless then map_option (pg_lower pg) (d f) else d f))"

definition json_keeps :: "pg \<Rightarrow> row \<Rightarrow> json_cond list \<Rightarrow> bool" where
  "json_keeps pg d cs \<longleftrightarrow> (\<forall>c \<in> set cs. json_eval pg d c = Some True)"

end
