(* ===== verification/Appliers.thy ===== *)
theory Appliers
  imports Rls
begin

text \<open>
  The contract the appliers share and the proof that each keeps it.  The
  reference is \<open>filter_keeps\<close>: a filter keeps a row whose field is present and
  whose text is, or for a negative operator is not, among the filter's values.
\<close>

definition folded :: "bool \<Rightarrow> string option \<Rightarrow> string option" where
  "folded caseless v = (if caseless then map_option js_lower v else v)"

definition filter_op_of :: "rule_filter \<Rightarrow> rule_operator option" where
  "filter_op_of f = rule_operator_of (c_op (rf_condition f))"

definition filter_keeps :: "row \<Rightarrow> rule_filter \<Rightarrow> bool" where
  "filter_keeps r f =
    (case (filter_op_of f, folded (rf_caseless f) (r (rf_field f))) of
       (Some k, Some v) \<Rightarrow> (v \<in> set (op_values k (c_value (rf_condition f)))) \<noteq> op_negative k
     | _ \<Rightarrow> False)"

definition filters_keep :: "row \<Rightarrow> rule_filter list \<Rightarrow> bool" where
  "filters_keep r fs \<longleftrightarrow> (\<forall>f \<in> set fs. filter_keeps r f)"

definition known_ops :: "rule_filter list \<Rightarrow> bool" where
  "known_ops fs \<longleftrightarrow> (\<forall>f \<in> set fs. filter_op_of f \<noteq> None)"

lemma filters_keep_simps [simp]:
  "filters_keep r []" "filters_keep r (f # fs) \<longleftrightarrow> filter_keeps r f \<and> filters_keep r fs"
  "filters_keep r (fs @ gs) \<longleftrightarrow> filters_keep r fs \<and> filters_keep r gs"
  by (auto simp: filters_keep_def)

lemma known_ops_simps [simp]:
  "known_ops []" "known_ops (f # fs) \<longleftrightarrow> filter_op_of f \<noteq> None \<and> known_ops fs"
  "known_ops (fs @ gs) \<longleftrightarrow> known_ops fs \<and> known_ops gs"
  by (auto simp: known_ops_def)

lemma filter_keeps_missing: "r (rf_field f) = None \<Longrightarrow> \<not> filter_keeps r f"
  by (auto simp: filter_keeps_def folded_def split: option.splits)

lemma filter_keeps_nothing [simp]: "\<not> filter_keeps r (nothing c)"
  by (auto simp: filter_keeps_def nothing_def filter_op_of_def op_values_def op_negative_def
      split: option.splits)

section \<open>The contract\<close>

text \<open>
  An applier answers \<open>Some b\<close> (the row is kept or not) or \<open>None\<close> (it refuses); on
  the filters it admits it answers as the reference does.
\<close>

locale row_applier =
  fixes keeps :: "row \<Rightarrow> rule_filter list \<Rightarrow> bool option"
    and admits :: "rule_filter list \<Rightarrow> bool"
  assumes agrees: "admits fs \<Longrightarrow> keeps r fs = Some (filters_keep r fs)"
begin

lemma missing_drops:
  "admits fs \<Longrightarrow> f \<in> set fs \<Longrightarrow> r (rf_field f) = None \<Longrightarrow> keeps r fs = Some False"
  using filter_keeps_missing by (auto simp: agrees filters_keep_def)

lemma conjunctive:
  "admits fs \<Longrightarrow> admits gs \<Longrightarrow> admits (fs @ gs) \<Longrightarrow>
   keeps r (fs @ gs) = Some True \<longleftrightarrow> keeps r fs = Some True \<and> keeps r gs = Some True"
  by (simp add: agrees)

lemma nothing_hides:
  "admits fs \<Longrightarrow> nothing c \<in> set fs \<Longrightarrow> keeps r fs = Some False"
  by (auto simp: agrees filters_keep_def intro!: bexI [of _ "nothing c"])

lemma set_invariant:
  "admits fs \<Longrightarrow> admits gs \<Longrightarrow> set fs = set gs \<Longrightarrow> keeps r fs = keeps r gs"
  by (simp add: agrees filters_keep_def)

end

section \<open>The in-process matcher\<close>

definition matcher :: "row \<Rightarrow> rule_filter list \<Rightarrow> bool option" where
  "matcher r fs = (case matchesRlsFilters r fs of Inl _ \<Rightarrow> None | Inr b \<Rightarrow> Some b)"

lemma matches_known: "known_ops fs \<Longrightarrow> matchesRlsFilters r fs = Ok (filters_keep r fs)"
proof (induction fs)
  case (Cons f fs)
  then obtain k where k: "rule_operator_of (c_op (rf_condition f)) = Some k"
    by (auto simp: filter_op_of_def)
  from Cons show ?case
    by (cases "r (rf_field f)")
       (auto simp: Let_def k filter_keeps_def filter_op_of_def folded_def keep_iff
         droppedForMissingValue_def)
qed simp

text \<open>Whatever the operators, a row the matcher keeps is kept by the reference.\<close>

lemma matches_keeps: "matchesRlsFilters r fs = Ok True \<Longrightarrow> filters_keep r fs"
proof (induction fs)
  case (Cons f fs)
  then obtain k where k: "rule_operator_of (c_op (rf_condition f)) = Some k"
    by (auto simp: Let_def split: option.splits)
  from Cons show ?case
    by (cases "r (rf_field f)")
       (auto simp: Let_def k filter_keeps_def filter_op_of_def folded_def keep_iff
         droppedForMissingValue_def split: if_splits)
qed simp

interpretation memory: row_applier matcher known_ops
  by unfold_locales (simp add: matcher_def matches_known)

section \<open>The jsonb conditions\<close>

definition pg_folds :: "pg \<Rightarrow> bool" where
  "pg_folds pg \<longleftrightarrow> (\<forall>s. pg_lower pg s = js_lower s)"

definition json_applier :: "pg \<Rightarrow> row \<Rightarrow> rule_filter list \<Rightarrow> bool option" where
  "json_applier pg r fs =
    (case rlsJsonConditions fs of Inl _ \<Rightarrow> None | Inr cs \<Rightarrow> Some (json_keeps pg r cs))"

lemma json_keeps_simps [simp]:
  "json_keeps pg r []"
  "json_keeps pg r (c # cs) \<longleftrightarrow> json_eval pg r c = Some True \<and> json_keeps pg r cs"
  by (auto simp: json_keeps_def)

lemma signed_Some [simp]: "signed k (Some b) = Some (b \<noteq> op_negative k)"
  by (simp add: signed_def)

lemma signed_None [simp]: "signed k None = None"
  by (simp add: signed_def)

lemma folded_pg: "pg_folds pg \<Longrightarrow> (if c then map_option (pg_lower pg) v else v) = folded c v"
  by (cases v) (auto simp: pg_folds_def folded_def)

definition json_of :: "rule_filter \<Rightarrow> rule_operator \<Rightarrow> json_cond" where
  "json_of f k = (let field = rf_field f; op = c_op (rf_condition f); value = c_value (rf_condition f) in
     if keepsNothing op value then JFalse
     else if keepsEveryPresent op value then JNotNull field
     else if op_list (RULE_OPERATORS k)
          then JList (rf_caseless f) field k (map (\<lambda>v. js_String (Scalar v)) (asList value))
          else JCmp (rf_caseless f) field k (js_String value))"

lemma json_of_eval:
  assumes "pg_folds pg" "filter_op_of f = Some k"
  shows "json_eval pg r (json_of f k) = Some True \<longleftrightarrow> filter_keeps r f"
proof -
  note fold = folded_pg [OF assms(1), symmetric]
  show ?thesis
    using assms(2)
    by (cases "r (rf_field f)"; cases k)
       (auto simp: json_of_def Let_def filter_keeps_def fold filter_op_of_def keepsNothing_iff
         keepsEveryPresent_iff op_values_def op_negative_def)
qed

lemma json_known:
  "known_ops fs \<Longrightarrow> rlsJsonConditions fs = Ok (map (\<lambda>f. json_of f (the (filter_op_of f))) fs)"
  by (induction fs) (auto simp: Let_def filter_op_of_def json_of_def)

lemma json_keeps_iff:
  "pg_folds pg \<Longrightarrow> known_ops fs \<Longrightarrow>
   json_keeps pg r (map (\<lambda>f. json_of f (the (filter_op_of f))) fs) \<longleftrightarrow> filters_keep r fs"
  by (induction fs) (auto simp: json_of_eval)

interpretation snapshot: row_applier "json_applier pg" "\<lambda>fs. pg_folds pg \<and> known_ops fs" for pg
  by unfold_locales (simp add: json_applier_def json_known json_keeps_iff)

section \<open>The live query\<close>

text \<open>A value a type reads back as itself and compares as text.\<close>

definition textual :: "pg \<Rightarrow> string \<Rightarrow> string \<Rightarrow> bool" where
  "textual pg ty v \<longleftrightarrow> pg_norm pg ty v = Some v \<and> (\<forall>t. pg_eq pg ty t v \<longleftrightarrow> t = v)"

definition filter_typed :: "pg \<Rightarrow> col_types \<Rightarrow> rule_filter \<Rightarrow> bool" where
  "filter_typed pg ts f =
    (case filter_op_of f of None \<Rightarrow> False
     | Some k \<Rightarrow> (k = In \<and> c_value (rf_condition f) = Many [])
        \<or> (case ts (rf_field f) of None \<Rightarrow> False | Some ty \<Rightarrow>
          (\<forall>v \<in> set (op_values k (c_value (rf_condition f))).
             textual pg (if rf_caseless f then ''text'' else ty) v)))"

definition live_applier :: "pg \<Rightarrow> col_types \<Rightarrow> row \<Rightarrow> rule_filter list \<Rightarrow> bool option" where
  "live_applier pg ts r fs =
    (case applyRlsFilters fs of Inl _ \<Rightarrow> None | Inr cs \<Rightarrow> Some (live_keeps pg ts r cs))"

lemma sql_in_textual:
  assumes "\<forall>v \<in> set vs. textual pg ty v"
  shows "sql_in pg (ty, x) (map (param pg ty) vs) =
    Some (case x of None \<Rightarrow> if vs = [] then Some False else None | Some t \<Rightarrow> Some (t \<in> set vs))"
  using assms
proof (induction vs)
  case (Cons v vs)
  then show ?case
    by (cases x; cases "the x = v")
       (auto simp: param_def sql_equal_def textual_def split: if_splits)
qed (auto split: option.splits)

definition where_of :: "rule_filter \<Rightarrow> rule_operator \<Rightarrow> where_cond" where
  "where_of f k = (let field = rf_field f; op = c_op (rf_condition f); value = c_value (rf_condition f) in
     if keepsNothing op value then WFalse
     else if keepsEveryPresent op value then WNotNull field
     else WCmp (rf_caseless f) field k
           (if op_list (RULE_OPERATORS k) then Many (asList value) else value))"

lemma live_known:
  "known_ops fs \<Longrightarrow> applyRlsFilters fs = Ok (map (\<lambda>f. where_of f (the (filter_op_of f))) fs)"
  by (induction fs) (auto simp: Let_def filter_op_of_def where_of_def)

lemma op_values_as_list [simp]:
  "op_values k (if op_list (RULE_OPERATORS k) then Many (asList c) else c) = op_values k c"
  by (simp add: op_values_def)

lemma op_values_Nil:
  "op_values k c = [] \<longleftrightarrow> (k = In \<or> k = NotIn) \<and> c = Many []"
  by (cases k; cases c) (auto simp: op_values_def)

lemma where_of_eval:
  assumes "pg_folds pg" "filter_op_of f = Some k" "filter_typed pg ts f"
  shows "where_eval pg ts r (where_of f k) = Some (Some True) \<longleftrightarrow> filter_keeps r f"
proof (cases "k = In \<and> c_value (rf_condition f) = Many []")
  case True
  then show ?thesis using assms(2)
    by (auto simp: where_of_def keepsNothing_iff filter_op_of_def filter_keeps_def op_values_def
        op_negative_def split: option.splits)
next
  case typed: False
  obtain ty where ty: "ts (rf_field f) = Some ty"
    and vals: "\<forall>v \<in> set (op_values k (c_value (rf_condition f))).
             textual pg (if rf_caseless f then ''text'' else ty) v"
    using assms(2,3) typed by (auto simp: filter_typed_def split: option.splits)
  let ?c = "c_value (rf_condition f)"
  have op: "rule_operator_of (c_op (rf_condition f)) = Some k"
    using assms(2) by (simp add: filter_op_of_def)
  show ?thesis
  proof (cases "op_values k ?c = []")
    case True
    then have empty: "?c = Many []" and k: "k = In \<or> k = NotIn"
      by (simp_all add: op_values_Nil)
    from k show ?thesis using op ty empty
      by (cases "r (rf_field f)")
         (auto simp: where_of_def keepsNothing_iff keepsEveryPresent_iff
           filter_keeps_def filter_op_of_def op_values_def op_negative_def folded_def)
  next
    case False
    then have w: "where_of f k = WCmp (rf_caseless f) (rf_field f) k
           (if op_list (RULE_OPERATORS k) then Many (asList ?c) else ?c)"
      using op by (auto simp: where_of_def Let_def keepsNothing_iff keepsEveryPresent_iff op_values_Nil)
    have l: "live_lhs pg ts r (rf_caseless f) (rf_field f) =
      Some (if rf_caseless f then ''text'' else ty, folded (rf_caseless f) (r (rf_field f)))"
      using ty folded_pg [OF assms(1), of "rf_caseless f" "r (rf_field f)"]
      by (auto simp: live_lhs_def)
    show ?thesis
      unfolding w where_eval.simps l option.case op_values_as_list fst_conv
      by (subst sql_in_textual [OF vals])
         (use assms(2) False in \<open>auto simp: filter_keeps_def split: option.splits\<close>)
  qed
qed

lemma live_keeps_simps [simp]:
  "live_keeps pg ts r []"
  "live_keeps pg ts r (c # cs) \<longleftrightarrow> where_eval pg ts r c = Some (Some True) \<and> live_keeps pg ts r cs"
  by (auto simp: live_keeps_def)

definition live_admits :: "pg \<Rightarrow> col_types \<Rightarrow> rule_filter list \<Rightarrow> bool" where
  "live_admits pg ts fs \<longleftrightarrow> pg_folds pg \<and> known_ops fs \<and> (\<forall>f \<in> set fs. filter_typed pg ts f)"

lemma live_keeps_iff:
  "live_admits pg ts fs \<Longrightarrow>
   live_keeps pg ts r (map (\<lambda>f. where_of f (the (filter_op_of f))) fs) \<longleftrightarrow> filters_keep r fs"
  by (induction fs) (auto simp: live_admits_def where_of_eval)

interpretation live: row_applier "live_applier pg ts" "live_admits pg ts" for pg ts
  by unfold_locales (simp add: live_applier_def live_known live_keeps_iff live_admits_def)

end
