(* ===== verification/RlsIdentity.thy ===== *)
theory RlsIdentity
  imports Rls
begin

text \<open>
  Who a request is, as the row-rule policies read it: the identity the tenant
  middleware resolves for a session or a visitor, the one the API-key validator
  publishes, and the settings either puts on the transaction
  (\<open>middleware/tenant.ts\<close>, \<open>lib/tenancy/tenant-manager.ts\<close>,
  \<open>lib/tenancy/tenant-context.ts\<close>, \<open>lib/data/auth.ts\<close>).  Of the settings, the
  ones the row rules read.
\<close>

datatype issuer_mode = ModeOn | ModeDeny

record rls_issuer =
  ri_mode :: issuer_mode
  ri_actor :: rls_actor

record rls_identity =
  id_userId :: string
  id_email :: string
  id_role :: string
  id_roles :: "string list"
  id_bypass :: bool
  id_issuer :: "rls_issuer option"
  id_anonymous :: bool

definition on_off :: "bool \<Rightarrow> string" where
  "on_off b = (if b then ''on'' else ''off'')"

record issuer_settings =
  is_mode :: string
  is_userId :: string
  is_email :: string
  is_role :: string
  is_roles :: string

definition issuerSettings :: "rls_issuer option \<Rightarrow> issuer_settings" where
  "issuerSettings issuer = (case issuer of
     None \<Rightarrow> \<lparr> is_mode = [], is_userId = [], is_email = [], is_role = [], is_roles = [] \<rparr>
   | Some i \<Rightarrow> \<lparr> is_mode = (case ri_mode i of ModeOn \<Rightarrow> ''on'' | ModeDeny \<Rightarrow> ''deny''),
       is_userId = ra_id (ri_actor i),
       is_email = (case ra_email (ri_actor i) of None \<Rightarrow> [] | Some e \<Rightarrow> e),
       is_role = ra_role (ri_actor i), is_roles = js_join '','' (ra_roles (ri_actor i)) \<rparr>)"

text \<open>\<open>set_config(name, value, true)\<close> for each pair, in order.\<close>

definition set_configs :: "(string \<times> string) list \<Rightarrow> gucs \<Rightarrow> gucs" where
  "set_configs kvs g = fold (\<lambda>(k, v) g. g(k \<mapsto> v)) kvs g"

definition actorSettings :: "rls_identity \<Rightarrow> (string \<times> string) list" where
  "actorSettings i = [(''zveltio.user_id'', id_userId i), (''zveltio.user_email'', id_email i),
     (''zveltio.user_role'', id_role i), (''zveltio.user_roles'', js_join '','' (id_roles i))]"

definition issuerRowSettings :: "rls_issuer option \<Rightarrow> (string \<times> string) list" where
  "issuerRowSettings issuer = (let s = issuerSettings issuer in
     [(''zveltio.issuer_rows'', is_mode s), (''zveltio.issuer_user_id'', is_userId s),
      (''zveltio.issuer_user_email'', is_email s), (''zveltio.issuer_user_role'', is_role s),
      (''zveltio.issuer_user_roles'', is_roles s)])"

text \<open>\<open>withTenantIsolation\<close>: all of them written, the empty spellings too; no identity is no actor.\<close>

definition no_identity :: rls_identity where
  "no_identity = \<lparr> id_userId = [], id_email = [], id_role = [], id_roles = [], id_bypass = False,
     id_issuer = None, id_anonymous = False \<rparr>"

definition scopeSettings :: "rls_identity option \<Rightarrow> gucs \<Rightarrow> gucs" where
  "scopeSettings identity g =
    (let i = (case identity of None \<Rightarrow> no_identity | Some i \<Rightarrow> i);
         hasActor = (id_userId i \<noteq> [] \<or> id_anonymous i)
     in set_configs (actorSettings i @ issuerRowSettings (id_issuer i)
          @ [(''zveltio.actor'', on_off hasActor), (''zveltio.rls_bypass'', on_off (id_bypass i))]) g)"

text \<open>The identity the tenant middleware resolves: a session's, or the visitor's.\<close>

record session_user =
  su_id :: string
  su_email :: "string option"
  su_role :: "string option"

definition publicRlsIdentity :: rls_identity where
  "publicRlsIdentity = \<lparr> id_userId = [], id_email = [], id_role = ANONYMOUS_SUBJECT,
     id_roles = [ANONYMOUS_SUBJECT], id_bypass = False, id_issuer = None, id_anonymous = True \<rparr>"

definition requestIdentity ::
  "authority \<Rightarrow> session_user option \<Rightarrow> (perm_error, rls_identity) result" where
  "requestIdentity A session = (case session of
     None \<Rightarrow> Ok publicRlsIdentity
   | Some u \<Rightarrow>
      (if su_id u = [] then Ok publicRlsIdentity
       else bind_result (getUserRoles A (su_id u)) (\<lambda>roles.
        (let bypass = catch_false (checkPermission A (su_id u) ''data'' ''view_all'');
             direct = (case su_role u of
                None \<Rightarrow> resolveUserRole A (Some (su_id u)) None
              | Some r \<Rightarrow> if r = [] then resolveUserRole A (Some (su_id u)) None else Ok r)
         in bind_result direct (\<lambda>d. Ok \<lparr> id_userId = su_id u,
              id_email = (case su_email u of None \<Rightarrow> [] | Some e \<Rightarrow> e), id_role = d, id_roles = roles,
              id_bypass = bypass, id_issuer = None, id_anonymous = False \<rparr>)))))"

text \<open>The key validator and \<open>publishApiKeyActor\<close>.\<close>

record api_key =
  ak_id :: string
  ak_created_by :: "string option"
  ak_rls_bypass :: "bool option"

definition key_principal :: "api_key \<Rightarrow> string" where
  "key_principal k = ''apikey:'' @ ak_id k"

definition key_user :: "api_key \<Rightarrow> rls_user" where
  "key_user k = \<lparr> us_id = key_principal k, us_email = None, us_rlsBypass = ak_rls_bypass k,
     us_authorUserId = ak_created_by k \<rparr>"

definition keyIssuerRows :: "authority \<Rightarrow> api_key \<Rightarrow> (perm_error, bool \<times> rls_issuer option) result" where
  "keyIssuerRows A k =
    (let deny = Some \<lparr> ri_mode = ModeDeny,
           ri_actor = \<lparr> ra_id = [], ra_email = Some [], ra_role = [], ra_roles = [] \<rparr> \<rparr>
     in case ak_created_by k of
       None \<Rightarrow> Ok (False, deny)
     | Some issuer \<Rightarrow>
       (if issuer = [] then Ok (False, deny)
        else (let bypass = (ak_rls_bypass k = Some True
                    \<and> catch_false (checkPermission A issuer ''data'' ''view_all''))
              in bind_result (keyIssuerRowActor A (key_principal k) (Some issuer)) (\<lambda>rows.
                Ok (bypass, case rows of
                     IssuerExempt \<Rightarrow> None
                   | IssuerIs a \<Rightarrow> Some \<lparr> ri_mode = ModeOn, ri_actor = a \<rparr>
                   | IssuerUnknown \<Rightarrow> deny)))))"

definition publishApiKeyActor :: "string \<Rightarrow> bool \<Rightarrow> rls_issuer option \<Rightarrow> gucs \<Rightarrow> gucs" where
  "publishApiKeyActor userId bypass issuer g =
    set_configs ([(''zveltio.user_id'', userId), (''zveltio.user_email'', []),
        (''zveltio.user_role'', ''api_key''), (''zveltio.user_roles'', ''api_key'')]
      @ issuerRowSettings issuer
      @ [(''zveltio.actor'', ''on''), (''zveltio.rls_bypass'', on_off bypass)]) g"

section \<open>What the settings say\<close>

definition publishes :: "gucs \<Rightarrow> string \<Rightarrow> rls_actor \<Rightarrow> bool" where
  "publishes g prefix a \<longleftrightarrow>
     g (prefix @ ''user_id'') = Some (ra_id a)
   \<and> g (prefix @ ''user_email'') = Some (case ra_email a of None \<Rightarrow> [] | Some e \<Rightarrow> e)
   \<and> g (prefix @ ''user_role'') = Some (ra_role a)
   \<and> g (prefix @ ''user_roles'') = Some (js_join '','' (ra_roles a))"

definition caller_actor :: "rls_identity \<Rightarrow> rls_actor" where
  "caller_actor i = \<lparr> ra_id = id_userId i, ra_email = Some (id_email i), ra_role = id_role i,
     ra_roles = id_roles i \<rparr>"

lemma set_configs_simps [simp]:
  "set_configs [] g = g" "set_configs ((k, v) # kvs) g = set_configs kvs (g(k \<mapsto> v))"
  by (simp_all add: set_configs_def)

lemmas publication = set_configs_simps publishes_def CALLER_def ISSUER_def issuerRowSettings_def
  issuerSettings_def Let_def

lemma scopeSettings_publishes:
  "publishes (scopeSettings (Some i) g) CALLER (caller_actor i)"
  "scopeSettings (Some i) g ''zveltio.actor'' = Some (on_off (id_userId i \<noteq> [] \<or> id_anonymous i))"
  "scopeSettings (Some i) g ''zveltio.rls_bypass'' = Some (on_off (id_bypass i))"
  "scopeSettings (Some i) g ''zveltio.issuer_rows'' = Some (is_mode (issuerSettings (id_issuer i)))"
  by (auto simp: publication scopeSettings_def actorSettings_def caller_actor_def split: option.splits)

lemma publishApiKeyActor_publishes:
  "publishes (publishApiKeyActor u b i g) CALLER
     \<lparr> ra_id = u, ra_email = None, ra_role = ''api_key'', ra_roles = [''api_key''] \<rparr>"
  "publishApiKeyActor u b i g ''zveltio.actor'' = Some ''on''"
  "publishApiKeyActor u b i g ''zveltio.rls_bypass'' = Some (on_off b)"
  "publishApiKeyActor u b i g ''zveltio.issuer_rows'' = Some (is_mode (issuerSettings i))"
  "i = Some s \<Longrightarrow> publishes (publishApiKeyActor u b i g) ISSUER (ri_actor s)"
  by (auto simp: publication publishApiKeyActor_def split: option.splits)

end
