(* ===== verification/PolicySemantics.thy ===== *)
theory PolicySemantics
  imports Appliers RlsIdentity
begin

text \<open>
  What the generated policy means: the shape of the predicate
  \<open>buildRowRulePredicate\<close> returns, and each term's value under the settings of an
  actor, compared with the filter \<open>rulesFor\<close> resolves for that actor.
\<close>

section \<open>The terms of the predicate\<close>

definition rule_shape :: "col_types \<Rightarrow> row_rule \<Rightarrow> (string \<times> rule_operator) option" where
  "rule_shape types rule =
    (if valueExpr (filter_value_source rule) ''text'' CALLER = None \<or> \<not> is_ident (filter_field rule) then None
     else case types (filter_field rule) of None \<Rightarrow> None | Some ty \<Rightarrow>
       if ty \<notin> set CASTABLE then None
       else map_option (\<lambda>k. (ty, k)) (rule_operator_of (filter_op rule)))"

definition rule_condition :: "col_types \<Rightarrow> row_rule \<Rightarrow> string \<Rightarrow> sql_pred" where
  "rule_condition types rule prefix =
    (case rule_shape types rule of None \<Rightarrow> PFalse | Some (ty, k) \<Rightarrow> conditionFor rule k ty prefix)"

definition caller_term :: "col_types \<Rightarrow> row_rule \<Rightarrow> sql_pred" where
  "caller_term types rule =
    applicable rule (rule_condition types rule CALLER) (\<not> is_static (filter_value_source rule))"

definition issuer_term :: "col_types \<Rightarrow> row_rule \<Rightarrow> sql_pred" where
  "issuer_term types rule = issuerApplicable rule (rule_condition types rule ISSUER)"

fun fresh :: "string set \<Rightarrow> row_rule list \<Rightarrow> row_rule list" where
  "fresh seen [] = []"
| "fresh seen (r # rs) =
    (if fingerprint r \<in> seen then fresh seen rs else r # fresh (insert (fingerprint r) seen) rs)"

lemma valueExpr_None_static: "valueExpr src ty p = None \<Longrightarrow> \<not> is_static src"
  by (auto simp: valueExpr_def split: if_splits)

lemma genRule_seen:
  "fingerprint rule \<in> set (g_seen s) \<Longrightarrow> genRule types rule s = s"
  by (simp add: genRule_def)

lemma genRule_fresh:
  assumes "fingerprint rule \<notin> set (g_seen s)"
  shows "g_terms (genRule types rule s) = g_terms s @ [caller_term types rule]"
    and "g_issuerTerms (genRule types rule s) = g_issuerTerms s @ [issuer_term types rule]"
    and "g_seen (genRule types rule s) = fingerprint rule # g_seen s"
proof -
  have "g_terms (genRule types rule s) = g_terms s @ [caller_term types rule]
      \<and> g_issuerTerms (genRule types rule s) = g_issuerTerms s @ [issuer_term types rule]
      \<and> g_seen (genRule types rule s) = fingerprint rule # g_seen s"
    using assms
    by (auto simp: genRule_def Let_def deny_def skip_def caller_term_def issuer_term_def
        rule_condition_def rule_shape_def valueExpr_None_static split: option.splits)
  then show "g_terms (genRule types rule s) = g_terms s @ [caller_term types rule]"
    and "g_issuerTerms (genRule types rule s) = g_issuerTerms s @ [issuer_term types rule]"
    and "g_seen (genRule types rule s) = fingerprint rule # g_seen s" by auto
qed

lemma gen_terms:
  "g_terms (fold (genRule types) rules s) = g_terms s @ map (caller_term types) (fresh (set (g_seen s)) rules)"
  "g_issuerTerms (fold (genRule types) rules s) =
     g_issuerTerms s @ map (issuer_term types) (fresh (set (g_seen s)) rules)"
  by (induction rules arbitrary: s) (simp_all add: genRule_seen genRule_fresh)

lemma fresh_Nil: "fresh {} rules = [] \<longleftrightarrow> rules = []"
  by (cases rules) auto

text \<open>The predicate, written out.\<close>

lemma build_predicate:
  "predicate (buildRowRulePredicate rules types) =
    (if rules = [] then None
     else Some (PEither PExempt (PAnd (map (caller_term types) (fresh {} rules)
       @ [POr [PIssuerOff, PAnd (PIssuerOn # map (issuer_term types) (fresh {} rules))]]))))"
  by (simp add: buildRowRulePredicate_def Let_def gen_terms gen0_def fresh_Nil)

text \<open>The fingerprint tells rules apart whose role, field and operator hold no bar.\<close>

definition bar_free :: "row_rule \<Rightarrow> bool" where
  "bar_free r \<longleftrightarrow> CHR ''|'' \<notin> set (role r) \<and> CHR ''|'' \<notin> set (filter_field r) \<and> CHR ''|'' \<notin> set (filter_op r)"

lemma append_sep_inject:
  "d \<notin> set a \<Longrightarrow> d \<notin> set b \<Longrightarrow> a @ d # s = b @ d # t \<longleftrightarrow> a = b \<and> s = t"
proof (induction a arbitrary: b)
  case Nil then show ?case by (cases b) auto
next
  case (Cons x a) then show ?case by (cases b) auto
qed

lemma fingerprint_inject:
  "bar_free a \<Longrightarrow> bar_free b \<Longrightarrow> fingerprint a = fingerprint b \<longleftrightarrow> a = b"
  by (cases a; cases b) (auto simp: fingerprint_def bar_free_def append_sep_inject)

lemma fresh_set:
  assumes "\<forall>r \<in> set rules. bar_free r" "\<forall>r \<in> S. bar_free r"
  shows "S \<union> set (fresh (fingerprint ` S) rules) = S \<union> set rules"
  using assms
proof (induction rules arbitrary: S)
  case (Cons r rs)
  show ?case
  proof (cases "r \<in> S")
    case True
    with Cons show ?thesis by auto
  next
    case False
    with Cons.prems have "fingerprint r \<notin> fingerprint ` S"
      by (auto simp: fingerprint_inject)
    moreover have "insert r S \<union> set (fresh (fingerprint ` insert r S) rs) = insert r S \<union> set rs"
      using Cons.prems by (intro Cons.IH) auto
    ultimately show ?thesis by auto
  qed
qed simp

lemma fresh_same_rules: "\<forall>r \<in> set rules. bar_free r \<Longrightarrow> set (fresh {} rules) = set rules"
  using fresh_set [of rules "{}"] by simp

section \<open>Connectives\<close>

lemma fold_and_True:
  "fold_tv tv_and True ts = Some (Some True) \<longleftrightarrow> (\<forall>t \<in> set ts. t = Some (Some True))"
proof (induction ts)
  case (Cons t ts)
  have "tv_and x y = Some True \<longleftrightarrow> x = Some True \<and> y = Some True" for x y
    using holds_and [of x y] by (simp add: holds_def)
  then show ?case using Cons by (auto split: option.splits)
qed simp

lemma fold_or_True:
  "fold_tv tv_or False ts = Some (Some True) \<longleftrightarrow> None \<notin> set ts \<and> Some (Some True) \<in> set ts"
proof (induction ts)
  case (Cons t ts)
  have or: "tv_or x y = Some True \<longleftrightarrow> x = Some True \<or> y = Some True" for x y
    using holds_or [of x y] by (simp add: holds_def)
  have None: "fold_tv tv_or False ts = None \<longleftrightarrow> None \<in> set ts" for ts
    by (induction ts) (auto split: option.splits)
  show ?case using Cons None [of ts] by (auto simp: or split: option.splits)
qed simp

lemma fold_None: "fold_tv f z ts = None \<longleftrightarrow> None \<in> set ts"
  by (induction ts) (auto split: option.splits)

text \<open>A predicate evaluates without an error, to TRUE exactly when \<open>b\<close>.\<close>

definition decides :: "pg \<Rightarrow> gucs \<Rightarrow> col_types \<Rightarrow> row \<Rightarrow> sql_pred \<Rightarrow> bool \<Rightarrow> bool" where
  "decides pg g ts r p b \<longleftrightarrow> (\<exists>t. pred_eval pg g ts r p = Some t \<and> holds t = b)"

lemma decides_keeps: "decides pg g ts r p b \<Longrightarrow> pred_keeps pg g ts r p = b"
  by (auto simp: decides_def pred_keeps_def holds_def)

lemma decides_Or2:
  "decides pg g ts r p a \<Longrightarrow> decides pg g ts r q b \<Longrightarrow> decides pg g ts r (POr [p, q]) (a \<or> b)"
  by (auto simp: decides_def)

lemma decides_Either:
  "decides pg g ts r p a \<Longrightarrow> decides pg g ts r q b \<Longrightarrow> decides pg g ts r (PEither p q) (a \<or> b)"
  by (auto simp: decides_def)

lemma decides_OrL:
  assumes "list_all2 (decides pg g ts r) ps bs"
  shows "decides pg g ts r (POr ps) (\<exists>b \<in> set bs. b)"
proof -
  from assms have "\<exists>t. fold_tv tv_or False (map (pred_eval pg g ts r) ps) = Some t \<and> holds t = (\<exists>b \<in> set bs. b)"
    by (induction rule: list_all2_induct) (auto simp: decides_def)
  then show ?thesis by (simp add: decides_def)
qed

lemma decides_AndL:
  assumes "list_all2 (decides pg g ts r) ps bs"
  shows "decides pg g ts r (PAnd ps) (\<forall>b \<in> set bs. b)"
proof -
  from assms have "\<exists>t. fold_tv tv_and True (map (pred_eval pg g ts r) ps) = Some t \<and> holds t = (\<forall>b \<in> set bs. b)"
    by (induction rule: list_all2_induct) (auto simp: decides_def)
  then show ?thesis by (simp add: decides_def)
qed

section \<open>A rule's condition\<close>

text \<open>The texts a rule compares with, for an actor.\<close>

definition rule_values :: "row_rule \<Rightarrow> rls_actor \<Rightarrow> string list" where
  "rule_values rule a =
    (case resolveValue (filter_value_source rule) a of None \<Rightarrow> []
     | Some v \<Rightarrow>
        if v = [] \<and> filter_value_source rule \<in> set OWNER_SOURCES then []
        else if filter_op rule \<in> {''in'', ''not_in''} \<and> is_static (filter_value_source rule)
        then list_items v else [v])"

definition rule_ok :: "pg \<Rightarrow> col_types \<Rightarrow> row_rule \<Rightarrow> rls_actor \<Rightarrow> bool" where
  "rule_ok pg ts rule a =
    (case rule_shape ts rule of None \<Rightarrow> valueExpr (filter_value_source rule) ''text'' CALLER = None
     | Some (ty, k) \<Rightarrow> (\<forall>v \<in> set (rule_values rule a). textual pg ty v)
         \<and> (foldsCase (filter_value_source rule) \<longrightarrow> text_like ty))"

definition pg_text_ok :: "pg \<Rightarrow> bool" where
  "pg_text_ok pg \<longleftrightarrow> (\<forall>s. textual pg ''text'' s \<and> textual pg ''character varying'' s)"

lemma static_not_special [simp]:
  "\<not> is_static ''user_id''" "\<not> is_static ''user_email''" "\<not> is_static ''user_role''"
  by (simp_all add: is_static_def starts_with_def)

lemma valueExpr_None_iff: "valueExpr src ty p = None \<longleftrightarrow> resolveValue src a = None"
  by (auto simp: valueExpr_def resolveValue_def)

lemma resolve_no_static: "resolveValue src a = Some v \<Longrightarrow> is_static src \<Longrightarrow> v = static_value src"
  by (auto simp: resolveValue_def split: if_splits)

lemma castTo_eval:
  assumes "sql_eval pg g ts r e = Some (''text'', x)" "\<And>v. x = Some v \<Longrightarrow> textual pg ty v"
  shows "sql_eval pg g ts r (castTo ty e) = Some (ty, x)"
  using assms by (cases x) (auto simp: castTo_def textual_def)

lemma value_eval:
  assumes pub: "publishes g prefix a" and v: "resolveValue src a = Some v"
    and textl: "\<not> (v = [] \<and> src \<in> set OWNER_SOURCES) \<Longrightarrow> textual pg ty v"
  shows "sql_eval pg g ts r (the (valueExpr src ty prefix)) =
    Some (ty, if v = [] \<and> src \<in> set OWNER_SOURCES then None else Some v)"
proof -
  consider "src = ''user_id''" | "src = ''user_email''" | "src = ''user_role''" | "is_static src"
    using v by (auto simp: resolveValue_def split: if_splits)
  then show ?thesis
  proof cases
    case 4
    then have "src \<notin> set OWNER_SOURCES" by (auto simp: OWNER_SOURCES_def)
    moreover have "v = static_value src" using 4 v by (rule resolve_no_static [rotated])
    ultimately show ?thesis using textl 4
      by (auto simp: valueExpr_def intro!: castTo_eval)
  qed (use pub v textl in \<open>auto simp: valueExpr_def OWNER_SOURCES_def publishes_def resolveValue_def
        split: if_splits option.splits intro!: castTo_eval\<close>)
qed

text \<open>A comparison with present values, and one with an absent one.\<close>

definition compares :: "rule_operator \<Rightarrow> string option \<Rightarrow> string list \<Rightarrow> bool" where
  "compares k x vs = (case x of None \<Rightarrow> False | Some t \<Rightarrow> (t \<in> set vs) \<noteq> op_negative k)"

lemma list_decides:
  assumes "sql_eval pg g ts r l = Some (ty, x)"
    and "map (sql_eval pg g ts r) rs = map (\<lambda>v. Some (ty, Some v)) vs"
    and "\<forall>v \<in> set vs. textual pg ty v" "vs \<noteq> []"
  shows "decides pg g ts r (PList l k rs) (compares k x vs)"
proof -
  have "map (sql_eval pg g ts r) rs = map (param pg ty) vs"
    using assms(2,3) by (simp add: param_def textual_def)
  with assms show ?thesis
    by (auto simp: decides_def sql_in_textual compares_def split: option.splits)
qed

lemma cmp_decides:
  assumes "sql_eval pg g ts r l = Some (ty, x)" "sql_eval pg g ts r rhs = Some (ty, Some v)" "textual pg ty v"
  shows "decides pg g ts r (PCmp l k rhs) (compares k x [v])"
  using assms by (auto simp: decides_def sql_equal_def compares_def textual_def split: option.splits)

lemma null_decides:
  assumes "sql_eval pg g ts r l = Some (ty, x)" "sql_eval pg g ts r rhs = Some (ty, None)"
  shows "decides pg g ts r (PCmp l k rhs) False" "decides pg g ts r (PList l k [rhs]) False"
  using assms by (auto simp: decides_def sql_equal_def split: option.splits)

lemma rule_shape_Some:
  "rule_shape ts rule = Some (ty, k) \<longleftrightarrow>
    valueExpr (filter_value_source rule) ''text'' CALLER \<noteq> None \<and> is_ident (filter_field rule)
    \<and> ts (filter_field rule) = Some ty \<and> ty \<in> set CASTABLE \<and> rule_operator_of (filter_op rule) = Some k"
  by (auto simp: rule_shape_def split: option.splits if_splits)

lemma filter_op_nonempty: "rule_operator_of op = Some k \<Longrightarrow> op \<noteq> []"
  by (auto simp: rule_operator_of_def)

lemma op_is_list: "rule_operator_of op = Some k \<Longrightarrow> op_list (RULE_OPERATORS k) \<longleftrightarrow> op = ''in'' \<or> op = ''not_in''"
  by (cases k) (auto simp: rule_operator_of_Some)

definition matched :: "row_rule \<Rightarrow> rls_actor \<Rightarrow> bool" where
  "matched rule a \<longleftrightarrow> role rule = ''*'' \<or> role rule \<in> set (ra_roles a)"

lemma folds_not_static: "foldsCase src \<Longrightarrow> \<not> is_static src"
  by (auto simp: foldsCase_def)

lemma ruleFor_owner:
  "matched rule a \<Longrightarrow> resolveValue (filter_value_source rule) a = Some [] \<Longrightarrow>
   filter_value_source rule \<in> set OWNER_SOURCES \<Longrightarrow> ruleFor rule a = Some (nothing (filter_field rule))"
  by (auto simp: ruleFor_def matched_def)

lemma ruleFor_unknown:
  "matched rule a \<Longrightarrow> resolveValue (filter_value_source rule) a = None \<Longrightarrow>
   ruleFor rule a = Some (nothing (filter_field rule))"
  by (auto simp: ruleFor_def matched_def)

lemma ruleFor_None: "ruleFor rule a = None \<longleftrightarrow> \<not> matched rule a"
  by (auto simp: ruleFor_def matched_def Let_def split: option.splits)

text \<open>The filter a matched rule with a present value resolves to, and the values it compares with.\<close>

definition present_filter :: "row_rule \<Rightarrow> rule_operator \<Rightarrow> string \<Rightarrow> rule_filter" where
  "present_filter rule k v =
    (let fold = foldsCase (filter_value_source rule) in
     \<lparr> rf_field = filter_field rule,
       rf_condition = \<lparr> c_op = filter_op rule,
         c_value = (if fold then Scalar (js_lower v)
           else if op_list (RULE_OPERATORS k) \<and> is_static (filter_value_source rule)
           then Many (list_items v) else Scalar v) \<rparr>,
       rf_caseless = fold \<rparr>)"

lemma ruleFor_present:
  assumes "matched rule a" "rule_operator_of (filter_op rule) = Some k"
    "resolveValue (filter_value_source rule) a = Some v"
    "\<not> (v = [] \<and> filter_value_source rule \<in> set OWNER_SOURCES)"
  shows "ruleFor rule a = Some (present_filter rule k v)"
proof -
  have op: "filter_op rule \<noteq> []" using assms(2) by (rule filter_op_nonempty)
  note l = op_is_list [OF assms(2)]
  have r: "ruleFor rule a = (let isListOp = (filter_op rule = ''in'' \<or> filter_op rule = ''not_in'');
                  condValue = (if isListOp \<and> is_static (filter_value_source rule)
                               then Many (list_items v) else Scalar v)
              in if foldsCase (filter_value_source rule)
                 then Some \<lparr> rf_field = filter_field rule,
                   rf_condition = \<lparr> c_op = filter_op rule, c_value = Scalar (js_lower (js_String condValue)) \<rparr>,
                   rf_caseless = True \<rparr>
                 else Some \<lparr> rf_field = filter_field rule,
                   rf_condition = \<lparr> c_op = filter_op rule, c_value = condValue \<rparr>, rf_caseless = False \<rparr>)"
    using assms op by (auto simp: ruleFor_def matched_def Let_def)
  show ?thesis
    using folds_not_static [of "filter_value_source rule"]
    by (simp add: r present_filter_def Let_def l)
qed

lemma present_filter_values:
  assumes "rule_operator_of (filter_op rule) = Some k" "resolveValue (filter_value_source rule) a = Some v"
    "\<not> (v = [] \<and> filter_value_source rule \<in> set OWNER_SOURCES)"
  shows "op_values k (c_value (rf_condition (present_filter rule k v))) =
    map (if foldsCase (filter_value_source rule) then js_lower else id) (rule_values rule a)"
proof -
  note l = op_is_list [OF assms(1)]
  have "rule_values rule a = (if op_list (RULE_OPERATORS k) \<and> is_static (filter_value_source rule)
      then list_items v else [v])"
    using assms(2,3) by (auto simp: rule_values_def l)
  then show ?thesis using folds_not_static [of "filter_value_source rule"]
    by (auto simp: present_filter_def Let_def op_values_def)
qed

lemma ruleFor_keeps:
  assumes "matched rule a" "ruleFor rule a = Some f" "rule_operator_of (filter_op rule) = Some k"
    "resolveValue (filter_value_source rule) a = Some v"
    "\<not> (v = [] \<and> filter_value_source rule \<in> set OWNER_SOURCES)"
  shows "filter_keeps r f \<longleftrightarrow> compares k (folded (foldsCase (filter_value_source rule)) (r (filter_field rule)))
    (map (if foldsCase (filter_value_source rule) then js_lower else id) (rule_values rule a))"
proof -
  have f: "f = present_filter rule k v"
    using assms(2) ruleFor_present [OF assms(1,3,4,5)] by simp
  have "filter_op_of f = Some k" "rf_field f = filter_field rule"
    "rf_caseless f = foldsCase (filter_value_source rule)"
    by (simp_all add: f present_filter_def Let_def filter_op_of_def assms(3))
  then show ?thesis
    using present_filter_values [OF assms(3-5)]
    by (auto simp: filter_keeps_def compares_def f split: option.splits)
qed

lemma lhs_eval:
  assumes "ts c = Some ty" "pg_folds pg" "ci \<longrightarrow> text_like ty"
  shows "sql_eval pg g ts r (if ci then SLower (SCol c) else SCol c) =
    Some (if ci then ''text'' else ty, folded ci (r c))"
  using assms by (cases "r c") (auto simp: folded_def pg_folds_def)

lemma list_eval:
  "\<forall>v \<in> set vs. textual pg ty v \<Longrightarrow>
   map (sql_eval pg g ts r) (map (\<lambda>v. castTo ty (SLit v)) vs) = map (\<lambda>v. Some (ty, Some v)) vs"
  by (auto intro!: castTo_eval)

theorem condition_decides:
  assumes pg: "pg_folds pg" "pg_text_ok pg" and pub: "publishes g prefix a"
    and shape: "rule_shape ts rule = Some (ty, k)" and ok: "rule_ok pg ts rule a"
    and m: "matched rule a" and f: "ruleFor rule a = Some f"
  shows "decides pg g ts r (conditionFor rule k ty prefix) (filter_keeps r f)"
proof -
  let ?src = "filter_value_source rule" and ?c = "filter_field rule"
  let ?fold = "foldsCase ?src"
  have ts: "ts ?c = Some ty" and op: "rule_operator_of (filter_op rule) = Some k"
    and src: "valueExpr ?src ''text'' CALLER \<noteq> None"
    using shape by (simp_all add: rule_shape_Some)
  have vals: "\<forall>v \<in> set (rule_values rule a). textual pg ty v" and tl: "?fold \<longrightarrow> text_like ty"
    using ok shape by (simp_all add: rule_ok_def)
  obtain v where v: "resolveValue ?src a = Some v"
    using src valueExpr_None_iff [of ?src "''text''" CALLER a] by auto
  have l: "op_list (RULE_OPERATORS k) \<longleftrightarrow> filter_op rule = ''in'' \<or> filter_op rule = ''not_in''"
    using op by (rule op_is_list)
  note lhs = lhs_eval [where r = r and g = g and ts = ts and c = "filter_field rule" and ty = ty
      and pg = pg and ci = "foldsCase (filter_value_source rule)", OF ts pg(1) tl]
  let ?ty = "if ?fold then ''text'' else ty"
  have folds: "textual pg ?ty (if ?fold then js_lower x else x)" if "textual pg ty x" for x
    using that pg(2) by (simp add: pg_text_ok_def)
  show ?thesis
  proof (cases "v = [] \<and> ?src \<in> set OWNER_SOURCES")
    case True
    then have ns: "\<not> is_static ?src" by (auto simp: OWNER_SOURCES_def)
    have "f = nothing ?c" using f v True ruleFor_owner [OF m] by simp
    moreover have "sql_eval pg g ts r (the (valueExpr ?src ty prefix)) = Some (ty, None)"
      using value_eval [OF pub v, of pg ty ts r] True by simp
    then have "sql_eval pg g ts r (if ?fold then SLower (the (valueExpr ?src ty prefix))
        else the (valueExpr ?src ty prefix)) = Some (?ty, None)" using tl by simp
    note null_decides [OF lhs this]
    ultimately show ?thesis using ns by (simp add: conditionFor_def conditionOf_def Let_def)
  next
    case present: False
    note keep = ruleFor_keeps [OF m f op v present, of r]
    show ?thesis
    proof (cases "is_static ?src \<and> op_list (RULE_OPERATORS k)")
      case True
      then have nf: "\<not> ?fold" using folds_not_static by blast
      have rv: "rule_values rule a = list_items (static_value ?src)"
        using True l present v resolve_no_static [OF v] by (auto simp: rule_values_def)
      show ?thesis
      proof (cases "list_items (static_value ?src)")
        case Nil
        then show ?thesis using True nf keep rv op ts l
          by (auto simp: conditionFor_def conditionOf_def Let_def keepsNothing_iff keepsEveryPresent_iff
              decides_def compares_def folded_def op_negative_def op_list_iff split: option.splits)
      next
        case (Cons i rest)
        then have ne: "rule_values rule a \<noteq> []" using rv by simp
        have "conditionFor rule k ty prefix = PList (if ?fold then SLower (SCol ?c) else SCol ?c) k
            (map (\<lambda>v. castTo ty (SLit v)) (rule_values rule a))"
          using True Cons rv nf op by (simp add: conditionFor_def conditionOf_def Let_def
              keepsNothing_def keepsEveryPresent_def)
        then show ?thesis
          using list_decides [OF lhs _ _ ne, where k = k] list_eval [OF vals, of g ts r] vals nf keep by simp
      qed
    next
      case False
      then have rv: "rule_values rule a = [v]"
        using l present v by (auto simp: rule_values_def)
      then have "textual pg ty v" using vals by simp
      then have e: "sql_eval pg g ts r (the (valueExpr ?src ty prefix)) = Some (ty, Some v)"
        using value_eval [OF pub v, of pg ty ts r] present by simp
      let ?rhs = "if ?fold then SLower (the (valueExpr ?src ty prefix)) else the (valueExpr ?src ty prefix)"
      let ?v = "if ?fold then js_lower v else v"
      have rhs: "sql_eval pg g ts r ?rhs = Some (?ty, Some ?v)"
        using e tl pg(1) by (simp add: pg_folds_def)
      have tv: "textual pg ?ty ?v" using folds \<open>textual pg ty v\<close> by simp
      have "decides pg g ts r (PList (if ?fold then SLower (SCol ?c) else SCol ?c) k [?rhs])
          (compares k (folded ?fold (r ?c)) [?v])"
        by (rule list_decides [OF lhs]) (use rhs tv in simp_all)
      moreover note cmp_decides [OF lhs rhs tv, where k = k]
      ultimately show ?thesis using keep rv False
        by (auto simp: conditionFor_def conditionOf_def Let_def)
    qed
  qed
qed

end
