(* ===== verification/RowRuleAgreement.thy ===== *)
theory RowRuleAgreement
  imports PolicySemantics
begin

text \<open>
  One rule, four appliers: the live WHERE, the generated policy, the in-process
  matcher and the jsonb conditions keep the same rows for the same caller.
\<close>

definition roles_clean :: "string list \<Rightarrow> bool" where
  "roles_clean rs \<longleftrightarrow> (\<forall>x \<in> set rs. x \<noteq> [] \<and> COMMA \<notin> set x)"

definition nobody :: rls_actor where
  "nobody = \<lparr> ra_id = [], ra_email = Some [], ra_role = [], ra_roles = [] \<rparr>"

text \<open>
  A rule the door accepts, whose values its column type reads back as themselves
  (every value does on a text column), and whose role holds no bar.
\<close>

definition door_safe :: "pg \<Rightarrow> col_types \<Rightarrow> row_rule \<Rightarrow> bool" where
  "door_safe pg ts rule \<longleftrightarrow>
     describeRuleProblem rule ts = None \<and> CHR ''|'' \<notin> set (role rule)
   \<and> (ts (filter_field rule) \<in> {Some ''text'', Some ''character varying''}
      \<or> is_static (filter_value_source rule)
        \<and> (\<forall>v \<in> set (static_items (filter_op rule) (filter_value_source rule)).
             textual pg (the (ts (filter_field rule))) v))"

definition policy_keeps :: "pg \<Rightarrow> gucs \<Rightarrow> col_types \<Rightarrow> row \<Rightarrow> row_rule list \<Rightarrow> bool" where
  "policy_keeps pg g ts r rules =
    (case predicate (buildRowRulePredicate rules ts) of None \<Rightarrow> True | Some p \<Rightarrow> pred_keeps pg g ts r p)"

section \<open>From the door to the appliers\<close>

lemma ident_no_bar: "is_ident s \<Longrightarrow> CHR ''|'' \<notin> set s"
  by (cases s) (auto simp: is_ident_def is_ident_char_def is_ident_start_def is_letter_def is_digit_def list_all_iff)

lemma known_source_value: "known_source src \<longleftrightarrow> valueExpr src ty p \<noteq> None"
  by (auto simp: known_source_def valueExpr_def)

lemma rule_values_static:
  "is_static (filter_value_source rule) \<Longrightarrow> v \<in> set (rule_values rule a) \<Longrightarrow>
   v \<in> set (static_items (filter_op rule) (filter_value_source rule))"
  by (auto simp: rule_values_def static_items_def resolveValue_def split: if_splits)

lemma door_safe_ok:
  assumes pg: "pg_text_ok pg" and safe: "door_safe pg ts rule"
  shows "rule_ok pg ts rule a" "bar_free rule"
proof -
  from safe obtain ty k where d: "is_ident (filter_field rule)" "ts (filter_field rule) = Some ty"
    "ty \<in> set CASTABLE" "rule_operator_of (filter_op rule) = Some k" "known_source (filter_value_source rule)"
    by (auto simp: door_safe_def elim: describe_None)
  then have shape: "rule_shape ts rule = Some (ty, k)"
    using known_source_value [of "filter_value_source rule" "''text''" CALLER] by (simp add: rule_shape_Some)
  have vals: "textual pg ty v" if "v \<in> set (rule_values rule a)" for v
    using safe d(2) pg rule_values_static [OF _ that] by (auto simp: door_safe_def pg_text_ok_def)
  have "foldsCase (filter_value_source rule) \<Longrightarrow> text_like ty"
    using safe d(2) by (auto simp: door_safe_def foldsCase_def text_like_def)
  with vals shape show "rule_ok pg ts rule a" by (simp add: rule_ok_def)
  show "bar_free rule"
    using safe ident_no_bar [OF d(1)] rule_operator_of_bar_free [OF d(4)]
    by (simp add: door_safe_def bar_free_def)
qed

lemma rulesFor_set: "f \<in> set (rulesFor rules a) \<longleftrightarrow> (\<exists>p \<in> set rules. ruleFor p a = Some f)"
  by (induction rules) (auto split: option.splits)

lemma ruleFor_typed:
  assumes pg: "pg_text_ok pg" and ok: "rule_ok pg ts rule a" and f: "ruleFor rule a = Some f"
  shows "filter_op_of f \<noteq> None" "filter_typed pg ts f"
proof -
  have m: "matched rule a" using f ruleFor_None [of rule a] by auto
  have n: "filter_op_of (nothing c) \<noteq> None \<and> filter_typed pg ts (nothing c)" for c
    by (simp add: filter_op_of_def nothing_def filter_typed_def)
  have "filter_op_of f \<noteq> None \<and> filter_typed pg ts f"
  proof (cases "resolveValue (filter_value_source rule) a")
    case None
    then show ?thesis using ruleFor_unknown [OF m] f n by simp
  next
    case (Some v)
    note v = Some
    let ?src = "filter_value_source rule"
    show ?thesis
    proof (cases "v = [] \<and> ?src \<in> set OWNER_SOURCES")
      case True
      then show ?thesis using ruleFor_owner [OF m] v f n by simp
    next
      case present: False
      have "valueExpr ?src ''text'' CALLER \<noteq> None"
        using v valueExpr_None_iff [of ?src "''text''" CALLER a] by auto
      then obtain ty k where shape: "rule_shape ts rule = Some (ty, k)"
        using ok by (auto simp: rule_ok_def split: option.splits)
      then have ts: "ts (filter_field rule) = Some ty" and op: "rule_operator_of (filter_op rule) = Some k"
        by (simp_all add: rule_shape_Some)
      have vals: "\<forall>x \<in> set (rule_values rule a). textual pg ty x"
        using ok shape by (simp add: rule_ok_def)
      have "f = present_filter rule k v"
        using f ruleFor_present [OF m op v present] by simp
      then show ?thesis
        using ts op vals pg present_filter_values [OF op v present]
        by (auto simp: filter_typed_def filter_op_of_def present_filter_def Let_def pg_text_ok_def)
    qed
  qed
  then show "filter_op_of f \<noteq> None" "filter_typed pg ts f" by simp_all
qed

lemma rulesFor_admitted:
  assumes "pg_folds pg" "pg_text_ok pg" "\<forall>rule \<in> set rules. rule_ok pg ts rule a"
  shows "known_ops (rulesFor rules a)" "live_admits pg ts (rulesFor rules a)"
proof -
  have "filter_op_of f \<noteq> None \<and> filter_typed pg ts f" if "f \<in> set (rulesFor rules a)" for f
    using that assms(3) ruleFor_typed [OF assms(2)] unfolding rulesFor_set by blast
  then show "known_ops (rulesFor rules a)" "live_admits pg ts (rulesFor rules a)"
    using assms(1) unfolding known_ops_def live_admits_def by blast+
qed

lemma filters_keep_rulesFor:
  "filters_keep r (rulesFor rules a) \<longleftrightarrow>
    (\<forall>p \<in> set rules. case ruleFor p a of None \<Rightarrow> True | Some f \<Rightarrow> filter_keeps r f)"
  by (induction rules) (auto split: option.splits)

section \<open>The terms, for a caller\<close>

lemma held_roles_publishes:
  assumes "publishes g prefix a" "roles_clean (ra_roles a)"
  shows "set (held_roles g prefix) = set (ra_roles a)"
proof (cases "ra_roles a")
  case Nil
  then show ?thesis using assms by (simp add: held_roles_def publishes_def string_to_array_def)
next
  case (Cons x xs)
  then have "js_join '','' (ra_roles a) \<noteq> []"
    using assms(2) by (auto simp: js_join_eq_Nil roles_clean_def)
  moreover have "js_split COMMA (js_join [COMMA] (ra_roles a)) = ra_roles a"
    using assms(2) Cons by (intro js_split_join) (auto simp: roles_clean_def)
  ultimately show ?thesis using assms(1)
    by (simp add: held_roles_def publishes_def string_to_array_def)
qed

lemma role_update:
  "filter_field (rule\<lparr> role := x \<rparr>) = filter_field rule" "filter_op (rule\<lparr> role := x \<rparr>) = filter_op rule"
  "filter_value_source (rule\<lparr> role := x \<rparr>) = filter_value_source rule" "role (rule\<lparr> role := x \<rparr>) = x"
  by simp_all

lemma conditionFor_role: "conditionFor (rule\<lparr> role := x \<rparr>) k ty p = conditionFor rule k ty p"
  by (simp add: conditionFor_def conditionOf_def Let_def)

lemma rule_shape_role: "rule_shape ts (rule\<lparr> role := x \<rparr>) = rule_shape ts rule"
  unfolding rule_shape_def role_update by (rule refl)

lemma rule_ok_role: "rule_ok pg ts (rule\<lparr> role := x \<rparr>) a = rule_ok pg ts rule a"
  unfolding rule_ok_def rule_shape_role rule_values_def role_update by (rule refl)

lemma ruleFor_star:
  "matched rule a \<Longrightarrow> ruleFor (rule\<lparr> role := ''*'' \<rparr>) a = ruleFor rule a"
  unfolding ruleFor_def matched_def role_update by simp

lemma rule_condition_decides:
  assumes "pg_folds pg" "pg_text_ok pg" "publishes g prefix a" "rule_ok pg ts rule a"
  shows "\<exists>b. decides pg g ts r (rule_condition ts rule prefix) b
           \<and> (\<forall>f. ruleFor rule a = Some f \<longrightarrow> b = filter_keeps r f)"
proof (cases "rule_shape ts rule")
  case None
  then have "resolveValue (filter_value_source rule) a = None"
    using assms(4) valueExpr_None_iff [of "filter_value_source rule" "''text''" CALLER a]
    by (simp add: rule_ok_def)
  then have "f = nothing (filter_field rule)" if "ruleFor rule a = Some f" for f
    using that ruleFor_unknown [of rule a] ruleFor_None [of rule a] by auto
  then show ?thesis using None
    by (intro exI [of _ False]) (auto simp: rule_condition_def decides_def)
next
  case (Some s)
  then obtain ty k where s: "rule_shape ts rule = Some (ty, k)" by (cases s) auto
  let ?star = "rule\<lparr> role := ''*'' \<rparr>"
  have m: "matched ?star a" by (simp add: matched_def)
  then obtain f where f: "ruleFor ?star a = Some f" using ruleFor_None [of ?star a] by auto
  have "decides pg g ts r (conditionFor ?star k ty prefix) (filter_keeps r f)"
    using assms s by (intro condition_decides [OF assms(1-3) _ _ m f]) (simp_all add: rule_shape_role rule_ok_role)
  then show ?thesis using s f ruleFor_star [of rule a] ruleFor_None [of rule a]
    by (auto simp: rule_condition_def conditionFor_role)
qed

definition rule_keeps :: "row \<Rightarrow> rls_actor \<Rightarrow> row_rule \<Rightarrow> bool" where
  "rule_keeps r a rule = (case ruleFor rule a of None \<Rightarrow> True | Some f \<Rightarrow> filter_keeps r f)"

lemma guard_decides:
  "publishes g prefix a \<Longrightarrow> roles_clean (ra_roles a) \<Longrightarrow>
   decides pg g ts r (PNotHasRole x prefix) (x \<notin> set (ra_roles a))"
  by (simp add: decides_def held_roles_publishes)

lemma caller_term_decides:
  assumes "pg_folds pg" "pg_text_ok pg" "publishes g CALLER a" "roles_clean (ra_roles a)"
    "g ''zveltio.actor'' = Some ''on''" "rule_ok pg ts rule a"
  shows "decides pg g ts r (caller_term ts rule) (rule_keeps r a rule)"
proof -
  obtain b where b: "decides pg g ts r (rule_condition ts rule CALLER) b"
    "\<And>f. ruleFor rule a = Some f \<Longrightarrow> b = filter_keeps r f"
    using rule_condition_decides [OF assms(1-3,6)] by blast
  have noactor: "decides pg g ts r PNoActor False" using assms(5) by (simp add: decides_def)
  note guard = guard_decides [OF assms(3,4), of pg ts r "role rule"]
  let ?static = "is_static (filter_value_source rule)"
  let ?gs = "(if role rule = ''*'' then [] else [role rule \<notin> set (ra_roles a)]) @ (if ?static then [] else [False])"
  have "decides pg g ts r (caller_term ts rule) (\<exists>x \<in> set (?gs @ [b]). x)"
    unfolding caller_term_def applicable_def Let_def
    by (rule decides_OrL) (use b(1) noactor guard in \<open>auto simp: roleGuard_def\<close>)
  moreover have "(\<exists>x \<in> set (?gs @ [b]). x) = rule_keeps r a rule"
    using b(2) ruleFor_None [of rule a]
    by (cases "ruleFor rule a") (auto simp: rule_keeps_def matched_def)
  ultimately show ?thesis by simp
qed

lemma issuer_term_decides:
  assumes "pg_folds pg" "pg_text_ok pg" "publishes g ISSUER a" "roles_clean (ra_roles a)" "rule_ok pg ts rule a"
  shows "decides pg g ts r (issuer_term ts rule) (rule_keeps r a rule)"
proof -
  obtain b where b: "decides pg g ts r (rule_condition ts rule ISSUER) b"
    "\<And>f. ruleFor rule a = Some f \<Longrightarrow> b = filter_keeps r f"
    using rule_condition_decides [OF assms(1-3,5)] by blast
  note guard = guard_decides [OF assms(3,4), of pg ts r "role rule"]
  let ?gs = "if role rule = ''*'' then [] else [role rule \<notin> set (ra_roles a)]"
  have "decides pg g ts r (issuer_term ts rule) (\<exists>x \<in> set (?gs @ [b]). x)"
    using decides_OrL [of pg g ts r "[rule_condition ts rule ISSUER]" "[b]"]
      decides_Or2 [OF guard b(1)] b(1)
    by (cases "role rule = ''*''") (simp_all add: issuer_term_def issuerApplicable_def roleGuard_def)
  moreover have "(\<exists>x \<in> set (?gs @ [b]). x) = rule_keeps r a rule"
    using b(2) ruleFor_None [of rule a]
    by (cases "ruleFor rule a") (auto simp: rule_keeps_def matched_def)
  ultimately show ?thesis by simp
qed

section \<open>The policy, for a caller\<close>

lemma keeps_all_rules:
  "(\<forall>p \<in> set rules. rule_keeps r a p) \<longleftrightarrow> filters_keep r (rulesFor rules a)"
  by (simp add: filters_keep_rulesFor rule_keeps_def)

lemma map_decides:
  "\<forall>p \<in> set ps. decides pg g ts r (t p) (f p) \<Longrightarrow> list_all2 (decides pg g ts r) (map t ps) (map f ps)"
  by (simp add: list_all2_conv_all_nth)

lemma exempt_decides:
  "pg_folds pg \<Longrightarrow> g ''zveltio.rls_bypass'' = Some (on_off b) \<Longrightarrow> decides pg g ts r PExempt b"
  by (cases b) (simp_all add: decides_def on_off_def pg_folds_def js_lower_def lower_char_def)

theorem policy_keeps_iff:
  assumes pg: "pg_folds pg" "pg_text_ok pg"
    and me: "publishes g CALLER me" "roles_clean (ra_roles me)"
    and other: "publishes g ISSUER other" "roles_clean (ra_roles other)"
    and guc: "g ''zveltio.actor'' = Some ''on''" "g ''zveltio.rls_bypass'' = Some (on_off bypass)"
      "g ''zveltio.issuer_rows'' = Some mode"
    and ok: "\<forall>rule \<in> set rules. door_safe pg ts rule"
  shows "policy_keeps pg g ts r rules \<longleftrightarrow> bypass \<or> rules = []
    \<or> (filters_keep r (rulesFor rules me)
        \<and> (mode = [] \<or> mode = ''on'' \<and> filters_keep r (rulesFor rules other)))"
proof (cases "rules = []")
  case True
  then show ?thesis by (simp add: policy_keeps_def build_predicate)
next
  case False
  let ?fr = "fresh {} rules"
  have same: "set ?fr = set rules"
    using ok door_safe_ok(2) [OF pg(2)] by (intro fresh_same_rules) blast
  have good: "rule_ok pg ts rule a" if "rule \<in> set ?fr" for rule a
    using that ok door_safe_ok(1) [OF pg(2)] same by blast
  have c: "list_all2 (decides pg g ts r) (map (caller_term ts) ?fr) (map (rule_keeps r me) ?fr)"
    using good by (intro map_decides) (auto intro!: caller_term_decides [OF pg me guc(1)])
  have i: "list_all2 (decides pg g ts r) (map (issuer_term ts) ?fr) (map (rule_keeps r other) ?fr)"
    using good by (intro map_decides) (auto intro!: issuer_term_decides [OF pg other])
  have off: "decides pg g ts r PIssuerOff (mode = [])"
    and on: "decides pg g ts r PIssuerOn (mode = ''on'')"
    using guc(3) by (simp_all add: decides_def)
  have half: "decides pg g ts r (PAnd (PIssuerOn # map (issuer_term ts) ?fr))
      (mode = ''on'' \<and> filters_keep r (rulesFor rules other))"
    using decides_AndL [of pg g ts r "PIssuerOn # map (issuer_term ts) ?fr"
        "(mode = ''on'') # map (rule_keeps r other) ?fr"] on i
    by (simp add: same flip: keeps_all_rules)
  note issuer = decides_Or2 [OF off half]
  have "decides pg g ts r (PAnd (map (caller_term ts) ?fr
        @ [POr [PIssuerOff, PAnd (PIssuerOn # map (issuer_term ts) ?fr)]]))
      (filters_keep r (rulesFor rules me)
        \<and> (mode = [] \<or> mode = ''on'' \<and> filters_keep r (rulesFor rules other)))"
    using decides_AndL [OF list_all2_appendI [OF c, of "[POr [PIssuerOff, PAnd (PIssuerOn # map (issuer_term ts) ?fr)]]"
          "[mode = [] \<or> mode = ''on'' \<and> filters_keep r (rulesFor rules other)]"]] issuer
    by (simp add: same ball_Un conj_commute flip: keeps_all_rules)
  moreover have "decides pg g ts r PExempt bypass"
    using pg(1) guc(2) by (rule exempt_decides)
  ultimately have "decides pg g ts r (the (predicate (buildRowRulePredicate rules ts)))
      (bypass \<or> filters_keep r (rulesFor rules me)
        \<and> (mode = [] \<or> mode = ''on'' \<and> filters_keep r (rulesFor rules other)))"
    using False by (auto simp: build_predicate intro: decides_Either)
  from decides_keeps [OF this] False
  show ?thesis by (simp add: policy_keeps_def build_predicate)
qed

section \<open>A session, a visitor and a key\<close>

text \<open>What an applier of a result of \<open>getRlsFilters\<close> answers, all three of them at once.\<close>

definition appliers_keep :: "pg \<Rightarrow> col_types \<Rightarrow> row \<Rightarrow> rule_filter list \<Rightarrow> bool \<Rightarrow> bool" where
  "appliers_keep pg ts r fs b \<longleftrightarrow>
     matchesRlsFilters r fs = Ok b
   \<and> (\<exists>cs. applyRlsFilters fs = Ok cs \<and> live_keeps pg ts r cs = b)
   \<and> (\<exists>cs. rlsJsonConditions fs = Ok cs \<and> json_keeps pg r cs = b)"

lemma appliers_keep_iff:
  assumes "live_admits pg ts fs"
  shows "appliers_keep pg ts r fs (filters_keep r fs)"
proof -
  have "pg_folds pg" "known_ops fs" using assms by (simp_all add: live_admits_def)
  then show ?thesis using assms
    by (auto simp: appliers_keep_def matches_known live_known json_known live_keeps_iff json_keeps_iff)
qed

lemma live_admits_nothing: "live_admits pg ts fs \<Longrightarrow> live_admits pg ts (fs @ [nothing c])"
  by (auto simp: live_admits_def filter_op_of_def nothing_def filter_typed_def)

lemma live_admits_append:
  "live_admits pg ts fs \<Longrightarrow> live_admits pg ts gs \<Longrightarrow> live_admits pg ts (fs @ gs)"
  by (auto simp: live_admits_def)

lemma live_admits_Nil: "pg_folds pg \<Longrightarrow> live_admits pg ts []"
  by (simp add: live_admits_def)

lemma publishes_nobody:
  "id_issuer i = None \<Longrightarrow> publishes (scopeSettings (Some i) g) ISSUER nobody"
  by (simp add: publication scopeSettings_def actorSettings_def nobody_def)

lemma publishes_nobody_key:
  "publishes (publishApiKeyActor u b None g) ISSUER nobody"
  by (simp add: publication publishApiKeyActor_def nobody_def)

lemma clean_nobody [simp]: "roles_clean (ra_roles nobody)"
  by (simp add: roles_clean_def nobody_def)

lemma rules_admitted:
  "pg_folds pg \<Longrightarrow> pg_text_ok pg \<Longrightarrow> \<forall>rule \<in> set rules. door_safe pg ts rule \<Longrightarrow>
   live_admits pg ts (rulesFor rules a)"
  using rulesFor_admitted(2) door_safe_ok(1) by blast

definition session_rls_user :: "session_user \<Rightarrow> rls_user" where
  "session_rls_user u = \<lparr> us_id = su_id u, us_email = su_email u, us_rlsBypass = None,
     us_authorUserId = None \<rparr>"

text \<open>The published bypass is the exemption \<open>getRlsFilters\<close> grants.\<close>

lemma session_identity:
  assumes "requestIdentity A (Some u) = Ok i" "su_id u \<noteq> []" "\<not> isApiKeySubject (su_id u)"
    and "su_role u \<in> {None, Some []}"
  obtains d roles where "principalRole A (su_id u) = Ok d" "getUserRoles A (su_id u) = Ok roles" "d \<noteq> ''api_key''"
    "i = \<lparr> id_userId = su_id u, id_email = (case su_email u of None \<Rightarrow> [] | Some e \<Rightarrow> e), id_role = d,
       id_roles = roles, id_bypass = catch_false (checkPermission A (su_id u) ''data'' ''view_all''),
       id_issuer = None, id_anonymous = False \<rparr>"
proof -
  have "resolveUserRole A (Some (su_id u)) None \<noteq> Ok ''api_key''"
    using assms(3) principalRole_cases [of A "su_id u" "''api_key''"]
    by (auto simp: resolveUserRole_def MEMBER_ROLE_def split: sum.splits if_splits)
  then show thesis using assms that
    by (auto simp: requestIdentity_def principalRole_def Let_def split: sum.splits)
qed


text \<open>
  The same for an API key, whose rules are its own and its issuer's: the filters
  of both, and the policy under the settings \<open>publishApiKeyActor\<close> puts on the
  transaction, keep the same rows; a key of unknown issuer sees no row a rule covers.
\<close>

theorem key_agreement:
  assumes pg: "pg_folds pg" "pg_text_ok pg"
    and ok: "\<forall>rule \<in> set rules. door_safe pg ts rule"
    and k: "\<not> starts_with ''job:'' (ak_id k)" "keyIssuerRows A k = Ok (bypass, issuer)"
    and clean: "\<And>s. issuer = Some s \<Longrightarrow> roles_clean (ra_roles (ri_actor s))"
  shows "\<exists>fs. getRlsFilters A rules (key_user k) ApiKey = Ok fs
    \<and> appliers_keep pg ts r fs
        (policy_keeps pg (publishApiKeyActor (key_principal k) bypass issuer g) ts r rules)"
proof -
  let ?me = "\<lparr> ra_id = key_principal k, ra_email = None, ra_role = ''api_key'', ra_roles = [''api_key''] \<rparr>"
  let ?g = "publishApiKeyActor (key_principal k) bypass issuer g"
  have nojob: "\<not> starts_with ''apikey:job:'' (key_principal k)"
    using k(1) by (auto simp: key_principal_def starts_with_iff)
  have key: "isApiKeySubject (key_principal k)"
    by (simp add: isApiKeySubject_def key_principal_def starts_with_def)
  have me: "publishes ?g CALLER ?me" "roles_clean (ra_roles ?me)"
    by (rule publishApiKeyActor_publishes) (simp add: roles_clean_def)
  define other where "other = (case issuer of None \<Rightarrow> nobody | Some s \<Rightarrow> ri_actor s)"
  have other: "publishes ?g ISSUER other" "roles_clean (ra_roles other)"
    using publishes_nobody_key publishApiKeyActor_publishes(5) clean
    by (auto simp: other_def split: option.splits)
  note guc = publishApiKeyActor_publishes(2-4) [of "key_principal k" bypass issuer g]
  note policy = policy_keeps_iff [OF pg me other guc ok]
  have exempt: "rules_exempt A (key_user k) ApiKey = bypass"
    using k(2) nojob
    by (auto simp: rules_exempt_def key_user_def keyIssuerAllows_def keyIssuerRows_def Let_def
        split: option.splits if_splits sum.splits)
  have actor: "\<exists>rows. keyIssuerRowActor A (key_principal k) (ak_created_by k) = Ok rows
      \<and> (case rows of IssuerExempt \<Rightarrow> issuer = None
         | IssuerIs a \<Rightarrow> issuer = Some \<lparr> ri_mode = ModeOn, ri_actor = a \<rparr>
         | IssuerUnknown \<Rightarrow> \<exists>a. issuer = Some \<lparr> ri_mode = ModeDeny, ri_actor = a \<rparr>)"
    using k(2) nojob
    by (auto simp: keyIssuerRows_def keyIssuerRowActor_def Let_def
        split: option.splits if_splits sum.splits issuer_actor.splits)
  then obtain rows where rows: "keyIssuerRowActor A (key_principal k) (ak_created_by k) = Ok rows"
    and issuer: "case rows of IssuerExempt \<Rightarrow> issuer = None
         | IssuerIs a \<Rightarrow> issuer = Some \<lparr> ri_mode = ModeOn, ri_actor = a \<rparr>
         | IssuerUnknown \<Rightarrow> \<exists>a. issuer = Some \<lparr> ri_mode = ModeDeny, ri_actor = a \<rparr>" by blast
  define fs where "fs = (if bypass \<or> rules = [] then [] else rulesFor rules ?me @
      (case rows of IssuerUnknown \<Rightarrow> [nothing ''id''] | IssuerExempt \<Rightarrow> [] | IssuerIs a \<Rightarrow> rulesFor rules a))"
  have fs: "getRlsFilters A rules (key_user k) ApiKey = Ok fs"
    using key rows exempt
    by (auto simp: getRlsFilters_def key_user_def fs_def Let_def split: issuer_actor.splits)
  have "live_admits pg ts fs"
    using rules_admitted [OF pg ok] live_admits_Nil [OF pg(1)]
    by (auto simp: fs_def live_admits_append live_admits_nothing split: issuer_actor.splits)
  then have "appliers_keep pg ts r fs (filters_keep r fs)" by (rule appliers_keep_iff)
  moreover have "policy_keeps pg ?g ts r rules = filters_keep r fs"
    using policy issuer
    by (auto simp: fs_def issuerSettings_def other_def split: issuer_actor.splits)
  ultimately show ?thesis using fs by auto
qed

definition visitor_user :: rls_user where
  "visitor_user = \<lparr> us_id = ANONYMOUS_SUBJECT, us_email = None, us_rlsBypass = None, us_authorUserId = None \<rparr>"

text \<open>
  The same for a visitor with no session, who is the \<open>public\<close> role on every path
  while that subject is given no role and no exemption of its own.
\<close>

theorem visitor_agreement:
  assumes pg: "pg_folds pg" "pg_text_ok pg"
    and ok: "\<forall>rule \<in> set rules. door_safe pg ts rule"
    and casbin: "getUserRoles A ''public'' = Ok []" "checkPermission A ''public'' ''data'' ''view_all'' = Ok False"
  shows "\<exists>fs i. getRlsFilters A rules visitor_user Anonymous = Ok fs \<and> requestIdentity A None = Ok i
    \<and> appliers_keep pg ts r fs (policy_keeps pg (scopeSettings (Some i) g) ts r rules)"
proof -
  let ?me = "\<lparr> ra_id = [], ra_email = None, ra_role = ''public'', ra_roles = [''public''] \<rparr>"
  let ?g = "scopeSettings (Some publicRlsIdentity) g"
  have me: "publishes ?g CALLER ?me" "roles_clean (ra_roles ?me)"
    using scopeSettings_publishes(1) [of publicRlsIdentity g]
    by (simp_all add: publishes_def caller_actor_def publicRlsIdentity_def ANONYMOUS_SUBJECT_def roles_clean_def)
  have guc: "?g ''zveltio.actor'' = Some ''on''" "?g ''zveltio.rls_bypass'' = Some (on_off False)"
    "?g ''zveltio.issuer_rows'' = Some []"
    using scopeSettings_publishes(2-4) [of publicRlsIdentity g]
    by (simp_all add: publicRlsIdentity_def on_off_def issuerSettings_def)
  have "id_issuer publicRlsIdentity = None" by (simp add: publicRlsIdentity_def)
  note policy = policy_keeps_iff [OF pg me publishes_nobody [OF this] clean_nobody guc ok]
  define fs where "fs = rulesFor rules ?me"
  have "getRlsFilters A rules visitor_user Anonymous = Ok fs"
    using casbin by (simp add: getRlsFilters_def rules_exempt_def visitor_user_def ANONYMOUS_SUBJECT_def
        fs_def Let_def)
  moreover have "appliers_keep pg ts r fs (filters_keep r fs)"
    using rules_admitted [OF pg ok] by (simp add: fs_def appliers_keep_iff)
  moreover have "policy_keeps pg ?g ts r rules = filters_keep r fs"
    using policy by (auto simp: fs_def)
  ultimately show ?thesis by (auto simp: requestIdentity_def intro!: exI [of _ fs])
qed

section \<open>Witnesses\<close>

text \<open>A Postgres of text columns, an instance with one member, and a rule of each source.\<close>

definition plain_pg :: pg where
  "plain_pg = \<lparr> pg_norm = (\<lambda>ty s. Some s), pg_eq = (\<lambda>ty a b. a = b), pg_lower = js_lower \<rparr>"

definition demo_authority :: authority where
  "demo_authority = \<lparr> au_user_role = (\<lambda>u. Ok ''user''), au_allows = (\<lambda>u r a. (False, False)),
     au_roles = (\<lambda>u. Ok (if u = ''u1'' then [''member''] else [])),
     au_implicit = (\<lambda>u. Ok (if u = ''u1'' then [''member''] else [])), au_unloaded = (\<lambda>u. Ok []),
     au_email = (\<lambda>u. Ok (Some ''Ann@x.io'')) \<rparr>"

definition demo_rules :: "row_rule list" where
  "demo_rules =
    [\<lparr> role = ''member'', filter_field = ''owner'', filter_op = ''eq'', filter_value_source = ''user_email'' \<rparr>,
     \<lparr> role = ''*'', filter_field = ''state'', filter_op = ''not_in'', filter_value_source = ''static:draft, old'' \<rparr>]"

definition demo_types :: col_types where
  "demo_types = [''owner'' \<mapsto> ''text'', ''state'' \<mapsto> ''character varying'', ''id'' \<mapsto> ''uuid'']"

definition demo_row :: row where
  "demo_row = [''owner'' \<mapsto> ''ann@X.io'', ''state'' \<mapsto> ''live'']"

definition demo_user :: session_user where
  "demo_user = \<lparr> su_id = ''u1'', su_email = Some ''Ann@x.io'', su_role = None \<rparr>"

definition demo_key :: api_key where
  "demo_key = \<lparr> ak_id = ''k1'', ak_created_by = Some ''u1'', ak_rls_bypass = None \<rparr>"

lemmas demo_defs = demo_rules_def demo_types_def demo_row_def demo_user_def demo_key_def
  demo_authority_def plain_pg_def

lemma plain_pg_laws: "pg_folds plain_pg" "pg_text_ok plain_pg"
  by (simp_all add: plain_pg_def pg_folds_def pg_text_ok_def textual_def)

lemma demo_door: "\<forall>rule \<in> set demo_rules. door_safe plain_pg demo_types rule"
proof -
  have "list_items ''draft, old'' \<noteq> []" by code_simp
  then show ?thesis
    by (simp add: demo_rules_def demo_types_def door_safe_def describeRuleProblem_def is_ident_def
        is_ident_start_def is_ident_char_def is_letter_def CASTABLE_def isRuleOperator_def known_source_def
        emptyStaticList_def is_static_def starts_with_def static_value_def strict_type_def NUMERIC_def)
qed

definition demo_identity :: rls_identity where
  "demo_identity = \<lparr> id_userId = ''u1'', id_email = ''Ann@x.io'', id_role = ''member'', id_roles = [''member''],
     id_bypass = False, id_issuer = None, id_anonymous = False \<rparr>"

lemma demo_permissions:
  "requestIdentity demo_authority (Some demo_user) = Ok demo_identity"
  "\<not> isApiKeySubject (su_id demo_user)" "su_id demo_user \<noteq> []" "su_role demo_user \<in> {None, Some []}"
  "getUserRoles demo_authority ''public'' = Ok []"
  "checkPermission demo_authority ''public'' ''data'' ''view_all'' = Ok False"
  by code_simp+


lemma demo_key_issuer:
  "\<not> starts_with ''job:'' (ak_id demo_key)"
  "keyIssuerRows demo_authority demo_key = Ok (False, Some \<lparr> ri_mode = ModeOn,
     ri_actor = \<lparr> ra_id = ''u1'', ra_email = Some ''Ann@x.io'', ra_role = ''member'', ra_roles = [''member''] \<rparr> \<rparr>)"
  by code_simp+

theorem key_agreement_witness:
  "\<exists>fs. getRlsFilters demo_authority demo_rules (key_user demo_key) ApiKey = Ok fs
    \<and> appliers_keep plain_pg demo_types demo_row fs (policy_keeps plain_pg (publishApiKeyActor (key_principal demo_key) False (Some \<lparr> ri_mode = ModeOn,
     ri_actor = \<lparr> ra_id = ''u1'', ra_email = Some ''Ann@x.io'', ra_role = ''member'', ra_roles = [''member''] \<rparr> \<rparr>)
       Map.empty) demo_types demo_row demo_rules)"
  by (rule key_agreement [OF plain_pg_laws demo_door demo_key_issuer]) (auto simp: roles_clean_def)

theorem visitor_agreement_witness:
  "\<exists>fs i. getRlsFilters demo_authority demo_rules visitor_user Anonymous = Ok fs
    \<and> requestIdentity demo_authority None = Ok i
    \<and> appliers_keep plain_pg demo_types demo_row fs
        (policy_keeps plain_pg (scopeSettings (Some i) Map.empty) demo_types demo_row demo_rules)"
  by (rule visitor_agreement [OF plain_pg_laws demo_door demo_permissions(5,6)])

end
