(* ===== verification/RowRuleStore.thy ===== *)
theory RowRuleStore
  imports Rls "HOL-Library.List_Lexorder"
begin

text \<open>
  The writers of the row rules (\<open>rls.ts\<close>: create, update, delete) and the policies
  they rebuild in the same transaction (\<open>row-rule-policy.ts\<close>).  The database is
  the rules, the registered collections, the tables with their columns, and the
  \<open>zv_row_rules\<close> policy of each table.  A table busy past the lock bound refuses
  the rebuild, and the transaction leaves the database as it was.
\<close>

record rule_db =
  db_rules :: "rls_policy list"
  db_collections :: "string list"
  db_tables :: "string \<rightharpoonup> col_types"
  db_tableNames :: "string list"
  db_policies :: "string \<rightharpoonup> sql_pred"

datatype write_error =
    LockTimeout string
  | PolicyRejected string
  | Unenforceable rule_problem

text \<open>
  What \<open>CREATE POLICY\<close> checks of a predicate: columns exist, comparisons are
  between one type, \<open>lower\<close> is of text, and a literal cast is one the type reads.
\<close>

fun sql_type :: "pg \<Rightarrow> col_types \<Rightarrow> sql_expr \<Rightarrow> string option" where
  "sql_type pg ts (SCol c) = ts c"
| "sql_type pg ts (SLower e) =
    (case sql_type pg ts e of None \<Rightarrow> None | Some ty \<Rightarrow> if text_like ty then Some ''text'' else None)"
| "sql_type pg ts (SSetting g) = Some ''text''"
| "sql_type pg ts (SNullifSetting g) = Some ''text''"
| "sql_type pg ts (SLit v) = Some ''text''"
| "sql_type pg ts (SCast (SLit v) ty) = (if pg_norm pg ty v = None then None else Some ty)"
| "sql_type pg ts (SCast e ty) = map_option (\<lambda>_. ty) (sql_type pg ts e)"

fun pred_typed :: "pg \<Rightarrow> col_types \<Rightarrow> sql_pred \<Rightarrow> bool" where
  "pred_typed pg ts (PCmp l k r) \<longleftrightarrow> sql_type pg ts l \<noteq> None \<and> sql_type pg ts l = sql_type pg ts r"
| "pred_typed pg ts (PList l k rs) \<longleftrightarrow>
     sql_type pg ts l \<noteq> None \<and> list_all (\<lambda>r. sql_type pg ts r = sql_type pg ts l) rs"
| "pred_typed pg ts (PNotNull e) \<longleftrightarrow> sql_type pg ts e \<noteq> None"
| "pred_typed pg ts (POr ps) \<longleftrightarrow> list_all (pred_typed pg ts) ps"
| "pred_typed pg ts (PAnd ps) \<longleftrightarrow> list_all (pred_typed pg ts) ps"
| "pred_typed pg ts (PEither p q) \<longleftrightarrow> pred_typed pg ts p \<and> pred_typed pg ts q"
| "pred_typed pg ts _ \<longleftrightarrow> True"

definition tableOf :: "string \<Rightarrow> string" where
  "tableOf collection = ''zvd_'' @ collection"

text \<open>The enabled rules of a collection and of \<open>*\<close>, as the generator and \<open>loadPolicies\<close> read them.\<close>

definition rulesOf :: "rule_db \<Rightarrow> string \<Rightarrow> row_rule list" where
  "rulesOf db c = map row_rule.truncate
     (filter (\<lambda>p. is_enabled p \<and> (pol_collection p = c \<or> pol_collection p = ''*'')) (db_rules db))"

definition rebuildRowRulePolicy ::
  "pg \<Rightarrow> rule_db \<Rightarrow> string \<Rightarrow> col_types \<Rightarrow> (write_error, rule_db) result" where
  "rebuildRowRulePolicy pg db c types =
    (let table = tableOf c;
         p = predicate (buildRowRulePredicate (rulesOf db c) types)
     in case p of
          None \<Rightarrow> Ok (db\<lparr> db_policies := (db_policies db)(table := None) \<rparr>)
        | Some q \<Rightarrow>
            if pred_typed pg types q then Ok (db\<lparr> db_policies := (db_policies db)(table := Some q) \<rparr>)
            else Throw (PolicyRejected table))"

definition applyRowRulePolicy ::
  "pg \<Rightarrow> (string \<Rightarrow> bool) \<Rightarrow> rule_db \<Rightarrow> string \<Rightarrow> (write_error, rule_db) result" where
  "applyRowRulePolicy pg busy db c =
    (let table = tableOf c in
     if ident table = None then Ok db
     else (case db_tables db table of None \<Rightarrow> Ok db
       | Some types \<Rightarrow>
          if busy table then Throw (LockTimeout table) else rebuildRowRulePolicy pg db c types))"

definition rowRuleCollections :: "rule_db \<Rightarrow> string list" where
  "rowRuleCollections db =
    (let own = map pol_collection (filter (\<lambda>p. is_enabled p \<and> pol_collection p \<noteq> ''*'') (db_rules db));
         star = list_ex (\<lambda>p. is_enabled p \<and> pol_collection p = ''*'') (db_rules db);
         carrying = map (drop 4) (filter (\<lambda>t. starts_with ''zvd_'' t \<and> db_policies db t \<noteq> None) (db_tableNames db))
     in remdups (own @ (if star then db_collections db else []) @ carrying))"

fun applyEach ::
  "pg \<Rightarrow> (string \<Rightarrow> bool) \<Rightarrow> rule_db \<Rightarrow> string list \<Rightarrow> (write_error, rule_db) result" where
  "applyEach pg busy db [] = Ok db"
| "applyEach pg busy db (c # cs) =
    (case applyRowRulePolicy pg busy db c of Inl e \<Rightarrow> Inl e | Inr db' \<Rightarrow> applyEach pg busy db' cs)"

definition applyRowRulePolicies ::
  "pg \<Rightarrow> (string \<Rightarrow> bool) \<Rightarrow> rule_db \<Rightarrow> string list \<Rightarrow> (write_error, rule_db) result" where
  "applyRowRulePolicies pg busy db collections =
    (let names = filter (\<lambda>c. c \<noteq> ''*'') collections
           @ (if ''*'' \<in> set collections then rowRuleCollections db else [])
     in applyEach pg busy db (sort (remdups names)))"

definition reconcileRowRulePolicies :: "pg \<Rightarrow> (string \<Rightarrow> bool) \<Rightarrow> rule_db \<Rightarrow> rule_db" where
  "reconcileRowRulePolicies pg busy db =
    fold (\<lambda>c db. case applyRowRulePolicy pg busy db c of Inl _ \<Rightarrow> db | Inr db' \<Rightarrow> db')
      (rowRuleCollections db) db"

section \<open>The door and the writers\<close>

definition assertEnforceable :: "rule_db \<Rightarrow> string \<Rightarrow> row_rule \<Rightarrow> (write_error, unit) result" where
  "assertEnforceable db c rule =
    (if filter_op rule \<noteq> [] \<and> filter_value_source rule \<noteq> []
        \<and> emptyStaticList (filter_op rule) (filter_value_source rule) \<noteq> None
     then Throw (Unenforceable EmptyList)
     else if c = [] \<or> c = ''*'' then Ok ()
     else if filter_field rule = [] \<or> filter_op rule = [] \<or> filter_value_source rule = [] then Ok ()
     else (case db_tables db (tableOf c) of None \<Rightarrow> Ok ()
       | Some types \<Rightarrow> (case describeRuleProblem rule types of
            None \<Rightarrow> Ok () | Some e \<Rightarrow> Throw (Unenforceable e))))"

text \<open>One transaction: the write, then the policies of the collections it names; an error undoes both.\<close>

definition writeRowRules ::
  "pg \<Rightarrow> (string \<Rightarrow> bool) \<Rightarrow> (rule_db \<Rightarrow> (write_error, rule_db \<times> 'a \<times> string list) result) \<Rightarrow> rule_db
    \<Rightarrow> rule_db \<times> (write_error, 'a) result" where
  "writeRowRules pg busy change db =
    (case change db of Inl e \<Rightarrow> (db, Inl e)
     | Inr (db1, result, collections) \<Rightarrow>
        (case applyRowRulePolicies pg busy db1 collections of
           Inl e \<Rightarrow> (db, Inl e) | Inr db2 \<Rightarrow> (db2, Inr result)))"

definition createRlsPolicy ::
  "pg \<Rightarrow> (string \<Rightarrow> bool) \<Rightarrow> rls_policy \<Rightarrow> rule_db \<Rightarrow> rule_db \<times> (write_error, rls_policy) result" where
  "createRlsPolicy pg busy p =
    writeRowRules pg busy (\<lambda>db. case assertEnforceable db (pol_collection p) (row_rule.truncate p) of
        Inl e \<Rightarrow> Inl e
      | Inr _ \<Rightarrow> Inr (db\<lparr> db_rules := db_rules db @ [p] \<rparr>, p, [pol_collection p]))"

record rule_patch =
  pt_collection :: "string option"
  pt_role :: "string option"
  pt_field :: "string option"
  pt_op :: "string option"
  pt_source :: "string option"
  pt_enabled :: "bool option"

definition patched :: "rule_patch \<Rightarrow> rls_policy \<Rightarrow> rls_policy" where
  "patched d p = p\<lparr> pol_collection := (case pt_collection d of None \<Rightarrow> pol_collection p | Some x \<Rightarrow> x),
     role := (case pt_role d of None \<Rightarrow> role p | Some x \<Rightarrow> x),
     filter_field := (case pt_field d of None \<Rightarrow> filter_field p | Some x \<Rightarrow> x),
     filter_op := (case pt_op d of None \<Rightarrow> filter_op p | Some x \<Rightarrow> x),
     filter_value_source := (case pt_source d of None \<Rightarrow> filter_value_source p | Some x \<Rightarrow> x),
     is_enabled := (case pt_enabled d of None \<Rightarrow> is_enabled p | Some x \<Rightarrow> x) \<rparr>"

definition updateRlsPolicy ::
  "pg \<Rightarrow> (string \<Rightarrow> bool) \<Rightarrow> string \<Rightarrow> rule_patch \<Rightarrow> rule_db \<Rightarrow> rule_db \<times> (write_error, rls_policy option) result" where
  "updateRlsPolicy pg busy i d =
    writeRowRules pg busy (\<lambda>db. case find (\<lambda>p. pol_id p = i) (db_rules db) of
        None \<Rightarrow> Inr (db, None, [])
      | Some cur \<Rightarrow>
         (case assertEnforceable db (pol_collection (patched d cur)) (row_rule.truncate (patched d cur)) of
            Inl e \<Rightarrow> Inl e
          | Inr _ \<Rightarrow> Inr (db\<lparr> db_rules := map (\<lambda>p. if pol_id p = i then patched d p else p) (db_rules db) \<rparr>,
               Some (patched d cur), [pol_collection (patched d cur), pol_collection cur])))"

definition deleteRlsPolicy ::
  "pg \<Rightarrow> (string \<Rightarrow> bool) \<Rightarrow> string \<Rightarrow> rule_db \<Rightarrow> rule_db \<times> (write_error, bool) result" where
  "deleteRlsPolicy pg busy i =
    writeRowRules pg busy (\<lambda>db. case find (\<lambda>p. pol_id p = i) (db_rules db) of
        None \<Rightarrow> Inr (db, False, [])
      | Some gone \<Rightarrow> Inr (db\<lparr> db_rules := filter (\<lambda>p. pol_id p \<noteq> i) (db_rules db) \<rparr>, True,
          [pol_collection gone]))"

section \<open>The policies follow the rules\<close>

definition reached :: "rule_db \<Rightarrow> string \<Rightarrow> bool" where
  "reached db c \<longleftrightarrow> c \<in> set (db_collections db)
     \<or> (\<exists>p \<in> set (db_rules db). is_enabled p \<and> pol_collection p = c)
     \<or> db_policies db (tableOf c) \<noteq> None"

definition policy_of :: "rule_db \<Rightarrow> string \<Rightarrow> col_types \<Rightarrow> sql_pred option" where
  "policy_of db c types = predicate (buildRowRulePredicate (rulesOf db c) types)"

text \<open>
  Every collection the rules reach and that has a table carries the policy of its
  rules as they are now.
\<close>

definition in_sync :: "rule_db \<Rightarrow> bool" where
  "in_sync db \<longleftrightarrow> (\<forall>c types. c \<noteq> ''*'' \<longrightarrow> is_ident (tableOf c) \<longrightarrow> db_tables db (tableOf c) = Some types \<longrightarrow>
     reached db c \<longrightarrow> db_policies db (tableOf c) = policy_of db c types)"

definition catalogued :: "rule_db \<Rightarrow> bool" where
  "catalogued db \<longleftrightarrow> (\<forall>t. db_tables db t \<noteq> None \<longleftrightarrow> t \<in> set (db_tableNames db))
     \<and> (\<forall>t. db_policies db t \<noteq> None \<longrightarrow> db_tables db t \<noteq> None)"

lemma tableOf_inject [simp]: "tableOf a = tableOf b \<longleftrightarrow> a = b"
  by (simp add: tableOf_def)

definition same_frame :: "rule_db \<Rightarrow> rule_db \<Rightarrow> bool" where
  "same_frame a b \<longleftrightarrow> db_rules a = db_rules b \<and> db_collections a = db_collections b
     \<and> db_tables a = db_tables b \<and> db_tableNames a = db_tableNames b"

lemma same_frame_rules: "same_frame a b \<Longrightarrow> policy_of a c types = policy_of b c types"
  by (simp add: same_frame_def policy_of_def rulesOf_def)

lemma same_frame_trans: "same_frame a b \<Longrightarrow> same_frame b c \<Longrightarrow> same_frame a c"
  by (simp add: same_frame_def)

lemma same_frame_refl [simp]: "same_frame a a"
  by (simp add: same_frame_def)

lemma ident_tableOf [simp]: "ident t = None \<longleftrightarrow> \<not> is_ident t"
  by (simp add: ident_def)

text \<open>One rebuild touches its own table only, and leaves there the policy of the rules.\<close>

lemma apply_effect:
  assumes "applyRowRulePolicy pg busy db c = Ok db'"
  shows "same_frame db db'"
    and "t \<noteq> tableOf c \<Longrightarrow> db_policies db' t = db_policies db t"
    and "is_ident (tableOf c) \<Longrightarrow> db_tables db (tableOf c) = Some types \<Longrightarrow>
         db_policies db' (tableOf c) = policy_of db c types"
    and "db_tables db (tableOf c) = None \<Longrightarrow> db_policies db' = db_policies db"
  using assms
  by (auto simp: applyRowRulePolicy_def rebuildRowRulePolicy_def Let_def same_frame_def policy_of_def
      split: option.splits if_splits)

lemma each_effect:
  assumes "applyEach pg busy db cs = Ok db'"
  shows "same_frame db db' \<and> (\<forall>c types. is_ident (tableOf c) \<longrightarrow> db_tables db (tableOf c) = Some types \<longrightarrow>
      db_policies db' (tableOf c) = (if c \<in> set cs then policy_of db c types else db_policies db (tableOf c)))
    \<and> (\<forall>t. db_tables db t = None \<longrightarrow> db_policies db' t = db_policies db t)"
  using assms
proof (induction cs arbitrary: db)
  case (Cons x xs)
  then obtain db1 where one: "applyRowRulePolicy pg busy db x = Ok db1"
    and rest: "applyEach pg busy db1 xs = Ok db'"
    by (auto split: sum.splits)
  note e = apply_effect [OF one]
  note IH = Cons.IH [OF rest]
  have tables: "db_tables db1 = db_tables db" using e(1) by (simp add: same_frame_def)
  have pol: "policy_of db1 c types = policy_of db c types" for c types
    using same_frame_rules [OF e(1)] by simp
  have "db_policies db1 t = db_policies db t" if "db_tables db t = None" for t
    using that e(2) [of t] e(4) by (cases "t = tableOf x") simp_all
  moreover have "db_policies db1 (tableOf c) = (if c = x then policy_of db c types else db_policies db (tableOf c))"
    if "is_ident (tableOf c)" "db_tables db (tableOf c) = Some types" for c types
    using that e(2) [of "tableOf c"] e(3) by auto
  ultimately show ?case using IH same_frame_trans [OF e(1)] by (auto simp: tables pol)
qed simp

lemma rulesOf_outside:
  assumes "filter (\<lambda>p. pol_collection p \<notin> C) rs = filter (\<lambda>p. pol_collection p \<notin> C) (db_rules db)"
    and "c \<notin> C" "''*'' \<notin> C"
  shows "rulesOf (db\<lparr> db_rules := rs \<rparr>) c = rulesOf db c"
    and "(\<exists>p \<in> set rs. is_enabled p \<and> pol_collection p = c) \<longleftrightarrow>
         (\<exists>p \<in> set (db_rules db). is_enabled p \<and> pol_collection p = c)"
proof -
  let ?P = "\<lambda>p. is_enabled p \<and> (pol_collection p = c \<or> pol_collection p = ''*'')"
  have sub: "filter ?P xs = filter ?P (filter (\<lambda>p. pol_collection p \<notin> C) xs)" for xs
    using assms(2,3) by (induction xs) auto
  show "rulesOf (db\<lparr> db_rules := rs \<rparr>) c = rulesOf db c"
    unfolding rulesOf_def using sub [of rs] sub [of "db_rules db"] assms(1) by simp
  have "(\<exists>p \<in> set xs. is_enabled p \<and> pol_collection p = c) \<longleftrightarrow>
      (\<exists>p \<in> set (filter (\<lambda>p. pol_collection p \<notin> C) xs). is_enabled p \<and> pol_collection p = c)" for xs
    using assms(2) by auto
  then show "(\<exists>p \<in> set rs. is_enabled p \<and> pol_collection p = c) \<longleftrightarrow>
         (\<exists>p \<in> set (db_rules db). is_enabled p \<and> pol_collection p = c)"
    using assms(1) by metis
qed

lemma collections_names:
  "set (rowRuleCollections db) = {pol_collection p | p. p \<in> set (db_rules db) \<and> is_enabled p \<and> pol_collection p \<noteq> ''*''}
     \<union> (if \<exists>p \<in> set (db_rules db). is_enabled p \<and> pol_collection p = ''*'' then set (db_collections db) else {})
     \<union> {drop 4 t | t. t \<in> set (db_tableNames db) \<and> starts_with ''zvd_'' t \<and> db_policies db t \<noteq> None}"
  by (auto simp: rowRuleCollections_def Let_def list_ex_iff)

lemma carrying_named:
  assumes "catalogued db" "db_policies db (tableOf c) \<noteq> None"
  shows "c \<in> set (rowRuleCollections db)"
proof -
  have "tableOf c \<in> set (db_tableNames db)" using assms by (auto simp: catalogued_def)
  moreover have "starts_with ''zvd_'' (tableOf c)" "drop 4 (tableOf c) = c"
    by (simp_all add: tableOf_def starts_with_def)
  ultimately have "\<exists>t. c = drop 4 t \<and> t \<in> set (db_tableNames db) \<and> starts_with ''zvd_'' t \<and> db_policies db t \<noteq> None"
    using assms(2) by (intro exI [of _ "tableOf c"]) simp
  then show ?thesis unfolding collections_names by blast
qed

lemma unnamed_rules:
  assumes "c \<notin> set (rowRuleCollections db)" "c \<in> set (db_collections db)" "c \<noteq> ''*''"
  shows "rulesOf db c = []"
  using assms by (auto simp: rulesOf_def collections_names filter_empty_conv split: if_splits)

text \<open>A write that names the collections of the rules it changes leaves the policies in step.\<close>

lemma write_in_sync:
  assumes sync: "in_sync db" and cat: "catalogued db"
    and changed: "filter (\<lambda>p. pol_collection p \<notin> set cols) rs = filter (\<lambda>p. pol_collection p \<notin> set cols) (db_rules db)"
    and applied: "applyRowRulePolicies pg busy (db\<lparr> db_rules := rs \<rparr>) cols = Ok db2"
  shows "in_sync db2" "db_rules db2 = rs" "catalogued db2"
proof -
  let ?db1 = "db\<lparr> db_rules := rs \<rparr>"
  let ?names = "filter (\<lambda>c. c \<noteq> ''*'') cols @ (if ''*'' \<in> set cols then rowRuleCollections ?db1 else [])"
  have each: "applyEach pg busy ?db1 (sort (remdups ?names)) = Ok db2"
    using applied by (simp only: applyRowRulePolicies_def Let_def)
  note e = each_effect [OF each]
  have frame: "same_frame ?db1 db2" using e by simp
  then show "db_rules db2 = rs" by (simp add: same_frame_def)
  have pol: "db_policies db2 (tableOf c) = (if c \<in> set ?names then policy_of ?db1 c types else db_policies db (tableOf c))"
    if "is_ident (tableOf c)" "db_tables db (tableOf c) = Some types" for c types
    using that e by simp
  have cat1: "carrying \<in> set (rowRuleCollections ?db1)" if "db_policies db (tableOf carrying) \<noteq> None" for carrying
    using cat that by (intro carrying_named) (auto simp: catalogued_def)
  have "db_tables db t \<noteq> None" if "db_policies db2 t \<noteq> None" for t
  proof
    assume none: "db_tables db t = None"
    then have "db_policies db2 t = db_policies db t" using e by simp
    then show False using cat none that by (auto simp: catalogued_def)
  qed
  then show "catalogued db2"
    using cat frame by (simp add: catalogued_def same_frame_def)
  show "in_sync db2"
    unfolding in_sync_def
  proof (intro allI impI)
    fix c types
    assume star: "c \<noteq> ''*''" and i: "is_ident (tableOf c)" and t: "db_tables db2 (tableOf c) = Some types"
      and r: "reached db2 c"
    have t1: "db_tables db (tableOf c) = Some types" using t frame by (simp add: same_frame_def)
    have p2: "policy_of db2 c types = policy_of ?db1 c types" using same_frame_rules [OF frame] by simp
    show "db_policies db2 (tableOf c) = policy_of db2 c types"
    proof (cases "c \<in> set ?names")
      case True
      then show ?thesis using pol [OF i t1] p2 by simp
    next
      case unnamed: False
      have keep: "db_policies db2 (tableOf c) = db_policies db (tableOf c)"
        using pol [OF i t1] unnamed by (simp del: set_append)
      show ?thesis
      proof (cases "''*'' \<in> set cols")
        case True
        then have out: "c \<notin> set (rowRuleCollections ?db1)" using unnamed by simp
        then have none: "db_policies db (tableOf c) = None" using cat1 by blast
        have "c \<in> set (db_collections ?db1)"
          using r keep none out star frame by (auto simp: reached_def same_frame_def collections_names)
        then have "rulesOf ?db1 c = []" using out star by (intro unnamed_rules)
        then show ?thesis using keep none p2
          by (simp add: policy_of_def buildRowRulePredicate_def Let_def gen0_def)
      next
        case False
        then have out: "c \<notin> set cols" using unnamed star by simp
        note same = rulesOf_outside [OF changed out False]
        have "reached db c"
          using r keep same(2) frame by (auto simp: reached_def same_frame_def)
        then have "db_policies db (tableOf c) = policy_of db c types"
          using sync star i t1 by (auto simp: in_sync_def)
        then show ?thesis using keep p2 same(1) by (simp add: policy_of_def)
      qed
    qed
  qed
qed

section \<open>Histories of writes\<close>

text \<open>
  A write of the rules is a create under an id no rule has, an update or a delete;
  tables may be busy or not each time.
\<close>

inductive rule_write :: "pg \<Rightarrow> rule_db \<Rightarrow> rule_db \<Rightarrow> bool" for pg where
  create: "pol_id p \<notin> pol_id ` set (db_rules db) \<Longrightarrow> rule_write pg db (fst (createRlsPolicy pg busy p db))"
| update: "rule_write pg db (fst (updateRlsPolicy pg busy i d db))"
| delete: "rule_write pg db (fst (deleteRlsPolicy pg busy i db))"

inductive rule_history :: "pg \<Rightarrow> rule_db \<Rightarrow> rule_db \<Rightarrow> bool" for pg where
  start: "rule_history pg db db"
| extend: "rule_history pg db db1 \<Longrightarrow> rule_write pg db1 db2 \<Longrightarrow> rule_history pg db db2"

inductive_cases rule_writeE: "rule_write pg db db'"

definition kept :: "rule_db \<Rightarrow> bool" where
  "kept db \<longleftrightarrow> in_sync db \<and> catalogued db \<and> distinct (map pol_id (db_rules db))"

lemma writeRowRules_kept:
  assumes k: "kept db"
    and w: "\<And>db1 x cols. change db = Inr (db1, x, cols) \<Longrightarrow> db1 = db\<lparr> db_rules := db_rules db1 \<rparr>
      \<and> distinct (map pol_id (db_rules db1))
      \<and> filter (\<lambda>p. pol_collection p \<notin> set cols) (db_rules db1) = filter (\<lambda>p. pol_collection p \<notin> set cols) (db_rules db)"
  shows "kept (fst (writeRowRules pg busy change db))"
proof (cases "change db")
  case (Inl e)
  then show ?thesis using k by (simp add: writeRowRules_def)
next
  case (Inr t)
  then obtain db1 x cols where t: "change db = Inr (db1, x, cols)" by (cases t) auto
  note c = w [OF t]
  show ?thesis
  proof (cases "applyRowRulePolicies pg busy db1 cols")
    case (Inl e)
    then show ?thesis using k t by (simp add: writeRowRules_def)
  next
    case (Inr db2)
    then have "applyRowRulePolicies pg busy (db\<lparr> db_rules := db_rules db1 \<rparr>) cols = Inr db2" using c by simp
    note s = write_in_sync [OF _ _ _ this]
    have "kept db2" using k c s by (simp add: kept_def)
    then show ?thesis using t Inr by (simp add: writeRowRules_def)
  qed
qed

lemma find_id: "find (\<lambda>p. pol_id p = i) ps = Some cur \<Longrightarrow> cur \<in> set ps \<and> pol_id cur = i"
  by (auto simp: find_Some_iff)

lemma patched_id [simp]: "pol_id (patched d p) = pol_id p"
  by (simp add: patched_def)

lemma create_kept:
  "kept db \<Longrightarrow> pol_id p \<notin> pol_id ` set (db_rules db) \<Longrightarrow> kept (fst (createRlsPolicy pg busy p db))"
  unfolding createRlsPolicy_def
  by (rule writeRowRules_kept) (auto simp: kept_def split: sum.splits)

lemma update_kept:
  assumes "kept db" shows "kept (fst (updateRlsPolicy pg busy i d db))"
  unfolding updateRlsPolicy_def
proof (rule writeRowRules_kept [OF assms])
  fix db1 x cols
  assume w: "(case find (\<lambda>p. pol_id p = i) (db_rules db) of None \<Rightarrow> Inr (db, None, [])
      | Some cur \<Rightarrow> (case assertEnforceable db (pol_collection (patched d cur)) (row_rule.truncate (patched d cur)) of
            Inl e \<Rightarrow> Inl e
          | Inr _ \<Rightarrow> Inr (db\<lparr> db_rules := map (\<lambda>p. if pol_id p = i then patched d p else p) (db_rules db) \<rparr>,
               Some (patched d cur), [pol_collection (patched d cur), pol_collection cur]))) = Inr (db1, x, cols)"
  have ids: "distinct (map pol_id (db_rules db))" using assms by (simp add: kept_def)
  show "db1 = db\<lparr> db_rules := db_rules db1 \<rparr> \<and> distinct (map pol_id (db_rules db1))
      \<and> filter (\<lambda>p. pol_collection p \<notin> set cols) (db_rules db1) = filter (\<lambda>p. pol_collection p \<notin> set cols) (db_rules db)"
  proof (cases "find (\<lambda>p. pol_id p = i) (db_rules db)")
    case None
    then show ?thesis using w ids by auto
  next
    case (Some cur)
    have cur: "p = cur" if "p \<in> set (db_rules db)" "pol_id p = i" for p
      using that find_id [OF Some] ids by (auto simp: distinct_map dest: inj_onD)
    have db1: "db1 = db\<lparr> db_rules := map (\<lambda>p. if pol_id p = i then patched d p else p) (db_rules db) \<rparr>"
      and cols: "cols = [pol_collection (patched d cur), pol_collection cur]"
      using w Some by (auto split: sum.splits)
    have "distinct (map pol_id (db_rules db1))"
    proof -
      have e: "pol_id \<circ> (\<lambda>p. if pol_id p = i then patched d p else p) = pol_id" by auto
      show ?thesis using ids by (simp add: db1 e)
    qed
    moreover have "filter (\<lambda>p. pol_collection p \<notin> set cols) (map (\<lambda>p. if pol_id p = i then patched d p else p) ps)
        = filter (\<lambda>p. pol_collection p \<notin> set cols) ps" if "set ps \<subseteq> set (db_rules db)" for ps
      using that by (induction ps) (auto simp: cols dest: cur)
    ultimately show ?thesis by (simp add: db1)
  qed
qed

lemma delete_kept:
  assumes "kept db" shows "kept (fst (deleteRlsPolicy pg busy i db))"
  unfolding deleteRlsPolicy_def
proof (rule writeRowRules_kept [OF assms])
  fix db1 x cols
  assume w: "(case find (\<lambda>p. pol_id p = i) (db_rules db) of None \<Rightarrow> Inr (db, False, [])
      | Some gone \<Rightarrow> Inr (db\<lparr> db_rules := filter (\<lambda>p. pol_id p \<noteq> i) (db_rules db) \<rparr>, True,
          [pol_collection gone])) = Inr (db1, x, cols)"
  have ids: "distinct (map pol_id (db_rules db))" using assms by (simp add: kept_def)
  show "db1 = db\<lparr> db_rules := db_rules db1 \<rparr> \<and> distinct (map pol_id (db_rules db1))
      \<and> filter (\<lambda>p. pol_collection p \<notin> set cols) (db_rules db1) = filter (\<lambda>p. pol_collection p \<notin> set cols) (db_rules db)"
  proof (cases "find (\<lambda>p. pol_id p = i) (db_rules db)")
    case None
    then show ?thesis using w ids by auto
  next
    case (Some cur)
    have cur: "p = cur" if "p \<in> set (db_rules db)" "pol_id p = i" for p
      using that find_id [OF Some] ids by (auto simp: distinct_map dest: inj_onD)
    have "filter (\<lambda>p. pol_collection p \<notin> {pol_collection cur}) (filter (\<lambda>p. pol_id p \<noteq> i) ps)
        = filter (\<lambda>p. pol_collection p \<notin> {pol_collection cur}) ps" if "set ps \<subseteq> set (db_rules db)" for ps
      using that by (induction ps) (auto dest: cur)
    then show ?thesis using w Some ids by (auto simp: distinct_map inj_on_def)
  qed
qed

lemma write_kept: "rule_write pg db db' \<Longrightarrow> kept db \<Longrightarrow> kept db'"
  by (erule rule_writeE) (simp_all add: create_kept update_kept delete_kept)

text \<open>
  C3. However the row rules are created, moved, edited and deleted, and whichever
  tables are busy at each write, every collection the rules reach carries exactly
  the policy generated from its rules as they now are.
\<close>

theorem policies_follow_rules:
  assumes "rule_history pg db db'" "in_sync db" "catalogued db" "distinct (map pol_id (db_rules db))"
  shows "in_sync db'"
proof -
  from assms(1) have "kept db \<Longrightarrow> kept db'"
    by (induction rule: rule_history.induct) (auto intro: write_kept)
  then show ?thesis using assms by (simp add: kept_def)
qed

section \<open>A history\<close>

definition store0 :: rule_db where
  "store0 = \<lparr> db_rules = [], db_collections = [''docs'', ''notes''],
     db_tables = [''zvd_docs'' \<mapsto> [''owner'' \<mapsto> ''text''], ''zvd_notes'' \<mapsto> [''owner'' \<mapsto> ''text'']],
     db_tableNames = [''zvd_docs'', ''zvd_notes''], db_policies = Map.empty \<rparr>"

definition star_rule :: rls_policy where
  "star_rule = \<lparr> role = ''*'', filter_field = ''owner'', filter_op = ''eq'', filter_value_source = ''user_id'',
     pol_id = ''r1'', pol_collection = ''*'', is_enabled = True \<rparr>"

definition text_pg :: pg where
  "text_pg = \<lparr> pg_norm = (\<lambda>ty s. Some s), pg_eq = (\<lambda>ty a b. a = b), pg_lower = js_lower \<rparr>"

definition store1 :: rule_db where
  "store1 = fst (createRlsPolicy text_pg (\<lambda>_. False) star_rule store0)"

lemma store1_policies:
  "db_policies store1 ''zvd_notes'' \<noteq> None" "map pol_id (db_rules store1) = [''r1'']"
  by code_simp+

lemma store_history: "rule_history text_pg store0 store1"
  unfolding store1_def
  by (rule rule_history.extend [OF rule_history.start rule_write.create]) (simp add: store0_def)

theorem policies_follow_rules_witness:
  "in_sync store1 \<and> db_policies store1 ''zvd_notes'' \<noteq> None"
proof
  have "tableOf c = ''zvd_docs'' \<longleftrightarrow> c = ''docs''" "tableOf c = ''zvd_notes'' \<longleftrightarrow> c = ''notes''" for c
    by (auto simp: tableOf_def)
  then have sync: "in_sync store0"
    by (simp add: in_sync_def store0_def policy_of_def rulesOf_def buildRowRulePredicate_def gen0_def)
  show "in_sync store1"
    by (rule policies_follow_rules [OF store_history sync])
       (auto simp: catalogued_def store0_def)
qed (rule store1_policies)

end
