(* ===== verification/RowRuleSafety.thy ===== *)
theory RowRuleSafety
  imports RowRuleAgreement RowRuleStore
begin

text \<open>
  How the row rules fail: a missing field hides the row everywhere, a rule nobody
  can express hides every row it covers, and the rules on which the appliers part.
\<close>

section \<open>Failing closed\<close>

text \<open>
  A row whose ruled field is NULL or missing is hidden by the live query, the
  matcher and the snapshot conditions alike, on the negative operators too.
\<close>

theorem missing_field_hides:
  assumes "live_admits pg ts fs" "f \<in> set fs" "r (rf_field f) = None"
  shows "live_applier pg ts r fs = Some False \<and> matcher r fs = Some False \<and> json_applier pg r fs = Some False"
proof -
  have "pg_folds pg \<and> known_ops fs" using assms(1) by (simp add: live_admits_def)
  then show ?thesis
    using live.missing_drops [of pg ts fs f r] memory.missing_drops [of fs f r] snapshot.missing_drops [of pg fs f r] assms
    by simp
qed

lemma plain_textual: "textual plain_pg ty v"
  by (simp add: textual_def plain_pg_def)

definition state_filter :: rule_filter where
  "state_filter = \<lparr> rf_field = ''state'', rf_condition = \<lparr> c_op = ''neq'', c_value = Scalar ''draft'' \<rparr>,
     rf_caseless = False \<rparr>"

theorem missing_field_hides_witness:
  "live_applier plain_pg demo_types (demo_row(''state'' := None)) [state_filter] = Some False
   \<and> matcher (demo_row(''state'' := None)) [state_filter] = Some False
   \<and> json_applier plain_pg (demo_row(''state'' := None)) [state_filter] = Some False"
  by (rule missing_field_hides [of _ _ _ state_filter])
     (simp_all add: live_admits_def plain_pg_laws filter_op_of_def state_filter_def filter_typed_def
       demo_types_def plain_textual)

lemma term_hides:
  assumes "publishes g CALLER me" "roles_clean (ra_roles me)" "g ''zveltio.actor'' = Some ''on''"
    "matched rule me" "rule_shape ts rule = None"
  shows "pred_eval pg g ts r (caller_term ts rule) \<noteq> Some (Some True)"
  using assms
  by (auto simp: caller_term_def applicable_def Let_def roleGuard_def rule_condition_def matched_def
      held_roles_publishes [OF assms(1,2)] split: if_splits)


definition legacy_rule :: row_rule where
  "legacy_rule = \<lparr> role = ''member'', filter_field = ''owner'', filter_op = ''eq'', filter_value_source = ''user.id'' \<rparr>"


section \<open>Where the appliers part\<close>

text \<open>
  The door accepts \<open>code neq static:05\<close> on an integer column, and there the
  appliers part: Postgres reads 05 as 5 and hides the row whose code is 5, in the
  live query, while the matcher and the jsonb conditions compare text and keep it.
\<close>

theorem padded_integer_parts_appliers:
  fixes pg ts rule r actor
  defines "rule \<equiv> \<lparr> role = ''*'', filter_field = ''code'', filter_op = ''neq'', filter_value_source = ''static:05'' \<rparr>"
    and "ts \<equiv> [''code'' \<mapsto> ''integer'']" and "r \<equiv> [''code'' \<mapsto> ''5'']"
  assumes "pg_norm pg ''integer'' ''05'' = Some ''5''" "pg_eq pg ''integer'' ''5'' ''5''"
  shows "describeRuleProblem rule ts = None
    \<and> live_applier pg ts r (rulesFor [rule] actor) = Some False
    \<and> matcher r (rulesFor [rule] actor) = Some True
    \<and> json_applier pg r (rulesFor [rule] actor) = Some True"
proof -
  have src: "is_static ''static:05''" "static_value ''static:05'' = ''05''"
    by (simp_all add: is_static_def starts_with_def static_value_def)
  have f: "rulesFor [rule] actor = [\<lparr> rf_field = ''code'',
      rf_condition = \<lparr> c_op = ''neq'', c_value = Scalar ''05'' \<rparr>, rf_caseless = False \<rparr>]"
    by (simp add: rule_def ruleFor_def resolveValue_def src OWNER_SOURCES_def foldsCase_def)
  have "describeRuleProblem rule ts = None"
    by (simp add: rule_def ts_def describeRuleProblem_def Let_def is_ident_def is_ident_start_def
        is_ident_char_def is_letter_def CASTABLE_def isRuleOperator_def known_source_def src
        emptyStaticList_def strict_type_def NUMERIC_def static_items_def casts_into_def numeric_text_def
        digits1_def is_digit_def)
  then show ?thesis using assms(4,5) unfolding f
    by (simp add: live_applier_def keepsNothing_def keepsEveryPresent_def live_lhs_def ts_def r_def
        op_values_def param_def sql_equal_def signed_def op_negative_def matcher_def same_def
        droppedForMissingValue_def json_applier_def)
qed

definition integer_pg :: pg where
  "integer_pg = \<lparr> pg_norm = (\<lambda>ty s. if ty = ''integer'' \<and> s = ''05'' then Some ''5'' else Some s),
     pg_eq = (\<lambda>ty a b. a = b), pg_lower = js_lower \<rparr>"

theorem padded_integer_parts_appliers_witness:
  "describeRuleProblem \<lparr> role = ''*'', filter_field = ''code'', filter_op = ''neq'',
      filter_value_source = ''static:05'' \<rparr> [''code'' \<mapsto> ''integer''] = None
   \<and> live_applier integer_pg [''code'' \<mapsto> ''integer''] [''code'' \<mapsto> ''5''] (rulesFor [\<lparr> role = ''*'',
       filter_field = ''code'', filter_op = ''neq'', filter_value_source = ''static:05'' \<rparr>] nobody) = Some False
   \<and> matcher [''code'' \<mapsto> ''5''] (rulesFor [\<lparr> role = ''*'', filter_field = ''code'', filter_op = ''neq'',
       filter_value_source = ''static:05'' \<rparr>] nobody) = Some True
   \<and> json_applier integer_pg [''code'' \<mapsto> ''5''] (rulesFor [\<lparr> role = ''*'', filter_field = ''code'',
       filter_op = ''neq'', filter_value_source = ''static:05'' \<rparr>] nobody) = Some True"
  by (rule padded_integer_parts_appliers) (simp_all add: integer_pg_def)

text \<open>
  An email rule of \<open>*\<close> over a collection whose column is an integer compiles to
  \<open>lower\<close> of that column, which Postgres does not accept: the whole write is refused
  and leaves the database as it was, although a rule the database cannot express is
  meant to be stored as one that hides every row it applies to.
\<close>

theorem email_rule_on_number_refused:
  fixes db :: rule_db
  assumes star: "pol_collection p = ''*''" "is_enabled p" "filter_value_source p = ''user_email''"
      "filter_op p = ''eq''" "filter_field p = ''owner''" "role p = ''*''"
    and db: "db_rules db = []" "db_collections db = [''docs'']" "db_tableNames db = []"
      "db_tables db = [''zvd_docs'' \<mapsto> [''owner'' \<mapsto> ''integer'']]"
  shows "createRlsPolicy pg (\<lambda>_. False) p db = (db, Throw (PolicyRejected ''zvd_docs''))"
proof -
  let ?db = "db\<lparr> db_rules := [p] \<rparr>"
  have t: "tableOf ''docs'' = ''zvd_docs''" "is_ident ''zvd_docs''" "is_ident ''owner''"
    by (simp_all add: tableOf_def is_ident_def is_ident_start_def is_ident_char_def is_letter_def)
  have e: "emptyStaticList ''eq'' ''user_email'' = None" by (simp add: emptyStaticList_def)
  have names: "sort (remdups (filter (\<lambda>c. c \<noteq> ''*'') [''*''] @ rowRuleCollections ?db)) = [''docs'']"
    by (simp add: rowRuleCollections_def star db)
  have rule: "row_rule.truncate p = \<lparr> role = ''*'', filter_field = ''owner'', filter_op = ''eq'',
      filter_value_source = ''user_email'' \<rparr>"
    using star by (simp add: row_rule.truncate_def)
  have "\<not> pred_typed pg [''owner'' \<mapsto> ''integer'']
      (the (predicate (buildRowRulePredicate [row_rule.truncate p] [''owner'' \<mapsto> ''integer''])))"
    by (simp add: rule build_predicate caller_term_def applicable_def Let_def roleGuard_def
        rule_condition_def rule_shape_def valueExpr_def t CASTABLE_def conditionFor_def conditionOf_def
        foldsCase_def text_like_def castTo_def)
  moreover have "predicate (buildRowRulePredicate [row_rule.truncate p] [''owner'' \<mapsto> ''integer'']) \<noteq> None"
    by (simp add: build_predicate)
  moreover have "rulesOf ?db ''docs'' = [row_rule.truncate p]"
    using star by (simp add: rulesOf_def)
  ultimately have "applyRowRulePolicy pg (\<lambda>_. False) ?db ''docs'' = Throw (PolicyRejected ''zvd_docs'')"
    by (auto simp: applyRowRulePolicy_def rebuildRowRulePolicy_def Let_def t db split: option.splits)
  moreover have "db_rules db @ [p] = [p]" using db by simp
  ultimately show ?thesis using names
    by (simp add: createRlsPolicy_def writeRowRules_def assertEnforceable_def rule e star
        applyRowRulePolicies_def Let_def)
qed

definition number_store :: rule_db where
  "number_store = \<lparr> db_rules = [], db_collections = [''docs''],
     db_tables = [''zvd_docs'' \<mapsto> [''owner'' \<mapsto> ''integer'']], db_tableNames = [], db_policies = Map.empty \<rparr>"

definition email_star :: rls_policy where
  "email_star = \<lparr> role = ''*'', filter_field = ''owner'', filter_op = ''eq'', filter_value_source = ''user_email'',
     pol_id = ''r2'', pol_collection = ''*'', is_enabled = True \<rparr>"

theorem email_rule_on_number_refused_witness:
  "createRlsPolicy plain_pg (\<lambda>_. False) email_star number_store = (number_store, Throw (PolicyRejected ''zvd_docs''))"
  by (rule email_rule_on_number_refused) (simp_all add: email_star_def number_store_def)

end
