(* ===== verification/Digits.thy ===== *)
theory Digits
  imports Prelude
begin

text \<open>
  Numerals of JavaScript: a natural number written in a radix (\<open>String(n)\<close>,
  \<open>n.toString(16)\<close>), and \<open>parseInt\<close>, which reads the longest prefix of digits.
\<close>

definition digit_char :: "nat \<Rightarrow> char" where
  "digit_char k = (if k < 10 then char_of (48 + k) else char_of (87 + k))"

definition digit_val :: "char \<Rightarrow> nat" where
  "digit_val c =
    (if is_digit c then code c - 48
     else if 97 \<le> code c \<and> code c \<le> 122 then code c - 87
     else if 65 \<le> code c \<and> code c \<le> 90 then code c - 55 else 99)"

fun radix :: "nat \<Rightarrow> nat \<Rightarrow> string" where
  "radix r n = (if n < r \<or> r < 2 then [digit_char n] else radix r (n div r) @ [digit_char (n mod r)])"

declare radix.simps [simp del]

abbreviation dec :: "nat \<Rightarrow> string" where "dec \<equiv> radix 10"
abbreviation hex :: "nat \<Rightarrow> string" where "hex \<equiv> radix 16"

definition numeral_value :: "nat \<Rightarrow> string \<Rightarrow> nat" where
  "numeral_value r s = foldl (\<lambda>a c. a * r + digit_val c) 0 s"

definition digits :: "string \<Rightarrow> bool" where
  "digits s \<longleftrightarrow> s \<noteq> [] \<and> list_all is_digit s"

definition js_parseInt :: "nat \<Rightarrow> string \<Rightarrow> nat option" where
  "js_parseInt r s =
    (let t = (if r = 16 \<and> starts_with ''0x'' s then drop 2 s else s);
         ds = takeWhile (\<lambda>c. digit_val c < r) t
     in if ds = [] then None else Some (numeral_value r ds))"

lemma code_digit_char: "k < 36 \<Longrightarrow> code (digit_char k) = (if k < 10 then 48 + k else 87 + k)"
  by (simp add: digit_char_def)

lemma digit_char_zero: "digit_char 0 = CHR ''0''"
  by code_simp

lemma digit_val_char [simp]: "k < 36 \<Longrightarrow> digit_val (digit_char k) = k"
  by (auto simp: digit_val_def is_digit_def code_digit_char)

lemma radix_nonempty [simp]: "radix r n \<noteq> []"
  by (subst radix.simps) simp

lemma radix_digits:
  "2 \<le> r \<Longrightarrow> r \<le> 36 \<Longrightarrow> c \<in> set (radix r n) \<Longrightarrow> \<exists>k < r. c = digit_char k"
proof (induction r n rule: radix.induct)
  case (1 r n)
  show ?case
  proof (cases "n < r \<or> r < 2")
    case True
    then show ?thesis using 1 by (auto simp: radix.simps [of r n])
  next
    case False
    then have "c \<in> set (radix r (n div r)) \<or> c = digit_char (n mod r)"
      using 1(4) by (subst (asm) radix.simps) auto
    then show ?thesis
    proof
      assume "c = digit_char (n mod r)"
      then show ?thesis using False by (intro exI [of _ "n mod r"]) auto
    qed (use 1(1) [OF False] 1(2,3) in auto)
  qed
qed

lemma numeral_append: "numeral_value r (s @ [c]) = numeral_value r s * r + digit_val c"
  by (simp add: numeral_value_def)

text \<open>Reading back what was written.\<close>

lemma numeral_radix: "2 \<le> r \<Longrightarrow> r \<le> 36 \<Longrightarrow> numeral_value r (radix r n) = n"
proof (induction r n rule: radix.induct)
  case (1 r n)
  show ?case
  proof (cases "n < r \<or> r < 2")
    case True
    then show ?thesis using 1 by (simp add: radix.simps [of r n] numeral_value_def)
  next
    case False
    then have "n mod r < 36" using 1(2,3) by (intro less_le_trans [OF mod_less_divisor]) auto
    then show ?thesis using 1(1) [OF False] 1(2,3) False
      by (simp add: radix.simps [of r n] numeral_append)
  qed
qed

lemma radix_valid: "2 \<le> r \<Longrightarrow> r \<le> 36 \<Longrightarrow> c \<in> set (radix r n) \<Longrightarrow> digit_val c < r"
  using radix_digits by fastforce

lemma digit_char_not_x: "k < 16 \<Longrightarrow> digit_char k \<noteq> CHR ''x''"
  by (auto simp: digit_char_def dest!: arg_cong [where f = code])

lemma radix_no_0x: "2 \<le> r \<Longrightarrow> r \<le> 16 \<Longrightarrow> \<not> starts_with ''0x'' (radix r n)"
proof
  assume r: "2 \<le> r" "r \<le> 16" and s: "starts_with ''0x'' (radix r n)"
  then have "CHR ''x'' \<in> set (radix r n)" by (auto simp: starts_with_iff)
  then obtain k where "k < r" "CHR ''x'' = digit_char k" using radix_digits [of r "CHR ''x''" n] r by auto
  then show False using digit_char_not_x [of k] r by simp
qed

lemma parseInt_radix: "2 \<le> r \<Longrightarrow> r \<le> 16 \<Longrightarrow> js_parseInt r (radix r n) = Some n"
proof -
  assume r: "2 \<le> r" "r \<le> 16"
  then have e: "takeWhile (\<lambda>c. digit_val c < r) (radix r n) = radix r n"
    using radix_valid [of r _ n] by (subst takeWhile_eq_all_conv) auto
  then show ?thesis using r radix_no_0x [of r n] by (simp add: js_parseInt_def numeral_radix Let_def e)
qed

lemma parseInt_0x: "js_parseInt 16 (''0x'' @ hex n) = Some n"
proof -
  have e: "takeWhile (\<lambda>c. digit_val c < 16) (hex n) = hex n"
    using radix_valid [of 16 _ n] by (subst takeWhile_eq_all_conv) auto
  have "starts_with ''0x'' (''0x'' @ hex n)" by (rule starts_with_append)
  then show ?thesis by (simp add: js_parseInt_def numeral_radix Let_def e)
qed

lemma dec_digit: "c \<in> set (dec n) \<Longrightarrow> is_digit c"
  using radix_digits [of 10 c n] by (auto simp: is_digit_def code_digit_char)

lemma dec_digits: "list_all is_digit (dec n)"
  by (auto simp: list_all_iff dest: dec_digit)

lemma radix_inject: "2 \<le> r \<Longrightarrow> r \<le> 36 \<Longrightarrow> radix r m = radix r n \<longleftrightarrow> m = n"
  using numeral_radix by metis

text \<open>A numeral has no leading zero of its own.\<close>

lemma radix_hd_zero:
  "2 \<le> r \<Longrightarrow> r \<le> 36 \<Longrightarrow> hd (radix r n) = digit_char 0 \<Longrightarrow> length (radix r n) = 1"
proof (induction r n rule: radix.induct)
  case (1 r n)
  show ?case
  proof (cases "n < r \<or> r < 2")
    case True
    then show ?thesis by (simp add: radix.simps [of r n])
  next
    case False
    then have "hd (radix r (n div r)) = digit_char 0" using 1(4) by (simp add: radix.simps [of r n])
    then have "length (radix r (n div r)) = 1" using 1(1) [OF False] 1(2,3) by simp
    then obtain x where x: "radix r (n div r) = [x]" by (cases "radix r (n div r)") auto
    then have "x = digit_char 0" using \<open>hd (radix r (n div r)) = digit_char 0\<close> by simp
    then have "n div r = 0" using numeral_radix [of r "n div r"] 1(2,3) x by (simp add: numeral_value_def)
    then show ?thesis using False by (simp add: div_eq_0_iff)
  qed
qed

lemma radix_length: "n < r ^ Suc k \<Longrightarrow> length (radix r n) \<le> Suc k"
proof (induction k arbitrary: n)
  case 0
  then show ?case by (simp add: radix.simps [of r n])
next
  case (Suc k)
  show ?case
  proof (cases "n < r \<or> r < 2")
    case True
    then show ?thesis by (simp add: radix.simps [of r n])
  next
    case False
    then have "n div r < r ^ Suc k" using Suc.prems
      by (simp add: less_mult_imp_div_less mult.commute)
    then show ?thesis using Suc.IH False by (simp add: radix.simps [of r n])
  qed
qed

lemma hex_chars: "c \<in> set (hex n) \<Longrightarrow> is_digit c \<or> (97 \<le> code c \<and> code c \<le> 102)"
  using radix_digits [of 16 c n] by (auto simp: is_digit_def code_digit_char split: if_splits)

lemma radix_hd_digit: "r \<le> 10 \<Longrightarrow> 2 \<le> r \<Longrightarrow> c \<in> set (radix r n) \<Longrightarrow> is_digit c"
  using radix_digits [of r c n] by (auto simp: is_digit_def code_digit_char)

end
