(* ===== verification/UrlValidator.thy ===== *)
theory UrlValidator
  imports Digits "HOL-Library.Word"
begin

text \<open>
  \<open>lib/security/url-validator.ts\<close>: the SSRF guard.  A host is reduced to dotted
  decimal whatever its spelling and matched against the block list; a name is
  resolved and every address it resolves to is matched as well.  Each regular
  expression is a predicate on strings.  The URL parser and the resolver are
  parameters.  A number a host spells is read exactly, as JavaScript does below \<open>2 ^ 53\<close>.
\<close>

unbundle bit_operations_syntax

section \<open>The shapes of hosts\<close>

definition is_lhex :: "char \<Rightarrow> bool" where
  "is_lhex c \<longleftrightarrow> is_digit c \<or> (97 \<le> code c \<and> code c \<le> 102)"

text \<open>\<open>\d+\.\d+\.\d+\.\d+\<close> and its four parts; \<open>[0-9a-f]{1,4}\<close>\<close>

definition quad :: "string \<Rightarrow> string list option" where
  "quad s = (let ps = js_split (CHR ''.'') s in
     if length ps = 4 \<and> list_all digits ps then Some ps else None)"

definition hexword :: "string \<Rightarrow> bool" where
  "hexword s \<longleftrightarrow> s \<noteq> [] \<and> length s \<le> 4 \<and> list_all is_lhex s"

definition after :: "string \<Rightarrow> string \<Rightarrow> string option" where
  "after p s = (if starts_with p s then Some (drop (length p) s) else None)"

definition quad_after :: "string \<Rightarrow> string \<Rightarrow> string option" where
  "quad_after p s = (case after p s of None \<Rightarrow> None
     | Some t \<Rightarrow> if quad t = None then None else Some t)"

definition words_after :: "string \<Rightarrow> string \<Rightarrow> (string \<times> string) option" where
  "words_after p s = (case after p s of None \<Rightarrow> None
     | Some t \<Rightarrow> (case js_split (CHR '':'') t of
         [a, b] \<Rightarrow> if hexword a \<and> hexword b then Some (a, b) else None | _ \<Rightarrow> None))"

definition six_to_four :: "string \<Rightarrow> (string \<times> string) option" where
  "six_to_four s = (case after ''2002:'' s of None \<Rightarrow> None
     | Some t \<Rightarrow> (case js_split (CHR '':'') t of
         a # b # _ \<Rightarrow> if hexword a \<and> hexword b then Some (a, b) else None | _ \<Rightarrow> None))"

fun first_some :: "'a option list \<Rightarrow> 'a option" where
  "first_some [] = None"
| "first_some (x # xs) = (case x of None \<Rightarrow> first_some xs | Some y \<Rightarrow> Some y)"

section \<open>Normalisation\<close>

definition intToIPv4 :: "nat \<Rightarrow> string" where
  "intToIPv4 n = (let w = (of_nat n :: 32 word) in
     js_join ''.'' (map (\<lambda>x. dec (unat (x AND 0xFF)))
       [drop_bit 24 w, drop_bit 16 w, drop_bit 8 w, w]))"

definition octet :: "string \<Rightarrow> nat option" where
  "octet p =
    (if starts_with ''0x'' p then js_parseInt 16 p
     else if starts_with ''0'' p \<and> 1 < length p then js_parseInt 8 p
     else js_parseInt 10 p)"

definition words_quad :: "string \<Rightarrow> string \<Rightarrow> string" where
  "words_quad a b = (let hi = the (js_parseInt 16 a); lo = the (js_parseInt 16 b) in
     js_join ''.'' (map dec [(hi div 256) mod 256, hi mod 256, (lo div 256) mod 256, lo mod 256]))"

definition dotted_chars :: "string \<Rightarrow> bool" where
  "dotted_chars h \<longleftrightarrow> h \<noteq> [] \<and> list_all (\<lambda>c. is_lhex c \<or> c = CHR ''x'' \<or> c = CHR ''.'') h"

definition normalizeHost :: "string \<Rightarrow> string" where
  "normalizeHost host =
    (let h = rev (dropWhile (\<lambda>c. c = CHR ''.'') (rev (js_lower host))) in
     case quad_after ''::ffff:'' h of Some q \<Rightarrow> q | None \<Rightarrow>
    (case first_some [quad_after ''64:ff9b::'' h, quad_after ''::'' h] of Some q \<Rightarrow> q | None \<Rightarrow>
    (case first_some [words_after ''::ffff:'' h, words_after ''64:ff9b::'' h, words_after ''::'' h, six_to_four h]
       of Some (a, b) \<Rightarrow> words_quad a b | None \<Rightarrow>
     if starts_with ''0x'' h \<and> drop 2 h \<noteq> [] \<and> list_all is_lhex (drop 2 h)
     then intToIPv4 (the (js_parseInt 16 h))
     else if digits h \<and> 0xFFFF < numeral_value 10 h \<and> numeral_value 10 h \<le> 0xFFFFFFFF
     then intToIPv4 (numeral_value 10 h)
     else if dotted_chars h \<and> CHR ''.'' \<in> set h \<and> length (js_split (CHR ''.'') h) = 4
        \<and> list_all (\<lambda>p. case octet p of None \<Rightarrow> False | Some n \<Rightarrow> n \<le> 255) (js_split (CHR ''.'') h)
     then js_join ''.'' (map (\<lambda>p. dec (the (octet p))) (js_split (CHR ''.'') h))
     else h)))"

section \<open>The block list\<close>

text \<open>\<open>1[6-9]|2\d|3[01]\<close>, \<open>6[4-9]|[7-9]\d|1[01]\d|12[0-7]\<close>, \<open>1[89]\<close>, \<open>22[4-9]|2[3-5]\d\<close>\<close>

definition between :: "char \<Rightarrow> char \<Rightarrow> char \<Rightarrow> bool" where
  "between a b c \<longleftrightarrow> code a \<le> code c \<and> code c \<le> code b"

fun rx_172 :: "string \<Rightarrow> bool" where
  "rx_172 [a, b] \<longleftrightarrow> a = CHR ''1'' \<and> between CHR ''6'' CHR ''9'' b \<or> a = CHR ''2'' \<and> is_digit b
     \<or> a = CHR ''3'' \<and> between CHR ''0'' CHR ''1'' b"
| "rx_172 _ \<longleftrightarrow> False"

fun rx_100 :: "string \<Rightarrow> bool" where
  "rx_100 [a, b] \<longleftrightarrow> a = CHR ''6'' \<and> between CHR ''4'' CHR ''9'' b \<or> between CHR ''7'' CHR ''9'' a \<and> is_digit b"
| "rx_100 [a, b, c] \<longleftrightarrow> a = CHR ''1'' \<and> (between CHR ''0'' CHR ''1'' b \<and> is_digit c
     \<or> b = CHR ''2'' \<and> between CHR ''0'' CHR ''7'' c)"
| "rx_100 _ \<longleftrightarrow> False"

fun rx_198 :: "string \<Rightarrow> bool" where
  "rx_198 [a, b] \<longleftrightarrow> a = CHR ''1'' \<and> between CHR ''8'' CHR ''9'' b"
| "rx_198 _ \<longleftrightarrow> False"

fun rx_multicast :: "string \<Rightarrow> bool" where
  "rx_multicast [a, b, c] \<longleftrightarrow> a = CHR ''2'' \<and> (b = CHR ''2'' \<and> between CHR ''4'' CHR ''9'' c
     \<or> between CHR ''3'' CHR ''5'' b \<and> is_digit c)"
| "rx_multicast _ \<longleftrightarrow> False"

definition blocked_quad :: "string list \<Rightarrow> bool" where
  "blocked_quad ps = (case ps of
     [a, b, c, d] \<Rightarrow> a = ''127'' \<or> a = ''10'' \<or> a = ''172'' \<and> rx_172 b \<or> a = ''192'' \<and> b = ''168''
       \<or> a = ''169'' \<and> b = ''254'' \<or> ps = [''192'', ''0'', ''0'', ''192''] \<or> a = ''100'' \<and> rx_100 b
       \<or> a = ''0'' \<or> a = ''198'' \<and> rx_198 b \<or> rx_multicast a
   | _ \<Rightarrow> False)"

text \<open>\<open>^fe[89ab][0-9a-f]:\<close>, \<open>^f[cd][0-9a-f]{2}:\<close>, \<open>^ff[0-9a-f]{0,2}:\<close>\<close>

definition blocked_v6 :: "string \<Rightarrow> bool" where
  "blocked_v6 h \<longleftrightarrow> h = ''::1'' \<or> h = ''::''
     \<or> (case js_split (CHR '':'') h of
          w # _ # _ \<Rightarrow> list_all is_lhex w \<and>
            (length w = 4 \<and> starts_with ''fe'' w \<and> w ! 2 \<in> set ''89ab''
             \<or> length w = 4 \<and> (starts_with ''fc'' w \<or> starts_with ''fd'' w)
             \<or> length w \<le> 4 \<and> starts_with ''ff'' w)
        | _ \<Rightarrow> False)"

definition BLOCKED_PATTERNS :: "string \<Rightarrow> bool" where
  "BLOCKED_PATTERNS h \<longleftrightarrow> h = ''localhost''
     \<or> (case quad h of None \<Rightarrow> False | Some ps \<Rightarrow> blocked_quad ps)
     \<or> blocked_v6 h \<or> ends_with ''host.docker.internal'' h \<or> ends_with ''kubernetes.default'' h"

text \<open>\<open>host.replace(/^\[|\]$/g, '')\<close>\<close>

definition unbracket :: "string \<Rightarrow> string" where
  "unbracket host =
    (let t = (case host of c # cs \<Rightarrow> if c = CHR ''['' then cs else host | [] \<Rightarrow> [])
     in if t \<noteq> [] \<and> last t = CHR '']'' then butlast t else t)"

definition isBlockedHost :: "string \<Rightarrow> bool" where
  "isBlockedHost host \<longleftrightarrow>
    BLOCKED_PATTERNS (unbracket host) \<or> BLOCKED_PATTERNS (normalizeHost (unbracket host))"

section \<open>The guards\<close>

record parsed_url =
  protocol :: string
  hostname :: string

type_synonym url_parser = "string \<Rightarrow> parsed_url option"
type_synonym resolver = "string \<Rightarrow> string list option"

datatype url_error = InvalidUrl string | BadScheme string | Blocked string | BlockedAddress string string
  | MetadataAddress string

definition validatePublicUrl :: "url_parser \<Rightarrow> string \<Rightarrow> (url_error, unit) result" where
  "validatePublicUrl parse rawUrl = (case parse rawUrl of
     None \<Rightarrow> Throw (InvalidUrl rawUrl)
   | Some u \<Rightarrow>
      if protocol u \<noteq> ''http:'' \<and> protocol u \<noteq> ''https:'' then Throw (BadScheme (protocol u))
      else if isBlockedHost (js_lower (hostname u)) then Throw (Blocked rawUrl)
      else Ok ())"

definition isIpLiteral :: "string \<Rightarrow> bool" where
  "isIpLiteral host \<longleftrightarrow> CHR '':'' \<in> set host \<or> quad (normalizeHost host) \<noteq> None"

text \<open>The address to connect to, \<open>None\<close> when there is nothing to pin.\<close>

definition assertPublicUrl :: "url_parser \<Rightarrow> resolver \<Rightarrow> string \<Rightarrow> (url_error, string option) result" where
  "assertPublicUrl parse lookup rawUrl = (case validatePublicUrl parse rawUrl of
     Inl e \<Rightarrow> Inl e
   | Inr _ \<Rightarrow>
      (let host = unbracket (js_lower (hostname (the (parse rawUrl)))) in
       if isIpLiteral host then Ok None
       else (case lookup host of
          None \<Rightarrow> Ok None
        | Some addresses \<Rightarrow>
           (case find isBlockedHost addresses of
              Some a \<Rightarrow> Throw (BlockedAddress rawUrl a)
            | None \<Rightarrow> Ok (case addresses of [] \<Rightarrow> None | a # _ \<Rightarrow> Some a)))))"

definition under_domain :: "string \<Rightarrow> string \<Rightarrow> bool" where
  "under_domain d h \<longleftrightarrow> h = d \<or> ends_with (CHR ''.'' # d) h"

definition METADATA_PATTERNS :: "string \<Rightarrow> bool" where
  "METADATA_PATTERNS h \<longleftrightarrow>
     (case quad h of Some [a, b, c, d] \<Rightarrow> a = ''169'' \<and> b = ''254'' | _ \<Rightarrow> False)
   \<or> (case js_split (CHR '':'') h of w # _ # _ \<Rightarrow>
        list_all is_lhex w \<and> length w = 4 \<and> starts_with ''fe'' w \<and> w ! 2 \<in> set ''89ab'' | _ \<Rightarrow> False)
   \<or> starts_with ''fd00:ec2:'' h \<or> h = ''192.0.0.192'' \<or> h = ''100.100.100.200''
   \<or> under_domain ''metadata.google.internal'' h \<or> under_domain ''metadata.azure.com'' h
   \<or> under_domain ''metadata.oraclecloud.com'' h"

definition assertNonMetadataUrl :: "url_parser \<Rightarrow> string \<Rightarrow> (url_error, unit) result" where
  "assertNonMetadataUrl parse rawUrl = (case parse rawUrl of
     None \<Rightarrow> Throw (InvalidUrl rawUrl)
   | Some u \<Rightarrow>
      if protocol u \<noteq> ''http:'' \<and> protocol u \<noteq> ''https:'' then Throw (BadScheme (protocol u))
      else (let bare = unbracket (js_lower (hostname u)) in
        if METADATA_PATTERNS bare \<or> METADATA_PATTERNS (normalizeHost bare)
        then Throw (MetadataAddress rawUrl) else Ok ()))"

definition validateStorageEndpoint :: "url_parser \<Rightarrow> string \<Rightarrow> (url_error, unit) result" where
  "validateStorageEndpoint parse rawUrl = assertNonMetadataUrl parse rawUrl"

section \<open>Spellings of an address\<close>

text \<open>The address \<open>a.b.c.d\<close> as a block of four octets, and the addresses the guard refuses.\<close>

definition dotted :: "nat list \<Rightarrow> string" where
  "dotted os = js_join ''.'' (map dec os)"

definition reserved :: "nat \<Rightarrow> nat \<Rightarrow> nat \<Rightarrow> nat \<Rightarrow> bool" where
  "reserved a b c d \<longleftrightarrow> a = 0 \<or> a = 10 \<or> a = 127 \<or> 224 \<le> a
     \<or> a = 172 \<and> 16 \<le> b \<and> b \<le> 31 \<or> a = 192 \<and> b = 168 \<or> a = 169 \<and> b = 254
     \<or> a = 100 \<and> 64 \<le> b \<and> b \<le> 127 \<or> a = 198 \<and> (b = 18 \<or> b = 19)
     \<or> a = 192 \<and> b = 0 \<and> c = 0 \<and> d = 192"

datatype octet_spelling = Decimal | Octal | Hexadecimal

fun spell_octet :: "octet_spelling \<Rightarrow> nat \<Rightarrow> string" where
  "spell_octet Decimal n = dec n"
| "spell_octet Octal n = ''0'' @ radix 8 n"
| "spell_octet Hexadecimal n = ''0x'' @ hex n"

lemma octet_spelled: "octet (spell_octet k n) = Some n"
proof (cases k)
  case Decimal
  have "\<not> (starts_with ''0'' (dec n) \<and> 1 < length (dec n))"
  proof
    assume a: "starts_with ''0'' (dec n) \<and> 1 < length (dec n)"
    then have "hd (dec n) = digit_char 0" by (cases "dec n") (auto simp: starts_with_def digit_char_zero)
    then show False using radix_hd_zero [of 10 n] a by simp
  qed
  then show ?thesis using Decimal radix_no_0x [of 10 n] parseInt_radix [of 10 n] by (auto simp: octet_def)
next
  case Octal
  have nox: "\<not> starts_with ''0x'' (''0'' @ radix 8 n)"
  proof
    assume "starts_with ''0x'' (''0'' @ radix 8 n)"
    then have "CHR ''x'' \<in> set (radix 8 n)" by (auto simp: starts_with_iff)
    then show False using radix_hd_digit [of 8 "CHR ''x''" n] by (simp add: is_digit_def)
  qed
  have e: "takeWhile (\<lambda>c. digit_val c < 8) (''0'' @ radix 8 n) = ''0'' @ radix 8 n"
    using radix_valid [of 8 _ n] by (subst takeWhile_eq_all_conv) (auto simp: digit_val_def is_digit_def)
  have "numeral_value 8 (''0'' @ radix 8 n) = n"
    using numeral_radix [of 8 n] by (simp add: numeral_value_def digit_val_def is_digit_def)
  then have "js_parseInt 8 (''0'' @ radix 8 n) = Some n"
    by (simp add: js_parseInt_def Let_def e del: append_Cons)
  then show ?thesis using Octal nox starts_with_append [of "''0''"]
    by (simp add: octet_def)
next
  case Hexadecimal
  then show ?thesis using parseInt_0x [of n] starts_with_append [of "''0x''" "hex n"] by (simp add: octet_def)
qed

definition spell_char :: "char \<Rightarrow> bool" where
  "spell_char c \<longleftrightarrow> is_lhex c \<or> c = CHR ''x''"

lemma spell_chars: "list_all spell_char (spell_octet k n)"
proof -
  have "spell_char c" if "c \<in> set (dec n) \<or> c \<in> set (radix 8 n) \<or> c \<in> set (hex n)" for c
    using that radix_hd_digit [of 10 c n] radix_hd_digit [of 8 c n] hex_chars [of c n]
    by (auto simp: spell_char_def is_lhex_def)
  moreover have "spell_char (CHR ''0'')" "spell_char (CHR ''x'')"
    by (simp_all add: spell_char_def is_lhex_def is_digit_def)
  ultimately show ?thesis by (cases k) (auto simp: list_all_iff)
qed

lemma spell_nonempty [simp]: "spell_octet k n \<noteq> []"
  by (cases k) simp_all

lemma spell_char_facts:
  "spell_char c \<Longrightarrow> c \<noteq> CHR ''.'' \<and> c \<noteq> CHR '':'' \<and> c \<noteq> CHR ''['' \<and> c \<noteq> CHR '']'' \<and> lower_char c = c"
  by (auto simp: spell_char_def is_lhex_def is_digit_def lower_char_def)

text \<open>Four parts of such characters, joined by dots.\<close>

definition parts4 :: "string list \<Rightarrow> bool" where
  "parts4 ps \<longleftrightarrow> length ps = 4 \<and> (\<forall>p \<in> set ps. p \<noteq> [] \<and> list_all spell_char p)"

lemma join4: "length ps = 4 \<Longrightarrow> js_join ''.'' ps = ps ! 0 @ ''.'' @ ps ! 1 @ ''.'' @ ps ! 2 @ ''.'' @ ps ! 3"
  by (auto simp: length_Suc_conv numeral_eq_Suc)

lemma parts4_nth: "parts4 ps \<Longrightarrow> i < 4 \<Longrightarrow> ps ! i \<noteq> [] \<and> list_all spell_char (ps ! i)"
  by (simp add: parts4_def)

lemma joined_chars: "parts4 ps \<Longrightarrow> c \<in> set (js_join ''.'' ps) \<Longrightarrow> spell_char c \<or> c = CHR ''.''"
  using parts4_nth [of ps] by (auto simp: join4 parts4_def list_all_iff)

lemma joined_split: "parts4 ps \<Longrightarrow> js_split (CHR ''.'') (js_join ''.'' ps) = ps"
proof -
  assume p: "parts4 ps"
  have "CHR ''.'' \<notin> set x" if "x \<in> set ps" for x
  proof
    assume "CHR ''.'' \<in> set x"
    then have "spell_char (CHR ''.'')" using p that by (auto simp: parts4_def list_all_iff)
    then show False using spell_char_facts by blast
  qed
  then show ?thesis using p by (intro js_split_join) (auto simp: parts4_def)
qed

lemma joined_last: "parts4 ps \<Longrightarrow> js_join ''.'' ps \<noteq> [] \<and> spell_char (last (js_join ''.'' ps)) \<and> spell_char (hd (js_join ''.'' ps))"
  using parts4_nth [of ps 3] parts4_nth [of ps 0] by (auto simp: join4 parts4_def list_all_iff)

lemma lower_id: "(\<And>c. c \<in> set s \<Longrightarrow> lower_char c = c) \<Longrightarrow> js_lower s = s"
  by (simp add: js_lower_def map_idI)

lemma no_trailing_dot: "s \<noteq> [] \<Longrightarrow> last s \<noteq> CHR ''.'' \<Longrightarrow> rev (dropWhile (\<lambda>c. c = CHR ''.'') (rev s)) = s"
  by (cases s rule: rev_cases) auto

lemma after_colon: "CHR '':'' \<in> set p \<Longrightarrow> CHR '':'' \<notin> set s \<Longrightarrow> after p s = None"
  by (auto simp: after_def starts_with_iff)

lemma no_colon_v6:
  "CHR '':'' \<notin> set s \<Longrightarrow> quad_after ''::ffff:'' s = None \<and> quad_after ''64:ff9b::'' s = None \<and> quad_after ''::'' s = None
   \<and> words_after ''::ffff:'' s = None \<and> words_after ''64:ff9b::'' s = None \<and> words_after ''::'' s = None
   \<and> six_to_four s = None"
  by (simp add: quad_after_def words_after_def six_to_four_def after_colon)

text \<open>A host that reads as its own lower case, without trailing dots.\<close>

definition settled :: "string \<Rightarrow> bool" where
  "settled s \<longleftrightarrow> s \<noteq> [] \<and> js_lower s = s \<and> last s \<noteq> CHR ''.'' \<and> hd s \<noteq> CHR ''['' \<and> last s \<noteq> CHR '']''"

lemma settled_head: "settled s \<Longrightarrow> rev (dropWhile (\<lambda>c. c = CHR ''.'') (rev (js_lower s))) = s"
  by (simp add: settled_def no_trailing_dot)

lemma settled_unbracket: "settled s \<Longrightarrow> unbracket s = s"
  by (cases s) (auto simp: settled_def unbracket_def Let_def)

lemma settled_chars:
  assumes "s \<noteq> []" "\<And>c. c \<in> set s \<Longrightarrow> spell_char c \<or> c = CHR '':'' \<or> c = CHR ''.''" "last s \<noteq> CHR ''.''"
  shows "settled s"
proof -
  have "lower_char c = c \<and> c \<noteq> CHR ''['' \<and> c \<noteq> CHR '']''" if "c \<in> set s" for c
    using assms(2) [OF that] spell_char_facts [of c] by (auto simp: lower_char_def)
  moreover have "hd s \<in> set s" "last s \<in> set s" using assms(1) by simp_all
  ultimately show ?thesis using assms(1,3) by (auto simp: settled_def intro!: lower_id)
qed

lemma not_lhex_dot: "\<not> is_lhex (CHR ''.'')" "\<not> is_lhex (CHR '':'')"
  by (simp_all add: is_lhex_def is_digit_def)

lemma normalize_dotted_parts:
  assumes p: "parts4 ps" and v: "list_all2 (\<lambda>p n. octet p = Some n \<and> n \<le> 255) ps os"
  shows "normalizeHost (js_join ''.'' ps) = dotted os"
proof -
  let ?s = "js_join ''.'' ps"
  have s: "settled ?s"
    using joined_last [OF p] joined_chars [OF p] spell_char_facts by (intro settled_chars) auto
  have colon: "CHR '':'' \<notin> set ?s" using joined_chars [OF p] spell_char_facts by fastforce
  have dot: "CHR ''.'' \<in> set ?s" using p by (simp add: parts4_def join4)
  have "\<not> starts_with ''0x'' ?s \<or> \<not> list_all is_lhex (drop 2 ?s)" "\<not> digits ?s"
  proof -
    have "\<not> is_digit (CHR ''.'')" by (simp add: is_digit_def)
    then show "\<not> digits ?s" using dot by (auto simp: digits_def list_all_iff)
    have "CHR ''.'' \<in> set (drop 2 ?s)" if "starts_with ''0x'' ?s"
      using that dot by (auto simp: starts_with_iff)
    then show "\<not> starts_with ''0x'' ?s \<or> \<not> list_all is_lhex (drop 2 ?s)"
      using not_lhex_dot by (auto simp: list_all_iff)
  qed
  moreover have "dotted_chars ?s"
    using joined_chars [OF p] joined_last [OF p] by (auto simp: dotted_chars_def list_all_iff spell_char_def)
  moreover have "list_all (\<lambda>p. case octet p of None \<Rightarrow> False | Some n \<Rightarrow> n \<le> 255) ps"
    using v by (auto simp: list_all_iff in_set_conv_nth list_all2_conv_all_nth)
  moreover have "map (\<lambda>p. dec (the (octet p))) ps = map dec os"
    using v by (auto simp: list_all2_conv_all_nth intro!: nth_equalityI)
  moreover have "length ps = 4" using p by (simp add: parts4_def)
  ultimately show ?thesis
    unfolding normalizeHost_def settled_head [OF s] Let_def joined_split [OF p]
    using no_colon_v6 [OF colon] dot by (auto simp: dotted_def)
qed

section \<open>Every spelling is the same address\<close>

datatype host_spelling =
    Octets octet_spelling octet_spelling octet_spelling octet_spelling
  | HexInt | DecInt
  | MappedQuad | Nat64Quad | CompatQuad
  | MappedWords | Nat64Words | CompatWords
  | SixToFour string

definition address :: "nat \<Rightarrow> nat \<Rightarrow> nat \<Rightarrow> nat \<Rightarrow> nat" where
  "address a b c d = ((a * 256 + b) * 256 + c) * 256 + d"

definition two_words :: "nat \<Rightarrow> nat \<Rightarrow> nat \<Rightarrow> nat \<Rightarrow> string" where
  "two_words a b c d = hex (a * 256 + b) @ '':'' @ hex (c * 256 + d)"

fun spelled :: "host_spelling \<Rightarrow> nat \<Rightarrow> nat \<Rightarrow> nat \<Rightarrow> nat \<Rightarrow> string" where
  "spelled (Octets p q r s) a b c d =
     js_join ''.'' [spell_octet p a, spell_octet q b, spell_octet r c, spell_octet s d]"
| "spelled HexInt a b c d = ''0x'' @ hex (address a b c d)"
| "spelled DecInt a b c d = dec (address a b c d)"
| "spelled MappedQuad a b c d = ''::ffff:'' @ dotted [a, b, c, d]"
| "spelled Nat64Quad a b c d = ''64:ff9b::'' @ dotted [a, b, c, d]"
| "spelled CompatQuad a b c d = ''::'' @ dotted [a, b, c, d]"
| "spelled MappedWords a b c d = ''::ffff:'' @ two_words a b c d"
| "spelled Nat64Words a b c d = ''64:ff9b::'' @ two_words a b c d"
| "spelled CompatWords a b c d = ''::'' @ two_words a b c d"
| "spelled (SixToFour rest) a b c d = ''2002:'' @ two_words a b c d @ rest"

text \<open>A lone decimal names an address above 65535; a 6to4 address may go on with more words.\<close>

fun proper :: "host_spelling \<Rightarrow> nat \<Rightarrow> nat \<Rightarrow> nat \<Rightarrow> nat \<Rightarrow> bool" where
  "proper DecInt a b c d \<longleftrightarrow> 0xFFFF < address a b c d"
| "proper (SixToFour rest) a b c d \<longleftrightarrow>
     (rest = [] \<or> hd rest = CHR '':'') \<and> list_all (\<lambda>c. is_lhex c \<or> c = CHR '':'') rest"
| "proper _ a b c d \<longleftrightarrow> True"

lemma byte_of_word: "unat ((drop_bit k (of_nat n :: 32 word)) AND 0xFF) = (n mod 4294967296) div 2 ^ k mod 256"
proof -
  have "(0xFF :: 32 word) = mask 8" by (simp add: mask_eq_exp_minus_1)
  then have "unat ((drop_bit k (of_nat n :: 32 word)) AND 0xFF) = unat (take_bit 8 (drop_bit k (of_nat n :: 32 word)))"
    by (simp only: take_bit_eq_mask)
  also have "\<dots> = take_bit 8 (drop_bit k (unat (of_nat n :: 32 word)))"
    by (simp only: unsigned_take_bit_eq unat_drop_bit_eq)
  also have "\<dots> = (n mod 4294967296) div 2 ^ k mod 256"
    by (simp add: unat_of_nat take_bit_eq_mod drop_bit_eq_div)
  finally show ?thesis .
qed

lemma low_byte: "y < 256 \<Longrightarrow> (x * 256 + y) mod 256 = (y :: nat)"
  by (simp only: mod_mult_self3 mod_less)

lemma intToIPv4_bytes:
  assumes "a < 256" "b < 256" "c < 256" "d < 256"
  shows "intToIPv4 (address a b c d) = dotted [a, b, c, d]"
proof -
  let ?n = "address a b c d"
  have n: "?n < 4294967296" using assms by (simp add: address_def)
  have d1: "?n div 256 = (a * 256 + b) * 256 + c" using assms by (simp add: address_def)
  have d0: "?n mod 256 = d" using low_byte [OF assms(4)] by (simp only: address_def)
  have d2: "?n div 65536 = a * 256 + b" using assms div_mult2_eq [of ?n 256 256] by (simp add: d1)
  have d3: "?n div 16777216 = a" using assms div_mult2_eq [of ?n 65536 256] by (simp add: d2)
  have "?n div 16777216 mod 256 = a" "?n div 65536 mod 256 = b" "?n div 256 mod 256 = c" "?n mod 256 = d"
    using low_byte [OF assms(3)] low_byte [OF assms(2)] assms(1) by (simp_all only: d0 d1 d2 d3 mod_less)
  then show ?thesis
    using n byte_of_word [of 24 ?n] byte_of_word [of 16 ?n] byte_of_word [of 8 ?n] byte_of_word [of 0 ?n]
    by (simp add: intToIPv4_def Let_def dotted_def)
qed

lemma words_quad_bytes:
  assumes "a < 256" "b < 256" "c < 256" "d < 256"
  shows "words_quad (hex (a * 256 + b)) (hex (c * 256 + d)) = dotted [a, b, c, d]"
  using assms parseInt_radix [of 16 "a * 256 + b"] parseInt_radix [of 16 "c * 256 + d"]
    low_byte [of b a] low_byte [of d c]
  by (simp add: words_quad_def Let_def dotted_def)

lemma hexword_hex: "n < 65536 \<Longrightarrow> hexword (hex n)"
  using radix_length [of n 16 3] hex_chars [of _ n]
  by (auto simp: hexword_def list_all_iff is_lhex_def)

lemma dotted_parts: "parts4 [dec a, dec b, dec c, dec d]"
  using spell_chars [of Decimal a] spell_chars [of Decimal b] spell_chars [of Decimal c] spell_chars [of Decimal d]
  by (auto simp: parts4_def)

lemma quad_dotted: "quad (dotted [a, b, c, d]) = Some [dec a, dec b, dec c, dec d]"
proof -
  have "js_split (CHR ''.'') (js_join ''.'' [dec a, dec b, dec c, dec d]) = [dec a, dec b, dec c, dec d]"
    by (rule joined_split [OF dotted_parts])
  then show ?thesis by (simp add: quad_def dotted_def dec_digits digits_def)
qed

lemma dotted_chars_only: "c \<in> set (dotted [x, y, z, w]) \<Longrightarrow> spell_char c \<or> c = CHR ''.''"
  using joined_chars [OF dotted_parts] by (simp add: dotted_def)

lemma dotted_hd: "\<exists>k t. dotted [a, b, c, d] = k # t \<and> is_digit k"
  using dec_digit [of "hd (dec a)" a] radix_nonempty [of 10 a]
  by (cases "dec a") (auto simp: dotted_def)

lemma two_words_chars: "x \<in> set (two_words a b c d) \<Longrightarrow> is_lhex x \<or> x = CHR '':''"
  using hex_chars [of x] by (auto simp: two_words_def is_lhex_def)

lemma no_dot_quad: "CHR ''.'' \<notin> set s \<Longrightarrow> quad_after p s = None"
proof -
  assume "CHR ''.'' \<notin> set s"
  then have nodot: "CHR ''.'' \<notin> set (drop (length p) s)" by (meson in_set_dropD)
  then have "quad t = None" if "after p s = Some t" for t
    using that js_split_no_sep [OF nodot] by (auto simp: after_def quad_def split: if_splits)
  then show ?thesis by (simp add: quad_after_def split: option.split)
qed

lemma hex_no_colon: "CHR '':'' \<notin> set (hex n)"
  using hex_chars [of "CHR '':''" n] by (auto simp: is_digit_def)

lemma split_words: "js_split (CHR '':'') (two_words a b c d) = [hex (a * 256 + b), hex (c * 256 + d)]"
  unfolding two_words_def using js_split_append [OF hex_no_colon] js_split_no_sep [OF hex_no_colon] by simp

lemma words_after_found:
  assumes "a < 256" "b < 256" "c < 256" "d < 256"
  shows "words_after p (p @ two_words a b c d) = Some (hex (a * 256 + b), hex (c * 256 + d))"
  using assms by (simp add: words_after_def after_def split_words hexword_hex)

lemma starts_distinct [simp]:
  "\<not> starts_with ''::ffff:'' (''64:ff9b::'' @ s)" "\<not> starts_with ''64:ff9b::'' (''::'' @ s)"
  "\<not> starts_with ''64:ff9b::'' (''::ffff:'' @ s)" "\<not> starts_with ''::'' (''64:ff9b::'' @ s)"
  "\<not> starts_with ''::ffff:'' (''2002:'' @ s)" "\<not> starts_with ''64:ff9b::'' (''2002:'' @ s)"
  "\<not> starts_with ''::'' (''2002:'' @ s)"
  by (simp_all add: starts_with_def)

lemma settled_spelled:
  assumes "proper h a b c d"
  shows "settled (spelled h a b c d)"
proof -
  have sp: "spell_char x" if "is_lhex x" for x using that by (simp add: spell_char_def)
  have lits: "spell_char (CHR ''0'')" "spell_char (CHR ''x'')" "spell_char (CHR ''f'')" "spell_char (CHR ''6'')"
    "spell_char (CHR ''4'')" "spell_char (CHR ''9'')" "spell_char (CHR ''b'')" "spell_char (CHR ''2'')"
    by (simp_all add: spell_char_def is_lhex_def is_digit_def)
  have w3: "spell_char x \<or> x = CHR '':''" if "x \<in> set (two_words a b c d)" for x
    using that two_words_chars [of x a b c d] sp by blast
  have w1: "two_words a b c d \<noteq> []" by (simp add: two_words_def)
  have "last (two_words a b c d) \<in> set (two_words a b c d)" using w1 by (rule last_in_set)
  then have w2: "last (two_words a b c d) \<noteq> CHR ''.''"
    using two_words_chars [of "last (two_words a b c d)" a b c d] not_lhex_dot by auto
  note tw = w1 w2 w3
  have dt: "dotted [a, b, c, d] \<noteq> []" "last (dotted [a, b, c, d]) \<noteq> CHR ''.''"
    "\<And>x. x \<in> set (dotted [a, b, c, d]) \<Longrightarrow> spell_char x \<or> x = CHR ''.''"
    using joined_last [OF dotted_parts [of a b c d]] spell_char_facts dotted_chars_only [of _ a b c d]
    by (auto simp: dotted_def)
  have hx: "spell_char x" if "x \<in> set (hex n)" for x n
    using hex_chars [OF that] by (simp add: spell_char_def is_lhex_def)
  have dx: "spell_char x" if "x \<in> set (dec n)" for x n
    using dec_digit [OF that] by (simp add: spell_char_def is_lhex_def)
  have all: "settled s" if "s \<noteq> []" "\<And>x. x \<in> set s \<Longrightarrow> spell_char x" for s
    using that(1) that(2) [OF last_in_set [OF that(1)]] that(2) spell_char_facts
    by (intro settled_chars) blast+
  have pre: "settled (p @ t)" if t: "t \<noteq> []" "last t \<noteq> CHR ''.''"
    "\<And>x. x \<in> set t \<Longrightarrow> spell_char x \<or> x = CHR '':'' \<or> x = CHR ''.''"
    "\<And>x. x \<in> set p \<Longrightarrow> spell_char x \<or> x = CHR '':''" for p t
  proof (rule settled_chars)
    fix x assume "x \<in> set (p @ t)"
    then show "spell_char x \<or> x = CHR '':'' \<or> x = CHR ''.''" using t(3,4) [of x] by auto
  qed (use t in simp_all)
  have quads: "settled (p @ dotted [a, b, c, d])" if "\<And>x. x \<in> set p \<Longrightarrow> spell_char x \<or> x = CHR '':''" for p
    using dt by (intro pre that) blast+
  have words: "settled (p @ two_words a b c d)" if "\<And>x. x \<in> set p \<Longrightarrow> spell_char x \<or> x = CHR '':''" for p
    using tw by (intro pre that) blast+
  show ?thesis
  proof (cases h)
    case (Octets p q r s)
    have "parts4 [spell_octet p a, spell_octet q b, spell_octet r c, spell_octet s d]"
      by (simp add: parts4_def spell_chars)
    from joined_last [OF this] joined_chars [OF this] show ?thesis
      using spell_char_facts unfolding Octets spelled.simps by (intro settled_chars) auto
  next
    case HexInt
    have "spell_char x" if "x \<in> set (''0x'' @ hex (address a b c d))" for x
      using that hx [of x "address a b c d"] lits(1,2) by auto
    then show ?thesis unfolding HexInt spelled.simps by (intro all) auto
  next
    case DecInt
    then show ?thesis using dx by (auto intro: all)
  next
    case (SixToFour rest)
    have r: "spell_char x \<or> x = CHR '':''" if "x \<in> set rest" for x
      using that assms sp SixToFour by (auto simp: list_all_iff)
    have "last (''2002:'' @ two_words a b c d @ rest) \<noteq> CHR ''.''"
    proof (cases "rest = []")
      case False
      then have "last rest \<in> set rest" by (rule last_in_set)
      then have "last rest \<noteq> CHR ''.''" using r [of "last rest"] spell_char_facts [of "CHR ''.''"] by auto
      then show ?thesis using False by simp
    qed (use tw(1,2) in simp)
    then show ?thesis unfolding SixToFour spelled.simps
      using tw(3) r lits by (intro settled_chars) auto
  next
    case MappedQuad
    show ?thesis unfolding MappedQuad spelled.simps by (rule quads) (use lits in auto)
  next
    case Nat64Quad
    show ?thesis unfolding Nat64Quad spelled.simps by (rule quads) (use lits in auto)
  next
    case CompatQuad
    show ?thesis unfolding CompatQuad spelled.simps by (rule quads) (use lits in auto)
  next
    case MappedWords
    show ?thesis unfolding MappedWords spelled.simps by (rule words) (use lits in auto)
  next
    case Nat64Words
    show ?thesis unfolding Nat64Words spelled.simps by (rule words) (use lits in auto)
  next
    case CompatWords
    show ?thesis unfolding CompatWords spelled.simps by (rule words) (use lits in auto)
  qed
qed

lemma normalize_spelled:
  assumes o: "a < 256" "b < 256" "c < 256" "d < 256" and h: "proper h a b c d"
  shows "normalizeHost (spelled h a b c d) = dotted [a, b, c, d]"
proof -
  note head = settled_head [OF settled_spelled [OF h]]
  note found = words_after_found [OF o] and bytes = words_quad_bytes [OF o] and int = intToIPv4_bytes [OF o]
  have qa: "quad_after p (p @ dotted [a, b, c, d]) = Some (dotted [a, b, c, d])" for p
    by (simp add: quad_after_def after_def quad_dotted)
  have nd: "CHR ''.'' \<notin> set (two_words a b c d)"
    using two_words_chars [of "CHR ''.''"] not_lhex_dot by auto
  have nodot: "quad_after p s = None" if "CHR ''.'' \<notin> set s" for p s using that by (rule no_dot_quad)
  have none: "quad_after p s = None" "words_after p s = None" if "\<not> starts_with p s" for p s
    using that by (simp_all add: quad_after_def words_after_def after_def)
  show ?thesis
  proof (cases h)
    case (Octets p q r s)
    have "parts4 [spell_octet p a, spell_octet q b, spell_octet r c, spell_octet s d]"
      by (simp add: parts4_def spell_chars)
    from normalize_dotted_parts [OF this, of "[a, b, c, d]"] show ?thesis
      using o by (simp add: Octets octet_spelled)
  next
    case HexInt
    have "CHR '':'' \<notin> set (''0x'' @ hex (address a b c d))" using hex_no_colon by simp
    note v6 = no_colon_v6 [OF this]
    have "list_all is_lhex (hex (address a b c d))"
      using hex_chars by (auto simp: list_all_iff is_lhex_def)
    then show ?thesis using head v6 int parseInt_0x [of "address a b c d"] starts_with_append [of "''0x''" "hex (address a b c d)"]
      unfolding normalizeHost_def Let_def by (simp add: HexInt)
  next
    case DecInt
    have "CHR '':'' \<notin> set (dec (address a b c d))" using dec_digit [of "CHR '':''"] by (auto simp: is_digit_def)
    note v6 = no_colon_v6 [OF this]
    have "digits (dec (address a b c d))" "address a b c d \<le> 0xFFFFFFFF"
      using o by (simp_all add: digits_def dec_digits address_def)
    then show ?thesis using head v6 int radix_no_0x [of 10 "address a b c d"] numeral_radix [of 10 "address a b c d"] h
      unfolding normalizeHost_def Let_def by (simp add: DecInt)
  next
    case MappedQuad
    show ?thesis using qa [of "''::ffff:''"] unfolding normalizeHost_def head Let_def by (simp add: MappedQuad)
  next
    case Nat64Quad
    show ?thesis using qa [of "''64:ff9b::''"] none(1) [OF starts_distinct(1)]
      unfolding normalizeHost_def head Let_def by (simp add: Nat64Quad)
  next
    case CompatQuad
    have "\<not> starts_with ''::ffff:'' (''::'' @ dotted [a, b, c, d])"
      using dotted_hd [of a b c d] by (auto simp: starts_with_def is_digit_def)
    then show ?thesis using qa [of "''::''"] none(1) starts_distinct(2)
      unfolding normalizeHost_def head Let_def by (simp add: CompatQuad)
  next
    case MappedWords
    show ?thesis using found [of "''::ffff:''"] nodot nd bytes
      unfolding normalizeHost_def head Let_def by (simp add: MappedWords)
  next
    case Nat64Words
    show ?thesis using found [of "''64:ff9b::''"] nodot nd bytes none(2) [OF starts_distinct(1)]
      unfolding normalizeHost_def head Let_def by (simp add: Nat64Words)
  next
    case CompatWords
    have "words_after ''::ffff:'' (''::'' @ two_words a b c d) = None"
    proof (cases "starts_with ''ffff:'' (two_words a b c d)")
      case True
      then obtain u where u: "two_words a b c d = ''ffff:'' @ u" by (auto simp: starts_with_iff)
      have "js_split (CHR '':'') (two_words a b c d) = ''ffff'' # js_split (CHR '':'') u"
        unfolding u using js_split_append [of "CHR '':''" "''ffff''" u] by simp
      then have "js_split (CHR '':'') u = [hex (c * 256 + d)]" using split_words [of a b c d] by simp
      then have "length (js_split (CHR '':'') u) = 1" by simp
      then show ?thesis by (auto simp: words_after_def after_def u length_Suc_conv)
    next
      case False
      then have "\<not> starts_with ''::ffff:'' (''::'' @ two_words a b c d)" by (auto simp: starts_with_def)
      then show ?thesis by (rule none(2))
    qed
    then show ?thesis using found [of "''::''"] nodot nd bytes none(2) [OF starts_distinct(2)]
      unfolding normalizeHost_def head Let_def by (simp add: CompatWords)
  next
    case (SixToFour rest)
    have rest: "rest = [] \<or> hd rest = CHR '':''" "CHR ''.'' \<notin> set rest"
      using h not_lhex_dot by (auto simp: SixToFour list_all_iff)
    have "js_split (CHR '':'') (hex (c * 256 + d) @ rest) = hex (c * 256 + d) # (if rest = [] then [] else js_split (CHR '':'') (tl rest))"
      using rest(1) js_split_append [OF hex_no_colon] js_split_no_sep [OF hex_no_colon]
      by (cases rest) auto
    then have "six_to_four (''2002:'' @ two_words a b c d @ rest) = Some (hex (a * 256 + b), hex (c * 256 + d))"
      using o js_split_append [OF hex_no_colon [of "a * 256 + b"], of "hex (c * 256 + d) @ rest"]
      by (simp add: six_to_four_def after_def starts_with_def two_words_def hexword_hex)
    then show ?thesis using nodot nd rest bytes none(2) starts_distinct
      unfolding normalizeHost_def head Let_def by (simp add: SixToFour)
  qed
qed

section \<open>What is refused\<close>

lemma dec_literals:
  "''0'' = dec 0" "''10'' = dec 10" "''100'' = dec 100" "''127'' = dec 127" "''168'' = dec 168" "''169'' = dec 169"
  "''172'' = dec 172" "''192'' = dec 192" "''198'' = dec 198" "''254'' = dec 254"
  by code_simp+

lemma dec_is:
  "dec n = ''0'' \<longleftrightarrow> n = 0" "dec n = ''10'' \<longleftrightarrow> n = 10" "dec n = ''100'' \<longleftrightarrow> n = 100"
  "dec n = ''127'' \<longleftrightarrow> n = 127" "dec n = ''168'' \<longleftrightarrow> n = 168" "dec n = ''169'' \<longleftrightarrow> n = 169"
  "dec n = ''172'' \<longleftrightarrow> n = 172" "dec n = ''192'' \<longleftrightarrow> n = 192" "dec n = ''198'' \<longleftrightarrow> n = 198"
  "dec n = ''254'' \<longleftrightarrow> n = 254"
  unfolding dec_literals(2-) by (simp_all only: radix_inject, simp_all add: dec_literals(1) radix_inject)

lemma low_digit: "r < 10 \<Longrightarrow> (m * 10 + r) mod 10 = (r :: nat) \<and> (m * 10 + r) div 10 = m"
  by simp

lemma dec_one: "n < 10 \<Longrightarrow> dec n = [digit_char n]"
  by (simp add: radix.simps)

lemma dec_append: "1 \<le> m \<Longrightarrow> r < 10 \<Longrightarrow> dec (m * 10 + r) = dec m @ [digit_char r]"
  using low_digit [of r m] by (subst radix.simps) simp

lemma dec_two: "1 \<le> p \<Longrightarrow> p < 10 \<Longrightarrow> q < 10 \<Longrightarrow> dec (p * 10 + q) = [digit_char p, digit_char q]"
  by (simp add: radix.simps [of 10 "p * 10 + q"] dec_one)

lemma dec_three:
  "1 \<le> p \<Longrightarrow> p < 10 \<Longrightarrow> q < 10 \<Longrightarrow> r < 10 \<Longrightarrow>
   dec ((p * 10 + q) * 10 + r) = [digit_char p, digit_char q, digit_char r]"
  using dec_two [of p q] dec_append [of "p * 10 + q" r] by simp

lemma digit_is:
  "k < 10 \<Longrightarrow> digit_char k = CHR ''1'' \<longleftrightarrow> k = 1" "k < 10 \<Longrightarrow> digit_char k = CHR ''2'' \<longleftrightarrow> k = 2"
  "k < 10 \<Longrightarrow> digit_char k = CHR ''3'' \<longleftrightarrow> k = 3" "k < 10 \<Longrightarrow> digit_char k = CHR ''6'' \<longleftrightarrow> k = 6"
  "k < 10 \<Longrightarrow> is_digit (digit_char k)"
  "k < 10 \<Longrightarrow> between CHR ''6'' CHR ''9'' (digit_char k) \<longleftrightarrow> 6 \<le> k"
  "k < 10 \<Longrightarrow> between CHR ''0'' CHR ''1'' (digit_char k) \<longleftrightarrow> k \<le> 1"
  "k < 10 \<Longrightarrow> between CHR ''4'' CHR ''9'' (digit_char k) \<longleftrightarrow> 4 \<le> k"
  "k < 10 \<Longrightarrow> between CHR ''7'' CHR ''9'' (digit_char k) \<longleftrightarrow> 7 \<le> k"
  "k < 10 \<Longrightarrow> between CHR ''0'' CHR ''7'' (digit_char k) \<longleftrightarrow> k \<le> 7"
  "k < 10 \<Longrightarrow> between CHR ''8'' CHR ''9'' (digit_char k) \<longleftrightarrow> 8 \<le> k"
  "k < 10 \<Longrightarrow> between CHR ''3'' CHR ''5'' (digit_char k) \<longleftrightarrow> 3 \<le> k \<and> k \<le> 5"
  by (auto simp: between_def is_digit_def code_digit_char simp flip: code_inject)

lemma octet_cases:
  assumes "n < 256"
  obtains "n < 10"
  | p q where "n = p * 10 + q" "1 \<le> p" "p < 10" "q < (10 :: nat)"
  | p q r where "n = (p * 10 + q) * 10 + r" "1 \<le> p" "p < 10" "q < 10" "r < (10 :: nat)"
proof -
  have n: "n = n div 10 * 10 + n mod 10" by simp
  consider "n < 10" | "10 \<le> n" "n < 100" | "100 \<le> n" by linarith
  then show thesis
  proof cases
    case 2
    then show thesis using that(2) [of "n div 10" "n mod 10"] n by simp
  next
    case 3
    let ?m = "n div 10"
    have "n = (?m div 10 * 10 + ?m mod 10) * 10 + n mod 10" by simp
    moreover have "1 \<le> ?m div 10" "?m div 10 < 10" using 3 assms by simp_all
    ultimately show thesis using that(3) [of "?m div 10" "?m mod 10" "n mod 10"] by simp
  qed (rule that(1))
qed

text \<open>The alternatives of the block list over the octets that are numbers.\<close>

lemma octet_range:
  assumes "n < 256"
  shows "rx_172 (dec n) \<longleftrightarrow> 16 \<le> n \<and> n \<le> 31" "rx_100 (dec n) \<longleftrightarrow> 64 \<le> n \<and> n \<le> 127"
    "rx_198 (dec n) \<longleftrightarrow> n = 18 \<or> n = 19" "rx_multicast (dec n) \<longleftrightarrow> 224 \<le> n"
proof -
  have "(rx_172 (dec n) \<longleftrightarrow> 16 \<le> n \<and> n \<le> 31) \<and> (rx_100 (dec n) \<longleftrightarrow> 64 \<le> n \<and> n \<le> 127)
    \<and> (rx_198 (dec n) \<longleftrightarrow> n = 18 \<or> n = 19) \<and> (rx_multicast (dec n) \<longleftrightarrow> 224 \<le> n)"
  proof (cases rule: octet_cases [OF assms])
    case 1
    then show ?thesis by (simp add: dec_one)
  next
    case (2 p q)
    have e: "dec n = [digit_char p, digit_char q]" using 2 dec_two by simp
    show ?thesis using 2 unfolding e rx_172.simps rx_100.simps rx_198.simps rx_multicast.simps
      by (simp add: digit_is) arith
  next
    case (3 p q r)
    have e: "dec n = [digit_char p, digit_char q, digit_char r]" using 3 dec_three by simp
    have n: "n = 100 * p + 10 * q + r" using 3 by simp
    have p: "p = 1 \<or> p = 2" using n 3(2) assms by linarith
    have r100: "64 \<le> n \<and> n \<le> 127 \<longleftrightarrow> p = 1 \<and> (q \<le> 1 \<or> q = 2 \<and> r \<le> 7)"
      using p
    proof
      assume "p = 1"
      then have "n = 100 + 10 * q + r" using n by simp
      then show ?thesis using \<open>p = 1\<close> 3(5) by (cases "q \<le> 1"; cases "q = 2"; auto)
    qed (use n in simp)
    have rm: "224 \<le> n \<longleftrightarrow> p = 2 \<and> (q = 2 \<and> 4 \<le> r \<or> 3 \<le> q \<and> q \<le> 5)"
      using p
    proof
      assume "p = 2"
      then have "n = 200 + 10 * q + r" using n by simp
      then show ?thesis using \<open>p = 2\<close> 3(5) assms by (cases "q \<le> 1"; cases "q = 2"; auto)
    qed (use n 3(4,5) in simp)
    have "\<not> n \<le> 31" "n \<noteq> 18" "n \<noteq> 19" using n 3(2) by linarith+
    then show ?thesis
      unfolding r100 rm e rx_172.simps rx_100.simps rx_198.simps rx_multicast.simps
      by (simp add: digit_is 3(3-5))
  qed
  then show "rx_172 (dec n) \<longleftrightarrow> 16 \<le> n \<and> n \<le> 31" "rx_100 (dec n) \<longleftrightarrow> 64 \<le> n \<and> n \<le> 127"
    "rx_198 (dec n) \<longleftrightarrow> n = 18 \<or> n = 19" "rx_multicast (dec n) \<longleftrightarrow> 224 \<le> n" by auto
qed

lemma blocked_dotted:
  assumes "a < 256" "b < 256" "c < 256" "d < 256"
  shows "BLOCKED_PATTERNS (dotted [a, b, c, d]) \<longleftrightarrow> reserved a b c d"
proof -
  let ?s = "dotted [a, b, c, d]"
  have chars: "spell_char x \<or> x = CHR ''.''" if "x \<in> set ?s" for x
    using dotted_chars_only that by blast
  have nospell: "\<not> spell_char (CHR ''l'')" "\<not> spell_char (CHR '':'')" "\<not> spell_char (CHR ''k'')"
    by (simp_all add: spell_char_def is_lhex_def is_digit_def)
  have colon: "CHR '':'' \<notin> set ?s" using chars nospell by auto
  then have "\<not> blocked_v6 ?s"
    using js_split_no_sep [OF colon] by (auto simp: blocked_v6_def)
  moreover have "?s \<noteq> ''localhost''" using chars [of "CHR ''l''"] nospell by auto
  moreover have "\<not> ends_with ''host.docker.internal'' ?s" "\<not> ends_with ''kubernetes.default'' ?s"
  proof -
    have ends: "set p \<subseteq> set ?s" if "ends_with p ?s" for p
    proof -
      have "p = drop (length ?s - length p) ?s" using that by (simp add: ends_with_def)
      then show ?thesis by (metis set_drop_subset)
    qed
    show "\<not> ends_with ''host.docker.internal'' ?s" "\<not> ends_with ''kubernetes.default'' ?s"
      using ends [of "''host.docker.internal''"] ends [of "''kubernetes.default''"] chars [of "CHR ''l''"] nospell
      by auto
  qed
  moreover have "blocked_quad [dec a, dec b, dec c, dec d] \<longleftrightarrow> reserved a b c d"
    using assms by (auto simp: blocked_quad_def reserved_def dec_is octet_range)
  ultimately show ?thesis by (simp add: BLOCKED_PATTERNS_def quad_dotted)
qed

text \<open>
  C5. For each of the 2^32 IPv4 addresses and every spelling of it (dotted with each
  octet decimal, octal or hex, a lone hex or decimal integer, inside IPv6 as mapped,
  NAT64, compatible or 6to4) a reserved address is refused.
\<close>

theorem reserved_refused:
  assumes "a < 256" "b < 256" "c < 256" "d < 256" "proper h a b c d" "reserved a b c d"
  shows "isBlockedHost (spelled h a b c d)"
  using assms blocked_dotted [OF assms(1-4)] normalize_spelled [OF assms(1-5)]
    settled_unbracket [OF settled_spelled [OF assms(5)]]
  by (simp add: isBlockedHost_def)

theorem reserved_refused_witness:
  "isBlockedHost (spelled HexInt 169 254 169 254) \<and> isBlockedHost (spelled (Octets Octal Hexadecimal Decimal Decimal) 127 0 0 1)
   \<and> isBlockedHost (spelled (SixToFour ''::1'') 10 0 0 1)"
  by (intro conjI reserved_refused) (simp_all add: reserved_def is_lhex_def is_digit_def)

text \<open>
  Of the addresses written in dotted decimal the guard refuses the reserved ones
  and no other: public space on either side of every range stays reachable.
\<close>

theorem dotted_refused_iff:
  assumes "a < 256" "b < 256" "c < 256" "d < 256"
  shows "isBlockedHost (dotted [a, b, c, d]) \<longleftrightarrow> reserved a b c d"
proof -
  have s: "spelled (Octets Decimal Decimal Decimal Decimal) a b c d = dotted [a, b, c, d]"
    by (simp add: dotted_def)
  have "settled (dotted [a, b, c, d])"
    using settled_spelled [of "Octets Decimal Decimal Decimal Decimal" a b c d] by (simp only: s proper.simps)
  moreover have "normalizeHost (dotted [a, b, c, d]) = dotted [a, b, c, d]"
    using normalize_spelled [OF assms, of "Octets Decimal Decimal Decimal Decimal"] by (simp only: s proper.simps)
  ultimately show ?thesis using blocked_dotted [OF assms] settled_unbracket by (simp add: isBlockedHost_def)
qed

theorem dotted_refused_iff_witness:
  "\<not> isBlockedHost (dotted [100, 128, 0, 1]) \<and> isBlockedHost (dotted [100, 127, 0, 1])"
  by (simp add: dotted_refused_iff reserved_def)

text \<open>
  \<open>assertPublicUrl\<close> lets a URL through only if its scheme is http(s), its host is
  not refused, and no address its name resolves to is refused; the address it hands
  back to connect to is one of those.
\<close>

theorem assertPublicUrl_safe:
  assumes "assertPublicUrl parse lookup rawUrl = Ok pin"
  shows "\<exists>u. parse rawUrl = Some u \<and> protocol u \<in> {''http:'', ''https:''}
    \<and> \<not> isBlockedHost (js_lower (hostname u))
    \<and> (\<forall>addresses. \<not> isIpLiteral (unbracket (js_lower (hostname u)))
         \<and> lookup (unbracket (js_lower (hostname u))) = Some addresses
         \<longrightarrow> (\<forall>a \<in> set addresses. \<not> isBlockedHost a) \<and> pin = (if addresses = [] then None else Some (hd addresses)))"
  using assms
  by (auto simp: assertPublicUrl_def validatePublicUrl_def Let_def find_None_iff
      split: option.splits sum.splits if_splits list.splits)

definition demo_parse :: url_parser where
  "demo_parse s = Some \<lparr> protocol = ''https:'', hostname = s \<rparr>"

theorem assertPublicUrl_safe_witness:
  "assertPublicUrl demo_parse (\<lambda>h. Some [''8.8.8.8'']) ''api.example'' = Ok (Some ''8.8.8.8'')
   \<and> \<not> isBlockedHost (js_lower ''api.example'')"
proof -
  have d: "''8.8.8.8'' = dotted [8, 8, 8, 8]" by code_simp
  have n: "\<not> isBlockedHost ''8.8.8.8''" unfolding d by (simp add: dotted_refused_iff reserved_def)
  have l: "js_lower ''api.example'' = ''api.example''" "unbracket ''api.example'' = ''api.example''"
    by code_simp+
  have h: "normalizeHost ''api.example'' = ''api.example''" "\<not> isIpLiteral ''api.example''" "\<not> isBlockedHost ''api.example''"
    by code_simp+
  have ok: "assertPublicUrl demo_parse (\<lambda>h. Some [''8.8.8.8'']) ''api.example'' = Ok (Some ''8.8.8.8'')"
    using n h l by (simp add: assertPublicUrl_def validatePublicUrl_def demo_parse_def)
  from assertPublicUrl_safe [OF ok] ok show ?thesis by (auto simp: demo_parse_def)
qed

text \<open>The instance-metadata addresses, which no endpoint may be.\<close>

definition metadata_address :: "nat \<Rightarrow> nat \<Rightarrow> nat \<Rightarrow> nat \<Rightarrow> bool" where
  "metadata_address a b c d \<longleftrightarrow> a = 169 \<and> b = 254 \<or> [a, b, c, d] = [192, 0, 0, 192] \<or> [a, b, c, d] = [100, 100, 100, 200]"

text \<open>
  An endpoint an administrator may host on their own network still may not be a
  cloud metadata address, however the address is spelled.
\<close>

theorem metadata_refused:
  assumes "a < 256" "b < 256" "c < 256" "d < 256" "proper h a b c d" "metadata_address a b c d"
    and "parse rawUrl = Some u" "hostname u = spelled h a b c d" "protocol u = ''https:''"
  shows "assertNonMetadataUrl parse rawUrl = Throw (MetadataAddress rawUrl)"
proof -
  have s: "settled (spelled h a b c d)" by (rule settled_spelled [OF assms(5)])
  then have "unbracket (js_lower (hostname u)) = spelled h a b c d"
    using assms(8) settled_unbracket by (simp add: settled_def)
  moreover have "''192.0.0.192'' = dotted [192, 0, 0, 192]" "''100.100.100.200'' = dotted [100, 100, 100, 200]"
    by code_simp+
  then have "METADATA_PATTERNS (dotted [a, b, c, d])"
    using assms(6) by (auto simp: metadata_address_def METADATA_PATTERNS_def quad_dotted dec_is)
  ultimately show ?thesis
    using assms(7,9) normalize_spelled [OF assms(1-5)] by (simp add: assertNonMetadataUrl_def Let_def)
qed

theorem metadata_refused_witness:
  "assertNonMetadataUrl (\<lambda>_. Some \<lparr> protocol = ''https:'', hostname = spelled MappedWords 169 254 169 254 \<rparr>) ''u''
    = Throw (MetadataAddress ''u'')"
  by (rule metadata_refused [of 169 254 169 254 MappedWords,
        where u = "\<lparr> protocol = ''https:'', hostname = spelled MappedWords 169 254 169 254 \<rparr>"])
     (simp_all add: metadata_address_def)

end
