(* ===== verification/Crdt.thy ===== *)
theory Crdt
  imports Prelude "HOL-Library.List_Lexorder"
begin

text \<open>
  \<open>packages/sdk/src/crdt.ts\<close>: last-write-wins documents, observed-remove sets and
  the Lamport clock of the offline SDK.  A document is a map from field to value,
  clock and client; an OR-set is the array of its elements, tombstones included.
  The fresh identifier an add draws is an argument.
\<close>

section \<open>Last write wins\<close>

record 'a lww_field =
  lww_value :: 'a
  lww_lamport :: nat
  lww_clientId :: string

type_synonym 'a lww_document = "string \<rightharpoonup> 'a lww_field"

definition newer :: "'a lww_field \<Rightarrow> 'a lww_field \<Rightarrow> bool" where
  "newer r l \<longleftrightarrow> lww_lamport r > lww_lamport l
     \<or> lww_lamport r = lww_lamport l \<and> lww_clientId r > lww_clientId l"

text \<open>
  A document is a plain object, so \<open>local[key]\<close> finds what the object inherits when it has
  no such field of its own: a function or the prototype itself, which is truthy and has
  neither a clock nor a client, so that neither comparison holds.
\<close>

datatype 'a found = Absent | Inherited | Own "'a lww_field"

definition lookup_field :: "'a lww_document \<Rightarrow> string \<Rightarrow> 'a found" where
  "lookup_field d key = (case d key of
     Some f \<Rightarrow> Own f
   | None \<Rightarrow> if key \<in> set inherited then Inherited else Absent)"

definition mergeLWW :: "'a lww_document \<Rightarrow> 'a lww_document \<Rightarrow> 'a lww_document" where
  "mergeLWW loc rem = (\<lambda>key. case rem key of
     None \<Rightarrow> loc key
   | Some r \<Rightarrow> (case lookup_field loc key of
        Absent \<Rightarrow> Some r
      | Inherited \<Rightarrow> loc key
      | Own l \<Rightarrow> if newer r l then Some r else loc key))"

text \<open>An assignment to \<open>__proto__\<close> on a fresh object sets its prototype and makes no field.\<close>

definition toDocument :: "(string \<rightharpoonup> 'a) \<Rightarrow> nat \<Rightarrow> string \<Rightarrow> 'a lww_document" where
  "toDocument data lamport clientId = (\<lambda>key. if key = ''__proto__'' then None else map_option
     (\<lambda>v. \<lparr> lww_value = v, lww_lamport = lamport, lww_clientId = clientId \<rparr>) (data key))"

definition fromDocument :: "'a lww_document \<Rightarrow> (string \<rightharpoonup> 'a)" where
  "fromDocument doc = (\<lambda>key. if key = ''__proto__'' then None else map_option lww_value (doc key))"

section \<open>Observed-remove set\<close>

record 'a or_element =
  el_value :: 'a
  el_uid :: string
  el_removed :: bool

type_synonym 'a or_set = "'a or_element list"

definition orSetAdd :: "'a or_set \<Rightarrow> 'a \<Rightarrow> string \<Rightarrow> 'a or_set" where
  "orSetAdd s v uid = s @ [\<lparr> el_value = v, el_uid = uid, el_removed = False \<rparr>]"

definition orSetRemove :: "'a or_set \<Rightarrow> string \<Rightarrow> 'a or_set" where
  "orSetRemove s uid = map (\<lambda>el. if el_uid el = uid then el\<lparr> el_removed := True \<rparr> else el) s"

text \<open>The \<open>Map\<close> of the merge: entries in insertion order, a set key keeping its place.\<close>

fun map_set :: "'a or_element \<Rightarrow> 'a or_set \<Rightarrow> 'a or_set" where
  "map_set el [] = [el]"
| "map_set el (x # xs) = (if el_uid x = el_uid el then el # xs else x # map_set el xs)"

definition map_get :: "'a or_set \<Rightarrow> string \<Rightarrow> 'a or_element option" where
  "map_get m uid = find (\<lambda>x. el_uid x = uid) m"

definition merge_step :: "'a or_element \<Rightarrow> 'a or_set \<Rightarrow> 'a or_set" where
  "merge_step el merged =
    (if map_get merged (el_uid el) = None \<or> el_removed el then map_set el merged else merged)"

definition orSetMerge :: "'a or_set \<Rightarrow> 'a or_set \<Rightarrow> 'a or_set" where
  "orSetMerge loc rem = fold merge_step (loc @ rem) []"

definition orSetValues :: "'a or_set \<Rightarrow> 'a list" where
  "orSetValues s = map el_value (filter (\<lambda>el. \<not> el_removed el) s)"

section \<open>Lamport clock\<close>

record lamport_clock =
  clock_value :: nat
  clock_id :: string

definition new_clock :: "string \<Rightarrow> nat \<Rightarrow> lamport_clock" where
  "new_clock clientId initial = \<lparr> clock_value = initial, clock_id = clientId \<rparr>"

definition tick :: "lamport_clock \<Rightarrow> lamport_clock \<times> nat" where
  "tick c = (let v = clock_value c + 1 in (c\<lparr> clock_value := v \<rparr>, v))"

definition update :: "lamport_clock \<Rightarrow> nat \<Rightarrow> lamport_clock \<times> nat" where
  "update c received = (let v = max (clock_value c) received + 1 in (c\<lparr> clock_value := v \<rparr>, v))"

section \<open>A merge as a semilattice\<close>

text \<open>
  What replicas need of a merge: with respect to what they observe of a state, the
  order and grouping of merges and their repetition do not matter.
\<close>

locale replica_merge =
  fixes merge :: "'s \<Rightarrow> 's \<Rightarrow> 's"
    and observe :: "'s \<Rightarrow> 'o"
    and compatible :: "'s \<Rightarrow> 's \<Rightarrow> bool"
  assumes commutes: "compatible a b \<Longrightarrow> observe (merge a b) = observe (merge b a)"
    and associates: "compatible a b \<Longrightarrow> compatible b c \<Longrightarrow> compatible a c \<Longrightarrow>
      observe (merge (merge a b) c) = observe (merge a (merge b c))"
    and idempotent: "compatible a a \<Longrightarrow> observe (merge a a) = observe a"
    and congruent: "observe a = observe a' \<Longrightarrow> observe b = observe b' \<Longrightarrow>
      observe (merge a b) = observe (merge a' b')"
begin

text \<open>Two replicas that exchanged states, in either direction, agree; a third order too.\<close>

lemma exchange:
  "compatible a b \<Longrightarrow> compatible a a \<Longrightarrow> compatible b b \<Longrightarrow>
   observe (merge (merge a b) b) = observe (merge a b)"
  using associates [of a b b] idempotent [of b] congruent [of a a "merge b b" b] by simp

lemma three_orders:
  assumes "compatible a b" "compatible b c" "compatible a c" "compatible b a" "compatible c b" "compatible c a"
  shows "observe (merge (merge a b) c) = observe (merge (merge c b) a)"
proof -
  have "observe (merge (merge a b) c) = observe (merge a (merge b c))" using assms by (intro associates)
  also have "\<dots> = observe (merge a (merge c b))" using assms by (intro congruent commutes) simp_all
  also have "\<dots> = observe (merge (merge a c) b)" using assms by (simp add: associates)
  also have "\<dots> = observe (merge (merge c a) b)" using assms by (intro congruent commutes) simp_all
  also have "\<dots> = observe (merge c (merge a b))" using assms by (intro associates)
  also have "\<dots> = observe (merge c (merge b a))" using assms by (intro congruent commutes) simp_all
  also have "\<dots> = observe (merge (merge c b) a)" using assms by (simp add: associates)
  finally show ?thesis .
qed

end

section \<open>Documents\<close>

text \<open>
  Two replicas never wrote one field with one clock and one client and different values,
  and neither has a field named like an inherited member.
\<close>

definition plain_names :: "'a lww_document \<Rightarrow> bool" where
  "plain_names d \<longleftrightarrow> (\<forall>key \<in> set inherited. d key = None)"

definition coherent :: "'a lww_document \<Rightarrow> 'a lww_document \<Rightarrow> bool" where
  "coherent a b \<longleftrightarrow> plain_names a \<and> plain_names b \<and> (\<forall>k f g. a k = Some f \<longrightarrow> b k = Some g \<longrightarrow>
     lww_lamport f = lww_lamport g \<longrightarrow> lww_clientId f = lww_clientId g \<longrightarrow> f = g)"

lemma newer_trans: "newer a b \<Longrightarrow> newer b c \<Longrightarrow> newer a c"
  by (auto simp: newer_def)

lemma newer_irrefl [simp]: "\<not> newer a a"
  by (simp add: newer_def)

lemma newer_total:
  "\<not> newer a b \<Longrightarrow> \<not> newer b a \<Longrightarrow> lww_lamport a = lww_lamport b \<and> lww_clientId a = lww_clientId b"
  by (auto simp: newer_def)

lemma newer_asym: "newer a b \<Longrightarrow> \<not> newer b a"
  by (auto simp: newer_def)

text \<open>The field that survives: the newest of those offered.\<close>

lemma coherentD: "coherent a b \<Longrightarrow> a k = Some f \<Longrightarrow> b k = Some g \<Longrightarrow> f = g \<or> newer f g \<or> newer g f"
  using newer_total by (fastforce simp: coherent_def)

text \<open>Over plain names a merge decides each field on its own.\<close>

definition merge_field :: "'a lww_field option \<Rightarrow> 'a lww_field option \<Rightarrow> 'a lww_field option" where
  "merge_field l r = (case (l, r) of
     (None, _) \<Rightarrow> r
   | (_, None) \<Rightarrow> l
   | (Some f, Some g) \<Rightarrow> if newer g f then Some g else Some f)"

lemma merge_plain: "plain_names b \<Longrightarrow> mergeLWW a b k = merge_field (a k) (b k)"
  by (auto simp: mergeLWW_def lookup_field_def merge_field_def plain_names_def split: option.splits)

lemma plain_names_merge: "plain_names a \<Longrightarrow> plain_names b \<Longrightarrow> plain_names (mergeLWW a b)"
  by (auto simp: mergeLWW_def plain_names_def)

lemma coherent_plain: "coherent a b \<Longrightarrow> plain_names a" "coherent a b \<Longrightarrow> plain_names b"
  by (simp_all add: coherent_def)

lemma merge_commutes:
  assumes "coherent a b"
  shows "mergeLWW a b = mergeLWW b a"
proof
  fix k
  have "merge_field (a k) (b k) = merge_field (b k) (a k)"
  proof (cases "a k"; cases "b k")
    fix f g
    assume k: "a k = Some f" "b k = Some g"
    from coherentD [OF assms this] show ?thesis using newer_asym by (auto simp: merge_field_def k)
  qed (simp_all add: merge_field_def)
  then show "mergeLWW a b k = mergeLWW b a k" using assms by (simp add: merge_plain coherent_plain)
qed

lemma merge_associates:
  assumes "coherent a b" "coherent b c" "coherent a c"
  shows "mergeLWW (mergeLWW a b) c = mergeLWW a (mergeLWW b c)"
proof
  fix k
  have "merge_field (merge_field (a k) (b k)) (c k) = merge_field (a k) (merge_field (b k) (c k))"
  proof (cases "a k"; cases "b k"; cases "c k")
    fix f g h
    assume k: "a k = Some f" "b k = Some g" "c k = Some h"
    from coherentD [OF assms(1) k(1,2)] coherentD [OF assms(2) k(2,3)] coherentD [OF assms(3) k(1,3)]
    show ?thesis using k newer_trans newer_asym by (auto simp: merge_field_def)
  qed (auto simp: merge_field_def)
  then show "mergeLWW (mergeLWW a b) c k = mergeLWW a (mergeLWW b c) k"
    using assms by (simp add: merge_plain coherent_plain plain_names_merge)
qed

lemma merge_idempotent: "mergeLWW a a = a"
  by (auto simp: mergeLWW_def lookup_field_def split: option.splits)

interpretation lww: replica_merge mergeLWW "\<lambda>d. d" coherent
  by unfold_locales (rule merge_commutes, assumption, simp_all add: merge_associates merge_idempotent)

text \<open>
  C6. Replicas converge: however three replicas' documents are merged, they end with
  the same fields, as long as one client never writes one field twice at one tick and no
  field is named like a member every object inherits.
\<close>

theorem documents_converge:
  assumes "coherent a b" "coherent b c" "coherent a c" "coherent b a" "coherent c b" "coherent c a"
  shows "mergeLWW (mergeLWW a b) c = mergeLWW (mergeLWW c b) a"
  by (rule lww.three_orders [OF assms])

definition doc :: "nat \<Rightarrow> string \<Rightarrow> nat \<Rightarrow> nat lww_document" where
  "doc v client lamport = toDocument [''qty'' \<mapsto> v] lamport client"

lemma doc_coherent: "(l, c) \<noteq> (l', c') \<Longrightarrow> coherent (doc v c l) (doc v' c' l')"
  by (auto simp: coherent_def plain_names_def inherited_def doc_def toDocument_def split: if_splits)

theorem documents_converge_witness:
  "mergeLWW (mergeLWW (doc 1 ''a'' 3) (doc 2 ''b'' 3)) (doc 5 ''a'' 2)
    = mergeLWW (mergeLWW (doc 5 ''a'' 2) (doc 2 ''b'' 3)) (doc 1 ''a'' 3)"
  by (rule documents_converge) (simp_all add: doc_coherent)

text \<open>
  A merge takes every field from one of the two documents and never an older
  write: the field kept is not older than either document's.
\<close>

theorem merge_keeps_newest:
  assumes "plain_names b"
  shows "(mergeLWW a b k = a k \<or> mergeLWW a b k = b k)
    \<and> (a k = Some g \<or> b k = Some g \<longrightarrow> (\<exists>f. mergeLWW a b k = Some f \<and> \<not> newer g f))"
  using newer_asym [of _ g]
  by (cases "a k"; cases "b k") (auto simp: merge_plain [OF assms] merge_field_def)

theorem merge_keeps_newest_witness:
  "mergeLWW (doc 1 ''a'' 3) (doc 2 ''b'' 3) ''qty'' = doc 2 ''b'' 3 ''qty''"
proof -
  let ?g = "\<lparr> lww_value = 2, lww_lamport = 3, lww_clientId = ''b'' \<rparr>"
  have p: "plain_names (doc 2 ''b'' 3)" by (simp add: plain_names_def inherited_def doc_def toDocument_def)
  have g: "doc 2 ''b'' 3 ''qty'' = Some ?g" by (simp add: doc_def toDocument_def)
  from merge_keeps_newest [OF p, of "doc 1 ''a'' 3" "''qty''" ?g] show ?thesis
    by (auto simp: g) (simp add: doc_def toDocument_def newer_def)
qed

text \<open>
  A field named like a member every object inherits is lost: it never reaches a
  replica that does not have it yet, whatever its clock.
\<close>

theorem inherited_name_is_lost:
  assumes "key \<in> set inherited" "loc key = None"
  shows "mergeLWW loc rem key = None"
  using assms by (auto simp: mergeLWW_def lookup_field_def split: option.splits)

theorem inherited_name_is_lost_witness:
  "mergeLWW Map.empty (toDocument [''constructor'' \<mapsto> (7 :: nat)] 9 ''b'') ''constructor'' = None
   \<and> toDocument [''constructor'' \<mapsto> (7 :: nat)] 9 ''b'' ''constructor'' \<noteq> None"
  by (rule conjI, rule inherited_name_is_lost) (simp_all add: inherited_def toDocument_def)

lemma document_roundtrip:
  "data ''__proto__'' = None \<Longrightarrow> fromDocument (toDocument data lamport clientId) = data"
  by (auto simp: fromDocument_def toDocument_def option.map_comp o_def option.map_ident)

section \<open>Sets\<close>

definition uids :: "'a or_set \<Rightarrow> string set" where
  "uids s = el_uid ` set s"

definition tombstones :: "'a or_set \<Rightarrow> string set" where
  "tombstones s = el_uid ` {el \<in> set s. el_removed el}"

lemma map_set_set:
  "distinct (map el_uid m) \<Longrightarrow> set (map_set el m) = {x \<in> set m. el_uid x \<noteq> el_uid el} \<union> {el}"
proof (induction m)
  case (Cons x m)
  show ?case
  proof (cases "el_uid x = el_uid el")
    case True
    have "\<forall>y \<in> set m. el_uid y \<noteq> el_uid x" using Cons.prems by (metis distinct.simps(2) image_eqI list.simps(9) set_map)
    then show ?thesis using True by auto
  next
    case False then show ?thesis using Cons by auto
  qed
qed simp

lemma map_set_uids: "el_uid ` set (map_set el m) = insert (el_uid el) (el_uid ` set m)"
  by (induction m) auto

lemma map_set_distinct: "distinct (map el_uid m) \<Longrightarrow> distinct (map el_uid (map_set el m))"
proof (induction m)
  case (Cons x m)
  have "el_uid x \<notin> el_uid ` set (map_set el m)" if "el_uid x \<noteq> el_uid el"
    using Cons.prems that by (simp add: map_set_uids)
  then show ?case using Cons by (cases "el_uid x = el_uid el") simp_all
qed simp

lemma map_get_None: "map_get m uid = None \<longleftrightarrow> uid \<notin> uids m"
  by (auto simp: map_get_def find_None_iff uids_def)

definition merged :: "'a or_set \<Rightarrow> 'a or_set" where
  "merged xs = fold merge_step xs []"

text \<open>One entry per identifier, each an element that was merged, a tombstone if any of them was.\<close>

lemma merged_facts:
  "distinct (map el_uid (merged xs)) \<and> set (merged xs) \<subseteq> set xs \<and> uids (merged xs) = uids xs
   \<and> tombstones (merged xs) = tombstones xs"
proof (induction xs rule: rev_induct)
  case Nil then show ?case by (simp add: merged_def uids_def tombstones_def)
next
  case (snoc x xs)
  let ?m = "merged xs"
  have m: "merged (xs @ [x]) = merge_step x ?m" by (simp add: merged_def)
  show ?case
  proof (cases "el_uid x \<in> uids ?m \<and> \<not> el_removed x")
    case True
    then have "merged (xs @ [x]) = ?m" by (simp add: m merge_step_def map_get_None)
    then show ?thesis using snoc True by (auto simp: uids_def tombstones_def)
  next
    case False
    then have e: "merged (xs @ [x]) = map_set x ?m" by (auto simp: m merge_step_def map_get_None)
    have s: "set (map_set x ?m) = {y \<in> set ?m. el_uid y \<noteq> el_uid x} \<union> {x}"
      using snoc by (intro map_set_set) simp
    have u: "uids (map_set x ?m) = insert (el_uid x) (uids ?m)"
      by (simp add: uids_def map_set_uids)
    have "tombstones (map_set x ?m) = tombstones (xs @ [x])"
    proof (cases "el_removed x")
      case True
      then have "tombstones (map_set x ?m) = insert (el_uid x) (tombstones ?m)"
        unfolding tombstones_def s by auto
      then show ?thesis using snoc True by (auto simp: tombstones_def)
    next
      case notx: False
      then have "el_uid x \<notin> uids ?m" using False by simp
      then have "tombstones (map_set x ?m) = tombstones ?m"
        unfolding tombstones_def s uids_def using notx by (force simp: image_iff)
      then show ?thesis using snoc notx by (auto simp: tombstones_def)
    qed
    then show ?thesis using snoc e s u map_set_distinct [of ?m x] by (auto simp: uids_def)
  qed
qed

lemma orSetMerge_facts:
  "uids (orSetMerge a b) = uids a \<union> uids b" "tombstones (orSetMerge a b) = tombstones a \<union> tombstones b"
  "distinct (map el_uid (orSetMerge a b))" "set (orSetMerge a b) \<subseteq> set a \<union> set b"
  using merged_facts [of "a @ b"]
  by (auto simp: orSetMerge_def merged_def uids_def tombstones_def)

interpretation or_set: replica_merge orSetMerge "\<lambda>s. (uids s, tombstones s)" "\<lambda>_ _. True"
  by unfold_locales (auto simp: orSetMerge_facts)

text \<open>
  Sets converge with no condition: in whatever order three replicas are merged,
  the same elements are known and the same ones are removed.
\<close>

theorem sets_converge:
  "uids (orSetMerge (orSetMerge a b) c) = uids (orSetMerge (orSetMerge c b) a)
   \<and> tombstones (orSetMerge (orSetMerge a b) c) = tombstones (orSetMerge (orSetMerge c b) a)"
  using or_set.three_orders [of a b c] by simp

text \<open>
  Nothing removed comes back: after a remove, an element stays out of the values
  however many replicas are merged in, in any order, that still hold it.
\<close>

theorem removed_stays_removed:
  assumes "uid \<in> uids s"
  shows "\<forall>el \<in> set (fold (\<lambda>other acc. orSetMerge acc other) others (orSetMerge other0 (orSetRemove s uid))).
    el_uid el = uid \<longrightarrow> el_removed el"
proof -
  let ?keeps = "\<lambda>acc. uid \<in> tombstones acc \<and> distinct (map el_uid acc)"
  have "uid \<in> tombstones (orSetRemove s uid)"
  proof -
    obtain el where "el \<in> set s" "el_uid el = uid" using assms by (auto simp: uids_def)
    then have "el\<lparr> el_removed := True \<rparr> \<in> {e \<in> set (orSetRemove s uid). el_removed e}"
      by (force simp: orSetRemove_def)
    then have "el_uid (el\<lparr> el_removed := True \<rparr>) \<in> tombstones (orSetRemove s uid)"
      unfolding tombstones_def by (rule imageI)
    then show ?thesis using \<open>el_uid el = uid\<close> by simp
  qed
  then have "?keeps (orSetMerge other0 (orSetRemove s uid))" by (simp add: orSetMerge_facts)
  then have k: "?keeps (fold (\<lambda>other acc. orSetMerge acc other) others (orSetMerge other0 (orSetRemove s uid)))"
    by (rule fold_invariant [where Q = "\<lambda>_. True", rotated]) (auto simp: orSetMerge_facts)
  have "el_removed el" if d: "distinct (map el_uid acc)" and t: "uid \<in> tombstones acc"
    and el: "el \<in> set acc" "el_uid el = uid" for acc and el :: "'a or_element"
  proof -
    obtain x where "x \<in> set acc" "el_uid x = uid" "el_removed x" using t by (auto simp: tombstones_def)
    then show ?thesis using d el by (auto simp: distinct_map dest: inj_onD)
  qed
  then show ?thesis using k by blast
qed

theorem removed_stays_removed_witness:
  "filter (\<lambda>el. el_uid el = ''u1'' \<and> \<not> el_removed el) (fold (\<lambda>other acc. orSetMerge acc other)
     [orSetAdd [] (1 :: nat) ''u1''] (orSetMerge [] (orSetRemove (orSetAdd [] 1 ''u1'') ''u1''))) = []"
  using removed_stays_removed [of "''u1''" "orSetAdd [] (1 :: nat) ''u1''" "[orSetAdd [] 1 ''u1'']" "[]"]
  by (auto simp: filter_empty_conv uids_def orSetAdd_def)

section \<open>The clock\<close>

datatype clock_event = Tick | Receive nat

fun clock_step :: "clock_event \<Rightarrow> lamport_clock \<Rightarrow> lamport_clock \<times> nat" where
  "clock_step Tick c = tick c"
| "clock_step (Receive n) c = update c n"

fun stamps :: "clock_event list \<Rightarrow> lamport_clock \<Rightarrow> nat list" where
  "stamps [] c = []"
| "stamps (e # es) c = (let (c', v) = clock_step e c in v # stamps es c')"

lemma stamps_above: "v \<in> set (stamps es c) \<Longrightarrow> clock_value c < v"
proof (induction es arbitrary: c)
  case (Cons e es)
  have "clock_value c < clock_value (fst (clock_step e c))" "snd (clock_step e c) = clock_value (fst (clock_step e c))"
    by (cases e; simp add: tick_def update_def Let_def)+
  with Cons show ?case by (cases "clock_step e c") (force simp: Let_def)
qed simp

text \<open>
  The stamps a clock gives out increase strictly over any run of ticks and
  received stamps, each above the clock's start, so no two writes of a client tie.
\<close>

theorem stamps_increase: "sorted_wrt (<) (clock_value c # stamps es c)"
proof (induction es arbitrary: c)
  case (Cons e es)
  have "snd (clock_step e c) = clock_value (fst (clock_step e c))"
    by (cases e; simp add: tick_def update_def Let_def)
  with Cons [of "fst (clock_step e c)"] stamps_above [of _ "e # es" c] show ?case
    by (auto simp: Let_def split: prod.splits)
qed simp

end
