(* ===== verification/Cron.thy ===== *)
theory Cron
  imports Digits
begin

text \<open>
  \<open>lib/flows/cron.ts\<close>: five-field cron expressions and the next time one fires.  A
  \<open>Date\<close> is its local wall clock in milliseconds since the epoch, an integer; the
  zone keeps one offset of whole minutes, so that a day has 24 hours.  Numerals are
  read exactly: those JavaScript rounds are far outside every field.
\<close>

section \<open>Fields\<close>

record cron_fields =
  minute :: "nat set"
  hour :: "nat set"
  dom :: "nat set"
  month :: "nat set"
  dow :: "nat set"
  domRestricted :: bool
  dowRestricted :: bool

text \<open>\<open>for (let v = lo; v <= hi; v += step) out.add(v)\<close>\<close>

function stepped :: "nat \<Rightarrow> nat \<Rightarrow> nat \<Rightarrow> nat set" where
  "stepped lo hi step = (if lo \<le> hi \<and> 0 < step then insert lo (stepped (lo + step) hi step) else {})"
  by auto
termination by (relation "measure (\<lambda>(lo, hi, step). Suc hi - lo)") auto

declare stepped.simps [simp del]

text \<open>\<open>/^(\d+)-(\d+)$/\<close>\<close>

definition dash_range :: "string \<Rightarrow> (nat \<times> nat) option" where
  "dash_range s = (case js_split (CHR ''-'') s of
     [a, b] \<Rightarrow> if digits a \<and> digits b then Some (numeral_value 10 a, numeral_value 10 b) else None
   | _ \<Rightarrow> None)"

text \<open>The bounds of one comma part, \<open>hasStep\<close> whether a step follows it.\<close>

definition part_range :: "string \<Rightarrow> bool \<Rightarrow> nat \<Rightarrow> nat \<Rightarrow> (nat \<times> nat) option" where
  "part_range rangePart hasStep mn mx =
    (if rangePart = ''*'' then Some (mn, mx)
     else if digits rangePart
     then Some (numeral_value 10 rangePart, if hasStep then mx else numeral_value 10 rangePart)
     else dash_range rangePart)"

text \<open>\<open>const [rangePart, stepPart] = part.split('/')\<close> takes two parts and drops any other.\<close>

definition parse_part :: "string \<Rightarrow> nat \<Rightarrow> nat \<Rightarrow> nat set option" where
  "parse_part part mn mx =
    (let ps = js_split (CHR ''/'') part; rangePart = ps ! 0; hasStep = 1 < length ps in
     if hasStep \<and> \<not> digits (ps ! 1) then None
     else (let step = (if hasStep then numeral_value 10 (ps ! 1) else 1) in
       if step < 1 then None
       else (case part_range rangePart hasStep mn mx of
          None \<Rightarrow> None
        | Some (lo, hi) \<Rightarrow> if lo < mn \<or> mx < hi \<or> hi < lo then None else Some (stepped lo hi step))))"

fun parse_parts :: "string list \<Rightarrow> nat \<Rightarrow> nat \<Rightarrow> nat set \<Rightarrow> nat set option" where
  "parse_parts [] mn mx out = Some out"
| "parse_parts (p # ps) mn mx out = (case parse_part p mn mx of
     None \<Rightarrow> None
   | Some s \<Rightarrow> parse_parts ps mn mx (out \<union> s))"

definition parseField :: "string \<Rightarrow> nat \<Rightarrow> nat \<Rightarrow> nat set option" where
  "parseField raw mn mx = (case parse_parts (js_split COMMA raw) mn mx {} of
     None \<Rightarrow> None
   | Some out \<Rightarrow> if out \<noteq> {} then Some out else None)"

text \<open>\<open>expr.trim().split(/\s+/)\<close>\<close>

function blank_split :: "string \<Rightarrow> string list" where
  "blank_split s = (let w = takeWhile (\<lambda>c. \<not> is_space c) s; r = dropWhile (\<lambda>c. \<not> is_space c) s in
     if r = [] then [w] else w # blank_split (dropWhile is_space r))"
  by auto
termination
proof (relation "measure length")
  fix s w r :: string
  assume "r = dropWhile (\<lambda>c. \<not> is_space c) s" "r \<noteq> []"
  then have "is_space (hd r)" "length r \<le> length s"
    using hd_dropWhile [of "\<lambda>c. \<not> is_space c" s] by (auto simp: length_dropWhile_le)
  then show "(dropWhile is_space r, s) \<in> measure length"
    using \<open>r \<noteq> []\<close> length_dropWhile_le [of is_space "tl r"] by (cases r) auto
qed simp

declare blank_split.simps [simp del]

definition parseCron :: "string \<Rightarrow> cron_fields option" where
  "parseCron expr = (let parts = blank_split (js_trim expr) in
     if length parts \<noteq> 5 then None
     else (case (parseField (parts ! 0) 0 59, parseField (parts ! 1) 0 23, parseField (parts ! 2) 1 31,
                 parseField (parts ! 3) 1 12, parseField (parts ! 4) 0 6) of
          (Some mi, Some ho, Some dm, Some mo, Some dw) \<Rightarrow>
            Some \<lparr> minute = mi, hour = ho, dom = dm, month = mo, dow = dw,
                   domRestricted = parts ! 2 \<noteq> ''*'', dowRestricted = parts ! 4 \<noteq> ''*'' \<rparr>
        | _ \<Rightarrow> None))"

section \<open>The calendar of \<open>Date\<close>\<close>

definition leap :: "int \<Rightarrow> bool" where
  "leap y \<longleftrightarrow> 4 dvd y \<and> (\<not> 100 dvd y \<or> 400 dvd y)"

definition dayFromYear :: "int \<Rightarrow> int" where
  "dayFromYear y = 365 * (y - 1970) + (y - 1969) div 4 - (y - 1901) div 100 + (y - 1601) div 400"

text \<open>The year of a day: 400 years are 146097 days, and within them the last that has begun.\<close>

definition yearFromDay :: "int \<Rightarrow> int" where
  "yearFromDay d = 1970 + 400 * (d div 146097)
     + int (length (takeWhile (\<lambda>k. dayFromYear (1971 + int k) \<le> d mod 146097) [0..<399]))"

definition month_lengths :: "int \<Rightarrow> int list" where
  "month_lengths y = [31, if leap y then 29 else 28, 31, 30, 31, 30, 31, 31, 30, 31, 30, 31]"

fun month_date :: "int list \<Rightarrow> nat \<Rightarrow> int \<Rightarrow> nat \<times> nat" where
  "month_date [] m d = (m, nat d + 1)"
| "month_date [_] m d = (m, nat d + 1)"
| "month_date (l # ls) m d = (if d < l then (m, nat d + 1) else month_date ls (m + 1) (d - l))"

text \<open>Month (1 to 12) and day of the month, and the day of the week (0 is Sunday).\<close>

definition civil :: "int \<Rightarrow> nat \<times> nat" where
  "civil d = (let y = yearFromDay d in month_date (month_lengths y) 1 (d - dayFromYear y))"

definition getDay :: "int \<Rightarrow> nat" where
  "getDay d = nat ((d + 4) mod 7)"

section \<open>The next run\<close>

definition dayMatches :: "cron_fields \<Rightarrow> int \<Rightarrow> bool" where
  "dayMatches f d =
    (if fst (civil d) \<notin> month f then False
     else (let domHit = snd (civil d) \<in> dom f; dowHit = getDay d \<in> dow f in
       if domRestricted f \<and> dowRestricted f then domHit \<or> dowHit
       else if domRestricted f then domHit
       else if dowRestricted f then dowHit
       else True))"

abbreviation DAY :: int where "DAY \<equiv> 86400000"
abbreviation HOUR :: int where "HOUR \<equiv> 3600000"
abbreviation MINUTE :: int where "MINUTE \<equiv> 60000"

text \<open>A loop that returns at its first hit.\<close>

fun first_hit :: "('a \<Rightarrow> 'b option) \<Rightarrow> 'a list \<Rightarrow> 'b option" where
  "first_hit g [] = None"
| "first_hit g (x # xs) = (case g x of None \<Rightarrow> first_hit g xs | Some y \<Rightarrow> Some y)"

definition minute_hit :: "int \<Rightarrow> int \<Rightarrow> nat \<Rightarrow> nat \<Rightarrow> nat \<Rightarrow> int option" where
  "minute_hit from probe h startMinute m =
    (if m < startMinute then None
     else (let hit = probe * DAY + int h * HOUR + int m * MINUTE in
       if from < hit then Some hit else None))"

definition hour_hit :: "cron_fields \<Rightarrow> int \<Rightarrow> int \<Rightarrow> int \<Rightarrow> nat \<Rightarrow> nat \<Rightarrow> int option" where
  "hour_hit f from cursor probe day h =
    (let startHour = (if day = 0 then nat (cursor mod DAY div HOUR) else 0) in
     if h < startHour then None
     else (let startMinute = (if day = 0 \<and> int h = cursor mod DAY div HOUR
                              then nat (cursor mod HOUR div MINUTE) else 0) in
       first_hit (minute_hit from probe h startMinute) (sorted_list_of_set (minute f))))"

definition day_hit :: "cron_fields \<Rightarrow> int \<Rightarrow> int \<Rightarrow> nat \<Rightarrow> int option" where
  "day_hit f from cursor day =
    (let probe = cursor div DAY + int day in
     if dayMatches f probe
     then first_hit (hour_hit f from cursor probe day) (sorted_list_of_set (hour f))
     else None)"

definition SEARCH_DAYS :: nat where
  "SEARCH_DAYS = 366 * 4"

definition nextCronRun :: "string \<Rightarrow> int \<Rightarrow> int option" where
  "nextCronRun expr from = (case parseCron expr of
     None \<Rightarrow> None
   | Some f \<Rightarrow>
      (let cursor = (from div MINUTE) * MINUTE + MINUTE in
       first_hit (day_hit f from cursor) [0..<SEARCH_DAYS]))"

section \<open>What a parsed field holds\<close>

lemma stepped_iff:
  "0 < step \<Longrightarrow> v \<in> stepped lo hi step \<longleftrightarrow> lo \<le> v \<and> v \<le> hi \<and> step dvd v - lo"
proof (induction lo hi step rule: stepped.induct)
  case (1 lo hi step)
  show ?case
  proof (cases "lo \<le> hi")
    case True
    have "v \<in> stepped lo hi step \<longleftrightarrow> v = lo \<or> v \<in> stepped (lo + step) hi step"
      using True 1 by (subst stepped.simps) simp
    also have "\<dots> \<longleftrightarrow> v = lo \<or> (lo + step \<le> v \<and> v \<le> hi \<and> step dvd v - (lo + step))"
      using 1 True by simp
    also have "\<dots> \<longleftrightarrow> lo \<le> v \<and> v \<le> hi \<and> step dvd v - lo"
    proof (cases "lo + step \<le> v")
      case le: True
      then have "v - lo = (v - (lo + step)) + step" by simp
      then have "step dvd v - lo \<longleftrightarrow> step dvd v - (lo + step)" by (simp only: dvd_add_triv_right_iff)
      then show ?thesis using True le by auto
    next
      case False
      then have "\<not> step dvd v - lo" if "lo < v" using that by (simp add: nat_dvd_not_less)
      then show ?thesis using True False by (cases "lo < v") auto
    qed
    finally show ?thesis .
  next
    case False then show ?thesis by (subst stepped.simps) auto
  qed
qed

lemma parse_part_bounds: "parse_part p mn mx = Some s \<Longrightarrow> s \<subseteq> {mn..mx}"
  by (auto simp: parse_part_def Let_def stepped_iff split: if_splits option.splits)

lemma parse_parts_bounds: "parse_parts ps mn mx out = Some s \<Longrightarrow> out \<subseteq> {mn..mx} \<Longrightarrow> s \<subseteq> {mn..mx}"
  by (induction ps mn mx out rule: parse_parts.induct) (auto split: option.splits dest: parse_part_bounds)

lemma parseField_bounds: "parseField raw mn mx = Some s \<Longrightarrow> s \<subseteq> {mn..mx}"
  by (auto simp: parseField_def split: option.splits if_splits dest: parse_parts_bounds)

definition in_bounds :: "cron_fields \<Rightarrow> bool" where
  "in_bounds f \<longleftrightarrow> minute f \<subseteq> {0..59} \<and> hour f \<subseteq> {0..23} \<and> dom f \<subseteq> {1..31} \<and> month f \<subseteq> {1..12} \<and> dow f \<subseteq> {0..6}"

lemma parseCron_Some:
  assumes "parseCron expr = Some f"
  obtains parts where "blank_split (js_trim expr) = parts" "length parts = 5"
    "parseField (parts ! 0) 0 59 = Some (minute f)" "parseField (parts ! 1) 0 23 = Some (hour f)"
    "parseField (parts ! 2) 1 31 = Some (dom f)" "parseField (parts ! 3) 1 12 = Some (month f)"
    "parseField (parts ! 4) 0 6 = Some (dow f)"
    "domRestricted f = (parts ! 2 \<noteq> ''*'')" "dowRestricted f = (parts ! 4 \<noteq> ''*'')"
  using assms unfolding parseCron_def Let_def prod.case
  by (auto split: option.splits if_splits)

lemma parseCron_bounds: "parseCron expr = Some f \<Longrightarrow> in_bounds f"
  by (erule parseCron_Some) (simp add: in_bounds_def parseField_bounds)

section \<open>The search\<close>

text \<open>The answer of a loop over the times of a set: its first element, nothing if it is empty.\<close>

definition finds :: "int option \<Rightarrow> int set \<Rightarrow> bool" where
  "finds r A \<longleftrightarrow> (case r of None \<Rightarrow> A = {} | Some y \<Rightarrow> y \<in> A \<and> (\<forall>z \<in> A. y \<le> z))"

lemma first_hit_finds:
  assumes "\<And>x. x \<in> set xs \<Longrightarrow> finds (g x) (S x)"
    and "sorted_wrt (\<lambda>x x'. \<forall>a \<in> S x. \<forall>b \<in> S x'. a \<le> b) xs"
  shows "finds (first_hit g xs) (\<Union>x \<in> set xs. S x)"
  using assms
proof (induction xs)
  case Nil then show ?case by (simp add: finds_def)
next
  case (Cons x xs)
  have ih: "finds (first_hit g xs) (\<Union>x \<in> set xs. S x)" using Cons by simp
  have x: "finds (g x) (S x)" using Cons by simp
  show ?case
  proof (cases "g x")
    case None then show ?thesis using ih x by (simp add: finds_def)
  next
    case (Some y) then show ?thesis using x Cons.prems(2) by (auto simp: finds_def)
  qed
qed

abbreviation at :: "int \<Rightarrow> nat \<Rightarrow> nat \<Rightarrow> int" where
  "at d h m \<equiv> d * DAY + int h * HOUR + int m * MINUTE"

lemma at_fields:
  assumes "h < 24" "m < 60"
  shows "at d h m div DAY = d" "at d h m mod DAY div HOUR = int h" "at d h m mod HOUR div MINUTE = int m"
    "at d h m mod MINUTE = 0"
proof -
  let ?r = "int h * HOUR + int m * MINUTE"
  have r: "0 \<le> ?r" "?r < DAY" using assms by auto
  have a: "at d h m = ?r + d * DAY" by simp
  show "at d h m div DAY = d" unfolding a using r by simp
  have "at d h m mod DAY = ?r" unfolding a using r by simp
  then show "at d h m mod DAY div HOUR = int h" using assms by (simp add: div_pos_pos_trivial)
  have "at d h m = int m * MINUTE + (d * 24 + int h) * HOUR" by simp
  then have "at d h m mod HOUR = int m * MINUTE" using assms by (simp only: mod_mult_self1) simp
  then show "at d h m mod HOUR div MINUTE = int m" by simp
  have "at d h m = (d * 1440 + int h * 60 + int m) * MINUTE" by simp
  then show "at d h m mod MINUTE = 0" by (simp only: mod_mult_self2_is_0)
qed

lemma at_nat: "0 \<le> b \<Longrightarrow> 0 \<le> c \<Longrightarrow> at a (nat b) (nat c) = a * DAY + (b * HOUR + c * MINUTE)"
  by simp

lemma clock_parts:
  fixes t :: int
  assumes "t mod MINUTE = 0"
  shows "at (t div DAY) (nat (t mod DAY div HOUR)) (nat (t mod HOUR div MINUTE)) = t"
proof -
  have h: "t mod DAY mod HOUR = t mod HOUR" and m: "t mod HOUR mod MINUTE = 0"
    using assms by (simp_all add: mod_mod_cancel)
  have "t mod HOUR div MINUTE * MINUTE = t mod HOUR"
    using div_mult_mod_eq [of "t mod HOUR" MINUTE] unfolding m by simp
  moreover have "t mod DAY div HOUR * HOUR + t mod HOUR = t mod DAY"
    using div_mult_mod_eq [of "t mod DAY" HOUR] unfolding h .
  moreover have "0 \<le> t mod DAY div HOUR" "0 \<le> t mod HOUR div MINUTE"
    by (simp_all add: pos_imp_zdiv_nonneg_iff)
  ultimately show ?thesis by (simp only: at_nat div_mult_mod_eq)
qed

definition fires :: "cron_fields \<Rightarrow> int \<Rightarrow> bool" where
  "fires f t \<longleftrightarrow> t mod MINUTE = 0 \<and> dayMatches f (t div DAY)
     \<and> nat (t mod DAY div HOUR) \<in> hour f \<and> nat (t mod HOUR div MINUTE) \<in> minute f"

lemma fires_at: "h < 24 \<Longrightarrow> m < 60 \<Longrightarrow> fires f (at d h m) \<longleftrightarrow> dayMatches f d \<and> h \<in> hour f \<and> m \<in> minute f"
  unfolding fires_def by (simp only: at_fields) simp

text \<open>The moments of a day, of an hour and of a minute at which a schedule fires.\<close>

definition due_minute :: "int \<Rightarrow> int \<Rightarrow> nat \<Rightarrow> nat \<Rightarrow> int set" where
  "due_minute from d h m = (if from < at d h m then {at d h m} else {})"

definition due_hour :: "cron_fields \<Rightarrow> int \<Rightarrow> int \<Rightarrow> nat \<Rightarrow> int set" where
  "due_hour f from d h = (\<Union>m \<in> minute f. due_minute from d h m)"

definition due_day :: "cron_fields \<Rightarrow> int \<Rightarrow> int \<Rightarrow> int set" where
  "due_day f from d = (if dayMatches f d then \<Union>h \<in> hour f. due_hour f from d h else {})"

lemma due_day_iff:
  assumes "in_bounds f"
  shows "t \<in> due_day f from d \<longleftrightarrow> from < t \<and> t div DAY = d \<and> fires f t"
proof
  assume "t \<in> due_day f from d"
  then obtain h m where "dayMatches f d" "h \<in> hour f" "m \<in> minute f" "t = at d h m" "from < t"
    by (auto simp: due_day_def due_hour_def due_minute_def split: if_splits)
  moreover have "h < 24" "m < 60" using calculation assms by (auto simp: in_bounds_def)
  ultimately show "from < t \<and> t div DAY = d \<and> fires f t" by (simp only: fires_at at_fields)
next
  assume t: "from < t \<and> t div DAY = d \<and> fires f t"
  then have e: "at d (nat (t mod DAY div HOUR)) (nat (t mod HOUR div MINUTE)) = t"
    using clock_parts [of t] by (simp only: fires_def)
  have "t \<in> due_minute from d (nat (t mod DAY div HOUR)) (nat (t mod HOUR div MINUTE))"
    unfolding due_minute_def e using t by simp
  then show "t \<in> due_day f from d"
    using t unfolding due_day_def due_hour_def fires_def by auto
qed

lemma minute_hit_finds:
  "(from < at d h m \<Longrightarrow> sm \<le> m) \<Longrightarrow> finds (minute_hit from d h sm m) (due_minute from d h m)"
  by (auto simp: minute_hit_def due_minute_def finds_def Let_def)

abbreviation cursor_of :: "int \<Rightarrow> int" where
  "cursor_of from \<equiv> from div MINUTE * MINUTE + MINUTE"

lemma cursor_least:
  assumes "from < at d h m"
  shows "cursor_of from \<le> at d h m"
proof -
  have e: "at d h m = (d * 1440 + int h * 60 + int m) * MINUTE" by simp
  have "from div MINUTE < d * 1440 + int h * 60 + int m"
  proof (rule ccontr)
    assume "\<not> ?thesis"
    then have "(d * 1440 + int h * 60 + int m) * MINUTE \<le> from div MINUTE * MINUTE"
      by (intro mult_right_mono) (simp_all only: not_less zero_le_numeral)
    also have "\<dots> \<le> from" using div_mult_mod_eq [of "from" MINUTE] pos_mod_sign [of MINUTE "from"] by linarith
    finally show False using assms e by linarith
  qed
  then show ?thesis using e by linarith
qed

lemma cursor_after: "from < cursor_of from"
  using div_mult_mod_eq [of "from" MINUTE] pos_mod_bound [of MINUTE "from"] by linarith

lemma start_of_day:
  assumes "from < at (cursor_of from div DAY) h m" "h < 24" "m < 60"
  shows "nat (cursor_of from mod DAY div HOUR) \<le> h"
    "int h = cursor_of from mod DAY div HOUR \<Longrightarrow> nat (cursor_of from mod HOUR div MINUTE) \<le> m"
proof -
  let ?c = "cursor_of from"
  let ?ch = "nat (?c mod DAY div HOUR)" and ?cm = "nat (?c mod HOUR div MINUTE)"
  have "?c = (from div MINUTE + 1) * MINUTE" by simp
  then have "?c mod MINUTE = 0" by (simp only: mod_mult_self2_is_0)
  then have c: "at (?c div DAY) ?ch ?cm = ?c" by (rule clock_parts)
  have "at (?c div DAY) ?ch ?cm \<le> at (?c div DAY) h m"
    unfolding c by (rule cursor_least [OF assms(1)])
  then have le: "int ?ch * HOUR + int ?cm * MINUTE \<le> int h * HOUR + int m * MINUTE" by linarith
  have m: "int m < 60" using assms(3) by simp
  show "?ch \<le> h"
  proof (rule ccontr)
    assume "\<not> ?ch \<le> h"
    then have "int h + 1 \<le> int ?ch" by linarith
    then show False using le m by linarith
  qed
  show "?cm \<le> m" if "int h = ?c mod DAY div HOUR"
  proof -
    have "int ?ch = int h" unfolding that [symmetric] by simp
    then have "int ?cm * MINUTE \<le> int m * MINUTE" using le by linarith
    then show ?thesis by linarith
  qed
qed

lemma set_list_strict: "sorted_wrt (<) (sorted_list_of_set (A :: nat set))"
  by (simp add: strict_sorted_iff)

lemma hour_hit_finds:
  assumes "in_bounds f" "h < 24" "d = cursor_of from div DAY + int day"
  shows "finds (hour_hit f from (cursor_of from) d day h) (due_hour f from d h)"
proof -
  let ?sh = "if day = 0 then nat (cursor_of from mod DAY div HOUR) else 0"
  let ?sm = "if day = 0 \<and> int h = cursor_of from mod DAY div HOUR then nat (cursor_of from mod HOUR div MINUTE) else 0"
  have fin: "finite (minute f)" and mb: "\<And>m. m \<in> minute f \<Longrightarrow> m < 60"
    using assms(1) finite_subset [of "minute f" "{0..59}"] by (auto simp: in_bounds_def)
  show ?thesis
  proof (cases "h < ?sh")
    case True
    then have z: "day = 0" by (cases "day = 0") simp_all
    then have d: "d = cursor_of from div DAY" using assms(3) by simp
    have "\<not> from < at d h m" if "m \<in> minute f" for m
      using start_of_day(1) [of "from" h m, OF _ assms(2) mb [OF that]] True unfolding d z if_P [OF refl] not_less [symmetric]
      by blast
    then have "due_hour f from d h = {}" by (auto simp: due_hour_def due_minute_def)
    then show ?thesis using True by (simp add: hour_hit_def finds_def Let_def)
  next
    case False
    have "finds (minute_hit from d h ?sm m) (due_minute from d h m)" if "m \<in> set (sorted_list_of_set (minute f))" for m
    proof (rule minute_hit_finds)
      assume a: "from < at d h m"
      have m: "m < 60" using that fin mb by simp
      show "?sm \<le> m"
      proof (cases "day = 0 \<and> int h = cursor_of from mod DAY div HOUR")
        case T: True
        then have d: "d = cursor_of from div DAY" using assms(3) by simp
        show ?thesis using start_of_day(2) [OF a [unfolded d] assms(2) m] T unfolding if_P [OF T] by (simp only: simp_thms)
      next
        case False then show ?thesis by (simp only: if_False)
      qed
    qed
    moreover have "sorted_wrt (\<lambda>x x'. \<forall>a \<in> due_minute from d h x. \<forall>b \<in> due_minute from d h x'. a \<le> b)
        (sorted_list_of_set (minute f))"
      by (rule sorted_wrt_mono_rel [OF _ sorted_sorted_list_of_set]) (auto simp: due_minute_def split: if_splits)
    ultimately have "finds (first_hit (minute_hit from d h ?sm) (sorted_list_of_set (minute f)))
        (\<Union>m \<in> set (sorted_list_of_set (minute f)). due_minute from d h m)"
      by (rule first_hit_finds)
    moreover have "hour_hit f from (cursor_of from) d day h
        = first_hit (minute_hit from d h ?sm) (sorted_list_of_set (minute f))"
      unfolding hour_hit_def Let_def using False by (simp only: if_False)
    ultimately show ?thesis using fin by (simp only: due_hour_def set_sorted_list_of_set)
  qed
qed

lemma due_hour_within:
  assumes "in_bounds f" "t \<in> due_hour f from d h"
  shows "at d h 0 \<le> t" "t < at d (Suc h) 0"
  using assms by (force simp: due_hour_def due_minute_def in_bounds_def split: if_splits)+

lemma day_hit_finds:
  assumes "in_bounds f"
  shows "finds (day_hit f from (cursor_of from) day) (due_day f from (cursor_of from div DAY + int day))"
proof (cases "dayMatches f (cursor_of from div DAY + int day)")
  case False then show ?thesis by (simp add: day_hit_def due_day_def finds_def Let_def)
next
  case True
  let ?d = "cursor_of from div DAY + int day"
  have fin: "finite (hour f)" and hb: "\<And>h. h \<in> hour f \<Longrightarrow> h < 24"
    using assms finite_subset [of "hour f" "{0..23}"] by (auto simp: in_bounds_def)
  have "finds (hour_hit f from (cursor_of from) ?d day h) (due_hour f from ?d h)"
    if "h \<in> set (sorted_list_of_set (hour f))" for h
    using that fin hb [of h] by (intro hour_hit_finds [OF assms]) auto
  moreover have "a \<le> b" if "h < h'" "a \<in> due_hour f from ?d h" "b \<in> due_hour f from ?d h'" for h h' a b
  proof -
    have "a < at ?d (Suc h) 0" "at ?d h' 0 \<le> b" using that due_hour_within [OF assms] by blast+
    then show ?thesis using that(1) by simp
  qed
  then have "sorted_wrt (\<lambda>x x'. \<forall>a \<in> due_hour f from ?d x. \<forall>b \<in> due_hour f from ?d x'. a \<le> b)
      (sorted_list_of_set (hour f))"
    by (intro sorted_wrt_mono_rel [OF _ set_list_strict]) blast
  ultimately have "finds (first_hit (hour_hit f from (cursor_of from) ?d day) (sorted_list_of_set (hour f)))
      (\<Union>h \<in> set (sorted_list_of_set (hour f)). due_hour f from ?d h)"
    by (rule first_hit_finds)
  then show ?thesis using True fin by (simp only: day_hit_def due_day_def Let_def if_True set_sorted_list_of_set)
qed

lemma search_finds:
  assumes "in_bounds f"
  shows "finds (first_hit (day_hit f from (cursor_of from)) [0..<SEARCH_DAYS])
    (\<Union>day \<in> {0..<SEARCH_DAYS}. due_day f from (cursor_of from div DAY + int day))"
proof -
  have "a \<le> b" if "i < j" "a \<in> due_day f from (cursor_of from div DAY + int i)"
    "b \<in> due_day f from (cursor_of from div DAY + int j)" for i j a b
  proof -
    have "a div DAY < b div DAY" using that by (simp only: due_day_iff [OF assms])
    then show ?thesis using zdiv_mono1 [of b a DAY] by (metis linear not_le zero_less_numeral)
  qed
  then have "sorted_wrt (\<lambda>x x'. \<forall>a \<in> due_day f from (cursor_of from div DAY + int x).
      \<forall>b \<in> due_day f from (cursor_of from div DAY + int x'). a \<le> b) [0..<SEARCH_DAYS]"
    by (intro sorted_wrt_mono_rel [OF _ sorted_wrt_upt]) blast
  from first_hit_finds [OF day_hit_finds [OF assms] this] show ?thesis by (simp only: set_upt)
qed

text \<open>
  C7. The next run is the least moment after \<open>from\<close> at which the expression fires, and
  none is reported only if none falls on the searched days, from that of the next minute.
\<close>

theorem next_run_is_least:
  assumes "parseCron expr = Some f"
  shows "case nextCronRun expr from of
      Some t \<Rightarrow> from < t \<and> fires f t \<and> (\<forall>u. from < u \<and> u < t \<longrightarrow> \<not> fires f u)
    | None \<Rightarrow> (\<forall>u. from < u \<and> u div DAY < cursor_of from div DAY + 1464 \<longrightarrow> \<not> fires f u)"
proof -
  let ?r = "first_hit (day_hit f from (cursor_of from)) [0..<SEARCH_DAYS]"
  let ?A = "\<Union>day \<in> {0..<SEARCH_DAYS}. due_day f from (cursor_of from div DAY + int day)"
  have b: "in_bounds f" using assms by (rule parseCron_bounds)
  have r: "nextCronRun expr from = ?r" unfolding nextCronRun_def assms Let_def by (simp only: option.case)
  have A: "u \<in> ?A" if "from < u" "fires f u" "u div DAY < cursor_of from div DAY + 1464" for u
  proof -
    have "cursor_of from \<le> u"
      using cursor_least [of "from" "u div DAY" "nat (u mod DAY div HOUR)" "nat (u mod HOUR div MINUTE)"] that
      by (simp only: clock_parts fires_def)
    then have le: "cursor_of from div DAY \<le> u div DAY" by (rule zdiv_mono1) simp
    have "nat (u div DAY - cursor_of from div DAY) \<in> {0..<SEARCH_DAYS}"
      using that(3) by (simp only: SEARCH_DAYS_def atLeastLessThan_iff) linarith
    moreover have "u \<in> due_day f from (cursor_of from div DAY + int (nat (u div DAY - cursor_of from div DAY)))"
      unfolding due_day_iff [OF b] using that le by (simp only: int_nat_eq diff_ge_0_iff_ge if_True) simp
    ultimately show ?thesis by blast
  qed
  note found = search_finds [OF b, of "from"]
  show ?thesis
  proof (cases ?r)
    case None
    then have "?A = {}" using found by (simp only: finds_def option.case)
    then show ?thesis using A unfolding r None option.case by blast
  next
    case (Some t)
    then have t: "t \<in> ?A" "\<forall>z \<in> ?A. t \<le> z" using found unfolding Some finds_def option.case by blast+
    then obtain day where d: "day < SEARCH_DAYS" "from < t" "fires f t" "t div DAY = cursor_of from div DAY + int day"
      by (auto simp only: due_day_iff [OF b] UN_iff atLeastLessThan_iff)
    have "\<not> fires f u" if "from < u" "u < t" for u
    proof
      assume "fires f u"
      moreover have "u div DAY \<le> t div DAY" using that(2) by (intro zdiv_mono1) simp_all
      then have "u div DAY < cursor_of from div DAY + 1464"
        using d(1,4) unfolding SEARCH_DAYS_def by linarith
      ultimately have "u \<in> ?A" using that A by blast
      then show False using t(2) that(2) by (meson not_le)
    qed
    then show ?thesis using d unfolding r Some option.case by blast
  qed
qed

lemma demo_parse: "parseCron ''0 3 13 * 5'' = Some \<lparr> minute = {0}, hour = {3}, dom = {13},
    month = {1, 2, 3, 4, 5, 6, 7, 8, 9, 10, 11, 12}, dow = {5}, domRestricted = True, dowRestricted = True \<rparr>"
  by code_simp

text \<open>The 13th or a Friday: from the first of January 1970, a Thursday, the next day at three.\<close>

theorem next_run_is_least_witness:
  "nextCronRun ''0 3 13 * 5'' 0 = Some 97200000
   \<and> (\<forall>u. \<not> (0 < u \<and> u < 97200000 \<and> fires \<lparr> minute = {0}, hour = {3}, dom = {13},
       month = {1, 2, 3, 4, 5, 6, 7, 8, 9, 10, 11, 12}, dow = {5}, domRestricted = True, dowRestricted = True \<rparr> u))"
proof -
  let ?f = "\<lparr> minute = {0}, hour = {3}, dom = {13}, month = {1, 2, 3, 4, 5, 6, 7, 8, 9, 10, 11, 12},
    dow = {5}, domRestricted = True, dowRestricted = True \<rparr>"
  have days: "[0..<SEARCH_DAYS] = 0 # 1 # [2..<SEARCH_DAYS]"
    using upt_conv_Cons [of 0 SEARCH_DAYS] upt_conv_Cons [of 1 SEARCH_DAYS] by (simp add: SEARCH_DAYS_def numeral_2_eq_2)
  have years: "[0..<399] = 0 # [Suc 0..<399]" by (rule upt_conv_Cons) simp
  have "civil 0 = (1, 1)" "civil 1 = (1, 2)"
    unfolding civil_def yearFromDay_def years by (simp_all add: dayFromYear_def month_lengths_def)
  then have "day_hit ?f 0 60000 0 = None" "day_hit ?f 0 60000 1 = Some 97200000"
    by (simp_all add: day_hit_def dayMatches_def getDay_def hour_hit_def minute_hit_def)
  then have v: "nextCronRun ''0 3 13 * 5'' 0 = Some 97200000"
    unfolding nextCronRun_def demo_parse days by simp
  from next_run_is_least [OF demo_parse, of 0] show ?thesis unfolding v by auto
qed

section \<open>The grammar\<close>

text \<open>The documented parts of a field, how they are written and what they mean.\<close>

datatype cron_range = Star | At nat | Between nat nat

fun range_text :: "cron_range \<Rightarrow> string" where
  "range_text Star = ''*''"
| "range_text (At n) = dec n"
| "range_text (Between a b) = dec a @ ''-'' @ dec b"

fun part_text :: "cron_range \<times> nat option \<Rightarrow> string" where
  "part_text (r, None) = range_text r"
| "part_text (r, Some n) = range_text r @ ''/'' @ dec n"

fun range_bounds :: "nat \<Rightarrow> nat \<Rightarrow> cron_range \<times> nat option \<Rightarrow> nat \<times> nat" where
  "range_bounds mn mx (Star, _) = (mn, mx)"
| "range_bounds mn mx (At n, None) = (n, n)"
| "range_bounds mn mx (At n, Some _) = (n, mx)"
| "range_bounds mn mx (Between a b, _) = (a, b)"

definition part_step :: "cron_range \<times> nat option \<Rightarrow> nat" where
  "part_step p = (case snd p of None \<Rightarrow> 1 | Some n \<Rightarrow> n)"

definition part_values :: "nat \<Rightarrow> nat \<Rightarrow> cron_range \<times> nat option \<Rightarrow> nat set" where
  "part_values mn mx p = (case range_bounds mn mx p of (lo, hi) \<Rightarrow> {v. lo \<le> v \<and> v \<le> hi \<and> part_step p dvd v - lo})"

definition part_ok :: "nat \<Rightarrow> nat \<Rightarrow> cron_range \<times> nat option \<Rightarrow> bool" where
  "part_ok mn mx p \<longleftrightarrow> 0 < part_step p
     \<and> (case range_bounds mn mx p of (lo, hi) \<Rightarrow> mn \<le> lo \<and> lo \<le> hi \<and> hi \<le> mx)"

lemma dec_chars: "c \<in> set (dec n) \<Longrightarrow> c \<noteq> CHR ''/'' \<and> c \<noteq> CHR ''-'' \<and> c \<noteq> COMMA \<and> c \<noteq> CHR ''*'' \<and> \<not> is_space c"
  using dec_digit [of c n] by (auto simp: is_digit_def is_space_def)

lemma digits_dec [simp]: "digits (dec n)"
  using dec_digits by (simp add: digits_def)

lemma range_chars: "c \<in> set (range_text r) \<Longrightarrow> c \<noteq> CHR ''/'' \<and> c \<noteq> COMMA \<and> \<not> is_space c"
  using dec_chars by (cases r) (auto simp: is_space_def)

lemma part_chars: "c \<in> set (part_text p) \<Longrightarrow> c \<noteq> COMMA \<and> \<not> is_space c"
  using range_chars dec_chars by (cases p rule: part_text.cases) (auto simp: is_space_def)

lemma part_split: "js_split (CHR ''/'') (part_text p) = range_text (fst p) # (case snd p of None \<Rightarrow> [] | Some n \<Rightarrow> [dec n])"
proof -
  have r: "CHR ''/'' \<notin> set (range_text (fst p))" and n: "CHR ''/'' \<notin> set (dec n)" for n
    using range_chars [of "CHR ''/''"] dec_chars [of "CHR ''/''" n] by auto
  show ?thesis
    by (cases p rule: part_text.cases) (use r n in \<open>simp_all add: js_split_no_sep js_split_append\<close>)
qed

lemma range_reads: "part_range (range_text r) (s \<noteq> None) mn mx = Some (range_bounds mn mx (r, s))"
proof (cases r)
  case Star then show ?thesis by (simp add: part_range_def)
next
  case (At n)
  have "dec n \<noteq> ''*''" using dec_chars [of "CHR ''*''" n] by auto
  then show ?thesis using At by (cases s) (simp_all add: part_range_def numeral_radix)
next
  case (Between a b)
  have "CHR ''-'' \<notin> set (dec a)" "CHR ''-'' \<notin> set (dec b)" using dec_chars [of "CHR ''-''"] by auto
  then have "js_split (CHR ''-'') (range_text r) = [dec a, dec b]"
    using Between by (simp add: js_split_append js_split_no_sep)
  then have "dash_range (range_text r) = Some (a, b)"
    by (simp add: dash_range_def numeral_radix)
  moreover have "\<not> digits (range_text r)" "range_text r \<noteq> ''*''"
    using Between by (auto simp: digits_def is_digit_def dest: arg_cong [of _ _ "\<lambda>s. CHR ''-'' \<in> set s"])
  ultimately show ?thesis using Between by (simp add: part_range_def)
qed

lemma part_text_parses:
  assumes "part_ok mn mx p"
  shows "parse_part (part_text p) mn mx = Some (part_values mn mx p)"
proof -
  obtain r s where p: "p = (r, s)" by fastforce
  obtain lo hi where b: "range_bounds mn mx (r, s) = (lo, hi)" by fastforce
  let ?st = "part_step p"
  have "mn \<le> lo" "lo \<le> hi" "hi \<le> mx" and st: "0 < ?st" using assms b p by (auto simp: part_ok_def)
  moreover have "stepped lo hi ?st = part_values mn mx p"
    using st b by (auto simp: stepped_iff part_values_def p)
  ultimately show ?thesis
    unfolding parse_part_def part_split
    by (cases s) (use range_reads [of r s mn mx] b in \<open>auto simp: p part_step_def numeral_radix\<close>)
qed

definition field_text :: "(cron_range \<times> nat option) list \<Rightarrow> string" where
  "field_text ps = js_join [COMMA] (map part_text ps)"

definition field_values :: "nat \<Rightarrow> nat \<Rightarrow> (cron_range \<times> nat option) list \<Rightarrow> nat set" where
  "field_values mn mx ps = (\<Union>p \<in> set ps. part_values mn mx p)"

definition field_ok :: "nat \<Rightarrow> nat \<Rightarrow> (cron_range \<times> nat option) list \<Rightarrow> bool" where
  "field_ok mn mx ps \<longleftrightarrow> ps \<noteq> [] \<and> list_all (part_ok mn mx) ps"

lemma parts_parse: "list_all (part_ok mn mx) ps \<Longrightarrow>
   parse_parts (map part_text ps) mn mx out = Some (out \<union> field_values mn mx ps)"
  by (induction ps arbitrary: out) (auto simp: part_text_parses field_values_def)

lemma part_values_nonempty: "part_ok mn mx p \<Longrightarrow> part_values mn mx p \<noteq> {}"
  by (auto simp: part_ok_def part_values_def split: prod.splits intro: exI [of _ "fst (range_bounds mn mx p)"])

lemma field_parses:
  assumes "field_ok mn mx ps"
  shows "parseField (field_text ps) mn mx = Some (field_values mn mx ps)"
proof -
  have ne: "ps \<noteq> []" and ok: "list_all (part_ok mn mx) ps" using assms by (simp_all add: field_ok_def)
  have "js_split COMMA (field_text ps) = map part_text ps"
    unfolding field_text_def using ne part_chars by (intro js_split_join) auto
  moreover have "field_values mn mx ps \<noteq> {}"
    using ne ok part_values_nonempty by (cases ps) (auto simp: field_values_def)
  ultimately show ?thesis using ok by (simp add: parseField_def parts_parse)
qed

text \<open>Fields between blanks, with blanks around.\<close>

lemma blank_split_word: "x \<noteq> [] \<Longrightarrow> list_all (\<lambda>c. \<not> is_space c) x \<Longrightarrow> blank_split x = [x]"
  by (subst blank_split.simps) (simp add: list_all_iff)

lemma blank_split_append:
  assumes x: "list_all (\<lambda>c. \<not> is_space c) x" and sep: "sep \<noteq> []" "list_all is_space sep"
    and s: "s \<noteq> []" "\<not> is_space (hd s)"
  shows "blank_split (x @ sep @ s) = x # blank_split s"
proof -
  have t: "takeWhile (\<lambda>c. \<not> is_space c) (x @ sep @ s) = x" and d: "dropWhile (\<lambda>c. \<not> is_space c) (x @ sep @ s) = sep @ s"
    using x sep by (cases sep; simp add: list_all_iff)+
  have "dropWhile is_space (sep @ s) = s"
    using sep(2) s by (cases s) (simp_all add: list_all_iff)
  then show ?thesis using sep by (subst blank_split.simps) (simp add: t d)
qed

definition word :: "string \<Rightarrow> bool" where
  "word x \<longleftrightarrow> x \<noteq> [] \<and> list_all (\<lambda>c. \<not> is_space c) x"

lemma join_hd_last:
  "xs \<noteq> [] \<Longrightarrow> \<forall>x \<in> set xs. word x \<Longrightarrow> js_join sep xs \<noteq> []
    \<and> \<not> is_space (hd (js_join sep xs)) \<and> \<not> is_space (last (js_join sep xs))"
  by (induction sep xs rule: js_join.induct) (auto simp: word_def list_all_iff)

lemma blank_split_join:
  assumes "sep \<noteq> []" "list_all is_space sep"
  shows "xs \<noteq> [] \<Longrightarrow> \<forall>x \<in> set xs. word x \<Longrightarrow> blank_split (js_join sep xs) = xs"
proof (induction xs rule: induct_list012)
  case (2 x) then show ?case by (simp add: word_def blank_split_word)
next
  case (3 x y zs)
  then show ?case using join_hd_last [of "y # zs" sep] assms
    by (simp add: blank_split_append word_def)
qed simp

lemma dropWhile_pad: "list_all P pad \<Longrightarrow> s \<noteq> [] \<Longrightarrow> \<not> P (hd s) \<Longrightarrow> dropWhile P (pad @ s) = s"
  by (cases s) (simp_all add: list_all_iff)

lemma trim_pad:
  assumes "list_all is_space p" "list_all is_space q" "s \<noteq> []" "\<not> is_space (hd s)" "\<not> is_space (last s)"
  shows "js_trim (p @ s @ q) = s"
proof -
  have "dropWhile is_space (p @ s @ q) = s @ q" using assms by (intro dropWhile_pad) auto
  moreover have "dropWhile is_space (rev q @ rev s) = rev s"
    using assms by (intro dropWhile_pad) (auto simp: hd_rev list_all_iff)
  ultimately show ?thesis by (simp add: js_trim_def)
qed

definition expression :: "string \<Rightarrow> (cron_range \<times> nat option) list list \<Rightarrow> string" where
  "expression sep fs = js_join sep (map field_text fs)"

lemma join_chars: "c \<in> set (js_join sep xs) \<Longrightarrow> c \<in> set sep \<or> (\<exists>x \<in> set xs. c \<in> set x)"
  by (induction sep xs rule: js_join.induct) auto

lemma field_text_word: "field_ok mn mx ps \<Longrightarrow> word (field_text ps)"
proof -
  assume "field_ok mn mx ps"
  then have ne: "ps \<noteq> []" by (simp add: field_ok_def)
  have pne: "part_text p \<noteq> []" for p by (cases p rule: part_text.cases; cases "fst p") auto
  have "\<not> is_space COMMA" by (simp add: is_space_def)
  then have "\<forall>c \<in> set (js_join [COMMA] (map part_text ps)). \<not> is_space c"
    using join_chars [of _ "[COMMA]" "map part_text ps"] part_chars by fastforce
  moreover have "js_join [COMMA] (map part_text ps) \<noteq> []"
    using ne pne by (cases ps rule: list.exhaust; cases "tl ps") auto
  ultimately show ?thesis by (simp add: word_def field_text_def list_all_iff)
qed


definition demo_schedule :: "(cron_range \<times> nat option) list list" where
  "demo_schedule = [[(At 0, Some 15)], [(Between 9 17, None)], [(Star, None)], [(Star, None)], [(Between 1 5, None)]]"


text \<open>
  A third part after the step is not refused but dropped: an expression outside the
  grammar is read as another one.
\<close>

theorem extra_step_ignored:
  assumes "CHR ''/'' \<notin> set a" "CHR ''/'' \<notin> set b"
  shows "parse_part (a @ ''/'' @ b @ ''/'' @ c) mn mx = parse_part (a @ ''/'' @ b) mn mx"
  using assms by (simp add: parse_part_def js_split_append js_split_no_sep Let_def)

theorem extra_step_ignored_witness:
  "parse_part (''*'' @ ''/'' @ ''20'' @ ''/'' @ ''7'') 0 59 = parse_part (''*'' @ ''/'' @ ''20'') 0 59
   \<and> parse_part (''*'' @ ''/'' @ ''20'') 0 59 = Some {0, 20, 40}"
  by (rule conjI, rule extra_step_ignored, simp, simp, code_simp)

section \<open>The calendar is the calendar\<close>

lemma month_date_later: "ls \<noteq> [] \<Longrightarrow> m \<le> fst (month_date ls m d)"
  by (induction ls m d rule: month_date.induct) (auto intro: order_trans [rotated])

lemma second_month:
  assumes "rest \<noteq> []" "f \<le> 29" "fst (month_date (31 # f # rest) 1 x) = 2"
  shows "snd (month_date (31 # f # rest) 1 x) \<le> 29"
proof -
  have "3 \<le> fst (month_date rest 3 (x - 31 - f))" by (rule month_date_later [OF assms(1)])
  then show ?thesis using assms by (cases rest) (auto simp: numeral_3_eq_3 split: if_splits)
qed

lemma february_date: "fst (civil d) = 2 \<Longrightarrow> snd (civil d) \<le> 29"
  unfolding civil_def Let_def month_lengths_def by (rule second_month) auto

text \<open>
  The thirtieth of February never comes: from whatever moment, the search ends
  with no run.
\<close>

theorem february_30_never: "nextCronRun ''0 0 30 2 *'' from = None"
proof -
  let ?f = "\<lparr> minute = {0}, hour = {0}, dom = {30}, month = {2}, dow = {0, 1, 2, 3, 4, 5, 6},
    domRestricted = True, dowRestricted = False \<rparr>"
  have "parseCron ''0 0 30 2 *'' = Some ?f" by code_simp
  moreover have "\<not> dayMatches ?f d" for d using february_date [of d] by (auto simp: dayMatches_def)
  then have "day_hit ?f from c = (\<lambda>day. None)" for c by (simp add: day_hit_def fun_eq_iff)
  moreover have "first_hit (\<lambda>x. None) xs = None" for xs :: "nat list" by (induction xs) auto
  ultimately show ?thesis by (simp add: nextCronRun_def)
qed

end
