(* ===== verification/TrxSequencer.thy ===== *)
theory TrxSequencer
  imports Prelude
begin

text \<open>
  \<open>db/trx-sequencer.ts\<close>: the turns of one transaction's connection.  A task is one call
  of \<open>run\<close> (a statement) or \<open>exclusive\<close> (a scope); a promise is the task whose end it
  waits for.  The asynchronous context of a call is the level of the innermost scope it
  was made from.  Callbacks, and with them the order in which tasks are issued and end,
  are events: every order the event loop allows is a run of them.
\<close>

section \<open>Levels and tasks\<close>

record level =
  tail :: "nat option"
  parent :: "nat option"
  closed :: bool

datatype task_status = Waiting | Running | Closed | Settled

record turn_task =
  queued_at :: nat
  scope_level :: "nat option"
  waits_for :: "nat option"
  status :: task_status

record turns =
  levels :: "level list"
  tasks :: "turn_task list"

text \<open>Level 0 is the root.\<close>

definition new_turns :: turns where
  "new_turns = \<lparr> levels = [\<lparr> tail = None, parent = None, closed = False \<rparr>], tasks = [] \<rparr>"

text \<open>\<open>while (level.closed && level.parent) level = level.parent\<close>; a parent is older.\<close>

function open_level :: "level list \<Rightarrow> nat \<Rightarrow> nat" where
  "open_level ls l = (case parent (ls ! l) of
     None \<Rightarrow> l
   | Some p \<Rightarrow> if closed (ls ! l) \<and> p < l then open_level ls p else l)"
  by auto
termination by (relation "measure snd") auto

declare open_level.simps [simp del]

definition queue :: "nat \<Rightarrow> nat option \<Rightarrow> turns \<Rightarrow> turns" where
  "queue l sc s = s\<lparr>
     levels := (levels s)[l := (levels s ! l)\<lparr> tail := Some (length (tasks s)) \<rparr>],
     tasks := tasks s @ [\<lparr> queued_at = l, scope_level = sc, waits_for = tail (levels s ! l), status = Waiting \<rparr>] \<rparr>"

definition run :: "nat \<Rightarrow> turns \<Rightarrow> turns" where
  "run ctx s = queue (open_level (levels s) ctx) None s"

definition exclusive :: "nat \<Rightarrow> turns \<Rightarrow> turns" where
  "exclusive ctx s =
    (let p = open_level (levels s) ctx; l = length (levels s) in
     queue p (Some l) (s\<lparr> levels := levels s @ [\<lparr> tail = None, parent = Some p, closed = False \<rparr>] \<rparr>))"

definition set_status :: "nat \<Rightarrow> task_status \<Rightarrow> turns \<Rightarrow> turns" where
  "set_status t st s = s\<lparr> tasks := (tasks s)[t := (tasks s ! t)\<lparr> status := st \<rparr>] \<rparr>"

section \<open>Events\<close>

text \<open>
  A call is made from the root or from inside a scope that has started, even one that
  has ended since.  A task starts when what it waits for has settled; a scope that ends
  closes its level (\<open>finally\<close>) and then settles.
\<close>

datatype turn_event = Run nat | Exclusive nat | Start nat | Close nat | Settle nat

definition started_scope :: "turns \<Rightarrow> nat \<Rightarrow> bool" where
  "started_scope s l \<longleftrightarrow> list_ex (\<lambda>t. scope_level t = Some l \<and> status t \<noteq> Waiting) (tasks s)"

definition has_turn :: "turns \<Rightarrow> nat \<Rightarrow> bool" where
  "has_turn s t \<longleftrightarrow> (case waits_for (tasks s ! t) of None \<Rightarrow> True | Some u \<Rightarrow> status (tasks s ! u) = Settled)"

fun enabled :: "turn_event \<Rightarrow> turns \<Rightarrow> bool" where
  "enabled (Run ctx) s \<longleftrightarrow> ctx = 0 \<or> started_scope s ctx"
| "enabled (Exclusive ctx) s \<longleftrightarrow> ctx = 0 \<or> started_scope s ctx"
| "enabled (Start t) s \<longleftrightarrow> t < length (tasks s) \<and> status (tasks s ! t) = Waiting \<and> has_turn s t"
| "enabled (Close t) s \<longleftrightarrow> t < length (tasks s) \<and> status (tasks s ! t) = Running \<and> scope_level (tasks s ! t) \<noteq> None"
| "enabled (Settle t) s \<longleftrightarrow> t < length (tasks s)
     \<and> status (tasks s ! t) = (if scope_level (tasks s ! t) = None then Running else Closed)"

fun perform :: "turn_event \<Rightarrow> turns \<Rightarrow> turns" where
  "perform (Run ctx) s = run ctx s"
| "perform (Exclusive ctx) s = exclusive ctx s"
| "perform (Start t) s = set_status t Running s"
| "perform (Close t) s = (let l = the (scope_level (tasks s ! t)) in
     set_status t Closed (s\<lparr> levels := (levels s)[l := (levels s ! l)\<lparr> closed := True \<rparr>] \<rparr>))"
| "perform (Settle t) s = set_status t Settled s"

inductive reachable :: "turns \<Rightarrow> bool" where
  start: "reachable new_turns"
| event: "reachable s \<Longrightarrow> enabled e s \<Longrightarrow> reachable (perform e s)"

text \<open>A scope that awaits its work: it ends when everything queued in it has settled.\<close>

fun awaits :: "turn_event \<Rightarrow> turns \<Rightarrow> bool" where
  "awaits (Close t) s \<longleftrightarrow> list_all (\<lambda>u. scope_level (tasks s ! t) = Some (queued_at u) \<longrightarrow> status u = Settled) (tasks s)"
| "awaits _ s \<longleftrightarrow> True"

inductive awaited :: "turns \<Rightarrow> bool" where
  start: "awaited new_turns"
| event: "awaited s \<Longrightarrow> enabled e s \<Longrightarrow> awaits e s \<Longrightarrow> awaited (perform e s)"

lemma awaited_reachable: "awaited s \<Longrightarrow> reachable s"
  by (induction rule: awaited.induct) (auto intro: reachable.intros)

section \<open>A taker of turns\<close>

text \<open>Level \<open>m\<close> is \<open>l\<close> or inside it; task \<open>t\<close> is queued inside the scope of \<open>u\<close>.\<close>

inductive below :: "(nat \<Rightarrow> nat option) \<Rightarrow> nat \<Rightarrow> nat \<Rightarrow> bool" for up l where
  same: "below up l l"
| deeper: "up m = Some p \<Longrightarrow> below up l p \<Longrightarrow> below up l m"

definition inside :: "(nat \<Rightarrow> nat option) \<Rightarrow> (nat \<Rightarrow> nat option) \<Rightarrow> (nat \<Rightarrow> nat) \<Rightarrow> nat \<Rightarrow> nat \<Rightarrow> bool" where
  "inside up opens level_of t u \<longleftrightarrow> (\<exists>l. opens u = Some l \<and> below up l (level_of t))"

text \<open>
  What makes nested queues exclusive: at each level one task is active at a time, and
  an active task below the root is inside an active scope.
\<close>

locale turn_taker =
  fixes good :: "'s \<Rightarrow> bool"
    and active :: "'s \<Rightarrow> nat \<Rightarrow> bool"
    and level_of :: "'s \<Rightarrow> nat \<Rightarrow> nat"
    and opens :: "'s \<Rightarrow> nat \<Rightarrow> nat option"
    and up :: "'s \<Rightarrow> nat \<Rightarrow> nat option"
  assumes one_per_level: "good s \<Longrightarrow> active s t \<Longrightarrow> active s u \<Longrightarrow> level_of s t = level_of s u \<Longrightarrow> t = u"
    and inside_active: "good s \<Longrightarrow> active s t \<Longrightarrow> up s (level_of s t) = Some p \<Longrightarrow>
      \<exists>u. active s u \<and> level_of s u = p \<and> opens s u = Some (level_of s t)"
    and one_root: "good s \<Longrightarrow> active s t \<Longrightarrow> up s (level_of s t) = None \<Longrightarrow> level_of s t = 0"
    and older: "good s \<Longrightarrow> up s l = Some p \<Longrightarrow> p < l"
begin

lemma active_above:
  assumes "good s" "below (up s) l m"
  shows "active s t \<Longrightarrow> level_of s t = m \<Longrightarrow>
    l = m \<or> (\<exists>u. active s u \<and> level_of s u = l \<and> inside (up s) (opens s) (level_of s) t u)"
  using assms(2)
proof (induction arbitrary: t rule: below.induct)
  case (deeper m p)
  obtain u where u: "active s u" "level_of s u = p" "opens s u = Some m"
    using inside_active [OF assms(1) deeper.prems(1)] deeper by auto
  have tu: "inside (up s) (opens s) (level_of s) t u" using u deeper.prems below.same by (auto simp: inside_def)
  from deeper.IH [OF u(1,2)] show ?case
  proof
    assume "l = p" then show ?thesis using u tu by blast
  next
    assume "\<exists>v. active s v \<and> level_of s v = l \<and> inside (up s) (opens s) (level_of s) u v"
    then obtain v k where v: "active s v" "level_of s v = l" "opens s v = Some k" "below (up s) k p"
      using u(2) by (auto simp: inside_def)
    then have "inside (up s) (opens s) (level_of s) t v"
      using deeper.hyps(1) deeper.prems(2) by (auto simp: inside_def intro: below.deeper)
    then show ?thesis using v by blast
  qed
qed simp

lemma root_above:
  assumes "good s"
  shows "active s v \<Longrightarrow> level_of s v = m \<Longrightarrow> below (up s) 0 m"
proof (induction m arbitrary: v rule: less_induct)
  case (less m)
  show ?case
  proof (cases "up s m")
    case None then show ?thesis using one_root [OF assms less.prems(1)] less.prems(2) by (simp add: below.same)
  next
    case (Some p)
    then obtain w where "active s w" "level_of s w = p"
      using inside_active [OF assms less.prems(1)] less.prems(2) by auto
    then show ?thesis using less.IH [of p w] older [OF assms Some] Some by (auto intro: below.deeper)
  qed
qed

lemma nested:
  assumes "good s"
  shows "active s t \<Longrightarrow> active s u \<Longrightarrow> t = u
    \<or> inside (up s) (opens s) (level_of s) t u \<or> inside (up s) (opens s) (level_of s) u t"
proof (induction "level_of s t" arbitrary: t rule: less_induct)
  case less
  have related: ?case if "below (up s) (level_of s t) (level_of s u)"
    using active_above [OF assms that less.prems(2)] one_per_level [OF assms] less.prems by metis
  show ?case
  proof (cases "up s (level_of s t)")
    case None
    then show ?thesis using related root_above [OF assms less.prems(2)] one_root [OF assms less.prems(1) None] by simp
  next
    case (Some p)
    obtain v where v: "active s v" "level_of s v = p" "opens s v = Some (level_of s t)"
      using inside_active [OF assms less.prems(1) Some] by auto
    have "level_of s v < level_of s t" using older [OF assms Some] v by simp
    from less.hyps [OF this v(1) less.prems(2)] show ?thesis
    proof (elim disjE)
      assume "v = u" then show ?thesis using v below.same by (auto simp: inside_def)
    next
      assume "inside (up s) (opens s) (level_of s) v u"
      then show ?thesis using Some v by (auto simp: inside_def intro: below.deeper)
    next
      assume "inside (up s) (opens s) (level_of s) u v"
      then show ?thesis using v related by (auto simp: inside_def)
    qed
  qed
qed

end

section \<open>What every run keeps\<close>

abbreviation task_count :: "turns \<Rightarrow> nat" where "task_count s \<equiv> length (tasks s)"
abbreviation level_count :: "turns \<Rightarrow> nat" where "level_count s \<equiv> length (levels s)"

definition task_level :: "turns \<Rightarrow> nat \<Rightarrow> nat" where
  "task_level s t = queued_at (tasks s ! t)"

definition task_scope :: "turns \<Rightarrow> nat \<Rightarrow> nat option" where
  "task_scope s t = (if t < task_count s then scope_level (tasks s ! t) else None)"

definition level_parent :: "turns \<Rightarrow> nat \<Rightarrow> nat option" where
  "level_parent s l = (if l < level_count s then parent (levels s ! l) else None)"

definition active :: "turns \<Rightarrow> nat \<Rightarrow> bool" where
  "active s t \<longleftrightarrow> t < task_count s \<and> status (tasks s ! t) \<in> {Running, Closed}"

text \<open>The tree: every level but the root is the scope of one task, queued at its parent.\<close>

definition tree :: "turns \<Rightarrow> bool" where
  "tree s \<longleftrightarrow> 0 < level_count s \<and> parent (levels s ! 0) = None
     \<and> (\<forall>t < task_count s. queued_at (tasks s ! t) < level_count s)
     \<and> (\<forall>t < task_count s. \<forall>l. scope_level (tasks s ! t) = Some l \<longrightarrow>
          queued_at (tasks s ! t) < l \<and> l < level_count s \<and> parent (levels s ! l) = Some (queued_at (tasks s ! t)))
     \<and> (\<forall>l < level_count s. 0 < l \<longrightarrow> (\<exists>t < task_count s. scope_level (tasks s ! t) = Some l))
     \<and> (\<forall>t < task_count s. \<forall>u < task_count s. \<forall>l.
          scope_level (tasks s ! t) = Some l \<longrightarrow> scope_level (tasks s ! u) = Some l \<longrightarrow> t = u)"

text \<open>The order: a task waits for the one queued before it at its level, the tail is the last.\<close>

definition latest :: "turn_task list \<Rightarrow> nat \<Rightarrow> nat option \<Rightarrow> bool" where
  "latest ts l r \<longleftrightarrow> (case r of
     None \<Rightarrow> \<forall>u < length ts. queued_at (ts ! u) \<noteq> l
   | Some v \<Rightarrow> v < length ts \<and> queued_at (ts ! v) = l \<and> (\<forall>u < length ts. v < u \<longrightarrow> queued_at (ts ! u) \<noteq> l))"

definition ordered :: "turns \<Rightarrow> bool" where
  "ordered s \<longleftrightarrow> (\<forall>l < level_count s. latest (tasks s) l (tail (levels s ! l)))
     \<and> (\<forall>t < task_count s. latest (take t (tasks s)) (queued_at (tasks s ! t)) (waits_for (tasks s ! t)))"

text \<open>The turns: a task that started had its turn, in a scope that had started.\<close>

definition turned :: "turns \<Rightarrow> bool" where
  "turned s \<longleftrightarrow> (\<forall>t < task_count s. status (tasks s ! t) \<noteq> Waiting \<longrightarrow> has_turn s t)
     \<and> (\<forall>t < task_count s. queued_at (tasks s ! t) = 0 \<or> started_scope s (queued_at (tasks s ! t)))
     \<and> (\<forall>t < task_count s. \<forall>l. scope_level (tasks s ! t) = Some l \<longrightarrow>
          status (tasks s ! t) \<in> {Closed, Settled} \<longrightarrow> closed (levels s ! l))
     \<and> (\<forall>t < task_count s. scope_level (tasks s ! t) = None \<longrightarrow> status (tasks s ! t) \<noteq> Closed)"

definition sound :: "turns \<Rightarrow> bool" where
  "sound s \<longleftrightarrow> tree s \<and> ordered s \<and> turned s"

text \<open>Issuing a task, with the level it opens if it is a scope.\<close>

definition issued :: "nat \<Rightarrow> nat option \<Rightarrow> level list \<Rightarrow> turns \<Rightarrow> turns" where
  "issued l sc ex s = s\<lparr>
     levels := (levels s)[l := (levels s ! l)\<lparr> tail := Some (task_count s) \<rparr>] @ ex,
     tasks := tasks s @ [\<lparr> queued_at = l, scope_level = sc, waits_for = tail (levels s ! l), status = Waiting \<rparr>] \<rparr>"

lemma run_issued: "run ctx s = issued (open_level (levels s) ctx) None [] s"
  by (simp add: run_def queue_def issued_def)

lemma exclusive_issued:
  "open_level (levels s) ctx < level_count s \<Longrightarrow> exclusive ctx s = issued (open_level (levels s) ctx)
     (Some (level_count s)) [\<lparr> tail = None, parent = Some (open_level (levels s) ctx), closed = False \<rparr>] s"
  by (simp add: exclusive_def queue_def issued_def Let_def nth_append list_update_append)

definition scope_of :: "nat \<Rightarrow> nat option \<Rightarrow> level list \<Rightarrow> turns \<Rightarrow> bool" where
  "scope_of l sc ex s \<longleftrightarrow> sc = None \<and> ex = []
     \<or> sc = Some (level_count s) \<and> ex = [\<lparr> tail = None, parent = Some l, closed = False \<rparr>]"

lemma started_scope_iff:
  "started_scope s l \<longleftrightarrow> (\<exists>t < task_count s. scope_level (tasks s ! t) = Some l \<and> status (tasks s ! t) \<noteq> Waiting)"
  by (simp add: started_scope_def list_ex_length)

lemma issued_tasks [simp]: "tasks (issued l sc ex s)
    = tasks s @ [\<lparr> queued_at = l, scope_level = sc, waits_for = tail (levels s ! l), status = Waiting \<rparr>]"
  by (simp add: issued_def)

lemma issued_level_count [simp]: "level_count (issued l sc ex s) = level_count s + length ex"
  by (simp add: issued_def)

lemma issued_level:
  "k < level_count s \<Longrightarrow> parent (levels (issued l sc ex s) ! k) = parent (levels s ! k)
     \<and> closed (levels (issued l sc ex s) ! k) = closed (levels s ! k)
     \<and> tail (levels (issued l sc ex s) ! k) = (if k = l then Some (task_count s) else tail (levels s ! k))"
  by (simp add: issued_def nth_append nth_list_update)

lemma issued_new_level: "levels (issued l sc [x] s) ! level_count s = x"
  by (simp add: issued_def nth_append)

lemma tree_scope: "tree s \<Longrightarrow> t < task_count s \<Longrightarrow> scope_level (tasks s ! t) = Some l \<Longrightarrow>
    queued_at (tasks s ! t) < l \<and> l < level_count s \<and> parent (levels s ! l) = Some (queued_at (tasks s ! t))"
  by (simp add: tree_def)

lemma tree_queued: "tree s \<Longrightarrow> t < task_count s \<Longrightarrow> queued_at (tasks s ! t) < level_count s"
  by (simp add: tree_def)

lemma tree_owner: "tree s \<Longrightarrow> l < level_count s \<Longrightarrow> 0 < l \<Longrightarrow> \<exists>t < task_count s. scope_level (tasks s ! t) = Some l"
  by (simp add: tree_def)

lemma tree_unique: "tree s \<Longrightarrow> t < task_count s \<Longrightarrow> u < task_count s \<Longrightarrow>
    scope_level (tasks s ! t) = Some l \<Longrightarrow> scope_level (tasks s ! u) = Some l \<Longrightarrow> t = u"
  by (simp add: tree_def)

lemma tree_issued:
  assumes "tree s" "l < level_count s" "scope_of l sc ex s"
  shows "tree (issued l sc ex s)"
proof -
  let ?s = "issued l sc ex s"
  have fresh: "scope_level (tasks s ! t) \<noteq> Some (level_count s)" if "t < task_count s" for t
    using tree_scope [OF assms(1) that] by fastforce
  have "0 < level_count ?s \<and> parent (levels ?s ! 0) = None"
    using assms(1) issued_level [of 0 s l sc ex] by (simp add: tree_def)
  moreover have "\<forall>t < task_count ?s. queued_at (tasks ?s ! t) < level_count ?s"
    using tree_queued [OF assms(1)] assms(2) by (auto simp: nth_append less_Suc_eq intro: trans_less_add1)
  moreover have "queued_at (tasks ?s ! t) < k \<and> k < level_count ?s \<and> parent (levels ?s ! k) = Some (queued_at (tasks ?s ! t))"
    if "t < task_count ?s" "scope_level (tasks ?s ! t) = Some k" for t k
  proof (cases "t < task_count s")
    case True
    then have "queued_at (tasks s ! t) < k \<and> k < level_count s \<and> parent (levels s ! k) = Some (queued_at (tasks s ! t))"
      using that tree_scope [OF assms(1) True] by (simp add: nth_append)
    then show ?thesis using True issued_level [of k s l sc ex] by (simp add: nth_append)
  next
    case False
    then have t: "t = task_count s" using that(1) by simp
    then have "k = level_count s" "ex = [\<lparr> tail = None, parent = Some l, closed = False \<rparr>]"
      using that(2) assms(3) by (auto simp: scope_of_def)
    then show ?thesis using t assms(2) by (simp add: issued_new_level)
  qed
  moreover have "\<exists>t < task_count ?s. scope_level (tasks ?s ! t) = Some k" if "k < level_count ?s" "0 < k" for k
  proof (cases "k < level_count s")
    case True
    from tree_owner [OF assms(1) True that(2)] obtain t where "t < task_count s" "scope_level (tasks s ! t) = Some k"
      by blast
    then show ?thesis by (intro exI [of _ t]) (simp add: nth_append)
  next
    case False
    then have "sc = Some k" using that(1) assms(3) by (auto simp: scope_of_def)
    then show ?thesis by (intro exI [of _ "task_count s"]) simp
  qed
  moreover have "t = u" if "t < task_count ?s" "u < task_count ?s" "scope_level (tasks ?s ! t) = Some k"
    "scope_level (tasks ?s ! u) = Some k" for t u k
    using that tree_unique [OF assms(1), of t u k] fresh [of t] fresh [of u] assms(3)
    by (auto simp: nth_append less_Suc_eq scope_of_def split: if_splits)
  ultimately show ?thesis unfolding tree_def by blast
qed

lemma latest_snoc:
  "latest ts k r \<Longrightarrow> latest (ts @ [x]) k (if queued_at x = k then Some (length ts) else r)"
  by (cases r) (auto simp: latest_def nth_append less_Suc_eq)

lemma ordered_issued:
  assumes "tree s" "ordered s" "l < level_count s" "scope_of l sc ex s"
  shows "ordered (issued l sc ex s)"
proof -
  let ?s = "issued l sc ex s"
  let ?x = "\<lparr> queued_at = l, scope_level = sc, waits_for = tail (levels s ! l), status = Waiting \<rparr>"
  have "latest (tasks ?s) k (tail (levels ?s ! k))" if "k < level_count ?s" for k
  proof (cases "k < level_count s")
    case True
    then have "latest (tasks s @ [?x]) k (if queued_at ?x = k then Some (task_count s) else tail (levels s ! k))"
      using assms(2) by (intro latest_snoc) (simp add: ordered_def)
    then show ?thesis using issued_level [OF True, of l sc ex] by (simp split: if_splits)
  next
    case False
    then have k: "k = level_count s" "ex = [\<lparr> tail = None, parent = Some l, closed = False \<rparr>]"
      using that assms(4) by (auto simp: scope_of_def)
    then show ?thesis using tree_queued [OF assms(1)] assms(3)
      by (fastforce simp: issued_new_level latest_def nth_append less_Suc_eq)
  qed
  moreover have "latest (take t (tasks ?s)) (queued_at (tasks ?s ! t)) (waits_for (tasks ?s ! t))"
    if "t < task_count ?s" for t
    using that assms(2,3) by (cases "t < task_count s") (auto simp: ordered_def nth_append less_Suc_eq)
  ultimately show ?thesis unfolding ordered_def by blast
qed

lemma waits_earlier: "ordered s \<Longrightarrow> t < task_count s \<Longrightarrow> waits_for (tasks s ! t) = Some u \<Longrightarrow> u < t"
  by (force simp: ordered_def latest_def split: option.splits)

lemma has_turn_issued:
  assumes "ordered s" "t < task_count s"
  shows "has_turn (issued l sc ex s) t = has_turn s t"
  using assms waits_earlier [OF assms]
  by (cases "waits_for (tasks s ! t)") (auto simp: has_turn_def nth_append)

lemma started_scope_issued: "started_scope (issued l sc ex s) k = started_scope s k"
  by (simp add: started_scope_def)

lemma turned_issued:
  assumes "tree s" "ordered s" "turned s" "l < level_count s" "scope_of l sc ex s" "l = 0 \<or> started_scope s l"
  shows "turned (issued l sc ex s)"
proof -
  have "closed (levels (issued l sc ex s) ! k)"
    if "t < task_count s" "scope_level (tasks s ! t) = Some k" "status (tasks s ! t) \<in> {Closed, Settled}" for t k
    using that assms(3) tree_scope [OF assms(1) that(1,2)] issued_level [of k s l sc ex] by (auto simp: turned_def)
  then show ?thesis
    using assms(3,6) has_turn_issued [OF assms(2)]
    by (auto simp: turned_def started_scope_issued nth_append less_Suc_eq)
qed

lemma updated_task:
  "u < length ts \<Longrightarrow> queued_at (ts[t := (ts ! t)\<lparr> status := st \<rparr>] ! u) = queued_at (ts ! u)
    \<and> scope_level (ts[t := (ts ! t)\<lparr> status := st \<rparr>] ! u) = scope_level (ts ! u)
    \<and> waits_for (ts[t := (ts ! t)\<lparr> status := st \<rparr>] ! u) = waits_for (ts ! u)
    \<and> status (ts[t := (ts ! t)\<lparr> status := st \<rparr>] ! u) = (if u = t then st else status (ts ! u))"
  by (cases "t = u") simp_all

lemma set_status_levels [simp]: "levels (set_status t st s) = levels s"
  by (simp add: set_status_def)

lemma set_status_count [simp]: "task_count (set_status t st s) = task_count s"
  by (simp add: set_status_def)

lemma set_status_task:
  "u < task_count s \<Longrightarrow> queued_at (tasks (set_status t st s) ! u) = queued_at (tasks s ! u)"
  "u < task_count s \<Longrightarrow> scope_level (tasks (set_status t st s) ! u) = scope_level (tasks s ! u)"
  "u < task_count s \<Longrightarrow> waits_for (tasks (set_status t st s) ! u) = waits_for (tasks s ! u)"
  "u < task_count s \<Longrightarrow> status (tasks (set_status t st s) ! u) = (if u = t then st else status (tasks s ! u))"
  by (simp_all add: set_status_def updated_task)

lemma tree_status: "tree s \<Longrightarrow> tree (set_status t st s)"
  unfolding tree_def by (simp add: set_status_task cong: conj_cong)

lemma latest_cong:
  "length ts = length ts' \<Longrightarrow> (\<And>u. u < length ts \<Longrightarrow> queued_at (ts ! u) = queued_at (ts' ! u)) \<Longrightarrow>
     latest ts l r = latest ts' l r"
  by (auto simp: latest_def split: option.splits)

lemma ordered_status: "ordered s \<Longrightarrow> ordered (set_status t st s)"
proof -
  assume o: "ordered s"
  have "latest (tasks (set_status t st s)) l r = latest (tasks s) l r" for l r
    by (rule latest_cong) (simp_all add: set_status_task)
  moreover have "latest (take u (tasks (set_status t st s))) l r = latest (take u (tasks s)) l r" for u l r
    by (rule latest_cong) (simp_all add: set_status_task)
  ultimately show ?thesis using o unfolding ordered_def by (simp add: set_status_task)
qed

lemma has_turn_status:
  assumes "ordered s" "u < task_count s" "has_turn s u" "status (tasks s ! t) \<noteq> Settled"
  shows "has_turn (set_status t st s) u"
proof (cases "waits_for (tasks s ! u)")
  case (Some v)
  then have "v < task_count s" using waits_earlier [OF assms(1,2) Some] assms(2) by simp
  then show ?thesis using assms Some by (auto simp: has_turn_def set_status_task)
qed (use assms in \<open>simp add: has_turn_def set_status_task\<close>)

lemma turned_status:
  assumes "ordered s" "turned s" "t < task_count s" "status (tasks s ! t) \<noteq> Settled" "st \<noteq> Waiting" "has_turn s t"
    and "scope_level (tasks s ! t) = None \<Longrightarrow> st \<noteq> Closed"
    and "\<And>l. scope_level (tasks s ! t) = Some l \<Longrightarrow> st \<in> {Closed, Settled} \<Longrightarrow> closed (levels s ! l)"
  shows "turned (set_status t st s)"
proof -
  have "started_scope (set_status t st s) l" if "started_scope s l" for l
    using that assms(5) by (auto simp: started_scope_iff set_status_task cong: conj_cong)
  then show ?thesis
    using assms has_turn_status [OF assms(1) _ _ assms(4), of _ st]
    unfolding turned_def by (auto simp: set_status_task)
qed

definition close_level :: "nat \<Rightarrow> turns \<Rightarrow> turns" where
  "close_level l s = s\<lparr> levels := (levels s)[l := (levels s ! l)\<lparr> closed := True \<rparr>] \<rparr>"

lemma closed_level:
  "k < level_count s \<Longrightarrow> parent (levels (close_level l s) ! k) = parent (levels s ! k)
     \<and> tail (levels (close_level l s) ! k) = tail (levels s ! k)
     \<and> closed (levels (close_level l s) ! k) = (k = l \<or> closed (levels s ! k))"
  by (cases "k = l") (simp_all add: close_level_def)

lemma close_level_tasks [simp]: "tasks (close_level l s) = tasks s" "level_count (close_level l s) = level_count s"
  by (simp_all add: close_level_def)

lemma has_turn_close [simp]: "has_turn (close_level l s) t = has_turn s t"
  unfolding has_turn_def close_level_tasks by (rule refl)

lemma started_scope_close [simp]: "started_scope (close_level l s) k = started_scope s k"
  by (simp add: started_scope_def)

lemma sound_close: "sound s \<Longrightarrow> sound (close_level l s)"
proof -
  assume s: "sound s"
  then have t: "tree s" by (simp add: sound_def)
  have "tree (close_level l s)" using t closed_level [of _ s l] unfolding tree_def by simp
  moreover have "ordered (close_level l s)" using s closed_level [of _ s l] by (simp add: sound_def ordered_def)
  moreover have "closed (levels (close_level l s) ! k)"
    if "t' < task_count s" "scope_level (tasks s ! t') = Some k" "status (tasks s ! t') \<in> {Closed, Settled}" for t' k
    using that s tree_scope [OF t that(1,2)] closed_level [of k s l] by (auto simp: sound_def turned_def)
  then have "turned (close_level l s)"
    using s unfolding sound_def turned_def by simp
  ultimately show ?thesis by (simp add: sound_def)
qed

text \<open>The level a call queues at: open unless it is the root, and started.\<close>

lemma open_level_props:
  assumes "tree s" "turned s"
  shows "l = 0 \<or> started_scope s l \<Longrightarrow> open_level (levels s) l < level_count s
    \<and> (open_level (levels s) l = 0 \<or> started_scope s (open_level (levels s) l) \<and> \<not> closed (levels s ! open_level (levels s) l))"
proof (induction l rule: less_induct)
  case (less l)
  show ?case
  proof (cases "l = 0")
    case True
    then have "open_level (levels s) l = 0" using assms(1) by (subst open_level.simps) (simp add: tree_def)
    then show ?thesis using assms(1) by (simp add: tree_def)
  next
    case False
    then obtain w where w: "w < task_count s" "scope_level (tasks s ! w) = Some l"
      using less.prems by (auto simp: started_scope_iff)
    let ?p = "queued_at (tasks s ! w)"
    have p: "?p < l" "l < level_count s" "parent (levels s ! l) = Some ?p" using tree_scope [OF assms(1) w] by auto
    have "?p = 0 \<or> started_scope s ?p" using assms(2) w(1) by (simp add: turned_def)
    from less.IH [OF p(1) this] show ?thesis
      using p less.prems False by (subst (1 2 3 4) open_level.simps) auto
  qed
qed

lemma sound_issued:
  assumes "sound s" "l < level_count s" "scope_of l sc ex s" "l = 0 \<or> started_scope s l"
  shows "sound (issued l sc ex s)"
  using assms tree_issued ordered_issued turned_issued unfolding sound_def by blast

lemma sound_event:
  assumes "sound s" "enabled e s"
  shows "sound (perform e s)"
proof -
  have s: "tree s" "ordered s" "turned s" using assms(1) by (simp_all add: sound_def)
  have status: "sound (set_status t st s')" if "sound s'" "t < task_count s'" "status (tasks s' ! t) \<noteq> Settled"
    "st \<noteq> Waiting" "has_turn s' t" "scope_level (tasks s' ! t) = None \<Longrightarrow> st \<noteq> Closed"
    "\<And>l. scope_level (tasks s' ! t) = Some l \<Longrightarrow> st \<in> {Closed, Settled} \<Longrightarrow> closed (levels s' ! l)" for s' t st
    using that tree_status ordered_status turned_status [of s' t st] by (auto simp: sound_def)
  have turn: "has_turn s t" if "t < task_count s" "status (tasks s ! t) \<noteq> Waiting" for t
    using s(3) that by (simp add: turned_def)
  show ?thesis
  proof (cases e)
    case (Run ctx)
    then show ?thesis using assms open_level_props [OF s(1,3), of ctx]
      by (auto simp: run_issued scope_of_def intro!: sound_issued)
  next
    case (Exclusive ctx)
    then show ?thesis using assms open_level_props [OF s(1,3), of ctx]
      by (auto simp: exclusive_issued scope_of_def intro!: sound_issued)
  next
    case (Start t)
    then show ?thesis using assms by (auto intro!: status)
  next
    case (Close t)
    then obtain l where t: "t < task_count s" "status (tasks s ! t) = Running" "scope_level (tasks s ! t) = Some l"
      using assms(2) by auto
    have "l < level_count s" using tree_scope [OF s(1) t(1,3)] by simp
    then have "sound (set_status t Closed (close_level l s))"
      using t turn [OF t(1)] assms(1) closed_level [of l s l]
      by (intro status sound_close) auto
    then show ?thesis using Close t by (simp add: close_level_def)
  next
    case (Settle t)
    then show ?thesis using assms turn [of t] s(3) by (auto intro!: status simp: turned_def split: if_splits)
  qed
qed

lemma sound_new: "sound new_turns"
  by (auto simp: sound_def tree_def ordered_def turned_def new_turns_def latest_def)

lemma reachable_sound: "reachable s \<Longrightarrow> sound s"
  by (induction rule: reachable.induct) (simp_all add: sound_new sound_event)

section \<open>The interface, provided\<close>

lemma fifo:
  assumes "sound s"
  shows "u < task_count s \<Longrightarrow> status (tasks s ! u) \<noteq> Waiting \<Longrightarrow> t < u \<Longrightarrow>
    queued_at (tasks s ! t) = queued_at (tasks s ! u) \<Longrightarrow> status (tasks s ! t) = Settled"
proof (induction u rule: less_induct)
  case (less u)
  have l: "latest (take u (tasks s)) (queued_at (tasks s ! u)) (waits_for (tasks s ! u))"
    using assms less.prems(1) by (simp add: sound_def ordered_def)
  have turn: "has_turn s u" using assms less.prems by (simp add: sound_def turned_def)
  show ?case
  proof (cases "waits_for (tasks s ! u)")
    case None then show ?thesis using l less.prems by (auto simp: latest_def)
  next
    case (Some v)
    then have v: "v < u" "queued_at (tasks s ! v) = queued_at (tasks s ! u)" "t \<le> v" "status (tasks s ! v) = Settled"
      using l turn less.prems by (auto simp: latest_def has_turn_def not_less [symmetric])
    then show ?thesis using less.IH [of v] less.prems by (cases "t = v") auto
  qed
qed

lemma awaited_settled:
  "awaited s \<Longrightarrow> t < task_count s \<Longrightarrow> scope_level (tasks s ! t) = Some l \<Longrightarrow> status (tasks s ! t) \<in> {Closed, Settled} \<Longrightarrow>
     u < task_count s \<Longrightarrow> queued_at (tasks s ! u) = l \<Longrightarrow> status (tasks s ! u) = Settled"
proof (induction arbitrary: t l u rule: awaited.induct)
  case start then show ?case by (simp add: new_turns_def)
next
  case (event s e)
  have s: "tree s" "turned s" using reachable_sound [OF awaited_reachable [OF event.hyps(1)]] by (simp_all add: sound_def)
  have issue: ?case if p: "perform e s = issued k sc ex s" and sc: "scope_of k sc ex s"
    and k: "k = 0 \<or> started_scope s k \<and> \<not> closed (levels s ! k)" for k sc ex
  proof -
    have t: "t < task_count s" "scope_level (tasks s ! t) = Some l" "status (tasks s ! t) \<in> {Closed, Settled}"
      using event.prems p by (auto simp: nth_append less_Suc_eq split: if_splits)
    have l: "0 < l" "closed (levels s ! l)" using tree_scope [OF s(1) t(1,2)] s(2) t by (auto simp: turned_def)
    show ?thesis
    proof (cases "u < task_count s")
      case True then show ?thesis using event.IH [OF t True] event.prems p by (simp add: nth_append)
    next
      case False
      then have "l = k" using event.prems p by (simp add: less_Suc_eq)
      then show ?thesis using l k by simp
    qed
  qed
  have status: ?case if p: "tasks (perform e s) = tasks (set_status v st s)" and v: "status (tasks s ! v) \<noteq> Settled"
    and st: "scope_level (tasks s ! v) = Some (queued_at (tasks s ! u)) \<Longrightarrow> st \<in> {Closed, Settled} \<Longrightarrow>
      status (tasks s ! v) \<noteq> Closed \<Longrightarrow> u < task_count s \<Longrightarrow> status (tasks s ! u) = Settled" for v st
  proof -
    have c: "t < task_count s" "u < task_count s" using event.prems(1,4) by (simp_all add: p)
    have t: "scope_level (tasks s ! t) = Some l" "queued_at (tasks s ! u) = l"
      using event.prems(2,5) c by (simp_all add: p set_status_task)
    have old: "status (tasks s ! u) = Settled"
    proof (cases "status (tasks s ! t) \<in> {Closed, Settled}")
      case True show ?thesis by (rule event.IH [OF c(1) t(1) True c(2) t(2)])
    next
      case False
      then have "t = v" "st \<in> {Closed, Settled}"
        using event.prems(3) c by (auto simp: p set_status_task split: if_splits)
      then show ?thesis using False t c(2) by (intro st) auto
    qed
    then have "u \<noteq> v" using v by auto
    then show ?thesis using old c by (simp add: p set_status_task)
  qed
  show ?case
  proof (cases e)
    case (Run ctx)
    then have "ctx = 0 \<or> started_scope s ctx" using event.hyps(2) by simp
    note at = open_level_props [OF s this]
    show ?thesis
      by (rule issue [of "open_level (levels s) ctx" None "[]"])
        (use Run at in \<open>auto simp: run_issued scope_of_def\<close>)
  next
    case (Exclusive ctx)
    then have "ctx = 0 \<or> started_scope s ctx" using event.hyps(2) by simp
    note at = open_level_props [OF s this]
    show ?thesis
      by (rule issue [of "open_level (levels s) ctx"])
        (use Exclusive at in \<open>auto simp: exclusive_issued scope_of_def\<close>)
  next
    case (Start v)
    then show ?thesis using event.hyps(2) by (intro status [of v Running]) auto
  next
    case (Close v)
    have p: "tasks (perform e s) = tasks (set_status v Closed s)"
      using Close by (simp add: set_status_def Let_def)
    show ?thesis
    proof (rule status [OF p])
      show "status (tasks s ! v) \<noteq> Settled" using event.hyps(2) Close by simp
      assume "scope_level (tasks s ! v) = Some (queued_at (tasks s ! u))" "u < task_count s"
      then show "status (tasks s ! u) = Settled"
        using event.hyps(3) Close by (simp add: list_all_length)
    qed
  next
    case (Settle v)
    then show ?thesis using event.hyps(2) by (intro status [of v Settled]) (auto split: if_splits)
  qed
qed

lemma level_parent_older:
  assumes "tree s" "level_parent s l = Some p"
  obtains w where "w < task_count s" "scope_level (tasks s ! w) = Some l" "queued_at (tasks s ! w) = p" "p < l"
proof -
  have l: "l < level_count s" "parent (levels s ! l) = Some p" using assms(2) by (auto simp: level_parent_def split: if_splits)
  then have "0 < l" using assms(1) by (cases "l = 0") (auto simp: tree_def)
  from tree_owner [OF assms(1) l(1) this] obtain w where w: "w < task_count s" "scope_level (tasks s ! w) = Some l" by blast
  then show thesis using that tree_scope [OF assms(1) w] l by auto
qed

lemma active_facts: "active s t \<Longrightarrow> t < task_count s \<and> status (tasks s ! t) \<noteq> Waiting \<and> status (tasks s ! t) \<noteq> Settled"
  by (auto simp: active_def)

interpretation turns: turn_taker awaited active task_level task_scope level_parent
proof
  fix s t u assume a: "awaited s" "active s t" "active s u" "task_level s t = task_level s u"
  then show "t = u"
    using fifo [OF reachable_sound [OF awaited_reachable [OF a(1)]], of t u]
      fifo [OF reachable_sound [OF awaited_reachable [OF a(1)]], of u t] active_facts
    by (metis linorder_neqE_nat task_level_def)
next
  fix s t p assume a: "awaited s" "active s t" "level_parent s (task_level s t) = Some p"
  have s: "tree s" "turned s" using reachable_sound [OF awaited_reachable [OF a(1)]] by (simp_all add: sound_def)
  obtain w where w: "w < task_count s" "scope_level (tasks s ! w) = Some (task_level s t)" "queued_at (tasks s ! w) = p" "p < task_level s t"
    using level_parent_older [OF s(1) a(3)] .
  have t: "t < task_count s" "status (tasks s ! t) \<noteq> Settled" using active_facts [OF a(2)] by simp_all
  have "started_scope s (task_level s t)" using s(2) t(1) w(4) by (auto simp: turned_def task_level_def)
  then have "status (tasks s ! w) \<noteq> Waiting"
    using tree_unique [OF s(1)] w by (auto simp: started_scope_iff)
  moreover have "status (tasks s ! w) \<notin> {Closed, Settled}"
    using awaited_settled [OF a(1) w(1,2) _ t(1)] t(2) by (auto simp: task_level_def)
  ultimately have "active s w" using w(1) by (cases "status (tasks s ! w)") (auto simp: active_def)
  then show "\<exists>u. active s u \<and> task_level s u = p \<and> task_scope s u = Some (task_level s t)"
    using w by (intro exI [of _ w]) (simp add: task_level_def task_scope_def)
next
  fix s t assume a: "awaited s" "active s t" "level_parent s (task_level s t) = None"
  have s: "tree s" using reachable_sound [OF awaited_reachable [OF a(1)]] by (simp add: sound_def)
  have l: "task_level s t < level_count s" using tree_queued [OF s] active_facts [OF a(2)] by (simp add: task_level_def)
  show "task_level s t = 0"
  proof (rule ccontr)
    assume "task_level s t \<noteq> 0"
    then obtain w where w: "w < task_count s" "scope_level (tasks s ! w) = Some (task_level s t)"
      using tree_owner [OF s l] by auto
    show False using tree_scope [OF s w] a(3) l by (simp add: level_parent_def)
  qed
next
  fix s l p assume a: "awaited s" "level_parent s l = Some p"
  have "tree s" using reachable_sound [OF awaited_reachable [OF a(1)]] by (simp add: sound_def)
  from level_parent_older [OF this a(2)] show "p < l" by blast
qed

section \<open>Alone on the connection\<close>

text \<open>Events up to a state, for the witnesses.\<close>

fun perform_all :: "turn_event list \<Rightarrow> turns \<Rightarrow> turns option" where
  "perform_all [] s = Some s"
| "perform_all (e # es) s = (if enabled e s \<and> awaits e s then perform_all es (perform e s) else None)"

lemma perform_all_awaited: "perform_all es s = Some s' \<Longrightarrow> awaited s \<Longrightarrow> awaited s'"
  by (induction es s rule: perform_all.induct) (auto intro: awaited.event split: if_splits)

text \<open>
  C9. In every run where scopes await what they started, two tasks on the connection at
  once are one inside the other's scope: a scope runs alone, and so does a statement.
\<close>

theorem scopes_run_alone:
  assumes "awaited s" "active s t" "active s u" "t \<noteq> u"
  shows "inside (level_parent s) (task_scope s) (task_level s) t u \<or> inside (level_parent s) (task_scope s) (task_level s) u t"
  using turns.nested [OF assms(1-3)] assms(4) by blast

definition nested_run :: "turn_event list" where
  "nested_run = [Exclusive 0, Run 0, Start 0, Exclusive 1, Run 1, Start 2, Run 2, Start 4]"

theorem scopes_run_alone_witness:
  "\<exists>s. perform_all nested_run new_turns = Some s \<and> active s 0 \<and> active s 4 \<and> \<not> active s 1 \<and> \<not> active s 3
     \<and> (inside (level_parent s) (task_scope s) (task_level s) 4 0 \<or> inside (level_parent s) (task_scope s) (task_level s) 0 4)"
proof -
  have "\<exists>s. perform_all nested_run new_turns = Some s \<and> active s 0 \<and> active s 4 \<and> \<not> active s 1 \<and> \<not> active s 3"
    by (simp add: nested_run_def new_turns_def run_def exclusive_def queue_def open_level.simps started_scope_def
        set_status_def has_turn_def active_def Let_def)
  then obtain s where s: "perform_all nested_run new_turns = Some s" "active s 0" "active s 4" "\<not> active s 1" "\<not> active s 3"
    by blast
  have "awaited s" by (rule perform_all_awaited [OF s(1) awaited.start])
  from scopes_run_alone [OF this s(3,2)] s show ?thesis by auto
qed

text \<open>
  Turns are taken in the order of the calls: at one level, whatever the callbacks
  do, a task that started had every task queued before it there settled.
\<close>

theorem turns_in_order:
  assumes "reachable s" "u < task_count s" "status (tasks s ! u) \<noteq> Waiting" "t < u" "task_level s t = task_level s u"
  shows "status (tasks s ! t) = Settled"
  using fifo [OF reachable_sound [OF assms(1)] assms(2-4)] assms(5) by (simp add: task_level_def)

definition two_statements :: "turn_event list" where
  "two_statements = [Run 0, Run 0, Start 0, Settle 0, Start 1]"

theorem turns_in_order_witness:
  "\<exists>s. perform_all two_statements new_turns = Some s \<and> status (tasks s ! 1) = Running \<and> status (tasks s ! 0) = Settled"
proof -
  have "\<exists>s. perform_all two_statements new_turns = Some s \<and> task_count s = 2 \<and> status (tasks s ! 1) = Running
      \<and> task_level s 0 = task_level s 1"
    by (simp add: two_statements_def new_turns_def run_def queue_def open_level.simps started_scope_def
        set_status_def has_turn_def task_level_def Let_def)
  then obtain s where s: "perform_all two_statements new_turns = Some s" "task_count s = 2" "status (tasks s ! 1) = Running"
    "task_level s 0 = task_level s 1"
    by blast
  have "reachable s" by (rule awaited_reachable [OF perform_all_awaited [OF s(1) awaited.start]])
  from turns_in_order [OF this, of 1 0] s show ?thesis by auto
qed

text \<open>
  Nobody waits for ever: while a task is not settled, one can start or end, and each
  such event leaves less to do, so the tasks issued so far all settle.
\<close>

fun issues :: "turn_event \<Rightarrow> bool" where
  "issues (Run _) \<longleftrightarrow> True"
| "issues (Exclusive _) \<longleftrightarrow> True"
| "issues _ \<longleftrightarrow> False"

fun to_do :: "task_status \<Rightarrow> nat" where
  "to_do Waiting = 3"
| "to_do Running = 2"
| "to_do Closed = 1"
| "to_do Settled = 0"

definition remaining :: "turns \<Rightarrow> nat" where
  "remaining s = sum_list (map (to_do \<circ> status) (tasks s))"

lemma remaining_status:
  assumes "t < task_count s" "to_do st < to_do (status (tasks s ! t))"
  shows "remaining (set_status t st s) < remaining s"
proof -
  have "map (to_do \<circ> status) (tasks (set_status t st s)) = (map (to_do \<circ> status) (tasks s))[t := to_do st]"
    by (simp add: set_status_def map_update)
  then show ?thesis using assms sum_list_update [of t "map (to_do \<circ> status) (tasks s)" "to_do st"]
      elem_le_sum_list [of t "map (to_do \<circ> status) (tasks s)"]
    by (simp add: remaining_def)
qed

lemma remaining_event: "enabled e s \<Longrightarrow> \<not> issues e \<Longrightarrow> remaining (perform e s) < remaining s"
proof (cases e)
  case (Close t)
  assume e: "enabled e s"
  have "remaining (perform e s) = remaining (set_status t Closed s)"
    using Close by (simp add: remaining_def set_status_def Let_def)
  then show ?thesis using e Close remaining_status [of t s Closed] by simp
qed (auto intro!: remaining_status split: if_splits)

lemma some_event:
  assumes "awaited s" "t < task_count s" "status (tasks s ! t) \<noteq> Settled"
  shows "\<exists>e. \<not> issues e \<and> enabled e s \<and> awaits e s"
proof -
  have s: "sound s" "tree s" "ordered s" "turned s"
    using reachable_sound [OF awaited_reachable [OF assms(1)]] by (simp_all add: sound_def)
  let ?U = "{t. t < task_count s \<and> status (tasks s ! t) \<noteq> Settled}"
  have f: "finite ?U" "?U \<noteq> {}" using assms by auto
  have "Max (task_level s ` ?U) \<in> task_level s ` ?U" using f by (intro Max_in) simp_all
  then obtain m where "m \<in> ?U" "Max (task_level s ` ?U) = task_level s m" by (rule imageE)
  then have m: "m \<in> ?U" "\<And>u. u \<in> ?U \<Longrightarrow> task_level s u \<le> task_level s m"
    using Max_ge [of "task_level s ` ?U"] f by auto
  define t where "t = (LEAST t. t \<in> ?U \<and> task_level s t = task_level s m)"
  have t: "t \<in> ?U" "task_level s t = task_level s m"
    and least: "\<And>u. u \<in> ?U \<Longrightarrow> task_level s u = task_level s m \<Longrightarrow> t \<le> u"
    using LeastI [of "\<lambda>t. t \<in> ?U \<and> task_level s t = task_level s m" m] m(1)
      Least_le [of "\<lambda>t. t \<in> ?U \<and> task_level s t = task_level s m"] unfolding t_def by auto
  have n: "t < task_count s" using t by simp
  show ?thesis
  proof (cases "status (tasks s ! t)")
    case Waiting
    have "has_turn s t"
    proof (cases "waits_for (tasks s ! t)")
      case (Some v)
      have "latest (take t (tasks s)) (queued_at (tasks s ! t)) (Some v)"
        using s(3) n Some unfolding ordered_def by metis
      then have v: "v < t" "task_level s v = task_level s t" using n by (auto simp: latest_def task_level_def)
      then have "v \<notin> ?U" using least [of v] t(2) by auto
      then show ?thesis using v(1) n Some by (simp add: has_turn_def)
    qed (simp add: has_turn_def)
    then show ?thesis using n Waiting by (intro exI [of _ "Start t"]) simp
  next
    case Running
    show ?thesis
    proof (cases "scope_level (tasks s ! t)")
      case None then show ?thesis using n Running by (intro exI [of _ "Settle t"]) simp
    next
      case (Some k)
      have "task_level s t < k" using tree_scope [OF s(2) n Some] by (simp add: task_level_def)
      then have "status (tasks s ! u) = Settled" if "u < task_count s" "queued_at (tasks s ! u) = k" for u
        using that m(2) [of u] t(2) by (auto simp: task_level_def)
      then show ?thesis using n Running Some by (intro exI [of _ "Close t"]) (simp add: list_all_length)
    qed
  next
    case Closed
    then have "scope_level (tasks s ! t) \<noteq> None" using s(4) n by (auto simp: turned_def)
    then show ?thesis using n Closed by (intro exI [of _ "Settle t"]) simp
  next
    case Settled then show ?thesis using t by simp
  qed
qed



text \<open>
  A scope that ends before its work does is not alone any more: after a scope whose
  callback rejects while a nested scope still runs, the next statement of the
  transaction is sent inside that nested scope's window.
\<close>

definition abandoned_run :: "turn_event list" where
  "abandoned_run = [Exclusive 0, Run 0, Start 0, Exclusive 1, Start 2, Close 0, Settle 0, Start 1]"

definition abandoned_state :: turns where
  "abandoned_state = fold perform abandoned_run new_turns"

fun all_enabled :: "turn_event list \<Rightarrow> turns \<Rightarrow> bool" where
  "all_enabled [] s \<longleftrightarrow> True"
| "all_enabled (e # es) s \<longleftrightarrow> enabled e s \<and> all_enabled es (perform e s)"

lemma fold_reachable: "all_enabled es s \<Longrightarrow> reachable s \<Longrightarrow> reachable (fold perform es s)"
  by (induction es arbitrary: s) (auto intro: reachable.event)

inductive_simps below_iff: "below up l m"

theorem abandoned_scope_is_not_alone:
  "reachable abandoned_state \<and> active abandoned_state 1 \<and> active abandoned_state 2
   \<and> task_scope abandoned_state 2 = Some 2
   \<and> \<not> inside (level_parent abandoned_state) (task_scope abandoned_state) (task_level abandoned_state) 1 2
   \<and> \<not> inside (level_parent abandoned_state) (task_scope abandoned_state) (task_level abandoned_state) 2 1"
proof -
  note steps = abandoned_run_def new_turns_def run_def exclusive_def queue_def open_level.simps started_scope_def
    set_status_def has_turn_def Let_def
  have "all_enabled abandoned_run new_turns" by (simp add: steps)
  then have r: "reachable abandoned_state"
    unfolding abandoned_state_def by (rule fold_reachable) (rule reachable.start)
  have l: "active abandoned_state 1" "active abandoned_state 2" "task_scope abandoned_state 2 = Some 2"
    "task_scope abandoned_state 1 = None" "task_level abandoned_state 1 = 0" "level_parent abandoned_state 0 = None"
    by (simp_all add: abandoned_state_def steps active_def task_scope_def task_level_def level_parent_def)
  have "\<not> below (level_parent abandoned_state) 2 0" by (subst below_iff) (simp add: l(6))
  then show ?thesis using r l by (simp add: inside_def)
qed

end
