(* ===== verification/RateWindows.thy ===== *)
theory RateWindows
  imports Prelude "HOL-Library.List_Lexorder" "HOL-Library.Product_Lexorder" "HOL-Library.Multiset"
begin

text \<open>
  The counters of \<open>middleware/rate-limit.ts\<close>: the sliding window that runs as one
  script in the cache, and the fixed window kept in memory when there is no cache.
  Times are milliseconds, integers; the time of a call is an argument.
\<close>

section \<open>The sliding window\<close>

text \<open>A sorted set by score, then member, and the time its key expires.\<close>

type_synonym zset = "(int \<times> string) list"

record bucket =
  entries :: zset
  expires :: int

definition zadd :: "int \<Rightarrow> string \<Rightarrow> zset \<Rightarrow> zset" where
  "zadd score m zs = insort (score, m) (filter (\<lambda>e. snd e \<noteq> m) zs)"

definition zremrangebyscore :: "int \<Rightarrow> int \<Rightarrow> zset \<Rightarrow> zset" where
  "zremrangebyscore lo hi zs = filter (\<lambda>e. \<not> (lo \<le> fst e \<and> fst e \<le> hi)) zs"

definition live_entries :: "int \<Rightarrow> bucket \<Rightarrow> zset" where
  "live_entries now b = (if expires b \<le> now then [] else entries b)"

text \<open>The script: the set it leaves, how many it holds, and 0 or the score whose expiry admits.\<close>

definition SLIDING_WINDOW_LUA :: "int \<Rightarrow> int \<Rightarrow> nat \<Rightarrow> string \<Rightarrow> bool \<Rightarrow> bucket \<Rightarrow> bucket \<times> nat \<times> int" where
  "SLIDING_WINDOW_LUA now window limit m keepRefused b =
    (let kept = zremrangebyscore 0 (now - window) (live_entries now b);
         admit = length kept < limit;
         b' = (if admit \<or> keepRefused then \<lparr> entries = zadd now m kept, expires = now + window \<rparr>
               else \<lparr> entries = kept, expires = expires b \<rparr>);
         n = (if admit \<or> keepRefused then length kept + 1 else length kept)
     in if admit then (b', n, 0)
        else (b', n, (case drop (n - limit) (entries b') of [] \<Rightarrow> now | e # _ \<Rightarrow> fst e)))"

definition secondsUntil :: "int \<Rightarrow> int \<Rightarrow> int" where
  "secondsUntil freesAt now = max 1 (- ((now - freesAt) div 1000))"

definition slidingWindow :: "int \<Rightarrow> int \<Rightarrow> nat \<Rightarrow> string \<Rightarrow> bool \<Rightarrow> bucket \<Rightarrow> bucket \<times> nat \<times> int" where
  "slidingWindow now windowMs limit m keepRefused b =
    (let (b', count, freeing) = SLIDING_WINDOW_LUA now windowMs limit m keepRefused b
     in (b', count, if freeing \<noteq> 0 then secondsUntil (freeing + windowMs) now else 0))"

section \<open>The window in memory\<close>

record mem_entry =
  count :: nat
  windowStart :: int
  windowMs :: int

record memory =
  memoryStore :: "string \<rightharpoonup> mem_entry"
  lastCleanup :: int

definition CLEANUP_INTERVAL :: int where "CLEANUP_INTERVAL = 60000"

definition sweep :: "int \<Rightarrow> memory \<Rightarrow> memory" where
  "sweep now s = (if now - lastCleanup s > CLEANUP_INTERVAL
     then \<lparr> memoryStore = (\<lambda>k. case memoryStore s k of
              None \<Rightarrow> None
            | Some e \<Rightarrow> if windowStart e + windowMs e < now then None else Some e),
            lastCleanup = now \<rparr>
     else s)"

definition memoryRateLimit :: "int \<Rightarrow> string \<Rightarrow> int \<Rightarrow> nat \<Rightarrow> bool \<Rightarrow> memory \<Rightarrow> memory \<times> int" where
  "memoryRateLimit now key window limit countRefused s0 =
    (let s = sweep now s0; fresh = \<lparr> count = 1, windowStart = now, windowMs = window \<rparr>;
         put = (\<lambda>e. s\<lparr> memoryStore := (memoryStore s)(key \<mapsto> e) \<rparr>)
     in case memoryStore s key of
          None \<Rightarrow> (put fresh, 0)
        | Some entry \<Rightarrow>
            if windowStart entry < now - window then (put fresh, 0)
            else (let wait = secondsUntil (windowStart entry + window) now in
              if \<not> countRefused \<and> limit \<le> count entry then (s, wait)
              else (put (entry\<lparr> count := count entry + 1 \<rparr>),
                    if count entry + 1 \<le> limit then 0 else wait)))"

section \<open>The sliding window, abstractly\<close>

text \<open>
  The promise: a request is admitted exactly when fewer than \<open>limit\<close> recorded ones lie
  in the window that ends at it.  The history holds every request the window records.
\<close>

definition recent :: "int \<Rightarrow> int list \<Rightarrow> nat" where
  "recent since ts = length (filter (\<lambda>s. since < s) ts)"

fun promised :: "int \<Rightarrow> nat \<Rightarrow> bool \<Rightarrow> int list \<Rightarrow> int list \<Rightarrow> bool list" where
  "promised window limit keep hist [] = []"
| "promised window limit keep hist (now # ts) =
    (let admit = recent (now - window) hist < limit
     in admit # promised window limit keep (if admit \<or> keep then now # hist else hist) ts)"

fun answers :: "int \<Rightarrow> nat \<Rightarrow> bool \<Rightarrow> bucket \<Rightarrow> (int \<times> string) list \<Rightarrow> bool list" where
  "answers window limit keep b [] = []"
| "answers window limit keep b ((now, m) # rs) =
    (let (b', n, wait) = slidingWindow now window limit m keep b
     in (wait = 0) # answers window limit keep b' rs)"

lemma secondsUntil_pos: "1 \<le> secondsUntil a b"
  by (simp add: secondsUntil_def)

lemma secondsUntil_enough: "a \<le> b + 1000 * secondsUntil a b"
proof -
  have "(b - a) div 1000 * 1000 \<le> b - a" using div_mult_mod_eq [of "b - a" 1000] pos_mod_sign [of 1000 "b - a"] by linarith
  then show ?thesis unfolding secondsUntil_def by linarith
qed

definition tracks :: "int \<Rightarrow> int \<Rightarrow> bucket \<Rightarrow> int list \<Rightarrow> bool" where
  "tracks window lst b hist \<longleftrightarrow>
     mset (filter (\<lambda>s. lst - window < s) (map fst (entries b))) = mset (filter (\<lambda>s. lst - window < s) hist)
     \<and> (\<forall>e \<in> set (entries b). 0 < fst e \<and> fst e \<le> lst \<and> fst e + window \<le> expires b)
     \<and> (\<forall>s \<in> set hist. s \<le> lst) \<and> sorted (entries b)"

lemma filter_later:
  assumes "(l::int) \<le> l'" "mset (filter (\<lambda>s. l < s) xs) = mset (filter (\<lambda>s. l < s) ys)"
  shows "mset (filter (\<lambda>s. l' < s) xs) = mset (filter (\<lambda>s. l' < s) ys)"
proof -
  have "mset (filter (\<lambda>s. l' < s) zs) = filter_mset (\<lambda>s. l' < s) (mset (filter (\<lambda>s. l < s) zs))" for zs :: "int list"
    using assms(1) by (simp add: filter_filter_mset) (rule filter_mset_cong, auto)
  then show ?thesis using assms(2) by simp
qed

lemma kept_entries:
  assumes "tracks window lst b hist" "lst \<le> now"
  shows "zremrangebyscore 0 (now - window) (live_entries now b) = filter (\<lambda>e. now - window < fst e) (entries b)"
proof -
  have p: "\<forall>e \<in> set (entries b). 0 < fst e \<and> fst e + window \<le> expires b" using assms by (simp add: tracks_def)
  show ?thesis
  proof (cases "expires b \<le> now")
    case True
    then have "filter (\<lambda>e. now - window < fst e) (entries b) = []" using p by (fastforce simp: filter_empty_conv)
    then show ?thesis using True by (simp add: zremrangebyscore_def live_entries_def)
  next
    case False
    have "filter (\<lambda>e. \<not> (0 \<le> fst e \<and> fst e \<le> now - window)) (entries b) = filter (\<lambda>e. now - window < fst e) (entries b)"
      using p by (intro filter_cong) auto
    then show ?thesis using False by (simp add: zremrangebyscore_def live_entries_def)
  qed
qed

lemma kept_recent:
  assumes "tracks window lst b hist" "lst \<le> now"
  shows "mset (map fst (filter (\<lambda>e. now - window < fst e) (entries b))) = mset (filter (\<lambda>s. now - window < s) hist)"
    "length (filter (\<lambda>e. now - window < fst e) (entries b)) = recent (now - window) hist"
proof -
  have "mset (filter (\<lambda>s. now - window < s) (map fst (entries b))) = mset (filter (\<lambda>s. now - window < s) hist)"
    by (rule filter_later [of "lst - window"]) (use assms in \<open>simp_all add: tracks_def\<close>)
  then show m: "mset (map fst (filter (\<lambda>e. now - window < fst e) (entries b))) = mset (filter (\<lambda>s. now - window < s) hist)"
    by (simp add: filter_map o_def)
  from arg_cong [OF m, of size] show "length (filter (\<lambda>e. now - window < fst e) (entries b)) = recent (now - window) hist"
    unfolding recent_def by (simp only: size_mset length_map)
qed

lemma step_tracks:
  assumes t: "tracks window lst b hist" and le: "lst \<le> now" "0 < now" "0 \<le> window"
    and fresh: "m \<notin> snd ` set (entries b)"
    and step: "slidingWindow now window limit m keep b = (b', n, wait)"
  shows "wait = 0 \<longleftrightarrow> recent (now - window) hist < limit"
    "tracks window now b' (if recent (now - window) hist < limit \<or> keep then now # hist else hist)"
    "snd ` set (entries b') \<subseteq> insert m (snd ` set (entries b))"
proof -
  let ?k = "filter (\<lambda>e. now - window < fst e) (entries b)"
  let ?admit = "recent (now - window) hist < limit"
  have k: "zremrangebyscore 0 (now - window) (live_entries now b) = ?k" by (rule kept_entries [OF t le(1)])
  have len: "length ?k = recent (now - window) hist" by (rule kept_recent(2) [OF t le(1)])
  have pos: "\<forall>e \<in> set (entries b). 0 < fst e" using t by (simp add: tracks_def)
  have "filter (\<lambda>e. snd e \<noteq> m) ?k = ?k" using fresh by (intro filter_True) force
  then have z: "zadd now m ?k = insort (now, m) ?k" by (simp only: zadd_def)
  obtain freeing where lua: "SLIDING_WINDOW_LUA now window limit m keep b = (b', n, freeing)"
    and w: "wait = (if freeing \<noteq> 0 then secondsUntil (freeing + window) now else 0)"
    using step by (auto simp: slidingWindow_def Let_def split: prod.splits)
  have b': "b' = (if ?admit \<or> keep then \<lparr> entries = insort (now, m) ?k, expires = now + window \<rparr>
      else \<lparr> entries = ?k, expires = expires b \<rparr>)"
    using lua by (auto simp: SLIDING_WINDOW_LUA_def Let_def k len z split: if_splits)
  have set': "set (entries b') \<subseteq> insert (now, m) (set ?k)"
    by (auto simp: b' set_insort_key)
  have "freeing = 0 \<longleftrightarrow> ?admit"
  proof (cases ?admit)
    case True then show ?thesis using lua by (simp add: SLIDING_WINDOW_LUA_def Let_def k len)
  next
    case False
    then have f: "freeing = (case drop (n - limit) (entries b') of [] \<Rightarrow> now | e # _ \<Rightarrow> fst e)"
      using lua by (auto simp: SLIDING_WINDOW_LUA_def Let_def k len split: if_splits)
    have "0 < fst e" if "e \<in> set (entries b')" for e using that set' pos le(2) by auto
    moreover have "hd (drop (n - limit) (entries b')) \<in> set (entries b')" if "drop (n - limit) (entries b') \<noteq> []"
      using that hd_in_set [OF that] by (meson in_set_dropD)
    ultimately have "0 < freeing" using f le(2) by (cases "drop (n - limit) (entries b')") auto
    then show ?thesis using False by simp
  qed
  then show "wait = 0 \<longleftrightarrow> ?admit" using w secondsUntil_pos [of "freeing + window" now] by auto
  show "snd ` set (entries b') \<subseteq> insert m (snd ` set (entries b))" using set' by fastforce
  have "mset (map fst (entries b')) = mset (filter (\<lambda>s. now - window < s) hist) + (if ?admit \<or> keep then {#now#} else {#})"
    using kept_recent(1) [OF t le(1)] by (simp add: b' mset_insort)
  moreover have "filter (\<lambda>s. now - window < s) (map fst (entries b')) = filter (\<lambda>s. now - window < s) (map fst (entries b'))" ..
  ultimately have "mset (filter (\<lambda>s. now - window < s) (map fst (entries b')))
      = mset (filter (\<lambda>s. now - window < s) (if ?admit \<or> keep then now # hist else hist))"
    by (simp add: mset_filter filter_filter_mset del: mset_map split: if_splits)
  moreover have "\<forall>e \<in> set (entries b'). 0 < fst e \<and> fst e \<le> now \<and> fst e + window \<le> expires b'"
    using t le set' by (fastforce simp: tracks_def b')
  moreover have "sorted (entries b')"
    using t by (auto simp: b' tracks_def sorted_insort intro: sorted_wrt_filter)
  ultimately show "tracks window now b' (if ?admit \<or> keep then now # hist else hist)"
    using t le by (fastforce simp: tracks_def)
qed

section \<open>What the sliding window promises\<close>

text \<open>Requests in time order, each with its own member.\<close>

definition in_order :: "int \<Rightarrow> (int \<times> string) list \<Rightarrow> bool" where
  "in_order lst rs \<longleftrightarrow> sorted (lst # map fst rs) \<and> distinct (map snd rs)"

lemma in_order_Cons [simp]: "in_order lst ((now, m) # rs) \<longleftrightarrow> lst \<le> now \<and> in_order now rs \<and> m \<notin> snd ` set rs"
  by (auto simp: in_order_def)

lemma answers_promised_from:
  assumes "0 \<le> window"
  shows "tracks window lst b hist \<Longrightarrow> in_order lst rs \<Longrightarrow> 0 < lst \<or> (\<forall>r \<in> set rs. 0 < fst r) \<Longrightarrow>
    snd ` set (entries b) \<inter> snd ` set rs = {} \<Longrightarrow>
    answers window limit keep b rs = promised window limit keep hist (map fst rs)"
proof (induction rs arbitrary: lst b hist)
  case (Cons r rs)
  obtain now m where r: "r = (now, m)" by fastforce
  obtain b' n wait where s: "slidingWindow now window limit m keep b = (b', n, wait)" by (metis prod_cases3)
  have le: "lst \<le> now" "0 < now" and fresh: "m \<notin> snd ` set (entries b)"
    using Cons.prems by (auto simp: r)
  note step = step_tracks [OF Cons.prems(1) le assms fresh s]
  have "answers window limit keep b' rs
      = promised window limit keep (if recent (now - window) hist < limit \<or> keep then now # hist else hist) (map fst rs)"
  proof (rule Cons.IH [OF step(2)])
    have "m \<notin> snd ` set rs" "snd ` set (entries b) \<inter> snd ` set rs = {}" using Cons.prems(2,4) by (auto simp: r)
    then show "snd ` set (entries b') \<inter> snd ` set rs = {}" using step(3) by blast
  qed (use Cons.prems(2) le in \<open>auto simp: r\<close>)
  then show ?case using step(1) by (simp add: r s Let_def)
qed simp

definition empty_bucket :: bucket where
  "empty_bucket = \<lparr> entries = [], expires = 0 \<rparr>"

text \<open>
  The script in the cache is a true sliding window: from an empty key, it admits a
  request exactly when fewer than the limit of the recorded requests (the admitted
  ones, or all when refusals are kept) lie in the window that ends at it.
\<close>

theorem sliding_window_refines:
  assumes "0 \<le> window" "in_order 0 rs" "\<forall>r \<in> set rs. 0 < fst r"
  shows "answers window limit keep empty_bucket rs = promised window limit keep [] (map fst rs)"
  by (rule answers_promised_from [of window 0])
     (use assms in \<open>auto simp: tracks_def empty_bucket_def\<close>)

theorem sliding_window_refines_witness:
  "answers 60 2 False empty_bucket [(1, ''a''), (2, ''b''), (3, ''c''), (62, ''d'')] = [True, True, False, True]"
proof -
  have "answers 60 2 False empty_bucket [(1, ''a''), (2, ''b''), (3, ''c''), (62, ''d'')]
      = promised 60 2 False [] (map fst [(1, ''a''), (2, ''b''), (3, ''c''), (62, ''d'')])"
    by (rule sliding_window_refines) (simp_all add: in_order_def)
  then show ?thesis by (simp add: recent_def)
qed

text \<open>The times of the admitted requests.\<close>

definition admitted :: "bool list \<Rightarrow> int list \<Rightarrow> int list" where
  "admitted as ts = map snd (filter fst (zip as ts))"

lemma recent_append: "recent x (as @ bs) = recent x as + recent x bs"
  by (simp add: recent_def)

lemma recent_mono: "x \<le> y \<Longrightarrow> recent y ts \<le> recent x ts"
  unfolding recent_def by (induction ts) auto

text \<open>Of the history and the answers to come, no window holds more than the limit.\<close>

definition within :: "int \<Rightarrow> int \<Rightarrow> int list \<Rightarrow> nat" where
  "within a b ts = length (filter (\<lambda>s. a < s \<and> s \<le> b) ts)"

lemma within_recent: "x \<le> a \<Longrightarrow> within a b ts \<le> recent x ts"
  unfolding within_def recent_def by (induction ts) auto

lemma promised_bound:
  assumes "0 < window"
  shows "sorted (lst # ts) \<Longrightarrow> \<forall>s \<in> set hist. s \<le> lst \<Longrightarrow>
    (\<And>s. s \<in> set adm \<Longrightarrow> s \<le> lst) \<Longrightarrow> (\<And>x. recent x adm \<le> recent x hist) \<Longrightarrow>
    (\<And>t. within (t - window) t adm \<le> limit) \<Longrightarrow>
    within (t - window) t (adm @ admitted (promised window limit keep hist ts) ts) \<le> limit"
proof (induction ts arbitrary: lst hist adm)
  case Nil then show ?case by (simp add: admitted_def)
next
  case (Cons now ts)
  let ?admit = "recent (now - window) hist < limit"
  let ?hist = "if ?admit \<or> keep then now # hist else hist"
  let ?adm = "if ?admit then adm @ [now] else adm"
  have le: "lst \<le> now" using Cons.prems(1) by simp
  have old: "\<And>s. s \<in> set adm \<Longrightarrow> s \<le> now" using Cons.prems(3) le by fastforce
  have bound: "within (u - window) u ?adm \<le> limit" for u
  proof (cases "?admit \<and> u - window < now \<and> now \<le> u")
    case True
    have "within (u - window) u adm \<le> recent (now - window) adm"
      by (rule within_recent) (use True in simp)
    also have "\<dots> \<le> recent (now - window) hist" by (rule Cons.prems(4))
    finally show ?thesis using True by (simp add: within_def)
  next
    case False then show ?thesis using Cons.prems(5) [of u] by (auto simp: within_def)
  qed
  have "within (t - window) t (?adm @ admitted (promised window limit keep ?hist ts) ts) \<le> limit"
  proof (rule Cons.IH [of now])
    show "recent x ?adm \<le> recent x ?hist" for x
      using Cons.prems(4) [of x] by (auto simp: recent_def)
  next
    show "s \<le> now" if "s \<in> set ?adm" for s using that old by (auto split: if_splits)
  qed (use Cons.prems(1,2) le bound in auto)
  then show ?case by (cases keep) (simp_all add: admitted_def Let_def split: if_splits)
qed

text \<open>
  C11. No window of that length, wherever it is put, holds more than the limit of
  admitted requests, whether refusals are recorded or not.
\<close>

theorem sliding_window_bound:
  assumes "0 < window" "in_order 0 rs" "\<forall>r \<in> set rs. 0 < fst r"
  shows "within (t - window) t (admitted (answers window limit keep empty_bucket rs) (map fst rs)) \<le> limit"
proof -
  have "answers window limit keep empty_bucket rs = promised window limit keep [] (map fst rs)"
    by (rule answers_promised_from [of window 0])
       (use assms in \<open>auto simp: tracks_def empty_bucket_def\<close>)
  then show ?thesis
    using promised_bound [OF assms(1), of 0 "map fst rs" "[]" "[]" limit t keep] assms(2)
    by (simp add: in_order_def within_def recent_def)
qed

theorem sliding_window_bound_witness:
  "within (61 - 60) 61 (admitted (answers 60 2 True empty_bucket [(1, ''a''), (2, ''b''), (3, ''c''), (61, ''d'')]) [1, 2, 3, 61]) \<le> 2"
  using sliding_window_bound [of 60 "[(1, ''a''), (2, ''b''), (3, ''c''), (61, ''d'')]" 61 2 True]
  by (simp add: in_order_def)

lemma length_filter_mono: "(\<And>x. x \<in> set xs \<Longrightarrow> P x \<Longrightarrow> Q x) \<Longrightarrow> length (filter P xs) \<le> length (filter Q xs)"
  by (induction xs) auto

lemma frees_enough:
  assumes "sorted zs" "drop k zs = e # rest"
  shows "length (filter (\<lambda>x. fst e < fst x) zs) < length zs - k"
proof -
  have "sorted (take k zs @ e # rest)" using assms by (metis append_take_drop_id)
  then have s: "\<forall>x \<in> set (take k zs). fst x \<le> fst e" by (fastforce simp: sorted_append less_eq_prod_def)
  have "filter (\<lambda>x. fst e < fst x) (take k zs) = []" using s by (auto simp: filter_empty_conv not_less)
  moreover have "filter (\<lambda>x. fst e < fst x) zs
      = filter (\<lambda>x. fst e < fst x) (take k zs) @ filter (\<lambda>x. fst e < fst x) (drop k zs)"
    by (simp add: filter_append [symmetric] del: filter_append)
  ultimately have "length (filter (\<lambda>x. fst e < fst x) zs) \<le> length rest" using assms(2) by simp
  also have "length rest < length zs - k" using arg_cong [OF assms(2), of length] by simp
  finally show ?thesis .
qed

text \<open>
  \<open>Retry-After\<close> is honest: a request refused with a wait is admitted by the same
  key once that many seconds have passed with no request in between.
\<close>

theorem retry_after_is_honest:
  assumes "sorted (entries b)" "\<forall>e \<in> set (entries b). 0 < fst e \<and> fst e \<le> now" "0 < now" "0 < limit" "0 < window"
    and "slidingWindow now window limit m keep b = (b', n, wait)" "wait \<noteq> 0" "now + 1000 * wait \<le> later"
  shows "snd (snd (slidingWindow later window limit m' keep' b')) = 0"
proof -
  obtain freeing where lua: "SLIDING_WINDOW_LUA now window limit m keep b = (b', n, freeing)"
    and w: "wait = (if freeing \<noteq> 0 then secondsUntil (freeing + window) now else 0)"
    using assms(6) by (auto simp: slidingWindow_def Let_def split: prod.splits)
  let ?k = "zremrangebyscore 0 (now - window) (live_entries now b)"
  have k: "sorted ?k" "\<forall>e \<in> set ?k. 0 < fst e \<and> fst e \<le> now"
    using assms(1,2) by (auto simp: zremrangebyscore_def live_entries_def intro: sorted_wrt_filter)
  have refused: "limit \<le> length ?k" using lua w assms(7) by (auto simp: SLIDING_WINDOW_LUA_def Let_def split: if_splits)
  then have b': "entries b' = (if keep then zadd now m ?k else ?k)" and n: "n = (if keep then length ?k + 1 else length ?k)"
    and f: "freeing = (case drop (n - limit) (entries b') of [] \<Rightarrow> now | e # _ \<Rightarrow> fst e)"
    using lua by (auto simp: SLIDING_WINDOW_LUA_def Let_def)
  have sb: "sorted (entries b')" and len: "length (entries b') \<le> n" and pos: "\<forall>e \<in> set (entries b'). 0 < fst e \<and> fst e \<le> now"
    using k assms(3) by (auto simp: b' n zadd_def set_insort_key intro: sorted_insort [THEN iffD2] sorted_wrt_filter)
  have few: "length (filter (\<lambda>e. freeing < fst e) (entries b')) < limit"
  proof (cases "drop (n - limit) (entries b')")
    case Nil
    then have "filter (\<lambda>e. freeing < fst e) (entries b') = []" using f pos by (auto simp: filter_empty_conv not_less)
    then show ?thesis using assms(4) by simp
  next
    case (Cons e rest)
    have "limit \<le> n" using refused n by simp
    then show ?thesis using frees_enough [OF sb Cons] f Cons len by simp
  qed
  have "0 < freeing" using f pos assms(3)
  proof (cases "drop (n - limit) (entries b')")
    case (Cons e rest)
    then have "e \<in> set (entries b')" by (metis in_set_dropD list.set_intros(1))
    then show ?thesis using f Cons pos by simp
  qed simp
  then have "freeing + window \<le> later"
    using w secondsUntil_enough [of "freeing + window" now] assms(8) by simp
  then have "length (zremrangebyscore 0 (later - window) (live_entries later b')) \<le> length (filter (\<lambda>e. freeing < fst e) (entries b'))"
    using pos unfolding zremrangebyscore_def live_entries_def
    by (auto intro!: length_filter_mono)
  then have "length (zremrangebyscore 0 (later - window) (live_entries later b')) < limit" using few by simp
  then show ?thesis by (simp add: slidingWindow_def SLIDING_WINDOW_LUA_def Let_def split: prod.splits)
qed

theorem retry_after_is_honest_witness:
  "slidingWindow 2000 60000 1 ''b'' False \<lparr> entries = [(1000, ''a'')], expires = 61000 \<rparr>
     = (\<lparr> entries = [(1000, ''a'')], expires = 61000 \<rparr>, 1, 59)
   \<and> snd (snd (slidingWindow (2000 + 1000 * 59) 60000 1 ''c'' False \<lparr> entries = [(1000, ''a'')], expires = 61000 \<rparr>)) = 0"
proof
  show s: "slidingWindow 2000 60000 1 ''b'' False \<lparr> entries = [(1000, ''a'')], expires = 61000 \<rparr>
     = (\<lparr> entries = [(1000, ''a'')], expires = 61000 \<rparr>, 1, 59)"
    by (simp add: slidingWindow_def SLIDING_WINDOW_LUA_def live_entries_def zremrangebyscore_def secondsUntil_def Let_def)
  show "snd (snd (slidingWindow (2000 + 1000 * 59) 60000 1 ''c'' False \<lparr> entries = [(1000, ''a'')], expires = 61000 \<rparr>)) = 0"
    by (rule retry_after_is_honest [OF _ _ _ _ _ s]) simp_all
qed

section \<open>What the window in memory promises\<close>

text \<open>
  The promise for one key: a counter of its own, started anew by the first call after
  its window.  The store keeps every key's counter, less those it swept.
\<close>

definition counter_step :: "int \<Rightarrow> int \<Rightarrow> nat \<Rightarrow> bool \<Rightarrow> (nat \<times> int) option \<Rightarrow> (nat \<times> int) \<times> int" where
  "counter_step now window limit countRefused c = (case c of
     None \<Rightarrow> ((1, now), 0)
   | Some (n, ws) \<Rightarrow>
      if ws < now - window then ((1, now), 0)
      else (let wait = secondsUntil (ws + window) now in
        if \<not> countRefused \<and> limit \<le> n then ((n, ws), wait)
        else ((n + 1, ws), if n + 1 \<le> limit then 0 else wait)))"

fun counter_run :: "int \<Rightarrow> nat \<Rightarrow> bool \<Rightarrow> (nat \<times> int) option \<Rightarrow> int list \<Rightarrow> int list" where
  "counter_run window limit cr c [] = []"
| "counter_run window limit cr c (now # ts) =
    (let (c', wait) = counter_step now window limit cr c in wait # counter_run window limit cr (Some c') ts)"

text \<open>Every key with a window, a limit and a way to count of its own.\<close>

record key_policy =
  kp_window :: int
  kp_limit :: nat
  kp_countRefused :: bool

fun memory_run :: "(string \<Rightarrow> key_policy) \<Rightarrow> memory \<Rightarrow> (int \<times> string) list \<Rightarrow> (string \<times> int) list" where
  "memory_run P s [] = []"
| "memory_run P s ((now, key) # rs) =
    (let (s', wait) = memoryRateLimit now key (kp_window (P key)) (kp_limit (P key)) (kp_countRefused (P key)) s
     in (key, wait) # memory_run P s' rs)"

text \<open>The store holds a key's counter, or has swept it when its window was over.\<close>

definition represents :: "key_policy \<Rightarrow> int \<Rightarrow> mem_entry option \<Rightarrow> (nat \<times> int) option \<Rightarrow> bool" where
  "represents p now e c \<longleftrightarrow> (case e of
     Some e \<Rightarrow> c = Some (count e, windowStart e) \<and> windowMs e = kp_window p
   | None \<Rightarrow> (case c of None \<Rightarrow> True | Some (n, ws) \<Rightarrow> ws + kp_window p < now))"

lemma represents_later: "represents p now e c \<Longrightarrow> now \<le> later \<Longrightarrow> represents p later e c"
  by (auto simp: represents_def split: option.splits)

lemma sweep_represents:
  assumes "represents p now (memoryStore s k) c"
  shows "represents p now (memoryStore (sweep now s) k) c"
  using assms by (auto simp: sweep_def represents_def split: option.splits)

lemma memory_other_key:
  assumes "memoryRateLimit now key window limit cr s = (s', wait)" "k \<noteq> key"
  shows "memoryStore s' k = memoryStore (sweep now s) k"
  using assms by (auto simp: memoryRateLimit_def Let_def split: option.splits if_splits)

lemma memory_own_key:
  assumes "represents (P key) now (memoryStore s key) c"
    "memoryRateLimit now key (kp_window (P key)) (kp_limit (P key)) (kp_countRefused (P key)) s = (s', wait)"
    "counter_step now (kp_window (P key)) (kp_limit (P key)) (kp_countRefused (P key)) c = (c', wait')"
  shows "wait = wait' \<and> represents (P key) now (memoryStore s' key) (Some c')"
proof -
  have r: "represents (P key) now (memoryStore (sweep now s) key) c" by (rule sweep_represents [OF assms(1)])
  show ?thesis
  proof (cases "memoryStore (sweep now s) key")
    case None
    then show ?thesis using r assms(2,3)
      by (cases c) (auto simp: memoryRateLimit_def counter_step_def represents_def Let_def)
  next
    case (Some e)
    then have c: "c = Some (count e, windowStart e)" "windowMs e = kp_window (P key)" using r by (simp_all add: represents_def)
    then show ?thesis using Some assms(2,3)
      by (auto simp: memoryRateLimit_def counter_step_def represents_def Let_def split: if_splits)
  qed
qed

lemma memory_run_counter:
  "sorted (lst # map fst rs) \<Longrightarrow> represents (P k) lst (memoryStore s k) c \<Longrightarrow>
   map snd (filter (\<lambda>a. fst a = k) (memory_run P s rs))
     = counter_run (kp_window (P k)) (kp_limit (P k)) (kp_countRefused (P k)) c (map fst (filter (\<lambda>r. snd r = k) rs))"
proof (induction rs arbitrary: lst s c)
  case (Cons r rs)
  obtain now key where r: "r = (now, key)" by fastforce
  obtain s' wait where m: "memoryRateLimit now key (kp_window (P key)) (kp_limit (P key)) (kp_countRefused (P key)) s = (s', wait)"
    by fastforce
  have le: "lst \<le> now" "sorted (now # map fst rs)" using Cons.prems(1) by (auto simp: r)
  have now: "represents (P k) now (memoryStore s k) c" by (rule represents_later [OF Cons.prems(2) le(1)])
  show ?case
  proof (cases "key = k")
    case True
    obtain c' wait' where c: "counter_step now (kp_window (P k)) (kp_limit (P k)) (kp_countRefused (P k)) c = (c', wait')"
      by (metis prod_cases3 surj_pair)
    have "wait = wait' \<and> represents (P k) now (memoryStore s' k) (Some c')"
      using memory_own_key [of P k now s c s' wait c' wait'] now m c True by simp
    then show ?thesis using Cons.IH [OF le(2), of s' "Some c'"] True m c by (simp add: r)
  next
    case False
    then have "represents (P k) now (memoryStore s' k) c"
      using sweep_represents [OF now] memory_other_key [OF m, of k] by simp
    then show ?thesis using Cons.IH [OF le(2), of s' c] False m by (simp add: r Let_def)
  qed
qed simp

definition empty_memory :: memory where
  "empty_memory = \<lparr> memoryStore = Map.empty, lastCleanup = 0 \<rparr>"

text \<open>
  The limiter in memory keeps its callers apart and its sweep cannot be seen: what
  a key is answered is what a counter of its own would answer to its own requests,
  whatever other keys do in between.
\<close>

theorem memory_keys_are_apart:
  assumes "sorted (map fst rs)"
  shows "map snd (filter (\<lambda>a. fst a = k) (memory_run P empty_memory rs))
    = counter_run (kp_window (P k)) (kp_limit (P k)) (kp_countRefused (P k)) None (map fst (filter (\<lambda>r. snd r = k) rs))"
proof (cases rs)
  case (Cons r rs')
  then show ?thesis using assms
    by (intro memory_run_counter [where lst = "fst r"]) (auto simp: represents_def empty_memory_def)
qed simp

theorem memory_keys_are_apart_witness:
  "map snd (filter (\<lambda>a. fst a = ''a'') (memory_run (\<lambda>_. \<lparr> kp_window = 60, kp_limit = 1, kp_countRefused = True \<rparr>) empty_memory
      [(0, ''a''), (1, ''b''), (2, ''a''), (70000, ''b''), (70001, ''a'')])) = [0, 1, 0]"
  using memory_keys_are_apart [of "[(0, ''a''), (1, ''b''), (2, ''a''), (70000, ''b''), (70001, ''a'')]" "''a''"
      "\<lambda>_. \<lparr> kp_window = 60, kp_limit = 1, kp_countRefused = True \<rparr>"]
  by (simp add: counter_step_def secondsUntil_def Let_def)

text \<open>Admitted among the answers, from \<open>a\<close> to \<open>b\<close>.\<close>

definition zeros :: "int \<Rightarrow> int \<Rightarrow> int list \<Rightarrow> int list \<Rightarrow> nat" where
  "zeros a b ws ts = length (filter (\<lambda>(w, t). w = 0 \<and> a \<le> t \<and> t \<le> b) (zip ws ts))"

lemma zeros_Cons [simp]: "zeros a b (w # ws) (t # ts) = (if w = 0 \<and> a \<le> t \<and> t \<le> b then 1 else 0) + zeros a b ws ts"
  by (simp add: zeros_def)

lemma zeros_Nil [simp]: "zeros a b ws [] = 0"
  by (simp add: zeros_def)

lemma zeros_after: "\<forall>t \<in> set ts. b < t \<Longrightarrow> zeros a b ws ts = 0"
  by (force simp: zeros_def filter_empty_conv dest: set_zip_rightD)

lemma secondsUntil_nonzero [simp]: "secondsUntil x y \<noteq> 0" "0 \<noteq> secondsUntil x y"
  using secondsUntil_pos [of x y] by linarith+

lemma one_window:
  "sorted ts \<Longrightarrow> b \<le> ws + window \<Longrightarrow> zeros a b (counter_run window limit cr (Some (n, ws)) ts) ts \<le> limit - n"
proof (induction ts arbitrary: n)
  case (Cons now ts)
  show ?case
  proof (cases "now \<le> b")
    case True
    then have "\<not> ws < now - window" using Cons.prems by simp
    then show ?thesis using Cons.IH [of n] Cons.IH [of "n + 1"] Cons.prems
      by (auto simp: counter_step_def Let_def split: if_splits)
  next
    case False
    then have "\<forall>t \<in> set (now # ts). b < t" using Cons.prems(1) by auto
    then show ?thesis by (simp only: zeros_after)
  qed
qed simp

lemma two_windows:
  assumes "1 \<le> limit"
  shows "sorted ts \<Longrightarrow> \<forall>t \<in> set ts. a \<le> t \<Longrightarrow>
    zeros a (a + window) (counter_run window limit cr (Some (n, ws)) ts) ts \<le> (limit - n) + limit"
proof (induction ts arbitrary: n)
  case (Cons now ts)
  show ?case
  proof (cases "ws < now - window")
    case True
    have "zeros a (a + window) (counter_run window limit cr (Some (1, now)) ts) ts \<le> limit - 1"
      using Cons.prems by (intro one_window) simp_all
    then show ?thesis using True assms by (auto simp: counter_step_def)
  next
    case False
    then show ?thesis using Cons.IH [of n] Cons.IH [of "n + 1"] Cons.prems
      by (auto simp: counter_step_def Let_def)
  qed
qed simp

lemma any_window:
  assumes "1 \<le> limit"
  shows "sorted ts \<Longrightarrow> zeros a (a + window) (counter_run window limit cr c ts) ts \<le> 2 * limit"
proof (induction ts arbitrary: c)
  case (Cons now ts)
  obtain c' wait where s: "counter_step now window limit cr c = (c', wait)" by fastforce
  show ?case
  proof (cases "a \<le> now")
    case True
    then have all: "\<forall>t \<in> set (now # ts). a \<le> t" using Cons.prems by auto
    show ?thesis
    proof (cases c)
      case (Some p)
      obtain n ws where "p = (n, ws)" by fastforce
      then show ?thesis using two_windows [OF assms Cons.prems all, of window cr n ws] Some by simp
    next
      case None
      have "zeros a (a + window) (counter_run window limit cr (Some (1, now)) ts) ts \<le> limit - 1"
        using Cons.prems all by (intro one_window) simp_all
      then show ?thesis using None assms by (auto simp: counter_step_def)
    qed
  next
    case False
    then show ?thesis using Cons.IH [of "Some c'"] Cons.prems s by simp
  qed
qed simp

text \<open>
  In memory no stretch of a window's length, wherever it starts, admits more than
  twice the limit of one caller's requests.
\<close>

theorem memory_bound:
  assumes "sorted (map fst rs)" "1 \<le> kp_limit (P k)"
  shows "zeros a (a + kp_window (P k)) (map snd (filter (\<lambda>r. fst r = k) (memory_run P empty_memory rs)))
      (map fst (filter (\<lambda>r. snd r = k) rs)) \<le> 2 * kp_limit (P k)"
proof (cases rs)
  case (Cons r rs')
  then have e: "map snd (filter (\<lambda>a. fst a = k) (memory_run P empty_memory rs))
    = counter_run (kp_window (P k)) (kp_limit (P k)) (kp_countRefused (P k)) None (map fst (filter (\<lambda>r. snd r = k) rs))"
    using assms by (intro memory_run_counter [where lst = "fst r"]) (auto simp: represents_def empty_memory_def)
  have "sorted (map fst (filter (\<lambda>r. snd r = k) rs))" using assms(1) by (rule sorted_filter)
  then show ?thesis unfolding e by (rule any_window [OF assms(2)])
qed simp

text \<open>Two requests on each side of the end of a window of two.\<close>

definition edge :: "(int \<times> string) list" where
  "edge = [(0, ''a''), (59, ''a''), (60, ''a''), (61, ''a''), (62, ''a'')]"

theorem memory_bound_witness:
  "zeros 59 (59 + 60) (map snd (filter (\<lambda>r. fst r = ''a'') (memory_run (\<lambda>_. \<lparr> kp_window = 60, kp_limit = 2, kp_countRefused = False \<rparr>) empty_memory edge)))
     [0, 59, 60, 61, 62] = 3
   \<and> zeros 59 (59 + 60) (map snd (filter (\<lambda>r. fst r = ''a'') (memory_run (\<lambda>_. \<lparr> kp_window = 60, kp_limit = 2, kp_countRefused = False \<rparr>) empty_memory edge)))
     [0, 59, 60, 61, 62] \<le> 2 * 2"
proof
  show "zeros 59 (59 + 60) (map snd (filter (\<lambda>r. fst r = ''a'') (memory_run (\<lambda>_. \<lparr> kp_window = 60, kp_limit = 2, kp_countRefused = False \<rparr>) empty_memory edge)))
     [0, 59, 60, 61, 62] = 3"
    by (simp add: edge_def memoryRateLimit_def sweep_def empty_memory_def CLEANUP_INTERVAL_def secondsUntil_def Let_def zeros_def)
  show "zeros 59 (59 + 60) (map snd (filter (\<lambda>r. fst r = ''a'') (memory_run (\<lambda>_. \<lparr> kp_window = 60, kp_limit = 2, kp_countRefused = False \<rparr>) empty_memory edge)))
     [0, 59, 60, 61, 62] \<le> 2 * 2"
    using memory_bound [of edge "\<lambda>_. \<lparr> kp_window = 60, kp_limit = 2, kp_countRefused = False \<rparr>" "''a''" 59] by (simp add: edge_def)
qed

text \<open>
  The wait the window in memory names is a moment short: a caller that waits the
  whole seconds it was told, when they end exactly with the window, is refused again.
\<close>

theorem memory_wait_is_short:
  assumes "memoryStore s key = Some e" "windowMs e = window" "limit \<le> count e" "0 < k"
    and "windowStart e + window = now + 1000 * k" "0 < window" "windowStart e \<le> now"
    and "lastCleanup s + CLEANUP_INTERVAL \<ge> now + 1000 * k"
  shows "snd (memoryRateLimit now key window limit cr s) = k
    \<and> snd (memoryRateLimit (now + 1000 * k) key window limit cr (fst (memoryRateLimit now key window limit cr s))) = 1"
proof -
  have w: "secondsUntil (now + 1000 * k) now = k" using assms(4) by (simp add: secondsUntil_def)
  have z: "secondsUntil (now + 1000 * k) (now + 1000 * k) = 1" by (simp add: secondsUntil_def)
  have c: "\<not> CLEANUP_INTERVAL < now - lastCleanup s" "\<not> CLEANUP_INTERVAL < now + 1000 * k - lastCleanup s"
    using assms(4,8) by linarith+
  have n: "\<not> windowStart e < now - window" "\<not> windowStart e < now + 1000 * k - window" using assms(4,5) by linarith+
  show ?thesis using assms(1-3) n w z
    by (simp add: memoryRateLimit_def sweep_def c Let_def assms(5))
qed

theorem memory_wait_is_short_witness:
  "snd (memoryRateLimit 50000 ''a'' 60000 1 True \<lparr> memoryStore = [''a'' \<mapsto> \<lparr> count = 1, windowStart = 0, windowMs = 60000 \<rparr>], lastCleanup = 49000 \<rparr>) = 10"
proof -
  from memory_wait_is_short [of "\<lparr> memoryStore = [''a'' \<mapsto> \<lparr> count = 1, windowStart = 0, windowMs = 60000 \<rparr>], lastCleanup = 49000 \<rparr>"
      "''a''" "\<lparr> count = 1, windowStart = 0, windowMs = 60000 \<rparr>" 60000 1 10 50000 True]
  show ?thesis by (simp add: CLEANUP_INTERVAL_def)
qed

end
