(* ===== verification/RateLimit.thy ===== *)
theory RateLimit
  imports RateWindows Digits
begin

text \<open>
  \<open>middleware/rate-limit.ts\<close>: who a request counts as, which limits apply to it, the
  escalating cooldown, and the middleware itself over the counters of \<open>RateWindows\<close>.
  The cache may be absent or may fail at any call (\<open>faults\<close>), the configuration table
  may be unreadable; the operator's address lists and the time are arguments.
\<close>

section \<open>Identity and limits\<close>

definition PENALTY_WINDOW_MS :: int where "PENALTY_WINDOW_MS = 10 * 60000"
definition MAX_BLOCK_SEC :: int where "MAX_BLOCK_SEC = 3600"
definition CONFIG_TTL :: int where "CONFIG_TTL = 60000"
definition HOUR_MS :: int where "HOUR_MS = 3600000"

definition escalationSeconds :: "int \<Rightarrow> int \<Rightarrow> int" where
  "escalationSeconds offences windowSec =
    (let n = max 1 offences; factor = 2 ^ nat (min (n - 1) 10) in min (windowSec * factor) MAX_BLOCK_SEC)"

text \<open>\<open>ip.toLowerCase().split('::')\<close>\<close>

fun split_double :: "string \<Rightarrow> string list" where
  "split_double (a # b # cs) =
    (if a = CHR '':'' \<and> b = CHR '':'' then [] # split_double cs
     else (case split_double (b # cs) of [] \<Rightarrow> [[a]] | p # ps \<Rightarrow> (a # p) # ps))"
| "split_double s = [s]"

definition hex_group :: "string \<Rightarrow> bool" where
  "hex_group g \<longleftrightarrow> g \<noteq> [] \<and> length g \<le> 4 \<and> list_all (\<lambda>c. is_digit c \<or> (97 \<le> code c \<and> code c \<le> 102)) g"

text \<open>\<open>g.replace(/^0+(?=.)/, '')\<close>\<close>

definition strip_zeros :: "string \<Rightarrow> string" where
  "strip_zeros g = (let t = dropWhile (\<lambda>c. c = CHR ''0'') g in
     if t = [] then (if g = [] then [] else ''0'') else t)"

definition colon_parts :: "string \<Rightarrow> string list" where
  "colon_parts s = (if s = [] then [] else js_split (CHR '':'') s)"

definition rateLimitIpBucket :: "string \<Rightarrow> string" where
  "rateLimitIpBucket ip =
    (if CHR '':'' \<notin> set ip then ip
     else (let halves = split_double (js_lower ip) in
       if 2 < length halves then ip
       else (let hd' = colon_parts (halves ! 0);
                 tl' = (if 1 < length halves then colon_parts (halves ! 1) else []);
                 missing = 8 - int (length hd') - int (length tl')
             in if (if length halves = 1 then missing \<noteq> 0 else missing < 1) then ip
                else (let groups = hd' @ replicate (nat missing) ''0'' @ tl' in
                  if \<not> list_all hex_group groups then ip
                  else js_join '':'' (map strip_zeros (take 4 groups)) @ ''::/64''))))"

record rate_config =
  rc_windowMs :: int
  rc_max :: nat

record limit_row =
  lr_key_prefix :: string
  lr_window_ms :: int
  lr_max_requests :: nat
  lr_is_active :: bool

definition row_config :: "limit_row \<Rightarrow> rate_config" where
  "row_config r = \<lparr> rc_windowMs = lr_window_ms r, rc_max = lr_max_requests r \<rparr>"

definition tenant_key :: "string \<Rightarrow> string \<Rightarrow> string \<Rightarrow> string" where
  "tenant_key hd' tier tenant = hd' @ '':'' @ tier @ '':'' @ tenant"

definition pickTenantLimit :: "limit_row list \<Rightarrow> string \<Rightarrow> string \<Rightarrow> rate_config option" where
  "pickTenantLimit rows tier tenant =
    (case find (\<lambda>r. lr_key_prefix r = tenant_key ''tenant'' tier tenant) rows of
       Some r \<Rightarrow> Some (row_config r)
     | None \<Rightarrow> map_option row_config (find (\<lambda>r. lr_key_prefix r = ''tenant:'' @ tier) rows))"

text \<open>\<open>tenant:<tier>\<close>, \<open>tenant:<tier>:<uuid>\<close>, \<open>tenant-self:<tier>:<uuid>\<close>\<close>

definition is_uuid :: "string \<Rightarrow> bool" where
  "is_uuid s \<longleftrightarrow> map length (js_split (CHR ''-'') s) = [8, 4, 4, 4, 12]
     \<and> list_all (list_all is_hex) (js_split (CHR ''-'') s)"

definition parseTenantLimitKey :: "string set \<Rightarrow> string \<Rightarrow> bool \<Rightarrow> (string \<times> string option) option" where
  "parseTenantLimitKey tiers key self =
    (let ps = js_split (CHR '':'') key; tier = (if 1 < length ps then ps ! 1 else []) in
     if ps ! 0 \<noteq> (if self then ''tenant-self'' else ''tenant'') \<or> tier = [] \<or> 3 < length ps then None
     else if tier \<notin> tiers then None
     else if length ps = 2 then (if self then None else Some (tier, None))
     else if is_uuid (ps ! 2) then Some (tier, Some (js_lower (ps ! 2))) else None)"

section \<open>The state of an instance\<close>

text \<open>The cache: buckets, cooldowns with their expiry, offence counters with theirs.\<close>

record rate_cache =
  ca_buckets :: "string \<Rightarrow> bucket"
  ca_blocks :: "string \<rightharpoonup> int"
  ca_penalties :: "string \<rightharpoonup> (int \<times> int option)"

record faults =
  fails_ttl :: bool
  fails_window :: "string \<Rightarrow> bool"
  fails_incr :: bool
  fails_pexpire :: bool
  fails_set :: bool

record rate_state =
  rs_cache :: "rate_cache option"
  rs_memory :: memory
  rs_configs :: "string \<rightharpoonup> rate_config option \<times> int"
  rs_tenants :: "string \<rightharpoonup> (string \<times> rate_config) list \<times> int"

text \<open>The table: \<open>None\<close> for no database, \<open>Some None\<close> for one that cannot be read.\<close>

record rate_db =
  db_rows :: "limit_row list option option"
  db_tenantAdmins :: "bool option"

definition loadConfig :: "int \<Rightarrow> rate_db \<Rightarrow> string \<Rightarrow> rate_state \<Rightarrow> rate_state \<times> rate_config option" where
  "loadConfig now db keyPrefix s = (case db_rows db of
     None \<Rightarrow> (s, None)
   | Some answer \<Rightarrow>
      (let read = (case answer of
           None \<Rightarrow> (s, None)
         | Some rows \<Rightarrow>
            (let config = map_option row_config (find (\<lambda>r. lr_key_prefix r = keyPrefix \<and> lr_is_active r) rows)
             in (s\<lparr> rs_configs := (rs_configs s)(keyPrefix \<mapsto> (config, now)) \<rparr>, config)))
       in case rs_configs s keyPrefix of
            Some (config, ts) \<Rightarrow> if now - ts < CONFIG_TTL then (s, config) else read
          | None \<Rightarrow> read))"

definition tenant_rows :: "limit_row list \<Rightarrow> string \<Rightarrow> string \<Rightarrow> limit_row list" where
  "tenant_rows all tier tenant = filter (\<lambda>r. lr_key_prefix r \<in>
      {tenant_key ''tenant'' tier tenant, ''tenant:'' @ tier, tenant_key ''tenant-self'' tier tenant} \<and> lr_is_active r) all"

definition own_limit :: "limit_row list \<Rightarrow> string \<Rightarrow> string \<Rightarrow> (string \<times> rate_config) list" where
  "own_limit rows tier tenant = (case find (\<lambda>r. lr_key_prefix r = tenant_key ''tenant-self'' tier tenant) rows of
     None \<Rightarrow> [] | Some r \<Rightarrow> [(''ts'', row_config r)])"

definition instance_limit :: "limit_row list \<Rightarrow> string \<Rightarrow> string \<Rightarrow> (string \<times> rate_config) list" where
  "instance_limit rows tier tenant = (case pickTenantLimit rows tier tenant of None \<Rightarrow> [] | Some c \<Rightarrow> [(''t'', c)])"

definition loadTenantLimit :: "int \<Rightarrow> rate_db \<Rightarrow> string \<Rightarrow> string \<Rightarrow> rate_state \<Rightarrow>
    rate_state \<times> (string \<times> rate_config) list" where
  "loadTenantLimit now db tier tenant s = (case db_rows db of
     None \<Rightarrow> (s, [])
   | Some answer \<Rightarrow>
      (let cacheKey = tier @ '':'' @ tenant;
           read = (case (answer, db_tenantAdmins db) of
             (Some all, Some may) \<Rightarrow>
               (let rows = tenant_rows all tier tenant;
                    limit = (if may then own_limit rows tier tenant else []) @ instance_limit rows tier tenant
                in (s\<lparr> rs_tenants := (rs_tenants s)(cacheKey \<mapsto> (limit, now)) \<rparr>, limit))
           | _ \<Rightarrow> (s, []))
       in case rs_tenants s cacheKey of
            Some (limit, ts) \<Rightarrow> if now - ts < CONFIG_TTL then (s, limit) else read
          | None \<Rightarrow> read))"

definition clearLocalRateLimitCache :: "string option \<Rightarrow> rate_state \<Rightarrow> rate_state" where
  "clearLocalRateLimitCache keyPrefix s =
    (let s' = (if \<not> (keyPrefix \<noteq> None \<and> keyPrefix \<noteq> Some []) \<or> starts_with ''tenant'' (the keyPrefix)
               then s\<lparr> rs_tenants := Map.empty \<rparr> else s)
     in if keyPrefix \<noteq> None \<and> keyPrefix \<noteq> Some []
        then s'\<lparr> rs_configs := (rs_configs s')(the keyPrefix := None) \<rparr>
        else s'\<lparr> rs_configs := Map.empty \<rparr>)"

section \<open>Requests and answers\<close>

record api_key =
  ak_id :: string
  ak_member_issued :: bool
  ak_created_by :: "string option"
  ak_rate_limit :: "nat option"

record rate_request =
  rq_session :: "string option"
  rq_apiKey :: "api_key option"
  rq_keyActsHere :: bool
  rq_user :: "string option"
  rq_ip :: string
  rq_tenant :: string
  rq_path :: string
  rq_member :: string   \<comment> \<open>the \<open>crypto.randomUUID()\<close> of its entries\<close>

datatype rate_answer =
    Next
  | Forbidden
  | TooMany string int   \<comment> \<open>429, the message and \<open>Retry-After\<close>\<close>

definition given :: "string option \<Rightarrow> bool" where
  "given x \<longleftrightarrow> x \<noteq> None \<and> x \<noteq> Some []"

definition rateLimitCaller :: "rate_request \<Rightarrow> string option" where
  "rateLimitCaller q =
    (if given (rq_session q) then rq_session q
     else (case rq_apiKey q of
        Some k \<Rightarrow>
          if rq_keyActsHere q
          then (if ak_member_issued k \<and> given (ak_created_by k) then ak_created_by k else Some (''apikey:'' @ ak_id k))
          else rq_user q
      | None \<Rightarrow> rq_user q))"

section \<open>One bucket\<close>

definition memory_wait :: "int \<Rightarrow> string \<Rightarrow> rate_config \<Rightarrow> bool \<Rightarrow> rate_state \<Rightarrow> rate_state \<times> int" where
  "memory_wait now key cfg countRefused s =
    (let (m, wait) = memoryRateLimit now key (rc_windowMs cfg) (rc_max cfg) countRefused (rs_memory s)
     in (s\<lparr> rs_memory := m \<rparr>, wait))"

definition cache_wait :: "int \<Rightarrow> string \<Rightarrow> string \<Rightarrow> rate_config \<Rightarrow> bool \<Rightarrow> rate_cache \<Rightarrow> rate_cache \<times> nat \<times> int" where
  "cache_wait now key member cfg keep c =
    (let (b, n, wait) = slidingWindow now (rc_windowMs cfg) (rc_max cfg) member keep (ca_buckets c key)
     in (c\<lparr> ca_buckets := (ca_buckets c)(key := b) \<rparr>, n, wait))"

text \<open>A refusal, \<open>None\<close> when the bucket admits; the memory answers when the cache does not.\<close>

definition bucketRefusal :: "int \<Rightarrow> faults \<Rightarrow> string \<Rightarrow> string \<Rightarrow> rate_config \<Rightarrow> string \<Rightarrow> rate_state \<Rightarrow>
    rate_state \<times> rate_answer option" where
  "bucketRefusal now fl member key cfg message s =
    (let (s', wait) = (case rs_cache s of
           Some c \<Rightarrow>
             if fails_window fl key then memory_wait now key cfg False s
             else (let (c', n, wait) = cache_wait now key member cfg False c in (s\<lparr> rs_cache := Some c' \<rparr>, wait))
         | None \<Rightarrow> memory_wait now key cfg False s)
     in (s', if wait = 0 then None else Some (TooMany message wait)))"

definition KEY_OWN_TIERS :: "string list" where
  "KEY_OWN_TIERS = [''api'', ''ext'']"

definition own_key_bucket :: "string \<Rightarrow> string" where
  "own_key_bucket callerId = ''rl:keyown:'' @ drop 7 callerId"

definition keyOwnLimitRefusal :: "int \<Rightarrow> faults \<Rightarrow> rate_request \<Rightarrow> string \<Rightarrow> string option \<Rightarrow> rate_state \<Rightarrow>
    rate_state \<times> rate_answer option" where
  "keyOwnLimitRefusal now fl q tier callerId s = (case callerId of
     None \<Rightarrow> (s, None)
   | Some caller \<Rightarrow>
      if tier \<notin> set KEY_OWN_TIERS \<or> \<not> starts_with ''apikey:'' caller then (s, None)
      else (case (case rq_apiKey q of None \<Rightarrow> None | Some k \<Rightarrow> ak_rate_limit k) of
         None \<Rightarrow> (s, None)
       | Some limit \<Rightarrow> if limit = 0 then (s, None)
           else bucketRefusal now fl (rq_member q) (own_key_bucket caller)
             \<lparr> rc_windowMs = HOUR_MS, rc_max = limit \<rparr> ''API key rate limit exceeded'' s))"

definition tenant_bucket :: "string \<Rightarrow> string \<Rightarrow> string \<Rightarrow> string" where
  "tenant_bucket tier bucket tenant = ''rl:'' @ tier @ '':'' @ bucket @ '':'' @ tenant"

fun tenant_buckets :: "int \<Rightarrow> faults \<Rightarrow> rate_request \<Rightarrow> string \<Rightarrow> (string \<times> rate_config) list \<Rightarrow> rate_state \<Rightarrow>
    rate_state \<times> rate_answer option" where
  "tenant_buckets now fl q tier [] s = (s, None)"
| "tenant_buckets now fl q tier ((b, cfg) # limits) s =
    (if starts_with ''/api/tenants/current/rate-limits'' (rq_path q) \<and> b = ''ts''
     then tenant_buckets now fl q tier limits s
     else (case bucketRefusal now fl (rq_member q) (tenant_bucket tier b (rq_tenant q)) cfg ''Tenant rate limit exceeded'' s of
         (s', Some refused) \<Rightarrow> (s', Some refused)
       | (s', None) \<Rightarrow> tenant_buckets now fl q tier limits s'))"

definition tenantLimitRefusal :: "int \<Rightarrow> faults \<Rightarrow> rate_db \<Rightarrow> rate_request \<Rightarrow> string \<Rightarrow> string option \<Rightarrow> rate_state \<Rightarrow>
    rate_state \<times> rate_answer option" where
  "tenantLimitRefusal now fl db q tier callerId s =
    (if \<not> given callerId then (s, None)
     else (let (s', limits) = loadTenantLimit now db tier (rq_tenant q) s in tenant_buckets now fl q tier limits s'))"

section \<open>The middleware\<close>

record limiter =
  lm_keyPrefix :: string
  lm_config :: rate_config
  lm_message :: string
  lm_perIp :: bool

record rate_env =
  en_test :: bool
  en_deny :: "string \<Rightarrow> bool"
  en_allow :: "string \<Rightarrow> bool"

text \<open>The counter of offences, by \<open>INCR\<close>, and the cooldown they earn; \<open>retryAfter\<close> is the answer.\<close>

definition escalate :: "int \<Rightarrow> faults \<Rightarrow> string \<Rightarrow> string \<Rightarrow> int \<Rightarrow> int \<Rightarrow> rate_cache \<Rightarrow> rate_cache \<times> int" where
  "escalate now fl penaltyKey blockKey windowSec wait c =
    (if fails_incr fl then (c, wait)
     else (let (held, expiry) = (case ca_penalties c penaltyKey of
              None \<Rightarrow> (0, None)
            | Some (k, Some t) \<Rightarrow> if t \<le> now then (0, None) else (k, Some t)
            | Some (k, None) \<Rightarrow> (k, None));
            offences = held + 1;
            expiry' = (if offences = 1 \<and> \<not> fails_pexpire fl then Some (now + PENALTY_WINDOW_MS) else expiry);
            c' = c\<lparr> ca_penalties := (ca_penalties c)(penaltyKey \<mapsto> (offences, expiry')) \<rparr>
       in if offences > 1
          then (let retryAfter = escalationSeconds offences windowSec in
            if fails_set fl then (c', retryAfter)
            else (c'\<lparr> ca_blocks := (ca_blocks c')(blockKey \<mapsto> now + 1000 * retryAfter) \<rparr>, retryAfter))
          else (c', wait)))"

definition block_ttl :: "int \<Rightarrow> string \<Rightarrow> rate_cache \<Rightarrow> int" where
  "block_ttl now key c = (case ca_blocks c key of
     None \<Rightarrow> - 2
   | Some t \<Rightarrow> if t \<le> now then - 2 else (t - now + 500) div 1000)"

definition tier_key :: "string \<Rightarrow> string \<Rightarrow> string" where
  "tier_key keyPrefix ident = ''rl:'' @ keyPrefix @ '':'' @ ident"

text \<open>The tier's own bucket: the answer that ends the request, or \<open>None\<close> to go on.\<close>

definition tier_refusal :: "int \<Rightarrow> faults \<Rightarrow> limiter \<Rightarrow> rate_request \<Rightarrow> string \<Rightarrow> rate_config \<Rightarrow> rate_state \<Rightarrow>
    rate_state \<times> rate_answer option" where
  "tier_refusal now fl lm q ident cfg s =
    (let key = tier_key (lm_keyPrefix lm) ident;
         in_memory = (let (s', wait) = memory_wait now key cfg True s in
           (s', if 0 < wait then Some (TooMany (lm_message lm) wait) else None))
     in case rs_cache s of
          None \<Rightarrow> in_memory
        | Some c \<Rightarrow>
           (let blockKey = ''rl:block:'' @ lm_keyPrefix lm @ '':'' @ ident;
                penaltyKey = ''rl:pen:'' @ lm_keyPrefix lm @ '':'' @ ident;
                windowSec = - ((- rc_windowMs cfg) div 1000)
            in if fails_ttl fl then in_memory
               else if 0 < block_ttl now blockKey c then (s, Some (TooMany (lm_message lm) (block_ttl now blockKey c)))
               else if fails_window fl key then in_memory
               else (let (c', n, wait) = cache_wait now key (rq_member q) cfg True c in
                 if 0 < wait
                 then (let (c'', retryAfter) = escalate now fl penaltyKey blockKey windowSec wait c' in
                   (s\<lparr> rs_cache := Some c'' \<rparr>, Some (TooMany (lm_message lm) retryAfter)))
                 else (s\<lparr> rs_cache := Some c' \<rparr>, None))))"

definition bucket_id :: "limiter \<Rightarrow> rate_request \<Rightarrow> string option" where
  "bucket_id lm q = (if lm_perIp lm then None else rateLimitCaller q)"

definition live_limits :: "int \<Rightarrow> rate_db \<Rightarrow> limiter \<Rightarrow> string option \<Rightarrow> rate_state \<Rightarrow> rate_state \<times> rate_config" where
  "live_limits now db lm bucketId s0 =
    (let (s1, live) = loadConfig now db (lm_keyPrefix lm) s0;
         (s2, perKey) = (case bucketId of
             Some b \<Rightarrow> if starts_with ''apikey:'' b then loadConfig now db b s1 else (s1, None)
           | None \<Rightarrow> (s1, None))
     in (s2, case perKey of Some c \<Rightarrow> c | None \<Rightarrow> (case live of Some c \<Rightarrow> c | None \<Rightarrow> lm_config lm)))"

definition identity :: "limiter \<Rightarrow> rate_request \<Rightarrow> string" where
  "identity lm q = (case bucket_id lm q of Some b \<Rightarrow> b | None \<Rightarrow> rateLimitIpBucket (rq_ip q))"

definition rateLimit :: "int \<Rightarrow> faults \<Rightarrow> rate_env \<Rightarrow> rate_db \<Rightarrow> limiter \<Rightarrow> rate_request \<Rightarrow> rate_state \<Rightarrow> rate_state \<times> rate_answer" where
  "rateLimit now fl env db lm q s0 =
    (let (s2, cfg) = live_limits now db lm (bucket_id lm q) s0
     in if en_test env then (s2, Next)
        else if en_deny env (rq_ip q) then (s2, Forbidden)
        else if en_allow env (rq_ip q) then (s2, Next)
        else (case tier_refusal now fl lm q (identity lm q) cfg s2 of
            (s3, Some refused) \<Rightarrow> (s3, refused)
          | (s3, None) \<Rightarrow>
             (case keyOwnLimitRefusal now fl q (lm_keyPrefix lm) (rateLimitCaller q) s3 of
                (s4, Some refused) \<Rightarrow> (s4, refused)
              | (s4, None) \<Rightarrow>
                 (case tenantLimitRefusal now fl db q (lm_keyPrefix lm) (rateLimitCaller q) s4 of
                    (s5, Some refused) \<Rightarrow> (s5, refused)
                  | (s5, None) \<Rightarrow> (s5, Next)))))"

section \<open>The cooldown\<close>

lemma escalation_cap: "escalationSeconds o' w \<le> MAX_BLOCK_SEC"
  by (simp add: escalationSeconds_def Let_def)

lemma escalation_first: "escalationSeconds 1 w = min w MAX_BLOCK_SEC"
  by (simp add: escalationSeconds_def)

lemma escalation_mono: "0 \<le> w \<Longrightarrow> a \<le> b \<Longrightarrow> escalationSeconds a w \<le> escalationSeconds b w"
proof -
  assume w: "0 \<le> w" and ab: "a \<le> b"
  have "(2 :: int) ^ nat (min (max 1 a - 1) 10) \<le> 2 ^ nat (min (max 1 b - 1) 10)"
    using ab by (intro power_increasing) auto
  from mult_left_mono [OF this w] show ?thesis unfolding escalationSeconds_def Let_def by (rule min.mono) simp
qed

section \<open>What a request leaves of the other counters\<close>

text \<open>The buckets of two states, all keys but one.\<close>

definition same_but :: "string set \<Rightarrow> int \<Rightarrow> rate_state \<Rightarrow> rate_state \<Rightarrow> bool" where
  "same_but ks now s s' \<longleftrightarrow>
     (\<forall>k. k \<notin> ks \<longrightarrow> memoryStore (sweep now (rs_memory s')) k = memoryStore (sweep now (rs_memory s)) k)
   \<and> (case (rs_cache s, rs_cache s') of
        (Some c, Some c') \<Rightarrow> \<forall>k. k \<notin> ks \<longrightarrow> ca_buckets c' k = ca_buckets c k
      | (None, None) \<Rightarrow> True | _ \<Rightarrow> False)"

lemma same_but_refl: "same_but ks now s s"
  by (auto simp: same_but_def split: option.splits)

lemma same_but_trans: "same_but ks now s s' \<Longrightarrow> same_but ks' now s' s'' \<Longrightarrow> same_but (ks \<union> ks') now s s''"
  by (auto simp: same_but_def split: option.splits)

lemma same_but_mono: "same_but ks now s s' \<Longrightarrow> ks \<subseteq> ks' \<Longrightarrow> same_but ks' now s s'"
  by (auto simp: same_but_def split: option.splits)

lemma sweep_again: "sweep now (sweep now s) = sweep now s"
  by (auto simp: sweep_def fun_eq_iff CLEANUP_INTERVAL_def split: option.splits)

lemma memory_other: "memoryRateLimit now key w l cr s = (s', wait) \<Longrightarrow> k \<noteq> key \<Longrightarrow>
    memoryStore (sweep now s') k = memoryStore (sweep now s) k"
proof -
  assume m: "memoryRateLimit now key w l cr s = (s', wait)" and k: "k \<noteq> key"
  have "lastCleanup s' = lastCleanup (sweep now s)"
    using m by (auto simp: memoryRateLimit_def Let_def split: option.splits if_splits)
  then have "\<not> CLEANUP_INTERVAL < now - lastCleanup s'" by (auto simp: sweep_def CLEANUP_INTERVAL_def)
  then have "sweep now s' = s'" by (simp add: sweep_def)
  then show ?thesis using memory_other_key [OF m k] by simp
qed

lemma memory_wait_same: "memory_wait now key cfg cr s = (s', w) \<Longrightarrow> same_but {key} now s s'"
  using memory_other by (fastforce simp: memory_wait_def same_but_def split: prod.splits option.splits)

lemma cache_wait_same:
  "cache_wait now key m cfg keep c = (c', n, w) \<Longrightarrow> rs_cache s = Some c \<Longrightarrow> same_but {key} now s (s\<lparr> rs_cache := Some c' \<rparr>)
     \<and> ca_blocks c' = ca_blocks c \<and> ca_penalties c' = ca_penalties c"
  by (auto simp: cache_wait_def same_but_def split: prod.splits)

lemma bucketRefusal_same: "bucketRefusal now fl m key cfg msg s = (s', r) \<Longrightarrow> same_but {key} now s s'"
  using memory_wait_same cache_wait_same
  by (fastforce simp: bucketRefusal_def Let_def split: prod.splits option.splits if_splits)

text \<open>A bucket answers by its own counter: another state that agrees on it answers alike.\<close>

definition agree_on :: "string \<Rightarrow> int \<Rightarrow> rate_state \<Rightarrow> rate_state \<Rightarrow> bool" where
  "agree_on k now s s' \<longleftrightarrow> memoryStore (sweep now (rs_memory s')) k = memoryStore (sweep now (rs_memory s)) k
   \<and> (case (rs_cache s, rs_cache s') of
        (Some c, Some c') \<Rightarrow> ca_buckets c' k = ca_buckets c k
      | (None, None) \<Rightarrow> True | _ \<Rightarrow> False)"

lemma same_agree: "same_but ks now s s' \<Longrightarrow> k \<notin> ks \<Longrightarrow> agree_on k now s s'"
  by (auto simp: same_but_def agree_on_def split: option.splits)

lemma memory_wait_agree:
  "agree_on key now s s' \<Longrightarrow> snd (memory_wait now key cfg cr s') = snd (memory_wait now key cfg cr s)"
  by (auto simp: agree_on_def memory_wait_def memoryRateLimit_def Let_def split: option.splits prod.splits)

lemma bucketRefusal_answer: "snd (bucketRefusal now fl m key cfg msg s) =
   (let wait = (case rs_cache s of
        None \<Rightarrow> snd (memory_wait now key cfg False s)
      | Some c \<Rightarrow> if fails_window fl key then snd (memory_wait now key cfg False s)
                  else snd (snd (slidingWindow now (rc_windowMs cfg) (rc_max cfg) m False (ca_buckets c key))))
    in if wait = 0 then None else Some (TooMany msg wait))"
  by (simp add: bucketRefusal_def cache_wait_def Let_def split_beta split: option.splits)

lemma bucketRefusal_agree:
  assumes "agree_on key now s s'"
  shows "snd (bucketRefusal now fl m key cfg msg s') = snd (bucketRefusal now fl m key cfg msg s)"
  using assms memory_wait_agree [OF assms, of cfg False]
  by (auto simp: bucketRefusal_answer agree_on_def split: option.splits)

section \<open>The tenant's own limit\<close>

lemma tenant_bucket_differs: "tenant_bucket tier ''ts'' t \<noteq> tenant_bucket tier ''t'' t"
  by (simp add: tenant_bucket_def)

lemma instance_limit_cases: "instance_limit rows tier t = [] \<or> (\<exists>c. instance_limit rows tier t = [(''t'', c)])"
  by (simp add: instance_limit_def split: option.splits)

lemma own_limit_cases: "own_limit rows tier t = [] \<or> (\<exists>c. own_limit rows tier t = [(''ts'', c)])"
  by (simp add: own_limit_def split: option.splits)

lemma one_bucket_agree:
  assumes "agree_on (tenant_bucket tier b (rq_tenant q)) now s s'"
  shows "snd (tenant_buckets now fl q tier [(b, c)] s') = snd (tenant_buckets now fl q tier [(b, c)] s)"
  using bucketRefusal_agree [OF assms, of fl "rq_member q" c "''Tenant rate limit exceeded''"]
  by (auto split: prod.splits option.splits)

lemma instance_limit_agree:
  assumes "\<And>k. agree_on k now s s'"
  shows "snd (tenant_buckets now fl q tier (instance_limit rows tier t) s')
    = snd (tenant_buckets now fl q tier (instance_limit rows tier t) s)"
  using instance_limit_cases [of rows tier t]
proof
  assume "\<exists>c. instance_limit rows tier t = [(''t'', c)]"
  then obtain c where c: "instance_limit rows tier t = [(''t'', c)]" ..
  show ?thesis unfolding c by (rule one_bucket_agree [OF assms])
qed simp

lemma own_bucket_tightens:
  assumes "snd (tenant_buckets now fl q tier (own_limit rows tier t @ instance_limit rows tier t) s) = None"
  shows "snd (tenant_buckets now fl q tier (instance_limit rows tier t) s) = None"
proof (cases "own_limit rows tier t = [] \<or> instance_limit rows tier t = []")
  case True then show ?thesis using assms by auto
next
  case False
  then obtain c d where l: "own_limit rows tier t = [(''ts'', c)]" "instance_limit rows tier t = [(''t'', d)]"
    using own_limit_cases instance_limit_cases by blast
  obtain s' r where b: "bucketRefusal now fl (rq_member q) (tenant_bucket tier ''ts'' (rq_tenant q)) c ''Tenant rate limit exceeded'' s = (s', r)"
    by fastforce
  have "agree_on (tenant_bucket tier ''t'' (rq_tenant q)) now s s'"
    using same_agree [OF bucketRefusal_same [OF b]] tenant_bucket_differs [of tier "rq_tenant q"] by simp
  from one_bucket_agree [OF this] show ?thesis using assms b unfolding l
    by (simp split: if_splits option.splits)
qed

text \<open>
  The limit a tenant's own admin sets can only tighten: a request the tenant's
  buckets admit with it they admit without it, whatever value it holds.
\<close>

theorem own_limit_only_tightens:
  assumes "rs_tenants s (tier @ '':'' @ rq_tenant q) = None" "db_rows db = Some (Some rows)"
    and "snd (tenantLimitRefusal now fl (db\<lparr> db_tenantAdmins := Some True \<rparr>) q tier caller s) = None"
  shows "snd (tenantLimitRefusal now fl (db\<lparr> db_tenantAdmins := Some False \<rparr>) q tier caller s) = None"
proof (cases "given caller")
  case True
  let ?t = "rq_tenant q"
  let ?rows = "tenant_rows rows tier ?t"
  let ?st = "\<lambda>l. s\<lparr> rs_tenants := (rs_tenants s)(tier @ '':'' @ ?t \<mapsto> (l, now)) \<rparr>"
  let ?with = "own_limit ?rows tier ?t @ instance_limit ?rows tier ?t"
  have "snd (tenant_buckets now fl q tier ?with (?st ?with)) = None"
    using assms True by (simp add: tenantLimitRefusal_def loadTenantLimit_def Let_def)
  then have on: "snd (tenant_buckets now fl q tier (instance_limit ?rows tier ?t) (?st ?with)) = None"
    by (rule own_bucket_tightens)
  have off: "snd (tenantLimitRefusal now fl (db\<lparr> db_tenantAdmins := Some False \<rparr>) q tier caller s)
      = snd (tenant_buckets now fl q tier (instance_limit ?rows tier ?t) (?st (instance_limit ?rows tier ?t)))"
    using assms(1,2) True by (simp add: tenantLimitRefusal_def loadTenantLimit_def Let_def)
  have "agree_on k now (?st ?with) (?st (instance_limit ?rows tier ?t))" for k
    by (simp add: agree_on_def split: option.splits)
  from instance_limit_agree [OF this] on show ?thesis unfolding off by (rule trans)
qed (simp add: tenantLimitRefusal_def)

definition idle_cache :: rate_cache where
  "idle_cache = \<lparr> ca_buckets = (\<lambda>_. empty_bucket), ca_blocks = Map.empty, ca_penalties = Map.empty \<rparr>"

definition idle_state :: rate_state where
  "idle_state = \<lparr> rs_cache = Some idle_cache, rs_memory = empty_memory, rs_configs = Map.empty, rs_tenants = Map.empty \<rparr>"

definition no_faults :: faults where
  "no_faults = \<lparr> fails_ttl = False, fails_window = (\<lambda>_. False), fails_incr = False, fails_pexpire = False, fails_set = False \<rparr>"

definition visitor :: "string \<Rightarrow> rate_request" where
  "visitor ip = \<lparr> rq_session = None, rq_apiKey = None, rq_keyActsHere = False, rq_user = None, rq_ip = ip,
     rq_tenant = ''t1'', rq_path = ''/api/data'', rq_member = ''m1'' \<rparr>"

definition demo_db :: rate_db where
  "demo_db = \<lparr> db_rows = Some (Some [
       \<lparr> lr_key_prefix = ''tenant:api'', lr_window_ms = 60000, lr_max_requests = 1, lr_is_active = True \<rparr>,
       \<lparr> lr_key_prefix = ''tenant-self:api:t1'', lr_window_ms = 1000, lr_max_requests = 99, lr_is_active = True \<rparr>]),
     db_tenantAdmins = None \<rparr>"

theorem own_limit_only_tightens_witness:
  "snd (tenantLimitRefusal 100 no_faults (demo_db\<lparr> db_tenantAdmins := Some False \<rparr>) (visitor ''1.2.3.4'') ''api'' (Some ''u1'') idle_state) = None"
proof -
  have "snd (tenantLimitRefusal 100 no_faults (demo_db\<lparr> db_tenantAdmins := Some True \<rparr>) (visitor ''1.2.3.4'') ''api'' (Some ''u1'') idle_state) = None"
    by (simp add: tenantLimitRefusal_def given_def loadTenantLimit_def demo_db_def tenant_rows_def tenant_key_def own_limit_def
        instance_limit_def pickTenantLimit_def row_config_def visitor_def idle_state_def idle_cache_def no_faults_def
        bucketRefusal_def cache_wait_def slidingWindow_def SLIDING_WINDOW_LUA_def live_entries_def empty_bucket_def
        zremrangebyscore_def zadd_def tenant_bucket_def starts_with_def Let_def)
  then show ?thesis
    by (intro own_limit_only_tightens [of idle_state "''api''" "visitor ''1.2.3.4''" demo_db])
       (simp_all add: idle_state_def demo_db_def)
qed

section \<open>One request, one identity\<close>

text \<open>The cooldowns and offences of every identity but this one.\<close>

definition cooldowns_but :: "string \<Rightarrow> string \<Rightarrow> rate_state \<Rightarrow> rate_state \<Rightarrow> bool" where
  "cooldowns_but prefix ident s s' \<longleftrightarrow> (case (rs_cache s, rs_cache s') of
     (Some c, Some c') \<Rightarrow> (\<forall>k. k \<noteq> ''rl:block:'' @ prefix @ '':'' @ ident \<longrightarrow> ca_blocks c' k = ca_blocks c k)
       \<and> (\<forall>k. k \<noteq> ''rl:pen:'' @ prefix @ '':'' @ ident \<longrightarrow> ca_penalties c' k = ca_penalties c k)
   | (None, None) \<Rightarrow> True | _ \<Rightarrow> False)"

definition same_cooldowns :: "rate_state \<Rightarrow> rate_state \<Rightarrow> bool" where
  "same_cooldowns s s' \<longleftrightarrow> map_option ca_blocks (rs_cache s') = map_option ca_blocks (rs_cache s)
     \<and> map_option ca_penalties (rs_cache s') = map_option ca_penalties (rs_cache s)"

lemma same_cooldowns_but: "same_cooldowns s s' \<Longrightarrow> cooldowns_but p i s s'"
  by (cases "rs_cache s"; cases "rs_cache s'") (simp_all add: same_cooldowns_def cooldowns_but_def)

lemma cooldowns_but_trans: "cooldowns_but p i s s' \<Longrightarrow> cooldowns_but p i s' s'' \<Longrightarrow> cooldowns_but p i s s''"
  by (auto simp: cooldowns_but_def split: option.splits)

lemma memory_wait_cooldowns: "memory_wait now key cfg cr s = (s', w) \<Longrightarrow> same_cooldowns s s'"
  by (auto simp: memory_wait_def same_cooldowns_def split: prod.splits)

lemma bucketRefusal_cooldowns: "bucketRefusal now fl m key cfg msg s = (s', r) \<Longrightarrow> same_cooldowns s s'"
  using memory_wait_cooldowns
  by (fastforce simp: bucketRefusal_def cache_wait_def same_cooldowns_def Let_def split: prod.splits option.splits if_splits)

lemma escalate_frame:
  "escalate now fl pk bk w wait c = (c', r) \<Longrightarrow> ca_buckets c' = ca_buckets c
     \<and> (\<forall>k. k \<noteq> bk \<longrightarrow> ca_blocks c' k = ca_blocks c k) \<and> (\<forall>k. k \<noteq> pk \<longrightarrow> ca_penalties c' k = ca_penalties c k)"
  by (auto simp: escalate_def Let_def split: if_splits option.splits prod.splits)

lemma tier_refusal_frame:
  assumes "tier_refusal now fl lm q ident cfg s = (s', r)"
  shows "same_but {tier_key (lm_keyPrefix lm) ident} now s s'" "cooldowns_but (lm_keyPrefix lm) ident s s'"
    "r = None \<Longrightarrow> same_cooldowns s s'"
proof -
  let ?key = "tier_key (lm_keyPrefix lm) ident"
  let ?P = "same_but {?key} now s s' \<and> cooldowns_but (lm_keyPrefix lm) ident s s' \<and> (r = None \<longrightarrow> same_cooldowns s s')"
  have mem: ?P if "(let (s', wait) = memory_wait now ?key cfg True s in
       (s', if 0 < wait then Some (TooMany (lm_message lm) wait) else None)) = (s', r)"
    using that memory_wait_same [of now ?key cfg True s s'] memory_wait_cooldowns [of now ?key cfg True s s']
      same_cooldowns_but [of s s'] by (auto split: prod.splits)
  have ?P
  proof (cases "rs_cache s")
    case None then show ?thesis using assms mem by (simp add: tier_refusal_def Let_def)
  next
    case (Some c)
    let ?bk = "''rl:block:'' @ lm_keyPrefix lm @ '':'' @ ident" and ?pk = "''rl:pen:'' @ lm_keyPrefix lm @ '':'' @ ident"
    consider "fails_ttl fl" | "\<not> fails_ttl fl" "0 < block_ttl now ?bk c"
      | "\<not> fails_ttl fl" "\<not> 0 < block_ttl now ?bk c" "fails_window fl ?key"
      | "\<not> fails_ttl fl" "\<not> 0 < block_ttl now ?bk c" "\<not> fails_window fl ?key" by blast
    then show ?thesis
    proof cases
      case 2
      then have "s' = s" "r \<noteq> None" using assms Some by (auto simp: tier_refusal_def Let_def)
      then show ?thesis by (auto simp: same_but_refl cooldowns_but_def split: option.splits)
    next
      case 4
      obtain c' n wait where w: "cache_wait now ?key (rq_member q) cfg True c = (c', n, wait)" by (metis prod_cases3)
      note f = cache_wait_same [OF w Some]
      show ?thesis
      proof (cases "0 < wait")
        case True
        obtain c'' ra where e: "escalate now fl ?pk ?bk (- ((- rc_windowMs cfg) div 1000)) wait c' = (c'', ra)" by fastforce
        have "s' = s\<lparr> rs_cache := Some c'' \<rparr>" "r \<noteq> None" using assms Some 4 w True e by (auto simp: tier_refusal_def Let_def)
        then show ?thesis using f escalate_frame [OF e] Some
          by (auto simp: same_but_def cooldowns_but_def split: option.splits)
      next
        case False
        then have "s' = s\<lparr> rs_cache := Some c' \<rparr>" "r = None" using assms Some 4 w by (auto simp: tier_refusal_def Let_def)
        then show ?thesis using f Some
          by (auto simp: cooldowns_but_def same_cooldowns_def split: option.splits)
      qed
    qed (use assms Some mem in \<open>simp_all add: tier_refusal_def Let_def\<close>)
  qed
  then show "same_but {?key} now s s'" "cooldowns_but (lm_keyPrefix lm) ident s s'" "r = None \<Longrightarrow> same_cooldowns s s'" by blast+
qed

lemma loadConfig_frame: "loadConfig now db k s = (s', c) \<Longrightarrow> rs_cache s' = rs_cache s \<and> rs_memory s' = rs_memory s"
  by (auto simp: loadConfig_def Let_def split: option.splits if_splits prod.splits)

lemma live_limits_frame: "live_limits now db lm b s = (s', c) \<Longrightarrow> rs_cache s' = rs_cache s \<and> rs_memory s' = rs_memory s"
  by (auto simp: live_limits_def dest!: loadConfig_frame split: prod.splits option.splits if_splits)

lemma loadTenantLimit_frame: "loadTenantLimit now db t n s = (s', l) \<Longrightarrow> rs_cache s' = rs_cache s \<and> rs_memory s' = rs_memory s"
  by (auto simp: loadTenantLimit_def Let_def split: option.splits if_splits prod.splits)

lemma frame_same: "rs_cache s' = rs_cache s \<Longrightarrow> rs_memory s' = rs_memory s \<Longrightarrow> same_but {} now s s' \<and> same_cooldowns s s'"
  by (auto simp: same_but_def same_cooldowns_def split: option.splits)

lemma same_cooldowns_trans: "same_cooldowns s s' \<Longrightarrow> same_cooldowns s' s'' \<Longrightarrow> same_cooldowns s s''"
  by (simp add: same_cooldowns_def)

text \<open>The counters a request may touch: its identity's, its key's and its tenant's.\<close>

definition own_buckets :: "limiter \<Rightarrow> rate_request \<Rightarrow> string set" where
  "own_buckets lm q = {tier_key (lm_keyPrefix lm) (identity lm q)}
     \<union> (case rateLimitCaller q of None \<Rightarrow> {} | Some caller \<Rightarrow>
          {own_key_bucket caller, tenant_bucket (lm_keyPrefix lm) ''ts'' (rq_tenant q), tenant_bucket (lm_keyPrefix lm) ''t'' (rq_tenant q)})"

lemma keyOwn_frame:
  assumes "keyOwnLimitRefusal now fl q tier caller s = (s', r)"
  shows "same_but (case caller of None \<Rightarrow> {} | Some c \<Rightarrow> {own_key_bucket c}) now s s' \<and> same_cooldowns s s'"
proof -
  consider "s' = s" | c cfg msg where "caller = Some c" "bucketRefusal now fl (rq_member q) (own_key_bucket c) cfg msg s = (s', r)"
    using assms by (auto simp: keyOwnLimitRefusal_def split: option.splits if_splits)
  then show ?thesis
  proof cases
    case 1 then show ?thesis by (simp add: same_but_refl same_cooldowns_def)
  next
    case 2
    then show ?thesis using bucketRefusal_same [OF 2(2)] bucketRefusal_cooldowns [OF 2(2)] by simp
  qed
qed

lemma tenant_buckets_frame:
  "tenant_buckets now fl q tier limits s = (s', r) \<Longrightarrow> \<forall>(b, c) \<in> set limits. tenant_bucket tier b (rq_tenant q) \<in> ks \<Longrightarrow>
     same_but ks now s s' \<and> same_cooldowns s s'"
proof (induction now fl q tier limits s rule: tenant_buckets.induct)
  case (1 now fl q tier s) then show ?case by (simp add: same_but_refl same_cooldowns_def)
next
  case (2 now fl q tier b cfg limits s)
  let ?skip = "starts_with ''/api/tenants/current/rate-limits'' (rq_path q) \<and> b = ''ts''"
  obtain s1 r1 where b: "bucketRefusal now fl (rq_member q) (tenant_bucket tier b (rq_tenant q)) cfg ''Tenant rate limit exceeded'' s = (s1, r1)"
    by fastforce
  have one: "same_but ks now s s1 \<and> same_cooldowns s s1"
    using same_but_mono [OF bucketRefusal_same [OF b]] bucketRefusal_cooldowns [OF b] 2(4) by auto
  show ?case
  proof (cases "?skip \<or> r1 \<noteq> None")
    case True
    then show ?thesis using 2 b one by (auto split: if_splits option.splits)
  next
    case False
    then have "tenant_buckets now fl q tier limits s1 = (s', r)" using 2(3) b by (auto split: if_splits)
    then have "same_but ks now s1 s' \<and> same_cooldowns s1 s'" using 2(2) [OF _ b [symmetric]] False 2(4) by auto
    then show ?thesis using one same_but_trans [of ks now s s1 ks s'] same_cooldowns_trans by auto
  qed
qed

text \<open>The cached limits of a tenant name its two buckets and no other.\<close>

definition two_buckets :: "(string \<times> rate_config) list \<Rightarrow> bool" where
  "two_buckets l \<longleftrightarrow> list_all (\<lambda>p. fst p = ''ts'' \<or> fst p = ''t'') l"

definition tenant_cache_ok :: "rate_state \<Rightarrow> bool" where
  "tenant_cache_ok s \<longleftrightarrow> (\<forall>k l t. rs_tenants s k = Some (l, t) \<longrightarrow> two_buckets l)"

lemma loadTenantLimit_ok:
  assumes "tenant_cache_ok s" "loadTenantLimit now db tier tenant s = (s', l)"
  shows "two_buckets l \<and> tenant_cache_ok s'"
proof -
  have "two_buckets (own_limit rows tier tenant @ instance_limit rows tier tenant)" "two_buckets (instance_limit rows tier tenant)" for rows
    using own_limit_cases [of rows tier tenant] instance_limit_cases [of rows tier tenant] by (auto simp: two_buckets_def)
  moreover have "two_buckets []" by (simp add: two_buckets_def)
  moreover have "two_buckets l0" if "rs_tenants s k = Some (l0, t)" for k l0 t
    using assms(1) that by (auto simp: tenant_cache_ok_def)
  ultimately show ?thesis
    using assms(2) unfolding loadTenantLimit_def Let_def tenant_cache_ok_def
    by (auto split: option.splits if_splits prod.splits)
qed

lemma tenantLimitRefusal_frame:
  assumes "tenant_cache_ok s" "tenantLimitRefusal now fl db q tier caller s = (s', r)"
  shows "same_but (case caller of None \<Rightarrow> {} | Some _ \<Rightarrow>
      {tenant_bucket tier ''ts'' (rq_tenant q), tenant_bucket tier ''t'' (rq_tenant q)}) now s s' \<and> same_cooldowns s s'"
proof (cases caller)
  case None
  then show ?thesis using assms(2) by (simp add: tenantLimitRefusal_def given_def same_but_refl same_cooldowns_def)
next
  case (Some c)
  show ?thesis
  proof (cases "given caller")
    case False
    then show ?thesis using assms(2) Some same_but_mono [OF same_but_refl] by (simp add: tenantLimitRefusal_def same_but_refl same_cooldowns_def)
  next
    case True
    obtain s1 l where l: "loadTenantLimit now db tier (rq_tenant q) s = (s1, l)" by fastforce
    then have t: "tenant_buckets now fl q tier l s1 = (s', r)" using assms(2) True by (simp add: tenantLimitRefusal_def)
    have "\<forall>(b, c) \<in> set l. tenant_bucket tier b (rq_tenant q)
        \<in> {tenant_bucket tier ''ts'' (rq_tenant q), tenant_bucket tier ''t'' (rq_tenant q)}"
      using loadTenantLimit_ok [OF assms(1) l] by (fastforce simp: two_buckets_def list_all_iff)
    from tenant_buckets_frame [OF t this] frame_same [of s1 s now] loadTenantLimit_frame [OF l] show ?thesis
      using same_but_trans [of "{}" now s s1 _ s'] same_cooldowns_trans [of s s1 s'] Some by fastforce
  qed
qed

lemma keyOwn_tenants: "keyOwnLimitRefusal now fl q tier caller s = (s', r) \<Longrightarrow> rs_tenants s' = rs_tenants s"
  by (auto simp: keyOwnLimitRefusal_def bucketRefusal_def memory_wait_def Let_def split: option.splits if_splits prod.splits)

lemma tier_tenants: "tier_refusal now fl lm q i cfg s = (s', r) \<Longrightarrow> rs_tenants s' = rs_tenants s"
  by (auto simp: tier_refusal_def memory_wait_def Let_def split: option.splits if_splits prod.splits)

lemma live_limits_tenants: "live_limits now db lm b s = (s', c) \<Longrightarrow> rs_tenants s' = rs_tenants s"
  by (auto simp: live_limits_def loadConfig_def Let_def split: prod.splits option.splits if_splits)

text \<open>
  Callers are kept apart: a request changes no counter but those of its own
  identity, its own key and its own tenant, and no cooldown but its identity's; one its
  tier refuses spends nothing of its key's or its tenant's budget, and one its tier
  admits leaves every cooldown as it was.
\<close>

theorem callers_are_apart:
  assumes "tenant_cache_ok s" "rateLimit now fl env db lm q s = (s', answer)"
  shows "same_but (own_buckets lm q) now s s' \<and> cooldowns_but (lm_keyPrefix lm) (identity lm q) s s'
    \<and> (case live_limits now db lm (bucket_id lm q) s of (s2, cfg) \<Rightarrow>
         case tier_refusal now fl lm q (identity lm q) cfg s2 of
           (s3, Some refused) \<Rightarrow> same_but {tier_key (lm_keyPrefix lm) (identity lm q)} now s s'
         | (s3, None) \<Rightarrow> same_cooldowns s s')"
proof -
  let ?tk = "{tier_key (lm_keyPrefix lm) (identity lm q)}"
  obtain s2 cfg where l: "live_limits now db lm (bucket_id lm q) s = (s2, cfg)" by fastforce
  obtain s3 r3 where t: "tier_refusal now fl lm q (identity lm q) cfg s2 = (s3, r3)" by fastforce
  obtain s4 r4 where k: "keyOwnLimitRefusal now fl q (lm_keyPrefix lm) (rateLimitCaller q) s3 = (s4, r4)" by fastforce
  obtain s5 r5 where n: "tenantLimitRefusal now fl db q (lm_keyPrefix lm) (rateLimitCaller q) s4 = (s5, r5)" by fastforce
  have ok: "tenant_cache_ok s4"
    using assms(1) live_limits_tenants [OF l] tier_tenants [OF t] keyOwn_tenants [OF k] by (simp add: tenant_cache_ok_def)
  have e2: "same_but {} now s s2" "same_cooldowns s s2" using frame_same live_limits_frame [OF l] by auto
  have e3: "same_but ?tk now s s3" "cooldowns_but (lm_keyPrefix lm) (identity lm q) s s3" "r3 = None \<Longrightarrow> same_cooldowns s s3"
    using same_but_trans [OF e2(1) tier_refusal_frame(1) [OF t]]
      cooldowns_but_trans [OF same_cooldowns_but [OF e2(2)] tier_refusal_frame(2) [OF t]]
      same_cooldowns_trans [OF e2(2) tier_refusal_frame(3) [OF t]] by simp_all
  have e4: "same_but (own_buckets lm q) now s s4" "same_cooldowns s3 s4"
    using same_but_mono [OF same_but_trans [OF e3(1) keyOwn_frame [OF k, THEN conjunct1]], of "own_buckets lm q"]
      keyOwn_frame [OF k] by (auto simp: own_buckets_def split: option.splits)
  have e5: "same_but (own_buckets lm q) now s s5" "same_cooldowns s4 s5"
    using same_but_mono [OF same_but_trans [OF e4(1) tenantLimitRefusal_frame [OF ok n, THEN conjunct1]], of "own_buckets lm q"]
      tenantLimitRefusal_frame [OF ok n] by (auto simp: own_buckets_def split: option.splits)
  have tko: "?tk \<subseteq> own_buckets lm q" by (simp add: own_buckets_def)
  consider "s' = s2" | "r3 \<noteq> None" "s' = s3" | "r3 = None" "s' = s4" | "r3 = None" "s' = s5"
    using assms(2) l t k n by (auto simp: rateLimit_def split: if_splits option.splits)
  then show ?thesis
  proof cases
    case 1
    then show ?thesis using l t e2 same_but_mono [OF e2(1)] same_cooldowns_but [OF e2(2)] by (auto split: option.splits)
  next
    case 2
    then show ?thesis using l t e3 same_but_mono [OF e3(1) tko] by auto
  next
    case 3
    then have "same_cooldowns s s4" using same_cooldowns_trans [OF e3(3) e4(2)] by simp
    then show ?thesis using l t 3 e4 same_cooldowns_but by auto
  next
    case 4
    then have "same_cooldowns s s5" using same_cooldowns_trans [OF same_cooldowns_trans [OF e3(3) e4(2)] e5(2)] by simp
    then show ?thesis using l t 4 e5 same_cooldowns_but by auto
  qed
qed

definition api_limiter :: limiter where
  "api_limiter = \<lparr> lm_keyPrefix = ''api'', lm_config = \<lparr> rc_windowMs = 60000, rc_max = 200 \<rparr>,
     lm_message = ''Too Many Requests'', lm_perIp = False \<rparr>"

definition open_env :: rate_env where
  "open_env = \<lparr> en_test = False, en_deny = (\<lambda>_. False), en_allow = (\<lambda>_. False) \<rparr>"

theorem callers_are_apart_witness:
  "same_but {''rl:api:1.2.3.4''} 100 idle_state (fst (rateLimit 100 no_faults open_env demo_db api_limiter (visitor ''1.2.3.4'') idle_state))"
proof -
  obtain s' a where r: "rateLimit 100 no_faults open_env demo_db api_limiter (visitor ''1.2.3.4'') idle_state = (s', a)" by fastforce
  have "tenant_cache_ok idle_state" by (simp add: tenant_cache_ok_def idle_state_def)
  from callers_are_apart [OF this r] have "same_but (own_buckets api_limiter (visitor ''1.2.3.4'')) 100 idle_state s'" ..
  moreover have "own_buckets api_limiter (visitor ''1.2.3.4'') = {''rl:api:1.2.3.4''}"
    by (simp add: own_buckets_def tier_key_def identity_def bucket_id_def rateLimitCaller_def given_def visitor_def
        api_limiter_def rateLimitIpBucket_def)
  ultimately show ?thesis using r by simp
qed

section \<open>One bucket per /64\<close>

lemma hex_group_chars: "hex_group g \<Longrightarrow> c \<in> set g \<Longrightarrow> c \<noteq> CHR '':'' \<and> lower_char c = c \<and> digit_val c < 16 \<and> digit_char (digit_val c) = c"
proof -
  assume "hex_group g" "c \<in> set g"
  then have "is_digit c \<or> (97 \<le> code c \<and> code c \<le> 102)" by (simp add: hex_group_def list_all_iff)
  then show ?thesis
    by (auto simp: is_digit_def lower_char_def digit_val_def digit_char_def)
qed

lemma radix_numeral:
  "s \<noteq> [] \<Longrightarrow> \<forall>c \<in> set s. digit_val c < r \<and> digit_char (digit_val c) = c \<Longrightarrow> 2 \<le> r \<Longrightarrow> r \<le> 36 \<Longrightarrow>
   length s = 1 \<or> hd s \<noteq> CHR ''0'' \<Longrightarrow> radix r (numeral_value r s) = s \<and> (hd s \<noteq> CHR ''0'' \<longrightarrow> 0 < numeral_value r s)"
proof (induction s rule: rev_induct)
  case (snoc c s)
  show ?case
  proof (cases "s = []")
    case True
    have "c \<noteq> CHR ''0'' \<longrightarrow> 0 < digit_val c"
      using snoc.prems(2) digit_char_zero by (cases "digit_val c = 0") auto
    then show ?thesis using True snoc.prems by (simp add: numeral_value_def radix.simps [of r "digit_val c"])
  next
    case False
    then have h: "hd s \<noteq> CHR ''0''" "hd (s @ [c]) = hd s" using snoc.prems(5) by (cases s; auto)+
    then have ih: "radix r (numeral_value r s) = s" "0 < numeral_value r s" using snoc False by auto
    let ?v = "numeral_value r s"
    have d: "digit_val c < r" "digit_char (digit_val c) = c" using snoc.prems(2) by auto
    have "r \<le> ?v * r + digit_val c" using ih(2) snoc.prems(3) by (metis One_nat_def Suc_leI mult_le_mono1 nat_mult_1 trans_le_add1)
    moreover have "(?v * r + digit_val c) div r = ?v" "(?v * r + digit_val c) mod r = digit_val c" using d(1) by simp_all
    ultimately have "radix r (?v * r + digit_val c) = radix r ?v @ [digit_char (digit_val c)]"
      using snoc.prems(3) by (subst radix.simps) simp
    then show ?thesis using ih d h by (simp add: numeral_append)
  qed
qed simp

lemma numeral_zeros: "numeral_value r (dropWhile (\<lambda>c. c = CHR ''0'') s) = numeral_value r s"
proof (induction s)
  case (Cons c s)
  have "numeral_value r (CHR ''0'' # s) = numeral_value r s" by (simp add: numeral_value_def digit_val_def is_digit_def)
  then show ?case using Cons by auto
qed simp

lemma strip_zeros_hex: "hex_group g \<Longrightarrow> strip_zeros g = hex (numeral_value 16 g)"
proof (cases "dropWhile (\<lambda>c. c = CHR ''0'') g = []")
  case True
  assume "hex_group g"
  then have "strip_zeros g = ''0''" using True by (simp add: strip_zeros_def hex_group_def)
  moreover have "numeral_value 16 g = 0" using numeral_zeros [of 16 g] True by (simp add: numeral_value_def)
  ultimately show ?thesis by (simp add: radix.simps [of 16 0] digit_char_zero)
next
  case False
  assume g: "hex_group g"
  let ?t = "dropWhile (\<lambda>c. c = CHR ''0'') g"
  have "hd ?t \<noteq> CHR ''0''" using hd_dropWhile [OF False] by simp
  moreover have "\<forall>c \<in> set ?t. digit_val c < 16 \<and> digit_char (digit_val c) = c"
    using hex_group_chars [OF g] set_dropWhileD [of _ "\<lambda>c. c = CHR ''0''" g] by blast
  ultimately have "radix 16 (numeral_value 16 ?t) = ?t" using radix_numeral [of ?t 16] False by simp
  then show ?thesis using False numeral_zeros [of 16 g] unfolding strip_zeros_def Let_def by (simp only: if_False)
qed

definition groups_bucket :: "string list \<Rightarrow> string" where
  "groups_bucket gs = js_join '':'' (map strip_zeros (take 4 gs)) @ ''::/64''"

text \<open>No two colons in a row, none at the end.\<close>

fun single :: "string \<Rightarrow> bool" where
  "single [] \<longleftrightarrow> True"
| "single [a] \<longleftrightarrow> a \<noteq> CHR '':''"
| "single (a # b # s) \<longleftrightarrow> \<not> (a = CHR '':'' \<and> b = CHR '':'') \<and> single (b # s)"

lemma split_double_single: "single x \<Longrightarrow> split_double (x @ CHR '':'' # CHR '':'' # s) = x # split_double s"
  by (induction x rule: single.induct) auto

lemma split_double_none: "single x \<Longrightarrow> split_double x = [x]"
  by (induction x rule: single.induct) auto

lemma single_append: "g \<noteq> [] \<Longrightarrow> CHR '':'' \<notin> set g \<Longrightarrow> s \<noteq> [] \<Longrightarrow> hd s \<noteq> CHR '':'' \<Longrightarrow> single s \<Longrightarrow> single (g @ CHR '':'' # s)"
  by (induction g rule: single.induct) (auto simp: neq_Nil_conv)

lemma single_word: "CHR '':'' \<notin> set g \<Longrightarrow> single g"
  by (induction g rule: single.induct) auto

lemma join_groups:
  "\<forall>g \<in> set gs. g \<noteq> [] \<and> CHR '':'' \<notin> set g \<Longrightarrow> single (js_join '':'' gs)
     \<and> (gs \<noteq> [] \<longrightarrow> js_join '':'' gs \<noteq> [] \<and> hd (js_join '':'' gs) \<noteq> CHR '':'')"
proof (induction gs rule: induct_list012)
  case (2 x) then show ?case by (cases x) (auto simp: single_word)
next
  case (3 x y zs)
  then have x: "x \<noteq> []" "CHR '':'' \<notin> set x" by auto
  moreover have "hd (x @ s) \<noteq> CHR '':''" for s using x by (cases x) auto
  ultimately show ?case using 3 by (auto simp: single_append)
qed simp

lemma hex_groups: "\<forall>g \<in> set gs. hex_group g \<Longrightarrow> \<forall>g \<in> set gs. g \<noteq> [] \<and> CHR '':'' \<notin> set g"
  using hex_group_chars by (fastforce simp: hex_group_def)

lemma groups_lower:
  assumes "\<forall>g \<in> set gs. hex_group g"
  shows "js_lower (js_join '':'' gs) = js_join '':'' gs"
proof -
  have c: "lower_char (CHR '':'') = CHR '':''" by (simp add: lower_char_def)
  have "lower_char c = c" if "c \<in> set (js_join '':'' gs)" for c
    using that assms hex_group_chars c
    by (induction gs rule: induct_list012) (auto simp: Ball_def)
  then show ?thesis by (simp add: js_lower_def map_idI)
qed

lemma colon_parts_join: "\<forall>g \<in> set gs. hex_group g \<Longrightarrow> colon_parts (js_join '':'' gs) = gs"
proof (cases "gs = []")
  case False
  assume h: "\<forall>g \<in> set gs. hex_group g"
  then have "js_split (CHR '':'') (js_join [CHR '':''] gs) = gs" using False hex_groups by (intro js_split_join) auto
  then show ?thesis using join_groups [OF hex_groups [OF h]] False by (simp add: colon_parts_def)
qed (simp add: colon_parts_def)

text \<open>An address spelled with all its groups, and one with a run of zero groups left out.\<close>

lemma full_bucket:
  assumes "length gs = 8" "\<forall>g \<in> set gs. hex_group g"
  shows "rateLimitIpBucket (js_join '':'' gs) = groups_bucket gs"
proof -
  obtain a b rest where gs: "gs = a # b # rest" using assms(1) by (cases gs; cases "tl gs") auto
  have "split_double (js_join '':'' gs) = [js_join '':'' gs]"
    using join_groups [OF hex_groups [OF assms(2)]] by (intro split_double_none) simp
  moreover have "CHR '':'' \<in> set (js_join '':'' gs)" by (simp add: gs)
  moreover have "list_all hex_group gs" using assms(2) by (simp add: list_all_iff)
  ultimately show ?thesis using assms
    by (simp add: rateLimitIpBucket_def Let_def groups_lower colon_parts_join groups_bucket_def)
qed

lemma short_bucket:
  assumes "length hs + length ts < 8" "\<forall>g \<in> set hs. hex_group g" "\<forall>g \<in> set ts. hex_group g"
  shows "rateLimitIpBucket (js_join '':'' hs @ ''::'' @ js_join '':'' ts)
    = groups_bucket (hs @ replicate (8 - length hs - length ts) ''0'' @ ts)"
proof -
  have l: "js_lower (js_join '':'' hs @ ''::'' @ js_join '':'' ts) = js_join '':'' hs @ ''::'' @ js_join '':'' ts"
    using groups_lower [OF assms(2)] groups_lower [OF assms(3)] by (simp add: js_lower_def lower_char_def)
  have "split_double (js_join '':'' hs @ ''::'' @ js_join '':'' ts) = [js_join '':'' hs, js_join '':'' ts]"
    using join_groups [OF hex_groups [OF assms(2)]] join_groups [OF hex_groups [OF assms(3)]]
    by (simp add: split_double_single split_double_none)
  moreover have "hex_group ''0''" by (simp add: hex_group_def is_digit_def)
  then have "list_all hex_group (hs @ replicate (8 - length hs - length ts) ''0'' @ ts)"
    using assms(2,3) by (auto simp: list_all_iff)
  moreover have "nat (8 - int (length hs) - int (length ts)) = 8 - length hs - length ts" using assms(1) by linarith
  ultimately show ?thesis using assms l
    by (simp add: rateLimitIpBucket_def Let_def colon_parts_join groups_bucket_def)
qed

lemma groups_bucket_iff:
  assumes "length gs = 8" "length hs = 8" "\<forall>g \<in> set gs. hex_group g" "\<forall>g \<in> set hs. hex_group g"
  shows "groups_bucket gs = groups_bucket hs \<longleftrightarrow> map (numeral_value 16) (take 4 gs) = map (numeral_value 16) (take 4 hs)"
proof
  have s: "map strip_zeros (take 4 xs) = map hex (map (numeral_value 16) (take 4 xs))" if "\<forall>g \<in> set xs. hex_group g" for xs
    using that strip_zeros_hex by (auto dest: in_set_takeD)
  assume "groups_bucket gs = groups_bucket hs"
  then have "js_join '':'' (map strip_zeros (take 4 gs)) = js_join '':'' (map strip_zeros (take 4 hs))"
    by (simp add: groups_bucket_def)
  moreover have "js_split (CHR '':'') (js_join '':'' (map strip_zeros (take 4 xs))) = map strip_zeros (take 4 xs)"
    if "length xs = 8" "\<forall>g \<in> set xs. hex_group g" for xs
  proof (rule js_split_join)
    show "CHR '':'' \<notin> set x" if x: "x \<in> set (map strip_zeros (take 4 xs))" for x
    proof -
      obtain n where "x = hex n" using x that s [OF \<open>\<forall>g \<in> set xs. hex_group g\<close>] by auto
      then show ?thesis using hex_chars [of "CHR '':''" n] by (auto simp: is_digit_def)
    qed
  qed (use that in auto)
  ultimately have "map strip_zeros (take 4 gs) = map strip_zeros (take 4 hs)" using assms by metis
  then have "map hex (map (numeral_value 16) (take 4 gs)) = map hex (map (numeral_value 16) (take 4 hs))"
    by (simp only: s [OF assms(3)] s [OF assms(4)])
  moreover have "inj (radix 16)" using radix_inject [of 16] by (intro injI) simp
  ultimately show "map (numeral_value 16) (take 4 gs) = map (numeral_value 16) (take 4 hs)"
    by (simp only: inj_map_eq_map)
next
  have s: "map strip_zeros (take 4 xs) = map hex (map (numeral_value 16) (take 4 xs))" if "\<forall>g \<in> set xs. hex_group g" for xs
    using that strip_zeros_hex by (auto dest: in_set_takeD)
  assume "map (numeral_value 16) (take 4 gs) = map (numeral_value 16) (take 4 hs)"
  then show "groups_bucket gs = groups_bucket hs" unfolding groups_bucket_def s [OF assms(3)] s [OF assms(4)] by simp
qed

text \<open>
  One bucket per subscriber: two IPv6 addresses, one spelled in full and one with a
  run of zeros left out, and with any leading zeros, share their bucket exactly when
  they lie in the same /64.
\<close>

theorem one_bucket_per_64:
  assumes "length gs = 8" "length hs + length ts < 8"
    and "\<forall>g \<in> set gs \<union> set hs \<union> set ts. hex_group g"
  shows "rateLimitIpBucket (js_join '':'' gs) = rateLimitIpBucket (js_join '':'' hs @ ''::'' @ js_join '':'' ts)
    \<longleftrightarrow> map (numeral_value 16) (take 4 gs)
      = map (numeral_value 16) (take 4 (hs @ replicate (8 - length hs - length ts) ''0'' @ ts))"
proof -
  have "\<forall>g \<in> set (hs @ replicate (8 - length hs - length ts) ''0'' @ ts). hex_group g"
    using assms(3) by (auto simp: hex_group_def is_digit_def)
  then show ?thesis using assms full_bucket [OF assms(1)] short_bucket [OF assms(2)]
    by (subst groups_bucket_iff [symmetric]) auto
qed

theorem one_bucket_per_64_witness:
  "rateLimitIpBucket ''1:02:0:0:a:b:c:d'' = rateLimitIpBucket ''1:2::7''"
proof -
  have "rateLimitIpBucket (js_join '':'' [''1'', ''02'', ''0'', ''0'', ''a'', ''b'', ''c'', ''d''])
    = rateLimitIpBucket (js_join '':'' [''1'', ''2''] @ ''::'' @ js_join '':'' [''7''])"
    by (subst one_bucket_per_64) (simp_all add: hex_group_def is_digit_def numeral_value_def digit_val_def numeral_eq_Suc)
  then show ?thesis by simp
qed

end
