(* ===== verification/JsRegex.thy ===== *)
theory JsRegex
  imports Prelude
begin

text \<open>
  Regular expressions of JavaScript as the source uses them: alternation,
  sequence, optional groups, word boundaries, anchors, and repetition of a
  character class.  A position is what precedes it, reversed, and what follows;
  an expression maps a position to the positions it can match up to, the
  preferred one first, so that a sequence backtracks as the engine does.  The
  flag \<open>i\<close> folds the ASCII letters.
\<close>

named_theorems rx "equations of the regular expressions"

definition is_word :: "char \<Rightarrow> bool" where
  "is_word c \<longleftrightarrow> is_letter c \<or> is_digit c \<or> c = CHR ''_''"

type_synonym pos = "string \<times> string"
type_synonym rexp = "pos \<Rightarrow> pos list"

definition fold_case :: "char \<Rightarrow> char" where
  "fold_case c = (if 65 \<le> code c \<and> code c \<le> 90 then char_of (code c + 32) else c)"

fun rx_char :: "(char \<Rightarrow> bool) \<Rightarrow> rexp" where
  "rx_char P (l, []) = []"
| "rx_char P (l, c # cs) = (if P c then [(c # l, cs)] else [])"

lemma fold_case_code [code]:
  "fold_case (Char b0 b1 b2 b3 b4 b5 b6 b7) =
    (if \<not> b7 \<and> b6 \<and> \<not> b5 \<and> (b0 \<or> b1 \<or> b2 \<or> b3 \<or> b4) \<and> \<not> (b4 \<and> b3 \<and> (b2 \<or> b1 \<and> b0))
     then Char b0 b1 b2 b3 b4 True b6 b7 else Char b0 b1 b2 b3 b4 b5 b6 b7)"
  by (cases b0; cases b1; cases b2; cases b3; cases b4; cases b5; cases b6; cases b7)
    (simp_all add: fold_case_def char_of_def bit_iff_odd)

definition is_high :: "char \<Rightarrow> bool" where
  "is_high c \<longleftrightarrow> 128 \<le> code c"

lemma is_high_code [code]: "is_high (Char b0 b1 b2 b3 b4 b5 b6 b7) \<longleftrightarrow> b7"
  by (cases b0; cases b1; cases b2; cases b3; cases b4; cases b5; cases b6; cases b7)
    (simp_all add: is_high_def)

text \<open>A literal under the flag \<open>i\<close>, and one read as written.\<close>

fun rx_word :: "string \<Rightarrow> rexp" where
  "rx_word [] p = [p]"
| "rx_word (w # ws) (l, []) = []"
| "rx_word (w # ws) (l, c # cs) = (if fold_case c = fold_case w then rx_word ws (c # l, cs) else [])"

fun rx_many_from :: "(char \<Rightarrow> bool) \<Rightarrow> string \<Rightarrow> string \<Rightarrow> pos list" where
  "rx_many_from P l [] = [(l, [])]"
| "rx_many_from P l (c # cs) = (if P c then rx_many_from P (c # l) cs else []) @ [(l, c # cs)]"

definition rx_many :: "(char \<Rightarrow> bool) \<Rightarrow> rexp" where
  "rx_many P p = rx_many_from P (fst p) (snd p)"

fun rx_seq :: "rexp list \<Rightarrow> rexp" where
  "rx_seq [] p = [p]"
| "rx_seq (a # as) p = concat (map (rx_seq as) (a p))"

definition rx_some :: "(char \<Rightarrow> bool) \<Rightarrow> rexp" where
  "rx_some P = rx_seq [rx_char P, rx_many P]"

definition rx_alt :: "rexp list \<Rightarrow> rexp" where
  "rx_alt as p = concat (map (\<lambda>a. a p) as)"

definition rx_opt :: "rexp \<Rightarrow> rexp" where
  "rx_opt a p = a p @ [p]"

definition starts_word :: "string \<Rightarrow> bool" where
  "starts_word s \<longleftrightarrow> (case s of [] \<Rightarrow> False | c # _ \<Rightarrow> is_word c)"

definition rx_bound :: rexp where
  "rx_bound p = (if starts_word (fst p) \<noteq> starts_word (snd p) then [p] else [])"

definition rx_begin :: rexp where
  "rx_begin p = (if fst p = [] then [p] else [])"

definition rx_end :: rexp where
  "rx_end p = (if snd p = [] then [p] else [])"

text \<open>\<open>(?<!a)\<close>: no match of \<open>a\<close> ends here.\<close>

definition rx_not_behind :: "rexp \<Rightarrow> rexp" where
  "rx_not_behind a p =
    (if list_ex (\<lambda>k. list_ex (\<lambda>q. snd q = snd p)
                  (a (drop k (fst p), rev (take k (fst p)) @ snd p)))
          [0 ..< Suc (length (fst p))]
     then [] else [p])"

text \<open>\<open>a.test(s)\<close>, at any offset; \<open>rx_here\<close> tries one position.\<close>

definition rx_here :: "rexp \<Rightarrow> pos \<Rightarrow> bool" where
  "rx_here a p \<longleftrightarrow> a p \<noteq> []"

fun rx_search :: "rexp \<Rightarrow> string \<Rightarrow> string \<Rightarrow> (pos \<times> pos) option" where
  "rx_search a l [] = (case a (l, []) of [] \<Rightarrow> None | q # _ \<Rightarrow> Some ((l, []), q))"
| "rx_search a l (c # cs) =
    (case a (l, c # cs) of q # _ \<Rightarrow> Some ((l, c # cs), q) | [] \<Rightarrow> rx_search a (c # l) cs)"

definition rx_test :: "rexp \<Rightarrow> string \<Rightarrow> bool" where
  "rx_test a s \<longleftrightarrow> rx_search a [] s \<noteq> None"

text \<open>
  \<open>s.matchAll(a)\<close> for an expression that matches no empty text: each match's start
  and end, the next search starting where the last match ended.  \<open>k\<close> counts the
  characters of the last match still to be passed.
\<close>

fun rx_all :: "rexp \<Rightarrow> nat \<Rightarrow> string \<Rightarrow> string \<Rightarrow> (pos \<times> pos) list" where
  "rx_all a k l [] = []"
| "rx_all a (Suc k) l (c # cs) = rx_all a k (c # l) cs"
| "rx_all a 0 l (c # cs) =
    (case a (l, c # cs) of [] \<Rightarrow> rx_all a 0 (c # l) cs
     | q # _ \<Rightarrow> ((l, c # cs), q) # rx_all a (length cs - length (snd q)) (c # l) cs)"

section \<open>Matches are slices\<close>

text \<open>\<open>q\<close> lies ahead of \<open>p\<close> in the same text.\<close>

definition ahead :: "pos \<Rightarrow> pos \<Rightarrow> bool" where
  "ahead p q \<longleftrightarrow> (\<exists>u. snd p = u @ snd q \<and> fst q = rev u @ fst p)"

lemma ahead_refl [simp, intro]: "ahead p p"
  by (simp add: ahead_def)

lemma ahead_trans [trans]: "ahead p q \<Longrightarrow> ahead q r \<Longrightarrow> ahead p r"
  by (force simp: ahead_def)

lemma ahead_step [intro]: "ahead (c # l, cs) q \<Longrightarrow> ahead (l, c # cs) q"
  by (force simp: ahead_def)

lemma ahead_length: "ahead p q \<Longrightarrow> length (snd q) \<le> length (snd p)"
  by (auto simp: ahead_def)

definition advances :: "rexp \<Rightarrow> bool" where
  "advances a \<longleftrightarrow> (\<forall>p q. q \<in> set (a p) \<longrightarrow> ahead p q)"

named_theorems adv "expressions whose matches lie ahead"

lemma advances_char [adv]: "advances (rx_char P)"
proof -
  have "q \<in> set (rx_char P p) \<Longrightarrow> ahead p q" for p q
    by (cases "(P, p)" rule: rx_char.cases) (auto simp: ahead_def split: if_splits)
  then show ?thesis by (simp add: advances_def)
qed

lemma advances_word [adv]: "advances (rx_word w)"
proof -
  have "q \<in> set (rx_word w p) \<Longrightarrow> ahead p q" for p q
    by (induction w p rule: rx_word.induct) (auto split: if_splits)
  then show ?thesis by (simp add: advances_def)
qed

lemma advances_many [adv]: "advances (rx_many P)"
proof -
  have "q \<in> set (rx_many_from P l r) \<Longrightarrow> ahead (l, r) q" for l r q
    by (induction P l r rule: rx_many_from.induct) (auto split: if_splits)
  then show ?thesis by (auto simp: advances_def rx_many_def)
qed

lemma advances_seq [adv]: "(\<And>a. a \<in> set as \<Longrightarrow> advances a) \<Longrightarrow> advances (rx_seq as)"
proof (induction as)
  case Nil then show ?case by (simp add: advances_def)
next
  case (Cons a as)
  then have "advances a" "advances (rx_seq as)" by auto
  then show ?case by (fastforce simp: advances_def intro: ahead_trans)
qed

lemma advances_alt [adv]: "(\<And>a. a \<in> set as \<Longrightarrow> advances a) \<Longrightarrow> advances (rx_alt as)"
  by (auto simp: advances_def rx_alt_def)

lemma advances_opt [adv]: "advances a \<Longrightarrow> advances (rx_opt a)"
  by (auto simp: advances_def rx_opt_def)

lemma advances_bound [adv]: "advances rx_bound" "advances rx_begin" "advances rx_end"
  by (auto simp: advances_def rx_bound_def rx_begin_def rx_end_def)

section \<open>Every bounded word is found\<close>

text \<open>
  An expression whose matches are words between two boundaries: its matches do
  not overlap, so \<open>matchAll\<close> reports each place where one stands.
\<close>

definition bounded_word :: "rexp \<Rightarrow> bool" where
  "bounded_word a \<longleftrightarrow> (\<forall>p q qs. a p = q # qs \<longrightarrow>
    (\<exists>u. u \<noteq> [] \<and> list_all is_word u \<and> snd p = u @ snd q \<and> fst q = rev u @ fst p
       \<and> \<not> starts_word (fst p) \<and> \<not> starts_word (snd q)))"

lemma bounded_wordE:
  assumes "bounded_word a" "a p = q # qs"
  obtains u where "u \<noteq> []" "list_all is_word u" "snd p = u @ snd q" "fst q = rev u @ fst p"
    "\<not> starts_word (fst p)" "\<not> starts_word (snd q)" "starts_word (snd p)"
proof -
  obtain u where u: "u \<noteq> [] \<and> list_all is_word u \<and> snd p = u @ snd q \<and> fst q = rev u @ fst p
       \<and> \<not> starts_word (fst p) \<and> \<not> starts_word (snd q)"
    using assms unfolding bounded_word_def by blast
  then have "starts_word (snd p)" by (cases u) (auto simp: starts_word_def)
  then show ?thesis using that u by blast
qed

lemma rx_all_complete:
  assumes a: "bounded_word a" and "a (rev u @ l, v) = q # qs" and "k \<le> length u"
  shows "((rev u @ l, v), q) \<in> set (rx_all a k l (u @ v))"
  using assms(2-)
proof (induction u arbitrary: k l)
  case Nil
  then have "starts_word v" using a by (auto elim: bounded_wordE)
  then obtain c cs where v: "v = c # cs" by (cases v) (auto simp: starts_word_def)
  show ?case using Nil by (simp add: v)
next
  case (Cons c u)
  have later: "j \<le> length u \<Longrightarrow> ((rev (c # u) @ l, v), q) \<in> set (rx_all a j (c # l) (u @ v))" for j
    using Cons.IH [of "c # l" j] Cons.prems(1) by simp
  show ?case
  proof (cases k)
    case (Suc j)
    then show ?thesis using later Cons.prems by simp
  next
    case 0
    show ?thesis
    proof (cases "a (l, c # u @ v)")
      case Nil
      then show ?thesis using later by (simp add: 0)
    next
      case match: (Cons q' qs')
      obtain w where w: "list_all is_word w" "c # u @ v = w @ snd q'" "w \<noteq> []"
        using a match by (elim bounded_wordE) auto
      have nw: "\<not> starts_word (rev (c # u) @ l)" and sv: "starts_word v"
        using a Cons.prems(1) by (auto elim!: bounded_wordE)
      have "length w \<le> Suc (length u)"
      proof (rule ccontr)
        assume n: "\<not> length w \<le> Suc (length u)"
        then have "take (length (c # u)) w = c # u"
          using arg_cong [OF w(2), of "take (length (c # u))"] by simp
        then have "list_all is_word (c # u)" using w(1) by (metis list_all_append append_take_drop_id)
        then have "starts_word (rev (c # u) @ l)"
          by (cases u rule: rev_cases) (auto simp: starts_word_def)
        then show False using nw by simp
      qed
      moreover have "Suc (length u + length v) = length w + length (snd q')"
        using arg_cong [OF w(2), of length] by simp
      ultimately have "length (u @ v) - length (snd q') \<le> length u" by simp
      then show ?thesis using later match by (simp add: 0)
    qed
  qed
qed

section \<open>What the expressions match\<close>

text \<open>\<open>q\<close> is \<open>p\<close> moved past the text \<open>u\<close>.\<close>

definition moved :: "pos \<Rightarrow> string \<Rightarrow> pos \<Rightarrow> bool" where
  "moved p u q \<longleftrightarrow> snd p = u @ snd q \<and> fst q = rev u @ fst p"

lemma moved_Nil [simp]: "moved p [] q \<longleftrightarrow> q = p"
  by (auto simp: moved_def prod_eq_iff)

lemma moved_Cons: "moved (l, c # cs) (d # u) q \<longleftrightarrow> c = d \<and> moved (c # l, cs) u q"
  by (auto simp: moved_def)

lemma moved_end [simp]: "\<not> moved (l, []) (d # u) q"
  by (simp add: moved_def)

lemma set_rx_char [rx]: "q \<in> set (rx_char P p) \<longleftrightarrow> (\<exists>c. P c \<and> moved p [c] q)"
proof (cases p)
  case (Pair l r)
  then show ?thesis by (cases r) (auto simp: moved_Cons)
qed

lemma set_rx_word [rx]:
  "q \<in> set (rx_word w p) \<longleftrightarrow> (\<exists>u. map fold_case u = map fold_case w \<and> moved p u q)"
proof (induction w p rule: rx_word.induct)
  case (2 w ws l)
  show ?case by (auto simp: map_eq_Cons_conv)
next
  case (3 w ws l c cs)
  show ?case (is "?a \<longleftrightarrow> ?b")
  proof
    assume a: ?a
    then have c: "fold_case c = fold_case w" by (auto split: if_splits)
    with a 3 obtain u where "map fold_case u = map fold_case ws" "moved (c # l, cs) u q" by auto
    then show ?b using c by (intro exI [of _ "c # u"]) (simp add: moved_Cons)
  next
    assume ?b
    then show ?a using 3 by (auto simp: map_eq_Cons_conv moved_Cons)
  qed
qed simp

lemma set_rx_many [rx]:
  "q \<in> set (rx_many P p) \<longleftrightarrow> (\<exists>u. list_all P u \<and> moved p u q)"
proof -
  have "q \<in> set (rx_many_from P l r) \<longleftrightarrow> (\<exists>u. list_all P u \<and> moved (l, r) u q)" for l r
  proof (induction P l r rule: rx_many_from.induct)
    case (1 P l)
    have "moved (l, []) u q \<longleftrightarrow> u = [] \<and> q = (l, [])" for u by (cases u) auto
    then show ?case by auto
  next
    case (2 P l c cs)
    have "(\<exists>u. list_all P u \<and> moved (l, c # cs) u q) \<longleftrightarrow>
        q = (l, c # cs) \<or> (P c \<and> (\<exists>u. list_all P u \<and> moved (c # l, cs) u q))" (is "?a = ?b")
    proof
      assume ?a
      then obtain u where "list_all P u" "moved (l, c # cs) u q" by blast
      then show ?b by (cases u) (auto simp: moved_Cons)
    next
      assume ?b
      then show ?a
      proof
        assume "q = (l, c # cs)"
        then show ?a by (intro exI [of _ "[]"]) simp
      next
        assume "P c \<and> (\<exists>u. list_all P u \<and> moved (c # l, cs) u q)"
        then obtain u where "P c" "list_all P u" "moved (c # l, cs) u q" by blast
        then show ?a by (intro exI [of _ "c # u"]) (simp add: moved_Cons)
      qed
    qed
    then show ?case using 2 by (cases "P c") auto
  qed
  then show ?thesis by (simp add: rx_many_def)
qed

lemma set_rx_seq [rx]:
  "q \<in> set (rx_seq [] p) \<longleftrightarrow> q = p"
  "q \<in> set (rx_seq (a # as) p) \<longleftrightarrow> (\<exists>r. r \<in> set (a p) \<and> q \<in> set (rx_seq as r))"
  by auto

lemma set_rx_alt [rx]: "q \<in> set (rx_alt as p) \<longleftrightarrow> (\<exists>a \<in> set as. q \<in> set (a p))"
  by (auto simp: rx_alt_def)

lemma set_rx_bounds [rx]:
  "q \<in> set (rx_bound p) \<longleftrightarrow> q = p \<and> starts_word (fst p) \<noteq> starts_word (snd p)"
  "q \<in> set (rx_begin p) \<longleftrightarrow> q = p \<and> fst p = []"
  "q \<in> set (rx_end p) \<longleftrightarrow> q = p \<and> snd p = []"
  by (auto simp: rx_bound_def rx_begin_def rx_end_def)

lemma rx_here_iff: "rx_here a p \<longleftrightarrow> (\<exists>q. q \<in> set (a p))"
  unfolding rx_here_def by (cases "a p") auto

section \<open>Words\<close>

lemma fold_case_word [simp]: "is_word (fold_case c) = is_word c"
  by (auto simp: fold_case_def is_word_def is_letter_def is_digit_def dest: arg_cong [of _ _ code])

lemma words_fold: "map fold_case u = map fold_case w \<Longrightarrow> list_all is_word u = list_all is_word w"
proof -
  have e: "list_all is_word x = list_all is_word (map fold_case x)" for x
    by (simp add: list_all_iff)
  assume "map fold_case u = map fold_case w"
  then show ?thesis by (simp only: e [of u] e [of w])
qed

lemma starts_word_append: "u \<noteq> [] \<Longrightarrow> list_all is_word u \<Longrightarrow> starts_word (u @ v)"
  by (cases u) (auto simp: starts_word_def)

lemma starts_word_rev: "u \<noteq> [] \<Longrightarrow> list_all is_word u \<Longrightarrow> starts_word (rev u @ v)"
  by (rule starts_word_append) auto

text \<open>The word at the start of a text is the longest one.\<close>

lemma word_unique:
  assumes "x @ y = x' @ y'" "list_all is_word x" "list_all is_word x'"
    and "\<not> starts_word y" "\<not> starts_word y'"
  shows "x = x' \<and> y = y'"
proof -
  have w: "takeWhile is_word (a @ b) = a" if "list_all is_word a" "\<not> starts_word b" for a b
    using that by (cases b) (auto simp: starts_word_def list_all_iff takeWhile_append)
  then have "x = x'" using w [of x y] w [of x' y'] assms by simp
  then show ?thesis using assms(1) by simp
qed

text \<open>A choice of words between two boundaries.\<close>

lemma bounded_words_iff:
  assumes "list_all (\<lambda>w. w \<noteq> [] \<and> list_all is_word w) ws"
  shows "q \<in> set (rx_seq [rx_bound, rx_alt (map rx_word ws), rx_bound] p) \<longleftrightarrow>
    (\<exists>u. map fold_case u \<in> map fold_case ` set ws \<and> list_all is_word u \<and> u \<noteq> [] \<and> moved p u q
       \<and> \<not> starts_word (fst p) \<and> \<not> starts_word (snd q))" (is "?a \<longleftrightarrow> ?b")
proof
  assume ?a
  then obtain w u where u: "w \<in> set ws" "map fold_case u = map fold_case w" "moved p u q"
    and b: "starts_word (fst p) \<noteq> starts_word (snd p)" "starts_word (fst q) \<noteq> starts_word (snd q)"
    by (auto simp: rx)
  then have uw: "list_all is_word u" "u \<noteq> []"
    using assms words_fold [OF u(2)] by (force simp: list_all_iff)+
  then have "starts_word (snd p)" "starts_word (fst q)"
    using u(3) by (simp_all add: moved_def starts_word_append starts_word_rev)
  then show ?b using u b uw by blast
next
  assume ?b
  then obtain u w where u: "w \<in> set ws" "map fold_case u = map fold_case w" "list_all is_word u" "u \<noteq> []"
    "moved p u q" "\<not> starts_word (fst p)" "\<not> starts_word (snd q)" by auto
  moreover from this have "starts_word (snd p)" "starts_word (fst q)"
    by (simp_all add: moved_def starts_word_append starts_word_rev)
  ultimately have "q \<in> set (rx_alt (map rx_word ws) p)" "p \<in> set (rx_bound p)" "q \<in> set (rx_bound q)"
    by (auto simp: set_rx_alt set_rx_word set_rx_bounds)
  then show ?a by (auto simp only: set_rx_seq)
qed

lemma bounded_words:
  assumes "list_all (\<lambda>w. w \<noteq> [] \<and> list_all is_word w) ws"
  shows "bounded_word (rx_seq [rx_bound, rx_alt (map rx_word ws), rx_bound])" (is "bounded_word ?a")
  unfolding bounded_word_def
proof (intro allI impI)
  fix p q qs
  assume "?a p = q # qs"
  then have "q \<in> set (?a p)" by simp
  then show "\<exists>u. u \<noteq> [] \<and> list_all is_word u \<and> snd p = u @ snd q \<and> fst q = rev u @ fst p
      \<and> \<not> starts_word (fst p) \<and> \<not> starts_word (snd q)"
    unfolding bounded_words_iff [OF assms] moved_def by blast
qed

lemma rx_test_iff: "rx_test a s \<longleftrightarrow> (\<exists>x y. s = x @ y \<and> rx_here a (rev x, y))"
proof -
  have "rx_search a l s \<noteq> None \<longleftrightarrow> (\<exists>x y. s = x @ y \<and> rx_here a (rev x @ l, y))" for l
  proof (induction s arbitrary: l)
    case Nil
    then show ?case by (auto simp: rx_here_def split: list.splits)
  next
    case (Cons c cs)
    have "(\<exists>x y. c # cs = x @ y \<and> rx_here a (rev x @ l, y)) \<longleftrightarrow>
        rx_here a (l, c # cs) \<or> (\<exists>x y. cs = x @ y \<and> rx_here a (rev x @ (c # l), y))" (is "?a \<longleftrightarrow> ?b")
    proof
      assume ?a
      then obtain x y where "c # cs = x @ y" "rx_here a (rev x @ l, y)" by blast
      then show ?b by (cases x) auto
    next
      assume ?b
      then show ?a
      proof
        assume "rx_here a (l, c # cs)"
        then show ?a by (intro exI [of _ "[]"] exI [of _ "c # cs"]) simp
      next
        assume "\<exists>x y. cs = x @ y \<and> rx_here a (rev x @ (c # l), y)"
        then obtain x y where "cs = x @ y" "rx_here a (rev x @ (c # l), y)" by blast
        then show ?a by (intro exI [of _ "c # x"] exI [of _ y]) simp
      qed
    qed
    then show ?case using Cons [of "c # l"] by (auto simp: rx_here_def split: list.splits)
  qed
  then show ?thesis by (simp add: rx_test_def)
qed

end
