(* ===== verification/SqlText.thy ===== *)
theory SqlText
  imports JsRegex
begin

text \<open>
  \<open>stripNonCode\<close> of worker-sql-policy.ts: strings, dollar-quoted blocks and
  comments are blanked before an extension's statement is searched for the tables
  and functions it names.  \<open>pg_code\<close> is the reading of Postgres, one lexeme state at
  a time.
\<close>

fun index_of :: "string \<Rightarrow> string \<Rightarrow> nat option" where
  "index_of p [] = (if p = [] then Some 0 else None)"
| "index_of p (c # cs) =
    (if starts_with p (c # cs) then Some 0 else map_option Suc (index_of p cs))"

definition is_ident_char :: "char \<Rightarrow> bool" where
  "is_ident_char c \<longleftrightarrow> is_word c \<or> c = CHR ''$'' \<or> is_high c"

definition is_newline :: "char \<Rightarrow> bool" where
  "is_newline c \<longleftrightarrow> c = CHR 0x0A \<or> c = CHR 0x0D"

abbreviation BACKSLASH :: char where "BACKSLASH \<equiv> CHR 0x5C"

section \<open>stripNonCode\<close>

text \<open>Where a quoted identifier and a string end, counted from the opening quote.\<close>

fun name_end :: "string \<Rightarrow> nat" where
  "name_end [] = 0"
| "name_end [c] = 1"
| "name_end (c # d # ds) =
    (if c = DQUOTE then (if d = DQUOTE then 2 + name_end ds else 1) else 1 + name_end (d # ds))"

fun string_end :: "bool \<Rightarrow> string \<Rightarrow> nat" where
  "string_end e [] = 0"
| "string_end e [c] = 1"
| "string_end e (c # d # ds) =
    (if e \<and> c = BACKSLASH then 2 + string_end e ds
     else if c = SQUOTE then (if d = SQUOTE then 2 + string_end e ds else 1)
     else 1 + string_end e (d # ds))"

text \<open>\<open>E\<close> alone before the quote: the two characters before it, nearest first.\<close>

definition escape_prefix :: "string \<Rightarrow> bool" where
  "escape_prefix l \<longleftrightarrow>
    (case l of [] \<Rightarrow> False
     | c # cs \<Rightarrow> (c = CHR ''e'' \<or> c = CHR ''E'') \<and> (cs = [] \<or> \<not> is_ident_char (hd cs)))"

definition tag_start :: "char \<Rightarrow> bool" where
  "tag_start c \<longleftrightarrow> is_letter c \<or> c = CHR ''_'' \<or> is_high c"

definition tag_char :: "char \<Rightarrow> bool" where
  "tag_char c \<longleftrightarrow> is_word c \<or> is_high c"

definition dollar_tag :: "string \<Rightarrow> string \<Rightarrow> string option" where
  "dollar_tag l s =
    (case s of [] \<Rightarrow> None
     | c # cs \<Rightarrow>
        if c = CHR ''$'' \<and> (l = [] \<or> \<not> is_ident_char (hd l)) then
          (let name = takeWhile tag_char cs; rest = dropWhile tag_char cs in
           if (name = [] \<or> tag_start (hd name)) \<and> rest \<noteq> [] \<and> hd rest = CHR ''$''
           then Some (CHR ''$'' # name @ [CHR ''$'']) else None)
        else None)"

text \<open>The piece at a position: whether it is blanked, and its length.\<close>

definition piece_at :: "string \<Rightarrow> string \<Rightarrow> bool \<times> nat" where
  "piece_at l s =
    (if starts_with ''--'' s then (True, length (takeWhile (\<lambda>c. \<not> is_newline c) s))
     else if starts_with ''/*'' s then
       (True, case index_of ''*/'' (drop 2 s) of None \<Rightarrow> length s | Some k \<Rightarrow> k + 4)
     else if hd s = DQUOTE then (False, 1 + name_end (tl s))
     else if hd s = SQUOTE then (True, 1 + string_end (escape_prefix l) (tl s))
     else (case dollar_tag l s of
         Some t \<Rightarrow>
           (True, case index_of t (drop (length t) s) of None \<Rightarrow> length s
                  | Some k \<Rightarrow> k + 2 * length t)
       | None \<Rightarrow> (False, 1)))"

definition blanks :: "bool \<Rightarrow> string \<Rightarrow> string" where
  "blanks b s = (if b then replicate (length s) (CHR '' '') else s)"

lemma piece_at_pos: "s \<noteq> [] \<Longrightarrow> 0 < snd (piece_at l s)"
  by (cases s) (auto simp: piece_at_def starts_with_def is_newline_def dollar_tag_def Let_def
      split: option.splits if_splits)

lemma piece_at_pos': "(b, n) = piece_at l (c # cs) \<Longrightarrow> 0 < n"
  using piece_at_pos [of "c # cs" l] by (metis list.distinct(1) snd_conv)

function (sequential) strip_from :: "string \<Rightarrow> string \<Rightarrow> string" where
  "strip_from l [] = []"
| "strip_from l (c # cs) =
    (case piece_at l (c # cs) of (b, n) \<Rightarrow>
       blanks b (take n (c # cs)) @ strip_from (rev (take n (c # cs)) @ l) (drop n (c # cs)))"
  by pat_completeness auto
termination
  by (relation "measure (length \<circ> snd)") (auto dest!: piece_at_pos')

declare strip_from.simps [simp del]

lemma strip_from_Nil [simp]: "strip_from l [] = []"
  by (simp add: strip_from.simps)

definition stripNonCode :: "string \<Rightarrow> string" where
  "stripNonCode sql = strip_from [] sql"

lemma strip_step:
  "s \<noteq> [] \<Longrightarrow> piece_at l s = (b, n) \<Longrightarrow>
   strip_from l s = blanks b (take n s) @ strip_from (rev (take n s) @ l) (drop n s)"
  by (cases s) (simp_all add: strip_from.simps)

section \<open>The lexer of Postgres\<close>

text \<open>
  The states of the scanner: code, with the state of an escape string just closed
  (0 none, 1 closed, 2 closed and a newline passed, so that a quote goes on with
  it), a line comment, a block comment with the comments it stands in, a string, a
  quoted identifier, a dollar-quoted block.
\<close>

datatype mode = MCode nat | MLine | MBlock nat | MStr bool | MName | MDollar string

fun lex_step :: "mode \<Rightarrow> string \<Rightarrow> string \<Rightarrow> mode \<times> bool \<times> nat" where
  "lex_step (MCode a) l s =
    (if starts_with ''--'' s then (MLine, True, 2)
     else if starts_with ''/*'' s then (MBlock 0, True, 2)
     else if hd s = DQUOTE then (MName, False, 1)
     else if hd s = SQUOTE then (MStr (a = 2 \<or> escape_prefix l), True, 1)
     else (case dollar_tag l s of Some t \<Rightarrow> (MDollar t, True, length t)
           | None \<Rightarrow>
              (MCode (if a = 0 \<or> \<not> is_space (hd s) then 0 else if is_newline (hd s) then 2 else a),
               False, 1)))"
| "lex_step MLine l s = (if is_newline (hd s) then (MCode 0, False, 1) else (MLine, True, 1))"
| "lex_step (MBlock d) l s =
    (if starts_with ''*/'' s then (if d = 0 then MCode 0 else MBlock (d - 1), True, 2)
     else if starts_with ''/*'' s then (MBlock (Suc d), True, 2)
     else (MBlock d, True, 1))"
| "lex_step (MStr e) l s =
    (if e \<and> hd s = BACKSLASH then (MStr e, True, 2)
     else if starts_with [SQUOTE, SQUOTE] s then (MStr e, True, 2)
     else if hd s = SQUOTE then (MCode (if e then 1 else 0), True, 1)
     else (MStr e, True, 1))"
| "lex_step MName l s =
    (if starts_with [DQUOTE, DQUOTE] s then (MName, False, 2)
     else if hd s = DQUOTE then (MCode 0, False, 1) else (MName, False, 1))"
| "lex_step (MDollar t) l s =
    (if starts_with t s then (MCode 0, True, max 1 (length t)) else (MDollar t, True, 1))"

lemma lex_step_pos: "0 < snd (snd (lex_step m l s))"
  by (cases m) (auto simp: dollar_tag_def Let_def split: option.splits list.splits if_splits)

lemma lex_step_pos': "(m', b, n) = lex_step m l s \<Longrightarrow> 0 < n"
  using lex_step_pos [of m l s] by (metis snd_conv)

function (sequential) pg_code :: "mode \<Rightarrow> string \<Rightarrow> string \<Rightarrow> string" where
  "pg_code m l [] = []"
| "pg_code m l (c # cs) =
    (case lex_step m l (c # cs) of (m', b, n) \<Rightarrow>
       blanks b (take n (c # cs)) @ pg_code m' (rev (take n (c # cs)) @ l) (drop n (c # cs)))"
  by pat_completeness auto
termination
  by (relation "measure (length \<circ> snd \<circ> snd)") (auto dest!: lex_step_pos')

declare pg_code.simps [simp del]

lemma pg_code_Nil [simp]: "pg_code m l [] = []"
  by (simp add: pg_code.simps)

lemma pg_step:
  "s \<noteq> [] \<Longrightarrow> lex_step m l s = (m', b, n) \<Longrightarrow>
   pg_code m l s = blanks b (take n s) @ pg_code m' (rev (take n s) @ l) (drop n s)"
  by (cases s) (simp_all add: pg_code.simps)

section \<open>The two readings agree\<close>

text \<open>
  Where they part: a comment inside a comment, and a quote that goes on with an
  escape string closed on an earlier line.
\<close>

definition step_plain :: "mode \<Rightarrow> string \<Rightarrow> string \<Rightarrow> bool" where
  "step_plain m l s =
    (case m of
       MBlock d \<Rightarrow> starts_with ''*/'' s \<or> \<not> starts_with ''/*'' s
     | MCode a \<Rightarrow> \<not> (a = 2 \<and> hd s = SQUOTE \<and> \<not> escape_prefix l)
     | _ \<Rightarrow> True)"

function (sequential) pg_plain :: "mode \<Rightarrow> string \<Rightarrow> string \<Rightarrow> bool" where
  "pg_plain m l [] = True"
| "pg_plain m l (c # cs) =
    (step_plain m l (c # cs) \<and>
     (case lex_step m l (c # cs) of (m', b, n) \<Rightarrow>
        pg_plain m' (rev (take n (c # cs)) @ l) (drop n (c # cs))))"
  by pat_completeness auto
termination
  by (relation "measure (length \<circ> snd \<circ> snd)") (auto dest!: lex_step_pos')

declare pg_plain.simps [simp del]

lemma pg_plain_Nil [simp]: "pg_plain m l []"
  by (simp add: pg_plain.simps)

lemma blanks_append [simp]: "blanks b (x @ y) = blanks b x @ blanks b y"
  by (simp add: blanks_def replicate_add)

lemma blanks_Nil [simp]: "blanks b [] = []"
  by (simp add: blanks_def)

text \<open>The lexer passes \<open>n\<close> characters, all blanked or all kept, into the state \<open>m'\<close>.\<close>

definition runs :: "mode \<Rightarrow> string \<Rightarrow> string \<Rightarrow> bool \<Rightarrow> nat \<Rightarrow> mode \<Rightarrow> bool" where
  "runs m l s b n m' \<longleftrightarrow> (pg_plain m l s \<longrightarrow>
     pg_code m l s = blanks b (take n s) @ pg_code m' (rev (take n s) @ l) (drop n s)
     \<and> pg_plain m' (rev (take n s) @ l) (drop n s))"

lemma runs_Nil [simp]: "runs m l [] b n m'"
  by (simp add: runs_def)

lemma runs_0 [simp]: "runs m l s b 0 m"
  by (simp add: runs_def)

lemma runs_step: "s \<noteq> [] \<Longrightarrow> lex_step m l s = (m', b, n) \<Longrightarrow> runs m l s b n m'"
  by (cases s) (simp_all add: runs_def pg_code.simps pg_plain.simps)

lemma runs_trans:
  assumes "runs m l s b k m1" "runs m1 (rev (take k s) @ l) (drop k s) b n m2"
  shows "runs m l s b (k + n) m2"
  using assms by (simp add: runs_def take_add add.commute)

lemma runs_then:
  assumes "s \<noteq> []" "lex_step m l s = (m1, b, k)" "runs m1 (rev (take k s) @ l) (drop k s) b n m2"
  shows "runs m l s b (k + n) m2"
  by (rule runs_trans [OF runs_step [OF assms(1,2)] assms(3)])

lemma runs_one:
  "lex_step m l (c # cs) = (m1, b, 1) \<Longrightarrow> runs m1 (c # l) cs b n m2 \<Longrightarrow>
   runs m l (c # cs) b (Suc n) m2"
  using runs_then [of "c # cs" m l m1 b 1 n m2] by simp

lemma runs_two:
  "lex_step m l (c # d # ds) = (m1, b, 2) \<Longrightarrow> runs m1 (d # c # l) ds b n m2 \<Longrightarrow>
   runs m l (c # d # ds) b (Suc (Suc n)) m2"
  using runs_then [of "c # d # ds" m l m1 b 2 n m2] by (simp add: numeral_2_eq_2)

lemma runs_last:
  "fst (snd (lex_step m l [c])) = b \<Longrightarrow> runs m l [c] b (Suc n) m2"
  using lex_step_pos [of m l "[c]"]
  by (cases "lex_step m l [c]") (simp add: runs_def pg_code.simps pg_plain.simps)

lemma starts_Cons: "starts_with (p # ps) (c # cs) \<longleftrightarrow> p = c \<and> starts_with ps cs"
  by (auto simp: starts_with_def)

lemma starts_Nil [simp]: "starts_with [] s" "\<not> starts_with (p # ps) []"
  by (simp_all add: starts_with_def)

lemma string_runs: "runs (MStr e) l s True (string_end e s) (MCode (if e then 1 else 0))"
proof (induction e s arbitrary: l rule: string_end.induct)
  case (2 e c)
  show ?case using runs_last [of "MStr e" l c True 0] by simp
next
  case (3 e c d ds)
  show ?case
  proof -
    consider "e \<and> c = BACKSLASH" | "\<not> (e \<and> c = BACKSLASH)" "c = SQUOTE" "d = SQUOTE"
      | "\<not> (e \<and> c = BACKSLASH)" "c = SQUOTE" "d \<noteq> SQUOTE" | "\<not> (e \<and> c = BACKSLASH)" "c \<noteq> SQUOTE"
      by blast
    then show ?thesis
    proof cases
      case 1 then show ?thesis using 3(1) by (simp add: runs_two)
    next
      case 2 then show ?thesis using 3(2) by (simp add: runs_two starts_Cons)
    next
      case 3 then show ?thesis by (simp add: runs_one [where n = 0, OF _ runs_0] starts_Cons)
    next
      case 4 then show ?thesis using 3(3) by (auto simp: runs_one starts_Cons)
    qed
  qed
qed simp

lemma name_runs: "runs MName l s False (name_end s) (MCode 0)"
proof (induction s arbitrary: l rule: name_end.induct)
  case (2 c)
  show ?case using runs_last [of MName l c False 0] by simp
next
  case (3 c d ds)
  consider "c = DQUOTE" "d = DQUOTE" | "c = DQUOTE" "d \<noteq> DQUOTE" | "c \<noteq> DQUOTE" by blast
  then show ?case
  proof cases
    case 1 then show ?thesis using 3(1) by (simp add: runs_two starts_Cons)
  next
    case 2 then show ?thesis by (simp add: runs_one [where n = 0, OF _ runs_0] starts_Cons)
  next
    case 3 then show ?thesis using "3.IH"(2) by (simp add: runs_one starts_Cons)
  qed
qed simp

lemma line_runs: "runs MLine l s True (length (takeWhile (\<lambda>c. \<not> is_newline c) s)) (MCode 0)"
proof (induction s arbitrary: l)
  case (Cons c cs)
  show ?case
  proof (cases "is_newline c")
    case True
    then have "lex_step (MCode 0) l (c # cs) = lex_step MLine l (c # cs)"
      by (auto simp: starts_Cons is_newline_def dollar_tag_def)
    moreover have "step_plain (MCode 0) l (c # cs)" by (simp add: step_plain_def)
    ultimately show ?thesis using True
      by (simp add: runs_def pg_code.simps pg_plain.simps)
  next
    case False
    then show ?thesis using Cons by (auto intro!: runs_one)
  qed
qed simp

lemma block_runs:
  "runs (MBlock 0) l s True (case index_of ''*/'' s of None \<Rightarrow> length s | Some k \<Rightarrow> k + 2) (MCode 0)"
proof (induction s arbitrary: l)
  case (Cons c cs)
  consider "starts_with ''*/'' (c # cs)" | "\<not> starts_with ''*/'' (c # cs)" "starts_with ''/*'' (c # cs)"
    | "\<not> starts_with ''*/'' (c # cs)" "\<not> starts_with ''/*'' (c # cs)" by blast
  then show ?case
  proof cases
    case 1 then show ?thesis by (auto intro!: runs_step)
  next
    case 2 then show ?thesis by (simp add: runs_def pg_plain.simps step_plain_def)
  next
    case 3
    then have "lex_step (MBlock 0) l (c # cs) = (MBlock 0, True, 1)" by simp
    from runs_one [OF this Cons.IH] show ?thesis
      using 3(1) by (auto split: option.splits)
  qed
qed simp

lemma dollar_runs:
  "t \<noteq> [] \<Longrightarrow>
   runs (MDollar t) l s True (case index_of t s of None \<Rightarrow> length s | Some k \<Rightarrow> k + length t) (MCode 0)"
proof (induction s arbitrary: l)
  case (Cons c cs)
  show ?case
  proof (cases "starts_with t (c # cs)")
    case True
    then show ?thesis using Cons.prems by (cases t) (auto intro!: runs_step)
  next
    case False
    then have "lex_step (MDollar t) l (c # cs) = (MDollar t, True, 1)" by simp
    from runs_one [OF this Cons.IH [OF Cons.prems]] show ?thesis
      using False by (auto split: option.splits)
  qed
qed simp

lemma dollar_tag_neq_Nil: "dollar_tag l s = Some t \<Longrightarrow> t \<noteq> []"
  by (auto simp: dollar_tag_def Let_def split: list.splits if_splits)

lemma dollar_tag_prefix: "dollar_tag l s = Some t \<Longrightarrow> starts_with t s"
proof -
  assume d: "dollar_tag l s = Some t"
  then obtain cs where s: "s = CHR ''$'' # cs"
    by (auto simp: dollar_tag_def split: list.splits if_splits)
  let ?n = "takeWhile tag_char cs" and ?r = "dropWhile tag_char cs"
  have "?r \<noteq> []" "hd ?r = CHR ''$''" "t = CHR ''$'' # ?n @ [CHR ''$'']"
    using d by (auto simp: s dollar_tag_def Let_def split: if_splits)
  moreover have "cs = ?n @ ?r" by simp
  ultimately have "s = t @ tl ?r" using s by (cases ?r) (metis, metis append_Cons append_Nil append_assoc list.sel(1,3))
  then show ?thesis by (auto simp: starts_with_iff)
qed

text \<open>A piece of \<open>stripNonCode\<close> takes the lexer from code to code.\<close>

lemma piece_runs:
  assumes s: "s \<noteq> []" and p: "piece_at l s = (b, n)" and plain: "step_plain (MCode a) l s"
  obtains a' where "runs (MCode a) l s b n (MCode a')"
proof -
  consider (line) "starts_with ''--'' s" | (block) "\<not> starts_with ''--'' s" "starts_with ''/*'' s"
    | (name) "\<not> starts_with ''--'' s" "\<not> starts_with ''/*'' s" "hd s = DQUOTE"
    | (str) "\<not> starts_with ''--'' s" "\<not> starts_with ''/*'' s" "hd s = SQUOTE"
    | (dollar) t where "\<not> starts_with ''--'' s" "\<not> starts_with ''/*'' s" "hd s \<noteq> DQUOTE"
        "hd s \<noteq> SQUOTE" "dollar_tag l s = Some t"
    | (code) "\<not> starts_with ''--'' s" "\<not> starts_with ''/*'' s" "hd s \<noteq> DQUOTE"
        "hd s \<noteq> SQUOTE" "dollar_tag l s = None"
    by (cases "dollar_tag l s") auto
  then show ?thesis
  proof cases
    case line
    then have "length (takeWhile (\<lambda>c. \<not> is_newline c) s) = 2 + length (takeWhile (\<lambda>c. \<not> is_newline c) (drop 2 s))"
      by (auto simp: starts_with_iff is_newline_def)
    then have "n = 2 + length (takeWhile (\<lambda>c. \<not> is_newline c) (drop 2 s))" "b"
      using p line by (auto simp: piece_at_def)
    moreover have e: "lex_step (MCode a) l s = (MLine, True, 2)" using line by simp
    ultimately show ?thesis using that runs_then [OF s e line_runs] by simp
  next
    case block
    have "(case index_of ''*/'' (drop 2 s) of None \<Rightarrow> length s | Some k \<Rightarrow> k + 4)
        = 2 + (case index_of ''*/'' (drop 2 s) of None \<Rightarrow> length (drop 2 s) | Some k \<Rightarrow> k + 2)"
      using block by (auto simp: starts_with_iff split: option.splits)
    then have "n = 2 + (case index_of ''*/'' (drop 2 s) of None \<Rightarrow> length (drop 2 s) | Some k \<Rightarrow> k + 2)" "b"
      using p block by (auto simp: piece_at_def)
    moreover have e: "lex_step (MCode a) l s = (MBlock 0, True, 2)" using block by simp
    ultimately show ?thesis using that runs_then [OF s e block_runs] by simp
  next
    case name
    then have "n = 1 + name_end (drop 1 s)" "\<not> b" using p by (auto simp: piece_at_def drop_Suc)
    moreover have e: "lex_step (MCode a) l s = (MName, False, 1)" using name by simp
    ultimately show ?thesis using that runs_then [OF s e name_runs] by simp
  next
    case str
    then have "n = 1 + string_end (escape_prefix l) (drop 1 s)" "b"
      using p by (auto simp: piece_at_def drop_Suc)
    moreover have e: "lex_step (MCode a) l s = (MStr (escape_prefix l), True, 1)"
      using str plain by (auto simp: step_plain_def)
    ultimately show ?thesis using that runs_then [OF s e string_runs] by simp
  next
    case (dollar t)
    have "length t \<le> length s" using dollar_tag_prefix [OF dollar(5)] by (auto simp: starts_with_iff)
    then have "n = length t + (case index_of t (drop (length t) s) of None \<Rightarrow> length (drop (length t) s)
        | Some k \<Rightarrow> k + length t)" "b"
      using p dollar by (auto simp: piece_at_def split: option.splits)
    moreover have e: "lex_step (MCode a) l s = (MDollar t, True, length t)" using dollar by simp
    ultimately show ?thesis
      using that runs_then [OF s e dollar_runs [OF dollar_tag_neq_Nil [OF dollar(5)]]] by simp
  next
    case code
    then have "n = 1" "\<not> b" using p by (auto simp: piece_at_def)
    moreover obtain a' where e: "lex_step (MCode a) l s = (MCode a', False, 1)" using code by simp
    ultimately show ?thesis using that runs_step [OF s e] by simp
  qed
qed

lemma strip_agrees: "pg_plain (MCode a) l s \<Longrightarrow> strip_from l s = pg_code (MCode a) l s"
proof (induction l s arbitrary: a rule: strip_from.induct)
  case (2 l c cs)
  let ?s = "c # cs"
  obtain b n where p: "piece_at l ?s = (b, n)" by (cases "piece_at l ?s")
  have "step_plain (MCode a) l ?s" using 2(2) by (simp add: pg_plain.simps)
  then obtain a' where r: "runs (MCode a) l ?s b n (MCode a')" using piece_runs [OF _ p] by auto
  then have "strip_from (rev (take n ?s) @ l) (drop n ?s)
      = pg_code (MCode a') (rev (take n ?s) @ l) (drop n ?s)"
    using 2(2) by (intro 2(1) [OF p [symmetric]]) (simp add: runs_def)
  then show ?case using r 2(2) by (simp add: strip_step [OF _ p] runs_def)
qed simp

section \<open>Blanking\<close>

lemma strip_blanks: "list_all2 (\<lambda>c d. d = c \<or> d = CHR '' '') s (strip_from l s)"
proof (induction l s rule: strip_from.induct)
  case (2 l c cs)
  obtain b n where p: "piece_at l (c # cs) = (b, n)" by (cases "piece_at l (c # cs)")
  have "list_all2 (\<lambda>c d. d = c \<or> d = CHR '' '') x (blanks b x)" for x
    by (simp add: blanks_def list_all2_conv_all_nth)
  then have "list_all2 (\<lambda>c d. d = c \<or> d = CHR '' '') (take n (c # cs) @ drop n (c # cs)) (strip_from l (c # cs))"
    using 2 [OF p [symmetric]] by (simp only: strip_step [OF _ p] list_all2_appendI simp_thms list.distinct)
  then show ?case by simp
qed simp

lemma length_stripNonCode [simp]: "length (stripNonCode s) = length s"
  using strip_blanks [of s "[]"] by (simp add: stripNonCode_def list_all2_lengthD)

section \<open>The policy reads what Postgres runs\<close>



text \<open>Blanking replaces characters by spaces and moves none: the text searched has the
length of the statement, and each character is the statement's own or a space.\<close>

theorem stripping_keeps_offsets:
  "list_all2 (\<lambda>c d. d = c \<or> d = CHR '' '') sql (stripNonCode sql)"
  by (simp add: stripNonCode_def strip_blanks)

end
