(* ===== verification/ExtensionTables.thy ===== *)
theory ExtensionTables
  imports Prelude "HOL-Library.AList" "HOL-Library.Sublist"
begin

text \<open>
  The tables an extension owns by their names (worker-sql-policy.ts): the prefix
  made of its name, less the prefixes of the known extensions that extend it.
\<close>

section \<open>The prefixes\<close>

definition fold_name :: "string \<Rightarrow> string" where
  "fold_name ext = map (\<lambda>c. if is_letter c \<or> is_digit c then c else CHR ''_'') ext"

definition ownedPrefixFor :: "string \<Rightarrow> string" where
  "ownedPrefixFor extName = ''zv_'' @ fold_name extName @ ''_''"

text \<open>\<open>knownExtensions\<close>: a \<open>Map\<close>, its entries in the order they were first set.\<close>

type_synonym known = "(string \<times> string) list"

definition noteExtensionNames :: "string list \<Rightarrow> known \<Rightarrow> known" where
  "noteExtensionNames names known =
    fold (\<lambda>n. AList.update n (js_lower (ownedPrefixFor n))) names known"

definition longerOwnedPrefixes :: "known \<Rightarrow> string \<Rightarrow> string list" where
  "longerOwnedPrefixes known extName =
    (let mine = js_lower (ownedPrefixFor extName) in
     filter (\<lambda>p. length p > length mine \<and> starts_with mine p) (map snd known))"

definition coveringExtensionNames :: "known \<Rightarrow> string \<Rightarrow> string list" where
  "coveringExtensionNames known extName =
    (let mine = js_lower (ownedPrefixFor extName) in
     map fst (filter (\<lambda>(n, p). length p < length mine \<and> starts_with p mine) known))"

definition ownsByPrefix :: "known \<Rightarrow> string \<Rightarrow> string \<Rightarrow> bool" where
  "ownsByPrefix known extName table =
    (let t = js_lower table in
     if \<not> starts_with (js_lower (ownedPrefixFor extName)) t then False
     else \<not> list_ex (\<lambda>p. starts_with p t) (longerOwnedPrefixes known extName))"

section \<open>What is known\<close>

lemma map_of_note:
  "map_of (noteExtensionNames names known) =
   (\<lambda>n. if n \<in> set names then Some (js_lower (ownedPrefixFor n)) else map_of known n)"
  unfolding noteExtensionNames_def
  by (induction names arbitrary: known) (auto simp: AList.update_conv')

lemma distinct_note:
  "distinct (map fst known) \<Longrightarrow> distinct (map fst (noteExtensionNames names known))"
  unfolding noteExtensionNames_def
  by (induction names arbitrary: known) (auto simp: AList.distinct_update)

text \<open>Every entry is the folded prefix of its name.\<close>

definition known_ok :: "known \<Rightarrow> bool" where
  "known_ok known \<longleftrightarrow> distinct (map fst known)
     \<and> list_all (\<lambda>(n, p). p = js_lower (ownedPrefixFor n)) known"

lemma known_ok_iff:
  "known_ok known \<longleftrightarrow> distinct (map fst known)
     \<and> (\<forall>n p. map_of known n = Some p \<longrightarrow> p = js_lower (ownedPrefixFor n))"
  by (auto simp: known_ok_def list_all_iff)

lemma known_ok_note: "known_ok known \<Longrightarrow> known_ok (noteExtensionNames names known)"
  by (auto simp: known_ok_iff map_of_note distinct_note)

lemma known_ok_start: "known_ok (noteExtensionNames names [])"
  by (rule known_ok_note) (simp add: known_ok_def)

lemma noted_entry: "n \<in> set names \<Longrightarrow> (n, js_lower (ownedPrefixFor n)) \<in> set (noteExtensionNames names known)"
  by (rule map_of_SomeD) (simp add: map_of_note)

lemma noted_names: "set (map fst (noteExtensionNames names known)) = set names \<union> set (map fst known)"
  unfolding noteExtensionNames_def
  by (induction names arbitrary: known) (auto simp: AList.dom_update)

lemma noted_prefixes: "set (map snd known) \<subseteq> set (map snd (noteExtensionNames names known))"
  if "known_ok known"
proof
  fix p assume "p \<in> set (map snd known)"
  then obtain n where np: "(n, p) \<in> set known" by auto
  then have "p = js_lower (ownedPrefixFor n)" using that by (auto simp: known_ok_def list_all_iff)
  moreover have "map_of known n = Some p" using np that by (simp add: known_ok_def)
  ultimately have "map_of (noteExtensionNames names known) n = Some p" by (simp add: map_of_note)
  then show "p \<in> set (map snd (noteExtensionNames names known))" by (auto dest: map_of_SomeD intro!: image_eqI)
qed

section \<open>Who owns a table\<close>

lemma starts_with_prefix: "starts_with p s \<longleftrightarrow> prefix p s"
  by (auto simp: starts_with_iff prefix_def)

lemma strict_prefix_iff: "strict_prefix p s \<longleftrightarrow> prefix p s \<and> length p < length s"
  by (auto simp: strict_prefix_def prefix_def)

lemma set_longer:
  "p \<in> set (longerOwnedPrefixes known e) \<longleftrightarrow>
    p \<in> set (map snd known) \<and> strict_prefix (js_lower (ownedPrefixFor e)) p"
  by (auto simp: longerOwnedPrefixes_def Let_def starts_with_prefix strict_prefix_iff)

lemma owns_iff:
  "ownsByPrefix known e t \<longleftrightarrow>
    prefix (js_lower (ownedPrefixFor e)) (js_lower t)
    \<and> (\<forall>p \<in> set (map snd known). strict_prefix (js_lower (ownedPrefixFor e)) p \<longrightarrow> \<not> prefix p (js_lower t))"
  using set_longer [of _ known e]
  by (auto simp: ownsByPrefix_def Let_def starts_with_prefix list_ex_iff)

lemma owner_unique:
  assumes "(a, js_lower (ownedPrefixFor a)) \<in> set known" "(b, js_lower (ownedPrefixFor b)) \<in> set known"
    and "ownsByPrefix known a t" "ownsByPrefix known b t"
  shows "js_lower (ownedPrefixFor a) = js_lower (ownedPrefixFor b)"
proof (rule ccontr)
  let ?a = "js_lower (ownedPrefixFor a)" and ?b = "js_lower (ownedPrefixFor b)"
  assume ne: "?a \<noteq> ?b"
  have known: "?a \<in> set (map snd known)" "?b \<in> set (map snd known)" using assms(1,2) by force+
  have t: "prefix ?a (js_lower t)" "prefix ?b (js_lower t)" using assms(3,4) by (simp_all add: owns_iff)
  then consider "strict_prefix ?a ?b" | "strict_prefix ?b ?a"
    using ne prefix_same_cases by (metis strict_prefix_def)
  then show False
  proof cases
    case 1 then show False using assms(3) known(2) t(2) unfolding owns_iff by blast
  next
    case 2 then show False using assms(4) known(1) t(1) unfolding owns_iff by blast
  qed
qed

lemma owner_exists:
  assumes ok: "known_ok known" and "n \<in> set (map fst known)" "prefix (js_lower (ownedPrefixFor n)) (js_lower t)"
  obtains e where "e \<in> set (map fst known)" "ownsByPrefix known e t"
proof -
  let ?P = "\<lambda>e. e \<in> set (map fst known) \<and> prefix (js_lower (ownedPrefixFor e)) (js_lower t)"
  obtain e where e: "?P e" and most: "\<And>f. ?P f \<Longrightarrow> length (ownedPrefixFor f) \<le> length (ownedPrefixFor e)"
    using ex_has_greatest_nat [of ?P n "\<lambda>e. length (ownedPrefixFor e)" "Suc (length t)"] assms(2,3)
    by (metis (no_types, lifting) le_imp_less_Suc length_js_lower prefix_length_le)
  have "\<not> (strict_prefix (js_lower (ownedPrefixFor e)) p \<and> prefix p (js_lower t))"
    if pk: "p \<in> set (map snd known)" for p
  proof
    assume p: "strict_prefix (js_lower (ownedPrefixFor e)) p \<and> prefix p (js_lower t)"
    obtain f where "(f, p) \<in> set known" using pk by auto
    then have "p = js_lower (ownedPrefixFor f)" "f \<in> set (map fst known)"
      using ok by (force simp: known_ok_def list_all_iff)+
    then show False using p most [of f] by (auto dest!: prefix_length_less)
  qed
  then show thesis using that e by (auto simp: owns_iff)
qed

text \<open>When an extension's prefix covers a table, exactly one prefix of the known extensions
owns the table: some known extension owns it, and every other owner folds to the same
prefix.\<close>

theorem one_owner_per_table:
  assumes "n \<in> set names" "starts_with (js_lower (ownedPrefixFor n)) (js_lower t)"
  shows "\<exists>e \<in> set names. ownsByPrefix (noteExtensionNames names []) e t
    \<and> (\<forall>f \<in> set names. ownsByPrefix (noteExtensionNames names []) f t \<longrightarrow>
         js_lower (ownedPrefixFor f) = js_lower (ownedPrefixFor e))"
proof -
  let ?k = "noteExtensionNames names []"
  have "n \<in> set (map fst ?k)" "prefix (js_lower (ownedPrefixFor n)) (js_lower t)"
    using assms by (simp_all add: noted_names starts_with_prefix del: set_map)
  from owner_exists [OF known_ok_start this] obtain e where e: "e \<in> set (map fst ?k)" "ownsByPrefix ?k e t" .
  then have "e \<in> set names" by (simp add: noted_names del: set_map)
  then show ?thesis using e owner_unique noted_entry by blast
qed

theorem one_owner_per_table_witness:
  "ownsByPrefix (noteExtensionNames [''hr'', ''hr/staff''] []) ''hr/staff'' ''zv_hr_staff_rows''
   \<and> (\<exists>e \<in> {''hr'', ''hr/staff''}. ownsByPrefix (noteExtensionNames [''hr'', ''hr/staff''] []) e ''zv_hr_staff_rows'')"
proof
  show "ownsByPrefix (noteExtensionNames [''hr'', ''hr/staff''] []) ''hr/staff'' ''zv_hr_staff_rows''" by code_simp
  have "starts_with (js_lower (ownedPrefixFor ''hr'')) (js_lower ''zv_hr_staff_rows'')" by code_simp
  from one_owner_per_table [of "''hr''" "[''hr'', ''hr/staff'']", OF _ this]
  show "\<exists>e \<in> {''hr'', ''hr/staff''}. ownsByPrefix (noteExtensionNames [''hr'', ''hr/staff''] []) e ''zv_hr_staff_rows''"
    by auto
qed

text \<open>Hearing of more extensions never gives a table away: what an extension owns after, it
owned before.\<close>

theorem noting_only_narrows:
  assumes "known_ok known" "ownsByPrefix (noteExtensionNames names known) e t"
  shows "ownsByPrefix known e t"
  using assms(2) noted_prefixes [OF assms(1), of names] unfolding owns_iff by blast

theorem noting_only_narrows_witness:
  "ownsByPrefix [] ''hr'' ''zv_hr_rows''"
proof (rule noting_only_narrows [of _ "[''hr/staff'']"])
  show "known_ok []" by code_simp
  show "ownsByPrefix (noteExtensionNames [''hr/staff''] []) ''hr'' ''zv_hr_rows''" by code_simp
qed

end
