(* ===== verification/WorkerSqlPolicy.thy ===== *)
theory WorkerSqlPolicy
  imports SqlText ExtensionTables "HOL-Library.List_Lexorder"
begin

text \<open>
  worker-sql-policy.ts: the statement an extension sends is refused before Postgres
  sees it unless it is one query or data change, calls no function that leaves the
  sandbox, and names only tables the extension may reach.  The tables of the engine
  and the tables granted are arguments, as they are of the source's function.
\<close>

datatype refusal =
  MoreThanOne | WrongKind string | SelectInto | UnicodeIdentifier | SandboxEscape string
| Offenders "string list"

section \<open>Shared expressions\<close>

abbreviation rx_space :: rexp where "rx_space \<equiv> rx_many is_space"
abbreviation rx_spaces :: rexp where "rx_spaces \<equiv> rx_some is_space"
abbreviation rx_words :: "string list \<Rightarrow> rexp" where "rx_words ws \<equiv> rx_alt (map rx_word ws)"

definition name_start :: "char \<Rightarrow> bool" where
  "name_start c \<longleftrightarrow> is_letter c \<or> c = CHR ''_''"

definition name_char :: "char \<Rightarrow> bool" where
  "name_char c \<longleftrightarrow> is_word c \<or> c = CHR ''$''"

definition upper_ascii :: "char \<Rightarrow> char" where
  "upper_ascii c = (if 97 \<le> code c \<and> code c \<le> 122 then char_of (code c - 32) else c)"

section \<open>The kind of statement\<close>

definition STATEMENT_KINDS :: rexp where
  "STATEMENT_KINDS = rx_seq
    [rx_begin, rx_many (\<lambda>c. is_space c \<or> c = CHR ''(''),
     rx_alt [rx_words [''select'', ''insert'', ''update'', ''delete'', ''merge'', ''with'', ''values'', ''table''],
       rx_seq [rx_word ''set'', rx_spaces, rx_word ''transaction'']],
     rx_bound]"

definition several_statements :: "string \<Rightarrow> bool" where
  "several_statements c \<longleftrightarrow>
    CHR '';'' \<in> set (dropWhile (\<lambda>d. is_space d \<or> d = CHR '';'') (rev c))"

definition kind_named :: "string \<Rightarrow> string" where
  "kind_named c =
    (let s = dropWhile (\<lambda>d. is_space d \<or> d = CHR ''('') c;
         w = takeWhile is_letter s; r = dropWhile is_letter s;
         sp = takeWhile is_space r; w2 = takeWhile is_letter (dropWhile is_space r)
     in map upper_ascii
         (if w = [] then ''an empty statement'' else if sp = [] \<or> w2 = [] then w else w @ sp @ w2))"

text \<open>\<open>INTO\<close> that is not \<open>INSERT INTO\<close> or \<open>MERGE INTO\<close>.\<close>

definition selects_into :: "string \<Rightarrow> bool" where
  "selects_into c \<longleftrightarrow>
    list_ex (\<lambda>((l, r), (l', r')).
        \<not> (l \<noteq> [] \<and> (is_word (hd l) \<or> hd l \<in> {CHR ''$'', DQUOTE, CHR ''.''}))
        \<and> \<not> (r' \<noteq> [] \<and> (is_word (hd r') \<or> hd r' \<in> {CHR ''$'', DQUOTE}))
        \<and> \<not> rx_test (rx_seq [rx_bound, rx_words [''insert'', ''merge''], rx_spaces, rx_end]) (rev (take 12 l)))
      (rx_all (rx_word ''into'') 0 [] (js_lower c))"

definition unicode_ident :: "string \<Rightarrow> bool" where
  "unicode_ident c \<longleftrightarrow> rx_test (rx_word [CHR ''u'', CHR ''&'', DQUOTE]) c"

section \<open>Functions that leave the sandbox\<close>

definition SANDBOX_ESCAPES :: rexp where
  "SANDBOX_ESCAPES = rx_seq [rx_begin, rx_alt
    [rx_word ''set_config'',
     rx_word ''pg_read_file'', rx_word ''pg_read_binary_file'', rx_word ''pg_stat_file'',
     rx_seq [rx_word ''pg_ls_'', rx_some is_word], rx_seq [rx_word ''pg_file_'', rx_some is_word],
     rx_seq [rx_word ''lo_'', rx_some is_word], rx_word ''loread'', rx_word ''lowrite'',
     rx_seq [rx_word ''dblink'', rx_many is_word],
     rx_seq [rx_word ''pg_'', rx_words [''terminate'', ''cancel'', ''signal''], rx_word ''_backend''],
     rx_word ''pg_reload_conf'', rx_seq [rx_word ''pg_rotate_logfile'', rx_many is_word],
     rx_word ''pg_promote'', rx_word ''pg_switch_wal'',
     rx_seq [rx_word ''pg_'', rx_words [''start'', ''stop''], rx_word ''_backup''],
     rx_seq [rx_word ''pg_backup_'', rx_words [''start'', ''stop'']],
     rx_word ''pg_create_restore_point'', rx_word ''pg_log_backend_memory_contexts'',
     rx_seq [rx_word ''pg_stat_reset'', rx_many is_word], rx_seq [rx_word ''pg_logical_'', rx_some is_word],
     rx_seq [rx_word ''pg_'', rx_many is_word, rx_word ''replication'', rx_many is_word],
     rx_seq [rx_word ''pg_'', rx_words [''create'', ''copy'', ''drop''], rx_word ''_'', rx_many is_word, rx_word ''slot''],
     rx_word ''pg_notify'',
     rx_seq [rx_word ''pg_'', rx_opt (rx_word ''try_''), rx_word ''advisory_'',
       rx_words [''lock'', ''unlock''], rx_many is_word],
     rx_seq [rx_words [''query'', ''cursor'', ''table'', ''schema'', ''database''], rx_word ''_to_xml'', rx_many is_word],
     rx_word ''ts_stat'', rx_word ''ts_rewrite'', rx_seq [rx_word ''crosstab'', rx_many is_word],
     rx_word ''setval''], rx_end]"

text \<open>\<open>CALLEE\<close>: the name that ends the window before the parenthesis.\<close>

definition callee_at :: "string \<Rightarrow> string option" where
  "callee_at s =
    (let q = (s \<noteq> [] \<and> hd s = DQUOTE); t = (if q then tl s else s);
         n = takeWhile name_char t; r = dropWhile name_char t
     in if n = [] \<or> \<not> name_start (hd n) then None
        else if q then (if r \<noteq> [] \<and> hd r = DQUOTE \<and> list_all is_space (tl r) then Some n else None)
        else if list_all is_space r then Some n else None)"

fun callee_in :: "string \<Rightarrow> string option" where
  "callee_in [] = None"
| "callee_in (c # cs) = (case callee_at (c # cs) of Some n \<Rightarrow> Some n | None \<Rightarrow> callee_in cs)"

text \<open>The function called by a parenthesis with \<open>l\<close>, reversed, before it.\<close>

definition called :: "string \<Rightarrow> string option" where
  "called l =
    (let prev = dropWhile is_space l in
     if prev = [] \<or> \<not> (name_char (hd prev) \<or> hd prev = DQUOTE) then None
     else callee_in (rev (take 80 l)))"

fun escape_called :: "string \<Rightarrow> string \<Rightarrow> string option" where
  "escape_called l [] = None"
| "escape_called l (c # cs) =
    (case (if c = CHR ''('' then called l else None) of
       Some n \<Rightarrow> if rx_here SANDBOX_ESCAPES ([], n) then Some n else escape_called (c # l) cs
     | None \<Rightarrow> escape_called (c # l) cs)"

section \<open>Names\<close>

definition unquote :: "string \<Rightarrow> string" where
  "unquote sql_ident =
    (let s = (if sql_ident \<noteq> [] \<and> hd sql_ident = DQUOTE then tl sql_ident else sql_ident) in
     js_lower (if s \<noteq> [] \<and> last s = DQUOTE then butlast s else s))"

definition cte_prefix :: rexp where
  "cte_prefix = rx_alt
    [rx_seq [rx_bound, rx_word ''with'', rx_spaces, rx_opt (rx_seq [rx_word ''recursive'', rx_spaces])],
     rx_seq [rx_char (\<lambda>c. c = COMMA), rx_space]]"

definition cte_name :: rexp where
  "cte_name = rx_seq [rx_opt (rx_char (\<lambda>c. c = DQUOTE)), rx_char name_start, rx_many name_char,
    rx_opt (rx_char (\<lambda>c. c = DQUOTE))]"

definition cte_suffix :: rexp where
  "cte_suffix = rx_seq [rx_spaces, rx_word ''as'', rx_space, rx_char (\<lambda>c. c = CHR ''('')]"

text \<open>The texts the group can capture at a position, the preferred one first.\<close>

definition cte_captures :: "pos \<Rightarrow> string list" where
  "cte_captures p =
    concat (map (\<lambda>p1. concat (map (\<lambda>p2.
        map (\<lambda>p3. rev (take (length (fst p2) - length (fst p1)) (fst p2))) (cte_suffix p2))
      (cte_name p1))) (cte_prefix p))"

definition collectCteNames :: "string \<Rightarrow> string list" where
  "collectCteNames c =
    map (\<lambda>(p, q). unquote (hd (cte_captures p)))
      (rx_all (rx_seq [cte_prefix, cte_name, cte_suffix]) 0 [] c)"

section \<open>Table references\<close>

record table_ref =
  rf_schema :: "string option"
  rf_table :: string

text \<open>\<open>IDENT_SRC\<close> at the start of a text, and what follows it.\<close>

definition sql_ident :: "string \<Rightarrow> (string \<times> string) option" where
  "sql_ident s =
    (case s of [] \<Rightarrow> None
     | c # cs \<Rightarrow>
         if c = DQUOTE then
           (let v = takeWhile (\<lambda>d. d \<noteq> DQUOTE) cs; r = dropWhile (\<lambda>d. d \<noteq> DQUOTE) cs in
            if v = [] \<or> r = [] then None else Some (DQUOTE # v @ [DQUOTE], tl r))
         else if name_start c then Some (c # takeWhile name_char cs, dropWhile name_char cs)
         else None)"

text \<open>\<open>ENTRY\<close>: a name, the name after a dot, the rest.\<close>

definition entry :: "string \<Rightarrow> (string \<times> string option \<times> string) option" where
  "entry s =
    (case sql_ident (dropWhile is_space s) of None \<Rightarrow> None
     | Some (a, r) \<Rightarrow>
         (case dropWhile is_space r of [] \<Rightarrow> Some (a, None, r)
          | d # ds \<Rightarrow>
             (case (if d = CHR ''.'' then sql_ident (dropWhile is_space ds) else None) of
                None \<Rightarrow> Some (a, None, r) | Some (b, r') \<Rightarrow> Some (a, Some b, r'))))"

definition STOP_WORDS :: "string list" where
  "STOP_WORDS =
    [''where'', ''group'', ''order'', ''having'', ''limit'', ''offset'', ''on'', ''using'', ''union'',
     ''intersect'', ''except'', ''returning'', ''set'', ''values'', ''window'', ''for'', ''left'', ''right'',
     ''inner'', ''outer'', ''full'', ''cross'', ''natural'', ''join'', ''select'', ''as'', ''lateral'']"

definition STOP :: rexp where
  "STOP = rx_seq [rx_begin, rx_space, rx_words STOP_WORDS, rx_bound]"

definition INTRO_WORDS :: "string list" where
  "INTRO_WORDS = [''from'', ''join'', ''into'', ''update'', ''using'', ''table'']"

definition INTRO :: rexp where
  "INTRO = rx_seq [rx_bound, rx_words INTRO_WORDS, rx_bound]"

definition KEYWORD_ARG_FN :: rexp where
  "KEYWORD_ARG_FN = rx_seq [rx_words [''extract'', ''substring'', ''trim'', ''position'', ''overlay''],
    rx_space, rx_char (\<lambda>c. c = CHR ''(''), rx_end]"

fun insideKeywordArgFn :: "nat \<Rightarrow> string \<Rightarrow> bool" where
  "insideKeywordArgFn depth [] = False"
| "insideKeywordArgFn depth (c # cs) =
    (if c = CHR '')'' then insideKeywordArgFn (Suc depth) cs
     else if c = CHR ''('' then
       (case depth of 0 \<Rightarrow> rx_test KEYWORD_ARG_FN (rev (take 12 cs) @ ''('')
        | Suc d \<Rightarrow> insideKeywordArgFn d cs)
     else insideKeywordArgFn depth cs)"

definition for_update :: rexp where
  "for_update = rx_seq [rx_bound, rx_word ''for'', rx_spaces,
    rx_opt (rx_seq [rx_word ''no'', rx_spaces, rx_word ''key'', rx_spaces]), rx_end]"

definition distinct_from :: rexp where
  "distinct_from = rx_seq [rx_bound, rx_word ''is'', rx_spaces,
    rx_opt (rx_seq [rx_word ''not'', rx_spaces]), rx_word ''distinct'', rx_spaces, rx_end]"

definition table_label :: rexp where
  "table_label = rx_alt [rx_seq [rx_char (\<lambda>c. c = DQUOTE \<or> c = CHR ''.''), rx_end],
    rx_seq [rx_bound, rx_word ''as'', rx_spaces, rx_end]]"

text \<open>A keyword that introduces no table: what precedes it, reversed, and what follows.\<close>

definition passed_over :: "string \<Rightarrow> string \<Rightarrow> string \<Rightarrow> bool" where
  "passed_over keyword l r \<longleftrightarrow>
    (let prev = rev (take 20 l) in
     (keyword = ''from'' \<and> insideKeywordArgFn 0 l)
     \<or> (keyword = ''update'' \<and> rx_test for_update prev)
     \<or> (keyword = ''from'' \<and> rx_test distinct_from prev)
     \<or> (keyword = ''table'' \<and> (rx_test table_label prev \<or> (r \<noteq> [] \<and> hd r = DQUOTE))))"

definition ref_of :: "string \<Rightarrow> string option \<Rightarrow> table_ref" where
  "ref_of a b =
    (case b of None \<Rightarrow> \<lparr> rf_schema = None, rf_table = unquote a \<rparr>
     | Some t \<Rightarrow> \<lparr> rf_schema = Some (unquote a), rf_table = unquote t \<rparr>)"

definition alias_rest :: "string \<Rightarrow> string option" where
  "alias_rest rest =
    (if rest = [] \<or> \<not> is_space (hd rest) then None
     else
       (let s = dropWhile is_space rest in
        case (case rx_word ''as'' ([], s) of
                [] \<Rightarrow> None
              | q # _ \<Rightarrow> if snd q \<noteq> [] \<and> is_space (hd (snd q)) then sql_ident (dropWhile is_space (snd q)) else None) of
          Some (a, r) \<Rightarrow> Some r
        | None \<Rightarrow> map_option snd (sql_ident s)))"

text \<open>What follows a reference and its alias, past the comma; \<open>None\<close> when the list ends.\<close>

definition next_entry :: "string \<Rightarrow> string option" where
  "next_entry rest =
    (let r = (case alias_rest rest of Some r' \<Rightarrow> if rx_here STOP ([], rest) then rest else r' | None \<Rightarrow> rest);
         s = dropWhile is_space r
     in if s \<noteq> [] \<and> hd s = COMMA then Some (tl s) else None)"

lemma tl_dropWhile_length: "dropWhile P r \<noteq> [] \<Longrightarrow> length (tl (dropWhile P r)) < length r"
  using length_dropWhile_le [of P r] by (cases "dropWhile P r") auto

lemma sql_ident_length: "sql_ident s = Some (a, r) \<Longrightarrow> length r < length s"
  by (auto simp: sql_ident_def Let_def less_Suc_eq_le length_dropWhile_le split: list.splits if_splits
      dest!: tl_dropWhile_length [THEN less_imp_le] simp del: dropWhile_eq_Nil_conv length_tl)

lemma entry_length: "entry s = Some (a, b, r) \<Longrightarrow> length r < length s"
proof -
  assume e: "entry s = Some (a, b, r)"
  then obtain a' r0 where i: "sql_ident (dropWhile is_space s) = Some (a', r0)"
    by (auto simp: entry_def split: option.splits)
  have "length r \<le> length r0"
  proof (cases "dropWhile is_space r0")
    case Nil then show ?thesis using e i by (simp add: entry_def del: dropWhile_eq_Nil_conv)
  next
    case (Cons d ds)
    have "length (d # ds) \<le> length r0" using length_dropWhile_le [of is_space r0] Cons by simp
    moreover have "length x < length ds" if "sql_ident (dropWhile is_space ds) = Some (y, x)" for x y
      using sql_ident_length [OF that] length_dropWhile_le [of is_space ds] by simp
    ultimately show ?thesis using e i Cons
      by (fastforce simp: entry_def split: option.splits if_splits)
  qed
  also have "\<dots> < length s"
    using sql_ident_length [OF i] length_dropWhile_le [of is_space s] by simp
  finally show ?thesis .
qed

lemma word_rest_length: "rx_word w (l, s) = q # qs \<Longrightarrow> length (snd q) \<le> length s"
proof -
  assume "rx_word w (l, s) = q # qs"
  then have "q \<in> set (rx_word w (l, s))" by simp
  then show ?thesis
    using advances_word [of w] ahead_length [of "(l, s)" q] by (simp only: advances_def snd_conv)
qed

lemma alias_length: "alias_rest s = Some r \<Longrightarrow> length r < length s"
proof -
  assume a: "alias_rest s = Some r"
  have d: "length (dropWhile is_space t) \<le> length t" for t by (rule length_dropWhile_le)
  have "length x < length s" if "sql_ident (dropWhile is_space t) = Some (y, x)" "length t \<le> length s" for x y t
    using sql_ident_length [OF that(1)] d [of t] that(2) by simp
  moreover have "length (snd q) \<le> length s" if "rx_word ''as'' ([], dropWhile is_space s) = q # qs" for q qs
    using word_rest_length [OF that] d [of s] by simp
  ultimately show ?thesis using a
    by (fastforce simp: alias_rest_def Let_def split: option.splits list.splits if_splits)
qed

lemma next_entry_length: "next_entry s = Some r \<Longrightarrow> length r < length s"
proof -
  assume n: "next_entry s = Some r"
  have d: "length (tl (dropWhile is_space t)) < length s"
    if "dropWhile is_space t \<noteq> []" "length t \<le> length s" for t
    using that(2) tl_dropWhile_length [OF that(1)] by simp
  show ?thesis using n alias_length [of s]
    by (auto simp: next_entry_def Let_def intro!: d split: option.splits if_splits dest: less_imp_le
        simp del: dropWhile_eq_Nil_conv length_tl)
qed

function (sequential) table_list :: "bool \<Rightarrow> string \<Rightarrow> table_ref list" where
  "table_list callable rest =
    (if rx_here STOP ([], rest) then []
     else (case entry rest of None \<Rightarrow> []
       | Some (a, b, r) \<Rightarrow>
           (let s = dropWhile is_space r in
            if callable \<and> s \<noteq> [] \<and> hd s = CHR ''('' then []
            else ref_of a b # (case next_entry r of None \<Rightarrow> [] | Some r' \<Rightarrow> table_list callable r'))))"
  by pat_completeness auto
termination
  by (relation "measure (length \<circ> snd)") (auto dest!: entry_length next_entry_length)

declare table_list.simps [simp del]

definition tableReferences :: "string \<Rightarrow> table_ref list" where
  "tableReferences c =
    concat (map (\<lambda>((l, r), (l', r')).
        let keyword = map fold_case (take (length r - length r') r) in
        if passed_over keyword l r' then []
        else table_list (keyword \<noteq> ''into'' \<and> keyword \<noteq> ''update'') r')
      (rx_all INTRO 0 [] c))"

section \<open>The policy\<close>

text \<open>The name an extension is refused for, if any.\<close>

definition offends :: "known \<Rightarrow> string \<Rightarrow> string set \<Rightarrow> string set \<Rightarrow> string list \<Rightarrow> table_ref \<Rightarrow> string option" where
  "offends known extName engineTables granted ctes ref =
    (let t = rf_table ref in
     if t \<in> set ctes then None
     else if rf_schema ref \<noteq> None \<and> rf_schema ref \<noteq> Some ''public''
       then Some (the (rf_schema ref) @ ''.'' @ t)
     else if starts_with ''zvd_'' t \<and> t \<notin> engineTables then None
     else if ownsByPrefix known extName t \<and> t \<notin> engineTables then None
     else if t \<in> granted then None else Some t)"

definition assertWorkerSqlAllowed ::
  "known \<Rightarrow> string \<Rightarrow> string \<Rightarrow> string set \<Rightarrow> string set option \<Rightarrow> (refusal, unit) result" where
  "assertWorkerSqlAllowed known extName sql engineTables allowedTables =
    (let granted = js_lower ` (case allowedTables of None \<Rightarrow> {} | Some ts \<Rightarrow> ts);
         c = stripNonCode sql in
     if several_statements c then Throw MoreThanOne
     else if \<not> rx_here STATEMENT_KINDS ([], c) then Throw (WrongKind (kind_named c))
     else if selects_into c then Throw SelectInto
     else if unicode_ident c then Throw UnicodeIdentifier
     else case escape_called [] c of
         Some n \<Rightarrow> Throw (SandboxEscape (js_lower n))
       | None \<Rightarrow>
         (case List.map_filter (offends known extName engineTables granted (collectCteNames c)) (tableReferences c) of
            [] \<Rightarrow> Ok ()
          | names \<Rightarrow> Throw (Offenders (sort (remdups names)))))"

section \<open>Every introduced table is read\<close>

lemma fold_case_lower_word [simp]: "name_start c \<Longrightarrow> is_word c" "name_start c \<Longrightarrow> name_char c"
  by (auto simp: name_start_def is_word_def name_char_def)

lemma space_not_name [simp]:
  "is_space c \<Longrightarrow> \<not> is_word c" "is_space c \<Longrightarrow> \<not> name_char c" "is_space c \<Longrightarrow> \<not> name_start c"
  by (auto simp: is_space_def is_word_def name_char_def name_start_def is_letter_def is_digit_def)

lemma intro_words: "list_all (\<lambda>w. w \<noteq> [] \<and> list_all is_word w) INTRO_WORDS"
  by code_simp

lemma stop_words: "list_all (\<lambda>w. w \<noteq> [] \<and> list_all is_word w) STOP_WORDS"
  by code_simp

lemma stop_letters: "list_all (\<lambda>w. list_all is_letter w \<and> map fold_case w = w) STOP_WORDS"
  by code_simp

lemma intro_fold: "map fold_case ` set INTRO_WORDS = set INTRO_WORDS"
proof -
  have "list_all (\<lambda>w. map fold_case w = w) INTRO_WORDS" by code_simp
  then show ?thesis by (force simp: list_all_iff)
qed

lemma intro_match:
  assumes "map fold_case kw \<in> set INTRO_WORDS" "\<not> starts_word l" "\<not> starts_word r"
  obtains qs where "INTRO (l, kw @ r) = (rev kw @ l, r) # qs"
proof -
  have kw: "list_all is_word kw" "kw \<noteq> []"
    using intro_words words_fold [of kw "map fold_case kw"] assms(1)
    by (auto simp: list_all_iff comp_def)
  have m: "q \<in> set (INTRO (l, kw @ r)) \<longleftrightarrow> q = (rev kw @ l, r)" for q
  proof
    assume "q \<in> set (INTRO (l, kw @ r))"
    then obtain u where u: "list_all is_word u" "moved (l, kw @ r) u q" "\<not> starts_word (snd q)"
      unfolding INTRO_def bounded_words_iff [OF intro_words] by blast
    then have "kw = u \<and> r = snd q" using kw assms(3) by (intro word_unique) (auto simp: moved_def)
    then show "q = (rev kw @ l, r)" using u(2) by (auto simp: moved_def prod_eq_iff)
  next
    assume "q = (rev kw @ l, r)"
    then show "q \<in> set (INTRO (l, kw @ r))"
      unfolding INTRO_def bounded_words_iff [OF intro_words] intro_fold
      using kw assms by (intro exI [of _ kw]) (auto simp: moved_def)
  qed
  then have "(rev kw @ l, r) \<in> set (INTRO (l, kw @ r))" by simp
  then obtain x xs where x: "INTRO (l, kw @ r) = x # xs" by (metis list.set_cases)
  then have "x = (rev kw @ l, r)" using m [of x] by simp
  then show thesis using that x by simp
qed

text \<open>A word of a text that begins no clause does not stop the list.\<close>

lemma no_stop:
  assumes "list_all is_space sp" "list_all is_word t" "t \<noteq> []" "\<not> starts_word v"
    and "map fold_case t \<notin> set STOP_WORDS"
  shows "\<not> rx_here STOP ([], sp @ t @ v)"
proof
  assume "rx_here STOP ([], sp @ t @ v)"
  then obtain q a w u where w: "w \<in> set STOP_WORDS" "map fold_case u = map fold_case w"
    and a: "list_all is_space a" and q: "sp @ t @ v = a @ u @ snd q" "fst q = rev u @ rev a"
    and b: "starts_word (fst q) \<noteq> starts_word (snd q)"
    by (auto simp: rx_here_iff STOP_def rx moved_def) blast
  have u: "list_all is_word u" "u \<noteq> []"
    using stop_words w words_fold [OF w(2)] by (auto simp: list_all_iff)
  have nq: "\<not> starts_word (snd q)" using b q(2) u by (simp add: starts_word_rev)
  have tw: "takeWhile is_space (x @ y @ z) = x"
    if "list_all is_space x" "list_all is_word y" "y \<noteq> []" for x y z
    using that by (cases y) (auto simp: list_all_iff takeWhile_append)
  have "sp = a" using tw [OF assms(1-3), of v] tw [OF a u, of "snd q"] q(1) by simp
  then have "t @ v = u @ snd q" using q(1) by simp
  then have "t = u" using word_unique [of t v u "snd q"] assms u nq by simp
  moreover have "map fold_case w = w" using stop_letters w(1) by (simp add: list_all_iff)
  ultimately show False using assms(5) w by simp
qed

lemma word_char_name [simp]: "is_word c \<Longrightarrow> name_char c"
  by (simp add: name_char_def)

text \<open>\<open>t\<close> ends before \<open>v\<close>, which opens no parenthesis and qualifies no name.\<close>

definition ends_name :: "string \<Rightarrow> bool" where
  "ends_name v \<longleftrightarrow> (v = [] \<or> \<not> name_char (hd v))
     \<and> (case dropWhile is_space v of [] \<Rightarrow> True | c # cs \<Rightarrow> c \<noteq> CHR ''('' \<and> c \<noteq> CHR ''.'')"

lemma entry_word:
  assumes "list_all is_space sp" "list_all is_word t" "t \<noteq> []" "name_start (hd t)" "ends_name v"
  shows "entry (sp @ t @ v) = Some (t, None, v)"
proof -
  obtain c cs where t: "t = c # cs" using assms(3) by (cases t) auto
  have c: "name_start c" "c \<noteq> DQUOTE" "\<not> is_space c"
    using assms(4) t space_not_name(3) by (auto simp: name_start_def is_letter_def)
  have d: "dropWhile is_space (sp @ t @ v) = t @ v"
    using assms(1) c(3) by (auto simp: list_all_iff t dropWhile_append)
  have w: "takeWhile name_char (cs @ v) = cs" "dropWhile name_char (cs @ v) = v"
    using assms(2,5) by (cases v; auto simp: t list_all_iff ends_name_def takeWhile_append dropWhile_append)+
  then have i: "sql_ident (t @ v) = Some (t, v)" using c by (simp add: t sql_ident_def)
  show ?thesis using assms(5) by (auto simp: entry_def d i ends_name_def simp del: dropWhile_eq_Nil_conv split: list.splits)
qed

lemma unquote_word: "list_all is_word t \<Longrightarrow> unquote t = js_lower t"
proof -
  assume t: "list_all is_word t"
  have "\<not> is_word DQUOTE" by code_simp
  then have "t = [] \<or> hd t \<noteq> DQUOTE \<and> last t \<noteq> DQUOTE"
    using t by (metis hd_in_set last_in_set list_all_iff)
  then show ?thesis by (auto simp: unquote_def)
qed

lemma table_list_word:
  assumes "list_all is_space sp" "list_all is_word t" "t \<noteq> []" "name_start (hd t)" "ends_name v"
    and "map fold_case t \<notin> set STOP_WORDS"
  shows "\<lparr> rf_schema = None, rf_table = js_lower t \<rparr> \<in> set (table_list k (sp @ t @ v))"
proof -
  have "\<not> starts_word v" using assms(5) by (cases v) (auto simp: ends_name_def starts_word_def)
  then have "\<not> rx_here STOP ([], sp @ t @ v)" using assms by (intro no_stop) auto
  moreover have "\<not> (dropWhile is_space v \<noteq> [] \<and> hd (dropWhile is_space v) = CHR ''('')"
    using assms(5) by (auto simp: ends_name_def split: list.splits)
  ultimately show ?thesis
    by (subst table_list.simps) (simp add: entry_word [OF assms(1-5)] ref_of_def unquote_word [OF assms(2)] Let_def)
qed

lemma table_found:
  assumes c: "c = u @ kw @ sp @ t @ v" and kw: "map fold_case kw \<in> set INTRO_WORDS"
    and u: "\<not> starts_word (rev u)" and sp: "sp \<noteq> []" "list_all is_space sp"
    and t: "list_all is_word t" "t \<noteq> []" "name_start (hd t)" "ends_name v" "map fold_case t \<notin> set STOP_WORDS"
    and p: "\<not> passed_over (map fold_case kw) (rev u) (sp @ t @ v)"
  shows "\<lparr> rf_schema = None, rf_table = js_lower t \<rparr> \<in> set (tableReferences c)"
proof -
  have "\<not> starts_word (sp @ t @ v)" using sp by (cases sp) (auto simp: starts_word_def)
  then obtain qs where q: "INTRO (rev u @ [], kw @ sp @ t @ v) = (rev kw @ rev u, sp @ t @ v) # qs"
    using intro_match [OF kw, of "rev u" "sp @ t @ v"] u by auto
  have "bounded_word INTRO" unfolding INTRO_def by (rule bounded_words [OF intro_words])
  from rx_all_complete [OF this q, of 0]
  have "((rev u, kw @ sp @ t @ v), (rev kw @ rev u, sp @ t @ v)) \<in> set (rx_all INTRO 0 [] c)"
    by (simp add: c)
  then show ?thesis
    using p table_list_word [OF sp(2) t] by (force simp: tableReferences_def Let_def)
qed

text \<open>The tables an extension may reach.\<close>

definition may_reach :: "known \<Rightarrow> string \<Rightarrow> string set \<Rightarrow> string set option \<Rightarrow> string \<Rightarrow> bool" where
  "may_reach known extName engineTables allowedTables t \<longleftrightarrow>
    (starts_with ''zvd_'' t \<or> ownsByPrefix known extName t) \<and> t \<notin> engineTables
    \<or> t \<in> js_lower ` (case allowedTables of None \<Rightarrow> {} | Some ts \<Rightarrow> ts)"

lemma allowed_offends:
  assumes "assertWorkerSqlAllowed known extName sql engineTables allowedTables = Ok ()"
    and "ref \<in> set (tableReferences (stripNonCode sql))"
    and "rf_table ref \<notin> set (collectCteNames (stripNonCode sql))"
  shows "rf_schema ref \<in> {None, Some ''public''}
    \<and> may_reach known extName engineTables allowedTables (rf_table ref)"
proof -
  let ?g = "js_lower ` (case allowedTables of None \<Rightarrow> {} | Some ts \<Rightarrow> ts)"
  have "List.map_filter (offends known extName engineTables ?g (collectCteNames (stripNonCode sql)))
      (tableReferences (stripNonCode sql)) = []"
    using assms(1) by (auto simp: assertWorkerSqlAllowed_def Let_def split: if_splits option.splits list.splits)
  then have "offends known extName engineTables ?g (collectCteNames (stripNonCode sql)) ref = None"
    using assms(2) by (force simp: map_filter_def filter_empty_conv)
  then show ?thesis using assms(3)
    by (auto simp: offends_def may_reach_def Let_def split: if_splits)
qed



section \<open>Calls\<close>

lemma callee_at_name:
  assumes "list_all name_char f" "f \<noteq> []" "name_start (hd f)" "list_all is_space sp"
  shows "callee_at (f @ sp) = Some f"
proof -
  have "hd f \<noteq> DQUOTE" using assms(3) by (auto simp: name_start_def is_letter_def)
  moreover have "takeWhile name_char (f @ sp) = f" "dropWhile name_char (f @ sp) = sp"
    using assms(1,4) by (cases sp; auto simp: list_all_iff takeWhile_append dropWhile_append)+
  ultimately show ?thesis using assms by (simp add: callee_at_def Let_def)
qed

text \<open>A name before the last one, or a quote, captures nothing.\<close>

lemma callee_at_earlier:
  assumes "u \<noteq> []" "\<not> name_char (last u)" "f \<noteq> []" "list_all name_char f" "list_all is_space sp"
  shows "callee_at (u @ f @ sp) = None"
proof -
  have f: "\<not> list_all is_space f"
    using assms(3,4) space_not_name(2) by (cases f) (auto simp: list_all_iff)
  have drop: "dropWhile name_char (x @ f @ sp) = dropWhile name_char x @ f @ sp" "dropWhile name_char x \<noteq> []"
    if "x \<noteq> []" "last x = last u" for x
    using that assms(2) last_in_set [OF that(1)] by (auto simp: dropWhile_append1)
  show ?thesis
  proof (cases "hd u = DQUOTE")
    case False
    then show ?thesis using drop [of u] f assms(1) by (simp add: callee_at_def Let_def)
  next
    case True
    then obtain w where u: "u = DQUOTE # w" using assms(1) by (cases u) auto
    show ?thesis
    proof (cases w)
      case Nil
      have "dropWhile name_char (f @ sp) = sp"
        using assms(4,5) by (cases sp) (auto simp: list_all_iff dropWhile_append)
      moreover have "\<not> is_space DQUOTE" by code_simp
      then have "sp = [] \<or> hd sp \<noteq> DQUOTE" using assms(5) by (cases sp) auto
      ultimately show ?thesis by (auto simp: u Nil callee_at_def Let_def)
    next
      case (Cons x xs)
      then have "dropWhile name_char (w @ f @ sp) = dropWhile name_char w @ f @ sp" "dropWhile name_char w \<noteq> []"
        using drop [of w] u by simp_all
      then have "\<not> list_all is_space (tl (dropWhile name_char (w @ f @ sp)))"
        using f by simp
      then show ?thesis by (simp add: u callee_at_def Let_def del: append_assoc)
    qed
  qed
qed

lemma callee_in_window:
  assumes "u = [] \<or> \<not> name_char (last u)" "f \<noteq> []" "list_all name_char f" "name_start (hd f)" "list_all is_space sp"
  shows "callee_in (u @ f @ sp) = Some f"
  using assms(1)
proof (induction u)
  case Nil
  have "callee_at (f @ sp) = Some f" using assms by (intro callee_at_name) auto
  then show ?case using assms(2) by (cases f) auto
next
  case (Cons c u)
  have "callee_at ((c # u) @ f @ sp) = None"
    using Cons.prems assms by (intro callee_at_earlier) auto
  then show ?case using Cons by (cases u) auto
qed

lemma called_name:
  assumes "u = [] \<or> \<not> name_char (last u)" "f \<noteq> []" "list_all name_char f" "name_start (hd f)" "list_all is_space sp"
    and "length (f @ sp) \<le> 80"
  shows "called (rev (u @ f @ sp)) = Some f"
proof -
  let ?k = "80 - length (f @ sp)"
  have w: "rev (take 80 (rev (u @ f @ sp))) = rev (take ?k (rev u)) @ f @ sp"
    using assms(6) by (simp add: take_append add.commute)
  have "rev (take ?k (rev u)) = [] \<or> \<not> name_char (last (rev (take ?k (rev u))))"
    using assms(1) by (cases u rule: rev_cases) (auto simp: last_rev hd_take take_Cons')
  then have c: "callee_in (rev (take 80 (rev (u @ f @ sp)))) = Some f"
    unfolding w by (rule callee_in_window) (use assms in auto)
  have "dropWhile is_space (rev (u @ f @ sp)) = rev f @ rev u"
    using assms(2,3,5) space_not_name(2)
    by (cases f rule: rev_cases) (auto simp: list_all_iff dropWhile_append)
  moreover have "rev f \<noteq> [] \<and> name_char (hd (rev f))" using assms(2,3) by (simp add: hd_rev list_all_iff)
  ultimately show ?thesis using c by (auto simp: called_def Let_def)
qed

lemma escape_found:
  "called (rev u @ l) = Some f \<Longrightarrow> rx_here SANDBOX_ESCAPES ([], f) \<Longrightarrow>
   \<exists>n. escape_called l (u @ CHR ''('' # v) = Some n"
proof (induction u arbitrary: l)
  case (Cons c u)
  then show ?case by (auto split: option.splits)
qed auto

text \<open>A call of a function that leaves the sandbox is refused, wherever it stands in the
code, in whatever case it is written, with any space before its parenthesis as long
as the name and the space fit the window of 80 characters the policy reads.\<close>

theorem sandbox_escape_is_refused:
  assumes "stripNonCode sql = u @ f @ sp @ ''('' @ v" "u = [] \<or> \<not> name_char (last u)"
    and "f \<noteq> []" "list_all name_char f" "name_start (hd f)" "list_all is_space sp"
    and "rx_here SANDBOX_ESCAPES ([], f)" "length (f @ sp) \<le> 80"
  shows "\<exists>r. assertWorkerSqlAllowed known extName sql engineTables allowedTables = Throw r"
proof -
  have "called (rev (u @ f @ sp) @ []) = Some f" using called_name [OF assms(2-6,8)] by simp
  from escape_found [OF this assms(7), of v]
  have "\<exists>n. escape_called [] (stripNonCode sql) = Some n" by (simp add: assms(1))
  then show ?thesis by (auto simp: assertWorkerSqlAllowed_def Let_def)
qed

theorem sandbox_escape_is_refused_witness:
  "\<exists>r. assertWorkerSqlAllowed [] ''crm'' ''SELECT Set_Config (1)'' {} None = Throw r"
  by (rule sandbox_escape_is_refused [where u = "''SELECT ''" and f = "''Set_Config''" and sp = "'' ''" and v = "''1)''"])
    code_simp+

section \<open>Collections only actions write\<close>

definition write_statement :: rexp where
  "write_statement = rx_alt
    [rx_seq [rx_bound, rx_words [''insert'', ''delete'', ''merge''], rx_bound],
     rx_seq [rx_not_behind (rx_seq [rx_bound, rx_word ''for'', rx_spaces,
         rx_opt (rx_seq [rx_word ''no'', rx_spaces, rx_word ''key'', rx_spaces])]),
       rx_bound, rx_word ''update'', rx_bound]]"

text \<open>\<open>[...new Set(xs)]\<close>: the first occurrence of each.\<close>

definition js_unique :: "'a list \<Rightarrow> 'a list" where
  "js_unique xs = rev (remdups (rev xs))"

definition collectionsWritten :: "string \<Rightarrow> string list" where
  "collectionsWritten sql =
    (let c = stripNonCode sql in
     if \<not> rx_test write_statement c then []
     else js_unique (map (\<lambda>r. drop 4 (rf_table r))
       (filter (\<lambda>r. (rf_schema r = None \<or> rf_schema r = Some ''public'') \<and> starts_with ''zvd_'' (rf_table r))
         (tableReferences c))))"

datatype write_refusal = HoldsWrittenBy string | CascadeRefused string

text \<open>
  The engine's pool, the definitions read on it (\<open>hasWrittenBy\<close> of a collection's)
  and \<open>cascadeRefusal\<close> are arguments.
\<close>

fun written_loop :: "(string \<Rightarrow> bool) \<Rightarrow> (string \<Rightarrow> string option) \<Rightarrow> bool \<Rightarrow> string list \<Rightarrow>
    (write_refusal, unit) result" where
  "written_loop hasWrittenBy cascade deletes [] = Ok ()"
| "written_loop hasWrittenBy cascade deletes (n # ns) =
    (if hasWrittenBy n then Throw (HoldsWrittenBy n)
     else case (if deletes then cascade n else None) of
         Some why \<Rightarrow> Throw (CascadeRefused why)
       | None \<Rightarrow> written_loop hasWrittenBy cascade deletes ns)"

definition assertNoWrittenByActionsWrite ::
  "bool \<Rightarrow> (string \<Rightarrow> bool) \<Rightarrow> (string \<Rightarrow> string option) \<Rightarrow> string \<Rightarrow> (write_refusal, unit) result" where
  "assertNoWrittenByActionsWrite pool hasWrittenBy cascade sql =
    (let names = collectionsWritten sql in
     if names = [] then Ok ()
     else if \<not> pool then Ok ()
     else written_loop hasWrittenBy cascade
       (rx_test (rx_seq [rx_bound, rx_words [''delete'', ''merge''], rx_bound]) (stripNonCode sql)) names)"

lemma written_loop_Ok:
  "written_loop h c d ns = Ok () \<longleftrightarrow> (\<forall>n \<in> set ns. \<not> h n \<and> (d \<longrightarrow> c n = None))"
  by (induction ns) (auto split: option.splits)

lemma word_test:
  assumes "c = x @ w @ y" "map fold_case w \<in> set ws" "list_all (\<lambda>w. w \<noteq> [] \<and> list_all is_word w \<and> map fold_case w = w) ws"
    and "\<not> starts_word (rev x)" "\<not> starts_word y"
  shows "rx_test (rx_seq [rx_bound, rx_words ws, rx_bound]) c"
proof -
  have ok: "list_all (\<lambda>w. w \<noteq> [] \<and> list_all is_word w) ws" using assms(3) by (auto simp: list_all_iff)
  have "map fold_case w \<in> map fold_case ` set ws" using assms(2,3) by (force simp: list_all_iff)
  moreover have "list_all is_word w" "w \<noteq> []"
    using assms(2,3) by (auto simp: list_all_iff comp_def)
  ultimately have "(rev w @ rev x, y) \<in> set (rx_seq [rx_bound, rx_words ws, rx_bound] (rev x, w @ y))"
    unfolding bounded_words_iff [OF ok] using assms(4,5) by (auto simp: moved_def)
  then show ?thesis unfolding rx_test_iff rx_here_iff assms(1) by blast
qed

text \<open>A statement with an INSERT, DELETE or MERGE, and with a collection's table after one of
the introducing words, is refused when that collection holds fields only actions
write: a delete through a later table, an insert that reads another collection, each
is covered.\<close>

theorem actions_only_collection_is_refused:
  assumes "stripNonCode sql = u @ kw @ sp @ t @ v" "map fold_case kw \<in> set INTRO_WORDS"
    and "\<not> starts_word (rev u)" "sp \<noteq> []" "list_all is_space sp"
    and "list_all is_word t" "t \<noteq> []" "name_start (hd t)" "ends_name v" "map fold_case t \<notin> set STOP_WORDS"
    and "\<not> passed_over (map fold_case kw) (rev u) (sp @ t @ v)"
    and "stripNonCode sql = x @ w @ y" "map fold_case w \<in> {''insert'', ''delete'', ''merge''}"
    and "\<not> starts_word (rev x)" "\<not> starts_word y"
    and "js_lower t = ''zvd_'' @ name" "hasWrittenBy name"
  shows "assertNoWrittenByActionsWrite True hasWrittenBy cascade sql \<noteq> Ok ()"
proof -
  have "rx_test (rx_seq [rx_bound, rx_words [''insert'', ''delete'', ''merge''], rx_bound]) (stripNonCode sql)"
    by (rule word_test [OF assms(12) _ _ assms(14,15)]) (use assms(13) in \<open>simp, code_simp\<close>)
  then have "rx_test write_statement (stripNonCode sql)"
    unfolding rx_test_iff rx_here_iff write_statement_def set_rx_alt by (meson list.set_intros(1))
  moreover have "\<lparr> rf_schema = None, rf_table = ''zvd_'' @ name \<rparr> \<in> set (tableReferences (stripNonCode sql))"
    using table_found [OF assms(1-11)] assms(16) by simp
  ultimately have "name \<in> set (collectionsWritten sql)"
    unfolding collectionsWritten_def Let_def js_unique_def
    by (auto simp: starts_Cons intro!: image_eqI [where x = "\<lparr> rf_schema = None, rf_table = ''zvd_'' @ name \<rparr>"])
  then show ?thesis using assms(17)
    by (auto simp: assertNoWrittenByActionsWrite_def Let_def written_loop_Ok)
qed

theorem actions_only_collection_is_refused_witness:
  "assertNoWrittenByActionsWrite True (\<lambda>n. n = ''pay'') (\<lambda>n. None) ''delete FROM zvd_pay'' \<noteq> Ok ()"
  by (rule actions_only_collection_is_refused [where u = "''delete ''" and kw = "''FROM''" and sp = "'' ''"
        and t = "''zvd_pay''" and v = "''''" and x = "''''" and w = "''delete''" and y = "'' FROM zvd_pay''"
        and name = "''pay''"]) code_simp+

section \<open>What the scan misses\<close>

text \<open>Statements that read the sessions and are accepted: the tables after an alias
written with AS, after a join's condition, after a subquery, and in a parenthesised
join are not read; a name a WITH defines clears a table of another schema; and a
table whose name ends like a function's hides the query in parentheses after it.\<close>

theorem tables_the_scan_misses:
  "assertWorkerSqlAllowed [] ''crm'' ''SELECT token FROM zvd_a AS a, session'' {''session''} None = Ok ()
   \<and> assertWorkerSqlAllowed [] ''crm'' ''SELECT token FROM zvd_a JOIN zvd_b ON true, session'' {''session''} None = Ok ()
   \<and> assertWorkerSqlAllowed [] ''crm'' ''SELECT token FROM (SELECT 1) a, session'' {''session''} None = Ok ()
   \<and> assertWorkerSqlAllowed [] ''crm'' ''SELECT token FROM (session CROSS JOIN zvd_a)'' {''session''} None = Ok ()
   \<and> assertWorkerSqlAllowed [] ''crm'' ''WITH session AS (SELECT 1) SELECT token FROM public.session'' {''session''} None = Ok ()
   \<and> assertWorkerSqlAllowed [] ''crm'' ''INSERT INTO zvd_position (SELECT token FROM session)'' {''session''} None = Ok ()"
  by (intro conjI) code_simp+

text \<open>A statement with a comment inside a comment: Postgres runs its last part.\<close>

definition hidden_read :: string where
  "hidden_read = ''SELECT 1 /* /* */ '' @ [SQUOTE] @ '' */, (SELECT token FROM session) --'' @ [SQUOTE]"

text \<open>Postgres nests comments and the policy does not: a quote inside the outer comment
opens a string for the policy alone, the code after the comment is blanked with it,
and a statement that reads the sessions is accepted.\<close>

theorem nested_comment_hides_code:
  "contains_sub ''(SELECT token FROM session)'' (pg_code (MCode 0) [] hidden_read)
   \<and> stripNonCode hidden_read = ''SELECT 1'' @ replicate (length hidden_read - 8) (CHR '' '')
   \<and> assertWorkerSqlAllowed [] ''crm'' hidden_read {''session''} None = Ok ()"
  by (intro conjI) code_simp+

lemma called_far: "80 \<le> length sp \<Longrightarrow> list_all is_space sp \<Longrightarrow> called (rev sp @ l) = None"
proof -
  assume sp: "80 \<le> length sp" "list_all is_space sp"
  have "callee_in s = None" if "list_all is_space s" for s
    using that
  proof (induction s)
    case (Cons c s)
    have "c \<noteq> DQUOTE" using Cons.prems by (auto simp: is_space_def)
    then have "callee_at (c # s) = None" using Cons.prems by (simp add: callee_at_def Let_def)
    then show ?case using Cons by simp
  qed simp
  moreover have "list_all is_space (rev (take 80 (rev sp @ l)))"
    using sp by (auto simp: list_all_iff dest: in_set_takeD)
  ultimately show ?thesis by (simp add: called_def Let_def)
qed

text \<open>With 80 characters of space between a function's name and its parenthesis the
window holds no name: no call is seen, and \<open>set_config\<close> is accepted.\<close>

theorem distant_parenthesis_hides_call:
  "(80 \<le> length sp \<longrightarrow> list_all is_space sp \<longrightarrow>
      escape_called l (sp @ ''('' @ v) = escape_called (CHR ''('' # rev sp @ l) v)
   \<and> assertWorkerSqlAllowed [] ''crm'' (''SELECT set_config'' @ replicate 80 (CHR '' '') @ ''(1)'') {} None = Ok ()"
proof (intro conjI impI)
  assume sp: "80 \<le> length sp" "list_all is_space sp"
  have step: "escape_called l (xs @ ys) = escape_called (rev xs @ l) ys" if "list_all is_space xs" for xs ys l
    using that by (induction xs arbitrary: l) (auto simp: is_space_def)
  show "escape_called l (sp @ ''('' @ v) = escape_called (CHR ''('' # rev sp @ l) v"
    using step [OF sp(2), of l "''('' @ v"] called_far [OF sp, of l] by simp
next
  show "assertWorkerSqlAllowed [] ''crm'' (''SELECT set_config'' @ replicate 80 (CHR '' '') @ ''(1)'') {} None = Ok ()"
    by code_simp
qed

theorem distant_parenthesis_hides_call_witness:
  "escape_called [] (replicate 80 (CHR '' '') @ ''('' @ ''1'') = escape_called (CHR ''('' # rev (replicate 80 (CHR '' ''))) ''1''"
  using distant_parenthesis_hides_call [of "replicate 80 (CHR '' '')" "[]" "''1''"]
  by (simp add: list_all_iff is_space_def)

end
