(* ===== verification/ColumnRules.thy ===== *)
theory ColumnRules
  imports RlsIdentity Crdt "HOL-Library.AList"
begin

text \<open>
  Column permissions: what a caller may not see or write of a collection
  (\<open>lib/tenancy/column-permissions.ts\<close>), the guard the same rules put onto the
  collection's table (\<open>lib/data/column-guard.ts\<close>, the trigger of migration 095) and
  the settings it reads the caller from.  A set is a set, an entry of the cache what
  its signature admits; the JSON of the trigger's argument is the value it encodes.
\<close>

record column_rule =
  cr_id :: nat
  cr_collection :: string
  cr_column :: string
  cr_role :: string
  cr_read :: bool
  cr_write :: bool

record column_access =
  ca_hidden :: "string set"
  ca_readOnly :: "string set"

definition VIEW_ALL_COLUMNS :: string where "VIEW_ALL_COLUMNS = ''view_all_columns''"

definition SYSTEM_COLUMNS :: "string list" where
  "SYSTEM_COLUMNS = [''id'', ''created_at'', ''updated_at'', ''created_by'', ''updated_by'', ''tenant_id'',
     ''search_vector'', ''search_text'']"

section \<open>The guard's argument\<close>

record guard_spec =
  gs_roles :: "(string \<times> string list) list"
  gs_system :: "string list"

text \<open>
  \<open>roles[r.role] ?? []\<close> on an object literal finds an inherited member for a role of
  that name, which has no \<open>includes\<close>: the rebuild fails.
\<close>

datatype column_error = NotAFunction string | LockTimeout | DuplicateRule

fun guard_roles :: "column_rule list \<Rightarrow> (string \<times> string list) list \<Rightarrow>
    (column_error, (string \<times> string list) list) result" where
  "guard_roles [] roles = Ok roles"
| "guard_roles (r # rs) roles =
    (if cr_read r \<and> cr_write r then guard_roles rs roles
     else if cr_column r \<in> set SYSTEM_COLUMNS then guard_roles rs roles
     else if map_of roles (cr_role r) = None \<and> cr_role r \<in> set inherited then Throw (NotAFunction (cr_role r))
     else (let cols = (case map_of roles (cr_role r) of None \<Rightarrow> [] | Some cs \<Rightarrow> cs);
               cols' = (if cr_column r \<in> set cols then cols else cols @ [cr_column r])
           in guard_roles rs (AList.update (cr_role r) cols' roles)))"

definition compileColumnGuard :: "column_rule list \<Rightarrow> (column_error, guard_spec option) result" where
  "compileColumnGuard rows =
    (case guard_roles rows [] of
       Inl e \<Rightarrow> Throw e
     | Inr roles \<Rightarrow> Ok (if roles = [] then None
         else Some \<lparr> gs_roles = roles, gs_system = SYSTEM_COLUMNS \<rparr>))"

section \<open>The rules, the guards and the cache\<close>

record column_db =
  cd_rules :: "column_rule list"
  cd_tables :: "string set"
  cd_guards :: "string \<rightharpoonup> guard_spec"
  cd_cache :: "(string \<times> string) \<rightharpoonup> column_access"
  cd_next :: nat

definition rules_of :: "column_rule list \<Rightarrow> string \<Rightarrow> column_rule list" where
  "rules_of rules c = filter (\<lambda>r. cr_collection r = c) rules"

definition is_table_name :: "string \<Rightarrow> bool" where
  "is_table_name c \<longleftrightarrow> list_all (\<lambda>d. is_letter d \<or> is_digit d \<or> d = CHR ''_'') (''zvd_'' @ c)"

text \<open>A table busy past the lock bound fails the rebuild.\<close>

definition applyColumnGuard :: "string set \<Rightarrow> string \<Rightarrow> column_db \<Rightarrow> (column_error, bool \<times> column_db) result" where
  "applyColumnGuard busy collection db =
    (if \<not> is_table_name collection then Ok (False, db)
     else if collection \<notin> cd_tables db then Ok (False, db)
     else if collection \<in> busy then Throw LockTimeout
     else (case compileColumnGuard (rules_of (cd_rules db) collection) of
         Inl e \<Rightarrow> Throw e
       | Inr None \<Rightarrow> Ok (False, db \<lparr> cd_guards := (cd_guards db)(collection := None) \<rparr>)
       | Inr (Some spec) \<Rightarrow> Ok (True, db \<lparr> cd_guards := (cd_guards db)(collection \<mapsto> spec) \<rparr>)))"

fun apply_all :: "string set \<Rightarrow> string list \<Rightarrow> column_db \<Rightarrow> (column_error, column_db) result" where
  "apply_all busy [] db = Ok db"
| "apply_all busy (c # cs) db =
    (case applyColumnGuard busy c db of Inl e \<Rightarrow> Throw e | Inr (b, db') \<Rightarrow> apply_all busy cs db')"

definition dropColumnPermCaches :: "string \<Rightarrow> column_db \<Rightarrow> column_db" where
  "dropColumnPermCaches collection db =
    db \<lparr> cd_cache := (\<lambda>k. if fst k = collection then None else cd_cache db k) \<rparr>"

text \<open>After the commit: the guard once more, its failure only noted, then the cache.\<close>

definition invalidateColumnPermCache :: "string set \<Rightarrow> string \<Rightarrow> column_db \<Rightarrow> column_db" where
  "invalidateColumnPermCache busy collection db =
    dropColumnPermCaches collection
      (case applyColumnGuard busy collection db of Inl e \<Rightarrow> db | Inr (b, db') \<Rightarrow> db')"

text \<open>The rules and the guards commit together or not at all; \<open>late\<close> are the tables busy after.\<close>

definition writeColumnRules :: "string set \<Rightarrow> string set \<Rightarrow> column_db \<Rightarrow> 
    (column_db \<Rightarrow> (column_error, column_db \<times> string list) result) \<Rightarrow> (column_error, column_db) result" where
  "writeColumnRules busy late db write =
    (case write db of Inl e \<Rightarrow> Throw e
     | Inr (db1, collections) \<Rightarrow>
       (case apply_all busy (remdups collections) db1 of
          Inl e \<Rightarrow> Throw e
        | Inr db2 \<Rightarrow> Ok (fold (invalidateColumnPermCache late) (remdups collections) db2)))"

definition same_key :: "column_rule \<Rightarrow> column_rule \<Rightarrow> bool" where
  "same_key a b \<longleftrightarrow> cr_collection a = cr_collection b \<and> cr_column a = cr_column b \<and> cr_role a = cr_role b"

definition putColumnPermission :: "string set \<Rightarrow> string set \<Rightarrow> column_rule \<Rightarrow> column_db \<Rightarrow>
    (column_error, column_db) result" where
  "putColumnPermission busy late data db =
    writeColumnRules busy late db (\<lambda>db. Ok
      ((if list_ex (\<lambda>r. same_key r data) (cd_rules db)
        then db \<lparr> cd_rules := map (\<lambda>r. if same_key r data
                   then r \<lparr> cr_read := cr_read data, cr_write := cr_write data \<rparr> else r) (cd_rules db) \<rparr>
        else db \<lparr> cd_rules := cd_rules db @ [data \<lparr> cr_id := cd_next db \<rparr>], cd_next := Suc (cd_next db) \<rparr>),
       [cr_collection data]))"

definition deleteColumnPermission :: "string set \<Rightarrow> string set \<Rightarrow> nat \<Rightarrow> column_db \<Rightarrow>
    (column_error, column_db) result" where
  "deleteColumnPermission busy late rid db =
    writeColumnRules busy late db (\<lambda>db. Ok
      (db \<lparr> cd_rules := filter (\<lambda>r. cr_id r \<noteq> rid) (cd_rules db) \<rparr>,
       (case List.find (\<lambda>r. cr_id r = rid) (cd_rules db) of None \<Rightarrow> [] | Some r \<Rightarrow> [cr_collection r])))"

text \<open>
  The update of the admin route: the fields of the body it was sent, as the validator
  hands them over.  \<open>absent d\<close> is what the validator makes of a field that was not
  sent and has the default \<open>d\<close>.
\<close>

record rule_patch =
  rp_collection :: "string option"
  rp_column :: "string option"
  rp_role :: "string option"
  rp_read :: "bool option"
  rp_write :: "bool option"

definition validate_patch :: "(bool \<Rightarrow> bool option) \<Rightarrow> rule_patch \<Rightarrow> rule_patch" where
  "validate_patch absent p =
    p \<lparr> rp_read := (case rp_read p of None \<Rightarrow> absent True | Some b \<Rightarrow> Some b),
        rp_write := (case rp_write p of None \<Rightarrow> absent True | Some b \<Rightarrow> Some b) \<rparr>"

definition or_else :: "'a option \<Rightarrow> 'a \<Rightarrow> 'a" where
  "or_else x d = (case x of None \<Rightarrow> d | Some y \<Rightarrow> y)"

definition patched_rule :: "rule_patch \<Rightarrow> column_rule \<Rightarrow> column_rule" where
  "patched_rule p r = \<lparr> cr_id = cr_id r, cr_collection = or_else (rp_collection p) (cr_collection r),
     cr_column = or_else (rp_column p) (cr_column r), cr_role = or_else (rp_role p) (cr_role r),
     cr_read = or_else (rp_read p) (cr_read r), cr_write = or_else (rp_write p) (cr_write r) \<rparr>"

definition updateColumnPermission :: "string set \<Rightarrow> string set \<Rightarrow> nat \<Rightarrow> rule_patch \<Rightarrow> column_db \<Rightarrow>
    (column_error, column_db) result" where
  "updateColumnPermission busy late rid data db =
    writeColumnRules busy late db (\<lambda>db.
      case List.find (\<lambda>r. cr_id r = rid) (cd_rules db) of
        None \<Rightarrow> Ok (db, [])
      | Some r \<Rightarrow>
          if list_ex (\<lambda>x. cr_id x \<noteq> rid \<and> same_key x (patched_rule data r)) (cd_rules db) then Throw DuplicateRule
          else Ok (db \<lparr> cd_rules := map (\<lambda>x. if cr_id x = rid then patched_rule data x else x) (cd_rules db) \<rparr>,
                   [cr_collection r, cr_collection (patched_rule data r)]))"

section \<open>What a caller may see and write\<close>

datatype who = WhoId string | WhoUser string "string option"

definition who_id :: "who \<Rightarrow> string" where
  "who_id w = (case w of WhoId i \<Rightarrow> i | WhoUser i a \<Rightarrow> i)"

definition is_plain_key :: "string \<Rightarrow> bool" where
  "is_plain_key uid \<longleftrightarrow> starts_with ''apikey:'' uid \<and> \<not> starts_with ''apikey:job:'' uid"

definition rule_access :: "column_rule list \<Rightarrow> string \<Rightarrow> string \<Rightarrow> column_access" where
  "rule_access rules collection ro =
    (let rows = filter (\<lambda>r. cr_role r = ro \<or> cr_role r = ''*'') (rules_of rules collection) in
     \<lparr> ca_hidden = set (map cr_column (filter (\<lambda>r. \<not> cr_read r) rows)),
       ca_readOnly = set (map cr_column (filter (\<lambda>r. cr_read r \<and> \<not> cr_write r) rows)) \<rparr>)"

text \<open>The access of a role, through the cache.\<close>

definition cached_access :: "column_db \<Rightarrow> string \<Rightarrow> string \<Rightarrow> column_db \<times> column_access" where
  "cached_access db collection ro =
    (case cd_cache db (collection, ro) of
       Some a \<Rightarrow> (db, a)
     | None \<Rightarrow> (let a = rule_access (cd_rules db) collection ro in
                (db \<lparr> cd_cache := (cd_cache db)((collection, ro) \<mapsto> a) \<rparr>, a)))"

definition no_mask :: column_access where
  "no_mask = \<lparr> ca_hidden = {}, ca_readOnly = {} \<rparr>"

definition all_masked :: column_access where
  "all_masked = \<lparr> ca_hidden = {''*''}, ca_readOnly = {''*''} \<rparr>"

text \<open>\<open>getColumnAccess\<close> for a caller that is not a key: \<open>uid\<close> is the empty string when nobody is named.\<close>

definition role_access :: "authority \<Rightarrow> column_db \<Rightarrow> string \<Rightarrow> string \<Rightarrow> string \<Rightarrow> column_db \<times> column_access" where
  "role_access A db collection ro uid =
    (if uid \<noteq> [] \<and> catch_false (checkPermission A uid ''data'' VIEW_ALL_COLUMNS) then (db, no_mask)
     else cached_access db collection ro)"

definition keyColumnAccess :: "authority \<Rightarrow> column_db \<Rightarrow> string \<Rightarrow> string \<Rightarrow> string option \<Rightarrow>
    (perm_error, column_db \<times> column_access) result" where
  "keyColumnAccess A db collection ro issuer =
    (case issuer of None \<Rightarrow> Ok (db, all_masked)
     | Some i \<Rightarrow>
        if i = [] then Ok (db, all_masked)
        else (case role_access A db collection ro [] of (db1, own) \<Rightarrow>
          bind_result (principalRole A i) (\<lambda>r.
            case (if is_plain_key i then (db1, all_masked) else role_access A db1 collection r i) of (db2, theirs) \<Rightarrow>
              (let hidden = ca_hidden own \<union> ca_hidden theirs in
               Ok (db2, \<lparr> ca_hidden = hidden,
                          ca_readOnly = (ca_readOnly own \<union> ca_readOnly theirs) - hidden \<rparr>)))))"

definition getColumnAccess :: "authority \<Rightarrow> column_db \<Rightarrow> string \<Rightarrow> string \<Rightarrow> who option \<Rightarrow>
    (perm_error, column_db \<times> column_access) result" where
  "getColumnAccess A db collection ro who =
    (let uid = (case who of None \<Rightarrow> [] | Some w \<Rightarrow> who_id w) in
     if is_plain_key uid then
       keyColumnAccess A db collection ro
         (case who of Some (WhoUser i a) \<Rightarrow> a | _ \<Rightarrow> None)
     else Ok (role_access A db collection ro uid))"

type_synonym 'v fields = "(string \<times> 'v) list"

definition applyColumnAccess :: "'v fields \<Rightarrow> column_access \<Rightarrow> 'v fields" where
  "applyColumnAccess record a =
    (if ca_hidden a = {} then record
     else filter (\<lambda>(k, v). k \<notin> ca_hidden a \<and> ''*'' \<notin> ca_hidden a) record)"

definition blocks :: "column_access \<Rightarrow> string \<Rightarrow> bool" where
  "blocks a k \<longleftrightarrow> k \<in> ca_readOnly a \<or> ''*'' \<in> ca_readOnly a \<or> k \<in> ca_hidden a \<or> ''*'' \<in> ca_hidden a"

definition filterWritableFields :: "'v fields \<Rightarrow> column_access \<Rightarrow> 'v fields \<times> string list" where
  "filterWritableFields data a =
    (if \<not> (ca_readOnly a \<noteq> {} \<or> ''*'' \<in> ca_readOnly a \<or> ca_hidden a \<noteq> {} \<or> ''*'' \<in> ca_hidden a)
     then (data, [])
     else (filter (\<lambda>(k, v). \<not> blocks a k) data, map fst (filter (\<lambda>(k, v). blocks a k) data)))"

section \<open>The guard in the database\<close>

text \<open>The settings the trigger reads, as a session and a key publish them.\<close>

record column_settings =
  st_user_role :: string
  st_issuer_role :: string
  st_columns_all :: bool

definition sessionColumnSettings :: "authority \<Rightarrow> session_user \<Rightarrow> (perm_error, column_settings) result" where
  "sessionColumnSettings A u =
    bind_result (resolveUserRole A (Some (su_id u)) (su_role u)) (\<lambda>direct.
      Ok \<lparr> st_user_role = direct, st_issuer_role = [],
           st_columns_all = catch_false (checkPermission A (su_id u) ''data'' VIEW_ALL_COLUMNS) \<rparr>)"

definition keyColumnSettings :: "authority \<Rightarrow> api_key \<Rightarrow> (perm_error, column_settings) result" where
  "keyColumnSettings A k =
    (case ak_created_by k of
       None \<Rightarrow> Ok \<lparr> st_user_role = ''api_key'', st_issuer_role = [], st_columns_all = False \<rparr>
     | Some i \<Rightarrow>
        if i = [] then Ok \<lparr> st_user_role = ''api_key'', st_issuer_role = [], st_columns_all = False \<rparr>
        else bind_result
          (if catch_false (checkPermission A i ''data'' VIEW_ALL_COLUMNS) then Ok [] else principalRole A i)
          (\<lambda>r. Ok \<lparr> st_user_role = ''api_key'', st_issuer_role = r, st_columns_all = False \<rparr>))"

definition spec_cols :: "guard_spec \<Rightarrow> string \<Rightarrow> string list" where
  "spec_cols spec ro = (case map_of (gs_roles spec) ro of None \<Rightarrow> [] | Some cs \<Rightarrow> cs)"

text \<open>
  The columns an UPDATE of a caller's own statement may not change, and whether it is
  refused: \<open>new\<close> and \<open>old\<close> are the row's columns, \<open>None\<close> a column the table has not.
\<close>

definition guard_columns :: "guard_spec \<Rightarrow> column_settings \<Rightarrow> 'v fields \<Rightarrow> string list" where
  "guard_columns spec st new =
    (let cols = spec_cols spec (st_user_role st) @ spec_cols spec (st_issuer_role st) @ spec_cols spec ''*'';
         n = filter (\<lambda>(k, v). k \<notin> set (gs_system spec)) new
     in if ''*'' \<in> set cols then map fst n else cols)"

definition zveltio_column_guard :: "guard_spec \<Rightarrow> column_settings \<Rightarrow> 'v fields \<Rightarrow> 'v fields \<Rightarrow> string list" where
  "zveltio_column_guard spec st old new =
    (if st_columns_all st then []
     else (let n = filter (\<lambda>(k, v). k \<notin> set (gs_system spec)) new;
               old' = filter (\<lambda>(k, v). k \<notin> set (gs_system spec)) old
           in filter (\<lambda>c. map_of n c \<noteq> None \<and> map_of n c \<noteq> map_of old' c) (guard_columns spec st new)))"

definition guard_refuses :: "guard_spec option \<Rightarrow> column_settings \<Rightarrow> 'v fields \<Rightarrow> 'v fields \<Rightarrow> bool" where
  "guard_refuses g st old new =
    (case g of None \<Rightarrow> False | Some spec \<Rightarrow> zveltio_column_guard spec st old new \<noteq> [])"

section \<open>The compiled guard\<close>

lemma guard_roles_cols:
  assumes "guard_roles rows roles = Ok roles'"
  shows "c \<in> set (case map_of roles' ro of None \<Rightarrow> [] | Some cs \<Rightarrow> cs) \<longleftrightarrow>
    c \<in> set (case map_of roles ro of None \<Rightarrow> [] | Some cs \<Rightarrow> cs)
    \<or> (\<exists>r \<in> set rows. \<not> (cr_read r \<and> cr_write r) \<and> cr_column r \<notin> set SYSTEM_COLUMNS
          \<and> cr_role r = ro \<and> cr_column r = c)"
  using assms
proof (induction rows roles rule: guard_roles.induct)
  case (2 r rs roles)
  show ?case
    using 2 by (auto simp: Let_def AList.update_conv' split: if_splits option.splits)
qed simp

text \<open>\<open>rows\<close> restricts the column \<open>c\<close> for the role \<open>ro\<close>.\<close>

definition restricts :: "column_rule list \<Rightarrow> string \<Rightarrow> string \<Rightarrow> bool" where
  "restricts rows ro c \<longleftrightarrow> (\<exists>r \<in> set rows. \<not> (cr_read r \<and> cr_write r) \<and> cr_role r = ro \<and> cr_column r = c)"

definition guarded :: "guard_spec option \<Rightarrow> string \<Rightarrow> string \<Rightarrow> bool" where
  "guarded g ro c \<longleftrightarrow> (case g of None \<Rightarrow> False | Some spec \<Rightarrow> c \<in> set (spec_cols spec ro))"

lemma compiled_guard:
  assumes "compileColumnGuard rows = Ok g"
  shows "guarded g ro c \<longleftrightarrow> c \<notin> set SYSTEM_COLUMNS \<and> restricts rows ro c"
    and "g = Some spec \<Longrightarrow> gs_system spec = SYSTEM_COLUMNS"
proof -
  obtain roles where r: "guard_roles rows [] = Ok roles"
    and g: "g = (if roles = [] then None else Some \<lparr> gs_roles = roles, gs_system = SYSTEM_COLUMNS \<rparr>)"
    using assms by (auto simp: compileColumnGuard_def split: sum.splits)
  show "guarded g ro c \<longleftrightarrow> c \<notin> set SYSTEM_COLUMNS \<and> restricts rows ro c"
    using guard_roles_cols [OF r, of c ro] by (auto simp: g guarded_def spec_cols_def restricts_def)
  show "g = Some spec \<Longrightarrow> gs_system spec = SYSTEM_COLUMNS"
    by (auto simp: g split: if_splits)
qed

section \<open>The guards follow the rules\<close>

inductive col_reach :: "column_db \<Rightarrow> bool" where
  start: "col_reach \<lparr> cd_rules = [], cd_tables = {}, cd_guards = Map.empty, cd_cache = Map.empty, cd_next = 0 \<rparr>"
| put: "col_reach db \<Longrightarrow> putColumnPermission busy late data db = Ok db' \<Longrightarrow> col_reach db'"
| delete: "col_reach db \<Longrightarrow> deleteColumnPermission busy late rid db = Ok db' \<Longrightarrow> col_reach db'"
| update: "col_reach db \<Longrightarrow> updateColumnPermission busy late rid data db = Ok db' \<Longrightarrow> col_reach db'"
| read: "col_reach db \<Longrightarrow> getColumnAccess A db c ro w = Ok (db', a) \<Longrightarrow> col_reach db'"
| table: "col_reach db \<Longrightarrow> applyColumnGuard {} c (db \<lparr> cd_tables := insert c (cd_tables db) \<rparr>) = Ok (b, db') \<Longrightarrow>
    col_reach db'"
| expire: "col_reach db \<Longrightarrow> col_reach (db \<lparr> cd_cache := (cd_cache db)(k := None) \<rparr>)"

definition guards_ok :: "column_db \<Rightarrow> bool" where
  "guards_ok db \<longleftrightarrow> (\<forall>c \<in> cd_tables db. is_table_name c \<longrightarrow>
     compileColumnGuard (rules_of (cd_rules db) c) = Ok (cd_guards db c))"

definition cache_ok :: "column_db \<Rightarrow> bool" where
  "cache_ok db \<longleftrightarrow> (\<forall>c ro a. cd_cache db (c, ro) = Some a \<longrightarrow> a = rule_access (cd_rules db) c ro)"

definition ids_ok :: "column_db \<Rightarrow> bool" where
  "ids_ok db \<longleftrightarrow> distinct (map cr_id (cd_rules db)) \<and> (\<forall>r \<in> set (cd_rules db). cr_id r < cd_next db)"

text \<open>A rebuild touches the guard of its own collection.\<close>

lemma apply_guard:
  assumes "applyColumnGuard busy c db = Ok (b, db')"
  shows "\<exists>g. db' = db \<lparr> cd_guards := (cd_guards db)(c := g) \<rparr>
    \<and> (c \<in> cd_tables db \<longrightarrow> is_table_name c \<longrightarrow> compileColumnGuard (rules_of (cd_rules db) c) = Ok g)"
  using assms
  by (auto simp: applyColumnGuard_def split: if_splits sum.splits option.splits
      intro: exI [of _ "cd_guards db c"])

lemma invalidate:
  "\<exists>g. invalidateColumnPermCache late c db =
      db \<lparr> cd_guards := (cd_guards db)(c := g),
           cd_cache := (\<lambda>k. if fst k = c then None else cd_cache db k) \<rparr>
    \<and> (c \<in> cd_tables db \<longrightarrow> is_table_name c \<longrightarrow>
         compileColumnGuard (rules_of (cd_rules db) c) = Ok g \<or> g = cd_guards db c)"
proof (cases "applyColumnGuard late c db")
  case (Inl e)
  then show ?thesis
    by (intro exI [of _ "cd_guards db c"]) (simp add: invalidateColumnPermCache_def dropColumnPermCaches_def)
next
  case (Inr x)
  then obtain b db' where x: "applyColumnGuard late c db = Ok (b, db')" by (cases x) auto
  then obtain g where "db' = db \<lparr> cd_guards := (cd_guards db)(c := g) \<rparr>"
    "c \<in> cd_tables db \<longrightarrow> is_table_name c \<longrightarrow> compileColumnGuard (rules_of (cd_rules db) c) = Ok g"
    using apply_guard by blast
  then show ?thesis
    by (intro exI [of _ g]) (simp add: invalidateColumnPermCache_def dropColumnPermCaches_def x cong: if_cong)
qed

lemma apply_all_guards:
  assumes "apply_all busy cs db = Ok db'"
  shows "\<exists>G. db' = db \<lparr> cd_guards := G \<rparr>
    \<and> (\<forall>d. d \<notin> set cs \<longrightarrow> G d = cd_guards db d)
    \<and> (\<forall>d \<in> set cs. d \<in> cd_tables db \<longrightarrow> is_table_name d \<longrightarrow> compileColumnGuard (rules_of (cd_rules db) d) = Ok (G d))"
  using assms
proof (induction cs arbitrary: db)
  case Nil then show ?case by (auto intro: exI [of _ "cd_guards db"])
next
  case (Cons c cs)
  then obtain b db1 where a: "applyColumnGuard busy c db = Ok (b, db1)" "apply_all busy cs db1 = Ok db'"
    by (auto split: sum.splits)
  obtain g where g: "db1 = db \<lparr> cd_guards := (cd_guards db)(c := g) \<rparr>"
    "c \<in> cd_tables db \<longrightarrow> is_table_name c \<longrightarrow> compileColumnGuard (rules_of (cd_rules db) c) = Ok g"
    using apply_guard [OF a(1)] by blast
  obtain G where "db' = db1 \<lparr> cd_guards := G \<rparr>"
    "\<forall>d. d \<notin> set cs \<longrightarrow> G d = cd_guards db1 d"
    "\<forall>d \<in> set cs. d \<in> cd_tables db1 \<longrightarrow> is_table_name d \<longrightarrow> compileColumnGuard (rules_of (cd_rules db1) d) = Ok (G d)"
    using Cons.IH [OF a(2)] by blast
  then show ?case using g by (intro exI [of _ G]) (cases "c \<in> set cs"; auto)
qed

lemma invalidate_ok:
  assumes "guards_ok db"
  shows "guards_ok (invalidateColumnPermCache late c db)
    \<and> (\<exists>G. invalidateColumnPermCache late c db = db \<lparr> cd_guards := G,
          cd_cache := (\<lambda>k. if fst k = c then None else cd_cache db k) \<rparr>)"
proof -
  obtain g where g: "invalidateColumnPermCache late c db =
      db \<lparr> cd_guards := (cd_guards db)(c := g), cd_cache := (\<lambda>k. if fst k = c then None else cd_cache db k) \<rparr>"
    "c \<in> cd_tables db \<longrightarrow> is_table_name c \<longrightarrow>
         compileColumnGuard (rules_of (cd_rules db) c) = Ok g \<or> g = cd_guards db c"
    using invalidate [of late c db] by blast
  then show ?thesis using assms by (auto simp: guards_ok_def)
qed

lemma invalidate_all:
  assumes "guards_ok db"
  shows "guards_ok (fold (invalidateColumnPermCache late) cs db)
    \<and> (\<exists>G. fold (invalidateColumnPermCache late) cs db = db \<lparr> cd_guards := G,
          cd_cache := (\<lambda>k. if fst k \<in> set cs then None else cd_cache db k) \<rparr>)"
  using assms
proof (induction cs arbitrary: db)
  case Nil then show ?case by (auto intro: exI [of _ "cd_guards db"])
next
  case (Cons c cs)
  let ?db = "invalidateColumnPermCache late c db"
  obtain G where "guards_ok ?db" and G: "?db = db \<lparr> cd_guards := G, cd_cache := (\<lambda>k. if fst k = c then None else cd_cache db k) \<rparr>"
    using invalidate_ok [OF Cons.prems, of late c] by blast
  from Cons.IH [OF this(1)] obtain H where "guards_ok (fold (invalidateColumnPermCache late) cs ?db)"
    "fold (invalidateColumnPermCache late) cs ?db =
      ?db \<lparr> cd_guards := H, cd_cache := (\<lambda>k. if fst k \<in> set cs then None else cd_cache ?db k) \<rparr>" by blast
  moreover have "(\<lambda>k. if fst k \<in> set cs then None else cd_cache ?db k)
      = (\<lambda>k. if fst k \<in> set (c # cs) then None else cd_cache db k)"
    by (simp add: G fun_eq_iff)
  ultimately show ?case using G by (auto intro!: exI [of _ H])
qed

text \<open>A write of the rules of some collections, their guards rebuilt, their caches dropped.\<close>

lemma write_ok:
  assumes w: "writeColumnRules busy late db write = Ok db'" "write db = Ok (db1, cs)"
    and db1: "cd_tables db1 = cd_tables db" "cd_guards db1 = cd_guards db" "cd_cache db1 = cd_cache db"
    and other: "\<And>d. d \<notin> set cs \<Longrightarrow> rules_of (cd_rules db1) d = rules_of (cd_rules db) d"
    and ok: "guards_ok db" "cache_ok db" and ids: "ids_ok db1"
  shows "guards_ok db' \<and> cache_ok db' \<and> ids_ok db'"
proof -
  obtain db2 where a: "apply_all busy (remdups cs) db1 = Ok db2"
    and db': "db' = fold (invalidateColumnPermCache late) (remdups cs) db2"
    using w by (auto simp: writeColumnRules_def split: sum.splits)
  obtain G where G: "db2 = db1 \<lparr> cd_guards := G \<rparr>" "\<forall>d. d \<notin> set cs \<longrightarrow> G d = cd_guards db1 d"
    "\<forall>d \<in> set cs. d \<in> cd_tables db1 \<longrightarrow> is_table_name d \<longrightarrow> compileColumnGuard (rules_of (cd_rules db1) d) = Ok (G d)"
    using apply_all_guards [OF a] by auto
  have "guards_ok db2"
    unfolding guards_ok_def
  proof (intro ballI impI)
    fix d assume d: "d \<in> cd_tables db2" "is_table_name d"
    show "compileColumnGuard (rules_of (cd_rules db2) d) = Ok (cd_guards db2 d)"
      using d G ok(1) other [of d] by (cases "d \<in> set cs") (auto simp: db1 guards_ok_def)
  qed
  from invalidate_all [OF this, of late "remdups cs"] obtain H where "guards_ok db'"
    and H: "db' = db2 \<lparr> cd_guards := H, cd_cache := (\<lambda>k. if fst k \<in> set cs then None else cd_cache db2 k) \<rparr>"
    unfolding db' by auto
  moreover have "cache_ok db'"
    using ok(2) other by (auto simp: cache_ok_def H G(1) db1 rule_access_def split: if_splits)
  ultimately show ?thesis using ids by (simp add: ids_ok_def G(1))
qed

lemma put_ok:
  assumes "putColumnPermission busy late data db = Ok db'" "guards_ok db" "cache_ok db" "ids_ok db"
  shows "guards_ok db' \<and> cache_ok db' \<and> ids_ok db'"
proof (rule write_ok [OF assms(1) [unfolded putColumnPermission_def] refl _ _ _ _ assms(2,3)])
  let ?set = "\<lambda>r. if same_key r data then r \<lparr> cr_read := cr_read data, cr_write := cr_write data \<rparr> else r"
  let ?db1 = "if list_ex (\<lambda>r. same_key r data) (cd_rules db) then db \<lparr> cd_rules := map ?set (cd_rules db) \<rparr>
        else db \<lparr> cd_rules := cd_rules db @ [data \<lparr> cr_id := cd_next db \<rparr>], cd_next := Suc (cd_next db) \<rparr>"
  fix d assume d: "d \<notin> set [cr_collection data]"
  have "filter (\<lambda>r. cr_collection r = d) (map ?set xs) = filter (\<lambda>r. cr_collection r = d) xs" for xs :: "column_rule list"
    using d by (induction xs) (auto simp: same_key_def)
  then show "rules_of (cd_rules ?db1) d = rules_of (cd_rules db) d" using d by (simp add: rules_of_def)
next
  have "map cr_id (map (\<lambda>r. if same_key r data then r \<lparr> cr_read := cr_read data, cr_write := cr_write data \<rparr> else r) xs)
      = map cr_id xs" for xs :: "column_rule list"
    by (induction xs) auto
  then show "ids_ok (if list_ex (\<lambda>r. same_key r data) (cd_rules db)
        then db \<lparr> cd_rules := map (\<lambda>r. if same_key r data
                   then r \<lparr> cr_read := cr_read data, cr_write := cr_write data \<rparr> else r) (cd_rules db) \<rparr>
        else db \<lparr> cd_rules := cd_rules db @ [data \<lparr> cr_id := cd_next db \<rparr>], cd_next := Suc (cd_next db) \<rparr>)"
    using assms(4) by (auto simp: ids_ok_def simp del: map_map)
qed simp_all

text \<open>The rules of one identifier are one rule.\<close>

lemma found_rule:
  assumes "List.find (\<lambda>r. cr_id r = rid) rules = Some r" "distinct (map cr_id rules)"
  shows "cr_id r = rid" "x \<in> set rules \<Longrightarrow> cr_id x = rid \<Longrightarrow> x = r"
proof -
  have r: "r \<in> set rules" "cr_id r = rid" using assms(1) by (auto simp: find_Some_iff)
  then show "cr_id r = rid" "x \<in> set rules \<Longrightarrow> cr_id x = rid \<Longrightarrow> x = r"
    using assms(2) by (auto simp: distinct_map dest: inj_onD)
qed

lemma delete_ok:
  assumes "deleteColumnPermission busy late rid db = Ok db'" "guards_ok db" "cache_ok db" "ids_ok db"
  shows "guards_ok db' \<and> cache_ok db' \<and> ids_ok db'"
proof (rule write_ok [OF assms(1) [unfolded deleteColumnPermission_def] refl _ _ _ _ assms(2,3)])
  let ?found = "List.find (\<lambda>r. cr_id r = rid) (cd_rules db)"
  fix d assume d: "d \<notin> set (case ?found of None \<Rightarrow> [] | Some r \<Rightarrow> [cr_collection r])"
  show "rules_of (cd_rules (db \<lparr> cd_rules := filter (\<lambda>r. cr_id r \<noteq> rid) (cd_rules db) \<rparr>)) d = rules_of (cd_rules db) d"
  proof (cases ?found)
    case None
    then show ?thesis by (auto simp: rules_of_def find_None_iff intro!: filter_cong)
  next
    case (Some r)
    then have "cr_collection x \<noteq> d" if "x \<in> set (cd_rules db)" "cr_id x = rid" for x
      using found_rule(2) [OF Some _ that] d assms(4) by (auto simp: ids_ok_def)
    then show ?thesis by (auto simp: rules_of_def intro!: filter_cong)
  qed
next
  show "ids_ok (db \<lparr> cd_rules := filter (\<lambda>r. cr_id r \<noteq> rid) (cd_rules db) \<rparr>)"
    using assms(4) by (auto simp: ids_ok_def distinct_map_filter)
qed simp_all

lemma update_ok:
  assumes "updateColumnPermission busy late rid data db = Ok db'" "guards_ok db" "cache_ok db" "ids_ok db"
  shows "guards_ok db' \<and> cache_ok db' \<and> ids_ok db'"
proof (cases "List.find (\<lambda>r. cr_id r = rid) (cd_rules db)")
  case None
  then have "db' = db" using assms(1) by (simp add: updateColumnPermission_def writeColumnRules_def)
  then show ?thesis using assms by simp
next
  case (Some r)
  let ?rules = "map (\<lambda>x. if cr_id x = rid then patched_rule data x else x) (cd_rules db)"
  let ?cs = "[cr_collection r, cr_collection (patched_rule data r)]"
  have no: "\<not> list_ex (\<lambda>x. cr_id x \<noteq> rid \<and> same_key x (patched_rule data r)) (cd_rules db)"
    using assms(1) Some by (auto simp: updateColumnPermission_def writeColumnRules_def)
  have d: "distinct (map cr_id (cd_rules db))" using assms(4) by (simp add: ids_ok_def)
  have other: "rules_of ?rules d = rules_of (cd_rules db) d" if nd: "d \<notin> set ?cs" for d
  proof -
    have "filter (\<lambda>r. cr_collection r = d) (map (\<lambda>x. if cr_id x = rid then patched_rule data x else x) xs)
        = filter (\<lambda>r. cr_collection r = d) xs" if "\<And>x. x \<in> set xs \<Longrightarrow> cr_id x = rid \<Longrightarrow> x = r" for xs
      using that nd by (induction xs) auto
    then show ?thesis using found_rule(2) [OF Some d] by (simp add: rules_of_def)
  qed
  have "map cr_id (map (\<lambda>x. if cr_id x = rid then patched_rule data x else x) xs) = map cr_id xs" for xs
    by (induction xs) (auto simp: patched_rule_def)
  then have i: "ids_ok (db \<lparr> cd_rules := ?rules \<rparr>)"
    using assms(4) by (auto simp: ids_ok_def patched_rule_def simp del: map_map)
  show ?thesis
    by (rule write_ok [OF assms(1) [unfolded updateColumnPermission_def], of "db \<lparr> cd_rules := ?rules \<rparr>" ?cs])
      (use Some no other i assms in auto)
qed

lemma cached_ok:
  "cached_access db c ro = (db', a) \<Longrightarrow> cache_ok db \<Longrightarrow>
   cache_ok db' \<and> a = rule_access (cd_rules db) c ro \<and> (\<exists>k. db' = db \<lparr> cd_cache := k \<rparr>)"
  by (auto simp: cached_access_def cache_ok_def Let_def split: option.splits if_splits
      intro: exI [of _ "cd_cache db"])

lemma role_ok:
  "role_access A db c ro uid = (db', a) \<Longrightarrow> cache_ok db \<Longrightarrow>
   cache_ok db' \<and> (\<exists>k. db' = db \<lparr> cd_cache := k \<rparr>)
   \<and> a = (if uid \<noteq> [] \<and> catch_false (checkPermission A uid ''data'' VIEW_ALL_COLUMNS) then no_mask
          else rule_access (cd_rules db) c ro)"
  using cached_ok [of db c ro db' a]
  by (auto simp: role_access_def split: if_splits intro: exI [of _ "cd_cache db"])

lemma key_access:
  assumes "keyColumnAccess A db c ro (Some i) = Ok (db', a)" "i \<noteq> []" "cache_ok db"
  obtains r where "principalRole A i = Ok r" "cache_ok db'" "\<exists>k. db' = db \<lparr> cd_cache := k \<rparr>"
    "a = (let own = rule_access (cd_rules db) c ro;
              theirs = (if is_plain_key i then all_masked
                else if catch_false (checkPermission A i ''data'' VIEW_ALL_COLUMNS) then no_mask
                else rule_access (cd_rules db) c r)
          in \<lparr> ca_hidden = ca_hidden own \<union> ca_hidden theirs,
               ca_readOnly = (ca_readOnly own \<union> ca_readOnly theirs) - (ca_hidden own \<union> ca_hidden theirs) \<rparr>)"
proof -
  obtain db1 own where o: "role_access A db c ro [] = (db1, own)" by (cases "role_access A db c ro []")
  obtain r where r: "principalRole A i = Ok r"
    using assms(1,2) o by (auto simp: keyColumnAccess_def split: sum.splits)
  obtain db2 theirs where t: "(if is_plain_key i then (db1, all_masked) else role_access A db1 c r i) = (db2, theirs)"
    by (cases "if is_plain_key i then (db1, all_masked) else role_access A db1 c r i")
  from role_ok [OF o assms(3)] obtain k where
    own: "cache_ok db1" "db1 = db \<lparr> cd_cache := k \<rparr>" "own = rule_access (cd_rules db) c ro" by auto
  have th: "cache_ok db2 \<and> (\<exists>k. db2 = db1 \<lparr> cd_cache := k \<rparr>)
      \<and> theirs = (if is_plain_key i then all_masked
          else if catch_false (checkPermission A i ''data'' VIEW_ALL_COLUMNS) then no_mask
          else rule_access (cd_rules db) c r)"
  proof (cases "is_plain_key i")
    case True
    then show ?thesis using t own(1) by (auto intro: exI [of _ "cd_cache db1"])
  next
    case False
    then have "role_access A db1 c r i = (db2, theirs)" using t by simp
    from role_ok [OF this own(1)] show ?thesis using False assms(2) own(2) by simp
  qed
  have "db' = db2" "a = \<lparr> ca_hidden = ca_hidden own \<union> ca_hidden theirs,
      ca_readOnly = (ca_readOnly own \<union> ca_readOnly theirs) - (ca_hidden own \<union> ca_hidden theirs) \<rparr>"
    using assms(1,2) o r t by (auto simp: keyColumnAccess_def Let_def split: prod.splits if_splits)
  then show thesis using that [OF r] own th by (auto simp: Let_def)
qed

lemma read_ok:
  assumes "getColumnAccess A db c ro w = Ok (db', a)" "cache_ok db"
  shows "cache_ok db' \<and> (\<exists>k. db' = db \<lparr> cd_cache := k \<rparr>)"
proof (cases "is_plain_key (case w of None \<Rightarrow> [] | Some w \<Rightarrow> who_id w)")
  case False
  then have "role_access A db c ro (case w of None \<Rightarrow> [] | Some w \<Rightarrow> who_id w) = (db', a)"
    using assms(1) by (simp add: getColumnAccess_def Let_def)
  from role_ok [OF this assms(2)] show ?thesis by simp
next
  case True
  define i where "i = (case w of Some (WhoUser j b) \<Rightarrow> b | _ \<Rightarrow> None)"
  have k: "keyColumnAccess A db c ro i = Ok (db', a)"
    using assms(1) True by (simp add: getColumnAccess_def Let_def i_def)
  show ?thesis
  proof (cases "i = None \<or> i = Some []")
    case True
    then have "db' = db" using k by (auto simp: keyColumnAccess_def)
    then show ?thesis using assms(2) by (auto intro: exI [of _ "cd_cache db"])
  next
    case False
    then obtain j where j: "i = Some j" "j \<noteq> []" by auto
    show ?thesis by (rule key_access [OF k [unfolded j(1)] j(2) assms(2)]) blast
  qed
qed

lemma table_ok:
  assumes "applyColumnGuard {} c (db \<lparr> cd_tables := insert c (cd_tables db) \<rparr>) = Ok (b, db')"
    and "guards_ok db"
  shows "guards_ok db'" "cd_cache db' = cd_cache db" "cd_rules db' = cd_rules db" "cd_next db' = cd_next db"
proof -
  let ?db = "db \<lparr> cd_tables := insert c (cd_tables db) \<rparr>"
  obtain g where g: "db' = ?db \<lparr> cd_guards := (cd_guards ?db)(c := g) \<rparr>"
    "c \<in> cd_tables ?db \<longrightarrow> is_table_name c \<longrightarrow> compileColumnGuard (rules_of (cd_rules ?db) c) = Ok g"
    using apply_guard [OF assms(1)] by blast
  then show "guards_ok db'" using assms(2) by (auto simp: guards_ok_def)
  show "cd_cache db' = cd_cache db" "cd_rules db' = cd_rules db" "cd_next db' = cd_next db"
    using g(1) by simp_all
qed

lemma reach_ok: "col_reach db \<Longrightarrow> guards_ok db \<and> cache_ok db \<and> ids_ok db"
proof (induction rule: col_reach.induct)
  case start then show ?case by (simp add: guards_ok_def cache_ok_def ids_ok_def)
next
  case (put db busy late data db') then show ?case using put_ok by blast
next
  case (delete db busy late rid db') then show ?case using delete_ok by blast
next
  case (update db busy late rid data db') then show ?case using update_ok by blast
next
  case (read db A c ro w db' a)
  then obtain k where "cache_ok db'" "db' = db \<lparr> cd_cache := k \<rparr>" using read_ok by blast
  then show ?case using read.IH by (auto simp: guards_ok_def ids_ok_def)
next
  case (table db c b db')
  then show ?case using table_ok [OF table.hyps(2)] by (simp add: cache_ok_def ids_ok_def)
next
  case (expire db k)
  then show ?case by (auto simp: guards_ok_def cache_ok_def ids_ok_def)
qed

lemma guards_follow_rules_at:
  assumes "col_reach db" "c \<in> cd_tables db" "is_table_name c"
  shows "compileColumnGuard (rules_of (cd_rules db) c) = Ok (cd_guards db c)"
  using reach_ok [OF assms(1)] assms(2,3) by (simp add: guards_ok_def)

text \<open>C14. After any history of rule writes and deletes, with any tables busy, and of tables
created and lookups made, the guard on each collection's table is the one its present
rules compile to: a write whose rebuild fails changes no rule.\<close>

theorem guards_follow_rules:
  assumes "col_reach db" "c \<in> cd_tables db" "is_table_name c"
  shows "compileColumnGuard (rules_of (cd_rules db) c) = Ok (cd_guards db c)"
  by (rule guards_follow_rules_at [OF assms])

text \<open>One collection with one rule: members may not write its body.\<close>

definition example_rule :: column_rule where
  "example_rule = \<lparr> cr_id = 0, cr_collection = ''notes'', cr_column = ''body'', cr_role = ''member'',
     cr_read = True, cr_write = False \<rparr>"

definition example_guard :: guard_spec where
  "example_guard = \<lparr> gs_roles = [(''member'', [''body''])], gs_system = SYSTEM_COLUMNS \<rparr>"

definition example_db :: column_db where
  "example_db = \<lparr> cd_rules = [example_rule], cd_tables = {''notes''}, cd_guards = [''notes'' \<mapsto> example_guard],
     cd_cache = Map.empty, cd_next = 1 \<rparr>"

lemma example_names: "is_table_name ''notes''" "''body'' \<notin> set SYSTEM_COLUMNS" "''member'' \<notin> set inherited"
  by code_simp+

lemma example_reach: "col_reach example_db"
proof -
  let ?db0 = "\<lparr> cd_rules = [], cd_tables = {}, cd_guards = Map.empty, cd_cache = Map.empty, cd_next = 0 \<rparr> :: column_db"
  let ?db1 = "?db0 \<lparr> cd_tables := {''notes''} \<rparr>"
  have c: "compileColumnGuard [example_rule] = Ok (Some example_guard)" "compileColumnGuard [] = Ok None"
    using example_names by (simp_all add: compileColumnGuard_def example_rule_def example_guard_def)
  have "applyColumnGuard {} ''notes'' (?db0 \<lparr> cd_tables := insert ''notes'' (cd_tables ?db0) \<rparr>) = Ok (False, ?db1)"
    using example_names c by (simp add: applyColumnGuard_def rules_of_def fun_upd_def)
  then have r1: "col_reach ?db1" by (rule col_reach.table [OF col_reach.start])
  have r: "example_rule \<lparr> cr_id := 0 \<rparr> = example_rule" "cr_collection example_rule = ''notes''"
    by (simp_all add: example_rule_def)
  have "putColumnPermission {} {} example_rule ?db1 = Ok example_db"
    using example_names c r by (simp add: putColumnPermission_def writeColumnRules_def applyColumnGuard_def rules_of_def
        invalidateColumnPermCache_def dropColumnPermCaches_def example_db_def cong: if_cong)
  then show ?thesis by (rule col_reach.put [OF r1])
qed

theorem guards_follow_rules_witness:
  "compileColumnGuard (rules_of (cd_rules example_db) ''notes'') = Ok (cd_guards example_db ''notes'')"
  by (rule guards_follow_rules [OF example_reach]) (simp_all add: example_db_def example_names)

text \<open>
  A validator that fills an absent field with its default, as the optional form of a
  defaulted field does, turns an update of the write flag alone into one that lets the
  role read the column again.
\<close>

lemma partial_update_unhides:
  "absent True = Some True \<Longrightarrow> rp_read p = None \<Longrightarrow> cr_read (patched_rule (validate_patch absent p) r)"
  by (simp add: patched_rule_def validate_patch_def or_else_def)

end
