(* ===== verification/ColumnAgreement.thy ===== *)
theory ColumnAgreement
  imports ColumnRules
begin

text \<open>
  Column permissions on a write, twice: the fields the engine strips a caller of
  (\<open>filterWritableFields\<close>) and the update the guard on the table refuses, for a
  session and for an API key under the settings each publishes.
\<close>

section \<open>Two layers, one answer\<close>

lemma masks_iff:
  "x \<in> ca_hidden (rule_access rules c ro) \<or> x \<in> ca_readOnly (rule_access rules c ro) \<longleftrightarrow>
    restricts (rules_of rules c) ro x \<or> restricts (rules_of rules c) ''*'' x"
  unfolding rule_access_def restricts_def Let_def by (auto simp del: list.set_map)

lemma blocks_iff:
  "blocks a k \<longleftrightarrow> (k \<in> ca_hidden a \<or> k \<in> ca_readOnly a) \<or> (''*'' \<in> ca_hidden a \<or> ''*'' \<in> ca_readOnly a)"
  by (auto simp: blocks_def)

lemma blocks_rule:
  "blocks (rule_access rules c ro) k \<longleftrightarrow>
    (\<exists>x \<in> {ro, ''*''}. restricts (rules_of rules c) x k \<or> restricts (rules_of rules c) x ''*'')"
  unfolding blocks_iff masks_iff by blast

text \<open>The row an UPDATE leaves: its columns, with the data's values.\<close>

definition written :: "'v fields \<Rightarrow> 'v fields \<Rightarrow> 'v fields" where
  "written old data = map (\<lambda>(k, v). (k, case map_of data k of None \<Rightarrow> v | Some w \<Rightarrow> w)) old"

lemma map_of_written:
  "map_of (written old data) k =
    (case map_of old k of None \<Rightarrow> None | Some v \<Rightarrow> Some (case map_of data k of None \<Rightarrow> v | Some w \<Rightarrow> w))"
  by (induction old) (auto simp: written_def split: option.splits)

lemma map_of_not_system:
  "map_of (filter (\<lambda>(k, v). k \<notin> S) xs) c = (if c \<in> S then None else map_of xs c)"
  by (induction xs) auto

text \<open>What the guard holds for the two roles of a caller and \<open>*\<close>.\<close>

definition covers :: "guard_spec option \<Rightarrow> column_settings \<Rightarrow> string \<Rightarrow> bool" where
  "covers g st k \<longleftrightarrow> (\<exists>ro \<in> {st_user_role st, st_issuer_role st, ''*''}. guarded g ro k \<or> guarded g ro ''*'')"

lemma guard_refuses_iff:
  assumes g: "compileColumnGuard rows = Ok g"
  shows "guard_refuses g st old (written old data) \<longleftrightarrow>
    \<not> st_columns_all st \<and> (\<exists>k v w. k \<notin> set SYSTEM_COLUMNS \<and> covers g st k
       \<and> map_of old k = Some v \<and> map_of data k = Some w \<and> v \<noteq> w)"
proof (cases g)
  case None
  then show ?thesis by (simp add: guard_refuses_def covers_def guarded_def)
next
  case (Some spec)
  have sys: "gs_system spec = SYSTEM_COLUMNS" using compiled_guard(2) [OF g] Some by blast
  let ?n = "filter (\<lambda>(k, v). k \<notin> set SYSTEM_COLUMNS) (written old data)"
  let ?o = "filter (\<lambda>(k, v). k \<notin> set SYSTEM_COLUMNS) old"
  have changed: "map_of ?n c \<noteq> None \<and> map_of ?n c \<noteq> map_of ?o c \<longleftrightarrow>
      c \<notin> set SYSTEM_COLUMNS \<and> (\<exists>v w. map_of old c = Some v \<and> map_of data c = Some w \<and> v \<noteq> w)" for c
    by (auto simp: map_of_not_system map_of_written split: option.splits)
  have present: "c \<in> set (map fst ?n)" if "map_of ?n c \<noteq> None" for c
    using that by (simp add: map_of_eq_None_iff)
  have cols: "c \<in> set (guard_columns spec st (written old data)) \<longleftrightarrow> covers g st c" if "map_of ?n c \<noteq> None" for c
    using present [OF that] by (auto simp: guard_columns_def covers_def guarded_def Some Let_def sys)
  have "c \<in> set (guard_columns spec st (written old data)) \<and> map_of ?n c \<noteq> None \<and> map_of ?n c \<noteq> map_of ?o c \<longleftrightarrow>
      c \<notin> set SYSTEM_COLUMNS \<and> covers g st c \<and> (\<exists>v w. map_of old c = Some v \<and> map_of data c = Some w \<and> v \<noteq> w)" for c
    using cols [of c] changed [of c] by metis
  note E = this
  have nonempty: "filter P xs \<noteq> [] \<longleftrightarrow> (\<exists>c. c \<in> set xs \<and> P c)" for P and xs :: "string list"
    by (auto simp: filter_empty_conv)
  have "zveltio_column_guard spec st old (written old data) \<noteq> [] \<longleftrightarrow> \<not> st_columns_all st
      \<and> (\<exists>c. c \<notin> set SYSTEM_COLUMNS \<and> covers g st c \<and> (\<exists>v w. map_of old c = Some v \<and> map_of data c = Some w \<and> v \<noteq> w))"
    unfolding zveltio_column_guard_def Let_def sys
    by (cases "st_columns_all st") (simp_all only: if_True if_False nonempty E not_True_eq_False not_False_eq_True simp_thms)
  then show ?thesis by (simp add: guard_refuses_def Some)
qed

lemma covers_iff:
  assumes "compileColumnGuard rows = Ok g" "k \<notin> set SYSTEM_COLUMNS"
  shows "covers g st k \<longleftrightarrow>
    (\<exists>ro \<in> {st_user_role st, st_issuer_role st, ''*''}. restricts rows ro k \<or> restricts rows ro ''*'')"
proof -
  have "''*'' \<notin> set SYSTEM_COLUMNS" by code_simp
  then show ?thesis using assms(2) by (auto simp: covers_def compiled_guard(1) [OF assms(1)])
qed

lemma no_mask_blocks: "\<not> blocks no_mask k"
  by (simp add: blocks_def no_mask_def)

lemma no_blank:
  "list_all (\<lambda>r. cr_role r \<noteq> []) rules \<Longrightarrow> \<not> restricts (rules_of rules c) [] x"
  by (auto simp: restricts_def rules_of_def list_all_iff)

lemma blocked_names:
  "k \<in> set (snd (filterWritableFields data a)) \<longleftrightarrow> blocks a k \<and> k \<in> fst ` set data"
  by (force simp: filterWritableFields_def blocks_def image_iff)

lemma mapped_name: "map_of data k = Some w \<Longrightarrow> k \<in> fst ` set data"
  by (force dest: map_of_SomeD)

text \<open>The two layers say the same when their columns are the same.\<close>

lemma layers_agree:
  assumes g: "compileColumnGuard rows = Ok g"
    and cols: "\<And>k. k \<notin> set SYSTEM_COLUMNS \<Longrightarrow> \<not> st_columns_all st \<and> covers g st k \<longleftrightarrow> blocks a k"
  shows "guard_refuses g st old (written old data) \<longleftrightarrow>
    (\<exists>k v w. k \<in> set (snd (filterWritableFields data a)) \<and> k \<notin> set SYSTEM_COLUMNS
       \<and> map_of old k = Some v \<and> map_of data k = Some w \<and> v \<noteq> w)"
  unfolding guard_refuses_iff [OF g] blocked_names using cols mapped_name by metis

text \<open>C15. For a session, after any history of rule writes, the guard on the table refuses an
UPDATE exactly when the write changes a column the engine's filter blocks for the
caller: a write the filter passes is never refused below, and a path that forgets the
filter gains nothing by it.  System columns are left to the engine.\<close>

theorem session_write_layers_agree:
  assumes "col_reach db" "c \<in> cd_tables db" "is_table_name c" "list_all (\<lambda>r. cr_role r \<noteq> []) (cd_rules db)"
    and u: "su_id u \<noteq> []" "\<not> isApiKeySubject (su_id u)"
    and ro: "resolveUserRole A (Some (su_id u)) (su_role u) = Ok ro"
    and a: "getColumnAccess A db c ro (Some (WhoUser (su_id u) author)) = Ok (db', a)"
    and st: "sessionColumnSettings A u = Ok st"
  shows "guard_refuses (cd_guards db c) st old (written old data) \<longleftrightarrow>
    (\<exists>k v w. k \<in> set (snd (filterWritableFields data a)) \<and> k \<notin> set SYSTEM_COLUMNS
       \<and> map_of old k = Some v \<and> map_of data k = Some w \<and> v \<noteq> w)"
proof (rule layers_agree)
  let ?rows = "rules_of (cd_rules db) c"
  show g: "compileColumnGuard ?rows = Ok (cd_guards db c)" by (rule guards_follow_rules_at [OF assms(1-3)])
  let ?all = "catch_false (checkPermission A (su_id u) ''data'' VIEW_ALL_COLUMNS)"
  have st': "st = \<lparr> st_user_role = ro, st_issuer_role = [], st_columns_all = ?all \<rparr>"
    using st ro by (simp add: sessionColumnSettings_def)
  have "\<not> is_plain_key (su_id u)" using u(2) by (simp add: is_plain_key_def isApiKeySubject_def)
  then have "role_access A db c ro (su_id u) = (db', a)"
    using a by (simp add: getColumnAccess_def who_id_def)
  from role_ok [OF this] have a': "a = (if ?all then no_mask else rule_access (cd_rules db) c ro)"
    using reach_ok [OF assms(1)] u(1) by simp
  fix k :: string assume k: "k \<notin> set SYSTEM_COLUMNS"
  show "\<not> st_columns_all st \<and> covers (cd_guards db c) st k \<longleftrightarrow> blocks a k"
    using no_blank [OF assms(4)] no_mask_blocks
    by (auto simp: st' a' covers_iff [OF g k] blocks_rule)
qed

text \<open>A member and a key the member issued, as the authority answers for them.\<close>

definition example_authority :: authority where
  "example_authority = \<lparr> au_user_role = (\<lambda>u. Ok ''member''), au_allows = (\<lambda>u r a. (False, False)),
     au_roles = (\<lambda>u. Ok [''member'']), au_implicit = (\<lambda>u. Ok [''member'']), au_unloaded = (\<lambda>u. Ok []),
     au_email = (\<lambda>u. Ok None) \<rparr>"

lemma example_member:
  "resolveUserRole example_authority (Some ''u1'') None = Ok ''member''"
  "checkPermission example_authority ''u1'' ''data'' VIEW_ALL_COLUMNS = Ok False"
  "\<not> isApiKeySubject ''u1''"
  by code_simp+

lemma example_access:
  "rule_access (cd_rules example_db) ''notes'' ''member'' = \<lparr> ca_hidden = {}, ca_readOnly = {''body''} \<rparr>"
  "rule_access (cd_rules example_db) ''notes'' ''api_key'' = no_mask"
  by (simp_all add: rule_access_def rules_of_def example_db_def example_rule_def no_mask_def Let_def
      del: set_map set_filter list.set_map)

lemma example_blocked:
  "ca_readOnly a = {''body''} \<Longrightarrow> ca_hidden a = {} \<Longrightarrow>
   snd (filterWritableFields [(''body'', 2 :: nat)] a) = [''body'']"
  by (simp add: filterWritableFields_def blocks_def)

theorem session_write_layers_agree_witness:
  "guard_refuses (cd_guards example_db ''notes'') \<lparr> st_user_role = ''member'', st_issuer_role = [], st_columns_all = False \<rparr>
     [(''body'', 1 :: nat)] (written [(''body'', 1)] [(''body'', 2)])"
proof -
  let ?u = "\<lparr> su_id = ''u1'', su_email = None, su_role = None \<rparr> :: session_user"
  let ?a = "\<lparr> ca_hidden = {}, ca_readOnly = {''body''} \<rparr>"
  have g: "getColumnAccess example_authority example_db ''notes'' ''member'' (Some (WhoUser ''u1'' None))
      = Ok (example_db \<lparr> cd_cache := [(''notes'', ''member'') \<mapsto> ?a] \<rparr>, ?a)"
    using example_member(2) example_access(1)
    by (simp add: getColumnAccess_def who_id_def is_plain_key_def starts_with_def role_access_def cached_access_def
        example_db_def Let_def)
  have "sessionColumnSettings example_authority ?u
      = Ok \<lparr> st_user_role = ''member'', st_issuer_role = [], st_columns_all = False \<rparr>"
    using example_member by (simp add: sessionColumnSettings_def)
  from session_write_layers_agree [OF example_reach _ example_names(1) _ _ _ _ _ this, of "''member''" None _ ?a
      "[(''body'', 1 :: nat)]" "[(''body'', 2)]"]
  show ?thesis using example_member g example_blocked [of ?a] example_names(2)
    by (simp add: example_db_def example_rule_def)
qed

lemma blocks_merge:
  "blocks \<lparr> ca_hidden = ca_hidden x \<union> ca_hidden y,
      ca_readOnly = (ca_readOnly x \<union> ca_readOnly y) - (ca_hidden x \<union> ca_hidden y) \<rparr> k
   \<longleftrightarrow> blocks x k \<or> blocks y k"
  by (auto simp: blocks_iff)

text \<open>The same for an API key, whose columns are its own rules' and its issuer's, the stricter
of the two, with the issuer's half waived while the issuer may see every column.\<close>

theorem key_write_layers_agree:
  assumes "col_reach db" "c \<in> cd_tables db" "is_table_name c" "list_all (\<lambda>r. cr_role r \<noteq> []) (cd_rules db)"
    and k: "is_plain_key (key_principal key)" "ak_created_by key = Some i" "i \<noteq> []" "\<not> isApiKeySubject i"
    and a: "getColumnAccess A db c ''api_key'' (Some (WhoUser (key_principal key) (ak_created_by key))) = Ok (db', a)"
    and st: "keyColumnSettings A key = Ok st"
  shows "guard_refuses (cd_guards db c) st old (written old data) \<longleftrightarrow>
    (\<exists>k v w. k \<in> set (snd (filterWritableFields data a)) \<and> k \<notin> set SYSTEM_COLUMNS
       \<and> map_of old k = Some v \<and> map_of data k = Some w \<and> v \<noteq> w)"
proof (rule layers_agree)
  let ?rows = "rules_of (cd_rules db) c"
  show g: "compileColumnGuard ?rows = Ok (cd_guards db c)" by (rule guards_follow_rules_at [OF assms(1-3)])
  let ?all = "catch_false (checkPermission A i ''data'' VIEW_ALL_COLUMNS)"
  have "keyColumnAccess A db c ''api_key'' (Some i) = Ok (db', a)"
    using a k by (simp add: getColumnAccess_def who_id_def)
  moreover have "cache_ok db" using reach_ok [OF assms(1)] by simp
  moreover have "\<not> is_plain_key i" using k(4) by (simp add: is_plain_key_def isApiKeySubject_def)
  ultimately obtain r where r: "principalRole A i = Ok r" and a':
    "a = (let own = rule_access (cd_rules db) c ''api_key'';
              theirs = (if ?all then no_mask else rule_access (cd_rules db) c r)
          in \<lparr> ca_hidden = ca_hidden own \<union> ca_hidden theirs,
               ca_readOnly = (ca_readOnly own \<union> ca_readOnly theirs) - (ca_hidden own \<union> ca_hidden theirs) \<rparr>)"
    using k(3) by (elim key_access) auto
  have st': "st = \<lparr> st_user_role = ''api_key'', st_issuer_role = (if ?all then [] else r), st_columns_all = False \<rparr>"
    using st k(2,3) r by (auto simp: keyColumnSettings_def split: if_splits)
  fix x :: string assume x: "x \<notin> set SYSTEM_COLUMNS"
  show "\<not> st_columns_all st \<and> covers (cd_guards db c) st x \<longleftrightarrow> blocks a x"
    using no_blank [OF assms(4)] no_mask_blocks
    by (auto simp: st' a' Let_def blocks_merge covers_iff [OF g x] blocks_rule)
qed

theorem key_write_layers_agree_witness:
  "guard_refuses (cd_guards example_db ''notes'') \<lparr> st_user_role = ''api_key'', st_issuer_role = ''member'', st_columns_all = False \<rparr>
     [(''body'', 1 :: nat)] (written [(''body'', 1)] [(''body'', 2)])"
proof -
  let ?k = "\<lparr> ak_id = ''7'', ak_created_by = Some ''u1'', ak_rls_bypass = None \<rparr> :: api_key"
  let ?a = "\<lparr> ca_hidden = {}, ca_readOnly = {''body''} \<rparr>"
  have p: "is_plain_key (key_principal ?k)" "\<not> is_plain_key ''u1''" "principalRole example_authority ''u1'' = Ok ''member''"
    by code_simp+
  obtain db' where g: "getColumnAccess example_authority example_db ''notes'' ''api_key''
      (Some (WhoUser (key_principal ?k) (ak_created_by ?k))) = Ok (db', ?a)"
    using p example_member(2) example_access
    by (simp add: getColumnAccess_def who_id_def keyColumnAccess_def role_access_def cached_access_def example_db_def
        no_mask_def Let_def)
  have "keyColumnSettings example_authority ?k
      = Ok \<lparr> st_user_role = ''api_key'', st_issuer_role = ''member'', st_columns_all = False \<rparr>"
    using p(3) example_member(2) by (simp add: keyColumnSettings_def)
  from key_write_layers_agree [OF example_reach _ example_names(1) _ p(1) _ _ _ g this, of "''u1''"
      "[(''body'', 1 :: nat)]" "[(''body'', 2)]"]
  show ?thesis using example_member(3) example_blocked [of ?a] example_names(2)
    by (simp add: example_db_def example_rule_def)
qed

end
