(* ===== verification/Csv.thy ===== *)
theory Csv
  imports SqlLex JsRegex Crdt
begin

text \<open>
  \<open>lib/security/csv.ts\<close>: a cell no spreadsheet executes, and the document of a list of
  records.  A value is its kind and the text JavaScript prints it as; a property the
  record does not have and every object inherits prints as the argument \<open>native\<close>.
\<close>

datatype cell = Missing | Dated string | Structured string | Printed string

fun raw_text :: "cell \<Rightarrow> string" where
  "raw_text Missing = []"
| "raw_text (Dated t) = t"
| "raw_text (Structured t) = t"
| "raw_text (Printed s) = s"

definition formula_char :: "char \<Rightarrow> bool" where
  "formula_char c \<longleftrightarrow> c \<in> {CHR ''='', CHR ''+'', CHR ''-'', CHR ''@'', CHR 0x09, CHR 0x0D}"

definition FORMULA_START :: "string \<Rightarrow> bool" where
  "FORMULA_START s \<longleftrightarrow> rx_here (rx_seq [rx_begin, rx_char formula_char]) ([], s)"

definition rx_sign :: rexp where
  "rx_sign = rx_opt (rx_char (\<lambda>c. c = CHR ''+'' \<or> c = CHR ''-''))"

definition NUMERIC :: "string \<Rightarrow> bool" where
  "NUMERIC s \<longleftrightarrow> rx_here (rx_seq [rx_begin, rx_sign,
     rx_alt [rx_seq [rx_some is_digit, rx_opt (rx_char (\<lambda>c. c = CHR ''.'')), rx_many is_digit],
             rx_seq [rx_char (\<lambda>c. c = CHR ''.''), rx_some is_digit]],
     rx_opt (rx_seq [rx_word ''e'', rx_sign, rx_some is_digit]), rx_end]) ([], s)"

text \<open>The text a spreadsheet is to show.\<close>

definition safe_text :: "string \<Rightarrow> string" where
  "safe_text raw = (if FORMULA_START raw \<and> \<not> NUMERIC raw then SQUOTE # raw else raw)"

definition csvCell :: "cell \<Rightarrow> string" where
  "csvCell v =
    (if v = Missing then [DQUOTE, DQUOTE]
     else [DQUOTE] @ replace_all DQUOTE [DQUOTE, DQUOTE] (safe_text (raw_text v)) @ [DQUOTE])"

type_synonym csv_record = "(string \<times> cell) list"

definition field_of :: "(string \<Rightarrow> string) \<Rightarrow> csv_record \<Rightarrow> string \<Rightarrow> cell" where
  "field_of native r k =
    (case map_of r k of Some v \<Rightarrow> v
     | None \<Rightarrow> if k \<in> set inherited then Printed (native k) else Missing)"

text \<open>The keys of every record, in the order they first come.\<close>

definition union_keys :: "csv_record list \<Rightarrow> string list" where
  "union_keys records =
    fold (\<lambda>r keys. fold (\<lambda>k keys. if k \<in> set keys then keys else keys @ [k]) (map fst r) keys) records []"

abbreviation CRLF :: string where "CRLF \<equiv> [CHR 0x0D, CHR 0x0A]"

definition recordsToCsv :: "(string \<Rightarrow> string) \<Rightarrow> csv_record list \<Rightarrow> string" where
  "recordsToCsv native records =
    (if records = [] then []
     else (let keys = union_keys records;
               header = js_join '','' (map (\<lambda>k. csvCell (Printed k)) keys);
               rows = map (\<lambda>r. js_join '','' (map (\<lambda>k. csvCell (field_of native r k)) keys)) records
           in js_join CRLF (header # rows)))"

section \<open>Reading a document\<close>

text \<open>A document of quoted cells, as the grammar of CSV reads it: its rows of texts.\<close>

function (sequential) read_csv :: "string \<Rightarrow> string list list option" where
  "read_csv [] = None"
| "read_csv (c # cs) =
    (if c \<noteq> DQUOTE then None
     else (case scan_quoted DQUOTE cs of None \<Rightarrow> None
       | Some (v, rest) \<Rightarrow>
           if rest = [] then Some [[v]]
           else if hd rest = COMMA then
             (case read_csv (tl rest) of Some (row # rows) \<Rightarrow> Some ((v # row) # rows) | _ \<Rightarrow> None)
           else if starts_with CRLF rest then map_option (\<lambda>rows. [v] # rows) (read_csv (drop 2 rest))
           else None))"
  by pat_completeness auto
termination
  by (relation "measure length") (auto dest!: scan_quoted_length)

declare read_csv.simps [simp del]

lemma scan_doubled:
  "rest = [] \<or> hd rest \<noteq> q \<Longrightarrow> scan_quoted q (replace_all q [q, q] v @ q # rest) = Some (v, rest)"
proof (induction v)
  case Nil then show ?case by (cases rest) auto
next
  case (Cons c v)
  have "\<exists>d ds. replace_all q [q, q] v @ q # rest = d # ds"
    by (cases "replace_all q [q, q] v") auto
  then show ?case using Cons by auto
qed

text \<open>What a cell reads back as.\<close>

definition shown :: "cell \<Rightarrow> string" where
  "shown v = safe_text (raw_text v)"

lemma not_formula_Nil: "\<not> FORMULA_START []"
  by (auto simp: FORMULA_START_def rx_here_iff rx)

lemma cell_text: "csvCell v = [DQUOTE] @ replace_all DQUOTE [DQUOTE, DQUOTE] (shown v) @ [DQUOTE]"
  by (cases v) (auto simp: csvCell_def shown_def safe_text_def not_formula_Nil)

lemma read_cell:
  "rest = [] \<or> hd rest \<noteq> DQUOTE \<Longrightarrow>
   read_csv (csvCell v @ rest) =
    (if rest = [] then Some [[shown v]]
     else if hd rest = COMMA then
       (case read_csv (tl rest) of Some (row # rows) \<Rightarrow> Some ((shown v # row) # rows) | _ \<Rightarrow> None)
     else if starts_with CRLF rest then map_option (\<lambda>rows. [shown v] # rows) (read_csv (drop 2 rest))
     else None)"
  by (simp add: cell_text read_csv.simps scan_doubled)

lemma read_row:
  "vs \<noteq> [] \<Longrightarrow> read_csv (js_join '','' (map csvCell vs)) = Some [map shown vs]"
proof (induction vs rule: induct_list012)
  case (2 v)
  show ?case using read_cell [of "[]" v] by simp
next
  case (3 v w vs)
  then show ?case using read_cell [of "'','' @ js_join '','' (map csvCell (w # vs))" v] by simp
qed simp

lemma read_row_then:
  "vs \<noteq> [] \<Longrightarrow> read_csv rest = Some rows \<Longrightarrow>
   read_csv (js_join '','' (map csvCell vs) @ CRLF @ rest) = Some (map shown vs # rows)"
proof (induction vs rule: induct_list012)
  case (2 v)
  then show ?case using read_cell [of "CRLF @ rest" v] by (simp add: starts_with_def)
next
  case (3 v w vs)
  then show ?case using read_cell [of "'','' @ js_join '','' (map csvCell (w # vs)) @ CRLF @ rest" v] by simp
qed simp

lemma read_table:
  "table \<noteq> [] \<Longrightarrow> list_all (\<lambda>vs. vs \<noteq> []) table \<Longrightarrow>
   read_csv (js_join CRLF (map (\<lambda>vs. js_join '','' (map csvCell vs)) table)) = Some (map (map shown) table)"
proof (induction table rule: induct_list012)
  case (3 a b t)
  then show ?case using read_row_then [of a] by simp
qed (simp_all add: read_row)

lemma reads_back:
  assumes "union_keys records \<noteq> []"
  shows "read_csv (recordsToCsv native records) =
    Some (map (\<lambda>k. shown (Printed k)) (union_keys records)
      # map (\<lambda>r. map (\<lambda>k. shown (field_of native r k)) (union_keys records)) records)"
proof -
  let ?table = "map Printed (union_keys records) # map (\<lambda>r. map (field_of native r) (union_keys records)) records"
  have "records \<noteq> []" using assms by (auto simp: union_keys_def)
  then have "recordsToCsv native records = js_join CRLF (map (\<lambda>vs. js_join '','' (map csvCell vs)) ?table)"
    by (simp add: recordsToCsv_def Let_def comp_def)
  moreover have "list_all (\<lambda>vs. vs \<noteq> []) ?table" using assms by (simp add: list_all_iff)
  ultimately show ?thesis using read_table [of ?table] by (simp add: comp_def)
qed

text \<open>A document of records with at least one key reads back, by the grammar of CSV, as the
header and one row for each record, each with every key of any record in the order the
keys first come, whatever quotes, commas and line ends the values hold.\<close>

theorem document_reads_back:
  assumes "union_keys records \<noteq> []"
  shows "read_csv (recordsToCsv native records) =
    Some (map (\<lambda>k. shown (Printed k)) (union_keys records)
      # map (\<lambda>r. map (\<lambda>k. shown (field_of native r k)) (union_keys records)) records)"
  using assms by (rule reads_back)

theorem document_reads_back_witness:
  "read_csv (recordsToCsv (\<lambda>k. k) [[(''a'', Printed [DQUOTE, COMMA])], [(''b'', Printed ''=1+1'')]])
   = Some [[''a'', ''b''], [[DQUOTE, COMMA], []], [[], SQUOTE # ''=1+1'']]"
proof -
  let ?rs = "[[(''a'', Printed [DQUOTE, COMMA])], [(''b'', Printed ''=1+1'')]]"
  have "union_keys ?rs \<noteq> []" by code_simp
  from document_reads_back [OF this, of "\<lambda>k. k"] show ?thesis
    by (rule trans) code_simp
qed

section \<open>No cell is a formula\<close>

lemma safe_text_safe: "FORMULA_START (safe_text s) \<Longrightarrow> NUMERIC (safe_text s)"
  by (auto simp: safe_text_def FORMULA_START_def rx_here_iff rx moved_Cons formula_char_def split: if_splits)

text \<open>C16. Every cell a spreadsheet reads from an exported document, headers included, begins like
a formula only when the whole of it is a number.\<close>

theorem no_cell_is_a_formula:
  assumes "read_csv (recordsToCsv native records) = Some rows" "row \<in> set rows" "text \<in> set row"
    and "union_keys records \<noteq> []" "FORMULA_START text"
  shows "NUMERIC text"
  using assms reads_back [OF assms(4), of native] safe_text_safe
  by (auto simp: shown_def)

theorem no_cell_is_a_formula_witness: "NUMERIC ''-42''"
proof -
  have u: "union_keys [[(''a'', Printed ''-42'')]] \<noteq> []" by code_simp
  have f: "FORMULA_START ''-42''" by code_simp
  have "read_csv (recordsToCsv (\<lambda>k. k) [[(''a'', Printed ''-42'')]]) = Some [[''a''], [''-42'']]" by code_simp
  from no_cell_is_a_formula [OF this _ _ u f, of "[''-42'']"] show ?thesis by simp
qed

end
