(* ===== verification/ClientIp.thy ===== *)
theory ClientIp
  imports JsRegex
begin

text \<open>
  \<open>lib/security/client-ip.ts\<close>: the address a request is taken to come from.  A request
  is its headers, by lower-case name, and the addresses the two servers report for the
  peer; \<open>TRUSTED_PROXY\<close> is an argument.
\<close>

record peer_request =
  rq_header :: "string \<Rightarrow> string option"
  rq_bun_peer :: "string option"
  rq_node_peer :: "string option"

abbreviation DOT :: char where "DOT \<equiv> CHR ''.''"

section \<open>The patterns\<close>

definition rx_is :: "char \<Rightarrow> rexp" where
  "rx_is c = rx_char (\<lambda>d. d = c)"

definition rx_digit :: rexp where
  "rx_digit = rx_char is_digit"

definition rx_range :: "char \<Rightarrow> char \<Rightarrow> rexp" where
  "rx_range a b = rx_char (\<lambda>d. code a \<le> code d \<and> code d \<le> code b)"

text \<open>\<open>\\d{1,3}\<close>: three digits before two before one.\<close>

definition rx_digits3 :: rexp where
  "rx_digits3 = rx_alt [rx_seq [rx_digit, rx_digit, rx_digit], rx_seq [rx_digit, rx_digit], rx_digit]"

definition mapped_v4 :: rexp where
  "mapped_v4 = rx_seq [rx_digits3, rx_is DOT, rx_digits3, rx_is DOT, rx_digits3, rx_is DOT, rx_digits3]"

definition rx_octet :: rexp where
  "rx_octet = rx_alt [rx_seq [rx_is (CHR ''2''), rx_is (CHR ''5''), rx_range (CHR ''0'') (CHR ''5'')],
     rx_seq [rx_is (CHR ''2''), rx_range (CHR ''0'') (CHR ''4''), rx_digit],
     rx_seq [rx_is (CHR ''1''), rx_digit, rx_digit],
     rx_seq [rx_range (CHR ''1'') (CHR ''9''), rx_digit],
     rx_digit]"

definition IPV4_RE :: "string \<Rightarrow> bool" where
  "IPV4_RE s \<longleftrightarrow> rx_here (rx_seq [rx_begin, rx_octet, rx_is DOT, rx_octet, rx_is DOT, rx_octet, rx_is DOT,
     rx_octet, rx_end]) ([], s)"

definition IPV6_RE :: "string \<Rightarrow> bool" where
  "IPV6_RE s \<longleftrightarrow> 2 \<le> length s \<and> length s \<le> 39 \<and> list_all (\<lambda>c. is_hex c \<or> c = CHR '':'') s"

definition is_address :: "string \<Rightarrow> bool" where
  "is_address s \<longleftrightarrow> IPV4_RE s \<or> IPV6_RE s"

section \<open>The resolver\<close>

text \<open>An empty string is falsy; \<open>None\<close> is \<open>undefined\<close>.\<close>

definition normalizeIp :: "string option \<Rightarrow> string option" where
  "normalizeIp raw =
    (case raw of None \<Rightarrow> None
     | Some r \<Rightarrow>
        if r = [] then None
        else (let s = js_trim r in
          case rx_word ''::ffff:'' ([], s) of
            [] \<Rightarrow> Some s
          | (l, v) # _ \<Rightarrow> Some (if rx_here (rx_seq [mapped_v4, rx_end]) ([], v) then v else s)))"

definition header_address :: "bool \<Rightarrow> string option \<Rightarrow> string option" where
  "header_address trustedProxy raw =
    (case raw of None \<Rightarrow> None
     | Some s \<Rightarrow> if trustedProxy \<and> s \<noteq> [] \<and> is_address s then Some s else None)"

definition or_if_empty :: "string option \<Rightarrow> string option \<Rightarrow> string option" where
  "or_if_empty a b = (case a of None \<Rightarrow> b | Some s \<Rightarrow> if s = [] then b else a)"

definition connection_ip :: "peer_request \<Rightarrow> string option" where
  "connection_ip q =
    (case normalizeIp (rq_bun_peer q) of Some s \<Rightarrow> Some s | None \<Rightarrow> normalizeIp (rq_node_peer q))"

definition resolveClientIp :: "bool \<Rightarrow> peer_request \<Rightarrow> string" where
  "resolveClientIp trustedProxy q =
    (let forwardedIp = header_address trustedProxy
           (map_option (\<lambda>h. js_trim (hd (js_split COMMA h))) (rq_header q ''x-forwarded-for''));
         realIp = header_address trustedProxy (map_option js_trim (rq_header q ''x-real-ip''))
     in case or_if_empty forwardedIp (or_if_empty realIp (or_if_empty (connection_ip q) None)) of
          Some s \<Rightarrow> s | None \<Rightarrow> ''unknown'')"

definition clientIpForAudit :: "bool \<Rightarrow> peer_request \<Rightarrow> string option" where
  "clientIpForAudit trustedProxy q =
    (let ip = resolveClientIp trustedProxy q in if ip = ''unknown'' then None else Some ip)"

text \<open>The warning is due once per process, while a forwarded header comes in untrusted.\<close>

definition maybeWarnProxyMisconfig :: "bool \<Rightarrow> bool \<Rightarrow> peer_request \<Rightarrow> bool" where
  "maybeWarnProxyMisconfig trustedProxy warned q =
    (if warned then True else if trustedProxy then False
     else list_ex (\<lambda>h. case rq_header q h of None \<Rightarrow> False | Some s \<Rightarrow> s \<noteq> [])
       [''x-forwarded-for'', ''x-real-ip'', ''forwarded''])"

section \<open>Who names the caller\<close>

lemma header_untrusted: "header_address False raw = None"
  by (simp add: header_address_def split: option.split)

lemma header_address_ok: "header_address t raw = Some s \<Longrightarrow> t \<and> s \<noteq> [] \<and> is_address s"
  by (auto simp: header_address_def split: option.splits if_splits)

lemma same_connection: "connection_ip (q \<lparr> rq_header := h \<rparr>) = connection_ip q"
  by (cases "normalizeIp (rq_bun_peer q)") (simp_all add: connection_ip_def)

text \<open>Without a trusted proxy no header of a request changes who it comes from; behind one,
the caller is an address that parses, the peer of the connection, or unknown: a header
that is no address is never the caller's name.  The audit trail records the same.\<close>

theorem caller_cannot_name_itself:
  "resolveClientIp False (q \<lparr> rq_header := h \<rparr>) = resolveClientIp False q
   \<and> resolveClientIp t q \<in> {ip. t \<and> is_address ip} \<union> set_option (connection_ip q) \<union> {''unknown''}
   \<and> set_option (clientIpForAudit t q) \<subseteq> {ip. t \<and> is_address ip} \<union> set_option (connection_ip q)"
proof -
  have r: "resolveClientIp t q \<in> {ip. t \<and> is_address ip} \<union> set_option (connection_ip q) \<union> {''unknown''}"
    by (auto simp: resolveClientIp_def Let_def or_if_empty_def split: option.splits if_splits dest: header_address_ok)
  have "resolveClientIp False (q \<lparr> rq_header := h \<rparr>) = resolveClientIp False q"
    by (simp add: resolveClientIp_def header_untrusted same_connection)
  then show ?thesis using r by (auto simp: clientIpForAudit_def Let_def)
qed

text \<open>
  The pattern for IPv6 asks for no colon: any two to thirty-nine hexadecimal digits
  pass for an address, each a caller of its own.
\<close>

lemma hex_word_is_an_address:
  "2 \<le> length s \<Longrightarrow> length s \<le> 39 \<Longrightarrow> list_all is_hex s \<Longrightarrow> is_address s"
  by (auto simp: is_address_def IPV6_RE_def list_all_iff)

end
