(* ===== verification/EventBus.thy ===== *)
theory EventBus
  imports Digits
begin

text \<open>
  \<open>emitAsync\<close> of \<open>lib/runtime/event-bus.ts\<close>: the listeners of an event run one after the
  other inside the caller's transaction, a SAVEPOINT around each, alone on the
  connection (\<open>exclusive\<close>, TrxSequencer).  And \<open>runBefore\<close>, the hooks before a write.
\<close>

section \<open>The transaction\<close>

text \<open>
  A transaction as SQL defines it: what it has written, its savepoints with what was
  written when each was set, the latest first, and whether a statement failed since.
\<close>

record 'w trx =
  tx_work :: "'w list"
  tx_saves :: "(string \<times> 'w list) list"
  tx_failed :: bool

datatype 'w sql_stmt = SWrite 'w | SFail | SSave string | SRelease string | SRollbackTo string

text \<open>The savepoints below the latest of a name, with what it holds.\<close>

fun find_save :: "string \<Rightarrow> (string \<times> 'w list) list \<Rightarrow> ('w list \<times> (string \<times> 'w list) list) option" where
  "find_save n [] = None"
| "find_save n ((m, w) # ss) = (if m = n then Some (w, ss) else find_save n ss)"

fun exec_stmt :: "'w sql_stmt \<Rightarrow> 'w trx \<Rightarrow> bool \<times> 'w trx" where
  "exec_stmt (SRollbackTo n) t =
    (case find_save n (tx_saves t) of
       None \<Rightarrow> (False, t\<lparr> tx_failed := True \<rparr>)
     | Some (w, ss) \<Rightarrow> (True, t\<lparr> tx_work := w, tx_saves := (n, w) # ss, tx_failed := False \<rparr>))"
| "exec_stmt (SWrite w) t =
    (if tx_failed t then (False, t) else (True, t\<lparr> tx_work := tx_work t @ [w] \<rparr>))"
| "exec_stmt SFail t = (False, t\<lparr> tx_failed := True \<rparr>)"
| "exec_stmt (SSave n) t =
    (if tx_failed t then (False, t) else (True, t\<lparr> tx_saves := (n, tx_work t) # tx_saves t \<rparr>))"
| "exec_stmt (SRelease n) t =
    (if tx_failed t then (False, t)
     else (case find_save n (tx_saves t) of
         None \<Rightarrow> (False, t\<lparr> tx_failed := True \<rparr>)
       | Some (w, ss) \<Rightarrow> (True, t\<lparr> tx_saves := ss \<rparr>)))"

section \<open>Listeners\<close>

text \<open>
  What a listener does: a statement that writes or fails, an event of its own awaited, a
  failure outside the database; each with whether the listener catches its error and
  goes on.
\<close>

datatype 'w action = DoWrite 'w | DoFail | DoThrow | DoEmit "('w action \<times> bool) list list"

type_synonym 'w listener = "('w action \<times> bool) list"

definition savepoint_name :: "nat \<Rightarrow> string" where
  "savepoint_name index = ''zv_evt_'' @ dec index"

text \<open>
  The actions of a listener: whether it threw, and the transaction.  \<open>emit_from\<close> is
  \<open>emitAsync\<close> from a listener's index on: whether it rejected, the errors logged, the
  transaction.
\<close>

fun run_action :: "'w action \<Rightarrow> 'w trx \<Rightarrow> bool \<times> 'w trx"
  and run_listener :: "'w listener \<Rightarrow> 'w trx \<Rightarrow> bool \<times> 'w trx"
  and emit_from :: "nat \<Rightarrow> 'w listener list \<Rightarrow> 'w trx \<Rightarrow> bool \<times> nat \<times> 'w trx"
where
  "run_action (DoWrite w) t = exec_stmt (SWrite w) t"
| "run_action DoFail t = exec_stmt SFail t"
| "run_action DoThrow t = (False, t)"
| "run_action (DoEmit ls) t = (case emit_from 0 ls t of (rejected, n, t') \<Rightarrow> (\<not> rejected, t'))"
| "run_listener [] t = (False, t)"
| "run_listener ((a, caught) # as) t =
    (case run_action a t of (fin, t') \<Rightarrow>
       if fin \<or> caught then run_listener as t' else (True, t'))"
| "emit_from index [] t = (False, 0, t)"
| "emit_from index (l # ls) t =
    (case exec_stmt (SSave (savepoint_name index)) t of
       (False, t1) \<Rightarrow> (True, 0, t1)
     | (True, t1) \<Rightarrow>
        (case run_listener l t1 of (threw, t2) \<Rightarrow>
          (case (if threw then (False, t2) else exec_stmt (SRelease (savepoint_name index)) t2) of
             (True, t3) \<Rightarrow> emit_from (Suc index) ls t3
           | (False, t3) \<Rightarrow>
              (case emit_from (Suc index) ls (snd (exec_stmt (SRollbackTo (savepoint_name index)) t3)) of
                 (rejected, n, t4) \<Rightarrow> (rejected, Suc n, t4)))))"

definition emitAsync :: "'w listener list \<Rightarrow> 'w trx \<Rightarrow> bool \<times> nat \<times> 'w trx" where
  "emitAsync ls t = (if ls = [] then (False, 0, t) else emit_from 0 ls t)"

section \<open>The caller's transaction\<close>

text \<open>
  \<open>u\<close> is \<open>t\<close> with more written and more savepoints, none of which reaches behind what
  \<open>t\<close> had written.
\<close>

definition extends :: "'w trx \<Rightarrow> 'w trx \<Rightarrow> bool" where
  "extends t u \<longleftrightarrow> (\<exists>ws ex. tx_work u = tx_work t @ ws \<and> tx_saves u = ex @ tx_saves t
     \<and> (\<forall>s \<in> set ex. \<exists>v. snd s = tx_work t @ v))"

lemma extends_refl [simp, intro]: "extends t t"
  by (simp add: extends_def)

lemma extends_trans [trans]: "extends t u \<Longrightarrow> extends u v \<Longrightarrow> extends t v"
  unfolding extends_def by (fastforce simp: ball_Un)

lemma extends_failed [simp]: "extends t (u\<lparr> tx_failed := b \<rparr>) = extends t u"
  by (simp add: extends_def)

lemma find_save_append:
  "find_save n (ex @ (n, w) # ss) = Some (v, rest) \<Longrightarrow>
   (\<exists>ex'. rest = ex' @ (n, w) # ss \<and> set ex' \<subseteq> set ex \<and> (n, v) \<in> set ex) \<or> (rest = ss \<and> v = w)"
proof (induction ex)
  case (Cons s ex)
  obtain m x where s: "s = (m, x)" by (cases s)
  show ?case
  proof (cases "m = n")
    case True
    then have "rest = ex @ (n, w) # ss" "v = x" using Cons.prems s by simp_all
    then show ?thesis using s True by (intro disjI1 exI [of _ ex]) auto
  next
    case False
    then have "find_save n (ex @ (n, w) # ss) = Some (v, rest)" using Cons.prems s by simp
    from Cons.IH [OF this] show ?thesis by auto
  qed
qed simp

lemma find_save_some: "\<exists>v rest. find_save n (ex @ (n, w) # ss) = Some (v, rest)"
  by (induction ex) auto

text \<open>A listener's savepoint, and whatever was set since, released or gone back to.\<close>

lemma after_savepoint:
  assumes t1: "t1 = t\<lparr> tx_saves := (n, tx_work t) # tx_saves t \<rparr>" and u: "extends t1 u"
  shows "exec_stmt (SRelease n) u = (True, v) \<Longrightarrow> extends t v \<and> \<not> tx_failed v"
    and "exec_stmt (SRelease n) u = (False, v) \<Longrightarrow> extends t1 v"
    and "exec_stmt (SRollbackTo n) u = (b, v) \<Longrightarrow> extends t v \<and> \<not> tx_failed v"
proof -
  obtain ws ex where w: "tx_work u = tx_work t @ ws" and s: "tx_saves u = ex @ (n, tx_work t) # tx_saves t"
    and ex: "\<forall>s \<in> set ex. \<exists>v. snd s = tx_work t @ v"
    using u by (auto simp: extends_def t1)
  obtain x rest where f: "find_save n (tx_saves u) = Some (x, rest)"
    using find_save_some [of n ex "tx_work t" "tx_saves t"] s by auto
  have x: "\<exists>v. x = tx_work t @ v" and rest: "\<exists>ex'. rest = ex' @ tx_saves t \<and> (\<forall>s \<in> set ex'. \<exists>v. snd s = tx_work t @ v)"
  proof -
    consider ex' where "rest = ex' @ (n, tx_work t) # tx_saves t" "set ex' \<subseteq> set ex" "(n, x) \<in> set ex"
      | "rest = tx_saves t" "x = tx_work t"
      using find_save_append [of n ex "tx_work t" "tx_saves t" x rest] f s by auto
    then have "(\<exists>v. x = tx_work t @ v) \<and> (\<exists>ex'. rest = ex' @ tx_saves t \<and> (\<forall>s \<in> set ex'. \<exists>v. snd s = tx_work t @ v))"
    proof cases
      case 1
      have "\<exists>v. x = tx_work t @ v" using ex 1(3) by (metis snd_conv)
      moreover have "\<forall>s \<in> set (ex' @ [(n, tx_work t)]). \<exists>v. snd s = tx_work t @ v" using ex 1(2) by auto
      ultimately show ?thesis using 1(1) by (metis append_Cons append_Nil append_assoc)
    next
      case 2
      then show ?thesis by (intro conjI exI [of _ "[]"]) simp_all
    qed
    then show "\<exists>v. x = tx_work t @ v" "\<exists>ex'. rest = ex' @ tx_saves t \<and> (\<forall>s \<in> set ex'. \<exists>v. snd s = tx_work t @ v)"
      by blast+
  qed
  show "extends t v \<and> \<not> tx_failed v" if "exec_stmt (SRelease n) u = (True, v)"
    using that w rest f by (auto simp: extends_def split: if_splits)
  show "extends t1 v" if "exec_stmt (SRelease n) u = (False, v)"
    using that u f by (auto split: if_splits)
  show "extends t v \<and> \<not> tx_failed v" if "exec_stmt (SRollbackTo n) u = (b, v)"
  proof -
    have v: "v = u\<lparr> tx_work := x, tx_saves := (n, x) # rest, tx_failed := False \<rparr>" using that f by simp
    obtain xs ex' where "x = tx_work t @ xs" "rest = ex' @ tx_saves t" "\<forall>s \<in> set ex'. \<exists>v. snd s = tx_work t @ v"
      using x rest by blast
    then have "extends t v"
      unfolding extends_def v by (intro exI [of _ xs] exI [of _ "(n, x) # ex'"]) auto
    then show ?thesis by (simp add: v)
  qed
qed

lemma emit_extends:
  "run_action a t = (ok, u) \<Longrightarrow> extends t u"
  "run_listener l t = (threw, u) \<Longrightarrow> extends t u"
  "emit_from i ls t = (rejected, k, u) \<Longrightarrow> extends t u \<and> (\<not> tx_failed t \<longrightarrow> \<not> rejected \<and> \<not> tx_failed u)"
proof (induction a t and l t and i ls t arbitrary: ok u and threw u and rejected k u
    rule: run_action_run_listener_emit_from.induct)
  case (1 w t)
  then show ?case by (auto simp: extends_def split: if_splits)
next
  case (2 t)
  then show ?case by auto
next
  case (4 ls t)
  then show ?case by (auto split: prod.splits)
next
  case (6 a caught as t)
  obtain fin v where v: "run_action a t = (fin, v)" by (cases "run_action a t")
  have e: "extends t v" by (rule 6(1) [OF v])
  show ?case
  proof (cases "fin \<or> caught")
    case True
    then have "run_listener as v = (threw, u)" using 6(3) v by simp
    then have "extends v u" by (rule 6(2) [OF v [symmetric] True])
    then show ?thesis by (rule extends_trans [OF e])
  next
    case False
    then show ?thesis using 6(3) v e by simp
  qed
next
  case (8 i l ls t)
  show ?case
  proof (cases "tx_failed t")
    case True
    then show ?thesis using 8(4) by simp
  next
    case False
    let ?n = "savepoint_name i"
    let ?t1 = "t\<lparr> tx_saves := (?n, tx_work t) # tx_saves t \<rparr>"
    have s: "(True, ?t1) = exec_stmt (SSave ?n) t" using False by simp
    obtain threw t2 where l: "run_listener l ?t1 = (threw, t2)" by (cases "run_listener l ?t1")
    have e2: "extends ?t1 t2" by (rule 8(1) [OF s refl l])
    obtain rel t3 where r: "(if threw then (False, t2) else exec_stmt (SRelease ?n) t2) = (rel, t3)"
      by (cases "if threw then (False, t2) else exec_stmt (SRelease ?n) t2")
    have step: "emit_from i (l # ls) t = (if rel then emit_from (Suc i) ls t3
        else case emit_from (Suc i) ls (snd (exec_stmt (SRollbackTo ?n) t3)) of (rejected, n, t4) \<Rightarrow> (rejected, Suc n, t4))"
      unfolding emit_from.simps(2) s [symmetric] prod.case bool.case l r by (cases rel) simp_all
    show ?thesis
    proof (cases rel)
      case True
      then have "exec_stmt (SRelease ?n) t2 = (True, t3)" using r by (cases threw) (simp_all del: exec_stmt.simps)
      then have t3: "extends t t3 \<and> \<not> tx_failed t3" by (rule after_savepoint(1) [OF refl e2])
      have "emit_from (Suc i) ls t3 = (rejected, k, u)"
        using 8(4) step True by simp
      moreover have "rel = True" using True by simp
      ultimately have "extends t3 u \<and> (\<not> tx_failed t3 \<longrightarrow> \<not> rejected \<and> \<not> tx_failed u)"
        using 8(2) [OF s refl l [symmetric] r [symmetric]] by blast
      then show ?thesis
        using t3 extends_trans by blast
    next
      case False
      have e3: "extends ?t1 t3"
      proof (cases threw)
        case True then show ?thesis using r e2 by simp
      next
        case no: False
        then have "exec_stmt (SRelease ?n) t2 = (False, t3)" using r False by (simp del: exec_stmt.simps)
        then show ?thesis by (rule after_savepoint(2) [OF refl e2])
      qed
      obtain b t4 where b: "exec_stmt (SRollbackTo ?n) t3 = (b, t4)" by (cases "exec_stmt (SRollbackTo ?n) t3")
      have t4: "extends t t4 \<and> \<not> tx_failed t4" by (rule after_savepoint(3) [OF refl e3 b])
      obtain k' where "emit_from (Suc i) ls t4 = (rejected, k', u)"
        using 8(4) step False b by (auto split: prod.splits)
      then have "extends t4 u \<and> (\<not> tx_failed t4 \<longrightarrow> \<not> rejected \<and> \<not> tx_failed u)"
        using 8(3) [OF s refl l [symmetric] r [symmetric]] False b by simp
      then show ?thesis using t4 extends_trans by blast
    qed
  qed
qed auto



section \<open>All or nothing\<close>

text \<open>
  A listener with no event of its own, in isolation: whether it threw, what it wrote,
  whether it leaves a failed statement behind; and the writes of the listeners kept.
\<close>

fun leaves :: "'w listener \<Rightarrow> bool \<Rightarrow> bool \<times> 'w list \<times> bool" where
  "leaves [] failed = (False, [], failed)"
| "leaves ((DoWrite w, caught) # as) failed =
    (if failed then (if caught then leaves as True else (True, [], True))
     else (case leaves as False of (threw, ws, f) \<Rightarrow> (threw, w # ws, f)))"
| "leaves ((DoFail, caught) # as) failed = (if caught then leaves as True else (True, [], True))"
| "leaves ((DoThrow, caught) # as) failed = (if caught then leaves as failed else (True, [], failed))"
| "leaves ((DoEmit ls, caught) # as) failed = leaves as failed"

definition keeps :: "'w listener \<Rightarrow> 'w list" where
  "keeps l = (case leaves l False of (threw, ws, failed) \<Rightarrow> if threw \<or> failed then [] else ws)"

definition discards :: "'w listener \<Rightarrow> bool" where
  "discards l \<longleftrightarrow> (case leaves l False of (threw, ws, failed) \<Rightarrow> threw \<or> failed)"

fun emits :: "'w action \<Rightarrow> bool" where
  "emits (DoEmit ls) = True"
| "emits _ = False"

definition alone :: "'w listener \<Rightarrow> bool" where
  "alone l \<longleftrightarrow> list_all (\<lambda>(a, caught). \<not> emits a) l"

lemma run_alone:
  "alone l \<Longrightarrow> run_listener l t =
    (case leaves l (tx_failed t) of (threw, ws, failed) \<Rightarrow>
      (threw, t\<lparr> tx_work := tx_work t @ ws, tx_failed := failed \<rparr>))"
proof (induction l "tx_failed t" arbitrary: t rule: leaves.induct)
  case (2 w caught as)
  then show ?case by (cases "tx_failed t"; cases caught) (auto simp: alone_def split: prod.splits)
next
  case (3 caught as)
  then show ?case by (cases caught) (auto simp: alone_def split: prod.splits)
next
  case (4 caught as)
  then show ?case by (cases caught) (auto simp: alone_def split: prod.splits)
qed (auto simp: alone_def)

lemma emit_alone:
  assumes "list_all alone ls" "\<not> tx_failed t"
  shows "\<exists>ex. emit_from i ls t = (False, length (filter discards ls),
    t\<lparr> tx_work := tx_work t @ concat (map keeps ls), tx_saves := ex @ tx_saves t \<rparr>)"
  using assms
proof (induction ls arbitrary: i t)
  case Nil then show ?case by (intro exI [of _ "[]"]) simp
next
  case (Cons l ls)
  let ?n = "savepoint_name i"
  let ?t1 = "t\<lparr> tx_saves := (?n, tx_work t) # tx_saves t \<rparr>"
  obtain threw ws failed where l: "leaves l False = (threw, ws, failed)" by (cases "leaves l False")
  then have dk: "discards l \<longleftrightarrow> threw \<or> failed" "keeps l = (if threw \<or> failed then [] else ws)"
    by (simp_all add: discards_def keeps_def)
  have run: "run_listener l ?t1 = (threw, ?t1\<lparr> tx_work := tx_work t @ ws, tx_failed := failed \<rparr>)"
    using run_alone [of l ?t1] Cons.prems l by simp
  show ?case
  proof (cases "threw \<or> failed")
    case False
    let ?t3 = "t\<lparr> tx_work := tx_work t @ ws \<rparr>"
    obtain ex where "emit_from (Suc i) ls ?t3 = (False, length (filter discards ls),
        ?t3\<lparr> tx_work := tx_work ?t3 @ concat (map keeps ls), tx_saves := ex @ tx_saves ?t3 \<rparr>)"
      using Cons.IH [of ?t3 "Suc i"] Cons.prems by auto
    moreover have "emit_from i (l # ls) t = emit_from (Suc i) ls ?t3"
    proof -
      have "emit_from i (l # ls) t = emit_from (Suc i) ls (t\<lparr> tx_work := tx_work t @ ws, tx_failed := False \<rparr>)"
        using Cons.prems run False by simp
      also have "t\<lparr> tx_work := tx_work t @ ws, tx_failed := False \<rparr> = ?t3"
        using Cons.prems(2) by (cases t) simp
      finally show ?thesis .
    qed
    ultimately show ?thesis using dk False by (auto simp del: emit_from.simps)
  next
    case True
    let ?t4 = "t\<lparr> tx_saves := (?n, tx_work t) # tx_saves t \<rparr>"
    obtain ex where "emit_from (Suc i) ls ?t4 = (False, length (filter discards ls),
        ?t4\<lparr> tx_work := tx_work ?t4 @ concat (map keeps ls), tx_saves := ex @ tx_saves ?t4 \<rparr>)"
      using Cons.IH [of ?t4 "Suc i"] Cons.prems by auto
    moreover have "emit_from i (l # ls) t =
        (case emit_from (Suc i) ls ?t4 of (rejected, n, u) \<Rightarrow> (rejected, Suc n, u))"
    proof -
      have "emit_from i (l # ls) t =
          (case emit_from (Suc i) ls (?t4\<lparr> tx_failed := False \<rparr>) of (rejected, n, u) \<Rightarrow> (rejected, Suc n, u))"
        using Cons.prems run True by (cases threw) simp_all
      also have "?t4\<lparr> tx_failed := False \<rparr> = ?t4" using Cons.prems(2) by (cases t) simp
      finally show ?thesis .
    qed
    ultimately show ?thesis using dk True
      by (auto simp del: emit_from.simps intro!: exI [of _ "ex @ [(?n, tx_work t)]"])
  qed
qed

text \<open>Listeners that await no event of their own are all or nothing: after the event the
transaction holds what the caller had written and, in order, the writes of exactly the
listeners that neither threw nor left a failed statement, caught or not; each other one
is logged once.\<close>

theorem listeners_are_all_or_nothing:
  assumes "list_all alone ls" "\<not> tx_failed t" "emitAsync ls t = (rejected, logged, u)"
  shows "tx_work u = tx_work t @ concat (map keeps ls) \<and> logged = length (filter discards ls)"
  using emit_alone [OF assms(1,2), of 0] assms(3) by (cases "ls = []") (auto simp: emitAsync_def)

theorem listeners_are_all_or_nothing_witness:
  "tx_work (snd (snd (emitAsync [[(DoWrite (1 :: nat), False), (DoFail, True)], [(DoWrite 2, False)]]
      \<lparr> tx_work = [0], tx_saves = [], tx_failed = False \<rparr>))) = [0, 2]"
proof -
  let ?t = "\<lparr> tx_work = [0 :: nat], tx_saves = [], tx_failed = False \<rparr>"
  let ?ls = "[[(DoWrite (1 :: nat), False), (DoFail, True)], [(DoWrite 2, False)]]"
  obtain r n u where e: "emitAsync ?ls ?t = (r, n, u)" by (cases "emitAsync ?ls ?t")
  have "list_all alone ?ls" "\<not> tx_failed ?t" by (simp_all add: alone_def)
  from listeners_are_all_or_nothing [OF this e] e show ?thesis by (simp add: keeps_def)
qed

text \<open>A savepoint gone back to stays set, and an event awaited inside a listener uses the same
names: when its listener fails and then the outer one does, going back stops at the
inner savepoint, and what the failed outer listener wrote before is kept.\<close>

theorem nested_event_keeps_partial_work:
  "emitAsync [[(DoWrite (1 :: nat), False), (DoEmit [[(DoFail, False)]], False), (DoThrow, False)]]
     \<lparr> tx_work = [0], tx_saves = [], tx_failed = False \<rparr>
   = (False, 1, \<lparr> tx_work = [0, 1], tx_saves = [(savepoint_name 0, [0, 1]), (savepoint_name 0, [0])], tx_failed = False \<rparr>)"
  by (simp add: emitAsync_def)

section \<open>Hooks before a write\<close>

text \<open>
  A hook is what it does with the payload's fields: merges, or an abort with a reason.
  \<open>beforeDelete\<close> has no fields to merge into.
\<close>

datatype 'v hook_step = Mutate "(string \<times> 'v) list" | Abort string | HookThrow

type_synonym 'v hook = "(string \<rightharpoonup> 'v) \<Rightarrow> 'v hook_step list"

datatype hook_error = AbortHookError string | HookFailed

fun run_steps :: "bool \<Rightarrow> 'v hook_step list \<Rightarrow> (string \<rightharpoonup> 'v) \<Rightarrow> (hook_error, string \<rightharpoonup> 'v) result" where
  "run_steps mutable [] data = Ok data"
| "run_steps mutable (Mutate patch # ss) data =
    (if mutable then run_steps mutable ss (data ++ map_of (rev patch)) else Throw HookFailed)"
| "run_steps mutable (Abort reason # ss) data = Throw (AbortHookError reason)"
| "run_steps mutable (HookThrow # ss) data = Throw HookFailed"

fun runBefore :: "bool \<Rightarrow> 'v hook list \<Rightarrow> (string \<rightharpoonup> 'v) \<Rightarrow> (hook_error, string \<rightharpoonup> 'v) result" where
  "runBefore mutable [] data = Ok data"
| "runBefore mutable (h # hs) data =
    (case run_steps mutable (h data) data of
       Inl e \<Rightarrow> Throw e
     | Inr data' \<Rightarrow> runBefore mutable hs data')"

lemma runBefore_append:
  "runBefore m (as @ bs) data =
    (case runBefore m as data of Inl e \<Rightarrow> Throw e | Inr d \<Rightarrow> runBefore m bs d)"
  by (induction as arbitrary: data) (auto split: sum.splits)

end
