(* ===== verification/Json.thy ===== *)
theory Json
  imports Prelude Digits
begin

text \<open>
  Values as \<open>JSON.parse\<close> returns them.  A number is of the type \<open>'n\<close>, which the components
  that compute with numbers choose; the members of an object come in the order
  \<open>Object.entries\<close> lists them.  \<open>JSON.parse\<close> itself is an argument of the definitions
  that read a text, \<open>None\<close> when it throws.
\<close>

datatype 'n json =
    JNull
  | JBool bool
  | JNum 'n
  | JStr string
  | JArr "'n json list"
  | JObj "(string \<times> 'n json) list"

text \<open>\<open>Object.entries\<close> of a value that is not null.\<close>

fun js_entries :: "'n json \<Rightarrow> (string \<times> 'n json) list" where
  "js_entries (JObj ms) = ms"
| "js_entries (JArr vs) = zip (map dec [0..<length vs]) vs"
| "js_entries (JStr s) = zip (map dec [0..<length s]) (map (\<lambda>c. JStr [c]) s)"
| "js_entries _ = []"

text \<open>A member of an object, \<open>None\<close> for \<open>undefined\<close>.\<close>

fun js_member :: "string \<Rightarrow> 'n json \<Rightarrow> 'n json option" where
  "js_member k (JObj ms) = map_of ms k"
| "js_member k _ = None"

end
