(* ===== verification/SocketBan.thy ===== *)
theory SocketBan
  imports Json "HOL-Library.Word"
begin

text \<open>
  \<open>lib/socket-ban.ts\<close>: the seccomp filter a runner's processes start under, as the
  bytes the engine writes, and the check made before a runner serves anything.  The
  filter is read back as the kernel reads it, an array of \<open>struct sock_filter\<close>, and run
  as classic BPF over one system call.
\<close>

unbundle bit_operations_syntax

section \<open>The filter\<close>

record sock_filter =
  sf_code :: "16 word"
  sf_jt :: "8 word"
  sf_jf :: "8 word"
  sf_k :: "32 word"

datatype runner_arch = X64 | Arm64

fun AUDIT_ARCH :: "runner_arch \<Rightarrow> 32 word" where
  "AUDIT_ARCH X64 = 0xc000003e"
| "AUDIT_ARCH Arm64 = 0xc00000b7"

fun DENIED_NR :: "runner_arch \<Rightarrow> 32 word list" where
  "DENIED_NR X64 = [41, 425, 426, 427]"
| "DENIED_NR Arm64 = [198, 425, 426, 427]"

fun SOCKETPAIR_NR :: "runner_arch \<Rightarrow> 32 word" where
  "SOCKETPAIR_NR X64 = 53"
| "SOCKETPAIR_NR Arm64 = 199"

definition X32_SYSCALL_BIT :: "32 word" where "X32_SYSCALL_BIT = 0x40000000"

definition RET_KILL_PROCESS :: "32 word" where "RET_KILL_PROCESS = 0x80000000"

definition RET_EACCES :: "32 word" where "RET_EACCES = 0x00050000 OR 13"

definition RET_ALLOW :: "32 word" where "RET_ALLOW = 0x7fff0000"

abbreviation LD_W_ABS :: "16 word" where "LD_W_ABS \<equiv> 0x20"
abbreviation JEQ_K :: "16 word" where "JEQ_K \<equiv> 0x15"
abbreviation JGE_K :: "16 word" where "JGE_K \<equiv> 0x35"
abbreviation AND_K :: "16 word" where "AND_K \<equiv> 0x54"
abbreviation RET_K :: "16 word" where "RET_K \<equiv> 0x06"

definition ins :: "16 word \<Rightarrow> 8 word \<Rightarrow> 8 word \<Rightarrow> 32 word \<Rightarrow> sock_filter" where
  "ins opc jt jf k = \<lparr> sf_code = opc, sf_jt = jt, sf_jf = jf, sf_k = k \<rparr>"

text \<open>The table: the offsets are those of \<open>struct seccomp_data\<close>.\<close>

definition ban_program :: "runner_arch \<Rightarrow> sock_filter list" where
  "ban_program arch =
    (let deny = ins RET_K 0 0 RET_EACCES in
      [ins LD_W_ABS 0 0 4,
       ins JEQ_K 1 0 (AUDIT_ARCH arch),
       ins RET_K 0 0 RET_KILL_PROCESS,
       ins LD_W_ABS 0 0 0]
      @ (if arch = X64 then [ins JGE_K 0 1 X32_SYSCALL_BIT, deny] else [])
      @ concat (map (\<lambda>nr. [ins JEQ_K 0 1 nr, deny]) (DENIED_NR arch))
      @ [ins JEQ_K 0 7 (SOCKETPAIR_NR arch),
         ins LD_W_ABS 0 0 16,
         ins JEQ_K 0 4 1,
         ins LD_W_ABS 0 0 24,
         ins AND_K 0 0 0xf,
         ins JEQ_K 0 1 1,
         ins RET_K 0 0 RET_ALLOW,
         deny]
      @ [ins RET_K 0 0 RET_ALLOW])"

text \<open>\<open>setUint8\<close>, \<open>setUint16\<close> and \<open>setUint32\<close>, the least significant byte first.\<close>

definition le16 :: "16 word \<Rightarrow> 8 word list" where
  "le16 w = [ucast w, ucast (drop_bit 8 w)]"

definition le32 :: "32 word \<Rightarrow> 8 word list" where
  "le32 w = [ucast w, ucast (drop_bit 8 w), ucast (drop_bit 16 w), ucast (drop_bit 24 w)]"

definition ins_bytes :: "sock_filter \<Rightarrow> 8 word list" where
  "ins_bytes i = le16 (sf_code i) @ [sf_jt i, sf_jf i] @ le32 (sf_k i)"

definition socketBanFilter :: "string \<Rightarrow> (string, 8 word list) result" where
  "socketBanFilter arch =
    (if arch = ''x64'' then Ok (concat (map ins_bytes (ban_program X64)))
     else if arch = ''arm64'' then Ok (concat (map ins_bytes (ban_program Arm64)))
     else Throw arch)"

section \<open>Classic BPF\<close>

text \<open>One system call as a filter sees it, and a 32-bit word of it.\<close>

record seccomp_data =
  sd_nr :: "32 word"
  sd_arch :: "32 word"
  sd_ip :: "64 word"
  sd_args :: "nat \<Rightarrow> 64 word"

definition sd_word :: "seccomp_data \<Rightarrow> 32 word \<Rightarrow> 32 word option" where
  "sd_word d off =
    (let n = unat off in
     if n = 0 then Some (sd_nr d)
     else if n = 4 then Some (sd_arch d)
     else if n = 8 then Some (ucast (sd_ip d))
     else if n = 12 then Some (ucast (drop_bit 32 (sd_ip d)))
     else if 16 \<le> n \<and> n < 64 \<and> n mod 4 = 0 then
       Some (if n mod 8 = 0 then ucast (sd_args d ((n - 16) div 8))
             else ucast (drop_bit 32 (sd_args d ((n - 16) div 8))))
     else None)"

text \<open>
  A jump goes forward from the next instruction.  \<open>None\<close>: an instruction the machine does
  not have, a load outside the data, or a run off the end.
\<close>

function bpf :: "seccomp_data \<Rightarrow> sock_filter list \<Rightarrow> 32 word \<Rightarrow> 32 word option" where
  "bpf d [] a = None"
| "bpf d (i # is) a =
    (if sf_code i = LD_W_ABS then
       (case sd_word d (sf_k i) of None \<Rightarrow> None | Some w \<Rightarrow> bpf d is w)
     else if sf_code i = AND_K then bpf d is (a AND sf_k i)
     else if sf_code i = JEQ_K then bpf d (drop (unat (if a = sf_k i then sf_jt i else sf_jf i)) is) a
     else if sf_code i = JGE_K then bpf d (drop (unat (if sf_k i \<le> a then sf_jt i else sf_jf i)) is) a
     else if sf_code i = RET_K then Some (sf_k i)
     else None)"
  by pat_completeness auto
termination by (relation "measure (\<lambda>(d, is, a). length is)") auto

text \<open>What the kernel asks of a program: no jump past its end, and a last instruction that returns.\<close>

fun bpf_loads :: "sock_filter list \<Rightarrow> bool" where
  "bpf_loads [] = False"
| "bpf_loads [i] = (sf_code i = RET_K)"
| "bpf_loads (i # is) =
    (sf_code i \<in> {LD_W_ABS, AND_K, JEQ_K, JGE_K, RET_K}
     \<and> (sf_code i \<in> {JEQ_K, JGE_K} \<longrightarrow> unat (sf_jt i) < length is \<and> unat (sf_jf i) < length is)
     \<and> (sf_code i = LD_W_ABS \<longrightarrow> unat (sf_k i) < 64 \<and> unat (sf_k i) mod 4 = 0)
     \<and> bpf_loads is)"

text \<open>The array the bytes are.\<close>

definition from_le16 :: "8 word \<Rightarrow> 8 word \<Rightarrow> 16 word" where
  "from_le16 a b = ucast a OR push_bit 8 (ucast b)"

definition from_le32 :: "8 word \<Rightarrow> 8 word \<Rightarrow> 8 word \<Rightarrow> 8 word \<Rightarrow> 32 word" where
  "from_le32 a b c d =
    ucast a OR push_bit 8 (ucast b) OR push_bit 16 (ucast c) OR push_bit 24 (ucast d)"

fun read_program :: "8 word list \<Rightarrow> sock_filter list option" where
  "read_program [] = Some []"
| "read_program (c0 # c1 # jt # jf # k0 # k1 # k2 # k3 # bs) =
    map_option (\<lambda>is. ins (from_le16 c0 c1) jt jf (from_le32 k0 k1 k2 k3) # is) (read_program bs)"
| "read_program bs = None"

lemma from_le16 [simp]: "from_le16 (ucast w) (ucast (drop_bit 8 w)) = w"
  by (rule bit_word_eqI) (auto simp: from_le16_def bit_simps)

lemma from_le32 [simp]:
  "from_le32 (ucast w) (ucast (drop_bit 8 w)) (ucast (drop_bit 16 w)) (ucast (drop_bit 24 w)) = w"
  apply (rule bit_word_eqI)
  apply (auto simp: from_le32_def bit_simps)
  subgoal for n by (cases "n < 24") auto
  done

lemma read_ins: "read_program (ins_bytes i @ bs) = map_option (Cons i) (read_program bs)"
  by (cases i) (simp add: ins_bytes_def le16_def le32_def ins_def)

lemma read_written: "read_program (concat (map ins_bytes is)) = Some is"
  by (induction "is") (simp_all add: read_ins)


section \<open>What the filter decides\<close>

lemma ins_sel [simp]:
  "sf_code (ins c t f k) = c" "sf_jt (ins c t f k) = t" "sf_jf (ins c t f k) = f" "sf_k (ins c t f k) = k"
  by (simp_all add: ins_def)

lemma sd_word_at:
  "sd_word d 0 = Some (sd_nr d)" "sd_word d 4 = Some (sd_arch d)"
  "sd_word d 16 = Some (ucast (sd_args d 0))" "sd_word d 24 = Some (ucast (sd_args d 1))"
  by (simp_all add: sd_word_def)

text \<open>A connected stream pair of \<open>AF_UNIX\<close>, whatever flags its type carries.\<close>

definition stream_pair :: "seccomp_data \<Rightarrow> bool" where
  "stream_pair d \<longleftrightarrow> (ucast (sd_args d 0) :: 32 word) = 1 \<and> (ucast (sd_args d 1) AND 0xf :: 32 word) = 1"

lemma ban_loads: "bpf_loads (ban_program arch)"
  by (cases arch) (simp_all add: ban_program_def Let_def)

lemma ban_decides:
  "bpf d (ban_program arch) a = Some
    (if sd_arch d \<noteq> AUDIT_ARCH arch then RET_KILL_PROCESS
     else if arch = X64 \<and> X32_SYSCALL_BIT \<le> sd_nr d then RET_EACCES
     else if sd_nr d \<in> set (DENIED_NR arch) then RET_EACCES
     else if sd_nr d = SOCKETPAIR_NR arch \<and> \<not> stream_pair d then RET_EACCES
     else RET_ALLOW)"
  by (cases arch) (simp_all add: ban_program_def Let_def sd_word_at stream_pair_def)


text \<open>C23. The bytes written for an architecture read back, as the kernel reads them, to a program
it loads, and that program decides every system call: another architecture kills the
process; \<open>socket\<close>, the calls of \<open>io_uring\<close>, the whole x32 range and every \<open>socketpair\<close> but
a connected stream pair fail; everything else is allowed.  No call runs off the program.\<close>

theorem ban_filter_decides:
  assumes "socketBanFilter name = Ok bytes"
  shows "\<exists>arch prog. name = (case arch of X64 \<Rightarrow> ''x64'' | Arm64 \<Rightarrow> ''arm64'')
    \<and> read_program bytes = Some prog \<and> bpf_loads prog
    \<and> (\<forall>d. bpf d prog 0 = Some
        (if sd_arch d \<noteq> AUDIT_ARCH arch then RET_KILL_PROCESS
         else if arch = X64 \<and> X32_SYSCALL_BIT \<le> sd_nr d then RET_EACCES
         else if sd_nr d \<in> set (DENIED_NR arch) then RET_EACCES
         else if sd_nr d = SOCKETPAIR_NR arch \<and> \<not> stream_pair d then RET_EACCES
         else RET_ALLOW))"
proof -
  obtain arch where "name = (case arch of X64 \<Rightarrow> ''x64'' | Arm64 \<Rightarrow> ''arm64'')"
    and "bytes = concat (map ins_bytes (ban_program arch))"
    using assms by (auto simp: socketBanFilter_def split: if_splits intro: that [of X64] that [of Arm64])
  then show ?thesis
    by (intro exI [of _ arch] exI [of _ "ban_program arch"]) (simp add: read_written ban_loads ban_decides)
qed

text \<open>\<open>io_uring_setup\<close>, and a stream pair with \<open>SOCK_CLOEXEC\<close>, on x86-64.\<close>

definition demo_call :: "32 word \<Rightarrow> 64 word \<Rightarrow> 64 word \<Rightarrow> seccomp_data" where
  "demo_call nr a0 a1 =
    \<lparr> sd_nr = nr, sd_arch = 0xc000003e, sd_ip = 0, sd_args = (\<lambda>i. if i = 0 then a0 else if i = 1 then a1 else 0) \<rparr>"

theorem ban_filter_decides_witness:
  "\<exists>bytes prog. socketBanFilter ''x64'' = Ok bytes \<and> read_program bytes = Some prog
    \<and> bpf (demo_call 425 1 0) prog 0 = Some RET_EACCES \<and> bpf (demo_call 53 1 0x80001) prog 0 = Some RET_ALLOW
    \<and> bpf (demo_call 53 1 2) prog 0 = Some RET_EACCES"
proof -
  obtain bytes where b: "socketBanFilter ''x64'' = Ok bytes" by (simp add: socketBanFilter_def)
  obtain arch prog where n: "''x64'' = (case arch of X64 \<Rightarrow> ''x64'' | Arm64 \<Rightarrow> ''arm64'')"
    and p: "read_program bytes = Some prog"
    and d: "\<forall>d. bpf d prog 0 = Some
        (if sd_arch d \<noteq> AUDIT_ARCH arch then RET_KILL_PROCESS
         else if arch = X64 \<and> X32_SYSCALL_BIT \<le> sd_nr d then RET_EACCES
         else if sd_nr d \<in> set (DENIED_NR arch) then RET_EACCES
         else if sd_nr d = SOCKETPAIR_NR arch \<and> \<not> stream_pair d then RET_EACCES
         else RET_ALLOW)"
    using ban_filter_decides [OF b] by blast
  from n have "arch = X64" by (cases arch) simp_all
  with d have "bpf (demo_call 425 1 0) prog 0 = Some RET_EACCES"
    "bpf (demo_call 53 1 0x80001) prog 0 = Some RET_ALLOW" "bpf (demo_call 53 1 2) prog 0 = Some RET_EACCES"
    by (simp_all add: demo_call_def X32_SYSCALL_BIT_def stream_pair_def)
  with b p show ?thesis by blast
qed

section \<open>The check before a runner serves\<close>

text \<open>What the probe left: its exit code, what it printed and what it complained of.\<close>

record probe_run =
  pr_exit :: "nat option"
  pr_stdout :: string
  pr_stderr :: string

datatype ban_check = Serves | Refuses string | CheckThrew

definition last_line :: "string \<Rightarrow> string" where
  "last_line out = last (js_split (CHR 0x0A) (js_trim out))"

fun truthy_json :: "string json \<Rightarrow> bool" where
  "truthy_json JNull = False"
| "truthy_json (JBool b) = b"
| "truthy_json (JNum n) = (n \<noteq> ''0'' \<and> n \<noteq> ''-0'')"
| "truthy_json (JStr s) = (s \<noteq> [])"
| "truthy_json _ = True"

text \<open>\<open>v.startsWith('errno ')\<close>, which throws on a value that is no string.\<close>

fun opened_of :: "(string \<times> string json) list \<Rightarrow> (string \<times> string) list option" where
  "opened_of [] = Some []"
| "opened_of ((family, JStr v) # ms) =
    map_option (\<lambda>os. if take 6 v = ''errno '' then os else (family, v) # os) (opened_of ms)"
| "opened_of (m # ms) = None"

definition exit_text :: "nat option \<Rightarrow> string" where
  "exit_text e = (case e of None \<Rightarrow> ''null'' | Some n \<Rightarrow> dec n)"

definition checkSocketBan :: "(string \<Rightarrow> string json option) \<Rightarrow> probe_run \<Rightarrow> ban_check" where
  "checkSocketBan json_parse r =
    (case (case json_parse (last_line (pr_stdout r)) of
             None \<Rightarrow> None | Some v \<Rightarrow> if truthy_json v then Some (js_entries v) else None) of
       None \<Rightarrow> Refuses (let e = js_trim (pr_stderr r) in if e \<noteq> [] then e else ''exit '' @ exit_text (pr_exit r))
     | Some got \<Rightarrow>
        (case opened_of got of
           None \<Rightarrow> CheckThrew
         | Some opened \<Rightarrow>
            if pr_exit r = Some 0 \<and> length got = 4 \<and> opened = [] then Serves
            else Refuses (js_join '', '' (map (\<lambda>(family, v). family @ '': '' @ v) opened))))"


text \<open>A runner serves only when all four probes of a clean exit failed to open anything.\<close>

lemma opened_none: "opened_of ms = Some [] \<longleftrightarrow> list_all (\<lambda>(k, v). \<exists>t. v = JStr t \<and> take 6 t = ''errno '') ms"
  by (induction ms rule: opened_of.induct) (auto split: if_splits option.splits)

lemma serves_when_banned:
  "checkSocketBan json_parse r = Serves \<longleftrightarrow> pr_exit r = Some 0
    \<and> (\<exists>v. json_parse (last_line (pr_stdout r)) = Some v \<and> truthy_json v \<and> length (js_entries v) = 4
      \<and> list_all (\<lambda>(k, w). \<exists>t. w = JStr t \<and> take 6 t = ''errno '') (js_entries v))"
  by (auto simp: checkSocketBan_def opened_none [symmetric] split: option.splits if_splits)

end
