(* ===== verification/SafeFetch.thy ===== *)
theory SafeFetch
  imports UrlValidator
begin

text \<open>
  \<open>lib/edge-functions/safe-fetch.ts\<close>: fetch behind the SSRF guard.  Each hop is checked,
  pinned to an address the check approved, and its redirect followed by hand.

  The URL class, the resolver, \<open>isIP\<close> and fetch itself are arguments; the resolver and
  fetch may answer each hop differently.  The requests made are recorded in order.
\<close>

section \<open>Requests\<close>

record url = parsed_url +
  port :: string
  host :: string
  origin :: string

datatype redirect_mode = Follow | Manual | ErrorMode

type_synonym headers = "(string \<times> string) list"

text \<open>A \<open>RequestInit\<close>; a field that is not given is \<open>None\<close>, \<open>ri_proxy\<close> whether one is named.\<close>

record request_init =
  ri_method :: "string option"
  ri_headers :: headers
  ri_body :: "string option"
  ri_redirect :: "redirect_mode option"
  ri_serverName :: "string option"
  ri_proxy :: bool

record response =
  rs_status :: nat
  rs_location :: "string option"
  rs_chunks :: "string list"

text \<open>
  What the module is given: the URL parser; \<open>new URL(location, base)\<close> as text; a URL with
  its hostname set, as text; \<open>isIP\<close>; whether the environment names a proxy; the resolver
  and fetch, by hop.
\<close>

record web =
  wb_parse :: "string \<Rightarrow> url option"
  wb_resolve :: "string \<Rightarrow> string \<Rightarrow> string option"
  wb_at :: "string \<Rightarrow> string \<Rightarrow> string"
  wb_isIP :: "string \<Rightarrow> bool"
  wb_proxy :: bool
  wb_lookup :: "nat \<Rightarrow> resolver"
  wb_fetch :: "nat \<Rightarrow> string \<Rightarrow> request_init \<Rightarrow> response option"

definition as_parser :: "web \<Rightarrow> url_parser" where
  "as_parser w = (\<lambda>s. map_option parsed_url.truncate (wb_parse w s))"

text \<open>\<open>Headers\<close>: names are compared in lower case.\<close>

definition new_headers :: "headers \<Rightarrow> headers" where
  "new_headers hs = map (\<lambda>(k, v). (js_lower k, v)) hs"

definition header_delete :: "string \<Rightarrow> headers \<Rightarrow> headers" where
  "header_delete k hs = filter (\<lambda>h. fst h \<noteq> k) hs"

definition header_set :: "string \<Rightarrow> string \<Rightarrow> headers \<Rightarrow> headers" where
  "header_set k v hs = header_delete k hs @ [(k, v)]"

section \<open>One hop\<close>

definition proxyConfigured :: "web \<Rightarrow> request_init \<Rightarrow> bool" where
  "proxyConfigured w i \<longleftrightarrow> ri_proxy i \<or> wb_proxy w"

text \<open>\<open>proxied\<close> of \<open>createSafeFetch\<close>\<close>

definition proxied :: "web \<Rightarrow> bool \<Rightarrow> request_init \<Rightarrow> bool" where
  "proxied w pinThroughProxy i \<longleftrightarrow> \<not> pinThroughProxy \<and> proxyConfigured w i"

definition pinnedRequest ::
  "web \<Rightarrow> bool \<Rightarrow> string \<Rightarrow> url \<Rightarrow> request_init \<Rightarrow> string option \<Rightarrow> string \<times> request_init" where
  "pinnedRequest w pinThroughProxy href u i pin =
    (case pin of
       None \<Rightarrow> (href, i)
     | Some a \<Rightarrow>
        if a = [] \<or> proxied w pinThroughProxy i then (href, i)
        else (wb_at w href (if CHR '':'' \<in> set a then ''['' @ a @ '']'' else a),
          i\<lparr> ri_headers := header_set ''host'' (host u) (new_headers (ri_headers i)),
             ri_serverName := (if protocol u = ''https:'' then Some (hostname u) else ri_serverName i) \<rparr>))"

definition REDIRECT_STATUSES :: "nat list" where
  "REDIRECT_STATUSES = [301, 302, 303, 307, 308]"

definition CONTENT_HEADERS :: "string list" where
  "CONTENT_HEADERS = [''content-type'', ''content-length'', ''content-encoding'', ''content-language'', ''content-location'']"

definition CREDENTIAL_HEADERS :: "string list" where
  "CREDENTIAL_HEADERS = [''authorization'', ''cookie'', ''proxy-authorization'']"

definition redirectInit :: "request_init \<Rightarrow> nat \<Rightarrow> bool \<Rightarrow> request_init" where
  "redirectInit i status crossOrigin =
    (let headers = new_headers (ri_headers i);
         method = js_upper (case ri_method i of None \<Rightarrow> ''GET'' | Some m \<Rightarrow> m);
         drops = (status = 301 \<or> status = 302) \<and> method = ''POST''
           \<or> status = 303 \<and> method \<noteq> ''GET'' \<and> method \<noteq> ''HEAD'';
         kept = (if drops then fold header_delete CONTENT_HEADERS headers else headers)
     in i\<lparr> ri_method := (if drops then Some ''GET'' else ri_method i),
           ri_body := (if drops then None else ri_body i),
           ri_headers := (if crossOrigin then fold header_delete CREDENTIAL_HEADERS kept else kept) \<rparr>)"

section \<open>The loop\<close>

datatype fetch_error =
    Refused string
  | Guarded url_error
  | NotAUrl string
  | TooManyRedirects
  | DidNotResolve string
  | RedirectIsError
  | NoLocation
  | FetchFailed

text \<open>A response to the caller: its URL as the caller is shown it, when that was defined.\<close>

record answered =
  an_response :: response
  an_url :: "string option"
  an_redirected :: bool

text \<open>A request made: the URL meant, the URL connected to, what was sent.\<close>

record sent =
  st_url :: string
  st_target :: string
  st_init :: request_init

function safe_hop ::
  "web \<Rightarrow> (url \<Rightarrow> bool) \<Rightarrow> bool \<Rightarrow> string \<Rightarrow> request_init \<Rightarrow> redirect_mode \<Rightarrow> nat
    \<Rightarrow> sent list \<times> (fetch_error, answered) result" where
  "safe_hop w allowUrl pinThroughProxy href i mode hops =
    (case wb_parse w href of
       None \<Rightarrow> ([], Throw (NotAUrl href))
     | Some u \<Rightarrow>
        if \<not> allowUrl u then ([], Throw (Refused (host u)))
        else (case assertPublicUrl (as_parser w) (wb_lookup w hops) href of
           Inl e \<Rightarrow> ([], Throw (Guarded e))
         | Inr pin \<Rightarrow>
            if 5 < hops then ([], Throw TooManyRedirects)
            else if (pin = None \<or> pin = Some []) \<and> \<not> wb_isIP w (unbracket (hostname u)) \<and> \<not> proxied w pinThroughProxy i
            then ([], Throw (DidNotResolve (hostname u)))
            else
              (let (target, sentInit) = pinnedRequest w pinThroughProxy href u (i\<lparr> ri_redirect := Some Manual \<rparr>) pin;
                   made = \<lparr> st_url = href, st_target = target, st_init = sentInit \<rparr>
               in case wb_fetch w hops target sentInit of
                    None \<Rightarrow> ([made], Throw FetchFailed)
                  | Some r \<Rightarrow>
                     if rs_status r \<notin> set REDIRECT_STATUSES then
                       ([made], Ok \<lparr> an_response = r, an_url = Some href, an_redirected = (0 < hops) \<rparr>)
                     else if mode = Manual then
                       ([made], Ok \<lparr> an_response = r, an_url = None, an_redirected = False \<rparr>)
                     else if mode = ErrorMode then ([made], Throw RedirectIsError)
                     else (case rs_location r of
                          None \<Rightarrow> ([made], Throw NoLocation)
                        | Some location \<Rightarrow>
                           if location = [] then ([made], Throw NoLocation)
                           else (case wb_resolve w location href of
                                None \<Rightarrow> ([made], Throw (NotAUrl location))
                              | Some next \<Rightarrow>
                                 (case wb_parse w next of
                                    None \<Rightarrow> ([made], Throw (NotAUrl next))
                                  | Some v \<Rightarrow>
                                     (let nextInit = redirectInit i (rs_status r) (origin v \<noteq> origin u);
                                          (log, res) = safe_hop w allowUrl pinThroughProxy next nextInit
                                            (case ri_redirect nextInit of None \<Rightarrow> Follow | Some m \<Rightarrow> m) (Suc hops)
                                      in (made # log, res))))))))"
  by pat_completeness auto
termination by (relation "measure (\<lambda>(w, allowUrl, pinThroughProxy, href, i, mode, hops). 6 - hops)") auto

text \<open>
  The first call: a text or a URL with its init, or a \<open>Request\<close> whose method, headers and
  body the init may override.
\<close>

datatype fetch_input = ByUrl string | ByRequest string string headers "string option" redirect_mode

text \<open>An init as given: \<open>None\<close> for \<open>undefined\<close>, and whether it gives headers and a body.\<close>

record given_init = request_init +
  gi_headers :: bool
  gi_body :: bool

definition no_init :: request_init where
  "no_init = \<lparr> ri_method = None, ri_headers = [], ri_body = None, ri_redirect = None, ri_serverName = None, ri_proxy = False \<rparr>"

fun input_url :: "fetch_input \<Rightarrow> string" where
  "input_url (ByUrl a) = a"
| "input_url (ByRequest a m hs b r) = a"

fun base_init :: "fetch_input \<Rightarrow> given_init option \<Rightarrow> request_init" where
  "base_init (ByUrl a) None = no_init"
| "base_init (ByUrl a) (Some i) = request_init.truncate i"
| "base_init (ByRequest a m hs b r) None = no_init\<lparr> ri_method := Some m, ri_headers := hs, ri_body := b \<rparr>"
| "base_init (ByRequest a m hs b r) (Some i) = (request_init.truncate i)
    \<lparr> ri_method := (case ri_method i of None \<Rightarrow> Some m | Some m' \<Rightarrow> Some m'),
      ri_headers := (if gi_headers i then ri_headers i else hs),
      ri_body := (if gi_body i then ri_body i else b) \<rparr>"

fun redirect_mode_of :: "fetch_input \<Rightarrow> given_init option \<Rightarrow> redirect_mode" where
  "redirect_mode_of inp i =
    (case (case i of None \<Rightarrow> None | Some j \<Rightarrow> ri_redirect j) of
       Some m \<Rightarrow> m
     | None \<Rightarrow> (case inp of ByRequest a m hs b r \<Rightarrow> r | ByUrl a \<Rightarrow> Follow))"

definition safeFetch ::
  "web \<Rightarrow> (url \<Rightarrow> bool) \<Rightarrow> bool \<Rightarrow> fetch_input \<Rightarrow> given_init option \<Rightarrow> sent list \<times> (fetch_error, answered) result" where
  "safeFetch w allowUrl pinThroughProxy inp i =
    safe_hop w allowUrl pinThroughProxy (input_url inp) (base_init inp i) (redirect_mode_of inp i) 0"

declare safe_hop.simps [simp del]


section \<open>The requests a call makes\<close>

text \<open>The request of a hop that got past its checks.\<close>

definition request_of :: "web \<Rightarrow> bool \<Rightarrow> string \<Rightarrow> url \<Rightarrow> request_init \<Rightarrow> string option \<Rightarrow> sent" where
  "request_of w ptp href u i pin =
    (case pinnedRequest w ptp href u (i\<lparr> ri_redirect := Some Manual \<rparr>) pin of (target, sentInit) \<Rightarrow>
      \<lparr> st_url = href, st_target = target, st_init = sentInit \<rparr>)"

definition checked :: "web \<Rightarrow> (url \<Rightarrow> bool) \<Rightarrow> bool \<Rightarrow> nat \<Rightarrow> string \<Rightarrow> request_init \<Rightarrow> url \<Rightarrow> string option \<Rightarrow> bool" where
  "checked w allowUrl ptp hops href i u pin \<longleftrightarrow> wb_parse w href = Some u \<and> allowUrl u
    \<and> assertPublicUrl (as_parser w) (wb_lookup w hops) href = Inr pin
    \<and> (pin = None \<or> pin = Some [] \<longrightarrow> wb_isIP w (unbracket (hostname u)) \<or> proxied w ptp i)"

lemma safe_hop_split:
  assumes "safe_hop w allowUrl ptp href i mode hops = (log, res)"
  obtains (nothing) "log = []"
  | (made) u pin log' where "hops \<le> 5" "checked w allowUrl ptp hops href i u pin"
      "log = request_of w ptp href u i pin # log'"
      "log' = [] \<or> (\<exists>next v status mode' res'. wb_parse w next = Some v
        \<and> safe_hop w allowUrl ptp next (redirectInit i status (origin v \<noteq> origin u)) mode' (Suc hops) = (log', res'))"
proof (cases "\<exists>u pin. hops \<le> 5 \<and> checked w allowUrl ptp hops href i u pin")
  case False
  then have "log = []"
    using assms by (subst (asm) safe_hop.simps)
      (auto simp: checked_def Let_def not_less split: option.splits sum.splits if_splits)
  then show thesis by (rule nothing)
next
  case True
  then obtain u pin where u: "hops \<le> 5" "checked w allowUrl ptp hops href i u pin" by blast
  obtain target sentInit where p: "pinnedRequest w ptp href u (i\<lparr> ri_redirect := Some Manual \<rparr>) pin = (target, sentInit)"
    by (cases "pinnedRequest w ptp href u (i\<lparr> ri_redirect := Some Manual \<rparr>) pin")
  let ?m = "request_of w ptp href u i pin"
  have m: "?m = \<lparr> st_url = href, st_target = target, st_init = sentInit \<rparr>" by (simp add: request_of_def p)
  have f: "wb_parse w href = Some u" "(\<not> allowUrl u) = False"
    "assertPublicUrl (as_parser w) (wb_lookup w hops) href = Inr pin" "(5 < hops) = False"
    "((pin = None \<or> pin = Some []) \<and> \<not> wb_isIP w (unbracket (hostname u)) \<and> \<not> proxied w ptp i) = False"
    using u by (auto simp: checked_def)
  have e: "safe_hop w allowUrl ptp href i mode hops = (log, res)" by (rule assms)
  have "\<exists>log'. log = ?m # log' \<and> (log' = [] \<or> (\<exists>next v status mode' res'. wb_parse w next = Some v
        \<and> safe_hop w allowUrl ptp next (redirectInit i status (origin v \<noteq> origin u)) mode' (Suc hops) = (log', res')))"
    using e
    apply (subst (asm) safe_hop.simps)
    apply (simp only: f option.case sum.case if_False p prod.case Let_def m [symmetric])
    apply (simp split: option.splits if_splits prod.splits)
    apply blast+
    done
  then show thesis using u made by blast
qed


lemma redirectInit_proxy [simp]: "ri_proxy (redirectInit i st c) = ri_proxy i"
  by (simp add: redirectInit_def Let_def)

lemma request_proxy [simp]: "ri_proxy (st_init (request_of w ptp href u i pin)) = ri_proxy i"
  by (simp add: request_of_def pinnedRequest_def split: option.splits)

lemma request_url [simp]: "st_url (request_of w ptp href u i pin) = href"
  by (simp add: request_of_def split: prod.splits)

subsection \<open>Where it connects\<close>

text \<open>An address the resolver gave for a name, every one of whose addresses is allowed.\<close>

definition resolved :: "web \<Rightarrow> url \<Rightarrow> string \<Rightarrow> bool" where
  "resolved w u a \<longleftrightarrow> (\<exists>k addresses. wb_lookup w k (unbracket (js_lower (hostname u))) = Some addresses
     \<and> a \<in> set addresses \<and> (\<forall>b \<in> set addresses. \<not> isBlockedHost b))"

text \<open>
  The request goes to a resolved address, still addressed to the host; or to the host of
  its URL, an address itself; or to a proxy, where one is configured and pinning is not
  asked for through it.
\<close>

definition connects_safely :: "web \<Rightarrow> bool \<Rightarrow> url \<Rightarrow> sent \<Rightarrow> bool" where
  "connects_safely w ptp u m \<longleftrightarrow>
    (\<exists>a. resolved w u a \<and> st_target m = wb_at w (st_url m) (if CHR '':'' \<in> set a then ''['' @ a @ '']'' else a)
       \<and> filter (\<lambda>h. fst h = ''host'') (ri_headers (st_init m)) = [(''host'', host u)]
       \<and> (protocol u = ''https:'' \<longrightarrow> ri_serverName (st_init m) = Some (hostname u)))
    \<or> st_target m = st_url m \<and> wb_isIP w (unbracket (hostname u))
    \<or> \<not> ptp \<and> (wb_proxy w \<or> ri_proxy (st_init m))"

lemma checked_pin:
  assumes "checked w allowUrl ptp hops href i u pin"
  shows "allowUrl u" "wb_parse w href = Some u" "protocol u \<in> {''http:'', ''https:''}" "\<not> isBlockedHost (js_lower (hostname u))"
    "pin = Some a \<Longrightarrow> resolved w u a"
proof -
  have g: "assertPublicUrl (as_parser w) (wb_lookup w hops) href = Inr pin" and p: "wb_parse w href = Some u"
    using assms by (simp_all add: checked_def)
  then show "allowUrl u" "wb_parse w href = Some u" using assms by (simp_all add: checked_def)
  show "protocol u \<in> {''http:'', ''https:''}" "\<not> isBlockedHost (js_lower (hostname u))"
    using g p by (auto simp: assertPublicUrl_def validatePublicUrl_def as_parser_def parsed_url.defs split: sum.splits if_splits)
  assume "pin = Some a"
  then show "resolved w u a"
    using g p unfolding resolved_def
    by (intro exI [of _ hops]) (auto simp: assertPublicUrl_def validatePublicUrl_def as_parser_def parsed_url.defs
      find_None_iff Let_def split: sum.splits if_splits option.splits list.splits)
qed

lemma header_set_filter: "filter (\<lambda>h. fst h = k) (header_set k v hs) = [(k, v)]"
  by (simp add: header_set_def header_delete_def)

lemma request_safe:
  assumes "checked w allowUrl ptp hops href i u pin"
  shows "connects_safely w ptp u (request_of w ptp href u i pin)"
proof (cases "\<not> ptp \<and> (wb_proxy w \<or> ri_proxy i) \<or> pin = None \<or> pin = Some []")
  case True
  let ?m = "request_of w ptp href u i pin"
  consider "\<not> ptp" "wb_proxy w \<or> ri_proxy i" | "pin = None \<or> pin = Some []" "\<not> proxied w ptp i"
    using True by (auto simp: proxied_def proxyConfigured_def)
  then show ?thesis
  proof cases
    case 1
    then show ?thesis unfolding connects_safely_def by (metis request_proxy)
  next
    case 2
    then have "st_target ?m = href" by (auto simp: request_of_def pinnedRequest_def)
    moreover have "wb_isIP w (unbracket (hostname u))" using assms 2 by (auto simp: checked_def)
    ultimately show ?thesis by (simp add: connects_safely_def)
  qed
next
  case False
  then obtain a where "pin = Some a" "a \<noteq> []" by (cases pin) auto
  moreover have "\<not> proxied w ptp (i\<lparr> ri_redirect := Some Manual \<rparr>)"
    using False by (auto simp: proxied_def proxyConfigured_def)
  moreover have "resolved w u a" using checked_pin(5) [OF assms] calculation(1) by blast
  ultimately show ?thesis
    unfolding connects_safely_def
    by (intro disjI1 exI [of _ a] conjI) (simp_all add: request_of_def pinnedRequest_def header_set_filter)
qed

lemma hops_safe:
  "safe_hop w allowUrl ptp href i mode hops = (log, res) \<Longrightarrow>
    length log \<le> 6 - hops \<and> (\<forall>m \<in> set log. \<exists>u. wb_parse w (st_url m) = Some u \<and> allowUrl u
      \<and> protocol u \<in> {''http:'', ''https:''} \<and> \<not> isBlockedHost (js_lower (hostname u)) \<and> connects_safely w ptp u m)"
proof (induction "6 - hops" arbitrary: href i mode hops log res rule: less_induct)
  case less
  from less.prems show ?case
  proof (cases rule: safe_hop_split)
    case (made u pin log')
    have "length log' \<le> 6 - Suc hops \<and> (\<forall>m \<in> set log'. \<exists>u. wb_parse w (st_url m) = Some u \<and> allowUrl u
      \<and> protocol u \<in> {''http:'', ''https:''} \<and> \<not> isBlockedHost (js_lower (hostname u)) \<and> connects_safely w ptp u m)"
      using made(1,4) less.hyps [of "Suc hops"] by fastforce
    then show ?thesis
      using made(1,3) checked_pin [OF made(2)] request_safe [OF made(2)] by auto
  qed simp
qed

text \<open>C18. Every request a guarded fetch makes, redirects included, is to an http(s) URL the caller's
own rule allows and whose host is not refused, and it connects to an address that was
checked itself: one the resolver gave for the name, whatever it answers a second time,
with the name kept in the Host header and the TLS server name; or the address the URL
spells; or a configured proxy.  A call makes at most six.\<close>

theorem every_connection_is_checked:
  assumes "safeFetch w allowUrl ptp inp i = (log, res)"
  shows "length log \<le> 6 \<and> (\<forall>m \<in> set log. \<exists>u. wb_parse w (st_url m) = Some u \<and> allowUrl u
    \<and> protocol u \<in> {''http:'', ''https:''} \<and> \<not> isBlockedHost (js_lower (hostname u)) \<and> connects_safely w ptp u m)"
  using hops_safe [of w allowUrl ptp _ _ _ 0] assms by (simp add: safeFetch_def)

subsection \<open>What it sends\<close>

definition header_names :: "headers \<Rightarrow> string set" where
  "header_names hs = (\<lambda>h. js_lower (fst h)) ` set hs"

abbreviation carries :: "string \<Rightarrow> request_init \<Rightarrow> bool" where
  "carries k i \<equiv> k \<in> header_names (ri_headers i)"

lemma deletes: "fold header_delete ns hs = filter (\<lambda>h. fst h \<notin> set ns) hs"
  by (induction ns arbitrary: hs) (auto simp: header_delete_def intro: filter_cong)

lemma header_names_kept [simp]:
  "header_names (filter (\<lambda>h. fst h \<notin> N) (new_headers hs)) = header_names hs - N"
  by (force simp: header_names_def new_headers_def)

lemma header_names_new [simp]: "header_names (new_headers hs) = header_names hs"
  using header_names_kept [of "{}" hs] by simp

lemma redirect_names:
  "\<exists>D. header_names (ri_headers (redirectInit i st c)) = header_names (ri_headers i) - D
    \<and> (c \<longrightarrow> set CREDENTIAL_HEADERS \<subseteq> D)"
proof -
  let ?N = "\<lambda>drops. (if drops then set CONTENT_HEADERS else {}) \<union> (if c then set CREDENTIAL_HEADERS else {})"
  have "\<exists>drops. ri_headers (redirectInit i st c) = filter (\<lambda>h. fst h \<notin> ?N drops) (new_headers (ri_headers i))"
    by (simp add: redirectInit_def Let_def deletes conj_commute) (metis (full_types))
  then obtain drops where "ri_headers (redirectInit i st c) = filter (\<lambda>h. fst h \<notin> ?N drops) (new_headers (ri_headers i))"
    by blast
  then have "header_names (ri_headers (redirectInit i st c)) = header_names (ri_headers i) - ?N drops"
    by (simp only: header_names_kept)
  then show ?thesis by (intro exI [of _ "?N drops"] conjI) auto
qed

lemma request_carries:
  assumes "carries k (st_init (request_of w ptp href u i pin))" "k \<noteq> ''host''"
  shows "carries k i"
proof -
  have "js_lower ''host'' = ''host''" by code_simp
  then have "header_names (header_set ''host'' v (new_headers hs)) \<subseteq> insert ''host'' (header_names hs)" for v hs
    using header_names_kept [of "{''host''}" hs]
    by (auto simp: header_set_def header_delete_def header_names_def)
  then show ?thesis
    using assms by (auto simp: request_of_def pinnedRequest_def split: option.splits if_splits)
qed

text \<open>The origin a recorded request's URL has.\<close>

definition origin_of :: "web \<Rightarrow> sent \<Rightarrow> string" where
  "origin_of w m = (case wb_parse w (st_url m) of None \<Rightarrow> [] | Some u \<Rightarrow> origin u)"

lemma never_regained:
  "safe_hop w allowUrl ptp href i mode hops = (log, res) \<Longrightarrow> k \<noteq> ''host'' \<Longrightarrow> m \<in> set log \<Longrightarrow> carries k (st_init m)
    \<Longrightarrow> carries k i"
proof (induction "6 - hops" arbitrary: href i mode hops log res rule: less_induct)
  case less
  from less.prems(1) show ?case
  proof (cases rule: safe_hop_split)
    case (made u pin log')
    show ?thesis
    proof (cases "m = request_of w ptp href u i pin")
      case False
      then have "m \<in> set log'" using made(3) less.prems(3) by simp
      with made(4) obtain nx v st mode' res' where "wb_parse w nx = Some v" and r:
        "safe_hop w allowUrl ptp nx (redirectInit i st (origin v \<noteq> origin u)) mode' (Suc hops) = (log', res')" by auto
      from less.hyps [OF _ r less.prems(2) \<open>m \<in> set log'\<close> less.prems(4)] made(1)
      have "carries k (redirectInit i st (origin v \<noteq> origin u))" by simp
      then show ?thesis using redirect_names [of i st "origin v \<noteq> origin u"] by auto
    qed (use request_carries less.prems in blast)
  qed (use less.prems in simp)
qed

lemma credential_hops:
  "safe_hop w allowUrl ptp href i mode hops = (log, res) \<Longrightarrow> k \<in> set CREDENTIAL_HEADERS \<Longrightarrow> j < length log
    \<Longrightarrow> carries k (st_init (log ! j)) \<Longrightarrow> l \<le> j \<Longrightarrow> origin_of w (log ! l) = origin_of w (log ! 0)"
proof (induction "6 - hops" arbitrary: href i mode hops log res j l rule: less_induct)
  case less
  have k: "k \<noteq> ''host''" using less.prems(2) by (auto simp: CREDENTIAL_HEADERS_def)
  from less.prems(1) show ?case
  proof (cases rule: safe_hop_split)
    case (made u pin log')
    show ?thesis
    proof (cases l)
      case (Suc l')
      then obtain j' where j: "j = Suc j'" using less.prems(5) by (cases j) auto
      then have ne: "log' \<noteq> []" and in': "log' ! j' \<in> set log'" using less.prems(3) made(3) by auto
      with made(4) obtain nx v st mode' res' where v: "wb_parse w nx = Some v" and r:
        "safe_hop w allowUrl ptp nx (redirectInit i st (origin v \<noteq> origin u)) mode' (Suc hops) = (log', res')" by auto
      have c: "carries k (st_init (log' ! j'))" using less.prems(4) made(3) j by simp
      then have "carries k (redirectInit i st (origin v \<noteq> origin u))"
        using never_regained [OF r k in'] by simp
      then have o: "origin v = origin u"
        using redirect_names [of i st "origin v \<noteq> origin u"] less.prems(2) by auto
      have "origin_of w (log' ! l') = origin_of w (log' ! 0)"
        using less.hyps [OF _ r less.prems(2) _ c, of l'] made(1,3) less.prems(3,5) j Suc by simp
      moreover from r have "origin_of w (log' ! 0) = origin v"
      proof (cases rule: safe_hop_split)
        case (made u' pin' log'')
        then show ?thesis using v checked_pin(2) [OF made(2)] by (simp add: origin_of_def)
      qed (use ne in simp)
      moreover have "origin_of w (log ! 0) = origin u"
        using made(3) checked_pin(2) [OF made(2)] by (simp add: origin_of_def)
      ultimately show ?thesis using o made(3) Suc by simp
    qed simp
  qed (use less.prems in simp)
qed

text \<open>C19. A request that still carries the caller's credentials (\<open>Authorization\<close>, \<open>Cookie\<close> or
\<open>Proxy-Authorization\<close>) goes to the origin of the first URL, and so did every hop before it:
a redirect that leaves the origin, even one that comes back, has lost them for good.\<close>

theorem credentials_stay_with_origin:
  assumes "safeFetch w allowUrl ptp inp i = (log, res)" "k \<in> set CREDENTIAL_HEADERS"
    and "j < length log" "carries k (st_init (log ! j))" "l \<le> j"
  shows "origin_of w (log ! l) = origin_of w (log ! 0)"
  by (rule credential_hops [OF assms(1) [unfolded safeFetch_def] assms(2-5)])

subsection \<open>A chain of redirects\<close>

text \<open>\<open>https://a.example/x\<close> answers a redirect to itself, then one to \<open>b.example\<close>.\<close>

definition demo_urls :: "string \<Rightarrow> url option" where
  "demo_urls s =
    (if s = ''https://a.example/x'' \<or> s = ''https://a.example/y''
     then Some \<lparr> protocol = ''https:'', hostname = ''a.example'', port = [], host = ''a.example'', origin = ''https://a.example'' \<rparr>
     else if s = ''https://b.example/z''
     then Some \<lparr> protocol = ''https:'', hostname = ''b.example'', port = [], host = ''b.example'', origin = ''https://b.example'' \<rparr>
     else None)"

definition demo_web :: web where
  "demo_web =
    \<lparr> wb_parse = demo_urls, wb_resolve = (\<lambda>location base. Some location), wb_at = (\<lambda>u a. ''https://'' @ a @ ''/''),
      wb_isIP = (\<lambda>h. False), wb_proxy = False, wb_lookup = (\<lambda>k h. if h = ''a.example'' then Some [''8.8.8.8''] else Some [''9.9.9.9'']),
      wb_fetch = (\<lambda>k u i. Some (if k = 0 then \<lparr> rs_status = 302, rs_location = Some ''https://a.example/y'', rs_chunks = [] \<rparr>
         else if k = 1 then \<lparr> rs_status = 302, rs_location = Some ''https://b.example/z'', rs_chunks = [] \<rparr>
         else \<lparr> rs_status = 200, rs_location = None, rs_chunks = [''ok''] \<rparr>)) \<rparr>"

definition demo_given :: given_init where
  "demo_given = \<lparr> ri_method = None, ri_headers = [(''Authorization'', ''secret'')], ri_body = None, ri_redirect = None,
     ri_serverName = None, ri_proxy = False, gi_headers = True, gi_body = False \<rparr>"

definition demo_run :: "sent list \<times> (fetch_error, answered) result" where
  "demo_run = safeFetch demo_web (\<lambda>u. True) False (ByUrl ''https://a.example/x'') (Some demo_given)"

lemma demo_log:
  "map st_target (fst demo_run) = [''https://8.8.8.8/'', ''https://8.8.8.8/'', ''https://9.9.9.9/'']"
  "map (\<lambda>m. ''authorization'' \<in> js_lower ` fst ` set (ri_headers (st_init m))) (fst demo_run) = [True, True, False]"
  by code_simp+

theorem every_connection_is_checked_witness:
  "length (fst demo_run) = 3 \<and> \<not> isBlockedHost ''b.example''"
proof -
  have l: "length (fst demo_run) = 3" "st_url (fst demo_run ! 2) = ''https://b.example/z''"
    "demo_urls ''https://b.example/z'' \<noteq> None" "hostname (the (demo_urls ''https://b.example/z'')) = ''b.example''"
    "js_lower ''b.example'' = ''b.example''"
    by code_simp+
  have r: "safeFetch demo_web (\<lambda>u. True) False (ByUrl ''https://a.example/x'') (Some demo_given) = (fst demo_run, snd demo_run)"
    by (simp add: demo_run_def)
  have "2 < length (fst demo_run)" by (simp add: l(1))
  then have "fst demo_run ! 2 \<in> set (fst demo_run)" by (rule nth_mem)
  with every_connection_is_checked [OF r]
  have "\<exists>u. wb_parse demo_web (st_url (fst demo_run ! 2)) = Some u \<and> \<not> isBlockedHost (js_lower (hostname u))"
    by blast
  then show ?thesis using l by (auto simp: demo_web_def)
qed

theorem credentials_stay_with_origin_witness:
  "origin_of demo_web (fst demo_run ! 1) = origin_of demo_web (fst demo_run ! 0) \<and> length (fst demo_run) = 3"
proof -
  have r: "safeFetch demo_web (\<lambda>u. True) False (ByUrl ''https://a.example/x'') (Some demo_given) = (fst demo_run, snd demo_run)"
    by (simp add: demo_run_def)
  have l: "length (fst demo_run) = 3" by code_simp
  have "list_ex (\<lambda>h. js_lower (fst h) = ''authorization'') (ri_headers (st_init (fst demo_run ! 1)))" by code_simp
  then have c: "carries ''authorization'' (st_init (fst demo_run ! 1))"
    by (force simp: header_names_def list_ex_iff)
  have "origin_of demo_web (fst demo_run ! 0) = origin_of demo_web (fst demo_run ! 0)"
    "origin_of demo_web (fst demo_run ! 1) = origin_of demo_web (fst demo_run ! 0)"
    by (rule credentials_stay_with_origin [OF r _ _ c]; simp add: l CREDENTIAL_HEADERS_def)+
  with l show ?thesis by simp
qed

end
