(* ===== verification/EgressChannel.thy ===== *)
theory EgressChannel
  imports Prelude Digits "HOL-Library.Multiset"
begin

text \<open>
  The channel of one invocation (\<open>createEgressBridge\<close>) as a state machine over the lines
  that come in, the requests that finish and the continuations that run; and the
  splitting of a sandbox's output into lines (\<open>splitFetchLines\<close>).
\<close>

section \<open>The bridge\<close>

definition requestBytes :: nat where "requestBytes = 1048576"
definition responseBytes :: nat where "responseBytes = 5242880"
definition lineBytes :: nat where "lineBytes = 2097152"
definition stdoutBytes :: nat where "stdoutBytes = 16777216"
definition max_requests :: nat where "max_requests = 50"
definition inFlight :: nat where "inFlight = 6"

text \<open>
  A request is named by its place among the lines.  A promise taken from \<open>waiting\<close> and
  resolved is \<open>woken\<close> until its continuation runs, and tests the bound again.
\<close>

record bridge =
  br_total :: nat
  br_active :: "nat list"
  br_waiting :: "nat list"
  br_woken :: "nat list"
  br_closed :: bool
  br_answered :: "nat list"
  br_refused :: "nat list"
  br_killed :: "string list"

definition new_bridge :: bridge where
  "new_bridge = \<lparr> br_total = 0, br_active = [], br_waiting = [], br_woken = [], br_closed = False,
     br_answered = [], br_refused = [], br_killed = [] \<rparr>"

text \<open>\<open>while (active >= inFlight) await ...; active++\<close> up to its next await.\<close>

definition enter :: "nat \<Rightarrow> bridge \<Rightarrow> bridge" where
  "enter n s =
    (if inFlight \<le> length (br_active s) then s\<lparr> br_waiting := br_waiting s @ [n] \<rparr>
     else s\<lparr> br_active := br_active s @ [n] \<rparr>)"

definition bridge_line :: "(string \<Rightarrow> 'r option) \<Rightarrow> string \<Rightarrow> bridge \<Rightarrow> bridge" where
  "bridge_line parse json s =
    (if lineBytes < length json then s\<lparr> br_killed := br_killed s @ [''egress request exceeds the line bound''] \<rparr>
     else (case parse json of
        None \<Rightarrow> s\<lparr> br_killed := br_killed s @ [''malformed egress request''] \<rparr>
      | Some req \<Rightarrow>
         (let n = Suc (br_total s); t = s\<lparr> br_total := n \<rparr> in
          if max_requests < n then (if br_closed s then t else t\<lparr> br_refused := br_refused s @ [n] \<rparr>)
          else enter n t)))"

text \<open>A performed request: its answer, then \<open>active--\<close> and \<open>waiting.shift()?.()\<close>.\<close>

definition bridge_finish :: "nat \<Rightarrow> bridge \<Rightarrow> bridge" where
  "bridge_finish n s =
    (if n \<in> set (br_active s) then
       s\<lparr> br_answered := (if br_closed s then br_answered s else br_answered s @ [n]),
         br_active := remove1 n (br_active s),
         br_waiting := tl (br_waiting s),
         br_woken := br_woken s @ take 1 (br_waiting s) \<rparr>
     else s)"

definition bridge_resume :: "bridge \<Rightarrow> bridge" where
  "bridge_resume s = (case br_woken s of [] \<Rightarrow> s | n # ns \<Rightarrow> enter n (s\<lparr> br_woken := ns \<rparr>))"

definition bridge_close :: "bridge \<Rightarrow> bridge" where
  "bridge_close s = s\<lparr> br_closed := True \<rparr>"

datatype bridge_event = Line string | Finish nat | Resume | Close

fun bridge_step :: "(string \<Rightarrow> 'r option) \<Rightarrow> bridge \<Rightarrow> bridge_event \<Rightarrow> bridge" where
  "bridge_step parse s (Line json) = bridge_line parse json s"
| "bridge_step parse s (Finish n) = bridge_finish n s"
| "bridge_step parse s Resume = bridge_resume s"
| "bridge_step parse s Close = bridge_close s"

definition bridge_run :: "(string \<Rightarrow> 'r option) \<Rightarrow> bridge_event list \<Rightarrow> bridge" where
  "bridge_run parse evs = foldl (bridge_step parse) new_bridge evs"

text \<open>
  A request that was let in is in one place: in flight, waiting, woken, or done.  A free
  slot has a woken request to take it before any waits.
\<close>

definition admitted :: "nat \<Rightarrow> nat multiset" where
  "admitted n = mset [1..<Suc (min max_requests n)]"

definition bridge_ok :: "nat list \<Rightarrow> bridge \<Rightarrow> bool" where
  "bridge_ok d s \<longleftrightarrow>
    mset d + mset (br_active s) + mset (br_waiting s) + mset (br_woken s) = admitted (br_total s)
    \<and> length (br_active s) \<le> inFlight
    \<and> (br_waiting s \<noteq> [] \<longrightarrow> inFlight \<le> length (br_active s) + length (br_woken s))
    \<and> mset (br_answered s) \<subseteq># mset d \<and> (\<not> br_closed s \<longrightarrow> mset (br_answered s) = mset d)"

definition done_after :: "bridge_event \<Rightarrow> bridge \<Rightarrow> nat list \<Rightarrow> nat list" where
  "done_after ev s d = (case ev of Finish n \<Rightarrow> if n \<in> set (br_active s) then d @ [n] else d | _ \<Rightarrow> d)"

lemma new_ok: "bridge_ok [] new_bridge"
  by (simp add: bridge_ok_def new_bridge_def admitted_def)

lemma enter_ok:
  assumes "mset d + mset (br_active s) + mset (br_waiting s) + add_mset n (mset (br_woken s))
      = admitted (br_total s)"
    "length (br_active s) \<le> inFlight"
    "br_waiting s \<noteq> [] \<longrightarrow> inFlight \<le> length (br_active s) + Suc (length (br_woken s))"
    "mset (br_answered s) \<subseteq># mset d" "\<not> br_closed s \<longrightarrow> mset (br_answered s) = mset d"
  shows "bridge_ok d (enter n s)"
  using assms by (simp add: bridge_ok_def enter_def)

lemma admitted_up:
  assumes "n < max_requests"
  shows "admitted (Suc n) = add_mset (Suc n) (admitted n)"
proof -
  have "min max_requests (Suc n) = Suc n" "min max_requests n = n" using assms by simp_all
  then show ?thesis by (simp add: admitted_def)
qed

lemma admitted_full: "max_requests < Suc n \<Longrightarrow> admitted (Suc n) = admitted n"
  by (simp add: admitted_def min_def)

lemma line_ok:
  assumes ok: "bridge_ok d s"
  shows "bridge_ok d (bridge_line parse json s)"
proof (cases "lineBytes < length json \<or> parse json = None")
  case True
  then show ?thesis using ok by (auto simp: bridge_ok_def bridge_line_def split: option.splits)
next
  case False
  then obtain req where p: "parse json = Some req" "\<not> lineBytes < length json" by auto
  show ?thesis
  proof (cases "max_requests < Suc (br_total s)")
    case True
    from admitted_full [OF this] show ?thesis
      using ok p True by (simp add: bridge_ok_def bridge_line_def Let_def)
  next
    case False
    then have "br_total s < max_requests" by simp
    note up = admitted_up [OF this]
    have "bridge_ok d (enter (Suc (br_total s)) (s\<lparr> br_total := Suc (br_total s) \<rparr>))"
      by (rule enter_ok) (use ok in \<open>auto simp: bridge_ok_def up\<close>)
    then show ?thesis using p False by (simp add: bridge_line_def Let_def)
  qed
qed

lemma finish_ok:
  assumes ok: "bridge_ok d s" and n: "n \<in> set (br_active s)"
  shows "bridge_ok (d @ [n]) (bridge_finish n s)"
proof -
  obtain xs where x: "mset (br_active s) = add_mset n (mset xs)" "mset (remove1 n (br_active s)) = mset xs"
    and l: "length (br_active s) = Suc (length (remove1 n (br_active s)))"
    using n by (metis insert_DiffM in_multiset_in_set length_Suc_conv mset_remove1 remove1_split size_add_mset size_mset)
  have w: "mset (tl (br_waiting s)) + mset (take 1 (br_waiting s)) = mset (br_waiting s)"
    "length (take 1 (br_waiting s)) = (if br_waiting s = [] then 0 else 1)" "tl (br_waiting s) \<noteq> [] \<longrightarrow> br_waiting s \<noteq> []"
    by (cases "br_waiting s"; simp)+
  have "mset (d @ [n]) + mset (remove1 n (br_active s)) + mset (tl (br_waiting s)) + mset (br_woken s @ take 1 (br_waiting s))
      = mset d + mset (br_active s) + (mset (tl (br_waiting s)) + mset (take 1 (br_waiting s))) + mset (br_woken s)"
    unfolding x by (simp add: ac_simps)
  also have "\<dots> = admitted (br_total s)" using ok unfolding w by (simp add: bridge_ok_def)
  finally have m: "mset (d @ [n]) + mset (remove1 n (br_active s)) + mset (tl (br_waiting s))
      + mset (br_woken s @ take 1 (br_waiting s)) = admitted (br_total s)" .
  have b: "length (remove1 n (br_active s)) \<le> inFlight"
    "tl (br_waiting s) \<noteq> [] \<longrightarrow> inFlight \<le> length (remove1 n (br_active s)) + length (br_woken s @ take 1 (br_waiting s))"
    using ok l w(2,3) by (auto simp: bridge_ok_def)
  have c: "mset (br_answered s) \<subseteq># mset (d @ [n])" "\<not> br_closed s \<longrightarrow> mset (br_answered s @ [n]) = mset (d @ [n])"
    using ok by (auto simp: bridge_ok_def intro: subset_mset.order_trans)
  show ?thesis
    using n m b c by (simp add: bridge_ok_def bridge_finish_def del: mset_append mset_remove1) 
qed

lemma resume_ok:
  assumes ok: "bridge_ok d s"
  shows "bridge_ok d (bridge_resume s)"
proof (cases "br_woken s")
  case (Cons n ns)
  have "bridge_ok d (enter n (s\<lparr> br_woken := ns \<rparr>))"
    by (rule enter_ok) (use ok Cons in \<open>simp_all add: bridge_ok_def\<close>)
  then show ?thesis using Cons by (simp add: bridge_resume_def)
qed (use ok in \<open>simp add: bridge_resume_def\<close>)

lemma step_ok: "bridge_ok d s \<Longrightarrow> bridge_ok (done_after ev s d) (bridge_step parse s ev)"
proof (cases ev)
  case (Finish n)
  assume "bridge_ok d s"
  with Finish show ?thesis
    by (cases "n \<in> set (br_active s)") (simp_all add: done_after_def finish_ok, simp add: bridge_finish_def)
next
  case Close
  assume "bridge_ok d s"
  with Close show ?thesis by (simp add: done_after_def bridge_close_def bridge_ok_def)
qed (simp_all add: done_after_def line_ok resume_ok)

lemma run_ok: "bridge_ok d s \<Longrightarrow> \<exists>d. bridge_ok d (foldl (bridge_step parse) s evs)"
proof (induction evs arbitrary: s d)
  case (Cons ev evs)
  from Cons.IH [OF step_ok [OF Cons.prems]] show ?case by simp
qed auto

lemma reached_ok: "\<exists>d. bridge_ok d (bridge_run parse evs)"
  using run_ok [OF new_ok] by (simp add: bridge_run_def)

text \<open>C21. Whatever lines come in and in whatever order requests finish and continuations run, at most
six requests are in flight and at most fifty are ever let in; each of those is in flight,
waiting, woken or done, in one place only and answered once; and no request waits while
a slot is free that nothing has been woken for.\<close>

theorem bridge_bounds:
  "\<exists>d. mset (br_answered (bridge_run parse evs)) \<subseteq># mset d
    \<and> (\<not> br_closed (bridge_run parse evs) \<longrightarrow> mset (br_answered (bridge_run parse evs)) = mset d)
    \<and> mset d + mset (br_active (bridge_run parse evs)) + mset (br_waiting (bridge_run parse evs))
        + mset (br_woken (bridge_run parse evs)) = mset [1..<Suc (min 50 (br_total (bridge_run parse evs)))]
    \<and> length (br_active (bridge_run parse evs)) \<le> 6
    \<and> (br_waiting (bridge_run parse evs) \<noteq> [] \<longrightarrow>
        6 \<le> length (br_active (bridge_run parse evs)) + length (br_woken (bridge_run parse evs)))"
  using reached_ok [of parse evs]
  by (auto simp: bridge_ok_def admitted_def max_requests_def inFlight_def simp del: upt_Suc)

definition flood :: "bridge_event list" where
  "flood = map (\<lambda>i. Line ''r'') [0..<8] @ [Finish 2, Line ''r'', Resume, Finish 1, Resume]"

theorem bridge_bounds_witness:
  "length (br_active (bridge_run Some flood)) \<le> 6 \<and> br_active (bridge_run Some flood) = [3, 4, 5, 6, 9, 8]"
proof -
  have "lineBytes = 2097152" by (simp add: lineBytes_def)
  then have "\<not> lineBytes < length ''r''" by simp
  then have l: "bridge_line Some ''r'' s = (let n = Suc (br_total s); t = s\<lparr> br_total := n \<rparr> in
      if 50 < n then (if br_closed s then t else t\<lparr> br_refused := br_refused s @ [n] \<rparr>) else enter n t)" for s
    by (simp add: bridge_line_def max_requests_def)
  have e: "enter n s = (if 6 \<le> length (br_active s) then s\<lparr> br_waiting := br_waiting s @ [n] \<rparr>
     else s\<lparr> br_active := br_active s @ [n] \<rparr>)" for n s
    by (simp add: enter_def inFlight_def)
  have "br_active (bridge_run Some flood) = [3, 4, 5, 6, 9, 8]"
    by (simp add: bridge_run_def flood_def upt_rec numeral_eq_Suc new_bridge_def l e Let_def bridge_finish_def bridge_resume_def)
  moreover have "length (br_active (bridge_run Some flood)) \<le> 6" using bridge_bounds [of Some flood] by blast
  ultimately show ?thesis by simp
qed

subsection \<open>Every request is answered\<close>

text \<open>The steps the engine itself takes: a request in flight finishes, a woken one runs on.\<close>

fun enabled :: "bridge \<Rightarrow> bridge_event \<Rightarrow> bool" where
  "enabled s (Finish n) = (n \<in> set (br_active s))"
| "enabled s Resume = (br_woken s \<noteq> [])"
| "enabled s _ = False"

fun own_steps :: "(string \<Rightarrow> 'r option) \<Rightarrow> bridge \<Rightarrow> bridge_event list \<Rightarrow> bool" where
  "own_steps parse s [] = True"
| "own_steps parse s (ev # evs) = (enabled s ev \<and> own_steps parse (bridge_step parse s ev) evs)"

text \<open>A finish ends a request; a resume leaves one fewer woken.\<close>

definition unanswered :: "bridge \<Rightarrow> nat" where
  "unanswered s = length (br_active s) + length (br_waiting s) + length (br_woken s)"

definition steps_left :: "bridge \<Rightarrow> nat" where
  "steps_left s = 2 * unanswered s + length (br_woken s)"

lemma enter_left: "unanswered (enter n s) = Suc (unanswered s)" "br_woken (enter n s) = br_woken s"
  "br_closed (enter n s) = br_closed s" "br_total (enter n s) = br_total s"
  by (simp_all add: enter_def unanswered_def)

lemma finish_left:
  assumes "n \<in> set (br_active s)"
  shows "Suc (steps_left (bridge_finish n s)) \<le> steps_left s"
proof -
  have "length (br_active s) = Suc (length (remove1 n (br_active s)))"
    using assms by (simp add: length_remove1) (metis Suc_pred length_pos_if_in_set)
  then show ?thesis using assms by (cases "br_waiting s") (simp_all add: steps_left_def unanswered_def bridge_finish_def)
qed

lemma resume_left:
  assumes "br_woken s \<noteq> []"
  shows "Suc (steps_left (bridge_resume s)) = steps_left s"
  using assms by (cases "br_woken s") (simp_all add: bridge_resume_def steps_left_def enter_left, simp add: unanswered_def)

lemma own_step_kept:
  "enabled s ev \<Longrightarrow> br_total (bridge_step parse s ev) = br_total s \<and> br_closed (bridge_step parse s ev) = br_closed s"
  by (cases ev) (auto simp: bridge_finish_def bridge_resume_def enter_left split: list.splits)

lemma own_step_left: "enabled s ev \<Longrightarrow> Suc (steps_left (bridge_step parse s ev)) \<le> steps_left s"
  by (cases ev) (simp_all add: finish_left resume_left)

lemma own_run:
  "own_steps parse s evs \<Longrightarrow> length evs + steps_left (foldl (bridge_step parse) s evs) \<le> steps_left s
    \<and> br_total (foldl (bridge_step parse) s evs) = br_total s
    \<and> br_closed (foldl (bridge_step parse) s evs) = br_closed s"
proof (induction evs arbitrary: s)
  case (Cons ev evs)
  then have e: "enabled s ev" and r: "own_steps parse (bridge_step parse s ev) evs" by simp_all
  show ?case using Cons.IH [OF r] own_step_left [OF e, of parse] own_step_kept [OF e, of parse] by simp
qed simp

lemma unanswered_bound:
  assumes "bridge_ok d s"
  shows "steps_left s \<le> 150"
proof -
  have "mset d + mset (br_active s) + mset (br_waiting s) + mset (br_woken s) = admitted (br_total s)"
    using assms by (simp add: bridge_ok_def)
  from arg_cong [OF this, of size] have "unanswered s \<le> 50"
    by (simp add: unanswered_def admitted_def max_requests_def del: upt_Suc)
  moreover have "length (br_woken s) \<le> unanswered s" by (simp add: unanswered_def)
  ultimately show ?thesis by (simp add: steps_left_def)
qed

lemma at_rest_done:
  assumes ok: "bridge_ok d s" and "\<not> br_closed s" and none: "\<And>ev. \<not> enabled s ev"
  shows "mset (br_answered s) = admitted (br_total s)"
proof -
  have a: "br_active s = []" using none [of "Finish (hd (br_active s))"] by (cases "br_active s") auto
  have w: "br_woken s = []" using none [of Resume] by simp
  have "br_waiting s = []" using ok a w by (auto simp: bridge_ok_def inFlight_def)
  then show ?thesis using ok a w assms(2) by (simp add: bridge_ok_def)
qed

text \<open>C22. From any state the channel can reach, the engine's own steps come to an end within 150,
whatever their order; and when none is left, an open channel has answered every request
it let in, once each: nothing waits forever.\<close>

theorem every_request_is_answered:
  assumes "own_steps parse (bridge_run parse evs) own" "\<not> br_closed (bridge_run parse evs)"
  shows "length own \<le> 150
    \<and> ((\<forall>ev. \<not> enabled (bridge_run parse (evs @ own)) ev) \<longrightarrow>
       mset (br_answered (bridge_run parse (evs @ own))) = mset [1..<Suc (min 50 (br_total (bridge_run parse evs)))])"
proof -
  obtain d where d: "bridge_ok d (bridge_run parse evs)" using reached_ok by blast
  have r: "bridge_run parse (evs @ own) = foldl (bridge_step parse) (bridge_run parse evs) own"
    by (simp add: bridge_run_def)
  obtain d' where d': "bridge_ok d' (bridge_run parse (evs @ own))" using reached_ok by blast
  note o = own_run [OF assms(1)]
  have "length own \<le> 150" using o unanswered_bound [OF d] by linarith
  moreover have "mset (br_answered (bridge_run parse (evs @ own))) = admitted (br_total (bridge_run parse evs))"
    if "\<forall>ev. \<not> enabled (bridge_run parse (evs @ own)) ev"
    using at_rest_done [OF d'] that o assms(2) unfolding r by auto
  ultimately show ?thesis by (simp add: admitted_def max_requests_def del: upt_Suc)
qed

theorem every_request_is_answered_witness:
  "mset (br_answered (bridge_run Some ([Line ''r''] @ [Finish 1]))) = mset [1..<Suc 1]"
proof -
  have "lineBytes = 2097152" by (simp add: lineBytes_def)
  then have "\<not> lineBytes < length ''r''" by simp
  then have b: "bridge_run Some [Line ''r''] = new_bridge\<lparr> br_total := 1, br_active := [1] \<rparr>"
    by (simp add: bridge_run_def bridge_line_def max_requests_def new_bridge_def enter_def inFlight_def Let_def)
  have c: "bridge_run Some [Line ''r'', Finish 1] = new_bridge\<lparr> br_total := 1, br_answered := [1] \<rparr>"
    using b by (simp add: bridge_run_def bridge_finish_def new_bridge_def)
  have "\<not> enabled (bridge_run Some ([Line ''r''] @ [Finish 1])) ev" for ev
    unfolding append.simps c by (cases ev) (simp_all add: new_bridge_def)
  moreover have "own_steps Some (bridge_run Some [Line ''r'']) [Finish 1]" "\<not> br_closed (bridge_run Some [Line ''r''])"
    unfolding b by (simp_all add: new_bridge_def)
  moreover have "br_total (bridge_run Some [Line ''r'']) = 1" unfolding b by simp
  ultimately show ?thesis using every_request_is_answered [of Some "[Line ''r'']" "[Finish 1]"] by (simp del: upt_Suc)
qed

section \<open>The lines of a sandbox\<close>

text \<open>
  \<open>sp_fetched\<close> is what went to \<open>onFetch\<close>, in order; \<open>fetches\<close> whether there is one.  A chunk
  is the text the decoder gave for it; \<open>flush\<close> what it gives at the end.
\<close>

record split_state =
  sp_buf :: string
  sp_kept :: "string list"
  sp_chars :: nat
  sp_truncated :: bool
  sp_fetched :: "string list"

abbreviation NL :: char where "NL \<equiv> CHR 0x0A"

definition FETCH_LINE :: string where "FETCH_LINE = ''FETCH ''"

definition take_line :: "bool \<Rightarrow> nat \<Rightarrow> string \<Rightarrow> split_state \<Rightarrow> split_state" where
  "take_line fetches maxKept line s =
    (if fetches \<and> starts_with FETCH_LINE line then
       s\<lparr> sp_fetched := sp_fetched s @ [drop (length FETCH_LINE) line] \<rparr>
     else if maxKept < sp_chars s + length line then s\<lparr> sp_truncated := True \<rparr>
     else s\<lparr> sp_kept := sp_kept s @ [line], sp_chars := sp_chars s + (length line + 1) \<rparr>)"

text \<open>\<open>while (nl !== -1)\<close>: the lines of the buffer that are complete.\<close>

function drain :: "bool \<Rightarrow> nat \<Rightarrow> split_state \<Rightarrow> split_state" where
  "drain fetches maxKept s =
    (if NL \<notin> set (sp_buf s) then s
     else drain fetches maxKept
       ((take_line fetches maxKept (takeWhile (\<lambda>c. c \<noteq> NL) (sp_buf s)) s)
         \<lparr> sp_buf := tl (dropWhile (\<lambda>c. c \<noteq> NL) (sp_buf s)) \<rparr>))"
  by pat_completeness auto
termination
proof (relation "measure (\<lambda>(fetches, maxKept, s). length (sp_buf s))")
  fix fetches maxKept and s :: split_state
  assume "\<not> NL \<notin> set (sp_buf s)"
  then have "dropWhile (\<lambda>c. c \<noteq> NL) (sp_buf s) \<noteq> []" by (auto simp: dropWhile_eq_Nil_conv)
  then show "((fetches, maxKept, (take_line fetches maxKept (takeWhile (\<lambda>c. c \<noteq> NL) (sp_buf s)) s)
      \<lparr> sp_buf := tl (dropWhile (\<lambda>c. c \<noteq> NL) (sp_buf s)) \<rparr>), fetches, maxKept, s)
    \<in> measure (\<lambda>(fetches, maxKept, s). length (sp_buf s))"
    using length_dropWhile_le [of "\<lambda>c. c \<noteq> NL" "sp_buf s"]
    by (cases "dropWhile (\<lambda>c. c \<noteq> NL) (sp_buf s)") auto
qed simp

declare drain.simps [simp del]

text \<open>One chunk, and the two bounds on a line with no end yet.\<close>

definition take_chunk :: "bool \<Rightarrow> nat \<Rightarrow> nat \<Rightarrow> string \<Rightarrow> split_state \<Rightarrow> split_state" where
  "take_chunk fetches maxLine maxKept chunk s =
    (let t = drain fetches maxKept (s\<lparr> sp_buf := sp_buf s @ chunk \<rparr>);
         u = (if fetches \<and> maxLine < length (sp_buf t) \<and> starts_with FETCH_LINE (sp_buf t)
              then t\<lparr> sp_fetched := sp_fetched t @ [drop (length FETCH_LINE) (sp_buf t)], sp_buf := [] \<rparr> else t)
     in if max maxLine maxKept < length (sp_buf u) then u\<lparr> sp_truncated := True, sp_buf := [] \<rparr> else u)"

definition new_split :: split_state where
  "new_split = \<lparr> sp_buf = [], sp_kept = [], sp_chars = 0, sp_truncated = False, sp_fetched = [] \<rparr>"

definition finish_split :: "bool \<Rightarrow> nat \<Rightarrow> string \<Rightarrow> split_state \<Rightarrow> split_state" where
  "finish_split fetches maxKept flush s =
    (let b = sp_buf s @ flush; t = s\<lparr> sp_buf := b \<rparr> in if b \<noteq> [] then take_line fetches maxKept b t else t)"

text \<open>The text kept, and the requests seen.\<close>

definition split_result :: "nat \<Rightarrow> split_state \<Rightarrow> string \<times> string list" where
  "split_result maxKept s =
    (js_join [NL] (sp_kept s @ (if sp_truncated s then [''[edge] stdout truncated at '' @ dec maxKept @ '' characters''] else [])),
     sp_fetched s)"

definition splitFetchLines :: "bool \<Rightarrow> nat \<Rightarrow> nat \<Rightarrow> string list \<Rightarrow> string \<Rightarrow> string \<times> string list" where
  "splitFetchLines fetches maxLine maxKept chunks flush = split_result maxKept
    (finish_split fetches maxKept flush (fold (take_chunk fetches maxLine maxKept) chunks new_split))"

subsection \<open>However it is cut into chunks\<close>

text \<open>What \<open>drain\<close> leaves: every line but the last taken, the last in the buffer.\<close>

lemma take_line_buf [simp]: "take_line f k l (s\<lparr> sp_buf := b \<rparr>) = (take_line f k l s)\<lparr> sp_buf := b \<rparr>"
  by (simp add: take_line_def)

lemma js_split_first: "NL \<in> set b \<Longrightarrow>
  js_split NL b = takeWhile (\<lambda>c. c \<noteq> NL) b # js_split NL (tl (dropWhile (\<lambda>c. c \<noteq> NL) b))"
  by (induction b) (auto split: list.splits)

lemma take_lines_buf: "fold (take_line f k) ls (s\<lparr> sp_buf := b \<rparr>) = (fold (take_line f k) ls s)\<lparr> sp_buf := b \<rparr>"
  by (induction ls arbitrary: s) simp_all

lemma drain_lines:
  "drain f k s = (fold (take_line f k) (butlast (js_split NL (sp_buf s))) s)\<lparr> sp_buf := last (js_split NL (sp_buf s)) \<rparr>"
proof (induction f k s rule: drain.induct)
  case (1 f k s)
  show ?case
  proof (cases "NL \<in> set (sp_buf s)")
    case False
    then show ?thesis by (subst drain.simps) (simp add: js_split_no_sep)
  next
    case True
    then show ?thesis
      using 1 by (subst drain.simps) (simp add: js_split_first take_lines_buf)
  qed
qed

lemma split_append_lines:
  "butlast (js_split NL (a @ b)) = butlast (js_split NL a) @ butlast (js_split NL (last (js_split NL a) @ b))
   \<and> last (js_split NL (a @ b)) = last (js_split NL (last (js_split NL a) @ b))"
proof (induction a rule: length_induct)
  case (1 a)
  show ?case
  proof (cases "NL \<in> set a")
    case False
    then show ?thesis by (simp add: js_split_no_sep)
  next
    case True
    let ?r = "tl (dropWhile (\<lambda>c. c \<noteq> NL) a)"
    have ne: "dropWhile (\<lambda>c. c \<noteq> NL) a \<noteq> []" using True by (auto simp: dropWhile_eq_Nil_conv)
    have "length ?r < length a"
      using ne length_dropWhile_le [of "\<lambda>c. c \<noteq> NL" a] by (cases "dropWhile (\<lambda>c. c \<noteq> NL) a") auto
    with 1 have ih: "butlast (js_split NL (?r @ b)) = butlast (js_split NL ?r) @ butlast (js_split NL (last (js_split NL ?r) @ b))"
      "last (js_split NL (?r @ b)) = last (js_split NL (last (js_split NL ?r) @ b))" by simp_all
    have "js_split NL (a @ b) = takeWhile (\<lambda>c. c \<noteq> NL) a # js_split NL (?r @ b)"
      using True ne by (simp add: js_split_first takeWhile_append1 dropWhile_append1)
    then show ?thesis using True ih by (simp add: js_split_first)
  qed
qed

text \<open>Every line of a text is within the bound.\<close>

definition lines_within :: "nat \<Rightarrow> string \<Rightarrow> bool" where
  "lines_within n t \<longleftrightarrow> list_all (\<lambda>l. length l \<le> n) (js_split NL t)"

lemma set_last_butlast: "xs \<noteq> [] \<Longrightarrow> set xs = insert (last xs) (set (butlast xs))"
  by (induction xs) auto

lemma split_no_sep: "l \<in> set (js_split d s) \<Longrightarrow> d \<notin> set l"
  by (induction s arbitrary: l) (auto split: list.splits if_splits)

lemma split_hd: "d \<notin> set l \<Longrightarrow> hd (js_split d (l @ b)) = l @ hd (js_split d b)"
  by (induction l) (auto split: list.splits)

lemma lines_prefix:
  assumes "lines_within n (a @ b)"
  shows "lines_within n a"
proof -
  let ?l = "last (js_split NL a)"
  have ab: "js_split NL (a @ b) = butlast (js_split NL a) @ js_split NL (?l @ b)"
    using split_append_lines [of a b] append_butlast_last_id [of "js_split NL (a @ b)"]
      append_butlast_last_id [of "js_split NL (?l @ b)"] by simp
  have "NL \<notin> set ?l" using split_no_sep [of ?l NL a] by simp
  then have "hd (js_split NL (?l @ b)) = ?l @ hd (js_split NL b)" by (rule split_hd)
  moreover have "hd (js_split NL (?l @ b)) \<in> set (js_split NL (a @ b))" unfolding ab by simp
  ultimately have "length ?l \<le> n" using assms by (fastforce simp: lines_within_def list_all_iff)
  moreover have "list_all (\<lambda>l. length l \<le> n) (butlast (js_split NL a))"
    using assms unfolding lines_within_def ab by simp
  moreover have "set (js_split NL a) = insert ?l (set (butlast (js_split NL a)))"
    by (rule set_last_butlast) simp
  ultimately show ?thesis by (simp add: lines_within_def list_all_iff)
qed

lemma last_within: "lines_within n a \<Longrightarrow> length (last (js_split NL a)) \<le> n"
  by (simp add: lines_within_def list_all_iff)

lemma chunks_lines:
  "lines_within m (t @ concat chunks) \<Longrightarrow>
   fold (take_chunk f m k) chunks ((fold (take_line f k) (butlast (js_split NL t)) new_split)\<lparr> sp_buf := last (js_split NL t) \<rparr>)
   = (fold (take_line f k) (butlast (js_split NL (t @ concat chunks))) new_split)\<lparr> sp_buf := last (js_split NL (t @ concat chunks)) \<rparr>"
proof (induction chunks arbitrary: t)
  case (Cons c chunks)
  let ?s = "(fold (take_line f k) (butlast (js_split NL t)) new_split)\<lparr> sp_buf := last (js_split NL t) \<rparr>"
  have w: "lines_within m (t @ c)" using Cons.prems lines_prefix [of m "t @ c"] by simp
  have d: "drain f k (?s\<lparr> sp_buf := sp_buf ?s @ c \<rparr>)
      = (fold (take_line f k) (butlast (js_split NL (t @ c))) new_split)\<lparr> sp_buf := last (js_split NL (t @ c)) \<rparr>"
    using split_append_lines [of t c] by (simp add: drain_lines take_lines_buf)
  have "take_chunk f m k c ?s
      = (fold (take_line f k) (butlast (js_split NL (t @ c))) new_split)\<lparr> sp_buf := last (js_split NL (t @ c)) \<rparr>"
    unfolding take_chunk_def Let_def d using last_within [OF w] by simp
  then show ?case using Cons.IH [of "t @ c"] Cons.prems by simp
qed simp

text \<open>The lines of a text, a last one that is empty left out.\<close>

definition lines_of :: "string \<Rightarrow> string list" where
  "lines_of t = (let ls = js_split NL t in if last ls = [] then butlast ls else ls)"

lemma fold_finish:
  "split_result k (finish_split f k b (s\<lparr> sp_buf := l \<rparr>)) = split_result k (if l @ b = [] then s else take_line f k (l @ b) s)"
  by (auto simp: finish_split_def Let_def split_result_def take_line_def)

text \<open>How the sandbox's output is cut into chunks does not show: while no line is longer than a
request may be, what is kept and the requests handed on are those of the lines of the
whole output, taken one after the other.\<close>

theorem chunks_do_not_show:
  assumes "lines_within maxLine (concat chunks)" "NL \<notin> set flush"
  shows "splitFetchLines fetches maxLine maxKept chunks flush
    = split_result maxKept (fold (take_line fetches maxKept) (lines_of (concat chunks @ flush)) new_split)"
proof -
  let ?t = "concat chunks" and ?f = "take_line fetches maxKept"
  let ?s = "fold ?f (butlast (js_split NL ?t)) new_split" and ?l = "last (js_split NL ?t)"
  have c: "fold (take_chunk fetches maxLine maxKept) chunks new_split = ?s\<lparr> sp_buf := ?l \<rparr>"
    using chunks_lines [of maxLine "[]" chunks fetches maxKept] assms(1) by (simp add: new_split_def)
  have "NL \<notin> set ?l" using split_no_sep [of ?l NL ?t] by simp
  then have "js_split NL (?l @ flush) = [?l @ flush]" using assms(2) by (simp add: js_split_no_sep)
  then have "js_split NL (?t @ flush) = butlast (js_split NL ?t) @ [?l @ flush]"
    using split_append_lines [of ?t flush] append_butlast_last_id [of "js_split NL (?t @ flush)"] by simp
  then have "lines_of (?t @ flush) = butlast (js_split NL ?t) @ (if ?l @ flush = [] then [] else [?l @ flush])"
    by (auto simp: lines_of_def Let_def)
  then have "split_result maxKept (fold ?f (lines_of (?t @ flush)) new_split)
      = split_result maxKept (if ?l @ flush = [] then ?s else ?f (?l @ flush) ?s)" by simp
  also have "\<dots> = splitFetchLines fetches maxLine maxKept chunks flush"
    by (simp only: splitFetchLines_def c fold_finish)
  finally show ?thesis by simp
qed

theorem chunks_do_not_show_witness:
  "splitFetchLines True 20 30 [''a'', ''b'' @ [NL] @ ''FET'', ''CH {}'' @ [NL], ''c''] [] = (''ab'' @ [NL] @ ''c'', [''{}''])"
proof -
  have "lines_within 20 (concat [''a'', ''b'' @ [NL] @ ''FET'', ''CH {}'' @ [NL], ''c''])" by code_simp
  from chunks_do_not_show [OF this, of "[]" True 30]
  have "splitFetchLines True 20 30 [''a'', ''b'' @ [NL] @ ''FET'', ''CH {}'' @ [NL], ''c''] []
    = split_result 30 (fold (take_line True 30) (lines_of (concat [''a'', ''b'' @ [NL] @ ''FET'', ''CH {}'' @ [NL], ''c''] @ [])) new_split)"
    by simp
  also have "\<dots> = (''ab'' @ [NL] @ ''c'', [''{}''])" by code_simp
  finally show ?thesis .
qed

end
