(* ===== verification/Egress.thy ===== *)
theory Egress
  imports SafeFetch EgressChannel Json
begin

text \<open>
  \<open>lib/edge-functions/egress.ts\<close>: the hosts an edge function declares, the requests the
  engine makes for it, the bounds of its channel, and the splitting of its output into
  lines.
\<close>

section \<open>The declared hosts\<close>

definition label_char :: "char \<Rightarrow> bool" where
  "label_char c \<longleftrightarrow> is_digit c \<or> 97 \<le> code c \<and> code c \<le> 122 \<or> c = CHR ''-''"

definition host_label :: "string \<Rightarrow> bool" where
  "host_label l \<longleftrightarrow> l \<noteq> [] \<and> list_all label_char l \<and> hd l \<noteq> CHR ''-'' \<and> last l \<noteq> CHR ''-''"

definition host_form :: "string \<Rightarrow> bool" where
  "host_form h \<longleftrightarrow>
    list_all host_label (js_split (CHR ''.'') h)
    \<or> 3 \<le> length h \<and> hd h = CHR ''['' \<and> last h = CHR '']''
      \<and> list_all (\<lambda>c. is_lhex c \<or> c = CHR '':'' \<or> c = CHR ''.'') (butlast (tl h))"

text \<open>What \<open>/:\d{1,5}$/\<close> matches at the end: the text before it and the digits.\<close>

definition port_suffix :: "string \<Rightarrow> (string \<times> string) option" where
  "port_suffix e =
    (let ds = takeWhile is_digit (rev e); rest = drop (length ds) (rev e)
     in if 1 \<le> length ds \<and> length ds \<le> 5 \<and> rest \<noteq> [] \<and> hd rest = CHR '':'' then Some (rev (tl rest), rev ds) else None)"

definition ENTRY_RE :: "string \<Rightarrow> bool" where
  "ENTRY_RE e \<longleftrightarrow> host_form e \<or> (case port_suffix e of None \<Rightarrow> False | Some (h, ds) \<Rightarrow> host_form h)"

definition entry_host :: "string \<Rightarrow> string" where
  "entry_host e = (case port_suffix e of None \<Rightarrow> e | Some (h, ds) \<Rightarrow> h)"

datatype 'n egress_error = NotAList | NotAHost "'n json" | WrittenAs string string | NotAuthority string

fun check_entries :: "(string \<Rightarrow> url option) \<Rightarrow> 'n json list \<Rightarrow> ('n egress_error, string list) result" where
  "check_entries parse [] = Ok []"
| "check_entries parse (v # vs) =
    (case v of
       JStr e \<Rightarrow>
         if \<not> ENTRY_RE e then Throw (NotAHost v)
         else (case parse (''http://'' @ e) of
            None \<Rightarrow> Throw (NotAuthority e)
          | Some u \<Rightarrow>
             if hostname u \<noteq> entry_host e then Throw (WrittenAs e (hostname u))
             else (case check_entries parse vs of Inl x \<Rightarrow> Throw x | Inr es \<Rightarrow> Ok (e # es)))
     | _ \<Rightarrow> Throw (NotAHost v))"

text \<open>\<open>None\<close> as the result: no declaration.\<close>

definition parseEgress :: "(string \<Rightarrow> url option) \<Rightarrow> 'n json option \<Rightarrow> ('n egress_error, string list option) result" where
  "parseEgress parse egress =
    (case egress of
       None \<Rightarrow> Ok None
     | Some JNull \<Rightarrow> Ok None
     | Some (JArr vs) \<Rightarrow> (case check_entries parse vs of Inl e \<Rightarrow> Throw e | Inr es \<Rightarrow> Ok (Some es))
     | Some _ \<Rightarrow> Throw NotAList)"

definition default_port :: "url \<Rightarrow> string" where
  "default_port u = (if port u \<noteq> [] then port u else if protocol u = ''https:'' then ''443'' else ''80'')"

definition egressAllows :: "string list \<Rightarrow> url \<Rightarrow> bool" where
  "egressAllows es u \<longleftrightarrow> (protocol u = ''http:'' \<or> protocol u = ''https:'')
    \<and> list_ex (\<lambda>e. port u = [] \<and> e = hostname u \<or> e = hostname u @ '':'' @ default_port u) es"

section \<open>One request\<close>

record egress_request =
  eq_id :: int
  eq_url :: string
  eq_method :: string
  eq_headers :: headers
  eq_body :: "string option"

definition DROPPED_HEADERS :: "string list" where
  "DROPPED_HEADERS = [''host'', ''content-length'', ''connection'', ''transfer-encoding'']"

definition method_form :: "string \<Rightarrow> bool" where
  "method_form m \<longleftrightarrow> 1 \<le> length m \<and> length m \<le> 16 \<and> list_all is_letter m"

fun header_pair :: "'n json \<Rightarrow> (string \<times> string) option" where
  "header_pair (JArr (JStr k # JStr v # vs)) = Some (k, v)"
| "header_pair _ = None"

fun header_pairs :: "'n json list \<Rightarrow> headers option" where
  "header_pairs [] = Some []"
| "header_pairs (h # hs) =
    (case header_pair h of None \<Rightarrow> None | Some p \<Rightarrow> map_option (Cons p) (header_pairs hs))"

text \<open>Numbers are integers or not: \<open>Number.isInteger\<close> is \<open>as_int n \<noteq> None\<close>.\<close>

definition parseRequest ::
  "('n \<Rightarrow> int option) \<Rightarrow> (string \<Rightarrow> 'n json option) \<Rightarrow> string \<Rightarrow> egress_request option" where
  "parseRequest as_int json_parse line =
    (case json_parse line of
       None \<Rightarrow> None
     | Some r \<Rightarrow>
        (case js_member ''id'' r of
           Some (JNum n) \<Rightarrow>
             (case as_int n of
                None \<Rightarrow> None
              | Some k \<Rightarrow>
                 (case (js_member ''url'' r, js_member ''method'' r, js_member ''headers'' r, js_member ''body'' r) of
                    (Some (JStr u), Some (JStr m), Some (JArr hs), Some b) \<Rightarrow>
                      (case (header_pairs hs, b) of
                         (Some ps, JNull) \<Rightarrow>
                           if method_form m then Some \<lparr> eq_id = k, eq_url = u, eq_method = m, eq_headers = ps, eq_body = None \<rparr>
                           else Some \<lparr> eq_id = k, eq_url = [], eq_method = [], eq_headers = [], eq_body = None \<rparr>
                       | (Some ps, JStr t) \<Rightarrow>
                           if method_form m then Some \<lparr> eq_id = k, eq_url = u, eq_method = m, eq_headers = ps, eq_body = Some t \<rparr>
                           else Some \<lparr> eq_id = k, eq_url = [], eq_method = [], eq_headers = [], eq_body = None \<rparr>
                       | _ \<Rightarrow> Some \<lparr> eq_id = k, eq_url = [], eq_method = [], eq_headers = [], eq_body = None \<rparr>)
                  | _ \<Rightarrow> Some \<lparr> eq_id = k, eq_url = [], eq_method = [], eq_headers = [], eq_body = None \<rparr>))
         | _ \<Rightarrow> None))"

text \<open>The size read so far is \<open>got\<close>; \<open>None\<close> once it is past the cap.\<close>

fun readCapped :: "nat \<Rightarrow> nat \<Rightarrow> string list \<Rightarrow> string option" where
  "readCapped got cap [] = Some []"
| "readCapped got cap (c # cs) =
    (if cap < got + length c then None else map_option ((@) c) (readCapped (got + length c) cap cs))"

datatype egress_failure =
    MalformedRequest
  | BodyTooLarge
  | ResponseTooLarge
  | FetchError fetch_error
  | TooManyRequests

datatype egress_answer = Answered int nat string bool string | Failed int egress_failure

text \<open>\<open>from_base64\<close> decodes a body; the URL of an answered response is always defined here.\<close>

definition performEgress ::
  "web \<Rightarrow> (string \<Rightarrow> string) \<Rightarrow> egress_request \<Rightarrow> string list \<Rightarrow> bool \<Rightarrow> sent list \<times> egress_answer" where
  "performEgress w from_base64 req es pinThroughProxy =
    (if eq_method req = [] then ([], Failed (eq_id req) MalformedRequest)
     else (let headers = new_headers (filter (\<lambda>h. js_lower (fst h) \<notin> set DROPPED_HEADERS) (eq_headers req));
               bytes = map_option from_base64 (eq_body req) in
       if (case bytes of None \<Rightarrow> False | Some b \<Rightarrow> requestBytes < length b) then ([], Failed (eq_id req) BodyTooLarge)
       else (case safeFetch w (egressAllows es) pinThroughProxy (ByUrl (eq_url req))
                (Some \<lparr> ri_method = Some (eq_method req), ri_headers = headers, ri_body = bytes, ri_redirect = None,
                   ri_serverName = None, ri_proxy = False, gi_headers = True, gi_body = True \<rparr>) of
            (log, Inl e) \<Rightarrow> (log, Failed (eq_id req) (FetchError e))
          | (log, Inr res) \<Rightarrow>
             (case readCapped 0 responseBytes (rs_chunks (an_response res)) of
                None \<Rightarrow> (log, Failed (eq_id req) ResponseTooLarge)
              | Some data \<Rightarrow> (log, Answered (eq_id req) (rs_status (an_response res))
                  (case an_url res of None \<Rightarrow> [] | Some u \<Rightarrow> u) (an_redirected res) data)))))"

lemma readCapped_bound: "readCapped got cap cs = Some data \<Longrightarrow> got \<le> cap \<Longrightarrow> data = concat cs \<and> got + length data \<le> cap"
  by (induction got cap cs arbitrary: data rule: readCapped.induct) (auto split: if_splits)

lemma given_headers [simp]:
  "ri_headers (request_init.truncate (\<lparr> ri_method = a, ri_headers = hs, ri_body = b, ri_redirect = r, ri_serverName = n,
     ri_proxy = p, gi_headers = g, gi_body = c \<rparr> :: given_init)) = hs"
  by (simp add: request_init.defs)

section \<open>What reaches the network\<close>

lemma performed_log:
  assumes "performEgress w from_base64 req es ptp = (log, a)" "log \<noteq> []"
  obtains i mode res where "safe_hop w (egressAllows es) ptp (eq_url req) i mode 0 = (log, res)"
    "\<not> ri_proxy i" "header_names (ri_headers i) = header_names (eq_headers req) - set DROPPED_HEADERS"
proof -
  define headers where "headers = new_headers (filter (\<lambda>h. js_lower (fst h) \<notin> set DROPPED_HEADERS) (eq_headers req))"
  define g where "g = \<lparr> ri_method = Some (eq_method req), ri_headers = headers, ri_body = map_option from_base64 (eq_body req),
    ri_redirect = None, ri_serverName = None, ri_proxy = False, gi_headers = True, gi_body = True \<rparr>"
  obtain log' res where s: "safeFetch w (egressAllows es) ptp (ByUrl (eq_url req)) (Some g) = (log', res)"
    by (cases "safeFetch w (egressAllows es) ptp (ByUrl (eq_url req)) (Some g)")
  have "log = log'"
    using assms s by (auto simp: performEgress_def Let_def headers_def [symmetric] g_def [symmetric]
      split: if_splits sum.splits option.splits)
  moreover have "header_names headers = header_names (eq_headers req) - set DROPPED_HEADERS"
    by (force simp: headers_def header_names_def new_headers_def)
  ultimately show thesis
    using s that [of _ _ res] by (auto simp: safeFetch_def g_def request_init.defs)
qed

lemma hops_names:
  "safe_hop w allowUrl ptp href i mode hops = (log, res) \<Longrightarrow> m \<in> set log \<Longrightarrow> k \<in> header_names (ri_headers (st_init m))
    \<Longrightarrow> k = ''host'' \<or> k \<in> header_names (ri_headers i)"
  using never_regained by blast

text \<open>C20. Every request the engine makes for an edge function, on every redirect hop, is to a host and
port the function's list names, through the SSRF guard, and carries none of the headers the
engine sets itself save the Host it pins; a function that lists nothing reaches nothing,
and no more than six requests come of one.\<close>

theorem egress_stays_on_the_list:
  assumes "performEgress w from_base64 req es False = (log, a)" "\<not> wb_proxy w"
  shows "length log \<le> 6 \<and> (\<forall>m \<in> set log. \<exists>u. wb_parse w (st_url m) = Some u
      \<and> (\<exists>e \<in> set es. e = hostname u \<and> port u = [] \<or> e = hostname u @ '':'' @ default_port u)
      \<and> \<not> isBlockedHost (js_lower (hostname u)) \<and> connects_safely w False u m
      \<and> header_names (ri_headers (st_init m)) \<inter> set DROPPED_HEADERS \<subseteq> {''host''})"
proof (cases "log = []")
  case False
  from performed_log [OF assms(1) this] obtain i mode res where
    s: "safe_hop w (egressAllows es) False (eq_url req) i mode 0 = (log, res)"
    and h: "header_names (ri_headers i) = header_names (eq_headers req) - set DROPPED_HEADERS" by metis
  have "\<exists>u. wb_parse w (st_url m) = Some u
      \<and> (\<exists>e \<in> set es. e = hostname u \<and> port u = [] \<or> e = hostname u @ '':'' @ default_port u)
      \<and> \<not> isBlockedHost (js_lower (hostname u)) \<and> connects_safely w False u m
      \<and> header_names (ri_headers (st_init m)) \<inter> set DROPPED_HEADERS \<subseteq> {''host''}" if m: "m \<in> set log" for m
  proof -
    obtain u where u: "wb_parse w (st_url m) = Some u" "egressAllows es u"
      "\<not> isBlockedHost (js_lower (hostname u))" "connects_safely w False u m"
      using hops_safe [OF s] m by blast
    moreover have "\<exists>e \<in> set es. e = hostname u \<and> port u = [] \<or> e = hostname u @ '':'' @ default_port u"
      using u(2) by (auto simp: egressAllows_def list_ex_iff)
    moreover have "header_names (ri_headers (st_init m)) \<inter> set DROPPED_HEADERS \<subseteq> {''host''}"
      using hops_names [OF s m] h by blast
    ultimately show ?thesis by blast
  qed
  then show ?thesis using hops_safe [OF s] by simp
qed simp

definition demo_egress :: egress_request where
  "demo_egress = \<lparr> eq_id = 1, eq_url = ''https://a.example/x'', eq_method = ''GET'',
     eq_headers = [(''Connection'', ''close''), (''X-A'', ''1'')], eq_body = None \<rparr>"

definition demo_egress_init :: given_init where
  "demo_egress_init = \<lparr> ri_method = Some ''GET'', ri_headers = [(''x-a'', ''1'')], ri_body = None, ri_redirect = None,
     ri_serverName = None, ri_proxy = False, gi_headers = True, gi_body = True \<rparr>"

definition demo_egress_run :: "sent list \<times> (fetch_error, answered) result" where
  "demo_egress_run = safeFetch demo_web (egressAllows [''a.example'']) False (ByUrl ''https://a.example/x'') (Some demo_egress_init)"

lemma demo_egress_run: "length (fst demo_egress_run) = 2" "snd demo_egress_run = Throw (Refused ''b.example'')"
  by code_simp+

lemma demo_egress_performed:
  "performEgress demo_web (\<lambda>b. b) demo_egress [''a.example''] False
   = (fst demo_egress_run, Failed 1 (FetchError (Refused ''b.example'')))"
proof -
  have h: "new_headers (filter (\<lambda>h. js_lower (fst h) \<notin> set DROPPED_HEADERS) (eq_headers demo_egress)) = [(''x-a'', ''1'')]"
    by code_simp
  have r: "safeFetch demo_web (egressAllows [''a.example'']) False (ByUrl ''https://a.example/x'') (Some demo_egress_init)
      = (fst demo_egress_run, Throw (Refused ''b.example''))"
    by (metis demo_egress_run(2) demo_egress_run_def prod.collapse)
  show ?thesis
    unfolding performEgress_def h by (simp add: demo_egress_def r [unfolded demo_egress_init_def])
qed

theorem egress_stays_on_the_list_witness:
  "let (log, a) = performEgress demo_web (\<lambda>b. b) demo_egress [''a.example''] False
   in length log = 2 \<and> a = Failed 1 (FetchError (Refused ''b.example''))
    \<and> header_names (ri_headers (st_init (log ! 0))) \<inter> set DROPPED_HEADERS \<subseteq> {''host''}"
proof -
  have "\<not> wb_proxy demo_web" by (simp add: demo_web_def)
  from egress_stays_on_the_list [OF demo_egress_performed this] have
    "\<forall>m \<in> set (fst demo_egress_run). header_names (ri_headers (st_init m)) \<inter> set DROPPED_HEADERS \<subseteq> {''host''}" by blast
  moreover have "fst demo_egress_run ! 0 \<in> set (fst demo_egress_run)" by (intro nth_mem) (simp add: demo_egress_run)
  ultimately show ?thesis by (simp add: demo_egress_performed demo_egress_run Let_def)
qed

text \<open>
  The list is meant to refuse an entry the URL parser would rewrite, but a port with a
  leading zero keeps the hostname and passes, and no URL the parser prints has it.
\<close>

lemma zero_port_accepted:
  assumes "parse ''http://api.example:0443'' = Some u" "hostname u = ''api.example''"
  shows "parseEgress parse (Some (JArr [JStr ''api.example:0443''])) = Ok (Some [''api.example:0443''])"
proof -
  have "ENTRY_RE ''api.example:0443''" "entry_host ''api.example:0443'' = ''api.example''" by code_simp+
  with assms show ?thesis by (simp add: parseEgress_def)
qed

lemma zero_port_never_allowed:
  assumes "port u \<noteq> [] \<Longrightarrow> hd (port u) \<noteq> CHR ''0''" "CHR '':'' \<notin> set (hostname u)"
  shows "\<not> egressAllows [''api.example:0443''] u"
proof
  have "''api.example:0443'' \<noteq> hostname u"
  proof
    assume h: "''api.example:0443'' = hostname u"
    have "CHR '':'' \<in> set (hostname u)" unfolding h [symmetric] by simp
    with assms(2) show False by simp
  qed
  moreover assume "egressAllows [''api.example:0443''] u"
  ultimately have "''api.example:0443'' = hostname u @ '':'' @ default_port u"
    by (auto simp: egressAllows_def)
  then have "''api.example'' @ CHR '':'' # ''0443'' = hostname u @ CHR '':'' # default_port u" by simp
  then have "default_port u = ''0443''"
    using append_Cons_eq_iff [of "CHR '':''" "''api.example''" "''0443''" "hostname u" "default_port u"] assms(2)
    by (simp del: append.simps)
  then show False using assms(1) by (auto simp: default_port_def split: if_splits)
qed

end
