(* ===== verification/SchemaFiles.thy ===== *)
theory SchemaFiles
  imports Json "HOL-Library.List_Lexorder" "HOL-Library.Product_Lexorder"
begin

text \<open>
  Schema files (\<open>lib/schema-artifact/export.ts\<close>, \<open>plan.ts\<close>): the canonical form two files
  are compared in, and the reading of a file set with every refusal.

  A number is the text it prints as.  A property that is \<open>null\<close> and one that is missing
  are one, \<open>JNull\<close>: the code reads every key that way.
\<close>

type_synonym jval = "string json"

fun pget :: "jval \<Rightarrow> string \<Rightarrow> jval" where
  "pget (JObj ms) k = (case map_of ms k of None \<Rightarrow> JNull | Some v \<Rightarrow> v)"
| "pget _ k = JNull"

fun set_member :: "string \<Rightarrow> 'a \<Rightarrow> (string \<times> 'a) list \<Rightarrow> (string \<times> 'a) list" where
  "set_member k v [] = [(k, v)]"
| "set_member k v ((l, w) # ms) = (if l = k then (k, v) # ms else (l, w) # set_member k v ms)"

fun pset :: "string \<Rightarrow> jval \<Rightarrow> jval \<Rightarrow> jval" where
  "pset k v (JObj ms) = JObj (set_member k v ms)"
| "pset k v x = x"

fun text_of :: "jval \<Rightarrow> string" where
  "text_of (JStr s) = s"
| "text_of _ = []"

definition keys_of :: "jval \<Rightarrow> string list" where
  "keys_of v = map fst (js_entries v)"

text \<open>\<open>String(v)\<close> of a member; an object prints as itself in no file that is used.\<close>

fun js_string :: "jval \<Rightarrow> string" where
  "js_string (JStr s) = s"
| "js_string (JNum n) = n"
| "js_string (JBool b) = (if b then ''true'' else ''false'')"
| "js_string JNull = ''undefined''"
| "js_string (JObj ms) = ''[object Object]''"
| "js_string (JArr vs) = js_join '','' (map (\<lambda>v. if v = JNull then [] else js_string v) vs)"

lemma prop_set_member: "map_of (set_member k v ms) l = (if l = k then Some v else map_of ms l)"
  by (induction ms) auto

lemma set_member_keys [simp]: "fst ` set (set_member k v ms) = insert k (fst ` set ms)"
  by (induction k v ms rule: set_member.induct) (simp_all add: insert_commute)

lemma distinct_set_member [simp]: "distinct (map fst ms) \<Longrightarrow> distinct (map fst (set_member k v ms))"
  by (induction k v ms rule: set_member.induct) (simp; blast?)+

lemma prop_set [simp]: "pget (pset k v (JObj ms)) l = (if l = k then v else pget (JObj ms) l)"
  by (simp add: prop_set_member)

section \<open>The canonical form\<close>

definition LEADING_KEYS :: "string list" where
  "LEADING_KEYS = [''$schema'', ''name'']"

definition key_order :: "string \<Rightarrow> nat \<times> nat list" where
  "key_order k =
    (if k = ''$schema'' then (0, []) else if k = ''name'' then (1, []) else (99, map code k))"

primrec normalize :: "jval \<Rightarrow> jval" where
  "normalize JNull = JNull"
| "normalize (JBool b) = JBool b"
| "normalize (JNum n) = JNum n"
| "normalize (JStr s) = JStr s"
| "normalize (JArr vs) = JArr (map normalize vs)"
| "normalize (JObj ms) = JObj (sort_key (\<lambda>m. key_order (fst m))
     (filter (\<lambda>m. snd m \<noteq> JNull) (map (map_prod id normalize) ms)))"

text \<open>
  \<open>serialize\<close> writes the normal form with two spaces of indent, and two normal forms have
  one text only when they are equal.
\<close>

definition same :: "jval \<Rightarrow> jval \<Rightarrow> bool" where
  "same a b \<longleftrightarrow> normalize a = normalize b"

lemma same_refl [simp]: "same a a"
  by (simp add: same_def)

definition FALSE_DEFAULT_FLAGS :: "string list" where
  "FALSE_DEFAULT_FLAGS = [''required'', ''unique'', ''indexed'', ''encrypted'']"

fun exportField :: "jval \<Rightarrow> jval" where
  "exportField (JObj ms) = JObj (filter (\<lambda>(k, v). \<not> (k \<in> set FALSE_DEFAULT_FLAGS \<and> v = JBool False)) ms)"
| "exportField v = v"

section \<open>What is given\<close>

text \<open>
  \<open>JSON.parse\<close>, \<open>JSON.stringify\<close> of a normal form, SHA-256 over it, and the default grants of
  \<open>permissions.ts\<close>, which depend on the extensions installed.
\<close>

record schema_env =
  se_parse :: "string \<Rightarrow> jval option"
  se_text :: "jval \<Rightarrow> string"
  se_sha :: "jval \<Rightarrow> string"
  se_default :: "string \<Rightarrow> string \<Rightarrow> string \<Rightarrow> bool"
  se_default_role :: "string \<Rightarrow> bool"

definition serialize :: "schema_env \<Rightarrow> jval \<Rightarrow> string" where
  "serialize E v = se_text E (normalize v)"

definition memberKey :: "schema_env \<Rightarrow> jval \<Rightarrow> string" where
  "memberKey E m = js_string (pget m ''rule'') @ '' '' @ js_trim (serialize E (pget m ''config''))"

text \<open>A refusal, or the \<open>TypeError\<close> of code that did not expect the value.\<close>

datatype schema_error =
    SchemaFileError string string
  | SchemaTypeError string

text \<open>A check for each element, the first refusal first.\<close>

fun check_all :: "('a \<Rightarrow> ('e, unit) result) \<Rightarrow> 'a list \<Rightarrow> ('e, unit) result" where
  "check_all f [] = Ok ()"
| "check_all f (x # xs) = (case f x of Inl e \<Rightarrow> Throw e | Inr u \<Rightarrow> check_all f xs)"

definition refuse_if :: "bool \<Rightarrow> string \<Rightarrow> string \<Rightarrow> (schema_error, unit) result" where
  "refuse_if b path why = (if b then Throw (SchemaFileError path why) else Ok ())"

definition then_check :: "('e, unit) result \<Rightarrow> ('e, unit) result \<Rightarrow> ('e, unit) result" where
  "then_check a b = (case a of Inl e \<Rightarrow> Throw e | Inr u \<Rightarrow> b)"

fun is_object :: "jval \<Rightarrow> bool" where
  "is_object (JObj ms) = True"
| "is_object (JArr vs) = True"
| "is_object _ = False"

text \<open>\<open>list(path, value, key)\<close>: what it returns, and whether it throws.\<close>

fun entries_of :: "jval \<Rightarrow> jval list" where
  "entries_of (JArr vs) = vs"
| "entries_of _ = []"

fun is_list :: "jval \<Rightarrow> bool" where
  "is_list JNull = True"
| "is_list (JArr vs) = list_all is_object vs"
| "is_list _ = False"

definition check_list :: "string \<Rightarrow> jval \<Rightarrow> string \<Rightarrow> (schema_error, unit) result" where
  "check_list path v key = refuse_if (\<not> is_list v) path (key @ '' must be an array of objects'')"

section \<open>Reading a file set\<close>

datatype migration_op =
    RenameField string string string
  | ChangeFieldType string string string
  | DropFieldOp string string
  | DropCollectionOp string
  | DropRoleOp string

definition MIGRATION_OPS :: "string \<Rightarrow> string list option" where
  "MIGRATION_OPS n =
    (if n = ''renameField'' then Some [''collection'', ''from'', ''to'']
     else if n = ''changeFieldType'' then Some [''collection'', ''field'', ''to'']
     else if n = ''dropField'' then Some [''collection'', ''field'']
     else if n = ''dropCollection'' then Some [''collection'']
     else if n = ''dropRole'' then Some [''role''] else None)"

definition op_of :: "jval \<Rightarrow> migration_op" where
  "op_of v =
    (let t = (\<lambda>k. text_of (pget v k)); n = js_string (pget v ''op'') in
     if n = ''renameField'' then RenameField (t ''collection'') (t ''from'') (t ''to'')
     else if n = ''changeFieldType'' then ChangeFieldType (t ''collection'') (t ''field'') (t ''to'')
     else if n = ''dropField'' then DropFieldOp (t ''collection'') (t ''field'')
     else if n = ''dropCollection'' then DropCollectionOp (t ''collection'')
     else DropRoleOp (t ''role''))"

text \<open>\<open>/^\d{8}T\d{6}(-[a-z0-9-]+)?$/\<close>\<close>

definition MIGRATION_ID :: "string \<Rightarrow> bool" where
  "MIGRATION_ID s \<longleftrightarrow> 15 \<le> length s \<and> list_all is_digit (take 8 s) \<and> s ! 8 = CHR ''T'' \<and> list_all is_digit (take 6 (drop 9 s))
    \<and> (let r = drop 15 s in r = [] \<or> 2 \<le> length r \<and> hd r = CHR ''-''
        \<and> list_all (\<lambda>c. is_digit c \<or> 97 \<le> code c \<and> code c \<le> 122 \<or> c = CHR ''-'') (tl r))"

fun nonempty_text :: "jval \<Rightarrow> bool" where
  "nonempty_text (JStr s) = (s \<noteq> [])"
| "nonempty_text _ = False"

text \<open>
  The table is an object, so a name every object inherits finds a function there, and the
  next line of \<open>readMigration\<close> throws a \<open>TypeError\<close>.
\<close>

definition check_op :: "string \<Rightarrow> jval \<Rightarrow> (schema_error, unit) result" where
  "check_op path v =
    (if pget v ''op'' = JStr ''renameCollection'' then Throw (SchemaFileError path ''renameCollection is not supported yet'')
     else if js_string (pget v ''op'') \<in> set inherited then Throw (SchemaTypeError path)
     else (case MIGRATION_OPS (js_string (pget v ''op'')) of
        None \<Rightarrow> Throw (SchemaFileError path ''unknown op'')
      | Some ks \<Rightarrow> then_check
          (refuse_if (\<exists>k \<in> set (keys_of v). k \<noteq> ''op'' \<and> k \<notin> set ks) path ''has unknown key'')
          (check_all (\<lambda>k. refuse_if (\<not> nonempty_text (pget v k)) path (''needs '' @ k)) ks)))"

definition readMigration :: "schema_env \<Rightarrow> string \<Rightarrow> string \<Rightarrow> jval \<Rightarrow> (schema_error, string \<times> migration_op list) result" where
  "readMigration E path name file =
    (case then_check (refuse_if (\<not> MIGRATION_ID name) path ''a migration id is a timestamp'')
       (then_check (refuse_if (pget file ''id'' \<noteq> JStr name) path ''id does not match the file name'')
       (then_check (check_list path (pget file ''ops'') ''ops'')
       (then_check (refuse_if (entries_of (pget file ''ops'') = []) path ''ops is empty'')
         (check_all (check_op path) (entries_of (pget file ''ops'')))))) of
       Inl e \<Rightarrow> Throw e
     | Inr u \<Rightarrow> Ok (se_sha E (normalize file), map op_of (entries_of (pget file ''ops''))))"

definition index_fields :: "jval \<Rightarrow> jval list" where
  "index_fields ix = entries_of (pget ix ''fields'')"

definition index_key :: "jval \<Rightarrow> string" where
  "index_key ix = js_join '', '' (map js_string (index_fields ix))"

definition check_index :: "string \<Rightarrow> string list \<Rightarrow> jval \<Rightarrow> (schema_error, unit) result" where
  "check_index path cols ix =
    then_check (refuse_if (\<exists>k \<in> set (keys_of ix). k \<noteq> ''fields'' \<and> k \<noteq> ''unique'') path ''index has unknown key'')
    (then_check (refuse_if (length (index_fields ix) < 2 \<or> \<not> distinct (index_fields ix)
        \<or> \<not> list_all (\<lambda>n. case n of JStr s \<Rightarrow> s \<in> set cols | _ \<Rightarrow> False) (index_fields ix)) path ''an index names two or more distinct fields'')
     (refuse_if (pget ix ''unique'' \<noteq> JBool True) path ''index must be unique''))"

fun check_indexes :: "string \<Rightarrow> string list \<Rightarrow> string list \<Rightarrow> jval list \<Rightarrow> (schema_error, unit) result" where
  "check_indexes path cols seen [] = Ok ()"
| "check_indexes path cols seen (ix # ixs) = then_check (check_index path cols ix)
    (then_check (refuse_if (index_key ix \<in> set seen) path ''index twice'')
      (check_indexes path cols (index_key ix # seen) ixs))"

definition checkIndexes :: "string \<Rightarrow> jval \<Rightarrow> string list \<Rightarrow> (schema_error, unit) result" where
  "checkIndexes path file cols = check_indexes path cols [] (entries_of (pget file ''indexes''))"

definition rule_key :: "schema_env \<Rightarrow> jval \<Rightarrow> jval \<Rightarrow> string" where
  "rule_key E field m = js_string field @ '' '' @ memberKey E m"

fun check_groups :: "schema_env \<Rightarrow> string \<Rightarrow> string list \<Rightarrow> string list \<Rightarrow> jval list \<Rightarrow> (schema_error, unit) result" where
  "check_groups E path rules seen [] = Ok ()"
| "check_groups E path rules seen (g # gs) =
    then_check (refuse_if (\<not> nonempty_text (pget g ''name'') \<or> \<not> nonempty_text (pget g ''field''))
      path ''every validation group needs a name and a field'')
    (then_check (refuse_if (text_of (pget g ''name'') \<in> set seen) path ''validation group twice'')
    (then_check (refuse_if (pget g ''logic'' \<notin> {JNull, JStr ''AND'', JStr ''OR''}) path ''logic must be AND or OR'')
    (then_check (check_list path (pget g ''rules'') ''rules'')
    (then_check (check_all (\<lambda>m. refuse_if (rule_key E (pget g ''field'') m \<notin> set rules) path ''names a rule no validation entry is'')
        (entries_of (pget g ''rules'')))
      (check_groups E path rules (text_of (pget g ''name'') # seen) gs)))))"

definition checkGroups :: "schema_env \<Rightarrow> string \<Rightarrow> jval \<Rightarrow> (schema_error, unit) result" where
  "checkGroups E path file = check_groups E path
    (map (\<lambda>v. rule_key E (pget v ''field'') v) (entries_of (pget file ''validation''))) []
    (entries_of (pget file ''validationGroups''))"

text \<open>A file set as read: its maps, in the order of the files.\<close>

record parsed =
  pd_collections :: "(string \<times> jval) list"
  pd_roles :: "(string \<times> jval) list"
  pd_migrations :: "(string \<times> string \<times> migration_op list) list"

definition SCHEMA_FORMAT :: jval where "SCHEMA_FORMAT = JNum ''3''"

definition LIST_KEYS :: "string list" where
  "LIST_KEYS = [''indexes'', ''relations'', ''rowRules'', ''columnPermissions'', ''validation'', ''validationGroups'']"

text \<open>The settings of a collection, in the order \<open>COLLECTION_KEYS\<close> sorts to.\<close>

definition SETTING_KEYS :: "string list" where
  "SETTING_KEYS = [''aiEmbedExcludedFields'', ''aiSearchEnabled'', ''aiSearchField'', ''defaultGrants'', ''description'',
     ''displayName'', ''icon'', ''isPermissioned'', ''routeGroup'', ''schemaLocked'', ''singularName'', ''sort'',
     ''sourceType'', ''virtualConfig'', ''writtenBy'']"

definition COLLECTION_KEYS :: "string list" where
  "COLLECTION_KEYS = ''$schema'' # ''name'' # ''fields'' # SETTING_KEYS @ LIST_KEYS"

text \<open>\<open>parse(path, content)\<close>\<close>

definition parse_file :: "schema_env \<Rightarrow> string \<Rightarrow> jval \<Rightarrow> (schema_error, jval) result" where
  "parse_file E path content =
    (case content of
       JStr t \<Rightarrow>
         (case se_parse E t of
            None \<Rightarrow> Throw (SchemaFileError path ''is not JSON'')
          | Some (JObj ms) \<Rightarrow> Ok (JObj ms)
          | Some _ \<Rightarrow> Throw (SchemaFileError path ''must be a JSON object''))
     | _ \<Rightarrow> Throw (SchemaFileError path ''content must be a string''))"

definition check_revoked :: "schema_env \<Rightarrow> string \<Rightarrow> string \<Rightarrow> jval \<Rightarrow> (schema_error, unit) result" where
  "check_revoked E path name p =
    (let actions = entries_of (pget p ''actions'') in
     then_check (refuse_if (\<not> nonempty_text (pget p ''resource'') \<or> actions = []) path ''revokedDefaults needs a resource and its actions'')
       (check_all (\<lambda>a. case a of
            JStr s \<Rightarrow> refuse_if (\<not> se_default E name (text_of (pget p ''resource'')) s) path ''is not a default grant''
          | _ \<Rightarrow> Throw (SchemaFileError path ''is not a default grant'')) actions))"

fun read_roles :: "schema_env \<Rightarrow> string \<Rightarrow> jval list \<Rightarrow> parsed \<Rightarrow> (schema_error, parsed) result" where
  "read_roles E path [] p = Ok p"
| "read_roles E path (r # rs) p =
    (let name = text_of (pget r ''name'') in
     case then_check (refuse_if (\<not> nonempty_text (pget r ''name'')) path ''every role needs a name'')
       (then_check (refuse_if (map_of (pd_roles p) name \<noteq> None) path ''role twice'')
       (then_check (check_list path (pget r ''permissions'') ''permissions'')
       (then_check (check_list path (pget r ''revokedDefaults'') ''revokedDefaults'')
         (check_all (check_revoked E path name) (entries_of (pget r ''revokedDefaults'')))))) of
       Inl e \<Rightarrow> Throw e
     | Inr u \<Rightarrow> read_roles E path rs (p\<lparr> pd_roles := pd_roles p @ [(name, r)] \<rparr>))"

fun check_fields :: "string \<Rightarrow> string list \<Rightarrow> jval list \<Rightarrow> (schema_error, unit) result" where
  "check_fields path seen [] = Ok ()"
| "check_fields path seen (f # fs) =
    then_check (refuse_if (\<not> nonempty_text (pget f ''name'') \<or> (case pget f ''type'' of JStr t \<Rightarrow> False | _ \<Rightarrow> True))
      path ''every field needs a name and a type'')
    (then_check (refuse_if (text_of (pget f ''name'') \<in> set seen) path ''field twice'')
      (check_fields path (text_of (pget f ''name'') # seen) fs))"

definition read_collection :: "schema_env \<Rightarrow> string \<Rightarrow> string \<Rightarrow> jval \<Rightarrow> parsed \<Rightarrow> (schema_error, parsed) result" where
  "read_collection E path name file p =
    (let cols = entries_of (pget file ''fields'') in
     case then_check (refuse_if (pget file ''name'' \<noteq> JStr name) path ''name does not match the file name'')
       (then_check (refuse_if (\<exists>k \<in> set (keys_of file). k \<notin> set COLLECTION_KEYS) path ''unknown key'')
       (then_check (check_list path (pget file ''fields'') ''fields'')
       (then_check (check_fields path [] cols)
       (then_check (check_all (\<lambda>k. check_list path (pget file k) k) LIST_KEYS)
       (then_check (checkIndexes path file (map (\<lambda>f. text_of (pget f ''name'')) cols))
         (checkGroups E path file)))))) of
       Inl e \<Rightarrow> Throw e
     | Inr u \<Rightarrow> Ok (p\<lparr> pd_collections := pd_collections p @ [(name, file)] \<rparr>))"

text \<open>\<open>/^<dir>\/([^/]+)\.json$/\<close>\<close>

definition name_in :: "string \<Rightarrow> string \<Rightarrow> string option" where
  "name_in dir path =
    (if starts_with dir path \<and> ends_with ''.json'' (drop (length dir) path)
     then (let n = take (length path - length dir - 5) (drop (length dir) path) in
           if n \<noteq> [] \<and> CHR ''/'' \<notin> set n then Some n else None)
     else None)"

definition read_file :: "schema_env \<Rightarrow> string \<Rightarrow> jval \<Rightarrow> parsed \<Rightarrow> (schema_error, parsed) result" where
  "read_file E path file p =
    (if path = ''zveltio-schema.json'' then
       (if pget file ''format'' = SCHEMA_FORMAT then Ok p else Throw (SchemaFileError path ''format is not supported''))
     else if path = ''roles.json'' then
       (case check_list path (pget file ''roles'') ''roles'' of
          Inl e \<Rightarrow> Throw e | Inr u \<Rightarrow> read_roles E path (entries_of (pget file ''roles'')) p)
     else if starts_with ''migrations/'' path then
       (case name_in ''migrations/'' path of
          None \<Rightarrow> Throw (SchemaFileError path ''not a schema file'')
        | Some n \<Rightarrow> (case readMigration E path n file of
             Inl e \<Rightarrow> Throw e | Inr m \<Rightarrow> Ok (p\<lparr> pd_migrations := pd_migrations p @ [(n, m)] \<rparr>)))
     else
       (case name_in ''collections/'' path of
          None \<Rightarrow> Throw (SchemaFileError path ''not a schema file'')
        | Some n \<Rightarrow> read_collection E path n file p))"

fun read_files :: "schema_env \<Rightarrow> (string \<times> jval) list \<Rightarrow> parsed \<Rightarrow> (schema_error, parsed) result" where
  "read_files E [] p = Ok p"
| "read_files E ((path, content) # fs) p =
    (case parse_file E path content of
       Inl e \<Rightarrow> Throw e
     | Inr file \<Rightarrow> (case read_file E path file p of Inl e \<Rightarrow> Throw e | Inr q \<Rightarrow> read_files E fs q))"

definition read_set :: "schema_env \<Rightarrow> jval \<Rightarrow> (schema_error, parsed) result" where
  "read_set E files =
    (case files of
       JObj fs \<Rightarrow>
         (if \<not> list_all (\<lambda>r. r \<in> set (map fst fs)) [''zveltio-schema.json'', ''roles.json'']
          then Throw (SchemaFileError [] ''a required file is missing'')
          else read_files E fs \<lparr> pd_collections = [], pd_roles = [], pd_migrations = [] \<rparr>)
     | _ \<Rightarrow> Throw (SchemaFileError [] ''files must be an object of path and content''))"

end
