(* ===== verification/SchemaPlan.thy ===== *)
theory SchemaPlan
  imports SchemaFiles
begin

text \<open>
  \<open>lib/schema-artifact/plan.ts\<close>: the steps that make an instance match a file set, pending
  migrations first.  An action is a constructor where the source writes it in words.
\<close>

section \<open>Steps\<close>

datatype entry_list = Indexes | Relations | RowRules | ColumnPermissions | Validation | ValidationGroups

datatype action =
    SetKey string
  | DropField string
  | AddField string
  | ChangeType string
  | AlterField string "string list"
  | ReorderFields "string list"
  | RemoveEntry entry_list string
  | AddEntry entry_list string
  | AlterEntry entry_list string
  | DropCollection
  | CreateCollection nat
  | RemoveRole
  | CreateRole
  | SetDescription
  | Revoke string string
  | Grant string string
  | RevokeDefault string string
  | RestoreDefault string string
  | Migrated migration_op

datatype apply_op =
    OpCreateCollection jval
  | OpAddField string jval
  | OpSetCollection string string jval
  | OpReorderFields string "string list"
  | OpAlterField string jval "string list"
  | OpIntoSecret string string
  | OpPutRelation string jval "jval option" "jval option"
  | OpPutEntry string entry_list jval
  | OpRemoveEntry string entry_list jval
  | OpCreateRole string "string option"
  | OpSetRole string "string option"
  | OpGrant string string string
  | OpRevoke string string string
  | OpRevokeDefault string string string
  | OpMigration string string bool migration_op

datatype change = Plus | Minus | Tilde

record plan_step =
  ps_change :: change
  ps_target :: string
  ps_action :: action
  ps_destructive :: bool
  ps_op :: "apply_op option"

definition mk_step :: "change \<Rightarrow> string \<Rightarrow> action \<Rightarrow> bool \<Rightarrow> apply_op option \<Rightarrow> plan_step" where
  "mk_step c t a d p = \<lparr> ps_change = c, ps_target = t, ps_action = a, ps_destructive = d, ps_op = p \<rparr>"

definition ALTERABLE :: "string list" where
  "ALTERABLE = [''required'', ''label'', ''description'', ''options'', ''unique'', ''indexed'', ''defaultValue'', ''writtenBy'']"

definition INTO_SECRET_FROM :: "string list" where
  "INTO_SECRET_FROM = [''text'', ''textarea'', ''longtext'', ''richtext'', ''email'', ''url'']"

definition NOT_ON_RELATION :: "string list" where
  "NOT_ON_RELATION = [''options'', ''unique'', ''indexed'', ''defaultValue'']"

definition RELATION_PATCHABLE :: "string list" where
  "RELATION_PATCHABLE = [''onDelete'', ''onUpdate'', ''metadata'']"

definition RELATION_TYPES :: "string list" where
  "RELATION_TYPES = [''m2o'', ''reference'', ''o2m'', ''m2m'', ''m2a'']"

definition CREATE_KEYS :: "string list" where
  "CREATE_KEYS = [''name'', ''displayName'', ''singularName'', ''description'', ''icon'', ''routeGroup'', ''isPermissioned'',
     ''sort'', ''schemaLocked'', ''aiSearchEnabled'', ''aiSearchField'', ''defaultGrants'', ''writtenBy'', ''fields'']"

definition ENGINE_SEEDED_ROLES :: "string list" where
  "ENGINE_SEEDED_ROLES = [''admin'', ''client'', ''employee'', ''manager'', ''member'', ''tenant_owner'', ''tenant_admin'',
     ''tenant_manager'', ''tenant_member'', ''tenant_viewer'']"

definition or_value :: "jval \<Rightarrow> jval \<Rightarrow> jval" where
  "or_value a b = (if a = JNull then b else a)"

abbreviation name_of :: "jval \<Rightarrow> string" where "name_of f \<equiv> text_of (pget f ''name'')"
abbreviation type_of :: "jval \<Rightarrow> jval" where "type_of f \<equiv> pget f ''type''"
abbreviation fields_of :: "jval \<Rightarrow> jval list" where "fields_of c \<equiv> entries_of (pget c ''fields'')"
abbreviation relations_of :: "jval \<Rightarrow> jval list" where "relations_of c \<equiv> entries_of (pget c ''relations'')"
abbreviation indexes_of :: "jval \<Rightarrow> jval list" where "indexes_of c \<equiv> entries_of (pget c ''indexes'')"

text \<open>\<open>afterIntoSecret\<close>\<close>

definition without_keys :: "string list \<Rightarrow> jval \<Rightarrow> jval" where
  "without_keys ks v = (case v of JObj ms \<Rightarrow> JObj (filter (\<lambda>m. fst m \<notin> set ks) ms) | _ \<Rightarrow> v)"

definition afterIntoSecret :: "jval \<Rightarrow> jval" where
  "afterIntoSecret f = pset ''type'' (JStr ''secret'') (without_keys [''defaultValue'', ''unique'', ''indexed'', ''encrypted''] f)"

definition canSet :: "string \<Rightarrow> jval \<Rightarrow> bool" where
  "canSet key v \<longleftrightarrow> key = ''description'' \<or> key = ''writtenBy''
    \<or> (key = ''displayName'' \<or> key = ''icon'') \<and> nonempty_text v"

text \<open>\<open>withoutAuthValue\<close> (\<open>lib/virtual-collection-adapter.ts\<close>)\<close>

definition withoutAuthValue :: "schema_env \<Rightarrow> jval \<Rightarrow> jval" where
  "withoutAuthValue E config =
    (case config of
       JStr t \<Rightarrow> (case se_parse E t of None \<Rightarrow> JNull | Some (JStr u) \<Rightarrow> JNull | Some v \<Rightarrow> without_keys [''auth_value''] v)
     | v \<Rightarrow> without_keys [''auth_value''] v)"

section \<open>Entries of a list\<close>

definition list_key :: "entry_list \<Rightarrow> string" where
  "list_key l = (case l of Indexes \<Rightarrow> ''indexes'' | Relations \<Rightarrow> ''relations'' | RowRules \<Rightarrow> ''rowRules''
     | ColumnPermissions \<Rightarrow> ''columnPermissions'' | Validation \<Rightarrow> ''validation'' | ValidationGroups \<Rightarrow> ''validationGroups'')"

definition LISTS :: "entry_list list" where
  "LISTS = [Indexes, Relations, RowRules, ColumnPermissions, Validation, ValidationGroups]"

definition entry_id :: "schema_env \<Rightarrow> entry_list \<Rightarrow> jval \<Rightarrow> string" where
  "entry_id E l e = (let t = (\<lambda>k. js_string (pget e k)) in case l of
       Indexes \<Rightarrow> ''('' @ index_key e @ '')''
     | Relations \<Rightarrow> t ''name''
     | RowRules \<Rightarrow> t ''role'' @ '': '' @ t ''field'' @ '' '' @ t ''op'' @ '' '' @ t ''value''
     | ColumnPermissions \<Rightarrow> t ''role'' @ '': '' @ t ''column''
     | Validation \<Rightarrow> t ''field'' @ '' '' @ t ''rule'' @ '' '' @ js_trim (serialize E (pget e ''config''))
     | ValidationGroups \<Rightarrow> t ''name'')"

definition unset_true :: "string \<Rightarrow> jval \<Rightarrow> jval" where
  "unset_true k e = pset k (if pget e k = JBool True then JNull else pget e k) e"

definition canon :: "schema_env \<Rightarrow> entry_list \<Rightarrow> jval \<Rightarrow> jval" where
  "canon E l e = (case l of
       RowRules \<Rightarrow> unset_true ''enabled'' e
     | Validation \<Rightarrow> unset_true ''active'' e
     | ValidationGroups \<Rightarrow> pset ''rules'' (JArr (map JStr (sort_key (map code) (map (memberKey E) (entries_of (pget e ''rules''))))))
         (pset ''logic'' (or_value (pget e ''logic'') (JStr ''AND'')) (unset_true ''active'' e))
     | _ \<Rightarrow> e)"

definition relationDefaults :: "string \<Rightarrow> jval \<Rightarrow> jval" where
  "relationDefaults collection e =
    pset ''metadata'' (or_value (pget e ''metadata'') (JObj []))
    (pset ''onUpdate'' (or_value (pget e ''onUpdate'') (JStr ''CASCADE''))
    (pset ''onDelete'' (or_value (pget e ''onDelete'') (JStr ''SET NULL''))
    (pset ''targetField'' (or_value (pget e ''targetField'')
        (JStr (if type_of e = JStr ''o2m'' then collection @ ''_id'' else ''id''))) e)))"

text \<open>\<open>new Map(entries)\<close>: the place of the first, the value of the last.\<close>

definition to_map :: "(string \<times> 'a) list \<Rightarrow> (string \<times> 'a) list" where
  "to_map kvs = fold (\<lambda>(k, v). set_member k v) kvs []"

lemma fold_set_member: "map_of (fold (\<lambda>(k, v). set_member k v) kvs acc) l = (case map_of (rev kvs) l of None \<Rightarrow> map_of acc l | Some v \<Rightarrow> Some v)"
  by (induction kvs arbitrary: acc) (auto simp: prop_set_member map_add_def split: option.splits)

lemma map_of_to_map [simp]: "map_of (to_map kvs) = map_of (rev kvs)"
  by (rule ext) (simp add: to_map_def fold_set_member split: option.splits)

lemma keys_fold_set_member: "fst ` set (fold (\<lambda>(k, v). set_member k v) kvs acc) = fst ` set acc \<union> fst ` set kvs"
  by (induction kvs arbitrary: acc) (simp_all add: case_prod_beta)

lemma keys_to_map [simp]: "fst ` set (to_map kvs) = fst ` set kvs"
  by (simp add: to_map_def keys_fold_set_member)

lemma distinct_to_map [simp]: "distinct (map fst (to_map kvs))"
proof -
  have "distinct (map fst acc) \<Longrightarrow> distinct (map fst (fold (\<lambda>(k, v). set_member k v) kvs acc))" for acc :: "(string \<times> 'a) list"
    by (induction kvs arbitrary: acc) auto
  from this[of "[]"] show ?thesis by (simp add: to_map_def)
qed

text \<open>When no key has two values, the map has the entries.\<close>

lemma set_to_map:
  assumes "\<And>k v w. (k, v) \<in> set kvs \<Longrightarrow> (k, w) \<in> set kvs \<Longrightarrow> v = w"
  shows "set (to_map kvs) = set kvs"
proof -
  have "(k, v) \<in> set (to_map kvs) \<longleftrightarrow> (k, v) \<in> set kvs" for k v
  proof -
    have "(k, v) \<in> set (to_map kvs) \<longleftrightarrow> map_of (rev kvs) k = Some v"
      using map_of_eq_Some_iff[OF distinct_to_map, of kvs k v] by auto
    also have "\<dots> \<longleftrightarrow> (k, v) \<in> set kvs"
    proof
      assume "(k, v) \<in> set kvs"
      then obtain w where w: "map_of (rev kvs) k = Some w"
        by (metis (no_types, lifting) fst_conv image_eqI map_of_eq_None_iff not_None_eq set_rev)
      with assms[of k v w] \<open>(k, v) \<in> set kvs\<close> show "map_of (rev kvs) k = Some v"
        by (metis map_of_SomeD set_rev)
    qed (metis map_of_SomeD set_rev)
    finally show ?thesis .
  qed
  then show ?thesis by auto
qed

definition entries_by_id :: "schema_env \<Rightarrow> string \<Rightarrow> entry_list \<Rightarrow> jval \<Rightarrow> (string \<times> jval) list" where
  "entries_by_id E name l from =
    to_map (map (\<lambda>e. (entry_id E l e, if l = Relations then relationDefaults name e else e)) (entries_of (pget from (list_key l))))"

section \<open>One collection\<close>

record sink =
  sk_owned :: "(string \<times> string) list"
  sk_fieldOf :: "string \<Rightarrow> string \<Rightarrow> jval option"
  sk_intoSecret :: bool

definition owned_in :: "sink \<Rightarrow> string \<Rightarrow> string list" where
  "owned_in k name = map snd (filter (\<lambda>p. fst p = name) (sk_owned k))"

definition setting_step :: "schema_env \<Rightarrow> string \<Rightarrow> jval \<Rightarrow> jval \<Rightarrow> string \<Rightarrow> plan_step list" where
  "setting_step E name cur des key =
    (let want = (if key = ''virtualConfig'' then withoutAuthValue E (pget des key) else pget des key);
         have = (if key = ''defaultGrants'' then or_value (pget cur key) (JBool True) else pget cur key)
     in if (if key = ''writtenBy'' then same have want else want = JNull \<or> same have want) then []
        else [mk_step Tilde name (SetKey key) False (if canSet key want then Some (OpSetCollection name key want) else None)])"

definition changed_keys :: "jval \<Rightarrow> jval \<Rightarrow> string list" where
  "changed_keys old new =
    sort_key (map code) (filter (\<lambda>k. \<not> same (pget old k) (pget new k)) (remdups (keys_of old @ keys_of new)))"

definition alter_step :: "string \<Rightarrow> jval \<Rightarrow> jval \<Rightarrow> plan_step list" where
  "alter_step name old f =
    (if same old f then []
     else (let ks = changed_keys old f;
               relation = js_string (type_of f) \<in> set RELATION_TYPES;
               runnable = (\<forall>k \<in> set ks. k \<in> set ALTERABLE) \<and> \<not> (relation \<and> (\<exists>k \<in> set ks. k \<in> set NOT_ON_RELATION))
                 \<and> \<not> (relation \<and> ''required'' \<in> set ks \<and> type_of f \<noteq> JStr ''m2o'' \<and> type_of f \<noteq> JStr ''reference'')
           in [mk_step Tilde name (AlterField (name_of f) ks) False (if runnable then Some (OpAlterField name f ks) else None)]))"

definition field_step :: "sink \<Rightarrow> string \<Rightarrow> jval list \<Rightarrow> jval \<Rightarrow> plan_step list" where
  "field_step k name curFields f =
    (case find (\<lambda>g. name_of g = name_of f) (rev curFields) of
       None \<Rightarrow>
         if name_of f \<in> set (owned_in k name) then []
         else [mk_step Plus name (AddField (name_of f)) False (Some (OpAddField name f))]
     | Some old \<Rightarrow>
         if type_of old \<noteq> type_of f then
           (if \<not> sk_intoSecret k \<or> type_of f \<noteq> JStr ''secret'' \<or> js_string (type_of old) \<notin> set INTO_SECRET_FROM
            then [mk_step Tilde name (ChangeType (name_of f)) True None]
            else mk_step Tilde name (ChangeType (name_of f)) False (Some (OpIntoSecret name (name_of f)))
              # alter_step name (afterIntoSecret old) f)
         else alter_step name old f)"

definition reorder_step :: "sink \<Rightarrow> string \<Rightarrow> jval list \<Rightarrow> jval list \<Rightarrow> plan_step list" where
  "reorder_step k name curFields desFields =
    (let order = map name_of desFields; had = map name_of curFields; owned = owned_in k name;
         added = filter (\<lambda>n. n \<notin> set had) order;
         byRelation = filter (\<lambda>n. n \<in> set owned) added;
         after = filter (\<lambda>n. n \<in> set order) had @ filter (\<lambda>n. n \<notin> set owned) added @ byRelation
     in if after \<noteq> order \<or> 1 < length byRelation
        then [mk_step Tilde name (ReorderFields order) False (Some (OpReorderFields name order))] else [])"

text \<open>A removed relation has no op; a changed one only what \<open>PATCH\<close> sets.\<close>

definition put_op :: "sink \<Rightarrow> string \<Rightarrow> entry_list \<Rightarrow> jval \<Rightarrow> apply_op" where
  "put_op k name l e =
    (if l = Relations
     then OpPutRelation name e (sk_fieldOf k name (js_string (pget e ''field'')))
       (if type_of e = JStr ''o2m''
        then sk_fieldOf k (js_string (pget e ''target'')) (js_string (or_value (pget e ''targetField'') (JStr (name @ ''_id''))))
        else None)
     else OpPutEntry name l e)"

definition list_steps :: "schema_env \<Rightarrow> sink \<Rightarrow> string \<Rightarrow> jval \<Rightarrow> jval \<Rightarrow> entry_list \<Rightarrow> plan_step list" where
  "list_steps E k name cur des l =
    (let raw = entries_by_id E name l des; curList = entries_by_id E name l cur in
     concat (map (\<lambda>(i, e). if map_of raw i = None
         then [mk_step Minus name (RemoveEntry l i) False (if l = Relations then None else Some (OpRemoveEntry name l e))] else []) curList)
     @ concat (map (\<lambda>(i, e). case map_of curList i of
           None \<Rightarrow> [mk_step Plus name (AddEntry l i) False (Some (put_op k name l e))]
         | Some old \<Rightarrow>
             if same (canon E l old) (canon E l e) then []
             else [mk_step Tilde name (AlterEntry l i) False
               (if l \<noteq> Relations \<or> (\<forall>x \<in> set (keys_of old @ keys_of e). \<not> same (pget old x) (pget e x) \<longrightarrow> x \<in> set RELATION_PATCHABLE)
                then Some (put_op k name l e) else None)]) raw))"

text \<open>The steps at once, those of the relations, and those that run after them.\<close>

definition diffCollection ::
  "schema_env \<Rightarrow> sink \<Rightarrow> string \<Rightarrow> jval \<Rightarrow> jval \<Rightarrow> plan_step list \<times> plan_step list \<times> plan_step list" where
  "diffCollection E k name cur des =
    (let curFields = fields_of cur; desFields = map exportField (fields_of des) in
     (concat (map (setting_step E name cur des) SETTING_KEYS)
        @ map (\<lambda>f. mk_step Minus name (DropField (name_of f)) True None)
            (filter (\<lambda>f. name_of f \<notin> set (map name_of desFields)) curFields)
        @ concat (map (field_step k name curFields) desFields),
      list_steps E k name cur des Relations,
      reorder_step k name curFields desFields
        @ concat (map (list_steps E k name cur des) (filter (\<lambda>l. l \<noteq> Relations) LISTS))))"

end
