(* ===== verification/SchemaMigrate.thy ===== *)
theory SchemaMigrate
  imports SchemaPlan
begin

text \<open>
  \<open>lib/schema-artifact/plan.ts\<close>, second half: what a migration makes of the state, the
  roles, and \<open>planSchema\<close>; with the admission of a plan in \<open>apply.ts\<close>.
\<close>

section \<open>A migration op\<close>

text \<open>\<open>/^[a-z][a-z0-9_]*$/\<close>\<close>

definition is_low :: "char \<Rightarrow> bool" where
  "is_low c \<longleftrightarrow> 97 \<le> code c \<and> code c \<le> 122"

definition NAME :: "string \<Rightarrow> bool" where
  "NAME s \<longleftrightarrow> s \<noteq> [] \<and> is_low (hd s) \<and> list_all (\<lambda>c. is_low c \<or> is_digit c \<or> c = CHR ''_'') (tl s)"

text \<open>Writing through a reference into a list of the file, and replacing the list.\<close>

definition on_list :: "string \<Rightarrow> (jval list \<Rightarrow> jval list) \<Rightarrow> jval \<Rightarrow> jval" where
  "on_list k g c = (case pget c k of JArr vs \<Rightarrow> pset k (JArr (g vs)) c | _ \<Rightarrow> c)"

definition put_list :: "string \<Rightarrow> (jval list \<Rightarrow> jval list) \<Rightarrow> jval \<Rightarrow> jval" where
  "put_list k g c = pset k (JArr (g (entries_of (pget c k)))) c"

definition map_values :: "(string \<Rightarrow> 'a \<Rightarrow> 'a) \<Rightarrow> (string \<times> 'a) list \<Rightarrow> (string \<times> 'a) list" where
  "map_values g m = map (\<lambda>(k, v). (k, g k v)) m"

definition without :: "string \<Rightarrow> (string \<times> 'a) list \<Rightarrow> (string \<times> 'a) list" where
  "without k m = filter (\<lambda>p. fst p \<noteq> k) m"

definition on_collection :: "string \<Rightarrow> (jval \<Rightarrow> jval) \<Rightarrow> parsed \<Rightarrow> parsed" where
  "on_collection c g p = p\<lparr> pd_collections := map_values (\<lambda>n v. if n = c then g v else v) (pd_collections p) \<rparr>"

definition find_field :: "jval \<Rightarrow> string \<Rightarrow> jval option" where
  "find_field col n = find (\<lambda>f. pget f ''name'' = JStr n) (fields_of col)"

fun update_first :: "('a \<Rightarrow> bool) \<Rightarrow> ('a \<Rightarrow> 'a) \<Rightarrow> 'a list \<Rightarrow> 'a list" where
  "update_first P g [] = []"
| "update_first P g (x # xs) = (if P x then g x # xs else x # update_first P g xs)"

definition on_field :: "string \<Rightarrow> (jval \<Rightarrow> jval) \<Rightarrow> jval \<Rightarrow> jval" where
  "on_field n g = on_list ''fields'' (update_first (\<lambda>f. pget f ''name'' = JStr n) g)"

definition rename_in :: "string \<Rightarrow> string \<Rightarrow> string \<Rightarrow> jval \<Rightarrow> jval" where
  "rename_in k a b r = (if pget r k = JStr a then pset k (JStr b) r else r)"

definition rename_index :: "string \<Rightarrow> string \<Rightarrow> jval \<Rightarrow> jval" where
  "rename_index a b ix = pset ''fields'' (JArr (map (\<lambda>n. if n = JStr a then JStr b else n) (index_fields ix))) ix"

definition rename_field :: "string \<Rightarrow> string \<Rightarrow> string \<Rightarrow> parsed \<Rightarrow> parsed" where
  "rename_field c a b p =
    (let q = on_collection c (on_list ''indexes'' (map (rename_index a b)) \<circ> on_list ''relations'' (map (rename_in ''field'' a b))
               \<circ> on_field a (pset ''name'' (JStr b))) p
     in q\<lparr> pd_collections := map_values (\<lambda>n. on_list ''relations''
          (map (\<lambda>r. if pget r ''target'' = JStr c then rename_in ''targetField'' a b r else r))) (pd_collections q) \<rparr>)"

definition drop_field :: "string \<Rightarrow> string \<Rightarrow> parsed \<Rightarrow> parsed" where
  "drop_field c n = on_collection c
    (put_list ''indexes'' (filter (\<lambda>ix. JStr n \<notin> set (index_fields ix)))
     \<circ> put_list ''relations'' (filter (\<lambda>r. pget r ''field'' \<noteq> JStr n))
     \<circ> put_list ''fields'' (filter (\<lambda>f. pget f ''name'' \<noteq> JStr n)))"

definition drop_collection :: "string \<Rightarrow> parsed \<Rightarrow> parsed" where
  "drop_collection c p = p\<lparr> pd_collections := map_values
     (\<lambda>n. put_list ''relations'' (filter (\<lambda>r. pget r ''target'' \<noteq> JStr c))) (without c (pd_collections p)) \<rparr>"

definition drop_role :: "string \<Rightarrow> parsed \<Rightarrow> parsed" where
  "drop_role r p = p\<lparr> pd_roles := without r (pd_roles p) \<rparr>"

fun op_change :: "migration_op \<Rightarrow> change" where
  "op_change (RenameField c a b) = Tilde"
| "op_change (ChangeFieldType c f t) = Tilde"
| "op_change _ = Minus"

fun op_target :: "migration_op \<Rightarrow> string" where
  "op_target (RenameField c a b) = c"
| "op_target (ChangeFieldType c f t) = c"
| "op_target (DropFieldOp c f) = c"
| "op_target (DropCollectionOp c) = c"
| "op_target (DropRoleOp r) = ''role '' @ r"

fun op_destructive :: "migration_op \<Rightarrow> bool" where
  "op_destructive (RenameField c a b) = False"
| "op_destructive _ = True"

definition migration_step :: "string \<Rightarrow> string \<Rightarrow> bool \<Rightarrow> migration_op \<Rightarrow> plan_step" where
  "migration_step mid chk final c =
    mk_step (op_change c) (op_target c) (Migrated c) (op_destructive c) (Some (OpMigration mid chk final c))"

text \<open>What an op makes of the state.  A rename whose effect is there changes nothing.\<close>

definition migrate_state :: "string \<Rightarrow> migration_op \<Rightarrow> parsed \<Rightarrow> (schema_error, parsed) result" where
  "migrate_state mid c p =
    (let fail = (\<lambda>why. Throw (SchemaFileError (''migration '' @ mid) why)) in
     case c of
       DropRoleOp r \<Rightarrow> Ok (drop_role r p)
     | DropCollectionOp n \<Rightarrow> Ok (drop_collection n p)
     | RenameField n a b \<Rightarrow>
         (case map_of (pd_collections p) n of
            None \<Rightarrow> fail ''names a collection which does not exist''
          | Some col \<Rightarrow>
              if \<not> NAME b then fail ''to is not a field name''
              else (case find_field col a of
                  Some f \<Rightarrow> if find_field col b \<noteq> None then fail ''exists already'' else Ok (rename_field n a b p)
                | None \<Rightarrow> if find_field col b = None then fail ''names a field which does not exist'' else Ok p))
     | ChangeFieldType n f t \<Rightarrow>
         (case map_of (pd_collections p) n of
            None \<Rightarrow> fail ''names a collection which does not exist''
          | Some col \<Rightarrow>
              if find_field col f = None then fail ''names a field which does not exist''
              else Ok (on_collection n (on_field f (pset ''type'' (JStr t))) p))
     | DropFieldOp n f \<Rightarrow>
         (case map_of (pd_collections p) n of
            None \<Rightarrow> fail ''names a collection which does not exist''
          | Some col \<Rightarrow> Ok (drop_field n f p)))"

fun migrate_ops :: "string \<Rightarrow> string \<Rightarrow> migration_op list \<Rightarrow> parsed \<Rightarrow> (schema_error, parsed \<times> plan_step list) result" where
  "migrate_ops mid chk [] p = Ok (p, [])"
| "migrate_ops mid chk (c # cs) p =
    (case migrate_state mid c p of
       Inl e \<Rightarrow> Throw e
     | Inr q \<Rightarrow> (case migrate_ops mid chk cs q of
          Inl e \<Rightarrow> Throw e
        | Inr (r, steps) \<Rightarrow> Ok (r, migration_step mid chk (cs = []) c # steps)))"

text \<open>The pending migrations, in the order of their ids.\<close>

fun run_migrations :: "(string \<Rightarrow> string option) \<Rightarrow> (string \<times> string \<times> migration_op list) list \<Rightarrow> parsed \<Rightarrow>
    (schema_error, parsed \<times> plan_step list) result" where
  "run_migrations applied [] p = Ok (p, [])"
| "run_migrations applied ((mid, chk, cs) # ms) p =
    (case applied mid of
       Some was \<Rightarrow>
         if was \<noteq> chk then Throw (SchemaFileError (''migrations/'' @ mid) ''changed after it was applied'')
         else run_migrations applied ms p
     | None \<Rightarrow> (case migrate_ops mid chk cs p of
          Inl e \<Rightarrow> Throw e
        | Inr (q, s) \<Rightarrow> (case run_migrations applied ms q of
             Inl e \<Rightarrow> Throw e
           | Inr (r, t) \<Rightarrow> Ok (r, s @ t))))"

section \<open>A required key set to null\<close>

text \<open>\<open>relationKey\<close> and \<open>requiredSetNull\<close> (\<open>lib/data/relations.ts\<close>)\<close>

record relation_row =
  rr_type :: string
  rr_source_collection :: string
  rr_source_field :: string
  rr_target_collection :: string
  rr_target_field :: "string option"
  rr_on_delete :: string
  rr_on_update :: string

definition relationKey :: "relation_row \<Rightarrow> (string \<times> string \<times> string) option" where
  "relationKey r =
    (if rr_type r = ''m2o'' then Some (rr_source_collection r, rr_source_field r, rr_target_collection r)
     else if rr_type r = ''o2m'' then
       Some (rr_target_collection r,
             (case rr_target_field r of None \<Rightarrow> rr_source_collection r @ ''_id''
              | Some t \<Rightarrow> if t = [] then rr_source_collection r @ ''_id'' else t),
             rr_source_collection r)
     else None)"

definition requiredSetNull :: "relation_row \<Rightarrow> bool \<Rightarrow> bool" where
  "requiredSetNull r required \<longleftrightarrow> relationKey r \<noteq> None \<and> required
     \<and> (js_upper (rr_on_delete r) = ''SET NULL'' \<or> js_upper (rr_on_update r) = ''SET NULL'')"

definition relation_row_of :: "string \<Rightarrow> jval \<Rightarrow> relation_row" where
  "relation_row_of name r =
    (let e = relationDefaults name r in
     \<lparr> rr_type = js_string (type_of r), rr_source_collection = name, rr_source_field = js_string (pget r ''field''),
       rr_target_collection = js_string (pget r ''target''),
       rr_target_field = (if type_of r = JStr ''o2m'' then Some (js_string (pget e ''targetField'')) else None),
       rr_on_delete = js_string (pget e ''onDelete''), rr_on_update = js_string (pget e ''onUpdate'') \<rparr>)"

definition field_in :: "(string \<times> jval) list \<Rightarrow> string \<Rightarrow> string \<Rightarrow> jval option" where
  "field_in cols c n = (case map_of cols c of None \<Rightarrow> None | Some col \<Rightarrow> find_field col n)"

definition sets_required_null :: "(string \<times> jval) list \<Rightarrow> string \<Rightarrow> jval \<Rightarrow> bool" where
  "sets_required_null cols name r =
    (let row = relation_row_of name r in
     case relationKey row of
       None \<Rightarrow> False
     | Some (holder, column, _) \<Rightarrow> requiredSetNull row
         (case field_in cols holder column of None \<Rightarrow> False | Some f \<Rightarrow> pget f ''required'' = JBool True))"

definition checkRequiredSetNull :: "(string \<times> jval) list \<Rightarrow> (schema_error, unit) result" where
  "checkRequiredSetNull cols = check_all
    (\<lambda>(name, file). refuse_if (\<exists>r \<in> set (relations_of file). sets_required_null cols name r)
      (''collections/'' @ name @ ''.json'') ''a required key cannot be set null'') cols"

section \<open>Roles\<close>

text \<open>The actions of an entry: an array's elements, a string's characters, or nothing to walk.\<close>

fun actions_of :: "jval \<Rightarrow> string list option" where
  "actions_of JNull = Some []"
| "actions_of (JArr vs) = Some (map js_string vs)"
| "actions_of (JStr s) = Some (map (\<lambda>c. [c]) s)"
| "actions_of _ = None"

definition granted :: "schema_env \<Rightarrow> jval \<Rightarrow> string \<Rightarrow> (string \<times> string \<times> string) list" where
  "granted E role key =
    (let name = js_string (pget role ''name'') in
     concat (map (\<lambda>p. let r = js_string (pget p ''resource'') in
       map (\<lambda>a. (r @ '' '' @ a, r, a))
         (filter (\<lambda>a. se_default E name r a \<noteq> (key = ''permissions''))
           (case actions_of (pget p ''actions'') of None \<Rightarrow> [] | Some as \<Rightarrow> as)))
       (entries_of (pget role key))))"

definition grants :: "schema_env \<Rightarrow> jval option \<Rightarrow> string \<Rightarrow> (string \<times> string \<times> string) list" where
  "grants E role key = (case role of None \<Rightarrow> [] | Some r \<Rightarrow> to_map (granted E r key))"

definition unreadable_actions :: "jval \<Rightarrow> bool" where
  "unreadable_actions role \<longleftrightarrow> (\<exists>key \<in> {''permissions'', ''revokedDefaults''}.
     \<exists>p \<in> set (entries_of (pget role key)). actions_of (pget p ''actions'') = None)"

text \<open>What the first map holds and the second does not, sorted by key.\<close>

definition missing_in :: "(string \<times> 'a) list \<Rightarrow> (string \<times> 'a) list \<Rightarrow> (string \<times> 'a) list" where
  "missing_in a b = sort_key (map code \<circ> fst) (filter (\<lambda>p. map_of b (fst p) = None) a)"

definition optional_text :: "jval \<Rightarrow> string option" where
  "optional_text v = (case v of JStr s \<Rightarrow> Some s | _ \<Rightarrow> None)"

definition implied_role :: "schema_env \<Rightarrow> string \<Rightarrow> bool" where
  "implied_role E name \<longleftrightarrow> se_default_role E name \<or> name \<in> set ENGINE_SEEDED_ROLES"

definition wanted_role :: "schema_env \<Rightarrow> string \<Rightarrow> jval option \<Rightarrow> jval option \<Rightarrow> jval option" where
  "wanted_role E name c d =
    (case d of Some r \<Rightarrow> Some r
     | None \<Rightarrow> if implied_role E name
        then Some (JObj [(''name'', JStr name), (''description'', case c of None \<Rightarrow> JNull | Some r \<Rightarrow> pget r ''description'')])
        else None)"

definition role_row_step :: "schema_env \<Rightarrow> string \<Rightarrow> jval option \<Rightarrow> jval \<Rightarrow> plan_step list" where
  "role_row_step E name c d =
    (let target = ''role '' @ name; text = optional_text (pget d ''description'') in
     case c of
       None \<Rightarrow> if \<not> implied_role E name \<or> text \<noteq> None
         then [mk_step Plus target CreateRole False (Some (OpCreateRole name text))] else []
     | Some r \<Rightarrow> if same (pget r ''description'') (pget d ''description'') then []
         else [mk_step Tilde target SetDescription False (Some (OpSetRole name text))])"

definition grant_steps :: "schema_env \<Rightarrow> string \<Rightarrow> jval option \<Rightarrow> jval \<Rightarrow> plan_step list" where
  "grant_steps E name c d =
    (let target = ''role '' @ name;
         had = grants E c ''permissions''; has = grants E (Some d) ''permissions'';
         lost = grants E c ''revokedDefaults''; loses = grants E (Some d) ''revokedDefaults'' in
     map (\<lambda>(k, r, a). mk_step Minus target (Revoke r a) False (Some (OpRevoke name r a))) (missing_in had has)
     @ map (\<lambda>(k, r, a). mk_step Plus target (Grant r a) False (Some (OpGrant name r a))) (missing_in has had)
     @ map (\<lambda>(k, r, a). mk_step Minus target (RevokeDefault r a) False (Some (OpRevokeDefault name r a))) (missing_in loses lost)
     @ map (\<lambda>(k, r, a). mk_step Plus target (RestoreDefault r a) False (Some (OpGrant name r a))) (missing_in lost loses))"

definition role_steps :: "schema_env \<Rightarrow> string \<Rightarrow> jval option \<Rightarrow> jval option \<Rightarrow> plan_step list" where
  "role_steps E name c d =
    (case wanted_role E name c d of
       None \<Rightarrow> [mk_step Minus (''role '' @ name) RemoveRole True None]
     | Some w \<Rightarrow> role_row_step E name c w @ grant_steps E name c w)"

definition names_of :: "(string \<times> 'a) list \<Rightarrow> (string \<times> 'a) list \<Rightarrow> string list" where
  "names_of a b = sort_key (map code) (remdups (map fst a @ map fst b))"

definition all_role_steps :: "schema_env \<Rightarrow> (string \<times> jval) list \<Rightarrow> (string \<times> jval) list \<Rightarrow> plan_step list" where
  "all_role_steps E cur des = concat (map (\<lambda>n. role_steps E n (map_of cur n) (map_of des n)) (names_of cur des))"

section \<open>The plan\<close>

text \<open>The fields the new relations of the files create.\<close>

definition new_relations :: "parsed \<Rightarrow> string \<Rightarrow> jval \<Rightarrow> jval list" where
  "new_relations cur name d =
    (let had = (case map_of (pd_collections cur) name of None \<Rightarrow> [] | Some c \<Rightarrow> map (\<lambda>r. pget r ''name'') (relations_of c)) in
     filter (\<lambda>r. pget r ''name'' \<notin> set had) (relations_of d))"

definition owned_fields :: "string \<Rightarrow> jval \<Rightarrow> (string \<times> string) list" where
  "owned_fields name r = (name, js_string (pget r ''field''))
     # (if type_of r = JStr ''o2m''
        then [(js_string (pget r ''target''), js_string (or_value (pget r ''targetField'') (JStr (name @ ''_id''))))] else [])"

definition owned_by_relations :: "parsed \<Rightarrow> parsed \<Rightarrow> (string \<times> string) list" where
  "owned_by_relations cur des =
    concat (map (\<lambda>(name, d). concat (map (owned_fields name) (new_relations cur name d))) (pd_collections des))"

definition plan_sink :: "bool \<Rightarrow> parsed \<Rightarrow> parsed \<Rightarrow> sink" where
  "plan_sink secret cur des =
    \<lparr> sk_owned = owned_by_relations cur des,
      sk_fieldOf = (\<lambda>c n. case map_of (pd_collections des) c of None \<Rightarrow> None
         | Some col \<Rightarrow> find (\<lambda>f. pget f ''name'' = JStr n) (map exportField (fields_of col))),
      sk_intoSecret = secret \<rparr>"

definition plain_fields :: "sink \<Rightarrow> string \<Rightarrow> jval \<Rightarrow> jval list" where
  "plain_fields k name d = filter (\<lambda>f. name_of f \<notin> set (owned_in k name)) (fields_of d)"

definition create_step :: "sink \<Rightarrow> string \<Rightarrow> jval \<Rightarrow> plan_step" where
  "create_step k name d =
    mk_step Plus name (CreateCollection (length (fields_of d))) False
      (if \<exists>x \<in> set (keys_of d). x \<noteq> ''$schema'' \<and> x \<notin> set CREATE_KEYS \<and> x \<notin> set LIST_KEYS then None
       else Some (OpCreateCollection (JObj (map (\<lambda>x. (x, if x = ''fields'' then JArr (plain_fields k name d) else pget d x))
         (filter (\<lambda>x. x \<in> set (keys_of d)) CREATE_KEYS)))))"

text \<open>The collection as its creation leaves it: its settings and plain fields, and no list.\<close>

definition created :: "sink \<Rightarrow> string \<Rightarrow> jval \<Rightarrow> jval" where
  "created k name d = fold (\<lambda>l. pset l (JArr [])) LIST_KEYS (pset ''fields'' (JArr (map exportField (plain_fields k name d))) d)"

definition collection_steps :: "schema_env \<Rightarrow> sink \<Rightarrow> string \<Rightarrow> jval option \<Rightarrow> jval option \<Rightarrow>
    plan_step list \<times> plan_step list \<times> plan_step list" where
  "collection_steps E k name c d =
    (case d of
       None \<Rightarrow> ([mk_step Minus name DropCollection True None], [], [])
     | Some f \<Rightarrow> (case c of
          None \<Rightarrow> (case diffCollection E k name (created k name f) f of
             (s, r, t) \<Rightarrow> (create_step k name f # s, r, t))
        | Some old \<Rightarrow> diffCollection E k name old f))"

definition state_steps :: "schema_env \<Rightarrow> bool \<Rightarrow> parsed \<Rightarrow> parsed \<Rightarrow> plan_step list" where
  "state_steps E secret cur des =
    (let k = plan_sink secret cur des;
         parts = map (\<lambda>n. collection_steps E k n (map_of (pd_collections cur) n) (map_of (pd_collections des) n))
           (names_of (pd_collections cur) (pd_collections des))
     in concat (map fst parts) @ concat (map (fst \<circ> snd) parts) @ concat (map (snd \<circ> snd) parts)
        @ all_role_steps E (pd_roles cur) (pd_roles des))"

definition planSchema :: "schema_env \<Rightarrow> jval \<Rightarrow> jval \<Rightarrow> (string \<Rightarrow> string option) \<Rightarrow> bool \<Rightarrow>
    (schema_error, plan_step list) result" where
  "planSchema E current desired applied secret =
    (case read_set E current of
       Inl e \<Rightarrow> Throw e
     | Inr cur \<Rightarrow> (case read_set E desired of
          Inl e \<Rightarrow> Throw e
        | Inr des \<Rightarrow> (case checkRequiredSetNull (pd_collections des) of
             Inl e \<Rightarrow> Throw e
           | Inr u \<Rightarrow> (case run_migrations applied (sort_key (map code \<circ> fst) (pd_migrations des)) cur of
                Inl e \<Rightarrow> Throw e
              | Inr (cur', ms) \<Rightarrow>
                  if (\<exists>(n, r) \<in> set (pd_roles cur'). wanted_role E n (Some r) (map_of (pd_roles des) n) \<noteq> None \<and> unreadable_actions r)
                    \<or> (\<exists>(n, r) \<in> set (pd_roles des). unreadable_actions r)
                  then Throw (SchemaTypeError ''roles.json'')
                  else Ok (ms @ state_steps E secret cur' des)))))"

end
