(* ===== verification/SchemaRoles.thy ===== *)
theory SchemaRoles
  imports SchemaMigrate
begin

text \<open>
  Roles from the tables to a plan and back: \<open>roles.json\<close> as \<open>export.ts\<close> writes it, the role
  ops of a plan run on the tables (\<open>apply.ts\<close>, \<open>lib/tenancy/permissions.ts\<close>), and that a run
  leaves nothing to plan.
\<close>

section \<open>The tables\<close>

type_synonym grant_row = "string \<times> string \<times> string"

text \<open>\<open>zv_roles\<close>, the instance-wide rules of \<open>zvd_permissions\<close>, \<open>zv_default_grant_revocations\<close>\<close>

record role_store =
  rt_rows :: "(string \<times> string option) list"
  rt_policies :: "grant_row list"
  rt_revoked :: "grant_row list"

definition add_row :: "'a \<Rightarrow> 'a list \<Rightarrow> 'a list" where
  "add_row x xs = (if x \<in> set xs then xs else xs @ [x])"

definition is_default_row :: "schema_env \<Rightarrow> grant_row \<Rightarrow> bool" where
  "is_default_row E g = (case g of (n, r, a) \<Rightarrow> se_default E n r a)"

definition table_add_policy :: "grant_row \<Rightarrow> role_store \<Rightarrow> role_store" where
  "table_add_policy g s = s\<lparr> rt_policies := add_row g (rt_policies s), rt_revoked := removeAll g (rt_revoked s) \<rparr>"

definition table_remove_policy :: "schema_env \<Rightarrow> grant_row \<Rightarrow> role_store \<Rightarrow> role_store" where
  "table_remove_policy E g s =
    s\<lparr> rt_policies := removeAll g (rt_policies s),
       rt_revoked := (if g \<in> set (rt_policies s) \<and> is_default_row E g then add_row g (rt_revoked s) else rt_revoked s) \<rparr>"

definition revokeDefaultGrant :: "schema_env \<Rightarrow> grant_row \<Rightarrow> role_store \<Rightarrow> role_store option" where
  "revokeDefaultGrant E g s =
    (if is_default_row E g then Some (table_remove_policy E g (s\<lparr> rt_revoked := add_row g (rt_revoked s) \<rparr>)) else None)"

text \<open>The ops on roles; an insert of a name the table has fails, an update finds no row or its row.\<close>

fun run_role_op :: "schema_env \<Rightarrow> apply_op \<Rightarrow> role_store \<Rightarrow> role_store option" where
  "run_role_op E (OpCreateRole n d) s = (if n \<in> fst ` set (rt_rows s) then None else Some (s\<lparr> rt_rows := rt_rows s @ [(n, d)] \<rparr>))"
| "run_role_op E (OpSetRole n d) s = Some (s\<lparr> rt_rows := map_values (\<lambda>m v. if m = n then d else v) (rt_rows s) \<rparr>)"
| "run_role_op E (OpGrant n r a) s = Some (table_add_policy (n, r, a) s)"
| "run_role_op E (OpRevoke n r a) s = Some (table_remove_policy E (n, r, a) s)"
| "run_role_op E (OpRevokeDefault n r a) s = revokeDefaultGrant E (n, r, a) s"
| "run_role_op E _ s = None"

fun run_role_steps :: "schema_env \<Rightarrow> plan_step list \<Rightarrow> role_store \<Rightarrow> role_store option" where
  "run_role_steps E [] s = Some s"
| "run_role_steps E (p # ps) s =
    (case ps_op p of None \<Rightarrow> None
     | Some c \<Rightarrow> (case run_role_op E c s of None \<Rightarrow> None | Some t \<Rightarrow> run_role_steps E ps t))"

section \<open>The roles as the export lists them\<close>

definition rows_of :: "string \<Rightarrow> grant_row list \<Rightarrow> (string \<times> string) list" where
  "rows_of n gs = map snd (filter (\<lambda>g. fst g = n) gs)"

definition listed :: "(string \<times> string) list \<Rightarrow> jval" where
  "listed ps = JArr (map (\<lambda>r. JObj [(''resource'', JStr r),
       (''actions'', JArr (map JStr (sort_key (map code) (remdups (map snd (filter (\<lambda>p. fst p = r) ps))))))])
     (sort_key (map code) (remdups (map fst ps))))"

definition exported_grants :: "schema_env \<Rightarrow> role_store \<Rightarrow> grant_row list" where
  "exported_grants E s = filter (\<lambda>g. case g of (n, r, a) \<Rightarrow> n \<noteq> [] \<and> r \<noteq> [] \<and> a \<noteq> [] \<and> \<not> se_default E n r a) (rt_policies s)"

definition exported_revokes :: "schema_env \<Rightarrow> role_store \<Rightarrow> grant_row list" where
  "exported_revokes E s = filter (is_default_row E) (rt_revoked s)"

definition role_names :: "schema_env \<Rightarrow> role_store \<Rightarrow> string list" where
  "role_names E s = sort_key (map code) (remdups (map fst (rt_rows s) @ map fst (exported_grants E s) @ map fst (exported_revokes E s)))"

definition export_role :: "schema_env \<Rightarrow> role_store \<Rightarrow> string \<Rightarrow> jval" where
  "export_role E s n =
    JObj [(''name'', JStr n),
      (''description'', case map_of (rt_rows s) n of Some (Some d) \<Rightarrow> JStr d | _ \<Rightarrow> JNull),
      (''permissions'', listed (rows_of n (exported_grants E s))),
      (''revokedDefaults'', if rows_of n (exported_revokes E s) = [] then JNull else listed (rows_of n (exported_revokes E s)))]"

definition export_roles :: "schema_env \<Rightarrow> role_store \<Rightarrow> (string \<times> jval) list" where
  "export_roles E s = map (\<lambda>n. (n, export_role E s n)) (role_names E s)"

section \<open>Grants as sets of pairs\<close>

definition gpairs :: "schema_env \<Rightarrow> jval option \<Rightarrow> string \<Rightarrow> (string \<times> string) set" where
  "gpairs E role key = (case role of None \<Rightarrow> {} | Some r \<Rightarrow> snd ` set (granted E r key))"

definition spaceless :: "(string \<times> string) set \<Rightarrow> bool" where
  "spaceless X \<longleftrightarrow> (\<forall>(r, a) \<in> X. CHR '' '' \<notin> set r)"

definition grant_key :: "string \<times> string \<Rightarrow> string" where
  "grant_key p = fst p @ '' '' @ snd p"

lemma grant_key_inject:
  assumes "grant_key p = grant_key q" "CHR '' '' \<notin> set (fst p)" "CHR '' '' \<notin> set (fst q)"
  shows "p = q"
proof -
  have cut: "takeWhile (\<lambda>c. c \<noteq> CHR '' '') (grant_key x) = fst x" if "CHR '' '' \<notin> set (fst x)" for x
  proof -
    have "takeWhile (\<lambda>c. c \<noteq> CHR '' '') (fst x @ CHR '' '' # snd x) = fst x @ takeWhile (\<lambda>c. c \<noteq> CHR '' '') (CHR '' '' # snd x)"
      by (rule takeWhile_append2) (use that in blast)
    then show ?thesis by (simp add: grant_key_def)
  qed
  have "fst p = fst q"
    using assms cut[of p] cut[of q] by simp
  with assms(1) show ?thesis by (auto simp: grant_key_def prod_eq_iff)
qed

lemma granted_form: "x \<in> set (granted E r key) \<Longrightarrow> x = (grant_key (snd x), snd x)"
  by (auto simp: granted_def Let_def grant_key_def)

lemma spaceless_keys:
  assumes "spaceless X" "p \<in> X" "q \<in> X" "grant_key p = grant_key q" shows "p = q"
  by (rule grant_key_inject[OF assms(4)]) (use assms(1-3) in \<open>auto simp: spaceless_def\<close>)

lemma set_grants:
  assumes "spaceless (gpairs E role key)"
  shows "set (grants E role key) = (\<lambda>p. (grant_key p, p)) ` gpairs E role key"
proof (cases role)
  case (Some r)
  have form: "set (granted E r key) = (\<lambda>p. (grant_key p, p)) ` gpairs E role key"
    using granted_form[of _ E r key] by (force simp: Some gpairs_def image_iff)
  have "set (to_map (granted E r key)) = set (granted E r key)"
    by (rule set_to_map) (use assms in \<open>auto simp: form dest: spaceless_keys\<close>)
  then show ?thesis using form by (simp add: grants_def Some)
qed (simp add: grants_def gpairs_def)

lemma set_missing_in:
  assumes "spaceless (gpairs E c key)" "spaceless (gpairs E d key)"
  shows "set (missing_in (grants E c key) (grants E d key))
    = (\<lambda>p. (grant_key p, p)) ` (gpairs E c key - gpairs E d key)"
proof -
  have both: "spaceless (gpairs E c key \<union> gpairs E d key)"
    using assms by (auto simp: spaceless_def)
  have key: "grant_key p \<in> grant_key ` gpairs E d key \<longleftrightarrow> p \<in> gpairs E d key" if "p \<in> gpairs E c key" for p
  proof
    assume "grant_key p \<in> grant_key ` gpairs E d key"
    then obtain q where q: "q \<in> gpairs E d key" "grant_key p = grant_key q" by auto
    from spaceless_keys[OF both _ _ q(2)] that q(1) show "p \<in> gpairs E d key" by auto
  qed simp
  have "fst ` set (grants E d key) = grant_key ` gpairs E d key"
    by (simp add: set_grants assms image_image)
  then have "set (missing_in (grants E c key) (grants E d key))
      = {x \<in> (\<lambda>p. (grant_key p, p)) ` gpairs E c key. fst x \<notin> grant_key ` gpairs E d key}"
    by (simp add: missing_in_def set_grants assms map_of_eq_None_iff)
  also have "\<dots> = (\<lambda>p. (grant_key p, p)) ` (gpairs E c key - gpairs E d key)"
  proof -
    have "{p \<in> gpairs E c key. grant_key p \<notin> grant_key ` gpairs E d key} = gpairs E c key - gpairs E d key"
      using key by blast
    then show ?thesis by (simp add: Compr_image_eq)
  qed
  finally show ?thesis .
qed

lemma missing_in_empty:
  assumes "spaceless (gpairs E c key)" "spaceless (gpairs E d key)" "gpairs E c key \<subseteq> gpairs E d key"
  shows "missing_in (grants E c key) (grants E d key) = []"
proof -
  have "gpairs E c key - gpairs E d key = {}" using assms(3) by blast
  then have "set (missing_in (grants E c key) (grants E d key)) = {}"
    by (simp add: set_missing_in[OF assms(1,2)])
  then show ?thesis by blast
qed

section \<open>What the export shows of one role\<close>

definition role_view :: "role_store \<Rightarrow> string \<Rightarrow> string option option \<times> (string \<times> string) set \<times> (string \<times> string) set" where
  "role_view s n = (map_of (rt_rows s) n, set (rows_of n (rt_policies s)), set (rows_of n (rt_revoked s)))"

lemma set_rows_of [simp]: "set (rows_of n gs) = {p. (n, p) \<in> set gs}"
  by (force simp: rows_of_def)

lemma role_view_eq: "role_view s n = (map_of (rt_rows s) n, {p. (n, p) \<in> set (rt_policies s)}, {p. (n, p) \<in> set (rt_revoked s)})"
  by (simp add: role_view_def)

lemma granted_listed:
  assumes "pget role ''name'' = JStr n" "pget role key = listed ps"
  shows "snd ` set (granted E role key) = {(r, a). (r, a) \<in> set ps \<and> (se_default E n r a \<noteq> (key = ''permissions''))}"
proof -
  have acts: "actions_of (JArr (map JStr as)) = Some as" for as
    by (simp add: comp_def)
  show ?thesis
    by (force simp: granted_def assms listed_def Let_def acts image_iff simp del: actions_of.simps)
qed

lemma exported_pairs:
  assumes "role_view s n = (row, P, R)"
  shows "gpairs E (Some (export_role E s n)) ''permissions'' = (if n = [] then {} else {(r, a) \<in> P. r \<noteq> [] \<and> a \<noteq> [] \<and> \<not> se_default E n r a})"
    and "gpairs E (Some (export_role E s n)) ''revokedDefaults'' = {(r, a) \<in> R. se_default E n r a}"
proof -
  have "set (rows_of n (exported_grants E s)) = (if n = [] then {} else {(r, a) \<in> P. r \<noteq> [] \<and> a \<noteq> [] \<and> \<not> se_default E n r a})"
    using assms by (force simp: rows_of_def exported_grants_def role_view_eq image_iff)
  then show "gpairs E (Some (export_role E s n)) ''permissions'' = (if n = [] then {} else {(r, a) \<in> P. r \<noteq> [] \<and> a \<noteq> [] \<and> \<not> se_default E n r a})"
    unfolding gpairs_def
    by (subst option.case, subst granted_listed[where n = n and ps = "rows_of n (exported_grants E s)"]) (auto simp: export_role_def)
next
  have rows: "set (rows_of n (exported_revokes E s)) = {(r, a) \<in> R. se_default E n r a}"
    using assms by (force simp: rows_of_def exported_revokes_def role_view_eq image_iff is_default_row_def)
  show "gpairs E (Some (export_role E s n)) ''revokedDefaults'' = {(r, a) \<in> R. se_default E n r a}"
  proof (cases "rows_of n (exported_revokes E s) = []")
    case True
    then show ?thesis using rows by (auto simp: gpairs_def granted_def export_role_def Let_def)
  next
    case False
    then show ?thesis
      unfolding gpairs_def
      by (subst option.case, subst granted_listed[where n = n and ps = "rows_of n (exported_revokes E s)"])
        (use rows in \<open>auto simp: export_role_def\<close>)
  qed
qed

definition shown :: "schema_env \<Rightarrow> role_store \<Rightarrow> string \<Rightarrow> bool" where
  "shown E s n \<longleftrightarrow> (case role_view s n of (row, P, R) \<Rightarrow>
     row \<noteq> None \<or> (n \<noteq> [] \<and> (\<exists>(r, a) \<in> P. r \<noteq> [] \<and> a \<noteq> [] \<and> \<not> se_default E n r a)) \<or> (\<exists>(r, a) \<in> R. se_default E n r a))"

lemma role_names_shown: "n \<in> set (role_names E s) \<longleftrightarrow> shown E s n"
proof -
  have "n \<in> fst ` set (exported_grants E s) \<longleftrightarrow> n \<noteq> [] \<and> (\<exists>r a. (n, r, a) \<in> set (rt_policies s) \<and> r \<noteq> [] \<and> a \<noteq> [] \<and> \<not> se_default E n r a)"
    by (force simp: exported_grants_def)
  moreover have "n \<in> fst ` set (exported_revokes E s) \<longleftrightarrow> (\<exists>r a. (n, r, a) \<in> set (rt_revoked s) \<and> se_default E n r a)"
    by (force simp: exported_revokes_def is_default_row_def)
  moreover have "n \<in> fst ` set (rt_rows s) \<longleftrightarrow> map_of (rt_rows s) n \<noteq> None"
    by (simp add: map_of_eq_None_iff)
  ultimately show ?thesis
    by (auto simp: role_names_def shown_def role_view_eq)
qed

lemma map_of_export_roles:
  "map_of (export_roles E s) n = (if shown E s n then Some (export_role E s n) else None)"
proof -
  have "map_of (map (\<lambda>n. (n, f n)) xs) n = (if n \<in> set xs then Some (f n) else None)" for f :: "string \<Rightarrow> jval" and xs
    by (induction xs) auto
  then show ?thesis by (simp add: export_roles_def role_names_shown)
qed

section \<open>Running the steps of a role\<close>

lemma run_role_steps_append:
  "run_role_steps E (ps @ qs) s = (case run_role_steps E ps s of None \<Rightarrow> None | Some t \<Rightarrow> run_role_steps E qs t)"
  by (induction E ps s rule: run_role_steps.induct) (auto split: option.splits)

text \<open>A run of steps with a given effect on the tables, their order aside.\<close>

definition same_tables :: "role_store \<Rightarrow> (string \<times> string option) list \<Rightarrow> grant_row set \<Rightarrow> grant_row set \<Rightarrow> bool" where
  "same_tables s rows P R \<longleftrightarrow> rt_rows s = rows \<and> set (rt_policies s) = P \<and> set (rt_revoked s) = R"

lemma set_add_row [simp]: "set (add_row x xs) = insert x (set xs)"
  by (auto simp: add_row_def)

lemma run_grants:
  assumes "\<forall>(k, r, a) \<in> set xs. \<exists>act. f (k, r, a) = mk_step c t act d (Some (OpGrant n r a))"
    "same_tables s rows P R"
  shows "\<exists>u. run_role_steps E (map f xs) s = Some u
    \<and> same_tables u rows (P \<union> (\<lambda>x. (n, snd x)) ` set xs) (R - (\<lambda>x. (n, snd x)) ` set xs)"
  using assms
proof (induction xs arbitrary: s P R)
  case (Cons x xs)
  obtain k r a where x: "x = (k, r, a)" by (cases x)
  from Cons.prems(1) x obtain act where "f x = mk_step c t act d (Some (OpGrant n r a))" by auto
  moreover have st: "same_tables (table_add_policy (n, r, a) s) rows (insert (n, r, a) P) (R - {(n, r, a)})"
    using Cons.prems(2) by (auto simp: same_tables_def table_add_policy_def)
  obtain u where "run_role_steps E (map f xs) (table_add_policy (n, r, a) s) = Some u"
    "same_tables u rows (insert (n, r, a) P \<union> (\<lambda>x. (n, snd x)) ` set xs) (R - {(n, r, a)} - (\<lambda>x. (n, snd x)) ` set xs)"
    using Cons.IH[OF _ st] Cons.prems(1) unfolding list.set(2) ball_simps by blast
  moreover have "R - {(n, r, a)} - (\<lambda>x. (n, snd x)) ` set xs = R - (\<lambda>x. (n, snd x)) ` set (x # xs)"
    "insert (n, r, a) P \<union> (\<lambda>x. (n, snd x)) ` set xs = P \<union> (\<lambda>x. (n, snd x)) ` set (x # xs)"
    by (auto simp: x)
  ultimately show ?case by (simp add: mk_step_def)
qed simp

lemma run_revokes:
  assumes "\<forall>(k, r, a) \<in> set xs. \<not> se_default E n r a" "same_tables s rows P R"
  shows "\<exists>u. run_role_steps E (map (\<lambda>(k, r, a). mk_step c t (Revoke r a) d (Some (OpRevoke n r a))) xs) s = Some u
    \<and> same_tables u rows (P - (\<lambda>x. (n, snd x)) ` set xs) R"
  using assms
proof (induction xs arbitrary: s P)
  case (Cons x xs)
  obtain k r a where x: "x = (k, r, a)" by (cases x)
  have "\<not> se_default E n r a" using Cons.prems(1) x by auto
  then have st: "same_tables (table_remove_policy E (n, r, a) s) rows (P - {(n, r, a)}) R"
    using Cons.prems(2) by (auto simp: same_tables_def table_remove_policy_def is_default_row_def)
  obtain u where
    "run_role_steps E (map (\<lambda>(k, r, a). mk_step c t (Revoke r a) d (Some (OpRevoke n r a))) xs) (table_remove_policy E (n, r, a) s) = Some u"
    "same_tables u rows (P - {(n, r, a)} - (\<lambda>x. (n, snd x)) ` set xs) R"
    using Cons.IH[OF _ st] Cons.prems(1) unfolding list.set(2) ball_simps by blast
  moreover have "P - {(n, r, a)} - (\<lambda>x. (n, snd x)) ` set xs = P - (\<lambda>x. (n, snd x)) ` set (x # xs)"
    by (auto simp: x)
  ultimately show ?case by (simp add: x mk_step_def)
qed simp

lemma run_default_revokes:
  assumes "\<forall>(k, r, a) \<in> set xs. se_default E n r a" "same_tables s rows P R"
  shows "\<exists>u. run_role_steps E (map (\<lambda>(k, r, a). mk_step c t (RevokeDefault r a) d (Some (OpRevokeDefault n r a))) xs) s = Some u
    \<and> same_tables u rows (P - (\<lambda>x. (n, snd x)) ` set xs) (R \<union> (\<lambda>x. (n, snd x)) ` set xs)"
  using assms
proof (induction xs arbitrary: s P R)
  case (Cons x xs)
  obtain k r a where x: "x = (k, r, a)" by (cases x)
  have "se_default E n r a" using Cons.prems(1) x by auto
  then have "\<exists>v. revokeDefaultGrant E (n, r, a) s = Some v \<and> same_tables v rows (P - {(n, r, a)}) (insert (n, r, a) R)"
    using Cons.prems(2) by (auto simp: same_tables_def table_remove_policy_def revokeDefaultGrant_def is_default_row_def)
  then obtain v where v: "revokeDefaultGrant E (n, r, a) s = Some v" "same_tables v rows (P - {(n, r, a)}) (insert (n, r, a) R)"
    by blast
  obtain u where
    "run_role_steps E (map (\<lambda>(k, r, a). mk_step c t (RevokeDefault r a) d (Some (OpRevokeDefault n r a))) xs) v = Some u"
    "same_tables u rows (P - {(n, r, a)} - (\<lambda>x. (n, snd x)) ` set xs) (insert (n, r, a) R \<union> (\<lambda>x. (n, snd x)) ` set xs)"
    using Cons.IH[OF _ v(2)] Cons.prems(1) unfolding list.set(2) ball_simps by blast
  moreover have "P - {(n, r, a)} - (\<lambda>x. (n, snd x)) ` set xs = P - (\<lambda>x. (n, snd x)) ` set (x # xs)"
    "insert (n, r, a) R \<union> (\<lambda>x. (n, snd x)) ` set xs = R \<union> (\<lambda>x. (n, snd x)) ` set (x # xs)"
    by (auto simp: x)
  ultimately show ?case by (simp add: x v mk_step_def)
qed simp

text \<open>The same with the steps given by a set of pairs.\<close>

lemma image_keyed: "set xs = (\<lambda>p. (grant_key p, p)) ` X \<Longrightarrow> (\<lambda>x. (n, snd x)) ` set xs = Pair n ` X"
  by (simp add: image_image)

lemma run_keyed_grants:
  assumes "set xs = (\<lambda>p. (grant_key p, p)) ` X" "\<And>x. \<exists>act. f x = mk_step c t act d (Some (OpGrant n (fst (snd x)) (snd (snd x))))"
    "same_tables s rows P R"
  obtains u where "run_role_steps E (map f xs) s = Some u" "same_tables u rows (P \<union> Pair n ` X) (R - Pair n ` X)"
proof -
  have "\<forall>(k, r, a) \<in> set xs. \<exists>act. f (k, r, a) = mk_step c t act d (Some (OpGrant n r a))"
    using assms(2) by fastforce
  from run_grants[OF this assms(3), where E = E] show thesis
    unfolding image_keyed[OF assms(1)] using that by blast
qed

lemma run_keyed_revokes:
  assumes "set xs = (\<lambda>p. (grant_key p, p)) ` X" "\<forall>(r, a) \<in> X. \<not> se_default E n r a" "same_tables s rows P R"
  obtains u where "run_role_steps E (map (\<lambda>(k, r, a). mk_step c t (Revoke r a) d (Some (OpRevoke n r a))) xs) s = Some u"
    "same_tables u rows (P - Pair n ` X) R"
proof -
  have "\<forall>(k, r, a) \<in> set xs. \<not> se_default E n r a"
    using assms(2) unfolding assms(1) by auto
  from run_revokes[OF this assms(3)] show thesis
    unfolding image_keyed[OF assms(1)] using that by blast
qed

lemma run_keyed_default_revokes:
  assumes "set xs = (\<lambda>p. (grant_key p, p)) ` X" "\<forall>(r, a) \<in> X. se_default E n r a" "same_tables s rows P R"
  obtains u where "run_role_steps E (map (\<lambda>(k, r, a). mk_step c t (RevokeDefault r a) d (Some (OpRevokeDefault n r a))) xs) s = Some u"
    "same_tables u rows (P - Pair n ` X) (R \<union> Pair n ` X)"
proof -
  have "\<forall>(k, r, a) \<in> set xs. se_default E n r a"
    using assms(2) unfolding assms(1) by auto
  from run_default_revokes[OF this assms(3)] show thesis
    unfolding image_keyed[OF assms(1)] using that by blast
qed

text \<open>The grants of one role after its steps.\<close>

lemma granted_default:
  "(r, a) \<in> gpairs E d key \<Longrightarrow> (case d of None \<Rightarrow> False | Some x \<Rightarrow> pget x ''name'' = JStr n) \<Longrightarrow>
    se_default E n r a = (key \<noteq> ''permissions'')"
  by (auto simp: gpairs_def granted_def Let_def split: option.splits)

lemma run_grant_steps:
  assumes view: "same_tables s rows P R"
    and named: "pget d ''name'' = JStr n" "\<And>x. c = Some x \<Longrightarrow> pget x ''name'' = JStr n"
    and sp: "spaceless (gpairs E c ''permissions'')" "spaceless (gpairs E (Some d) ''permissions'')"
      "spaceless (gpairs E c ''revokedDefaults'')" "spaceless (gpairs E (Some d) ''revokedDefaults'')"
  defines "had \<equiv> gpairs E c ''permissions''" and "has \<equiv> gpairs E (Some d) ''permissions''"
    and "lost \<equiv> gpairs E c ''revokedDefaults''" and "loses \<equiv> gpairs E (Some d) ''revokedDefaults''"
  shows "\<exists>u. run_role_steps E (grant_steps E n c d) s = Some u
    \<and> same_tables u rows
        ((((P - Pair n ` (had - has)) \<union> Pair n ` (has - had)) - Pair n ` (loses - lost)) \<union> Pair n ` (lost - loses))
        (((R - Pair n ` (has - had)) \<union> Pair n ` (loses - lost)) - Pair n ` (lost - loses))"
proof -
  note miss = set_missing_in[OF sp(1,2), folded had_def has_def] set_missing_in[OF sp(2,1), folded had_def has_def]
    set_missing_in[OF sp(4,3), folded lost_def loses_def] set_missing_in[OF sp(3,4), folded lost_def loses_def]
  have "\<not> se_default E n r a" if "(r, a) \<in> had - has" for r a
    using granted_default[of r a E c "''permissions''" n] that named(2) by (auto simp: had_def gpairs_def split: option.splits)
  then have dc: "\<forall>(r, a) \<in> had - has. \<not> se_default E n r a" by blast
  have "se_default E n r a" if "(r, a) \<in> loses - lost" for r a
    using granted_default[of r a E "Some d" "''revokedDefaults''" n] that named(1) by (auto simp: loses_def)
  then have dd: "\<forall>(r, a) \<in> loses - lost. se_default E n r a" by blast
  obtain s1 where s1: "run_role_steps E (map (\<lambda>(k, r, a). mk_step Minus (''role '' @ n) (Revoke r a) False (Some (OpRevoke n r a)))
      (missing_in (grants E c ''permissions'') (grants E (Some d) ''permissions''))) s = Some s1"
    "same_tables s1 rows (P - Pair n ` (had - has)) R"
    by (rule run_keyed_revokes[OF miss(1) dc view])
  obtain s2 where s2: "run_role_steps E (map (\<lambda>(k, r, a). mk_step Plus (''role '' @ n) (Grant r a) False (Some (OpGrant n r a)))
      (missing_in (grants E (Some d) ''permissions'') (grants E c ''permissions''))) s1 = Some s2"
    "same_tables s2 rows ((P - Pair n ` (had - has)) \<union> Pair n ` (has - had)) (R - Pair n ` (has - had))"
    by (rule run_keyed_grants[OF miss(2) _ s1(2), of "\<lambda>(k, r, a). mk_step Plus (''role '' @ n) (Grant r a) False (Some (OpGrant n r a))"]) auto
  obtain s3 where s3: "run_role_steps E (map (\<lambda>(k, r, a). mk_step Minus (''role '' @ n) (RevokeDefault r a) False (Some (OpRevokeDefault n r a)))
      (missing_in (grants E (Some d) ''revokedDefaults'') (grants E c ''revokedDefaults''))) s2 = Some s3"
    "same_tables s3 rows (((P - Pair n ` (had - has)) \<union> Pair n ` (has - had)) - Pair n ` (loses - lost))
       ((R - Pair n ` (has - had)) \<union> Pair n ` (loses - lost))"
    by (rule run_keyed_default_revokes[OF miss(3) dd s2(2)])
  obtain s4 where s4: "run_role_steps E (map (\<lambda>(k, r, a). mk_step Plus (''role '' @ n) (RestoreDefault r a) False (Some (OpGrant n r a)))
      (missing_in (grants E c ''revokedDefaults'') (grants E (Some d) ''revokedDefaults''))) s3 = Some s4"
    "same_tables s4 rows ((((P - Pair n ` (had - has)) \<union> Pair n ` (has - had)) - Pair n ` (loses - lost)) \<union> Pair n ` (lost - loses))
       (((R - Pair n ` (has - had)) \<union> Pair n ` (loses - lost)) - Pair n ` (lost - loses))"
    by (rule run_keyed_grants[OF miss(4) _ s3(2), of "\<lambda>(k, r, a). mk_step Plus (''role '' @ n) (RestoreDefault r a) False (Some (OpGrant n r a))"]) auto
  show ?thesis
    by (rule exI[of _ s4]) (simp only: grant_steps_def Let_def run_role_steps_append s1(1) s2(1) s3(1) s4 option.case simp_thms)
qed

section \<open>A role after its steps\<close>

definition spaceless_tables :: "role_store \<Rightarrow> bool" where
  "spaceless_tables s \<longleftrightarrow> spaceless (snd ` set (rt_policies s)) \<and> spaceless (snd ` set (rt_revoked s))"

definition settled :: "schema_env \<Rightarrow> role_store \<Rightarrow> string \<Rightarrow> jval option \<Rightarrow> bool" where
  "settled E s n d \<longleftrightarrow> role_steps E n (map_of (export_roles E s) n) d = []"

text \<open>
  What a file may say of a role: its own name, a description that is a string or not there,
  resources without a space and no empty grant.  A role the files leave out is one the
  engine implies, and one with grants but no row of its own is given no description.
\<close>

definition role_ready :: "schema_env \<Rightarrow> role_store \<Rightarrow> string \<Rightarrow> jval option \<Rightarrow> bool" where
  "role_ready E s n d \<longleftrightarrow> n \<noteq> [] \<and>
    (case d of
       None \<Rightarrow> implied_role E n
     | Some r \<Rightarrow> pget r ''name'' = JStr n \<and> (pget r ''description'' = JNull \<or> optional_text (pget r ''description'') \<noteq> None)
         \<and> spaceless (gpairs E d ''permissions'') \<and> spaceless (gpairs E d ''revokedDefaults'')
         \<and> (\<forall>(r, a) \<in> gpairs E d ''permissions''. r \<noteq> [] \<and> a \<noteq> [])
         \<and> (shown E s n \<and> fst (role_view s n) = None \<longrightarrow> implied_role E n \<and> pget r ''description'' = JNull))"

lemma gpairs_exported:
  assumes "role_view s n = (row, P, R)"
  shows "gpairs E (map_of (export_roles E s) n) ''permissions'' = (if n = [] then {} else {(r, a) \<in> P. r \<noteq> [] \<and> a \<noteq> [] \<and> \<not> se_default E n r a})"
    and "gpairs E (map_of (export_roles E s) n) ''revokedDefaults'' = {(r, a) \<in> R. se_default E n r a}"
proof -
  have none: "gpairs E None k = {}" for k by (simp add: gpairs_def)
  show "gpairs E (map_of (export_roles E s) n) ''permissions'' = (if n = [] then {} else {(r, a) \<in> P. r \<noteq> [] \<and> a \<noteq> [] \<and> \<not> se_default E n r a})"
    "gpairs E (map_of (export_roles E s) n) ''revokedDefaults'' = {(r, a) \<in> R. se_default E n r a}"
    using assms by (cases "shown E s n"; simp add: map_of_export_roles exported_pairs[OF assms] none; auto simp: shown_def)+
qed

lemma exported_named: "map_of (export_roles E s) n = Some x \<Longrightarrow> pget x ''name'' = JStr n"
  by (auto simp: map_of_export_roles export_role_def split: if_splits)

lemma exported_description:
  "map_of (export_roles E s) n = Some x \<Longrightarrow>
    pget x ''description'' = (case fst (role_view s n) of Some (Some d) \<Rightarrow> JStr d | _ \<Rightarrow> JNull)"
  by (auto simp: map_of_export_roles export_role_def role_view_eq split: if_splits)

lemma exported_none_row: "map_of (export_roles E s) n = None \<Longrightarrow> fst (role_view s n) = None"
  by (auto simp: map_of_export_roles shown_def role_view_eq split: if_splits)

text \<open>Whether a role is settled shows in what its own rows hold.\<close>

lemma gpairs_wanted:
  assumes "wanted_role E n c d = Some w" "key \<noteq> ''description''" "key \<noteq> ''name''"
  shows "gpairs E (Some w) key = gpairs E d key"
proof (cases d)
  case None
  then have "pget w key = JNull"
    using assms by (auto simp: wanted_role_def split: if_splits)
  then show ?thesis by (simp add: None gpairs_def granted_def Let_def)
next
  case (Some r)
  with assms(1) show ?thesis by (simp add: wanted_role_def)
qed

lemma settledI:
  assumes ready: "role_ready E S n d" and view: "role_view t n = (row, P, R)"
    and sp: "spaceless P" "spaceless R"
    and grants: "{(r, a) \<in> P. r \<noteq> [] \<and> a \<noteq> [] \<and> \<not> se_default E n r a} = gpairs E d ''permissions''"
      "{(r, a) \<in> R. se_default E n r a} = gpairs E d ''revokedDefaults''"
    and row: "\<And>r. d = Some r \<Longrightarrow> row = None \<Longrightarrow> implied_role E n \<and> pget r ''description'' = JNull"
      "\<And>r x. d = Some r \<Longrightarrow> row = Some x \<Longrightarrow> same (case x of None \<Rightarrow> JNull | Some v \<Rightarrow> JStr v) (pget r ''description'')"
  shows "settled E t n d"
proof -
  let ?c = "map_of (export_roles E t) n"
  have ne: "n \<noteq> []" using ready by (simp add: role_ready_def)
  have spd: "spaceless (gpairs E d ''permissions'')" "spaceless (gpairs E d ''revokedDefaults'')"
    using ready by (auto simp: role_ready_def gpairs_def spaceless_def split: option.splits)
  have eq: "gpairs E ?c ''permissions'' = gpairs E d ''permissions''" "gpairs E ?c ''revokedDefaults'' = gpairs E d ''revokedDefaults''"
    using gpairs_exported[OF view, of E] grants ne by simp_all
  obtain w where w: "wanted_role E n ?c d = Some w"
    using ready by (auto simp: wanted_role_def role_ready_def split: option.splits)
  note gw = gpairs_wanted[OF w, of "''permissions''"] gpairs_wanted[OF w, of "''revokedDefaults''"]
  have gs: "grant_steps E n ?c w = []"
    using spd eq by (simp add: grant_steps_def Let_def missing_in_empty gw)
  have "role_row_step E n ?c w = []"
  proof (cases d)
    case None
    then have "implied_role E n" using ready by (simp add: role_ready_def)
    with w None show ?thesis
      by (cases ?c) (auto simp: wanted_role_def role_row_step_def optional_text_def)
  next
    case (Some r)
    with w have "w = r" by (simp add: wanted_role_def)
    show ?thesis
    proof (cases ?c)
      case None
      then have "row = None" using exported_none_row[OF None] view by simp
      with row(1)[OF Some] show ?thesis
        by (simp add: None role_row_step_def Let_def optional_text_def \<open>w = r\<close>)
    next
      case (Some x)
      have "same (pget x ''description'') (pget r ''description'')"
        using exported_description[OF Some] row(1)[OF \<open>d = Some r\<close>] row(2)[OF \<open>d = Some r\<close>] view
        by (cases row) auto
      then show ?thesis by (simp add: Some role_row_step_def Let_def \<open>w = r\<close>)
    qed
  qed
  with gs show ?thesis by (simp add: settled_def role_steps_def w)
qed

lemma map_of_map_values [simp]: "map_of (map_values g m) k = map_option (g k) (map_of m k)"
  by (induction m) (auto simp: map_values_def)

lemma shown_if_exported: "map_of (export_roles E s) n = Some x \<Longrightarrow> shown E s n"
  by (simp add: map_of_export_roles split: if_splits)

definition row_fits :: "schema_env \<Rightarrow> string \<Rightarrow> jval option \<Rightarrow> string option option \<Rightarrow> bool" where
  "row_fits E n d row \<longleftrightarrow> (case d of None \<Rightarrow> True | Some r \<Rightarrow> (case row of
       None \<Rightarrow> implied_role E n \<and> pget r ''description'' = JNull
     | Some x \<Rightarrow> same (case x of None \<Rightarrow> JNull | Some v \<Rightarrow> JStr v) (pget r ''description'')))"

lemma description_of_text:
  "pget r ''description'' = JNull \<or> optional_text (pget r ''description'') \<noteq> None \<Longrightarrow>
    (case optional_text (pget r ''description'') of None \<Rightarrow> JNull | Some v \<Rightarrow> JStr v) = pget r ''description''"
  by (auto simp: optional_text_def split: json.splits)

lemma run_row_step:
  assumes ready: "role_ready E S n d" and row: "map_of (rt_rows s) n = map_of (rt_rows S) n"
    and w: "wanted_role E n (map_of (export_roles E S) n) d = Some w"
  obtains s' where "run_role_steps E (role_row_step E n (map_of (export_roles E S) n) w) s = Some s'"
    "rt_policies s' = rt_policies s" "rt_revoked s' = rt_revoked s"
    "\<And>m. m \<noteq> n \<Longrightarrow> map_of (rt_rows s') m = map_of (rt_rows s) m" "row_fits E n d (map_of (rt_rows s') n)"
proof -
  let ?c = "map_of (export_roles E S) n" and ?text = "optional_text (pget w ''description'')"
  have fst_view: "fst (role_view S n) = map_of (rt_rows S) n" by (simp add: role_view_eq)
  show thesis
  proof (cases ?c)
    case None
    then have r0: "map_of (rt_rows S) n = None" using exported_none_row fst_view by metis
    show thesis
    proof (cases "\<not> implied_role E n \<or> ?text \<noteq> None")
      case True
      have step: "role_row_step E n ?c w = [mk_step Plus (''role '' @ n) CreateRole False (Some (OpCreateRole n ?text))]"
        using True unfolding None role_row_step_def Let_def option.case by (rule if_P)
      have new: "n \<notin> fst ` set (rt_rows s)" using r0 row by (metis map_of_eq_None_iff)
      have fits: "row_fits E n d (Some ?text)"
      proof (cases d)
        case (Some r)
        with w have "w = r" by (simp add: wanted_role_def)
        with description_of_text[of r] ready Some show ?thesis by (auto simp: row_fits_def role_ready_def)
      qed (simp add: row_fits_def)
      show thesis
        by (rule that[of "s\<lparr> rt_rows := rt_rows s @ [(n, ?text)] \<rparr>"])
          (use new fits in \<open>auto simp: step mk_step_def map_add_def r0 row split: option.splits\<close>)
    next
      case False
      have "row_fits E n d None"
      proof (cases d)
        case (Some r)
        with w have "w = r" by (simp add: wanted_role_def)
        with False ready Some show ?thesis by (auto simp: row_fits_def role_ready_def)
      qed (simp add: row_fits_def)
      then show thesis
        by (intro that[of s]) (use False in \<open>auto simp: None role_row_step_def r0 row\<close>)
    qed
  next
    case (Some x)
    have dx: "pget x ''description'' = (case map_of (rt_rows S) n of Some (Some t) \<Rightarrow> JStr t | _ \<Rightarrow> JNull)"
      using exported_description[OF Some] by (simp add: fst_view)
    have lacks: "implied_role E n \<and> pget r ''description'' = JNull" if "d = Some r" "map_of (rt_rows S) n = None" for r
      using ready that shown_if_exported[OF Some] by (simp add: role_ready_def fst_view)
    show thesis
    proof (cases "same (pget x ''description'') (pget w ''description'')")
      case True
      have "row_fits E n d (map_of (rt_rows S) n)"
      proof (cases d)
        case d: (Some r)
        with w have "w = r" by (simp add: wanted_role_def)
        then show ?thesis
          using True dx lacks[OF d] by (cases "map_of (rt_rows S) n") (auto simp: row_fits_def d split: option.splits)
      qed (simp add: row_fits_def)
      then show thesis
        by (intro that[of s]) (use True in \<open>auto simp: Some role_row_step_def row\<close>)
    next
      case False
      then obtain r where d: "d = Some r" using w Some by (cases d) (auto simp: wanted_role_def split: if_splits)
      with w have "w = r" by (simp add: wanted_role_def)
      obtain v where v: "map_of (rt_rows S) n = Some v"
        using False dx lacks[OF d] \<open>w = r\<close> by (cases "map_of (rt_rows S) n") auto
      have step: "role_row_step E n ?c w = [mk_step Tilde (''role '' @ n) SetDescription False (Some (OpSetRole n ?text))]"
        using False unfolding Some role_row_step_def Let_def option.case by (rule if_not_P)
      have "row_fits E n d (Some ?text)"
        using description_of_text[of r] ready d \<open>w = r\<close> by (auto simp: row_fits_def role_ready_def)
      then show thesis
        by (intro that[of "s\<lparr> rt_rows := map_values (\<lambda>m u. if m = n then ?text else u) (rt_rows s) \<rparr>"])
          (auto simp: step mk_step_def row v intro: option.map_ident_strong)
    qed
  qed
qed

text \<open>The rows of a role as the files want them.\<close>

definition view_fits :: "schema_env \<Rightarrow> string \<Rightarrow> jval option \<Rightarrow> string option option \<times> (string \<times> string) set \<times> (string \<times> string) set \<Rightarrow> bool" where
  "view_fits E n d v \<longleftrightarrow> (case v of (row, P, R) \<Rightarrow> spaceless P \<and> spaceless R
     \<and> {(r, a) \<in> P. r \<noteq> [] \<and> a \<noteq> [] \<and> \<not> se_default E n r a} = gpairs E d ''permissions''
     \<and> {(r, a) \<in> R. se_default E n r a} = gpairs E d ''revokedDefaults'' \<and> row_fits E n d row)"

lemma settled_if_fits: "role_ready E S n d \<Longrightarrow> view_fits E n d (role_view t n) \<Longrightarrow> settled E t n d"
  by (cases "role_view t n") (auto simp: view_fits_def row_fits_def intro: settledI)

lemma run_role:
  assumes ready: "role_ready E S n d" and tables: "spaceless_tables S" and view: "role_view s n = role_view S n"
  obtains t where "run_role_steps E (role_steps E n (map_of (export_roles E S) n) d) s = Some t"
    "\<forall>m. m \<noteq> n \<longrightarrow> role_view t m = role_view s m" "view_fits E n d (role_view t n)"
proof -
  let ?c = "map_of (export_roles E S) n"
  obtain w where w: "wanted_role E n ?c d = Some w"
    using ready by (auto simp: wanted_role_def role_ready_def split: option.splits)
  obtain row P R where rv: "role_view S n = (row, P, R)" by (cases "role_view S n")
  have ne: "n \<noteq> []" and spd: "spaceless (gpairs E d ''permissions'')" "spaceless (gpairs E d ''revokedDefaults'')"
    using ready by (auto simp: role_ready_def gpairs_def spaceless_def split: option.splits)
  have sp: "spaceless P" "spaceless R"
    using tables rv by (auto simp: spaceless_tables_def spaceless_def role_view_eq image_iff)
  note gw = gpairs_wanted[OF w, of "''permissions''", simplified] gpairs_wanted[OF w, of "''revokedDefaults''", simplified]
  define had has lost loses where "had = gpairs E ?c ''permissions''" and "has = gpairs E d ''permissions''"
    and "lost = gpairs E ?c ''revokedDefaults''" and "loses = gpairs E d ''revokedDefaults''"
  note sets = had_def has_def lost_def loses_def
  have had: "had = {(r, a) \<in> P. r \<noteq> [] \<and> a \<noteq> [] \<and> \<not> se_default E n r a}" and lost: "lost = {(r, a) \<in> R. se_default E n r a}"
    using gpairs_exported[OF rv, of E] ne by (simp_all add: sets)
  have spc: "spaceless had" "spaceless lost" using sp by (auto simp: had lost spaceless_def)
  have named: "pget w ''name'' = JStr n"
    using w ready by (auto simp: wanted_role_def role_ready_def split: option.splits if_splits)
  have dflt: "\<not> se_default E n r a" if "(r, a) \<in> has" for r a
    using that granted_default[of r a E "Some w" "''permissions''" n] named by (simp add: sets gw)
  have dflt2: "se_default E n r a" if "(r, a) \<in> loses" for r a
    using that granted_default[of r a E "Some w" "''revokedDefaults''" n] named by (simp add: sets gw)
  have full: "([], a) \<notin> has" "(a, []) \<notin> has" for a
    using ready by (auto simp: sets role_ready_def gpairs_def split: option.splits)
  obtain s' where s': "run_role_steps E (role_row_step E n ?c w) s = Some s'"
    "rt_policies s' = rt_policies s" "rt_revoked s' = rt_revoked s"
    "\<And>m. m \<noteq> n \<Longrightarrow> map_of (rt_rows s') m = map_of (rt_rows s) m" "row_fits E n d (map_of (rt_rows s') n)"
    using run_row_step[OF ready _ w, of s] view by (auto simp: role_view_eq)
  obtain t where t: "run_role_steps E (grant_steps E n ?c w) s' = Some t"
    "same_tables t (rt_rows s')
        ((((set (rt_policies s) - Pair n ` (had - has)) \<union> Pair n ` (has - had)) - Pair n ` (loses - lost)) \<union> Pair n ` (lost - loses))
        (((set (rt_revoked s) - Pair n ` (has - had)) \<union> Pair n ` (loses - lost)) - Pair n ` (lost - loses))"
    using run_grant_steps[of s' "rt_rows s'" "set (rt_policies s)" "set (rt_revoked s)" w n ?c E] s'(2,3) named exported_named[of E S n] spc spd
    by (auto simp: same_tables_def sets gw)
  have others: "role_view t m = role_view s m" if "m \<noteq> n" for m
    using t(2) s'(4)[OF that] that by (auto simp: role_view_eq same_tables_def)
  define P' R' where "P' = (((P - (had - has)) \<union> (has - had)) - (loses - lost)) \<union> (lost - loses)"
    and "R' = ((R - (has - had)) \<union> (loses - lost)) - (lost - loses)"
  have PR: "P = {p. (n, p) \<in> set (rt_policies s)}" "R = {p. (n, p) \<in> set (rt_revoked s)}"
    using view rv by (auto simp: role_view_eq)
  have own: "role_view t n = (map_of (rt_rows s') n, P', R')"
    using t(2) by (auto simp: role_view_eq same_tables_def PR P'_def R'_def)
  have perms: "{(r, a) \<in> P'. r \<noteq> [] \<and> a \<noteq> [] \<and> \<not> se_default E n r a} = gpairs E d ''permissions''"
    unfolding has_def[symmetric] P'_def using dflt dflt2 full by (auto simp: had lost)
  have revs: "{(r, a) \<in> R'. se_default E n r a} = gpairs E d ''revokedDefaults''"
    unfolding loses_def[symmetric] R'_def using dflt dflt2 by (auto simp: had lost)
  have "spaceless P'" "spaceless R'"
    using sp spc spd by (auto simp: P'_def R'_def sets spaceless_def)
  with perms revs s'(5) have "view_fits E n d (role_view t n)"
    by (simp add: view_fits_def own)
  moreover have "run_role_steps E (role_steps E n ?c d) s = Some t"
    by (simp add: role_steps_def w run_role_steps_append s'(1) t(1))
  ultimately show thesis using that others by blast
qed

lemma run_roles:
  assumes tables: "spaceless_tables S"
  shows "distinct ns \<Longrightarrow> \<forall>n \<in> set ns. role_ready E S n (map_of des n) \<and> role_view s n = role_view S n \<Longrightarrow>
    \<exists>t. run_role_steps E (concat (map (\<lambda>n. role_steps E n (map_of (export_roles E S) n) (map_of des n)) ns)) s = Some t
      \<and> (\<forall>m. m \<notin> set ns \<longrightarrow> role_view t m = role_view s m) \<and> (\<forall>n \<in> set ns. view_fits E n (map_of des n) (role_view t n))"
proof (induction ns arbitrary: s)
  case (Cons n ns)
  have ready: "role_ready E S n (map_of des n)" and view: "role_view s n = role_view S n" using Cons.prems by simp_all
  obtain u where u: "run_role_steps E (role_steps E n (map_of (export_roles E S) n) (map_of des n)) s = Some u"
    "\<forall>m. m \<noteq> n \<longrightarrow> role_view u m = role_view s m" "view_fits E n (map_of des n) (role_view u n)"
    by (rule run_role[OF ready tables view])
  have "\<forall>m \<in> set ns. role_ready E S m (map_of des m) \<and> role_view u m = role_view S m"
    using Cons.prems u(2) by auto
  with Cons.IH[of u] Cons.prems(1) obtain t where
    "run_role_steps E (concat (map (\<lambda>n. role_steps E n (map_of (export_roles E S) n) (map_of des n)) ns)) u = Some t"
    "\<forall>m. m \<notin> set ns \<longrightarrow> role_view t m = role_view u m" "\<forall>n \<in> set ns. view_fits E n (map_of des n) (role_view t n)"
    by auto
  then show ?case
    using u Cons.prems(1) by (auto simp: run_role_steps_append)
qed simp

lemma shown_view: "role_view s n = role_view t n \<Longrightarrow> shown E s n = shown E t n"
  by (simp add: shown_def)

lemma set_names_of [simp]: "set (names_of a b) = fst ` set a \<union> fst ` set b"
  by (simp add: names_of_def)

lemma distinct_names_of [simp]: "distinct (names_of a b)"
  by (simp add: names_of_def)

lemma keys_export_roles: "n \<in> fst ` set (export_roles E s) \<longleftrightarrow> shown E s n"
  by (auto simp: export_roles_def role_names_shown image_iff)


definition demo_env :: schema_env where
  "demo_env = \<lparr> se_parse = (\<lambda>t. None), se_text = (\<lambda>v. []), se_sha = (\<lambda>v. []),
     se_default = (\<lambda>n r a. n = ''member'' \<and> a = ''read''), se_default_role = (\<lambda>n. n = ''member'') \<rparr>"

definition demo_roles :: role_store where
  "demo_roles = \<lparr> rt_rows = [(''editor'', None)],
     rt_policies = [(''editor'', ''posts'', ''read''), (''member'', ''posts'', ''read'')], rt_revoked = [] \<rparr>"

definition demo_role_files :: "(string \<times> jval) list" where
  "demo_role_files =
    [(''editor'', JObj [(''name'', JStr ''editor''), (''description'', JStr ''Writes''),
        (''permissions'', JArr [JObj [(''resource'', JStr ''posts''), (''actions'', JArr [JStr ''update''])]])]),
     (''member'', JObj [(''name'', JStr ''member''),
        (''revokedDefaults'', JArr [JObj [(''resource'', JStr ''posts''), (''actions'', JArr [JStr ''read''])]])])]"


lemma demo_roles_run:
  "map_option (\<lambda>T. (rt_rows T, rt_policies T, rt_revoked T))
     (run_role_steps demo_env (all_role_steps demo_env (export_roles demo_env demo_roles) demo_role_files) demo_roles)
   = Some ([(''editor'', Some ''Writes'')], [(''editor'', ''posts'', ''update'')], [(''member'', ''posts'', ''read'')])"
  by code_simp

text \<open>
  A role with grants and no row in \<open>zv_roles\<close>, as every role the engine seeds: a description
  in the files is an update of no row, so the same step is planned again after every apply.
\<close>

lemma seeded_description_never_lands:
  "(let s = \<lparr> rt_rows = [], rt_policies = [(''admin'', ''posts'', ''read'')], rt_revoked = [] \<rparr>;
        des = [(''admin'', JObj [(''name'', JStr ''admin''), (''description'', JStr ''Everything''),
          (''permissions'', JArr [JObj [(''resource'', JStr ''posts''), (''actions'', JArr [JStr ''read''])]])])];
        p = all_role_steps demo_env (export_roles demo_env s) des
    in p \<noteq> [] \<and> run_role_steps demo_env p s = Some s)"
  by code_simp

end
