(* ===== verification/SchemaSafety.thy ===== *)
theory SchemaSafety
  imports SchemaRoles
begin

text \<open>
  What a plan that is admitted can do to what an instance has (\<open>lib/schema-artifact/apply.ts\<close>
  admits it): no field, collection or role goes without being asked for; and what happens
  when a migration that failed part-way is run again.
\<close>

section \<open>Admission\<close>

datatype apply_refusal =
    Unsupported "plan_step list"
  | NeedsDestructive "plan_step list"
  | BadOp migration_op

definition admit :: "bool \<Rightarrow> plan_step list \<Rightarrow> (apply_refusal, plan_step list) result" where
  "admit allowDestructive steps =
    (let refused = filter (\<lambda>s. ps_op s = None) steps; destructive = filter ps_destructive steps in
     if refused \<noteq> [] then Throw (Unsupported refused)
     else if destructive \<noteq> [] \<and> \<not> allowDestructive then Throw (NeedsDestructive destructive)
     else Ok steps)"

text \<open>
  \<open>prepare\<close>, of a migration op: the field types registered, the system columns, the names in
  \<open>zv_roles\<close>, and the collections a drop of which is refused.
\<close>

record catalog =
  ct_types :: "string list"
  ct_system :: "string list"
  ct_roles :: "string list"
  ct_locked :: "string list"

definition prepare_migration :: "catalog \<Rightarrow> migration_op \<Rightarrow> (apply_refusal, unit) result" where
  "prepare_migration K c =
    (if (case c of
           ChangeFieldType n f t \<Rightarrow> t \<notin> set (ct_types K)
         | RenameField n a b \<Rightarrow> b \<in> set (ct_system K)
         | DropRoleOp r \<Rightarrow> r \<in> set ENGINE_SEEDED_ROLES \<or> r \<notin> set (ct_roles K)
         | DropCollectionOp n \<Rightarrow> n \<in> set (ct_locked K)
         | DropFieldOp n f \<Rightarrow> False)
     then Throw (BadOp c) else Ok ())"

text \<open>\<open>deleteRole\<close>: its grants, a default among them recorded as revoked, and its row.\<close>

definition deleteRole :: "schema_env \<Rightarrow> string \<Rightarrow> role_store \<Rightarrow> role_store" where
  "deleteRole E n s =
    \<lparr> rt_rows = without n (rt_rows s), rt_policies = filter (\<lambda>g. fst g \<noteq> n) (rt_policies s),
      rt_revoked = fold add_row (filter (\<lambda>g. fst g = n \<and> is_default_row E g) (rt_policies s)) (rt_revoked s) \<rparr>"

lemma admit_ok:
  assumes "admit False steps = Ok steps'" "s \<in> set steps"
  shows "ps_op s \<noteq> None \<and> \<not> ps_destructive s"
  using assms by (auto simp: admit_def Let_def filter_empty_conv split: if_splits)

section \<open>Well-formed file sets\<close>

definition field_ok :: "jval \<Rightarrow> bool" where
  "field_ok f \<longleftrightarrow> (\<exists>ms n t. f = JObj ms \<and> pget f ''name'' = JStr n \<and> n \<noteq> [] \<and> pget f ''type'' = JStr t)"

definition collection_ok :: "jval \<Rightarrow> bool" where
  "collection_ok c \<longleftrightarrow> (\<exists>ms. c = JObj ms) \<and> is_list (pget c ''fields'')
     \<and> list_all field_ok (fields_of c) \<and> distinct (map name_of (fields_of c))"

definition parsed_ok :: "parsed \<Rightarrow> bool" where
  "parsed_ok p \<longleftrightarrow> distinct (map fst (pd_collections p)) \<and> list_all (collection_ok \<circ> snd) (pd_collections p)
     \<and> distinct (map fst (pd_roles p))"

lemma then_check_ok [simp]: "then_check a b = Inr u \<longleftrightarrow> a = Inr () \<and> b = Inr u"
  by (auto simp: then_check_def split: sum.splits)

lemma refuse_if_ok [simp]: "refuse_if b path why = Inr u \<longleftrightarrow> \<not> b"
  by (simp add: refuse_if_def)

lemma then_check_cases [simp]:
  "(case then_check a b of Inl e \<Rightarrow> Inl e | Inr u \<Rightarrow> f u) = (case a of Inl e \<Rightarrow> Inl e | Inr u \<Rightarrow> (case b of Inl e \<Rightarrow> Inl e | Inr u \<Rightarrow> f u))"
  by (auto simp: then_check_def split: sum.splits)

lemma check_list_ok [simp]: "check_list path v k = Inr u \<longleftrightarrow> is_list v"
  by (simp add: check_list_def)

lemma nonempty_text_iff: "nonempty_text v \<longleftrightarrow> (\<exists>s. v = JStr s \<and> s \<noteq> [])"
  by (cases v) auto

lemma check_fields_ok:
  "check_fields path seen fs = Inr u \<Longrightarrow> list_all is_object fs \<Longrightarrow>
    list_all field_ok fs \<and> distinct (map name_of fs) \<and> set (map name_of fs) \<inter> set seen = {}"
proof (induction path seen fs arbitrary: u rule: check_fields.induct)
  case (2 path seen f fs)
  then have IH: "list_all field_ok fs" "distinct (map name_of fs)" "set (map name_of fs) \<inter> set (name_of f # seen) = {}"
    by auto
  have "field_ok f"
    using 2(2,3) by (cases f) (auto simp: field_ok_def nonempty_text_iff split: json.splits)
  with IH 2(2) show ?case by auto
qed simp

definition collection_path :: "string \<Rightarrow> string" where
  "collection_path n = ''collections/'' @ n @ ''.json''"

lemma collection_path_inject [simp]: "collection_path m = collection_path n \<longleftrightarrow> m = n"
  by (simp add: collection_path_def)

lemma is_list_entries: "is_list v \<Longrightarrow> list_all is_object (entries_of v)"
  by (cases v) auto

lemma name_in_path:
  assumes "name_in dir path = Some n" shows "path = dir @ n @ ''.json''"
proof -
  have "starts_with dir path" "ends_with ''.json'' (drop (length dir) path)"
    and n: "n = take (length path - length dir - 5) (drop (length dir) path)"
    using assms by (auto simp: name_in_def Let_def split: if_splits)
  then obtain t where t: "path = dir @ t" "5 \<le> length t" "drop (length t - 5) t = ''.json''"
    by (auto simp: starts_with_iff ends_with_def)
  have "n @ ''.json'' = take (length t - 5) t @ drop (length t - 5) t" using n t by simp
  with t(1) show ?thesis by simp
qed

lemma read_collection_ok:
  assumes "read_collection E path n file p = Inr q" "\<exists>ms. file = JObj ms"
  shows "q = p\<lparr> pd_collections := pd_collections p @ [(n, file)] \<rparr>" "collection_ok file"
proof -
  have *: "q = p\<lparr> pd_collections := pd_collections p @ [(n, file)] \<rparr>" "is_list (pget file ''fields'')"
    "\<exists>u. check_fields path [] (fields_of file) = Inr u"
    using assms(1) by (auto simp: read_collection_def Let_def split: sum.splits)
  then show "q = p\<lparr> pd_collections := pd_collections p @ [(n, file)] \<rparr>" by simp
  from * check_fields_ok is_list_entries assms(2) show "collection_ok file"
    by (metis collection_ok_def)
qed

lemma read_roles_ok:
  "read_roles E path rs p = Inr q \<Longrightarrow> distinct (map fst (pd_roles p)) \<Longrightarrow>
    distinct (map fst (pd_roles q)) \<and> pd_collections q = pd_collections p"
proof (induction E path rs p arbitrary: q rule: read_roles.induct)
  case (2 E path r rs p)
  let ?n = "text_of (pget r ''name'')"
  have "map_of (pd_roles p) ?n = None"
    and rest: "read_roles E path rs (p\<lparr> pd_roles := pd_roles p @ [(?n, r)] \<rparr>) = Inr q"
    using 2(2) by (auto simp: Let_def split: sum.splits)
  then have "distinct (map fst (pd_roles p @ [(?n, r)]))"
    using 2(3) by (simp add: map_of_eq_None_iff)
  have step: "distinct (map fst (pd_roles (p\<lparr> pd_roles := pd_roles p @ [(?n, r)] \<rparr>))) \<Longrightarrow>
      distinct (map fst (pd_roles q)) \<and> pd_collections q = pd_collections (p\<lparr> pd_roles := pd_roles p @ [(?n, r)] \<rparr>)"
    using 2(1)[OF refl _ rest] 2(2) by (auto simp: Let_def split: sum.splits)
  with \<open>distinct (map fst (pd_roles p @ [(?n, r)]))\<close> show ?case by simp
qed simp

lemma read_file_ok:
  assumes "read_file E path file p = Inr q" "\<exists>ms. file = JObj ms" "distinct (map fst (pd_roles p))"
  shows "distinct (map fst (pd_roles q)) \<and> (pd_collections q = pd_collections p
    \<or> (\<exists>n. path = collection_path n \<and> pd_collections q = pd_collections p @ [(n, file)] \<and> collection_ok file))"
proof (cases "\<exists>n. read_collection E path n file p = Inr q \<and> name_in ''collections/'' path = Some n")
  case True
  then obtain n where n: "read_collection E path n file p = Inr q" "name_in ''collections/'' path = Some n" by blast
  from read_collection_ok[OF n(1) assms(2)] name_in_path[OF n(2)] assms(3) show ?thesis by (auto simp: collection_path_def)
next
  case False
  then show ?thesis
    using assms read_roles_ok unfolding read_file_def
    by (auto split: if_splits sum.splits option.splits)
qed

lemma parse_file_ok: "parse_file E path content = Inr file \<Longrightarrow> \<exists>ms. file = JObj ms"
  by (auto simp: parse_file_def split: json.splits option.splits)

lemma read_files_ok:
  "read_files E fs p = Inr q \<Longrightarrow> distinct (map fst fs) \<Longrightarrow> parsed_ok p \<Longrightarrow>
    \<forall>n \<in> fst ` set (pd_collections p). collection_path n \<notin> fst ` set fs \<Longrightarrow> parsed_ok q"
proof (induction E fs p arbitrary: q rule: read_files.induct)
  case (2 E path content fs p)
  obtain c r where parsed: "parse_file E path content = Inr c" and r: "read_file E path c p = Inr r"
    and rest: "read_files E fs r = Inr q"
    using 2(2) by (auto split: sum.splits)
  have roles: "distinct (map fst (pd_roles p))" using 2(4) by (simp add: parsed_ok_def)
  note R = read_file_ok[OF r parse_file_ok[OF parsed] roles]
  have "fst ` set (pd_collections r) \<subseteq> fst ` set (pd_collections p) \<union> {n. path = collection_path n}"
    using R by auto
  moreover have "\<forall>n \<in> fst ` set (pd_collections p). collection_path n \<notin> fst ` set fs" "path \<notin> fst ` set fs"
    using 2(3,5) by simp_all
  ultimately have "\<forall>n \<in> fst ` set (pd_collections r). collection_path n \<notin> fst ` set fs"
    by blast
  moreover have "parsed_ok r"
    using R 2(4,5) by (auto simp: parsed_ok_def)
  ultimately have "parsed_ok r" "\<forall>n \<in> fst ` set (pd_collections r). collection_path n \<notin> fst ` set fs"
    by simp_all
  with 2(1)[OF parsed r rest] 2(3) show ?case by simp
qed simp

lemma read_set_ok: "read_set E (JObj fs) = Inr p \<Longrightarrow> distinct (map fst fs) \<Longrightarrow> parsed_ok p"
  by (rule read_files_ok[of E fs "\<lparr> pd_collections = [], pd_roles = [], pd_migrations = [] \<rparr>"])
    (auto simp: read_set_def parsed_ok_def split: if_splits)

section \<open>What a rename leaves\<close>

definition field_sig :: "jval \<Rightarrow> (string \<times> jval) list" where
  "field_sig c = map (\<lambda>f. (name_of f, type_of f)) (fields_of c)"

fun final_name :: "migration_op list \<Rightarrow> string \<Rightarrow> string \<Rightarrow> string" where
  "final_name [] n f = f"
| "final_name (RenameField c a b # cs) n f = final_name cs n (if c = n \<and> f = a then b else f)"
| "final_name (c # cs) n f = final_name cs n f"

lemma pget_on_list:
  "pget (on_list k g (JObj ms)) l = (if l = k then (case pget (JObj ms) k of JArr vs \<Rightarrow> JArr (g vs) | v \<Rightarrow> v) else pget (JObj ms) l)"
  by (auto simp: on_list_def prop_set_member split: json.splits)

lemma on_list_obj: "\<exists>ms'. on_list k g (JObj ms) = JObj ms'"
  by (auto simp: on_list_def split: json.splits)

lemma obj_on_list: "\<exists>ms. c = JObj ms \<Longrightarrow> \<exists>ms. on_list k g c = JObj ms"
  by (elim exE) (simp add: on_list_obj)

text \<open>The lists other than the fields are not the fields.\<close>

lemma on_list_other: "k \<noteq> l \<Longrightarrow> \<exists>ms. c = JObj ms \<Longrightarrow> pget (on_list k g c) l = pget c l"
  by (auto simp: pget_on_list)

lemma set_name_ok:
  assumes "field_ok f" "b \<noteq> []"
  shows "field_ok (pset ''name'' (JStr b) f)" "name_of (pset ''name'' (JStr b) f) = b" "type_of (pset ''name'' (JStr b) f) = type_of f"
  using assms by (auto simp: field_ok_def prop_set_member)

lemma field_ok_named: "field_ok f \<Longrightarrow> pget f ''name'' = JStr n \<longleftrightarrow> name_of f = n"
  by (auto simp: field_ok_def)

lemma find_field_iff:
  "list_all field_ok (fields_of c) \<Longrightarrow> find_field c n = None \<longleftrightarrow> n \<notin> name_of ` set (fields_of c)"
  by (auto simp: find_field_def find_None_iff list_all_iff field_ok_named)

lemma rename_first:
  assumes "list_all field_ok fs" "distinct (map name_of fs)" "b \<noteq> []" "b \<notin> name_of ` set fs"
  shows "list_all field_ok (update_first (\<lambda>f. pget f ''name'' = JStr a) (pset ''name'' (JStr b)) fs)"
    "map (\<lambda>f. (name_of f, type_of f)) (update_first (\<lambda>f. pget f ''name'' = JStr a) (pset ''name'' (JStr b)) fs)
      = map (\<lambda>f. (if name_of f = a then b else name_of f, type_of f)) fs"
  using assms
proof (induction fs)
  case (Cons f fs)
  { case 1 then show ?case using Cons.IH(1) by (auto simp: field_ok_named set_name_ok) }
  { case 2
    have f: "field_ok f" using 2 by simp
    show ?case
    proof (cases "name_of f = a")
      case True
      have "a \<notin> name_of ` set fs" using 2(2) True by auto
      then have "\<forall>x \<in> set fs. name_of x \<noteq> a" by blast
      then have "map (\<lambda>f. (if name_of f = a then b else name_of f, type_of f)) fs = map (\<lambda>f. (name_of f, type_of f)) fs"
        by simp
      with f True 2(3) show ?thesis by (simp add: field_ok_named set_name_ok del: pget.simps)
    next
      case False
      have "list_all field_ok fs" "distinct (map name_of fs)" "b \<notin> name_of ` set fs" using 2 by simp_all
      from Cons.IH(2)[OF this(1,2) 2(3) this(3)] f False show ?thesis by (simp add: field_ok_named del: pget.simps)
    qed }
qed simp_all

definition rename_collection :: "string \<Rightarrow> string \<Rightarrow> string \<Rightarrow> string \<Rightarrow> jval \<Rightarrow> jval" where
  "rename_collection c a b n v = on_list ''relations'' (map (\<lambda>r. if pget r ''target'' = JStr c then rename_in ''targetField'' a b r else r))
     (if n = c then on_list ''indexes'' (map (rename_index a b)) (on_list ''relations'' (map (rename_in ''field'' a b))
        (on_field a (pset ''name'' (JStr b)) v)) else v)"

lemma pd_rename_field:
  "pd_collections (rename_field c a b p) = map_values (rename_collection c a b) (pd_collections p)"
  "pd_roles (rename_field c a b p) = pd_roles p" "pd_migrations (rename_field c a b p) = pd_migrations p"
  by (simp_all add: rename_field_def on_collection_def map_values_def rename_collection_def Let_def case_prod_beta comp_def)

lemma field_ok_object: "field_ok f \<Longrightarrow> is_object f"
  by (auto simp: field_ok_def)

lemma rename_collection_ok:
  assumes ok: "collection_ok v" and b: "b \<noteq> []" and new: "n = c \<Longrightarrow> b \<notin> name_of ` set (fields_of v)"
  shows "collection_ok (rename_collection c a b n v)"
    "field_sig (rename_collection c a b n v) = map (\<lambda>(x, t). (if n = c \<and> x = a then b else x, t)) (field_sig v)"
proof -
  let ?f = "\<lambda>c. pget c ''fields''"
  define u where "u = (if n = c then on_field a (pset ''name'' (JStr b)) v else v)"
  have obj: "\<exists>ms. v = JObj ms" and l: "is_list (?f v)" and ok': "list_all field_ok (fields_of v)" "distinct (map name_of (fields_of v))"
    using ok by (auto simp: collection_ok_def)
  have uobj: "\<exists>ms. u = JObj ms" using obj obj_on_list by (simp add: u_def on_field_def)
  define x where "x = on_list ''relations'' (map (rename_in ''field'' a b)) u"
  define y where "y = on_list ''indexes'' (map (rename_index a b)) x"
  define z where "z = (if n = c then y else u)"
  have xobj: "\<exists>ms. x = JObj ms" unfolding x_def by (rule obj_on_list[OF uobj])
  have yobj: "\<exists>ms. y = JObj ms" unfolding y_def by (rule obj_on_list[OF xobj])
  have zobj: "\<exists>ms. z = JObj ms" using yobj uobj by (simp add: z_def)
  have whole: "rename_collection c a b n v = on_list ''relations'' (map (\<lambda>r. if pget r ''target'' = JStr c then rename_in ''targetField'' a b r else r)) z"
    by (simp add: rename_collection_def z_def y_def x_def u_def)
  have "?f x = ?f u" unfolding x_def by (rule on_list_other[OF _ uobj]) simp
  moreover have "?f y = ?f x" unfolding y_def by (rule on_list_other[OF _ xobj]) simp
  ultimately have "?f z = ?f u" by (simp add: z_def)
  moreover have "?f (rename_collection c a b n v) = ?f z" unfolding whole by (rule on_list_other[OF _ zobj]) simp
  ultimately have same_fields: "?f (rename_collection c a b n v) = ?f u" "\<exists>ms. rename_collection c a b n v = JObj ms"
    using obj_on_list[OF zobj] by (simp_all add: whole)
  have "is_list (?f u) \<and> list_all field_ok (fields_of u) \<and>
    map (\<lambda>f. (name_of f, type_of f)) (fields_of u) = map (\<lambda>f. (if n = c \<and> name_of f = a then b else name_of f, type_of f)) (fields_of v)"
  proof (cases "n = c \<and> ?f v \<noteq> JNull")
    case True
    with l obtain vs where vs: "?f v = JArr vs" by (cases "?f v") auto
    from True rename_first[of vs b a] ok' b new vs
    have r: "list_all field_ok (update_first (\<lambda>f. pget f ''name'' = JStr a) (pset ''name'' (JStr b)) vs)"
      "map (\<lambda>f. (name_of f, type_of f)) (update_first (\<lambda>f. pget f ''name'' = JStr a) (pset ''name'' (JStr b)) vs)
        = map (\<lambda>f. (if name_of f = a then b else name_of f, type_of f)) vs"
      by simp_all
    have "?f u = JArr (update_first (\<lambda>f. pget f ''name'' = JStr a) (pset ''name'' (JStr b)) vs)"
      using True obj vs by (auto simp: u_def on_field_def pget_on_list simp del: pget.simps)
    with r vs True show ?thesis by (auto simp: list_all_iff intro: field_ok_object)
  next
    case False
    then have "?f u = ?f v" using obj by (auto simp: u_def on_field_def pget_on_list simp del: pget.simps)
    moreover have "n \<noteq> c \<or> fields_of v = []" using False by auto
    ultimately show ?thesis using l ok' by auto
  qed
  then have U: "is_list (?f u)" "list_all field_ok (fields_of u)"
    "map (\<lambda>f. (name_of f, type_of f)) (fields_of u) = map (\<lambda>f. (if n = c \<and> name_of f = a then b else name_of f, type_of f)) (fields_of v)"
    by simp_all
  show sig: "field_sig (rename_collection c a b n v) = map (\<lambda>(x, t). (if n = c \<and> x = a then b else x, t)) (field_sig v)"
    by (simp add: field_sig_def same_fields U(3) comp_def)
  have "map name_of (fields_of u) = map (\<lambda>x. if n = c \<and> x = a then b else x) (map name_of (fields_of v))"
    using arg_cong[OF U(3), of "map fst"] by (simp add: comp_def)
  moreover have "inj_on (\<lambda>x. if n = c \<and> x = a then b else x) (set (map name_of (fields_of v)))"
    using new by (auto simp: inj_on_def)
  ultimately have "distinct (map name_of (fields_of u))"
    using ok'(2) by (simp only: distinct_map[of "\<lambda>x. if n = c \<and> x = a then b else x"])
  with U same_fields show "collection_ok (rename_collection c a b n v)" by (simp add: collection_ok_def)
qed

text \<open>\<open>q\<close> has the collections, fields and roles of \<open>p\<close>, the fields under new names.\<close>

definition renames :: "(string \<Rightarrow> string \<Rightarrow> string) \<Rightarrow> parsed \<Rightarrow> parsed \<Rightarrow> bool" where
  "renames g p q \<longleftrightarrow> parsed_ok q \<and> pd_roles q = pd_roles p
    \<and> (\<forall>n v. map_of (pd_collections p) n = Some v \<longrightarrow> (\<exists>w. map_of (pd_collections q) n = Some w
         \<and> field_sig w = map (\<lambda>(x, t). (g n x, t)) (field_sig v)))"

lemma renames_refl: "parsed_ok p \<Longrightarrow> renames (\<lambda>n x. x) p p"
  by (auto simp: renames_def)

lemma renames_trans:
  assumes "renames g p q" "renames h q r" shows "renames (\<lambda>n x. h n (g n x)) p r"
proof -
  have "\<exists>w. map_of (pd_collections r) n = Some w \<and> field_sig w = map (\<lambda>(x, t). (h n (g n x), t)) (field_sig v)"
    if v: "map_of (pd_collections p) n = Some v" for n v
  proof -
    obtain u where u: "map_of (pd_collections q) n = Some u" "field_sig u = map (\<lambda>(x, t). (g n x, t)) (field_sig v)"
      using assms(1) v unfolding renames_def by blast
    then obtain w where "map_of (pd_collections r) n = Some w" "field_sig w = map (\<lambda>(x, t). (h n x, t)) (field_sig u)"
      using assms(2) unfolding renames_def by blast
    then show ?thesis using u(2) by (auto simp: comp_def case_prod_beta)
  qed
  with assms show ?thesis by (simp add: renames_def)
qed

lemma parsed_ok_collection:
  "parsed_ok p \<Longrightarrow> map_of (pd_collections p) n = Some v \<Longrightarrow> collection_ok v"
  by (auto simp: parsed_ok_def list_all_iff dest: map_of_SomeD)

lemma migrate_rename:
  assumes p: "parsed_ok p" and m: "migrate_state mid (RenameField c a b) p = Inr q"
  shows "renames (\<lambda>n x. if c = n \<and> x = a then b else x) p q"
proof -
  obtain col where col: "map_of (pd_collections p) c = Some col" and NAME: "NAME b"
    and cases: "find_field col a \<noteq> None \<and> find_field col b = None \<and> q = rename_field c a b p
      \<or> find_field col a = None \<and> q = p"
    using m by (auto simp: migrate_state_def Let_def split: option.splits if_splits)
  have ok: "collection_ok col" by (rule parsed_ok_collection[OF p col])
  then have fields: "list_all field_ok (fields_of col)" by (simp add: collection_ok_def)
  from cases show ?thesis
  proof (elim disjE conjE)
    assume q: "q = rename_field c a b p" and "find_field col b = None"
    then have new: "b \<notin> name_of ` set (fields_of col)" using find_field_iff[OF fields] by simp
    have b: "b \<noteq> []" using NAME by (simp add: NAME_def)
    have each: "collection_ok (rename_collection c a b n v)
        \<and> field_sig (rename_collection c a b n v) = map (\<lambda>(x, t). (if n = c \<and> x = a then b else x, t)) (field_sig v)"
      if "(n, v) \<in> set (pd_collections p)" for n v
    proof -
      have v: "map_of (pd_collections p) n = Some v" using that p by (simp add: parsed_ok_def)
      then have "b \<notin> name_of ` set (fields_of v)" if "n = c" using that col new by simp
      from rename_collection_ok[OF parsed_ok_collection[OF p v] b this] show ?thesis by simp
    qed
    have keys: "map fst (pd_collections q) = map fst (pd_collections p)"
      by (simp add: q pd_rename_field map_values_def comp_def case_prod_beta)
    have "list_all (collection_ok \<circ> snd) (pd_collections q)"
      using each by (auto simp: list_all_iff q pd_rename_field map_values_def)
    with p have "parsed_ok q" unfolding parsed_ok_def keys by (simp add: q pd_rename_field)
    moreover have "\<exists>w. map_of (pd_collections q) n = Some w
        \<and> field_sig w = map (\<lambda>(x, t). (if c = n \<and> x = a then b else x, t)) (field_sig v)"
      if "map_of (pd_collections p) n = Some v" for n v
      using each[OF map_of_SomeD[OF that]] that by (auto simp: q pd_rename_field)
    ultimately show ?thesis by (simp add: renames_def q pd_rename_field)
  next
    assume q: "q = p" and "find_field col a = None"
    then have "a \<notin> name_of ` set (fields_of col)" using find_field_iff[OF fields] by simp
    then have "map (\<lambda>(x, t). (if x = a then b else x, t)) (field_sig col) = field_sig col"
      by (auto simp: field_sig_def image_iff comp_def)
    then have "map (\<lambda>(x, t). (if c = n \<and> x = a then b else x, t)) (field_sig v) = field_sig v"
      if "map_of (pd_collections p) n = Some v" for n v
      using that col by (cases "c = n") (simp_all add: case_prod_beta)
    then show ?thesis using p by (simp add: renames_def q)
  qed
qed

fun pending_ops :: "(string \<Rightarrow> string option) \<Rightarrow> (string \<times> string \<times> migration_op list) list \<Rightarrow> migration_op list" where
  "pending_ops applied [] = []"
| "pending_ops applied ((mid, chk, cs) # ms) = (if applied mid = None then cs else []) @ pending_ops applied ms"

lemma final_name_append: "final_name (cs @ ds) n x = final_name ds n (final_name cs n x)"
  by (induction cs n x rule: final_name.induct) auto

lemma migrate_ops_renames:
  "migrate_ops mid chk cs p = Inr (q, steps) \<Longrightarrow> parsed_ok p \<Longrightarrow> \<forall>s \<in> set steps. \<not> ps_destructive s \<Longrightarrow>
    renames (final_name cs) p q"
proof (induction mid chk cs p arbitrary: q steps rule: migrate_ops.induct)
  case (1 mid chk p) then show ?case using renames_refl by (simp add: fun_eq_iff)
next
  case (2 mid chk c cs p)
  obtain u rest where u: "migrate_state mid c p = Inr u" and rest: "migrate_ops mid chk cs u = Inr (q, rest)"
    and steps: "steps = migration_step mid chk (cs = []) c # rest"
    using 2(2) by (auto split: sum.splits)
  have "\<not> op_destructive c" using 2(4) by (simp add: steps migration_step_def mk_step_def)
  then obtain n a b where c: "c = RenameField n a b" by (cases c) auto
  have first: "renames (\<lambda>m x. if n = m \<and> x = a then b else x) p u"
    using migrate_rename[OF 2(3)] u by (simp add: c)
  then have "parsed_ok u" by (simp add: renames_def)
  from 2(1)[OF u rest this] steps 2(4) have "renames (final_name cs) u q" by simp
  from renames_trans[OF first this] show ?case by (simp add: c)
qed

lemma run_migrations_renames:
  "run_migrations applied ms p = Inr (q, steps) \<Longrightarrow> parsed_ok p \<Longrightarrow> \<forall>s \<in> set steps. \<not> ps_destructive s \<Longrightarrow>
    renames (final_name (pending_ops applied ms)) p q"
proof (induction applied ms p arbitrary: q steps rule: run_migrations.induct)
  case (1 applied p) then show ?case using renames_refl by (simp add: fun_eq_iff)
next
  case (2 applied mid chk cs ms p)
  show ?case
  proof (cases "applied mid")
    case None
    obtain u s t where u: "migrate_ops mid chk cs p = Inr (u, s)" and t: "run_migrations applied ms u = Inr (q, t)"
      and steps: "steps = s @ t"
      using 2(3) None by (auto split: sum.splits)
    have first: "renames (final_name cs) p u" by (rule migrate_ops_renames[OF u 2(4)]) (use 2(5) steps in simp)
    then have "parsed_ok u" by (simp add: renames_def)
    from 2(1)[OF None u refl t this] steps 2(5) have "renames (final_name (pending_ops applied ms)) u q" by simp
    from renames_trans[OF first this] None show ?thesis by (simp add: final_name_append[abs_def])
  next
    case (Some was)
    then show ?thesis using 2(2)[OF Some] 2(3-5) by (auto split: if_splits)
  qed
qed

section \<open>Nothing goes without being asked for\<close>

lemma exportField_other: "k \<notin> set FALSE_DEFAULT_FLAGS \<Longrightarrow> pget (exportField f) k = pget f k"
proof (cases f)
  case (JObj ms)
  assume k: "k \<notin> set FALSE_DEFAULT_FLAGS"
  then have "map_of (filter (\<lambda>(k, v). \<not> (k \<in> set FALSE_DEFAULT_FLAGS \<and> v = JBool False)) ms) k = map_of ms k"
    by (induction ms) auto
  then show ?thesis by (simp add: JObj)
qed simp_all

lemma exportField_name_type [simp]:
  "pget (exportField f) ''name'' = pget f ''name''" "pget (exportField f) ''type'' = pget f ''type''"
  by (simp_all add: exportField_other FALSE_DEFAULT_FLAGS_def)

text \<open>What a field's type may become without a migration.\<close>

definition survives :: "bool \<Rightarrow> jval \<Rightarrow> jval \<Rightarrow> bool" where
  "survives secret t t' \<longleftrightarrow> t' = t \<or> secret \<and> t' = JStr ''secret'' \<and> js_string t \<in> set INTO_SECRET_FROM"

lemma find_by_name:
  assumes "distinct (map name_of fs)" "f \<in> set fs"
  shows "find (\<lambda>g. name_of g = name_of f) (rev fs) = Some f"
proof -
  have "find (\<lambda>g. name_of g = name_of f) gs = Some f" if "distinct (map name_of gs)" "f \<in> set gs" for gs :: "jval list"
    using that by (induction gs) (auto simp: rev_image_eqI)
  from this[of "rev fs"] assms show ?thesis by (simp add: rev_map[symmetric])
qed

lemma kept_field:
  assumes steps: "diffCollection E k n v w = (s, r, t)" and ops: "\<forall>x \<in> set s. ps_op x \<noteq> None"
    and v: "distinct (map name_of (fields_of v))" "f \<in> set (fields_of v)"
  shows "\<exists>g \<in> set (fields_of w). name_of g = name_of f \<and> survives (sk_intoSecret k) (type_of f) (type_of g)"
proof -
  let ?des = "map exportField (fields_of w)"
  have drop: "name_of f \<in> set (map name_of ?des)"
  proof (rule ccontr)
    assume "name_of f \<notin> set (map name_of ?des)"
    then have "mk_step Minus n (DropField (name_of f)) True None \<in> set s"
      using steps v(2) by (auto simp: diffCollection_def Let_def image_image)
    with ops show False by (auto simp: mk_step_def)
  qed
  then obtain g where g: "g \<in> set (fields_of w)" "name_of g = name_of f" by auto
  have found: "find (\<lambda>h. name_of h = name_of (exportField g)) (rev (fields_of v)) = Some f"
    using find_by_name[OF v] g(2) by simp
  have "set (field_step k n (fields_of v) (exportField g)) \<subseteq> set s"
    using steps g(1) by (auto simp: diffCollection_def Let_def)
  then have "\<forall>x \<in> set (field_step k n (fields_of v) (exportField g)). ps_op x \<noteq> None" using ops by blast
  then have "survives (sk_intoSecret k) (type_of f) (type_of g)"
    unfolding field_step_def found by (auto simp: survives_def mk_step_def split: if_splits)
  with g show ?thesis by blast
qed

lemma set_state_steps:
  assumes "n \<in> fst ` set (pd_collections c) \<union> fst ` set (pd_collections d)"
    "x \<in> set (fst (collection_steps E (plan_sink secret c d) n (map_of (pd_collections c) n) (map_of (pd_collections d) n)))"
  shows "x \<in> set (state_steps E secret c d)"
  using assms by (auto simp: state_steps_def Let_def intro!: bexI[of _ n])

lemma kept_collection:
  assumes c: "parsed_ok c" "map_of (pd_collections c) n = Some v"
    and ops: "\<forall>x \<in> set (state_steps E secret c d). ps_op x \<noteq> None"
  shows "\<exists>w. map_of (pd_collections d) n = Some w \<and> (\<forall>f \<in> set (fields_of v). \<exists>g \<in> set (fields_of w).
    name_of g = name_of f \<and> survives secret (type_of f) (type_of g))"
proof -
  let ?k = "plan_sink secret c d"
  have n: "n \<in> fst ` set (pd_collections c) \<union> fst ` set (pd_collections d)"
    using map_of_SomeD[OF c(2)] by force
  have each: "\<forall>x \<in> set (fst (collection_steps E ?k n (Some v) (map_of (pd_collections d) n))). ps_op x \<noteq> None"
    using set_state_steps[OF n, of _ E secret] ops c(2) by auto
  then obtain w where w: "map_of (pd_collections d) n = Some w"
    by (cases "map_of (pd_collections d) n") (auto simp: collection_steps_def mk_step_def)
  obtain s r t where diff: "diffCollection E ?k n v w = (s, r, t)" by (cases "diffCollection E ?k n v w") auto
  have "\<forall>x \<in> set s. ps_op x \<noteq> None" using each by (simp add: w collection_steps_def diff)
  from kept_field[OF diff this] parsed_ok_collection[OF c] w show ?thesis
    by (auto simp: collection_ok_def plan_sink_def)
qed

lemma kept_role:
  assumes "\<forall>x \<in> set (all_role_steps E cur des). ps_op x \<noteq> None" "n \<in> fst ` set cur"
  shows "map_of des n \<noteq> None \<or> implied_role E n"
proof (rule ccontr)
  assume "\<not> ?thesis"
  then have "mk_step Minus (''role '' @ n) RemoveRole True None \<in> set (role_steps E n (map_of cur n) (map_of des n))"
    by (simp add: role_steps_def wanted_role_def)
  then have "mk_step Minus (''role '' @ n) RemoveRole True None \<in> set (all_role_steps E cur des)"
    using assms(2) by (auto simp: all_role_steps_def)
  with assms(1) show False by (auto simp: mk_step_def)
qed

text \<open>
  C24. Nothing is lost without being asked for.  When a plan is admitted without
  \<open>allowDestructive\<close>, every collection of the instance is in the files; each of its fields is
  there under the name the pending renames give it, no two under one name, with its type, or
  as a secret that was text where an extension plans; and every role of the instance is in
  the files unless the engine implies it.
\<close>

theorem admitted_plan_loses_nothing:
  assumes reads: "read_set E (JObj cur) = Ok c" "read_set E (JObj des) = Ok d" "distinct (map fst cur)"
    and plan: "planSchema E (JObj cur) (JObj des) applied secret = Ok steps" "admit False steps = Ok steps"
  defines "pend \<equiv> pending_ops applied (sort_key (map code \<circ> fst) (pd_migrations d))"
  shows "(\<forall>n v. map_of (pd_collections c) n = Some v \<longrightarrow>
      (\<exists>w. map_of (pd_collections d) n = Some w \<and> inj_on (final_name pend n) (set (map name_of (fields_of v)))
        \<and> (\<forall>f \<in> set (fields_of v). \<exists>g \<in> set (fields_of w). name_of g = final_name pend n (name_of f)
            \<and> survives secret (type_of f) (type_of g))))
    \<and> (\<forall>n \<in> fst ` set (pd_roles c). map_of (pd_roles d) n \<noteq> None \<or> implied_role E n)"
proof -
  obtain q ms where q: "run_migrations applied (sort_key (map code \<circ> fst) (pd_migrations d)) c = Inr (q, ms)"
    and steps: "steps = ms @ state_steps E secret q d"
    using plan(1) reads by (auto simp: planSchema_def split: sum.splits if_splits)
  have clean: "\<forall>x \<in> set steps. ps_op x \<noteq> None \<and> \<not> ps_destructive x"
    using admit_ok[OF plan(2)] by blast
  have c: "parsed_ok c" by (rule read_set_ok[OF reads(1,3)])
  have ren: "renames (final_name pend) c q"
    unfolding pend_def by (rule run_migrations_renames[OF q c]) (use clean steps in simp)
  then have qok: "parsed_ok q" and roles: "pd_roles q = pd_roles c" by (simp_all add: renames_def)
  have ops: "\<forall>x \<in> set (state_steps E secret q d). ps_op x \<noteq> None" using clean steps by simp
  have "\<exists>w. map_of (pd_collections d) n = Some w \<and> inj_on (final_name pend n) (set (map name_of (fields_of v)))
        \<and> (\<forall>f \<in> set (fields_of v). \<exists>g \<in> set (fields_of w). name_of g = final_name pend n (name_of f)
            \<and> survives secret (type_of f) (type_of g))"
    if v: "map_of (pd_collections c) n = Some v" for n v
  proof -
    obtain u where u: "map_of (pd_collections q) n = Some u"
      and sig: "field_sig u = map (\<lambda>(x, t). (final_name pend n x, t)) (field_sig v)"
      using ren v unfolding renames_def by blast
    obtain w where w: "map_of (pd_collections d) n = Some w"
      "\<forall>f \<in> set (fields_of u). \<exists>g \<in> set (fields_of w). name_of g = name_of f \<and> survives secret (type_of f) (type_of g)"
      using kept_collection[OF qok u ops] by blast
    have "map name_of (fields_of u) = map (final_name pend n) (map name_of (fields_of v))"
      using arg_cong[OF sig, of "map fst"] by (simp add: field_sig_def comp_def)
    moreover have "distinct (map name_of (fields_of u))"
      using parsed_ok_collection[OF qok u] by (simp add: collection_ok_def)
    ultimately have "distinct (map (final_name pend n) (map name_of (fields_of v)))" by (simp only:)
    then have inj: "inj_on (final_name pend n) (set (map name_of (fields_of v)))" by (simp only: distinct_map)
    have "\<exists>g \<in> set (fields_of w). name_of g = final_name pend n (name_of f) \<and> survives secret (type_of f) (type_of g)"
      if "f \<in> set (fields_of v)" for f
    proof -
      have "(final_name pend n (name_of f), type_of f) \<in> set (field_sig u)"
        unfolding sig using that by (force simp: field_sig_def)
      then obtain h where "h \<in> set (fields_of u)" "name_of h = final_name pend n (name_of f)" "type_of h = type_of f"
        by (auto simp: field_sig_def)
      with w(2) show ?thesis by fastforce
    qed
    with w(1) inj show ?thesis by blast
  qed
  moreover have "map_of (pd_roles d) n \<noteq> None \<or> implied_role E n" if "n \<in> fst ` set (pd_roles c)" for n
    by (rule kept_role[of E "pd_roles q"]) (use ops that roles in \<open>auto simp: state_steps_def Let_def\<close>)
  ultimately show ?thesis by blast
qed

section \<open>No drift\<close>

text \<open>A file set as an export writes it: flags that are false and stored credentials left out.\<close>

definition canonical :: "schema_env \<Rightarrow> parsed \<Rightarrow> bool" where
  "canonical E p \<longleftrightarrow> (\<forall>(n, c) \<in> set (pd_collections p).
     withoutAuthValue E (pget c ''virtualConfig'') = pget c ''virtualConfig''
     \<and> list_all (\<lambda>f. exportField f = f) (fields_of c))"

lemma settings_still:
  assumes "withoutAuthValue E (pget c ''virtualConfig'') = pget c ''virtualConfig''"
  shows "setting_step E n c c key = []"
  using assms by (auto simp: setting_step_def Let_def or_value_def)

lemma lists_still: "list_steps E k n c c l = []"
proof -
  have none: "map_of m i \<noteq> None" if "(i, e) \<in> set m" for m :: "(string \<times> jval) list" and i e
    using that by (metis map_of_eq_None_iff fst_conv image_eqI)
  have val: "map_of m i = Some e" if "(i, e) \<in> set m" "distinct (map fst m)" for m :: "(string \<times> jval) list" and i e
    using that by simp
  have "distinct (map fst (entries_by_id E n l c))" by (simp add: entries_by_id_def)
  with none val show ?thesis
    by (auto simp: list_steps_def Let_def)
qed

lemma fields_still:
  assumes "list_all (\<lambda>f. exportField f = f) (fields_of c)" "distinct (map name_of (fields_of c))"
  shows "map exportField (fields_of c) = fields_of c" "f \<in> set (fields_of c) \<Longrightarrow> field_step k n (fields_of c) f = []"
proof -
  show "map exportField (fields_of c) = fields_of c"
    using assms(1) by (simp add: list_all_iff map_idI)
  show "field_step k n (fields_of c) f = []" if "f \<in> set (fields_of c)"
    by (simp add: field_step_def find_by_name[OF assms(2) that] alter_step_def)
qed

lemma order_still: "reorder_step k n fs fs = []"
proof -
  have "filter (\<lambda>n. n \<notin> set (map name_of fs)) (map name_of fs) = []" "filter (\<lambda>n. n \<in> set (map name_of fs)) (map name_of fs) = map name_of fs"
    by (simp_all add: filter_empty_conv filter_id_conv)
  then show ?thesis by (simp add: reorder_step_def Let_def del: set_map)
qed

lemma collection_still:
  assumes "collection_ok c" "withoutAuthValue E (pget c ''virtualConfig'') = pget c ''virtualConfig''"
    "list_all (\<lambda>f. exportField f = f) (fields_of c)"
  shows "diffCollection E k n c c = ([], [], [])"
  using assms(1) fields_still[OF assms(3)]
  by (simp add: diffCollection_def Let_def settings_still[OF assms(2)] lists_still order_still collection_ok_def)

lemma missing_self [simp]: "missing_in a a = []"
  by (auto simp: missing_in_def map_of_eq_None_iff filter_empty_conv)

lemma role_still: "role_steps E n (Some r) (Some r) = []"
  by (simp add: role_steps_def wanted_role_def role_row_step_def Let_def grant_steps_def)

lemma run_migrations_applied:
  "\<forall>(mid, chk, cs) \<in> set ms. applied mid = Some chk \<Longrightarrow> run_migrations applied ms p = Inr (p, [])"
  by (induction applied ms p rule: run_migrations.induct) auto

text \<open>
  C25. An instance that has what its files say shows no drift.  When the files hold the
  collections and the roles the export wrote, no required key that a delete sets to null and
  no unreadable grant, and every migration in them was applied with its checksum, the plan
  has no step.
\<close>

theorem export_shows_no_drift:
  assumes files: "read_set E (JObj cur) = Ok c" "distinct (map fst cur)" "canonical E c"
    "read_set E (JObj des) = Ok d" "pd_collections d = pd_collections c" "pd_roles d = pd_roles c"
    "checkRequiredSetNull (pd_collections d) = Ok ()" "\<forall>(n, r) \<in> set (pd_roles d). \<not> unreadable_actions r"
    and applied: "\<forall>(mid, chk, cs) \<in> set (pd_migrations d). applied mid = Some chk"
  shows "planSchema E (JObj cur) (JObj des) applied secret = Ok []"
proof -
  have ok: "parsed_ok c" by (rule read_set_ok[OF files(1,2)])
  let ?k = "plan_sink secret c d"
  have "collection_steps E ?k n (map_of (pd_collections c) n) (map_of (pd_collections d) n) = ([], [], [])"
    if n: "n \<in> fst ` set (pd_collections c)" for n
  proof -
    obtain v where v: "map_of (pd_collections c) n = Some v" using n by (metis map_of_eq_None_iff not_None_eq)
    have "withoutAuthValue E (pget v ''virtualConfig'') = pget v ''virtualConfig''" "list_all (\<lambda>f. exportField f = f) (fields_of v)"
      using files(3) map_of_SomeD[OF v] by (auto simp: canonical_def)
    from collection_still[OF parsed_ok_collection[OF ok v] this] show ?thesis
      by (simp add: v files(5) collection_steps_def)
  qed
  moreover have "role_steps E n (map_of (pd_roles c) n) (map_of (pd_roles c) n) = []" if n: "n \<in> fst ` set (pd_roles c)" for n
    using n role_still by (cases "map_of (pd_roles c) n") (auto simp: map_of_eq_None_iff)
  ultimately have "state_steps E secret c d = []"
    by (simp add: state_steps_def Let_def all_role_steps_def files(5,6))
  moreover have "run_migrations applied (sort_key (map code \<circ> fst) (pd_migrations d)) c = Inr (c, [])"
    by (rule run_migrations_applied) (use applied in simp)
  ultimately show ?thesis
    using files by (auto simp: planSchema_def)
qed

section \<open>Running an op again\<close>

lemma set_member_twice [simp]: "set_member k v (set_member k w ms) = set_member k v ms"
  by (induction k v ms rule: set_member.induct) auto

lemma set_member_same: "map_of ms k = Some v \<Longrightarrow> set_member k v ms = ms"
  by (induction ms) (auto split: if_splits)

lemma pset_same: "pget c k = v \<Longrightarrow> v \<noteq> JNull \<Longrightarrow> pset k v c = c"
  by (cases c) (auto intro: set_member_same split: option.splits)

lemma pset_twice [simp]: "pset k v (pset k w c) = pset k v c"
  by (cases c) auto

lemma pget_pset: "\<exists>ms. c = JObj ms \<Longrightarrow> pget (pset k v c) l = (if l = k then v else pget c l)"
  by (auto simp: prop_set_member)

lemma put_list_obj: "\<exists>ms. c = JObj ms \<Longrightarrow> \<exists>ms. put_list k g c = JObj ms"
  by (auto simp: put_list_def)

lemma pget_put_list: "\<exists>ms. c = JObj ms \<Longrightarrow> pget (put_list k g c) l = (if l = k then JArr (g (entries_of (pget c k))) else pget c l)"
  by (simp add: put_list_def pget_pset)

lemma put_list_still: "pget c k = JArr vs \<Longrightarrow> g vs = vs \<Longrightarrow> put_list k g c = c"
  by (simp add: put_list_def pset_same)

lemma put_list_twice: "(\<And>vs. g (g vs) = g vs) \<Longrightarrow> put_list k g (put_list k g c) = put_list k g c"
proof (cases c)
  case (JObj ms)
  assume g: "\<And>vs. g (g vs) = g vs"
  have "pget (put_list k g c) k = JArr (g (entries_of (pget c k)))" by (rule trans[OF pget_put_list]) (simp_all add: JObj)
  then show ?thesis by (rule put_list_still) (rule g)
qed (simp_all add: put_list_def)

lemma map_values_twice: "(\<And>n v. g n (g n v) = g n v) \<Longrightarrow> map_values g (map_values g m) = map_values g m"
  by (simp add: map_values_def case_prod_beta comp_def)

lemma map_values_still: "(\<And>n v. (n, v) \<in> set m \<Longrightarrow> g n v = v) \<Longrightarrow> map_values g m = m"
  by (auto simp: map_values_def intro: map_idI)

lemma without_map_values: "without k (map_values g m) = map_values g (without k m)"
  by (auto simp: without_def map_values_def filter_map comp_def case_prod_beta)

lemma drop_collection_twice: "drop_collection n (drop_collection n p) = drop_collection n p"
  by (simp add: drop_collection_def without_map_values map_values_twice put_list_twice)
    (simp add: without_def)

lemma on_collection_twice:
  assumes "\<And>m v. (m, v) \<in> set (pd_collections p) \<Longrightarrow> g (g v) = g v"
  shows "on_collection n g (on_collection n g p) = on_collection n g p"
proof -
  have "map_values (\<lambda>m v. if m = n then g v else v) (map_values (\<lambda>m v. if m = n then g v else v) (pd_collections p))
      = map_values (\<lambda>m v. if m = n then g v else v) (pd_collections p)"
    using assms by (auto simp: map_values_def)
  then show ?thesis by (simp add: on_collection_def)
qed

lemma drop_field_twice:
  assumes "parsed_ok p" shows "drop_field n f (drop_field n f p) = drop_field n f p"
proof -
  let ?g = "put_list ''indexes'' (filter (\<lambda>ix. JStr f \<notin> set (index_fields ix)))
     \<circ> put_list ''relations'' (filter (\<lambda>r. pget r ''field'' \<noteq> JStr f))
     \<circ> put_list ''fields'' (filter (\<lambda>x. pget x ''name'' \<noteq> JStr f))"
  have twice: "?g (?g c) = ?g c" if "\<exists>ms. c = JObj ms" for c
  proof -
    let ?x = "put_list ''fields'' (filter (\<lambda>x. pget x ''name'' \<noteq> JStr f)) c"
    let ?y = "put_list ''relations'' (filter (\<lambda>r. pget r ''field'' \<noteq> JStr f)) ?x"
    have x: "\<exists>ms. ?x = JObj ms" by (rule put_list_obj[OF that])
    have y: "\<exists>ms. ?y = JObj ms" by (rule put_list_obj[OF x])
    let ?z = "?g c"
    have z: "?z = put_list ''indexes'' (filter (\<lambda>ix. JStr f \<notin> set (index_fields ix))) ?y" by simp
    have "pget ?z ''fields'' = JArr (filter (\<lambda>x. pget x ''name'' \<noteq> JStr f) (entries_of (pget c ''fields'')))"
      "pget ?z ''relations'' = JArr (filter (\<lambda>r. pget r ''field'' \<noteq> JStr f) (entries_of (pget ?x ''relations'')))"
      "pget ?z ''indexes'' = JArr (filter (\<lambda>ix. JStr f \<notin> set (index_fields ix)) (entries_of (pget ?y ''indexes'')))"
      unfolding z using pget_put_list[OF y] pget_put_list[OF x] pget_put_list[OF that] by simp_all
    note this[THEN put_list_still]
    then show ?thesis by simp
  qed
  have "\<exists>ms. c = JObj ms" if "(m, c) \<in> set (pd_collections p)" for m c
    using assms that by (auto simp: parsed_ok_def list_all_iff collection_ok_def)
  with twice show ?thesis
    unfolding drop_field_def by (intro on_collection_twice) blast
qed

lemma update_first_twice:
  "(\<And>x. P x \<Longrightarrow> P (g x)) \<Longrightarrow> (\<And>x. g (g x) = g x) \<Longrightarrow> update_first P g (update_first P g xs) = update_first P g xs"
  by (induction xs) auto

lemma find_update_first:
  "(\<And>x. P x \<Longrightarrow> P (g x)) \<Longrightarrow> find P (update_first P g xs) = None \<longleftrightarrow> find P xs = None"
  by (induction xs) auto

lemma set_type_named: "pget (pset ''type'' v f) ''name'' = pget f ''name''"
  by (cases f) (simp_all add: prop_set_member)

lemma retype_twice:
  assumes "collection_ok c"
  shows "on_field f (pset ''type'' v) (on_field f (pset ''type'' v) c) = on_field f (pset ''type'' v) c"
    "find_field (on_field f (pset ''type'' v) c) f = None \<longleftrightarrow> find_field c f = None"
proof -
  let ?u = "update_first (\<lambda>x. pget x ''name'' = JStr f) (pset ''type'' v)"
  obtain ms where c: "c = JObj ms" using assms by (auto simp: collection_ok_def)
  have "on_field f (pset ''type'' v) (on_field f (pset ''type'' v) c) = on_field f (pset ''type'' v) c
    \<and> (find_field (on_field f (pset ''type'' v) c) f = None \<longleftrightarrow> find_field c f = None)"
  proof (cases "pget c ''fields''")
    case (JArr vs)
    have at: "on_field f (pset ''type'' v) c = pset ''fields'' (JArr (?u vs)) c" by (simp add: on_field_def on_list_def JArr)
    have "pget (pset ''fields'' (JArr (?u vs)) c) ''fields'' = JArr (?u vs)" by (subst pget_pset) (simp_all add: c)
    moreover have "?u (?u vs) = ?u vs" by (rule update_first_twice) (simp_all add: set_type_named)
    moreover have "find (\<lambda>x. pget x ''name'' = JStr f) (?u vs) = None \<longleftrightarrow> find (\<lambda>x. pget x ''name'' = JStr f) vs = None"
      by (rule find_update_first) (simp add: set_type_named)
    ultimately show ?thesis
      by (simp add: at find_field_def JArr) (simp add: on_field_def on_list_def)
  qed (simp_all add: on_field_def on_list_def)
  then show "on_field f (pset ''type'' v) (on_field f (pset ''type'' v) c) = on_field f (pset ''type'' v) c"
    "find_field (on_field f (pset ''type'' v) c) f = None \<longleftrightarrow> find_field c f = None" by simp_all
qed

text \<open>
  An op whose effect is there already changes nothing: run again on the state it left, it
  is planned without an error and leaves that state.
\<close>

theorem op_runs_again:
  assumes p: "parsed_ok p" and m: "migrate_state mid c p = Ok q"
  shows "migrate_state mid c q = Ok q"
proof (cases c)
  case (RenameField n a b)
  obtain col where col: "map_of (pd_collections p) n = Some col" and NAME: "NAME b"
    and cases: "find_field col a \<noteq> None \<and> find_field col b = None \<and> q = rename_field n a b p
      \<or> find_field col a = None \<and> q = p"
    using m by (auto simp: RenameField migrate_state_def Let_def split: option.splits if_splits)
  from cases show ?thesis
  proof (elim disjE conjE)
    assume found: "find_field col a \<noteq> None" and new: "find_field col b = None" and q: "q = rename_field n a b p"
    have ok: "collection_ok col" by (rule parsed_ok_collection[OF p col])
    then have f: "list_all field_ok (fields_of col)" by (simp add: collection_ok_def)
    let ?w = "rename_collection n a b n col"
    have b: "b \<noteq> []" "b \<notin> name_of ` set (fields_of col)" using NAME new find_field_iff[OF f] by (simp_all add: NAME_def)
    have w: "collection_ok ?w" "field_sig ?w = map (\<lambda>(x, t). (if n = n \<and> x = a then b else x, t)) (field_sig col)"
      using rename_collection_ok[OF ok b(1)] b(2) by simp_all
    have "map name_of (fields_of ?w) = map (\<lambda>x. if x = a then b else x) (map name_of (fields_of col))"
      using arg_cong[OF w(2), of "map fst"] by (simp add: field_sig_def comp_def)
    then have "name_of ` set (fields_of ?w) = (\<lambda>x. if x = a then b else x) ` name_of ` set (fields_of col)"
      by (simp only: set_map[symmetric])
    moreover have "a \<in> name_of ` set (fields_of col)" using found find_field_iff[OF f] by simp
    ultimately have "a \<notin> name_of ` set (fields_of ?w)" "b \<in> name_of ` set (fields_of ?w)"
      using b(2) by (auto split: if_splits)
    moreover have "list_all field_ok (fields_of ?w)" using w(1) by (simp add: collection_ok_def)
    ultimately have "find_field ?w a = None" "find_field ?w b \<noteq> None" by (simp_all only: find_field_iff) simp_all
    moreover have "map_of (pd_collections q) n = Some ?w" by (simp add: q pd_rename_field col)
    ultimately show ?thesis using NAME by (auto simp: RenameField migrate_state_def Let_def)
  qed (use m in simp)
next
  case (ChangeFieldType n f t)
  obtain col where col: "map_of (pd_collections p) n = Some col" "find_field col f \<noteq> None"
    and q: "q = on_collection n (on_field f (pset ''type'' (JStr t))) p"
    using m by (auto simp: ChangeFieldType migrate_state_def Let_def split: option.splits if_splits)
  have ok: "collection_ok v" if "(k, v) \<in> set (pd_collections p)" for k v
    using p that by (auto simp: parsed_ok_def list_all_iff)
  have "on_collection n (on_field f (pset ''type'' (JStr t))) q = q"
    unfolding q by (rule on_collection_twice) (rule retype_twice(1)[OF ok])
  moreover have "map_of (pd_collections q) n = Some (on_field f (pset ''type'' (JStr t)) col)"
    by (simp add: q on_collection_def col)
  moreover have "find_field (on_field f (pset ''type'' (JStr t)) col) f \<noteq> None"
    using retype_twice(2)[OF ok[OF map_of_SomeD[OF col(1)]]] col(2) by simp
  ultimately show ?thesis by (simp add: ChangeFieldType migrate_state_def Let_def)
next
  case (DropFieldOp n f)
  then have q: "q = drop_field n f p" "map_of (pd_collections p) n \<noteq> None"
    using m by (auto simp: migrate_state_def Let_def split: option.splits)
  then have "map_of (pd_collections q) n \<noteq> None" by (simp add: drop_field_def on_collection_def)
  with drop_field_twice[OF p] q show ?thesis by (auto simp: DropFieldOp migrate_state_def Let_def)
next
  case (DropCollectionOp n)
  with m show ?thesis by (auto simp: migrate_state_def drop_collection_twice)
next
  case (DropRoleOp r)
  with m show ?thesis by (auto simp: migrate_state_def drop_role_def without_def)
qed

section \<open>A file set and its plan\<close>

definition demo_json :: "string \<Rightarrow> jval option" where
  "demo_json t = map_of
     [(''schema'', JObj [(''format'', SCHEMA_FORMAT)]),
      (''roles'', JObj [(''roles'', JArr [JObj [(''name'', JStr ''editor''),
         (''permissions'', JArr [JObj [(''resource'', JStr ''posts''), (''actions'', JArr [JStr ''read''])]])]])]),
      (''before'', JObj [(''name'', JStr ''posts''),
         (''fields'', JArr [JObj [(''name'', JStr ''title''), (''type'', JStr ''text'')], JObj [(''name'', JStr ''body''), (''type'', JStr ''text'')]])]),
      (''after'', JObj [(''name'', JStr ''posts''),
         (''fields'', JArr [JObj [(''name'', JStr ''heading''), (''type'', JStr ''text'')], JObj [(''name'', JStr ''body''), (''type'', JStr ''text'')],
           JObj [(''name'', JStr ''rank''), (''type'', JStr ''number''), (''required'', JBool False)]])]),
      (''rename'', JObj [(''id'', JStr ''20261004T120000-heading''), (''ops'', JArr [JObj [(''op'', JStr ''renameField''),
         (''collection'', JStr ''posts''), (''from'', JStr ''title''), (''to'', JStr ''heading'')]])])] t"

definition demo_schema_env :: schema_env where
  "demo_schema_env = demo_env\<lparr> se_parse := demo_json, se_sha := (\<lambda>v. ''checksum'') \<rparr>"

definition demo_files :: "string \<Rightarrow> (string \<times> jval) list" where
  "demo_files c = [(''zveltio-schema.json'', JStr ''schema''), (''roles.json'', JStr ''roles''), (''collections/posts.json'', JStr c)]"

definition demo_renamed :: "(string \<times> jval) list" where
  "demo_renamed = demo_files ''after'' @ [(''migrations/20261004T120000-heading.json'', JStr ''rename'')]"

definition demo_read :: "(string \<times> jval) list \<Rightarrow> parsed" where
  "demo_read fs = (case read_set demo_schema_env (JObj fs) of Inl e \<Rightarrow> \<lparr> pd_collections = [], pd_roles = [], pd_migrations = [] \<rparr> | Inr p \<Rightarrow> p)"

definition demo_steps :: "plan_step list" where
  "demo_steps = (case planSchema demo_schema_env (JObj (demo_files ''before'')) (JObj demo_renamed) (\<lambda>i. None) False of Inl e \<Rightarrow> [] | Inr s \<Rightarrow> s)"

lemma demo_steps_are:
  "map (\<lambda>s. (ps_change s, ps_action s)) demo_steps =
    [(Tilde, Migrated (RenameField ''posts'' ''title'' ''heading'')), (Plus, AddField ''rank'')]"
  by code_simp

lemma demo_reads:
  "read_set demo_schema_env (JObj (demo_files ''before'')) = Ok (demo_read (demo_files ''before''))"
  "read_set demo_schema_env (JObj demo_renamed) = Ok (demo_read demo_renamed)"
  by code_simp+

theorem admitted_plan_loses_nothing_witness:
  "\<exists>w. map_of (pd_collections (demo_read demo_renamed)) ''posts'' = Some w
    \<and> (\<exists>g \<in> set (fields_of w). name_of g = ''heading'' \<and> type_of g = JStr ''text'')"
proof -
  let ?d = "demo_read demo_renamed"
  define v :: jval where "v = JObj [(''name'', JStr ''posts''),
    (''fields'', JArr [JObj [(''name'', JStr ''title''), (''type'', JStr ''text'')], JObj [(''name'', JStr ''body''), (''type'', JStr ''text'')]])]"
  have v: "map_of (pd_collections (demo_read (demo_files ''before''))) ''posts'' = Some v" unfolding v_def by code_simp
  have plan: "planSchema demo_schema_env (JObj (demo_files ''before'')) (JObj demo_renamed) (\<lambda>i. None) False = Ok demo_steps"
    and admitted: "admit False demo_steps = Ok demo_steps" and keys: "distinct (map fst (demo_files ''before''))"
    by code_simp+
  let ?f = "JObj [(''name'', JStr ''title''), (''type'', JStr ''text'')] :: jval"
  have f: "?f \<in> set (fields_of v)" by (simp add: v_def)
  have final: "final_name (pending_ops (\<lambda>i. None) (sort_key (map code \<circ> fst) (pd_migrations ?d))) ''posts'' (name_of ?f) = ''heading''"
    by code_simp
  have "type_of ?f = JStr ''text''" by simp
  with admitted_plan_loses_nothing[OF demo_reads keys plan admitted, THEN conjunct1, rule_format, OF v] f final
  show ?thesis unfolding survives_def by metis
qed

definition demo_applied :: "string \<Rightarrow> string option" where
  "demo_applied i = (if i = ''20261004T120000-heading'' then Some ''checksum'' else None)"

definition demo_pulled :: "(string \<times> jval) list" where
  "demo_pulled = demo_files ''before'' @ [(''migrations/20261004T120000-heading.json'', JStr ''rename'')]"

theorem export_shows_no_drift_witness:
  "planSchema demo_schema_env (JObj (demo_files ''before'')) (JObj demo_pulled) demo_applied True = Ok []"
  by (rule export_shows_no_drift[where c = "demo_read (demo_files ''before'')" and d = "demo_read demo_pulled"]) code_simp+

theorem op_runs_again_witness:
  "migrate_state ''m'' (RenameField ''posts'' ''title'' ''heading'')
      (rename_field ''posts'' ''title'' ''heading'' (demo_read (demo_files ''before'')))
    = Ok (rename_field ''posts'' ''title'' ''heading'' (demo_read (demo_files ''before'')))"
proof (rule op_runs_again)
  show "parsed_ok (demo_read (demo_files ''before''))"
    by (rule read_set_ok[OF demo_reads(1)]) code_simp
  show "migrate_state ''m'' (RenameField ''posts'' ''title'' ''heading'') (demo_read (demo_files ''before''))
    = Ok (rename_field ''posts'' ''title'' ''heading'' (demo_read (demo_files ''before'')))" by code_simp
qed

text \<open>
  A migration of two ops is another matter.  When a later op takes what an earlier one made,
  the first op of a second run finds neither name, or both: a migration that failed part-way
  is then refused for ever.
\<close>

lemma rename_then_drop_cannot_rerun:
  "(let p = demo_read (demo_files ''before''); cs = [RenameField ''posts'' ''title'' ''gone'', DropFieldOp ''posts'' ''gone''] in
    case migrate_ops ''m'' [] cs p of
      Inl e \<Rightarrow> False
    | Inr (q, _) \<Rightarrow> migrate_ops ''m'' [] cs q = Throw (SchemaFileError ''migration m'' ''names a field which does not exist''))"
  by code_simp

lemma swap_cannot_rerun:
  "(let p = demo_read (demo_files ''before'');
        cs = [RenameField ''posts'' ''title'' ''tmp'', RenameField ''posts'' ''body'' ''title''] in
    case migrate_ops ''m'' [] cs p of
      Inl e \<Rightarrow> False
    | Inr (q, _) \<Rightarrow> migrate_ops ''m'' [] (cs @ [RenameField ''posts'' ''tmp'' ''body'']) q
        = Throw (SchemaFileError ''migration m'' ''exists already'')
      \<and> (case migrate_ops ''m'' [] (cs @ [RenameField ''posts'' ''tmp'' ''body'']) p of Inl e \<Rightarrow> False | Inr r \<Rightarrow> True))"
  by code_simp

text \<open>And a role that is gone is not a custom role, so its drop is refused the second time.\<close>

lemma role_drop_cannot_rerun:
  assumes "n \<in> fst ` set (rt_rows s)" "n \<notin> set ENGINE_SEEDED_ROLES" "ct_roles K = map fst (rt_rows s)"
  shows "prepare_migration K (DropRoleOp n) = Ok ()"
    "prepare_migration (K\<lparr> ct_roles := map fst (rt_rows (deleteRole E n s)) \<rparr>) (DropRoleOp n) = Throw (BadOp (DropRoleOp n))"
  using assms by (auto simp: prepare_migration_def deleteRole_def without_def)

section \<open>Well-formedness is kept\<close>

lemma put_list_ok:
  assumes "collection_ok c" "k \<noteq> ''fields''" shows "collection_ok (put_list k g c)"
proof -
  have "pget (put_list k g c) ''fields'' = pget c ''fields''"
    by (rule trans[OF pget_put_list]) (use assms in \<open>auto simp: collection_ok_def\<close>)
  with assms put_list_obj show ?thesis by (simp add: collection_ok_def)
qed

lemma filter_fields_ok:
  assumes "collection_ok c" shows "collection_ok (put_list ''fields'' (filter P) c)"
proof -
  have "pget (put_list ''fields'' (filter P) c) ''fields'' = JArr (filter P (fields_of c))"
    by (rule trans[OF pget_put_list]) (use assms in \<open>auto simp: collection_ok_def\<close>)
  with assms put_list_obj show ?thesis
    by (auto simp: collection_ok_def list_all_iff distinct_map_filter intro: field_ok_object)
qed

lemma retype_ok:
  assumes "collection_ok c" shows "collection_ok (on_field f (pset ''type'' (JStr t)) c)"
proof -
  let ?u = "update_first (\<lambda>x. pget x ''name'' = JStr f) (pset ''type'' (JStr t))"
  have fo: "field_ok (pset ''type'' (JStr t) x)" if "field_ok x" for x
    using that by (auto simp: field_ok_def prop_set_member)
  have names: "map name_of (?u vs) = map name_of vs" for vs
    by (induction vs) (auto simp: set_type_named)
  have all: "list_all field_ok vs \<Longrightarrow> list_all field_ok (?u vs)" for vs
    by (induction vs) (auto intro: fo)
  have c: "\<exists>ms. c = JObj ms" using assms by (simp add: collection_ok_def)
  show ?thesis
  proof (cases "pget c ''fields''")
    case (JArr vs)
    have "pget (on_field f (pset ''type'' (JStr t)) c) ''fields'' = JArr (?u vs)"
      by (simp add: on_field_def on_list_def JArr pget_pset[OF c])
    moreover have "\<exists>ms. on_field f (pset ''type'' (JStr t)) c = JObj ms"
      unfolding on_field_def by (rule obj_on_list[OF c])
    ultimately show ?thesis using assms all[of vs] names[of vs]
      by (auto simp: collection_ok_def JArr list_all_iff intro: field_ok_object)
  qed (use assms in \<open>auto simp: on_field_def on_list_def\<close>)
qed

lemma on_collection_ok:
  assumes "parsed_ok p" "\<And>v. collection_ok v \<Longrightarrow> collection_ok (g v)"
  shows "parsed_ok (on_collection n g p)"
  using assms by (auto simp: parsed_ok_def on_collection_def map_values_def list_all_iff comp_def case_prod_beta)

lemma drop_collection_ok:
  assumes "parsed_ok p" shows "parsed_ok (drop_collection n p)"
  using assms put_list_ok[of _ "''relations''"]
  by (auto simp: parsed_ok_def drop_collection_def map_values_def without_def list_all_iff comp_def case_prod_beta distinct_map_filter)

lemma migrate_state_ok:
  assumes p: "parsed_ok p" and m: "migrate_state mid c p = Inr q"
  shows "parsed_ok q"
proof (cases c)
  case (RenameField n a b)
  from migrate_rename[OF p m[unfolded this]] show ?thesis by (simp add: renames_def)
next
  case (ChangeFieldType n f t)
  then have "q = on_collection n (on_field f (pset ''type'' (JStr t))) p"
    using m by (auto simp: migrate_state_def Let_def split: option.splits if_splits)
  then show ?thesis using on_collection_ok[OF p retype_ok] by simp
next
  case (DropFieldOp n f)
  then have "q = drop_field n f p" using m by (auto simp: migrate_state_def Let_def split: option.splits)
  then show ?thesis
    unfolding drop_field_def by (simp add: on_collection_ok[OF p] put_list_ok filter_fields_ok)
next
  case (DropCollectionOp n)
  with m drop_collection_ok[OF p] show ?thesis by (auto simp: migrate_state_def)
next
  case (DropRoleOp r)
  with m p show ?thesis
    by (auto simp: migrate_state_def drop_role_def without_def parsed_ok_def distinct_map_filter)
qed

lemma migrate_ops_ok: "migrate_ops mid chk cs p = Inr (q, s) \<Longrightarrow> parsed_ok p \<Longrightarrow> parsed_ok q"
  by (induction mid chk cs p arbitrary: q s rule: migrate_ops.induct) (auto split: sum.splits dest: migrate_state_ok)

text \<open>
  What is read is well formed, and stays so under any migrations: every collection is an
  object whose fields are objects with a name that is a string and not empty, a type that is
  a string and no name twice, and no collection and no role is there twice.
\<close>

theorem files_and_migrations_are_well_formed:
  assumes "read_set E (JObj fs) = Ok p" "distinct (map fst fs)" "run_migrations applied ms p = Ok (q, steps)"
  shows "parsed_ok p \<and> parsed_ok q"
proof -
  have "run_migrations applied ms p = Inr (q, steps) \<Longrightarrow> parsed_ok p \<Longrightarrow> parsed_ok q" for ms p steps
  proof (induction ms arbitrary: p steps)
    case (Cons m ms)
    then show ?case
      by (cases m; auto split: sum.splits option.splits if_splits; blast dest: migrate_ops_ok)
  qed simp
  with assms read_set_ok show ?thesis by blast
qed

theorem files_and_migrations_are_well_formed_witness:
  "parsed_ok (demo_read demo_renamed) \<and> parsed_ok (drop_field ''posts'' ''rank'' (demo_read demo_renamed))"
  by (rule files_and_migrations_are_well_formed[where ms = "[(''m'', [], [DropFieldOp ''posts'' ''rank''])]"
        and applied = "\<lambda>i. None" and E = demo_schema_env and fs = demo_renamed
        and steps = "[migration_step ''m'' [] True (DropFieldOp ''posts'' ''rank'')]"]) code_simp+

end
