(* ===== verification/Validation.thy ===== *)
theory Validation
  imports JsRegex SchemaFiles
begin

text \<open>
  Validation rules (\<open>lib/validation-engine.ts\<close>): what an expression may be, a value against its
  rules, a record against the rules and groups of its collection, the rules a write reads
  through their cache, and who may write a rule (\<open>lib/validation-writes.ts\<close>).

  A value is one of the kinds the code tells apart; a number is the text it prints as, a date
  the ISO text of its instant, or none when it is no date.
\<close>

section \<open>What is given\<close>

datatype field_value =
    VUndefined
  | VNull
  | VBool bool
  | VStr string
  | VNum string
  | VDate "string option"
  | VBig int
  | VOther jval

text \<open>The syntax tree of CEL; \<open>CelNone\<close> is a part that is not there.\<close>

datatype cel =
    CelNone
  | CelConst jval
  | CelIdent string
  | CelSelect cel
  | CelCall string cel "cel list"
  | CelList "cel list"
  | CelStruct "(cel \<times> cel) list"
  | CelComprehension cel cel string string string cel cel cel

datatype cel_outcome = CelTimeout | CelError | CelBool bool | CelValue

text \<open>
  \<open>JSON.parse\<close>, the comparisons of a number with a stored bound, the numbers and dates of
  strings, \<open>safeRegexTest\<close> (a worker and a timer), \<open>new URL\<close>, and the CEL package: its parser,
  the functions it defines, its planner, and a run of a program within the deadline.
\<close>

record valid_env =
  ve_parse :: "string \<Rightarrow> jval option"
  ve_less :: "string \<Rightarrow> jval \<Rightarrow> bool"
  ve_greater :: "string \<Rightarrow> jval \<Rightarrow> bool"
  ve_length :: "string \<Rightarrow> string"
  ve_regex :: "jval \<Rightarrow> string \<Rightarrow> bool"
  ve_url :: "field_value \<Rightarrow> bool"
  ve_date :: "string \<Rightarrow> string option"
  ve_int :: "string \<Rightarrow> int option"
  ve_number :: "string \<Rightarrow> string option"
  ve_cel :: "string \<Rightarrow> cel option"
  ve_funcs :: "string list"
  ve_plan :: "cel \<Rightarrow> bool"
  ve_run :: "cel \<Rightarrow> (string \<times> field_value) list \<Rightarrow> cel_outcome"

section \<open>Expressions\<close>

definition MAX_EXPRESSION_LENGTH :: nat where "MAX_EXPRESSION_LENGTH = 1024"
definition MAX_EXPRESSION_DEPTH :: nat where "MAX_EXPRESSION_DEPTH = 32"

definition UNSAFE_EXPR_TOKEN :: "string \<Rightarrow> bool" where
  "UNSAFE_EXPR_TOKEN s \<longleftrightarrow> (\<exists>t \<in> {''__proto__'', ''constructor'', ''prototype'', ''__defineGetter__'', ''__defineSetter__'',
     ''__lookupGetter__'', ''__lookupSetter__''}. contains_sub t s)"

text \<open>\<open>inspect\<close>: the names not bound, the functions not defined, and the depth.\<close>

record cel_found =
  fd_unknown :: "string list"
  fd_funcs :: "string list"
  fd_depth :: nat

definition plain_name :: "string \<Rightarrow> bool" where
  "plain_name f \<longleftrightarrow> f \<noteq> [] \<and> is_letter (hd f) \<and> list_all is_word (tl f)"

definition noted :: "'a \<Rightarrow> 'a list \<Rightarrow> 'a list" where
  "noted x xs = (if x \<in> set xs then xs else xs @ [x])"

definition at_depth :: "nat \<Rightarrow> cel_found \<Rightarrow> cel_found" where
  "at_depth d out = out\<lparr> fd_depth := max (fd_depth out) d \<rparr>"

definition in_turn :: "(cel_found \<Rightarrow> cel_found) list \<Rightarrow> cel_found \<Rightarrow> cel_found" where
  "in_turn fs out = fold (\<lambda>f. f) fs out"

primrec inspect :: "string list \<Rightarrow> cel \<Rightarrow> string list \<Rightarrow> nat \<Rightarrow> cel_found \<Rightarrow> cel_found" where
  "inspect F CelNone = (\<lambda>bound d out. out)"
| "inspect F (CelConst v) = (\<lambda>bound d out. at_depth d out)"
| "inspect F (CelIdent n) = (\<lambda>bound d out.
    if n \<in> set bound then at_depth d out else (at_depth d out)\<lparr> fd_unknown := noted n (fd_unknown out) \<rparr>)"
| "inspect F (CelSelect e) = (\<lambda>bound d out. inspect F e bound (d + 1) (at_depth d out))"
| "inspect F (CelCall f t as) = (\<lambda>bound d out.
    in_turn (map (\<lambda>g. g bound (d + 1)) (inspect F t # map (inspect F) as))
      (if plain_name f \<and> f \<notin> set F then (at_depth d out)\<lparr> fd_funcs := noted f (fd_funcs out) \<rparr> else at_depth d out))"
| "inspect F (CelList es) = (\<lambda>bound d out. in_turn (map (\<lambda>g. g bound (d + 1)) (map (inspect F) es)) (at_depth d out))"
| "inspect F (CelStruct kvs) = (\<lambda>bound d out.
    in_turn (concat (map (\<lambda>(k, v). [k bound (d + 1), v bound (d + 1)]) (map (map_prod (inspect F) (inspect F)) kvs))) (at_depth d out))"
| "inspect F (CelComprehension iter init v1 v2 accu cond step_expr result) = (\<lambda>bound d out.
    let inner = filter (\<lambda>n. n \<noteq> []) [v1, v2, accu] @ bound in
    in_turn [inspect F iter bound (d + 1), inspect F init bound (d + 1), inspect F cond inner (d + 1),
      inspect F step_expr inner (d + 1), inspect F result inner (d + 1)] (at_depth d out))"

datatype compile_refusal =
    TooLong | BlockedToken | NotCel | TooDeep | UnknownNames "string list" | UnknownFunctions "string list" | NotPlanned

definition VALUE_ONLY :: "string list" where "VALUE_ONLY = [''value'']"
definition FLOW_CONDITION_SCOPE :: "string list" where "FLOW_CONDITION_SCOPE = [''trigger'', ''output'']"
definition TRANSITION_SCOPE :: "string list" where "TRANSITION_SCOPE = [''value'', ''previous'']"

definition compile_cel :: "valid_env \<Rightarrow> string \<Rightarrow> string list \<Rightarrow> (compile_refusal, cel) result" where
  "compile_cel E expression scope =
    (if MAX_EXPRESSION_LENGTH < length expression then Throw TooLong
     else if UNSAFE_EXPR_TOKEN expression then Throw BlockedToken
     else (case ve_cel E expression of
        None \<Rightarrow> Throw NotCel
      | Some e \<Rightarrow>
          let found = inspect (ve_funcs E) e scope 1 \<lparr> fd_unknown = [], fd_funcs = [], fd_depth = 0 \<rparr> in
          if MAX_EXPRESSION_DEPTH < fd_depth found then Throw TooDeep
          else if fd_unknown found \<noteq> [] then Throw (UnknownNames (fd_unknown found))
          else if fd_funcs found \<noteq> [] then Throw (UnknownFunctions (fd_funcs found))
          else if ve_plan E e then Ok e else Throw NotPlanned))"

definition checkValidationExpression :: "valid_env \<Rightarrow> string \<Rightarrow> string \<Rightarrow> (compile_refusal, unit) result" where
  "checkValidationExpression E expression ruleType =
    (case compile_cel E expression (if ruleType = ''transition'' then TRANSITION_SCOPE else VALUE_ONLY) of
       Inl r \<Rightarrow> Throw r | Inr e \<Rightarrow> Ok ())"

definition checkConditionExpression :: "valid_env \<Rightarrow> string \<Rightarrow> (compile_refusal, unit) result" where
  "checkConditionExpression E expression =
    (case compile_cel E expression FLOW_CONDITION_SCOPE of Inl r \<Rightarrow> Throw r | Inr e \<Rightarrow> Ok ())"

datatype expression_result = Passed | Failed | Refused

text \<open>The cache of programs repeats what \<open>compile\<close> answers, and is left out.\<close>

definition evaluate_cel :: "valid_env \<Rightarrow> string \<Rightarrow> string list \<Rightarrow> (string \<times> field_value) list \<Rightarrow> expression_result" where
  "evaluate_cel E expression scope bindings =
    (case compile_cel E expression scope of
       Inl r \<Rightarrow> Refused
     | Inr e \<Rightarrow> (case ve_run E e bindings of CelBool b \<Rightarrow> if b then Passed else Failed | _ \<Rightarrow> Refused))"

section \<open>A value against its rules\<close>

definition INTEGER_FIELD_TYPES :: "string list" where
  "INTEGER_FIELD_TYPES = [''integer'', ''int'', ''bigint'', ''smallint'']"

definition DOUBLE_FIELD_TYPES :: "string list" where
  "DOUBLE_FIELD_TYPES = [''number'', ''float'', ''real'', ''decimal'']"

definition in_types :: "string option \<Rightarrow> string list \<Rightarrow> bool" where
  "in_types t ts \<longleftrightarrow> (case t of None \<Rightarrow> False | Some x \<Rightarrow> x \<in> set ts)"

text \<open>\<open>/^-?\d+$/\<close> and the integer such a text is.\<close>

definition integer_text :: "string \<Rightarrow> bool" where
  "integer_text s \<longleftrightarrow> (let d = (if starts_with ''-'' s then tl s else s) in d \<noteq> [] \<and> list_all is_digit d)"

definition decimal_value :: "string \<Rightarrow> int" where
  "decimal_value s = foldl (\<lambda>n c. 10 * n + (int (code c) - 48)) 0 s"

definition big_of :: "string \<Rightarrow> int" where
  "big_of s = (if starts_with ''-'' s then - decimal_value (tl s) else decimal_value s)"

text \<open>\<open>toCelValue\<close>; an instant that is none throws where it is printed.\<close>

definition toCelValue :: "valid_env \<Rightarrow> field_value \<Rightarrow> string option \<Rightarrow> field_value option" where
  "toCelValue E v t =
    (if v = VUndefined then Some VNull
     else (let instant = (case v of VDate i \<Rightarrow> i | VStr s \<Rightarrow> ve_date E s | _ \<Rightarrow> None) in
       if in_types t [''date'', ''datetime''] \<and> instant \<noteq> None
       then Some (VStr (if t = Some ''date'' then take 10 (the instant) else the instant))
       else (case v of
          VDate i \<Rightarrow> map_option VStr i
        | VNum n \<Rightarrow> (case (if in_types t INTEGER_FIELD_TYPES then ve_int E n else None) of Some i \<Rightarrow> Some (VBig i) | None \<Rightarrow> Some v)
        | VStr s \<Rightarrow>
            if in_types t INTEGER_FIELD_TYPES \<and> integer_text s then Some (VBig (big_of s))
            else if in_types t DOUBLE_FIELD_TYPES \<and> js_trim s \<noteq> []
            then Some (case ve_number E s of Some n \<Rightarrow> VNum n | None \<Rightarrow> v)
            else Some v
        | _ \<Rightarrow> Some v)))"

text \<open>What a value does to its write: nothing, an error, or a throw that refuses the write.\<close>

datatype rule_thrown = RuleThrown

definition evaluateExpressionRule :: "valid_env \<Rightarrow> string \<Rightarrow> field_value \<Rightarrow> string option \<Rightarrow> (rule_thrown, expression_result) result" where
  "evaluateExpressionRule E x v t =
    (case toCelValue E v t of None \<Rightarrow> Throw RuleThrown | Some c \<Rightarrow> Ok (evaluate_cel E x VALUE_ONLY [(''value'', c)]))"

definition evaluateTransitionRule ::
  "valid_env \<Rightarrow> string \<Rightarrow> field_value \<Rightarrow> field_value \<Rightarrow> string option \<Rightarrow> (rule_thrown, expression_result) result" where
  "evaluateTransitionRule E x v p t =
    (case (toCelValue E v t, toCelValue E p t) of
       (Some c, Some q) \<Rightarrow> Ok (evaluate_cel E x TRANSITION_SCOPE [(''value'', c), (''previous'', q)])
     | _ \<Rightarrow> Throw RuleThrown)"

record validation_rule =
  vr_id :: "string option"
  vr_tenant :: "string option"
  vr_field :: string
  vr_type :: string
  vr_config :: jval
  vr_message :: "string option"

text \<open>\<open>/^[^\s@]+@[^\s@]+\.[^\s@]+$/\<close>\<close>

definition mail_char :: "char \<Rightarrow> bool" where
  "mail_char c \<longleftrightarrow> \<not> is_space c \<and> c \<noteq> CHR ''@''"

definition EMAIL_RE :: "string \<Rightarrow> bool" where
  "EMAIL_RE s = rx_test (rx_seq [rx_begin, rx_some mail_char, rx_char (\<lambda>c. c = CHR ''@''), rx_some mail_char,
     rx_char (\<lambda>c. c = CHR ''.''), rx_some mail_char, rx_end]) s"

definition js_truthy :: "field_value \<Rightarrow> bool" where
  "js_truthy v = (case v of VUndefined \<Rightarrow> False | VNull \<Rightarrow> False | VBool b \<Rightarrow> b | VStr s \<Rightarrow> s \<noteq> []
     | VNum n \<Rightarrow> n \<noteq> ''0'' \<and> n \<noteq> ''NaN'' | VBig i \<Rightarrow> i \<noteq> 0 | _ \<Rightarrow> True)"

text \<open>The outcome of one rule: it holds, is violated, or cannot be evaluated.\<close>

datatype rule_outcome = Holds | Violated | Misconfigured

definition violated_if :: "bool \<Rightarrow> (rule_thrown, rule_outcome) result" where
  "violated_if b = Ok (if b then Violated else Holds)"

text \<open>A member of a configuration that is \<open>null\<close> throws.\<close>

definition with_config :: "jval \<Rightarrow> string \<Rightarrow> (jval \<Rightarrow> bool) \<Rightarrow> (rule_thrown, rule_outcome) result" where
  "with_config cfg k f = (if cfg = JNull then Throw RuleThrown else violated_if (f (pget cfg k)))"

definition expression_outcome :: "(rule_thrown, expression_result) result \<Rightarrow> (rule_thrown, rule_outcome) result" where
  "expression_outcome r = (case r of
     Inl t \<Rightarrow> Throw t
   | Inr x \<Rightarrow> Ok (case x of Passed \<Rightarrow> Holds | Failed \<Rightarrow> Violated | Refused \<Rightarrow> Misconfigured))"

definition rule_config :: "valid_env \<Rightarrow> validation_rule \<Rightarrow> (rule_thrown, jval) result" where
  "rule_config E r = (case vr_config r of
     JStr s \<Rightarrow> (case ve_parse E s of None \<Rightarrow> Throw RuleThrown | Some v \<Rightarrow> Ok v)
   | v \<Rightarrow> Ok v)"

definition expression_of :: "jval \<Rightarrow> string" where
  "expression_of cfg = (case pget cfg ''expression'' of JNull \<Rightarrow> [] | v \<Rightarrow> js_string v)"

definition rule_outcome ::
  "valid_env \<Rightarrow> field_value \<Rightarrow> string option \<Rightarrow> field_value option \<Rightarrow> validation_rule \<Rightarrow> (rule_thrown, rule_outcome) result" where
  "rule_outcome E v t previous r =
    (case rule_config E r of
       Inl e \<Rightarrow> Throw e
     | Inr cfg \<Rightarrow>
         let type = vr_type r; num = (\<lambda>k f. case v of VNum n \<Rightarrow> with_config cfg k (f n) | _ \<Rightarrow> violated_if False) in
         if type = ''required'' then violated_if (v = VNull \<or> v = VUndefined \<or> v = VStr [])
         else if type = ''min'' then num ''value'' (ve_less E)
         else if type = ''max'' then num ''value'' (ve_greater E)
         else if type = ''minLength'' then
           (case v of VStr s \<Rightarrow> with_config cfg ''value'' (ve_less E (ve_length E s)) | _ \<Rightarrow> violated_if False)
         else if type = ''maxLength'' then
           (case v of VStr s \<Rightarrow> with_config cfg ''value'' (ve_greater E (ve_length E s)) | _ \<Rightarrow> violated_if False)
         else if type = ''pattern'' then
           (case v of VStr s \<Rightarrow> with_config cfg ''pattern'' (\<lambda>p. \<not> ve_regex E p s) | _ \<Rightarrow> violated_if False)
         else if type = ''range'' then
           num ''min'' (\<lambda>n lo. ve_less E n lo \<or> ve_greater E n (pget cfg ''max''))
         else if type = ''email'' then
           (case v of VStr s \<Rightarrow> violated_if (s \<noteq> [] \<and> \<not> EMAIL_RE s) | _ \<Rightarrow> violated_if False)
         else if type = ''url'' then violated_if (js_truthy v \<and> \<not> ve_url E v)
         else if type = ''custom'' \<or> type = ''nlp'' then
           (if expression_of cfg = [] then Ok Misconfigured else expression_outcome (evaluateExpressionRule E (expression_of cfg) v t))
         else if type = ''transition'' then
           (if expression_of cfg = [] then Ok Misconfigured
            else (case previous of None \<Rightarrow> Ok Misconfigured
              | Some p \<Rightarrow> expression_outcome (evaluateTransitionRule E (expression_of cfg) v p t)))
         else Ok Misconfigured)"

definition CANNOT_EVALUATE :: string where
  "CANNOT_EVALUATE = ''a validation rule on this field cannot be evaluated; an administrator must fix or deactivate it''"

definition outcome_errors :: "validation_rule \<Rightarrow> rule_outcome \<Rightarrow> string list" where
  "outcome_errors r out = (case out of Holds \<Rightarrow> [] | Misconfigured \<Rightarrow> [CANNOT_EVALUATE]
     | Violated \<Rightarrow> [case vr_message r of Some m \<Rightarrow> m | None \<Rightarrow> ''Validation failed: '' @ vr_type r])"

fun validateFieldValue ::
  "valid_env \<Rightarrow> field_value \<Rightarrow> validation_rule list \<Rightarrow> string option \<Rightarrow> field_value option \<Rightarrow> (rule_thrown, string list) result" where
  "validateFieldValue E v [] t p = Ok []"
| "validateFieldValue E v (r # rs) t p =
    (case rule_outcome E v t p r of
       Inl e \<Rightarrow> Throw e
     | Inr out \<Rightarrow> (case validateFieldValue E v rs t p of
          Inl e \<Rightarrow> Throw e
        | Inr errs \<Rightarrow> Ok (outcome_errors r out @ errs)))"

end
