(* ===== verification/ValidationRecord.thy ===== *)
theory ValidationRecord
  imports Validation "HOL-Library.Multiset"
begin

text \<open>
  A record against the rules and groups of its collection (\<open>validateRecord\<close>), and what a
  verdict is worth: that it says what the rules say, that checking transitions after the
  stored record is locked loses nothing, and that a tenant's rules only tighten.
\<close>

section \<open>The verdict\<close>

record rule_group =
  rg_field :: string
  rg_logic :: string
  rg_ids :: "string list"

text \<open>\<open>transitions\<close>: left out, all; \<open>skip\<close>; \<open>only\<close>.\<close>

datatype transitions = AllRules | SkipTransitions | OnlyTransitions

record validate_opts =
  vo_previous :: "(string \<times> field_value) list option option"
  vo_transitions :: transitions
  vo_opaque :: "string list"

definition wanted_rule :: "transitions \<Rightarrow> validation_rule \<Rightarrow> bool" where
  "wanted_rule t r \<longleftrightarrow> (case t of AllRules \<Rightarrow> True
     | SkipTransitions \<Rightarrow> vr_type r \<noteq> ''transition'' | OnlyTransitions \<Rightarrow> vr_type r = ''transition'')"

text \<open>
  \<open>opts.previous\<close>: left out, \<open>null\<close> on create, or the stored record, in which a name every
  object inherits is always found.
\<close>

definition previous_of :: "validate_opts \<Rightarrow> string \<Rightarrow> field_value option" where
  "previous_of opts f =
    (if f \<in> set (vo_opaque opts) then None
     else (case vo_previous opts of None \<Rightarrow> None | Some None \<Rightarrow> Some VNull | Some (Some rec) \<Rightarrow>
       (case map_of rec f of Some v \<Rightarrow> Some v | None \<Rightarrow> if f \<in> set inherited then Some (VOther JNull) else None)))"

definition groupable :: "validation_rule \<Rightarrow> bool" where
  "groupable r \<longleftrightarrow> vr_id r \<noteq> None \<and> (vr_tenant r = None \<or> vr_tenant r = Some []) \<and> vr_type r \<noteq> ''transition''"

definition rule_in :: "string list \<Rightarrow> validation_rule \<Rightarrow> bool" where
  "rule_in ids r \<longleftrightarrow> (case vr_id r of None \<Rightarrow> [] \<in> set ids | Some i \<Rightarrow> i \<in> set ids)"

definition ungrouped :: "rule_group list \<Rightarrow> validation_rule list \<Rightarrow> validation_rule list" where
  "ungrouped gs rules = filter (\<lambda>r. \<not> groupable r \<or> \<not> rule_in (concat (map rg_ids gs)) r) rules"

definition group_members :: "rule_group \<Rightarrow> validation_rule list \<Rightarrow> validation_rule list" where
  "group_members g rules = filter (\<lambda>r. groupable r \<and> rule_in (rg_ids g) r) rules"

fun validate_each :: "valid_env \<Rightarrow> field_value \<Rightarrow> string option \<Rightarrow> validation_rule list \<Rightarrow> (rule_thrown, string list list) result" where
  "validate_each E v t [] = Ok []"
| "validate_each E v t (r # rs) =
    (case validateFieldValue E v [r] t None of
       Inl e \<Rightarrow> Throw e
     | Inr errs \<Rightarrow> (case validate_each E v t rs of Inl e \<Rightarrow> Throw e | Inr ess \<Rightarrow> Ok (errs # ess)))"

definition group_errors :: "valid_env \<Rightarrow> field_value \<Rightarrow> string option \<Rightarrow> validation_rule list \<Rightarrow> rule_group \<Rightarrow> (rule_thrown, string list) result" where
  "group_errors E v t rules g =
    (let members = group_members g rules in
     if members = [] then Ok []
     else if rg_logic g = ''OR'' then
       (case validate_each E v t members of
          Inl e \<Rightarrow> Throw e
        | Inr perRule \<Rightarrow> Ok (if list_all (\<lambda>e. e \<noteq> []) perRule then concat perRule else []))
     else validateFieldValue E v members t None)"

fun all_group_errors :: "valid_env \<Rightarrow> field_value \<Rightarrow> string option \<Rightarrow> validation_rule list \<Rightarrow> rule_group list \<Rightarrow> (rule_thrown, string list) result" where
  "all_group_errors E v t rules [] = Ok []"
| "all_group_errors E v t rules (g # gs) =
    (case group_errors E v t rules g of
       Inl e \<Rightarrow> Throw e
     | Inr errs \<Rightarrow> (case all_group_errors E v t rules gs of Inl e \<Rightarrow> Throw e | Inr rest \<Rightarrow> Ok (errs @ rest)))"

definition field_errors ::
  "valid_env \<Rightarrow> validation_rule list \<Rightarrow> rule_group list \<Rightarrow> (string \<times> string) list \<Rightarrow> validate_opts \<Rightarrow> string \<Rightarrow> field_value \<Rightarrow>
   (rule_thrown, string list) result" where
  "field_errors E rules groups types opts f v =
    (let mine = filter (wanted_rule (vo_transitions opts)) rules; t = map_of types f;
         gs = filter (\<lambda>g. rg_field g = f) groups in
     if mine = [] then Ok []
     else (case validateFieldValue E v (ungrouped gs mine) t (previous_of opts f) of
        Inl e \<Rightarrow> Throw e
      | Inr errs \<Rightarrow> (case all_group_errors E v t mine gs of Inl e \<Rightarrow> Throw e | Inr rest \<Rightarrow> Ok (errs @ rest))))"

text \<open>\<open>rulesOf\<close> is what \<open>getValidationRules\<close> answers for a field.\<close>

fun validateRecord ::
  "valid_env \<Rightarrow> (string \<Rightarrow> validation_rule list) \<Rightarrow> rule_group list \<Rightarrow> (string \<times> string) list \<Rightarrow> validate_opts \<Rightarrow>
   (string \<times> field_value) list \<Rightarrow> (rule_thrown, (string \<times> string list) list) result" where
  "validateRecord E rulesOf groups types opts [] = Ok []"
| "validateRecord E rulesOf groups types opts ((f, v) # data) =
    (case field_errors E (rulesOf f) groups types opts f v of
       Inl e \<Rightarrow> Throw e
     | Inr errs \<Rightarrow> (case validateRecord E rulesOf groups types opts data of
          Inl e \<Rightarrow> Throw e
        | Inr rest \<Rightarrow> Ok ((if errs = [] then [] else [(f, errs)]) @ rest)))"

section \<open>What a verdict says\<close>

abbreviation rule_ok :: "valid_env \<Rightarrow> field_value \<Rightarrow> string option \<Rightarrow> field_value option \<Rightarrow> validation_rule \<Rightarrow> bool" where
  "rule_ok E v t p r \<equiv> rule_outcome E v t p r = Ok Holds"

definition group_holds :: "valid_env \<Rightarrow> field_value \<Rightarrow> string option \<Rightarrow> validation_rule list \<Rightarrow> rule_group \<Rightarrow> bool" where
  "group_holds E v t rules g \<longleftrightarrow> (let members = group_members g rules in
     if rg_logic g = ''OR''
     then members = [] \<or> (\<exists>r \<in> set members. rule_ok E v t None r) \<and> (\<forall>r \<in> set members. rule_outcome E v t None r \<noteq> Throw RuleThrown)
     else \<forall>r \<in> set members. rule_ok E v t None r)"

definition field_holds ::
  "valid_env \<Rightarrow> validation_rule list \<Rightarrow> rule_group list \<Rightarrow> (string \<times> string) list \<Rightarrow> validate_opts \<Rightarrow> string \<Rightarrow> field_value \<Rightarrow> bool" where
  "field_holds E rules groups types opts f v \<longleftrightarrow>
    (let mine = filter (wanted_rule (vo_transitions opts)) rules; t = map_of types f; gs = filter (\<lambda>g. rg_field g = f) groups in
     (\<forall>r \<in> set (ungrouped gs mine). rule_ok E v t (previous_of opts f) r) \<and> (\<forall>g \<in> set gs. group_holds E v t mine g))"

lemma outcome_errors_empty [simp]: "outcome_errors r out = [] \<longleftrightarrow> out = Holds"
  by (cases out) (simp_all add: outcome_errors_def)

lemma thrown_unique [simp]: "e = RuleThrown"
  by (cases e) simp

lemma field_value_ok: "validateFieldValue E v rs t p = Ok [] \<longleftrightarrow> (\<forall>r \<in> set rs. rule_ok E v t p r)"
  by (induction E v rs t p rule: validateFieldValue.induct) (auto split: sum.splits)

lemma field_value_throws:
  "(\<exists>e. validateFieldValue E v rs t p = Throw e) \<longleftrightarrow> (\<exists>r \<in> set rs. rule_outcome E v t p r = Throw RuleThrown)"
  by (induction E v rs t p rule: validateFieldValue.induct) (auto split: sum.splits)

lemma validate_each_ok:
  "(case validate_each E v t rs of Inl e \<Rightarrow> \<exists>r \<in> set rs. rule_outcome E v t None r = Throw RuleThrown
    | Inr ess \<Rightarrow> (\<forall>r \<in> set rs. rule_outcome E v t None r \<noteq> Throw RuleThrown)
        \<and> (list_all (\<lambda>e. e \<noteq> []) ess \<longleftrightarrow> \<not> (\<exists>r \<in> set rs. rule_ok E v t None r)) \<and> length ess = length rs)"
  by (induction rs) (auto split: sum.splits)

lemma group_errors_ok: "group_errors E v t rules g = Ok [] \<longleftrightarrow> group_holds E v t rules g"
proof (cases "rg_logic g = ''OR''")
  case True
  let ?m = "group_members g rules"
  show ?thesis
  proof (cases "validate_each E v t ?m")
    case (Inl e)
    then show ?thesis using validate_each_ok[where E = E and v = v and t = t and rs = ?m]
      by (auto simp: group_errors_def group_holds_def Let_def True)
  next
    case (Inr ess)
    have "concat ess \<noteq> []" if "list_all (\<lambda>e. e \<noteq> []) ess" "?m \<noteq> []"
      using that Inr validate_each_ok[where E = E and v = v and t = t and rs = ?m] by (cases ess) auto
    then show ?thesis using Inr validate_each_ok[where E = E and v = v and t = t and rs = ?m]
      by (auto simp: group_errors_def group_holds_def Let_def True)
  qed
qed (auto simp: group_errors_def group_holds_def Let_def field_value_ok)

lemma all_group_errors_ok: "all_group_errors E v t rules gs = Ok [] \<longleftrightarrow> (\<forall>g \<in> set gs. group_holds E v t rules g)"
  by (induction gs) (auto simp flip: group_errors_ok split: sum.splits)

lemma no_members [simp]: "group_members g [] = []"
  by (simp add: group_members_def)

lemma no_members_hold [simp]: "group_holds E v t [] g"
  by (simp add: group_holds_def)

lemma field_errors_ok: "field_errors E rules groups types opts f v = Ok [] \<longleftrightarrow> field_holds E rules groups types opts f v"
proof -
  let ?mine = "filter (wanted_rule (vo_transitions opts)) rules" and ?t = "map_of types f" and ?gs = "filter (\<lambda>g. rg_field g = f) groups"
  have holds: "field_holds E rules groups types opts f v \<longleftrightarrow>
      validateFieldValue E v (ungrouped ?gs ?mine) ?t (previous_of opts f) = Ok [] \<and> all_group_errors E v ?t ?mine ?gs = Ok []"
    by (simp add: field_holds_def Let_def field_value_ok all_group_errors_ok)
  show ?thesis
  proof (cases "?mine = []")
    case True
    then show ?thesis unfolding holds by (simp add: field_errors_def Let_def ungrouped_def all_group_errors_ok del: filter_empty_conv)
  next
    case False
    then show ?thesis unfolding holds field_errors_def Let_def by (auto split: sum.splits simp del: filter_empty_conv)
  qed
qed

text \<open>A write goes on exactly when the verdict is there and has no error.\<close>

definition admits ::
  "valid_env \<Rightarrow> (string \<Rightarrow> validation_rule list) \<Rightarrow> rule_group list \<Rightarrow> (string \<times> string) list \<Rightarrow> validate_opts \<Rightarrow>
   (string \<times> field_value) list \<Rightarrow> bool" where
  "admits E rulesOf groups types opts data \<longleftrightarrow> validateRecord E rulesOf groups types opts data = Ok []"

lemma admits_iff:
  "admits E rulesOf groups types opts data \<longleftrightarrow> (\<forall>(f, v) \<in> set data. field_holds E (rulesOf f) groups types opts f v)"
  unfolding admits_def
  by (induction data) (auto simp flip: field_errors_ok split: sum.splits if_splits)

section \<open>Two phases\<close>

lemma outcome_without_previous: "vr_type r \<noteq> ''transition'' \<Longrightarrow> rule_outcome E v t p r = rule_outcome E v t q r"
  by (cases "rule_config E r") (simp_all add: rule_outcome_def Let_def)

lemma members_skip: "group_members g (filter (wanted_rule SkipTransitions) rules) = group_members g rules"
  by (auto simp: group_members_def wanted_rule_def groupable_def intro!: filter_cong)

lemma members_only: "group_members g (filter (wanted_rule OnlyTransitions) rules) = []"
  by (auto simp: group_members_def wanted_rule_def groupable_def filter_empty_conv)

lemma group_holds_members: "group_members g rs = group_members g qs \<Longrightarrow> group_holds E v t rs g = group_holds E v t qs g"
  by (simp add: group_holds_def)

lemma field_two_phases:
  assumes "vo_transitions all = AllRules" "vo_transitions first = SkipTransitions" "vo_transitions later = OnlyTransitions"
    "vo_previous later = vo_previous all" "vo_opaque later = vo_opaque all"
  shows "field_holds E rules groups types all f v \<longleftrightarrow>
    field_holds E rules groups types first f v \<and> field_holds E rules groups types later f v"
proof -
  let ?gs = "filter (\<lambda>g. rg_field g = f) groups" and ?t = "map_of types f"
  have prev: "previous_of later f = previous_of all f" using assms(4,5) by (simp add: previous_of_def)
  have every: "filter (wanted_rule AllRules) rules = rules" by (simp add: wanted_rule_def)
  have split_rules: "(\<forall>r \<in> set (ungrouped ?gs rules). rule_ok E v ?t p r) \<longleftrightarrow>
      (\<forall>r \<in> set (ungrouped ?gs (filter (wanted_rule SkipTransitions) rules)). rule_ok E v ?t q r)
      \<and> (\<forall>r \<in> set (ungrouped ?gs (filter (wanted_rule OnlyTransitions) rules)). rule_ok E v ?t p r)" for p q
  proof -
    have split: "filter Q (filter (wanted_rule SkipTransitions) rules) = filter (\<lambda>r. vr_type r \<noteq> ''transition'' \<and> Q r) rules"
      "filter Q (filter (wanted_rule OnlyTransitions) rules) = filter (\<lambda>r. vr_type r = ''transition'' \<and> Q r) rules" for Q
      by (auto simp: wanted_rule_def intro: filter_cong)
    have "rule_ok E v ?t p r = rule_ok E v ?t q r" if "vr_type r \<noteq> ''transition''" for r
      using outcome_without_previous[OF that, of E v ?t p q] by simp
    then show ?thesis unfolding ungrouped_def split set_filter mem_Collect_eq by blast
  qed
  have skip: "group_holds E v ?t (filter (wanted_rule SkipTransitions) rules) g = group_holds E v ?t rules g" for g
    by (rule group_holds_members) (rule members_skip)
  have only: "group_holds E v ?t (filter (wanted_rule OnlyTransitions) rules) g" for g
    by (simp add: group_holds_def members_only)
  show ?thesis
    unfolding field_holds_def Let_def assms(1-3) prev every skip split_rules[of "previous_of all f" "previous_of first f"]
    using only by blast
qed

text \<open>
  Transitions can wait for the lock.  A write that is checked without its transition rules
  first, and with them alone once the stored record is read and locked, is admitted exactly
  when one check of all its rules against that record admits it, whatever the first check was
  given for the stored record.
\<close>

theorem transitions_can_wait:
  assumes "vo_transitions all = AllRules" "vo_transitions first = SkipTransitions" "vo_transitions later = OnlyTransitions"
    "vo_previous later = vo_previous all" "vo_opaque later = vo_opaque all"
  shows "admits E rulesOf groups types all data \<longleftrightarrow>
    admits E rulesOf groups types first data \<and> admits E rulesOf groups types later data"
  unfolding admits_iff using field_two_phases[OF assms] by fast

section \<open>A tenant's rules\<close>

definition instance_rule :: "validation_rule \<Rightarrow> bool" where
  "instance_rule r \<longleftrightarrow> vr_tenant r = None \<or> vr_tenant r = Some []"

lemma members_instance: "group_members g (filter instance_rule rules) = group_members g rules"
  by (auto simp: group_members_def instance_rule_def groupable_def intro!: filter_cong)

text \<open>
  C27. A tenant's rules only tighten.  A write admitted under the instance's rules and any rules
  of a tenant is admitted under the instance's rules alone: no rule of a tenant, whatever its
  id, satisfies a group or stands in for a rule of the instance.
\<close>

theorem tenant_rules_only_tighten:
  assumes "admits E rulesOf groups types opts data"
  shows "admits E (\<lambda>f. filter instance_rule (rulesOf f)) groups types opts data"
proof -
  have mine: "filter P (filter instance_rule rs) = filter instance_rule (filter P rs)" for P rs
    by (auto intro: filter_cong)
  have "field_holds E (filter instance_rule rules) groups types opts f v" if "field_holds E rules groups types opts f v" for rules f v
  proof -
    let ?mine = "filter (wanted_rule (vo_transitions opts)) rules" and ?gs = "filter (\<lambda>g. rg_field g = f) groups"
    have "set (ungrouped ?gs (filter instance_rule ?mine)) \<subseteq> set (ungrouped ?gs ?mine)"
      by (auto simp: ungrouped_def)
    moreover have "group_holds E v t (filter instance_rule ?mine) g = group_holds E v t ?mine g" for t g
      by (rule group_holds_members) (rule members_instance)
    ultimately show ?thesis using that unfolding field_holds_def Let_def mine by blast
  qed
  with assms show ?thesis unfolding admits_iff by fast
qed

text \<open>
  A verdict is what the rules say.  A write goes on exactly when, for each of its fields, every
  rule of no group holds and every group with a member among the rules holds: one member of an
  \<open>OR\<close> group, all of another.  A rule that cannot be evaluated holds for no value, and one that
  throws refuses the write.
\<close>

lemma verdict_is_the_rules:
  "admits E rulesOf groups types opts data \<longleftrightarrow> (\<forall>(f, v) \<in> set data.
     let mine = filter (wanted_rule (vo_transitions opts)) (rulesOf f); t = map_of types f; gs = filter (\<lambda>g. rg_field g = f) groups in
     (\<forall>r \<in> set mine. (groupable r \<and> (\<exists>g \<in> set gs. rule_in (rg_ids g) r)) \<or> rule_outcome E v t (previous_of opts f) r = Ok Holds)
     \<and> (\<forall>g \<in> set gs. group_members g mine \<noteq> [] \<longrightarrow>
          (if rg_logic g = ''OR''
           then (\<exists>r \<in> set (group_members g mine). rule_outcome E v t None r = Ok Holds)
             \<and> (\<forall>r \<in> set (group_members g mine). rule_outcome E v t None r \<noteq> Throw RuleThrown)
           else \<forall>r \<in> set (group_members g mine). rule_outcome E v t None r = Ok Holds)))"
proof -
  have "rule_in (concat (map rg_ids gs)) r \<longleftrightarrow> (\<exists>g \<in> set gs. rule_in (rg_ids g) r)" for gs :: "rule_group list" and r
    by (auto simp: rule_in_def split: option.splits)
  then have ung: "(\<forall>r \<in> set (ungrouped gs mine). X r) \<longleftrightarrow>
      (\<forall>r \<in> set mine. (groupable r \<and> (\<exists>g \<in> set gs. rule_in (rg_ids g) r)) \<or> X r)" for gs mine X
    by (auto simp: ungrouped_def)
  have grp: "group_holds E v t mine g \<longleftrightarrow> (group_members g mine \<noteq> [] \<longrightarrow>
          (if rg_logic g = ''OR''
           then (\<exists>r \<in> set (group_members g mine). rule_outcome E v t None r = Ok Holds)
             \<and> (\<forall>r \<in> set (group_members g mine). rule_outcome E v t None r \<noteq> Throw RuleThrown)
           else \<forall>r \<in> set (group_members g mine). rule_outcome E v t None r = Ok Holds))" for v t mine g
    by (auto simp: group_holds_def Let_def)
  show ?thesis unfolding admits_iff field_holds_def Let_def ung grp by (rule refl)
qed

section \<open>Instances\<close>

definition demo_valid_env :: valid_env where
  "demo_valid_env = \<lparr> ve_parse = (\<lambda>s. None), ve_less = (\<lambda>n b. False), ve_greater = (\<lambda>n b. JNum n \<noteq> b), ve_length = (\<lambda>s. ''1''),
     ve_regex = (\<lambda>p s. True), ve_url = (\<lambda>v. True), ve_date = (\<lambda>s. None), ve_int = (\<lambda>n. None), ve_number = (\<lambda>s. None),
     ve_cel = (\<lambda>x. Some (CelIdent ''value'')), ve_funcs = [], ve_plan = (\<lambda>e. True), ve_run = (\<lambda>e b. CelBool True) \<rparr>"

definition demo_rule :: "string \<Rightarrow> string option \<Rightarrow> string \<Rightarrow> jval \<Rightarrow> validation_rule" where
  "demo_rule i tenant type cfg = \<lparr> vr_id = Some i, vr_tenant = tenant, vr_field = ''vat'', vr_type = type, vr_config = cfg, vr_message = None \<rparr>"

definition demo_rules :: "string \<Rightarrow> validation_rule list" where
  "demo_rules f = (if f = ''vat'' then
     [demo_rule ''a'' None ''email'' JNull, demo_rule ''b'' None ''required'' JNull,
      demo_rule ''c'' (Some ''t1'') ''url'' JNull, demo_rule ''d'' None ''transition'' (JObj [(''expression'', JStr ''value'')])] else [])"

definition demo_groups :: "rule_group list" where
  "demo_groups = [\<lparr> rg_field = ''vat'', rg_logic = ''OR'', rg_ids = [''a'', ''b'', ''c''] \<rparr>]"

definition demo_opts :: "transitions \<Rightarrow> validate_opts" where
  "demo_opts t = \<lparr> vo_previous = (if t = SkipTransitions then None else Some (Some [(''vat'', VStr ''x'')])), vo_transitions = t, vo_opaque = [] \<rparr>"

theorem transitions_can_wait_witness:
  "admits demo_valid_env demo_rules demo_groups [] (demo_opts AllRules) [(''vat'', VStr ''RO1'')]
    \<longleftrightarrow> admits demo_valid_env demo_rules demo_groups [] (demo_opts SkipTransitions) [(''vat'', VStr ''RO1'')]
      \<and> admits demo_valid_env demo_rules demo_groups [] (demo_opts OnlyTransitions) [(''vat'', VStr ''RO1'')]"
  by (rule transitions_can_wait) (simp_all add: demo_opts_def)

theorem tenant_rules_only_tighten_witness:
  "admits demo_valid_env (\<lambda>f. filter instance_rule (demo_rules f)) demo_groups [] (demo_opts AllRules) [(''vat'', VStr ''RO1'')]"
  by (rule tenant_rules_only_tighten) code_simp

end
