(* ===== verification/ValidationRules.thy ===== *)
theory ValidationRules
  imports ValidationRecord "HOL-Library.AList" "HOL-Library.Sublist"
begin

text \<open>
  The rules a write reads, through their cache of a minute (\<open>getValidationRules\<close>,
  \<open>invalidateRulesCache\<close>), and who may write a rule (\<open>writeValidationRule\<close>).

  A field or tenant that is left out is the empty string: the code reads both alike.
\<close>

section \<open>The table and its cache\<close>

record stored_rule =
  sr_rule :: validation_rule
  sr_collection :: string
  sr_active :: bool

definition bound_tenant :: "string option \<Rightarrow> string" where
  "bound_tenant t = (case t of None \<Rightarrow> [] | Some x \<Rightarrow> x)"

definition read_rule :: "stored_rule \<Rightarrow> validation_rule" where
  "read_rule s = (sr_rule s)\<lparr> vr_config := (if vr_config (sr_rule s) = JNull then JObj [] else vr_config (sr_rule s)) \<rparr>"

text \<open>The rows the query selects, in the order the table gives them.\<close>

definition selected :: "string \<Rightarrow> string \<Rightarrow> string \<Rightarrow> stored_rule \<Rightarrow> bool" where
  "selected c f t s \<longleftrightarrow> sr_collection s = c \<and> sr_active s
     \<and> (vr_tenant (sr_rule s) = None \<or> t \<noteq> [] \<and> vr_tenant (sr_rule s) = Some t)
     \<and> (f = [] \<or> vr_field (sr_rule s) = f)"

definition rules_query :: "stored_rule list \<Rightarrow> string \<Rightarrow> string \<Rightarrow> string \<Rightarrow> validation_rule list" where
  "rules_query rows c f t = map read_rule (filter (selected c f t) rows)"

definition cache_key :: "string \<Rightarrow> string \<Rightarrow> string \<Rightarrow> string" where
  "cache_key c f t = c @ '':'' @ (if f = [] then ''*'' else f) @ ''@'' @ t"

definition RULES_TTL :: nat where "RULES_TTL = 60000"
definition RULES_CACHE_MAX :: nat where "RULES_CACHE_MAX = 10000"

text \<open>
  A lookup that misses is in flight until it lands: the query sees the rows of some moment in
  between, and the entry is stamped when it lands.
\<close>

record rules_world =
  rw_now :: nat
  rw_rows :: "stored_rule list"
  rw_reads :: "((string \<times> string \<times> string) \<times> validation_rule list option) list"
  rw_cache :: "(string \<times> validation_rule list \<times> nat) list"

definition cached_rules :: "rules_world \<Rightarrow> string \<Rightarrow> string \<Rightarrow> string \<Rightarrow> validation_rule list option" where
  "cached_rules w c f t = (case map_of (rw_cache w) (cache_key c f t) of
     Some (rules, ts) \<Rightarrow> if rw_now w - ts < RULES_TTL then Some rules else None
   | None \<Rightarrow> None)"

definition ask_rules :: "string \<Rightarrow> string \<Rightarrow> string \<Rightarrow> rules_world \<Rightarrow> rules_world" where
  "ask_rules c f t w = (if cached_rules w c f t \<noteq> None then w else w\<lparr> rw_reads := rw_reads w @ [((c, f, t), None)] \<rparr>)"

definition read_rows :: "nat \<Rightarrow> rules_world \<Rightarrow> rules_world" where
  "read_rows i w = (if i < length (rw_reads w)
     then (case rw_reads w ! i of
        ((c, f, t), None) \<Rightarrow> w\<lparr> rw_reads := (rw_reads w)[i := ((c, f, t), Some (rules_query (rw_rows w) c f t))] \<rparr>
      | _ \<Rightarrow> w)
     else w)"

definition land_read :: "nat \<Rightarrow> rules_world \<Rightarrow> rules_world" where
  "land_read i w = (if i < length (rw_reads w)
     then (case rw_reads w ! i of
        ((c, f, t), Some rules) \<Rightarrow>
          w\<lparr> rw_reads := take i (rw_reads w) @ drop (Suc i) (rw_reads w),
             rw_cache := AList.update (cache_key c f t) (rules, rw_now w)
               (if RULES_CACHE_MAX < length (rw_cache w) then [] else rw_cache w) \<rparr>
      | _ \<Rightarrow> w)
     else w)"

definition invalidateRulesCache :: "string \<Rightarrow> rules_world \<Rightarrow> rules_world" where
  "invalidateRulesCache c w = w\<lparr> rw_cache := filter (\<lambda>(k, _). \<not> (k = c \<or> starts_with (c @ '':'') k)) (rw_cache w) \<rparr>"

text \<open>What happens: time passes, the rows change, and the steps of lookups and writers.\<close>

datatype rules_event =
    TimePasses nat
  | RowsChange "stored_rule list"
  | Ask string string string
  | RowsRead nat
  | Landed nat
  | Invalidated string

fun rules_step :: "rules_event \<Rightarrow> rules_world \<Rightarrow> rules_world" where
  "rules_step (TimePasses n) w = w\<lparr> rw_now := rw_now w + n \<rparr>"
| "rules_step (RowsChange rows) w = w\<lparr> rw_rows := rows \<rparr>"
| "rules_step (Ask c f t) w = ask_rules c f t w"
| "rules_step (RowsRead i) w = read_rows i w"
| "rules_step (Landed i) w = land_read i w"
| "rules_step (Invalidated c) w = invalidateRulesCache c w"

abbreviation rules_run :: "rules_event list \<Rightarrow> rules_world \<Rightarrow> rules_world" where
  "rules_run es w \<equiv> fold rules_step es w"

section \<open>What a lookup answers\<close>

text \<open>
  A key names its lookup: a collection has no colon in its name, a tenant's id no \<open>@\<close>, and no
  field is called \<open>*\<close>.
\<close>

definition ok_ask :: "string \<Rightarrow> string \<Rightarrow> string \<Rightarrow> bool" where
  "ok_ask c f t \<longleftrightarrow> CHR '':'' \<notin> set c \<and> f \<noteq> ''*'' \<and> CHR ''@'' \<notin> set t"

definition ok_event :: "rules_event \<Rightarrow> bool" where
  "ok_event e \<longleftrightarrow> (case e of Ask c f t \<Rightarrow> ok_ask c f t | _ \<Rightarrow> True)"

lemma split_last: "x \<notin> set b \<Longrightarrow> x \<notin> set d \<Longrightarrow> a @ x # b = c @ x # d \<longleftrightarrow> a = c \<and> b = d"
proof (induction a arbitrary: c)
  case Nil
  then show ?case by (cases c) auto
next
  case (Cons y a)
  note step = Cons.IH[OF Cons.prems]
  show ?case
  proof (cases c)
    case Nil
    have "y # a @ x # b \<noteq> x # d" using Cons.prems(2) by (metis in_set_conv_decomp list.inject)
    then show ?thesis using Nil by simp
  next
    case (Cons z c')
    then show ?thesis using step[of c'] by simp
  qed
qed

lemma cache_key_eq:
  "ok_ask c f t \<Longrightarrow> ok_ask c f' t' \<Longrightarrow> cache_key c f t = cache_key c f' t' \<longleftrightarrow> f = f' \<and> t = t'"
  by (auto simp: cache_key_def ok_ask_def split_last split: if_splits)

lemma cache_key_of: "CHR '':'' \<notin> set c \<Longrightarrow> CHR '':'' \<notin> set d \<Longrightarrow> starts_with (c @ '':'') (cache_key d f t) \<longleftrightarrow> c = d"
proof (induction c arbitrary: d)
  case Nil
  then show ?case by (cases d) (auto simp: cache_key_def starts_with_def)
next
  case (Cons x c)
  then show ?case by (cases d) (auto simp: cache_key_def starts_with_def)
qed

text \<open>
  What holds from a moment at which no entry of \<open>c\<close> is cached and none of its reads has seen
  the rows: every read and entry of \<open>c\<close> is a query at some moment since.
\<close>

definition read_since :: "string \<Rightarrow> rules_world \<Rightarrow> rules_event list \<Rightarrow> (string \<times> string \<times> string) \<times> validation_rule list option \<Rightarrow> bool" where
  "read_since c v es r = (case r of ((d, f, t), seen) \<Rightarrow> ok_ask d f t \<and>
     (\<forall>rules. seen = Some rules \<and> d = c \<longrightarrow> (\<exists>p. prefix p es \<and> rules = rules_query (rw_rows (rules_run p v)) c f t)))"

definition entry_since :: "string \<Rightarrow> rules_world \<Rightarrow> rules_event list \<Rightarrow> string \<times> validation_rule list \<times> nat \<Rightarrow> bool" where
  "entry_since c v es x = (case x of (k, rules, ts) \<Rightarrow> starts_with (c @ '':'') k \<longrightarrow>
     (\<exists>f t p q. ok_ask c f t \<and> k = cache_key c f t \<and> prefix p q \<and> prefix q es
        \<and> rules = rules_query (rw_rows (rules_run p v)) c f t \<and> ts = rw_now (rules_run q v)))"

definition world_since :: "string \<Rightarrow> rules_world \<Rightarrow> rules_event list \<Rightarrow> rules_world \<Rightarrow> bool" where
  "world_since c v es w \<longleftrightarrow> list_all (read_since c v es) (rw_reads w) \<and> list_all (entry_since c v es) (rw_cache w)"

lemma since_later: "read_since c v es r \<Longrightarrow> read_since c v (es @ [e]) r" "entry_since c v es x \<Longrightarrow> entry_since c v (es @ [e]) x"
  unfolding read_since_def entry_since_def by (fastforce simp: split_beta)+

lemma world_since_later: "world_since c v es w \<Longrightarrow> world_since c v (es @ [e]) w"
  unfolding world_since_def list_all_iff using since_later by blast

lemma set_update_subset: "set (AList.update k x xs) \<subseteq> insert (k, x) (set xs)"
  by (induction xs) auto

lemma world_since_step:
  assumes since: "world_since c v es (rules_run es v)" and e: "ok_event e" and c: "CHR '':'' \<notin> set c"
  shows "world_since c v (es @ [e]) (rules_run (es @ [e]) v)"
proof (cases e)
  case (Ask d f t)
  then show ?thesis using world_since_later[OF since, of e] e
    by (auto simp: ask_rules_def world_since_def read_since_def ok_event_def)
next
  case (RowsRead i)
  let ?w = "rules_run es v"
  have "world_since c v (es @ [e]) (read_rows i ?w)"
  proof (cases "i < length (rw_reads ?w)")
    case True
    obtain d f t r where r: "rw_reads ?w ! i = ((d, f, t), r)" by (metis prod.exhaust)
    have ok: "ok_ask d f t" using since True r unfolding world_since_def read_since_def list_all_length by fastforce
    have "read_since c v (es @ [e]) ((d, f, t), Some (rules_query (rw_rows ?w) d f t))"
      using ok by (auto simp: read_since_def intro!: exI[of _ es])
    then show ?thesis using world_since_later[OF since, of e] True r
      by (auto simp: read_rows_def world_since_def list_all_iff dest!: set_update_subset_insert[THEN subsetD] split: option.splits)
  qed (use world_since_later[OF since, of e] in \<open>simp add: read_rows_def\<close>)
  then show ?thesis using RowsRead by simp
next
  case (Landed i)
  let ?w = "rules_run es v"
  have "world_since c v (es @ [e]) (land_read i ?w)"
  proof (cases "i < length (rw_reads ?w)")
    case True
    obtain d f t r where r: "rw_reads ?w ! i = ((d, f, t), r)" by (metis prod.exhaust)
    have read: "read_since c v es ((d, f, t), r)" using since True r unfolding world_since_def list_all_length by fastforce
    have "entry_since c v (es @ [e]) (cache_key d f t, rules, rw_now ?w)" if "r = Some rules" for rules
    proof -
      have "\<exists>p. prefix p es \<and> rules = rules_query (rw_rows (rules_run p v)) c f t" if "d = c"
        using read that \<open>r = Some rules\<close> by (auto simp: read_since_def)
      moreover have "ok_ask d f t" using read by (simp add: read_since_def)
      ultimately show ?thesis using c unfolding entry_since_def
        by (auto simp: cache_key_of ok_ask_def intro: prefixI)
    qed
    then show ?thesis using world_since_later[OF since, of e] True r
      by (auto simp: land_read_def world_since_def list_all_iff dest!: set_update_subset[THEN subsetD] in_set_takeD in_set_dropD
          split: option.splits if_splits)
  qed (use world_since_later[OF since, of e] in \<open>simp add: land_read_def\<close>)
  then show ?thesis using Landed by simp
qed (use world_since_later[OF since, of e] in \<open>auto simp: world_since_def invalidateRulesCache_def list_all_iff\<close>)

lemma world_since_run:
  assumes "world_since c v [] v" "list_all ok_event es" "CHR '':'' \<notin> set c"
  shows "world_since c v es (rules_run es v)"
  using assms(2)
proof (induction es rule: rev_induct)
  case (snoc e es)
  then show ?case using world_since_step[of c v es e] assms(3) by simp
qed (use assms(1) in simp)

definition reads_not_seen :: "string \<Rightarrow> rules_world \<Rightarrow> bool" where
  "reads_not_seen c w \<longleftrightarrow> list_all (\<lambda>((d, f, t), seen). ok_ask d f t \<and> (d = c \<longrightarrow> seen = None)) (rw_reads w)"

text \<open>
  C28. Rules since the last write.  After the rules of a collection change and its cache is
  invalidated, at a moment when no lookup of it has already seen the rows, whatever a lookup is
  answered from the cache is what a query for that very collection, field and tenant read since, and
  was put there less than a minute ago.
\<close>

theorem cached_rules_are_recent:
  assumes "reads_not_seen c w" "list_all ok_event es" "ok_ask c f t"
    "cached_rules (rules_run es (invalidateRulesCache c w)) c f t = Some rules"
  shows "\<exists>seen landed. prefix seen landed \<and> prefix landed es
    \<and> rules = rules_query (rw_rows (rules_run seen (invalidateRulesCache c w))) c f t
    \<and> rw_now (rules_run es (invalidateRulesCache c w)) < rw_now (rules_run landed (invalidateRulesCache c w)) + 60000"
proof -
  let ?v = "invalidateRulesCache c w"
  have c: "CHR '':'' \<notin> set c" using assms(3) by (simp add: ok_ask_def)
  have "world_since c ?v [] ?v"
    using assms(1) by (auto simp: world_since_def reads_not_seen_def read_since_def entry_since_def invalidateRulesCache_def list_all_iff)
  then have "list_all (entry_since c ?v es) (rw_cache (rules_run es ?v))"
    using world_since_run[OF _ assms(2) c] by (simp add: world_since_def)
  moreover obtain ts where entry: "(cache_key c f t, rules, ts) \<in> set (rw_cache (rules_run es ?v))"
    and ts: "rw_now (rules_run es ?v) - ts < RULES_TTL"
    using assms(4) by (auto simp: cached_rules_def split: option.splits if_splits dest: map_of_SomeD)
  ultimately have "entry_since c ?v es (cache_key c f t, rules, ts)" by (simp add: list_all_iff)
  then obtain f' t' p q where key: "ok_ask c f' t'" "cache_key c f t = cache_key c f' t'"
    and between: "prefix p q" "prefix q es" and read: "rules = rules_query (rw_rows (rules_run p ?v)) c f' t'" and at: "ts = rw_now (rules_run q ?v)"
    using c by (auto simp: entry_since_def cache_key_of)
  have "rw_now (rules_run es ?v) < rw_now (rules_run q ?v) + 60000" using ts at by (simp add: RULES_TTL_def)
  moreover have "f' = f" "t' = t" using key cache_key_eq[OF assms(3) key(1)] by simp_all
  ultimately show ?thesis using between read by blast
qed

text \<open>
  A lookup that had seen the rows puts the old ones back after the invalidation, and so does one
  between an invalidation and the commit of the write it is for.
\<close>

definition demo_stored :: "bool \<Rightarrow> stored_rule" where
  "demo_stored active = \<lparr> sr_rule = demo_rule ''a'' None ''required'' (JObj []), sr_collection = ''orders'', sr_active = active \<rparr>"

definition demo_world :: rules_world where
  "demo_world = \<lparr> rw_now = 0, rw_rows = [demo_stored False], rw_reads = [], rw_cache = [] \<rparr>"

lemmas world_steps = ask_rules_def read_rows_def land_read_def invalidateRulesCache_def cached_rules_def rules_query_def selected_def
  cache_key_def starts_with_def RULES_TTL_def RULES_CACHE_MAX_def demo_world_def demo_stored_def demo_rule_def

lemma old_rules_come_back:
  "cached_rules (rules_run [Ask ''orders'' ''vat'' ''t1'', RowsRead 0, RowsChange [demo_stored True], Invalidated ''orders'',
     Landed 0, TimePasses 59999] demo_world) ''orders'' ''vat'' ''t1'' = Some []"
  "cached_rules (rules_run [Invalidated ''orders'', Ask ''orders'' ''vat'' ''t1'', RowsRead 0, Landed 0,
     RowsChange [demo_stored True], TimePasses 59999] demo_world) ''orders'' ''vat'' ''t1'' = Some []"
  "rules_query [demo_stored True] ''orders'' ''vat'' ''t1'' \<noteq> []"
  by (simp_all add: world_steps)

theorem cached_rules_are_recent_witness:
  "\<exists>seen landed. prefix seen landed \<and> prefix landed [Ask ''orders'' ''vat'' ''t1'', RowsRead 0, Landed 0]
    \<and> [] = rules_query (rw_rows (rules_run seen (invalidateRulesCache ''orders'' demo_world))) ''orders'' ''vat'' ''t1''
    \<and> rw_now (rules_run [Ask ''orders'' ''vat'' ''t1'', RowsRead 0, Landed 0] (invalidateRulesCache ''orders'' demo_world))
        < rw_now (rules_run landed (invalidateRulesCache ''orders'' demo_world)) + 60000"
  by (rule cached_rules_are_recent) (simp_all add: world_steps reads_not_seen_def ok_event_def ok_ask_def)

section \<open>Who writes a rule\<close>

text \<open>
  The writer as \<open>requireInstanceAdmin\<close> and \<open>isTenantAdmin\<close> found it; a tenant that is not there
  is the empty string, and so is a collection a write leaves out.
\<close>

record rule_writer =
  wr_instance :: bool
  wr_tenant_admin :: bool
  wr_tenant :: string

datatype rule_scope = UnscopedRule | InstanceScope | TenantScope

record new_rule =
  nr_collection :: string
  nr_field :: string
  nr_type :: string
  nr_config :: jval
  nr_message :: string

datatype rule_write =
    CreateRule new_rule rule_scope
  | SetActive string bool string
  | DeleteRule string string

datatype rule_refused =
    NotAnAdmin
  | NeedsATenant
  | InstanceAdminOnly
  | BadExpression
  | DuplicateRule

definition EXPRESSION_RULE_TYPES :: "string list" where
  "EXPRESSION_RULE_TYPES = [''custom'', ''nlp'', ''transition'']"

definition own_tenant :: "rule_writer \<Rightarrow> string" where
  "own_tenant p = (if \<not> wr_instance p \<and> wr_tenant p \<noteq> [] \<and> wr_tenant_admin p then wr_tenant p else [])"

definition new_rule_tenant :: "rule_writer \<Rightarrow> rule_scope \<Rightarrow> (rule_refused, string option) result" where
  "new_rule_tenant p scope =
    (if own_tenant p \<noteq> [] \<or> scope = TenantScope then
       (if wr_instance p then (if wr_tenant p = [] then Throw NeedsATenant else Ok (Some (wr_tenant p)))
        else if scope = InstanceScope then Throw InstanceAdminOnly
        else Ok (Some (own_tenant p)))
     else Ok None)"

definition expression_refused :: "valid_env \<Rightarrow> new_rule \<Rightarrow> bool" where
  "expression_refused E r \<longleftrightarrow> nr_type r \<in> set EXPRESSION_RULE_TYPES \<and>
    (expression_of (nr_config r) = []
      \<or> (case checkValidationExpression E (expression_of (nr_config r)) (nr_type r) of Inl e \<Rightarrow> True | Inr u \<Rightarrow> False))"

definition written_rule :: "rule_write \<Rightarrow> string \<Rightarrow> stored_rule \<Rightarrow> bool" where
  "written_rule wr own s \<longleftrightarrow> (case wr of
     CreateRule r sc \<Rightarrow> False
   | SetActive i b c \<Rightarrow> vr_id (sr_rule s) = Some i \<and> (c = [] \<or> sr_collection s = c) \<and> (own = [] \<or> vr_tenant (sr_rule s) = Some own)
   | DeleteRule i c \<Rightarrow> vr_id (sr_rule s) = Some i \<and> (c = [] \<or> sr_collection s = c) \<and> (own = [] \<or> vr_tenant (sr_rule s) = Some own))"

text \<open>
  The unique index of instance rules, and the two statements of the table.  \<open>eqj\<close> is the equality
  of \<open>jsonb\<close>, and \<open>i\<close> the id the table gives a new row.
\<close>

definition same_instance_key :: "(jval \<Rightarrow> jval \<Rightarrow> bool) \<Rightarrow> stored_rule \<Rightarrow> stored_rule \<Rightarrow> bool" where
  "same_instance_key eqj a b \<longleftrightarrow> vr_tenant (sr_rule a) = None \<and> vr_tenant (sr_rule b) = None
     \<and> sr_collection a = sr_collection b \<and> vr_field (sr_rule a) = vr_field (sr_rule b) \<and> vr_type (sr_rule a) = vr_type (sr_rule b)
     \<and> eqj (vr_config (sr_rule a)) (vr_config (sr_rule b))"

definition new_row :: "string \<Rightarrow> new_rule \<Rightarrow> string option \<Rightarrow> stored_rule" where
  "new_row i r t =
    \<lparr> sr_rule = \<lparr> vr_id = Some i, vr_tenant = t, vr_field = nr_field r, vr_type = nr_type r,
        vr_config = (if nr_config r = JNull then JObj [] else nr_config r), vr_message = Some (nr_message r) \<rparr>,
      sr_collection = nr_collection r, sr_active = True \<rparr>"

definition run_rule_write ::
  "(jval \<Rightarrow> jval \<Rightarrow> bool) \<Rightarrow> string \<Rightarrow> rule_write \<Rightarrow> string option \<Rightarrow> string \<Rightarrow> stored_rule list \<Rightarrow>
   (rule_refused, stored_rule option \<times> stored_rule list) result" where
  "run_rule_write eqj i wr t own rows = (case wr of
     CreateRule r sc \<Rightarrow>
       (let row = new_row i r t in
        if list_ex (same_instance_key eqj row) rows then Throw DuplicateRule else Ok (Some row, rows @ [row]))
   | SetActive j b c \<Rightarrow>
       (let rows' = map (\<lambda>s. if written_rule wr own s then s\<lparr> sr_active := b \<rparr> else s) rows in
        Ok (find (written_rule wr own) rows', rows'))
   | DeleteRule j c \<Rightarrow> Ok (find (written_rule wr own) rows, filter (\<lambda>s. \<not> written_rule wr own s) rows))"

definition writeValidationRule ::
  "valid_env \<Rightarrow> (jval \<Rightarrow> jval \<Rightarrow> bool) \<Rightarrow> string \<Rightarrow> rule_writer \<Rightarrow> rule_write \<Rightarrow> rules_world \<Rightarrow>
   (rule_refused, stored_rule option \<times> rules_world) result" where
  "writeValidationRule E eqj i p wr w =
    (if \<not> wr_instance p \<and> own_tenant p = [] then Throw NotAnAdmin
     else (case (case wr of CreateRule r sc \<Rightarrow> new_rule_tenant p sc | _ \<Rightarrow> Ok None) of
       Inl e \<Rightarrow> Throw e
     | Inr t \<Rightarrow>
         if (case wr of CreateRule r sc \<Rightarrow> expression_refused E r | _ \<Rightarrow> False) then Throw BadExpression
         else (case run_rule_write eqj i wr t (own_tenant p) (rw_rows w) of
            Inl e \<Rightarrow> Throw e
          | Inr (row, rows) \<Rightarrow>
              Ok (row, (case row of None \<Rightarrow> id | Some s \<Rightarrow> invalidateRulesCache (sr_collection s)) (w\<lparr> rw_rows := rows \<rparr>)))))"

section \<open>A tenant's administrators\<close>

lemma run_write_keeps:
  assumes "run_rule_write eqj i wr t own rows = Ok (row, rows')"
    and "\<And>s. written_rule wr own s \<Longrightarrow> \<not> P s" and "\<And>r sc. wr = CreateRule r sc \<Longrightarrow> \<not> P (new_row i r t)"
    and "\<And>s b. P (s\<lparr> sr_active := b \<rparr>) \<Longrightarrow> written_rule wr own s \<Longrightarrow> False"
  shows "filter P rows' = filter P rows"
proof (cases wr)
  case (SetActive j b c)
  have "filter P (map (\<lambda>s. if written_rule wr own s then s\<lparr> sr_active := b \<rparr> else s) rows) = filter P rows"
    using assms(2,4) by (induction rows) auto
  then show ?thesis using assms(1) SetActive by (auto simp: run_rule_write_def Let_def)
next
  case (DeleteRule j c)
  have "filter P (filter (\<lambda>s. \<not> written_rule wr own s) rows) = filter P rows"
    using assms(2) by (auto intro: filter_cong)
  then show ?thesis using assms(1) DeleteRule by (auto simp: run_rule_write_def)
qed (use assms(1,3) in \<open>auto simp: run_rule_write_def Let_def split: if_splits\<close>)

text \<open>
  Tenant administrators stay in their tenant.  Whatever write of a rule succeeds for a caller
  who is no administrator of the instance, every other tenant, and a write with no tenant, is
  checked against the rules it was, and so is the caller's own tenant as far as the instance's
  rules go: what its writes had to satisfy, they still have to, up to the tenant's own rules.
\<close>

theorem tenant_admins_stay_home:
  assumes "\<not> wr_instance p" "writeValidationRule E eqj i p wr w = Ok (row, w')"
  shows "(t \<noteq> wr_tenant p \<longrightarrow> rules_query (rw_rows w') c f t = rules_query (rw_rows w) c f t)
    \<and> filter (\<lambda>r. vr_tenant r = None) (rules_query (rw_rows w') c f t) = filter (\<lambda>r. vr_tenant r = None) (rules_query (rw_rows w) c f t)"
proof -
  let ?own = "wr_tenant p"
  have own: "own_tenant p = ?own" "?own \<noteq> []" using assms by (auto simp: writeValidationRule_def own_tenant_def split: if_splits)
  obtain nt rows where nt: "(case wr of CreateRule r sc \<Rightarrow> new_rule_tenant p sc | _ \<Rightarrow> Ok None) = Ok nt"
    and ran: "run_rule_write eqj i wr nt ?own (rw_rows w) = Ok (row, rows)" and rows: "rw_rows w' = rows"
    using assms own by (auto simp: writeValidationRule_def invalidateRulesCache_def split: sum.splits if_splits option.splits)
  have theirs: "vr_tenant (sr_rule s) = Some ?own" if "written_rule wr ?own s" for s
    using that own(2) by (cases wr) (auto simp: written_rule_def)
  have created: "nt = Some ?own" if "wr = CreateRule r sc" for r sc
    using nt that own assms(1) by (auto simp: new_rule_tenant_def split: if_splits)
  have "filter (selected c f t) rows = filter (selected c f t) (rw_rows w)" if "t \<noteq> ?own"
    using ran by (rule run_write_keeps) (use that theirs created in \<open>auto simp: selected_def new_row_def\<close>)
  moreover have "filter (\<lambda>s. selected c f t s \<and> vr_tenant (sr_rule s) = None) rows
      = filter (\<lambda>s. selected c f t s \<and> vr_tenant (sr_rule s) = None) (rw_rows w)"
    using ran by (rule run_write_keeps) (use theirs created in \<open>auto simp: selected_def new_row_def\<close>)
  ultimately show ?thesis
    by (auto simp: rules_query_def rows filter_map o_def read_rule_def conj_commute)
qed

definition demo_admin :: rule_writer where
  "demo_admin = \<lparr> wr_instance = False, wr_tenant_admin = True, wr_tenant = ''t1'' \<rparr>"

definition demo_create :: rule_write where
  "demo_create = CreateRule \<lparr> nr_collection = ''orders'', nr_field = ''vat'', nr_type = ''required'', nr_config = JNull, nr_message = ''no'' \<rparr> UnscopedRule"

theorem tenant_admins_stay_home_witness:
  "rules_query (rw_rows (demo_world\<lparr> rw_rows := rw_rows demo_world @ [new_row ''n'' \<lparr> nr_collection = ''orders'', nr_field = ''vat'',
      nr_type = ''required'', nr_config = JNull, nr_message = ''no'' \<rparr> (Some ''t1'')] \<rparr>)) ''orders'' ''vat'' ''t2''
    = rules_query (rw_rows demo_world) ''orders'' ''vat'' ''t2''"
proof -
  have "writeValidationRule demo_valid_env (=) ''n'' demo_admin demo_create demo_world
    = Ok (Some (new_row ''n'' \<lparr> nr_collection = ''orders'', nr_field = ''vat'', nr_type = ''required'', nr_config = JNull, nr_message = ''no'' \<rparr> (Some ''t1'')),
        demo_world\<lparr> rw_rows := rw_rows demo_world @ [new_row ''n'' \<lparr> nr_collection = ''orders'', nr_field = ''vat'',
          nr_type = ''required'', nr_config = JNull, nr_message = ''no'' \<rparr> (Some ''t1'')] \<rparr>)"
    by (simp add: writeValidationRule_def demo_admin_def demo_create_def own_tenant_def new_rule_tenant_def expression_refused_def
        EXPRESSION_RULE_TYPES_def run_rule_write_def same_instance_key_def new_row_def demo_world_def invalidateRulesCache_def Let_def)
  from tenant_admins_stay_home[OF _ this, of "''t2''" "''orders''" "''vat''"] show ?thesis by (simp add: demo_admin_def)
qed

end
