(* ===== verification/ListPages.thy ===== *)
theory ListPages
  imports Prelude "HOL-Library.Multiset" "HOL-Library.Product_Lexorder" "HOL-Library.Option_ord"
begin

text \<open>
  The pages of a list (\<open>lib/data/handlers/list.ts\<close>, \<open>dynamicSelect\<close> of \<open>db/dynamic.ts\<close>): the
  offset page, the keyset walk that follows its cursor, and that the walk serves every row the
  caller may see exactly once.

  A row is its id, its value in the column it is sorted by, and the rest; values and ids are
  compared as Postgres compares them.  The conditions of a request (its filters, its search, the
  row rules and the alters of extensions) are predicates on rows: both paths apply the same.
  What an extension's entity access keeps is a predicate too, applied after the query.
\<close>

section \<open>Rows in order\<close>

record ('v, 'i, 'd) list_row =
  lr_id :: 'i
  lr_val :: "'v option"
  lr_rest :: 'd

text \<open>\<open>ORDER BY col, id\<close>: a NULL comes after every value, and first when descending.\<close>

type_synonym ('v, 'i) row_key = "bool \<times> 'v option \<times> 'i"

definition key_of :: "'i \<Rightarrow> 'v option \<Rightarrow> ('v, 'i) row_key" where
  "key_of i v = (v = None, v, i)"

definition row_key :: "('v, 'i, 'd) list_row \<Rightarrow> ('v, 'i) row_key" where
  "row_key r = key_of (lr_id r) (lr_val r)"

definition comes_before :: "bool \<Rightarrow> 'k::linorder \<Rightarrow> 'k \<Rightarrow> bool" where
  "comes_before desc a b \<longleftrightarrow> (if desc then b < a else a < b)"

definition order_rows :: "bool \<Rightarrow> ('v::linorder, 'i::linorder, 'd) list_row list \<Rightarrow> ('v, 'i, 'd) list_row list" where
  "order_rows desc rows = (if desc then rev (sort_key row_key rows) else sort_key row_key rows)"

type_synonym 'r condition = "'r \<Rightarrow> bool"

definition where_all :: "'r condition list \<Rightarrow> 'r list \<Rightarrow> 'r list" where
  "where_all conds rows = filter (\<lambda>r. \<forall>c \<in> set conds. c r) rows"

section \<open>A page at an offset\<close>

text \<open>
  \<open>dynamicSelect\<close>: the rows and their total, or whether there are more (-1) or not (-2).  The total is a
  statement of its own, which may see another table.
\<close>

definition dynamicSelect ::
  "bool \<Rightarrow> ('v::linorder, 'i::linorder, 'd) list_row condition list \<Rightarrow> nat \<Rightarrow> nat \<Rightarrow> bool \<Rightarrow> ('v, 'i, 'd) list_row list \<Rightarrow>
   ('v, 'i, 'd) list_row list \<Rightarrow> ('v, 'i, 'd) list_row list \<times> int" where
  "dynamicSelect desc conds limit offset skipCount rows counted =
    (let ordered = drop offset (order_rows desc (where_all conds rows)) in
     if skipCount then
       (let probed = take (limit + 1) ordered in
        if limit < length probed then (take limit probed, -1) else (probed, -2))
     else (take limit ordered, int (length (where_all conds counted))))"

section \<open>The keyset walk\<close>

text \<open>
  A position: the id and the sort value of a row, as \<open>sealCursor\<close> seals it; or the start.  The
  statement that reads a timestamp again at its full precision is taken to read what the row had.
\<close>

type_synonym ('v, 'i) position = "'i \<times> 'v option"

datatype ('v, 'i) cursor = StartCursor | AtPosition "('v, 'i) position"

definition positionOf :: "('v, 'i, 'd) list_row \<Rightarrow> ('v, 'i) position" where
  "positionOf r = (lr_id r, lr_val r)"

text \<open>
  One run of the keyset: the rows with a NULL value, or those with one, after the anchor.  Each is
  a statement with its own limit.
\<close>

definition in_run :: "bool \<Rightarrow> bool \<Rightarrow> ('v::linorder, 'i::linorder) position option \<Rightarrow> ('v, 'i, 'd) list_row \<Rightarrow> bool" where
  "in_run desc null_run anchor r =
    (if null_run then lr_val r = None \<and> (case anchor of None \<Rightarrow> True | Some (i, v) \<Rightarrow> comes_before desc i (lr_id r))
     else (case (anchor, lr_val r) of
       (_, None) \<Rightarrow> False
     | (None, Some w) \<Rightarrow> True
     | (Some (i, None), Some w) \<Rightarrow> False
     | (Some (i, Some v), Some w) \<Rightarrow> comes_before desc (v, i) (w, lr_id r)))"

fun read_runs ::
  "bool \<Rightarrow> ('v::linorder, 'i::linorder, 'd) list_row condition list \<Rightarrow> (nat \<Rightarrow> ('v, 'i, 'd) list_row list) \<Rightarrow> nat \<Rightarrow> bool list \<Rightarrow>
   ('v, 'i) position option \<Rightarrow> nat \<Rightarrow> ('v, 'i, 'd) list_row list" where
  "read_runs desc conds tab now [] anchor n = []"
| "read_runs desc conds tab now (b # bs) anchor n =
    (let rows = take n (order_rows desc (filter (in_run desc b anchor) (where_all conds (tab now)))) in
     rows @ (if length rows < n then read_runs desc conds tab (now + 1) bs None (n - length rows) else []))"

definition runs_from :: "bool \<Rightarrow> ('v, 'i) position option \<Rightarrow> bool list" where
  "runs_from desc start = (let runs = (if desc then [True, False] else [False, True]) in
     case start of None \<Rightarrow> runs | Some (i, v) \<Rightarrow> dropWhile (\<lambda>b. b \<noteq> (v = None)) runs)"

definition after_rows ::
  "bool \<Rightarrow> ('v::linorder, 'i::linorder, 'd) list_row condition list \<Rightarrow> (nat \<Rightarrow> ('v, 'i, 'd) list_row list) \<Rightarrow> nat \<Rightarrow>
   ('v, 'i) position option \<Rightarrow> nat \<Rightarrow> ('v, 'i, 'd) list_row list" where
  "after_rows desc conds tab now start n = read_runs desc conds tab now (runs_from desc start) start n"

definition LIST_REFILL_ROUNDS :: nat where "LIST_REFILL_ROUNDS = 10"

text \<open>
  The refill: batches are read until the page is full, the rows run out or the rounds do.  The
  table may change between two statements: \<open>tab k\<close> is the table the k-th statement of the walk sees.
\<close>

record ('v, 'i, 'd) refill_state =
  rf_seen :: "('v, 'i, 'd) list_row list"
  rf_from :: "('v, 'i) position option"
  rf_more :: bool
  rf_time :: nat

definition refill_round ::
  "bool \<Rightarrow> ('v::linorder, 'i::linorder, 'd) list_row condition list \<Rightarrow> ('v, 'i, 'd) list_row condition \<Rightarrow> nat \<Rightarrow>
   (nat \<Rightarrow> ('v, 'i, 'd) list_row list) \<Rightarrow> ('v, 'i, 'd) refill_state \<Rightarrow> ('v, 'i, 'd) refill_state" where
  "refill_round desc conds keep limit tab s =
    (let batch = after_rows desc conds tab (rf_time s) (rf_from s) (limit + 1);
         more = limit < length batch;
         got = (if more then take limit batch else batch) in
     \<lparr> rf_seen = rf_seen s @ filter keep got,
       rf_from = (if got = [] then rf_from s else Some (positionOf (last got))),
       rf_more = more, rf_time = rf_time s + 2 \<rparr>)"

primrec refill ::
  "bool \<Rightarrow> ('v::linorder, 'i::linorder, 'd) list_row condition list \<Rightarrow> ('v, 'i, 'd) list_row condition \<Rightarrow> nat \<Rightarrow>
   (nat \<Rightarrow> ('v, 'i, 'd) list_row list) \<Rightarrow> nat \<Rightarrow> ('v, 'i, 'd) refill_state \<Rightarrow> ('v, 'i, 'd) refill_state" where
  "refill desc conds keep limit tab 0 s = s"
| "refill desc conds keep limit tab (Suc rounds) s =
    (if rf_more s \<and> length (rf_seen s) < limit
     then refill desc conds keep limit tab rounds (refill_round desc conds keep limit tab s) else s)"

text \<open>What a request answers: the rows, its cursor, and the time after it.\<close>

definition cursor_page ::
  "bool \<Rightarrow> ('v::linorder, 'i::linorder, 'd) list_row condition list \<Rightarrow> ('v, 'i, 'd) list_row condition \<Rightarrow> nat \<Rightarrow>
   (nat \<Rightarrow> ('v, 'i, 'd) list_row list) \<Rightarrow> nat \<Rightarrow> ('v, 'i) cursor \<Rightarrow> ('v, 'i, 'd) list_row list \<times> ('v, 'i) cursor option \<times> nat" where
  "cursor_page desc conds keep limit tab now decoded =
    (let start = (case decoded of StartCursor \<Rightarrow> None | AtPosition p \<Rightarrow> Some p);
         s = refill desc conds keep limit tab LIST_REFILL_ROUNDS \<lparr> rf_seen = [], rf_from = start, rf_more = True, rf_time = now \<rparr>;
         short = (rf_more s \<and> length (rf_seen s) < limit);
         hasMore = (rf_more s \<or> limit < length (rf_seen s));
         records = take limit (rf_seen s) in
     (records,
      (if short then (case rf_from s of None \<Rightarrow> None | Some p \<Rightarrow> Some (AtPosition p))
       else if hasMore then Some (AtPosition (positionOf (last records))) else None),
      rf_time s))"

definition offset_page ::
  "bool \<Rightarrow> ('v::linorder, 'i::linorder, 'd) list_row condition list \<Rightarrow> ('v, 'i, 'd) list_row condition \<Rightarrow> nat \<Rightarrow> bool \<Rightarrow> nat \<Rightarrow>
   (nat \<Rightarrow> ('v, 'i, 'd) list_row list) \<Rightarrow> nat \<Rightarrow> ('v, 'i, 'd) list_row list \<times> ('v, 'i) cursor option \<times> nat" where
  "offset_page desc conds keep limit skipCount page tab now =
    (let (got, total) = dynamicSelect desc conds limit ((page - 1) * limit) skipCount (tab now) (tab (now + 1));
         records = filter keep got;
         more = (total = -1 \<or> 0 \<le> total \<and> int ((page - 1) * limit + length got) < total) in
     (records,
      (if more then
         (if records = [] then (if page = 1 then Some StartCursor else None) else Some (AtPosition (positionOf (last records))))
       else None),
      now + 2))"

text \<open>
  A client that follows the cursors from the first page, for as many requests as it is given; what
  it got, and whether the walk came to its end.
\<close>

primrec follow ::
  "bool \<Rightarrow> ('v::linorder, 'i::linorder, 'd) list_row condition list \<Rightarrow> ('v, 'i, 'd) list_row condition \<Rightarrow> nat \<Rightarrow>
   (nat \<Rightarrow> ('v, 'i, 'd) list_row list) \<Rightarrow> nat \<Rightarrow> nat \<Rightarrow> ('v, 'i) cursor option \<Rightarrow> ('v, 'i, 'd) list_row list \<times> bool" where
  "follow desc conds keep limit tab 0 now c = ([], c = None)"
| "follow desc conds keep limit tab (Suc requests) now c =
    (case c of
       None \<Rightarrow> ([], True)
     | Some d \<Rightarrow>
         (case cursor_page desc conds keep limit tab now d of (records, c', now') \<Rightarrow>
           (case follow desc conds keep limit tab requests now' c' of (rest, ended) \<Rightarrow> (records @ rest, ended))))"

definition walk_pages ::
  "bool \<Rightarrow> ('v::linorder, 'i::linorder, 'd) list_row condition list \<Rightarrow> ('v, 'i, 'd) list_row condition \<Rightarrow> nat \<Rightarrow> bool \<Rightarrow>
   (nat \<Rightarrow> ('v, 'i, 'd) list_row list) \<Rightarrow> nat \<Rightarrow> ('v, 'i, 'd) list_row list \<times> bool" where
  "walk_pages desc conds keep limit skipCount tab requests =
    (case offset_page desc conds keep limit skipCount 1 tab 0 of (records, c, now) \<Rightarrow>
      (case follow desc conds keep limit tab requests now c of (rest, ended) \<Rightarrow> (records @ rest, ended)))"

section \<open>The order\<close>

definition later :: "bool \<Rightarrow> ('v::linorder, 'i::linorder) position option \<Rightarrow> ('v, 'i, 'd) list_row \<Rightarrow> bool" where
  "later desc from r \<longleftrightarrow> (case from of None \<Rightarrow> True | Some (i, v) \<Rightarrow> comes_before desc (key_of i v) (row_key r))"

definition in_order :: "bool \<Rightarrow> ('v::linorder, 'i::linorder, 'd) list_row list \<Rightarrow> bool" where
  "in_order desc rows \<longleftrightarrow> sorted_wrt (\<lambda>a b. comes_before desc (row_key a) (row_key b)) rows"

lemma set_order_rows [simp]: "set (order_rows desc rows) = set rows"
  by (simp add: order_rows_def)

lemma length_order_rows [simp]: "length (order_rows desc rows) = length rows"
  by (simp add: order_rows_def)

lemma order_rows_Nil [simp]: "order_rows desc [] = []"
  by (simp add: order_rows_def)

lemma filter_order_rows: "filter P (order_rows desc rows) = order_rows desc (filter P rows)"
  by (simp add: order_rows_def filter_sort flip: rev_filter)

lemma row_key_id: "row_key a = row_key b \<Longrightarrow> lr_id a = lr_id b"
  by (simp add: row_key_def key_of_def)

lemma order_rows_in_order:
  assumes "distinct (map lr_id rows)"
  shows "in_order desc (order_rows desc rows)"
proof -
  have "distinct (map row_key rows)"
    using assms by (induction rows) (auto dest: row_key_id)
  then have "distinct (map row_key (sort_key row_key rows))"
    by (simp add: distinct_map)
  then have "sorted_wrt (<) (map row_key (sort_key row_key rows))"
    by (simp add: strict_sorted_iff)
  then show ?thesis
    by (auto simp: in_order_def order_rows_def comes_before_def sorted_wrt_map sorted_wrt_rev)
qed

text \<open>The rows of the runs, without their limit.\<close>

fun run_rows ::
  "bool \<Rightarrow> ('v::linorder, 'i::linorder, 'd) list_row condition list \<Rightarrow> (nat \<Rightarrow> ('v, 'i, 'd) list_row list) \<Rightarrow> nat \<Rightarrow> bool list \<Rightarrow>
   ('v, 'i) position option \<Rightarrow> ('v, 'i, 'd) list_row list" where
  "run_rows desc conds tab now [] anchor = []"
| "run_rows desc conds tab now (b # bs) anchor =
    order_rows desc (filter (in_run desc b anchor) (where_all conds (tab now))) @ run_rows desc conds tab (now + 1) bs None"

lemma run_take: "rows = take n A \<Longrightarrow> rows @ (if length rows < n then take (n - length rows) B else []) = take n (A @ B)"
  by auto

lemma read_runs_eq: "read_runs desc conds tab now bs anchor n = take n (run_rows desc conds tab now bs anchor)"
proof (induction bs arbitrary: now anchor n)
  case (Cons b bs)
  show ?case unfolding read_runs.simps run_rows.simps Let_def Cons.IH by (rule run_take) simp
qed simp

lemma in_run_later:
  "in_run desc b None r \<longleftrightarrow> (lr_val r = None) = b"
  "(v = None) = b \<Longrightarrow> in_run desc b (Some (i, v)) r \<longleftrightarrow> (lr_val r = None) = b \<and> later desc (Some (i, v)) r"
  by (auto simp: in_run_def later_def row_key_def key_of_def comes_before_def split: option.splits)

lemma later_across:
  "(v = None) \<noteq> (lr_val r = None) \<Longrightarrow> later desc (Some (i, v)) r \<longleftrightarrow> (v = None) = desc"
  by (auto simp: later_def row_key_def key_of_def comes_before_def)

lemma run_before: "(lr_val a = None) = desc \<Longrightarrow> (lr_val b = None) \<noteq> desc \<Longrightarrow> comes_before desc (row_key a) (row_key b)"
  by (auto simp: row_key_def key_of_def comes_before_def)

section \<open>What a stretch of the walk serves\<close>

text \<open>
  Rows between a position and a later one, or the end.  A stretch that serves them is in order, has
  only rows it may have, and has every row it must.
\<close>

definition between :: "bool \<Rightarrow> ('v::linorder, 'i::linorder) position option \<Rightarrow> ('v, 'i) position option \<Rightarrow> ('v, 'i, 'd) list_row \<Rightarrow> bool" where
  "between desc a b r \<longleftrightarrow> later desc a r \<and> (case b of None \<Rightarrow> True | Some p \<Rightarrow> \<not> later desc (Some p) r)"

definition serves ::
  "bool \<Rightarrow> ('v::linorder, 'i::linorder, 'd) list_row condition \<Rightarrow> ('v, 'i, 'd) list_row condition \<Rightarrow> ('v, 'i) position option \<Rightarrow>
   ('v, 'i) position option \<Rightarrow> ('v, 'i, 'd) list_row list \<Rightarrow> bool" where
  "serves desc may must a b out \<longleftrightarrow> in_order desc out \<and> (\<forall>r \<in> set out. between desc a b r \<and> may r)
     \<and> (\<forall>r. must r \<and> between desc a b r \<longrightarrow> r \<in> set out)"

definition ahead :: "bool \<Rightarrow> ('v::linorder, 'i::linorder) position option \<Rightarrow> ('v, 'i) position \<Rightarrow> bool" where
  "ahead desc a p \<longleftrightarrow> (case a of None \<Rightarrow> True | Some (i, v) \<Rightarrow> comes_before desc (key_of i v) (key_of (fst p) (snd p)))"

lemma position_key [simp]: "key_of (fst (positionOf r)) (snd (positionOf r)) = row_key r"
  by (simp add: positionOf_def row_key_def)

lemma later_Some: "later desc (Some p) r \<longleftrightarrow> comes_before desc (key_of (fst p) (snd p)) (row_key r)"
  by (cases p) (simp add: later_def)

lemma ahead_of_row: "ahead desc a (positionOf r) = later desc a r"
  by (auto simp: ahead_def later_def positionOf_def row_key_def split: option.splits)

lemma later_position: "later desc (Some (positionOf a)) b \<longleftrightarrow> comes_before desc (row_key a) (row_key b)"
  by (simp add: later_Some positionOf_def row_key_def)

lemma later_trans: "ahead desc a p \<Longrightarrow> later desc (Some p) r \<Longrightarrow> later desc a r"
  by (cases a) (auto simp: ahead_def later_def comes_before_def split: if_splits prod.splits)

lemma not_later_trans:
  "ahead desc (Some p) q \<or> p = q \<Longrightarrow> later desc (Some q) r \<Longrightarrow> later desc (Some p) r"
  using later_trans by blast

lemma comes_before_trans: "comes_before desc a b \<Longrightarrow> comes_before desc b c \<Longrightarrow> comes_before desc a c"
  by (auto simp: comes_before_def split: if_splits)

lemma before_across: "\<not> comes_before desc p a \<Longrightarrow> comes_before desc p b \<Longrightarrow> comes_before desc a b"
  by (auto simp: comes_before_def split: if_splits)

lemma comes_before_irrefl [simp]: "\<not> comes_before desc a a"
  by (simp add: comes_before_def)

lemma in_order_append:
  "in_order desc (xs @ ys) \<longleftrightarrow> in_order desc xs \<and> in_order desc ys \<and> (\<forall>a \<in> set xs. \<forall>b \<in> set ys. comes_before desc (row_key a) (row_key b))"
  by (auto simp: in_order_def sorted_wrt_append)

lemma in_order_filter: "in_order desc xs \<Longrightarrow> in_order desc (filter P xs)"
  by (simp add: in_order_def sorted_wrt_filter)

lemma in_order_distinct: "in_order desc xs \<Longrightarrow> distinct xs"
  by (induction xs) (auto simp: in_order_def)

lemma in_order_unique: "in_order desc xs \<Longrightarrow> in_order desc ys \<Longrightarrow> set xs = set ys \<Longrightarrow> xs = ys"
proof (induction xs arbitrary: ys)
  case (Cons a xs)
  then obtain b ys' where ys: "ys = b # ys'" by (cases ys) auto
  have "a = b"
  proof (rule ccontr)
    assume "a \<noteq> b"
    then have "a \<in> set ys'" "b \<in> set xs" using Cons.prems(3) ys by auto
    then have "comes_before desc (row_key a) (row_key b)" "comes_before desc (row_key b) (row_key a)"
      using Cons.prems(1,2) ys by (auto simp: in_order_def)
    then show False by (auto simp: comes_before_def split: if_splits)
  qed
  moreover have "a \<notin> set xs" "a \<notin> set ys'" using Cons.prems(1,2) ys \<open>a = b\<close> by (auto simp: in_order_def)
  ultimately have "set xs = set ys'" using Cons.prems(3) ys by (metis insert_ident list.simps(15))
  then show ?case using Cons ys \<open>a = b\<close> by (auto simp: in_order_def)
qed simp

lemma serves_weaken:
  "serves desc may must a b out \<Longrightarrow> (\<And>r. may r \<Longrightarrow> keep r \<Longrightarrow> may' r) \<Longrightarrow> (\<And>r. must' r \<Longrightarrow> must r \<and> keep r) \<Longrightarrow>
   serves desc may' must' a b (filter keep out)"
  unfolding serves_def by (auto intro: in_order_filter)

text \<open>A stretch cut after any of its rows is a stretch up to that row.\<close>

lemma serves_cut:
  assumes "serves desc may must a b out" "out = xs @ x # ys"
  shows "serves desc may must a (Some (positionOf x)) (xs @ [x])"
proof -
  have ord: "in_order desc (xs @ x # ys)" and mem: "\<forall>r \<in> set out. between desc a b r \<and> may r"
    and all: "\<forall>r. must r \<and> between desc a b r \<longrightarrow> r \<in> set out" using assms by (auto simp: serves_def)
  have "in_order desc (xs @ [x])" using ord by (auto simp: in_order_def sorted_wrt_append)
  moreover have "between desc a (Some (positionOf x)) r" if "r \<in> set (xs @ [x])" for r
    using that ord mem assms(2) by (auto simp: between_def later_position in_order_def sorted_wrt_append)
      (auto simp: comes_before_def split: if_splits)
  moreover have "r \<in> set (xs @ [x])" if "must r" "between desc a (Some (positionOf x)) r" for r
  proof -
    have "between desc a b r"
    proof (cases b)
      case (Some q)
      have "between desc a b x" using mem assms(2) by simp
      then have "\<not> later desc (Some q) x" by (simp add: between_def Some)
      then have "\<not> later desc (Some q) r" using that(2) before_across[of desc "key_of (fst q) (snd q)" "row_key x" "row_key r"]
        by (auto simp: between_def later_position later_Some)
      then show ?thesis using that(2) by (simp add: between_def Some)
    qed (use that(2) in \<open>simp add: between_def\<close>)
    then have "r \<in> set out" using all that(1) by blast
    moreover have "r \<notin> set ys" using ord that(2) by (auto simp: between_def later_position in_order_def sorted_wrt_append)
    ultimately show ?thesis using assms(2) by auto
  qed
  ultimately show ?thesis using mem assms(2) by (auto simp: serves_def)
qed

lemma servesD:
  assumes "serves desc may must a b out"
  shows "in_order desc out" "r \<in> set out \<Longrightarrow> later desc a r" "r \<in> set out \<Longrightarrow> may r" "r \<in> set out \<Longrightarrow> b = Some p \<Longrightarrow> \<not> later desc (Some p) r"
    "must r \<Longrightarrow> between desc a b r \<Longrightarrow> r \<in> set out"
  using assms unfolding serves_def between_def by fastforce+

lemma serves_join:
  assumes "serves desc may must a (Some p) xs" "serves desc may must (Some p) b ys" "ahead desc a p"
    and "\<And>q. b = Some q \<Longrightarrow> ahead desc (Some p) q"
  shows "serves desc may must a b (xs @ ys)"
proof -
  have "comes_before desc (row_key x) (row_key y)" if "x \<in> set xs" "y \<in> set ys" for x y
    by (rule before_across[of desc "key_of (fst p) (snd p)"]) (use servesD(4)[OF assms(1) that(1)] servesD(2)[OF assms(2) that(2)] in \<open>simp_all add: later_Some\<close>)
  moreover have "in_order desc xs" "in_order desc ys" using assms(1,2) by (blast dest: servesD(1))+
  ultimately have order: "in_order desc (xs @ ys)" by (simp add: in_order_append)
  have inside: "between desc a b r \<and> may r" if "r \<in> set (xs @ ys)" for r
  proof (cases "r \<in> set xs")
    case True
    then have r: "later desc a r" "\<not> later desc (Some p) r" "may r" using servesD(2-4)[OF assms(1) True] by simp_all
    have "\<not> later desc (Some q) r" if "b = Some q" for q
      using later_trans[OF assms(4)[OF that]] r(2) by blast
    then show ?thesis using r by (auto simp: between_def split: option.splits)
  next
    case False
    then have "between desc (Some p) b r" "may r" using assms(2) that unfolding serves_def by auto
    then show ?thesis using later_trans[OF assms(3), of r] by (simp add: between_def)
  qed
  have "r \<in> set (xs @ ys)" if r: "must r" "between desc a b r" for r
  proof (cases "later desc (Some p) r")
    case True
    then show ?thesis using servesD(5)[OF assms(2) r(1)] r(2) by (simp add: between_def)
  next
    case False
    then show ?thesis using servesD(5)[OF assms(1) r(1)] r(2) by (simp add: between_def)
  qed
  then show ?thesis using order inside unfolding serves_def by blast
qed

lemma serves_join_end:
  "serves desc may must a (Some p) xs \<Longrightarrow> serves desc may must (Some p) None ys \<Longrightarrow> ahead desc a p \<Longrightarrow> serves desc may must a None (xs @ ys)"
  by (rule serves_join) simp_all

section \<open>Pages\<close>

text \<open>What a walk may serve and what it must, of a table that may change.\<close>

definition may_serve ::
  "('v, 'i, 'd) list_row condition list \<Rightarrow> ('v, 'i, 'd) list_row condition \<Rightarrow> (nat \<Rightarrow> ('v, 'i, 'd) list_row list) \<Rightarrow> ('v, 'i, 'd) list_row condition" where
  "may_serve conds keep tab r \<longleftrightarrow> keep r \<and> (\<exists>k. r \<in> set (where_all conds (tab k)))"

definition must_serve ::
  "('v, 'i, 'd) list_row condition list \<Rightarrow> ('v, 'i, 'd) list_row condition \<Rightarrow> (nat \<Rightarrow> ('v, 'i, 'd) list_row list) \<Rightarrow> ('v, 'i, 'd) list_row condition" where
  "must_serve conds keep tab r \<longleftrightarrow> keep r \<and> (\<forall>k. r \<in> set (where_all conds (tab k)))"

abbreviation read_row :: "('v, 'i, 'd) list_row condition list \<Rightarrow> (nat \<Rightarrow> ('v, 'i, 'd) list_row list) \<Rightarrow> ('v, 'i, 'd) list_row condition" where
  "read_row conds tab \<equiv> may_serve conds (\<lambda>r. True) tab"

lemma distinct_where: "distinct (map lr_id rows) \<Longrightarrow> distinct (map lr_id (where_all conds rows))"
  by (simp add: where_all_def distinct_map_filter)

lemma run_in_order: "distinct (map lr_id rows) \<Longrightarrow> in_order desc (order_rows desc (filter P (where_all conds rows)))"
  by (intro order_rows_in_order) (simp add: where_all_def distinct_map_filter)

text \<open>Which runs a batch reads, and what they hold of the rows after the anchor.\<close>

definition both_runs :: "bool \<Rightarrow> ('v, 'i) position option \<Rightarrow> bool" where
  "both_runs desc a \<longleftrightarrow> (case a of None \<Rightarrow> True | Some (i, v) \<Rightarrow> (v = None) = desc)"

lemma runs_from_eq: "runs_from desc a = (if both_runs desc a then [desc, \<not> desc] else [\<not> desc])"
  by (auto simp: runs_from_def both_runs_def split: option.splits)

lemma first_of_both: "both_runs desc a \<Longrightarrow> in_run desc desc a r \<longleftrightarrow> (lr_val r = None) = desc \<and> later desc a r"
  by (cases a) (auto simp: both_runs_def in_run_later later_def split: prod.splits)

lemma second_of_both: "both_runs desc a \<Longrightarrow> (lr_val r = None) \<noteq> desc \<Longrightarrow> later desc a r"
  by (cases a) (auto simp: both_runs_def later_across, simp_all add: later_def)

lemma only_run: "\<not> both_runs desc a \<Longrightarrow> in_run desc (\<not> desc) a r \<longleftrightarrow> later desc a r"
  by (cases a) (auto simp: both_runs_def in_run_later, auto simp: later_def row_key_def key_of_def comes_before_def)

lemma batch_serves:
  assumes "\<And>k. distinct (map lr_id (tab k))"
  shows "serves desc (\<lambda>r. \<exists>k. r \<in> set (where_all conds (tab k))) (\<lambda>r. \<forall>k. r \<in> set (where_all conds (tab k))) a None
    (run_rows desc conds tab now (runs_from desc a) a)"
proof (cases "both_runs desc a")
  case False
  show ?thesis using run_in_order[OF assms]
    by (simp add: runs_from_eq False only_run serves_def between_def) blast
next
  case True
  let ?A = "filter (in_run desc desc a) (where_all conds (tab now))"
  let ?B = "filter (in_run desc (\<not> desc) None) (where_all conds (tab (now + 1)))"
  have rows: "run_rows desc conds tab now (runs_from desc a) a = order_rows desc ?A @ order_rows desc ?B"
    by (simp add: runs_from_eq True)
  have A: "r \<in> set ?A \<longleftrightarrow> r \<in> set (where_all conds (tab now)) \<and> (lr_val r = None) = desc \<and> later desc a r" for r
    by (simp add: first_of_both[OF True])
  have B: "r \<in> set ?B \<longleftrightarrow> r \<in> set (where_all conds (tab (now + 1))) \<and> (lr_val r = None) \<noteq> desc" for r
    by (auto simp: in_run_later)
  have "comes_before desc (row_key x) (row_key y)" if "x \<in> set ?A" "y \<in> set ?B" for x y
    by (rule run_before) (use that A B in \<open>blast+\<close>)
  then have "in_order desc (order_rows desc ?A @ order_rows desc ?B)"
    using run_in_order[OF assms] by (simp add: in_order_append)
  moreover have "between desc a None r \<and> (\<exists>k. r \<in> set (where_all conds (tab k)))" if "r \<in> set ?A \<union> set ?B" for r
    using that A[of r] B[of r] second_of_both[OF True, of r] by (auto simp: between_def)
  moreover have "r \<in> set ?A \<union> set ?B" if "\<forall>k. r \<in> set (where_all conds (tab k))" "between desc a None r" for r
    using that A[of r] B[of r] by (auto simp: between_def)
  ultimately show ?thesis unfolding rows serves_def set_append set_order_rows by blast
qed

lemma cut_take:
  assumes "serves desc may must a b out" "take n out \<noteq> []"
  shows "serves desc may must a (Some (positionOf (last (take n out)))) (take n out)"
proof -
  have "out = butlast (take n out) @ last (take n out) # drop n out"
    using assms(2) by (metis append_Cons append_Nil append_assoc append_butlast_last_id append_take_drop_id)
  from serves_cut[OF assms(1) this] show ?thesis using assms(2) by simp
qed

text \<open>The state of the refill: where it began, it has served up to where it is.\<close>

definition refill_ok ::
  "bool \<Rightarrow> ('v::linorder, 'i::linorder, 'd) list_row condition list \<Rightarrow> ('v, 'i, 'd) list_row condition \<Rightarrow>
   (nat \<Rightarrow> ('v, 'i, 'd) list_row list) \<Rightarrow> ('v, 'i) position option \<Rightarrow> ('v, 'i, 'd) refill_state \<Rightarrow> bool" where
  "refill_ok desc conds keep tab a s \<longleftrightarrow>
    (if rf_more s
     then \<exists>r. rf_from s = Some (positionOf r) \<and> later desc a r \<and> read_row conds tab r
        \<and> serves desc (may_serve conds keep tab) (must_serve conds keep tab) a (rf_from s) (rf_seen s)
     else serves desc (may_serve conds keep tab) (must_serve conds keep tab) a None (rf_seen s))"

lemma refill_round_batch:
  assumes "\<And>k. distinct (map lr_id (tab k))" "1 \<le> limit"
    and s'_def: "s' = refill_round desc conds keep limit tab s"
  shows "\<exists>out. rf_seen s' = rf_seen s @ out
    \<and> (if rf_more s' then \<exists>r. rf_from s' = Some (positionOf r) \<and> later desc (rf_from s) r \<and> read_row conds tab r
        \<and> serves desc (may_serve conds keep tab) (must_serve conds keep tab) (rf_from s) (rf_from s') out
       else serves desc (may_serve conds keep tab) (must_serve conds keep tab) (rf_from s) None out)"
proof -
  let ?all = "run_rows desc conds tab (rf_time s) (runs_from desc (rf_from s)) (rf_from s)"
  let ?got = "take limit ?all"
  have more: "rf_more s' \<longleftrightarrow> limit < length ?all"
    by (simp add: s'_def refill_round_def after_rows_def read_runs_eq Let_def)
  have got: "rf_seen s' = rf_seen s @ filter keep ?got"
    by (simp add: s'_def refill_round_def after_rows_def read_runs_eq Let_def min_def)
  note served = batch_serves[where tab = tab and desc = desc and conds = conds and a = "rf_from s" and now = "rf_time s", OF assms(1)]
  note keep = serves_weaken[where keep = keep and may' = "may_serve conds keep tab" and must' = "must_serve conds keep tab"]
  show ?thesis
  proof (cases "limit < length ?all")
    case True
    then have ne: "?got \<noteq> []" using assms(2) by (cases ?all) auto
    then have "last ?got \<in> set ?got" by simp
    then have "last ?got \<in> set ?all" by (rule in_set_takeD)
    then have "later desc (rf_from s) (last ?got)" "read_row conds tab (last ?got)"
      using servesD(2,3)[OF served] by (simp_all add: may_serve_def)
    moreover have "rf_from s' = Some (positionOf (last ?got))"
      using True ne by (simp add: s'_def refill_round_def after_rows_def read_runs_eq Let_def min_def)
    moreover have "serves desc (may_serve conds keep tab) (must_serve conds keep tab) (rf_from s) (Some (positionOf (last ?got))) (filter keep ?got)"
      by (rule keep[OF cut_take[OF served ne]]) (auto simp: may_serve_def must_serve_def)
    ultimately show ?thesis using got more True by auto
  next
    case False
    have "serves desc (may_serve conds keep tab) (must_serve conds keep tab) (rf_from s) None (filter keep ?all)"
      by (rule keep[OF served]) (auto simp: may_serve_def must_serve_def)
    then show ?thesis using got more False by auto
  qed
qed

lemma refill_round_ok:
  assumes "\<And>k. distinct (map lr_id (tab k))" "1 \<le> limit" "rf_more s" "refill_ok desc conds keep tab a s"
  shows "refill_ok desc conds keep tab a (refill_round desc conds keep limit tab s)"
proof -
  let ?s = "refill_round desc conds keep limit tab s"
  obtain r where r: "rf_from s = Some (positionOf r)" "later desc a r" "read_row conds tab r"
    and served: "serves desc (may_serve conds keep tab) (must_serve conds keep tab) a (Some (positionOf r)) (rf_seen s)"
    using assms(3,4) by (auto simp: refill_ok_def)
  obtain out where out: "rf_seen ?s = rf_seen s @ out"
    and then_: "if rf_more ?s then \<exists>q. rf_from ?s = Some (positionOf q) \<and> later desc (rf_from s) q \<and> read_row conds tab q
        \<and> serves desc (may_serve conds keep tab) (must_serve conds keep tab) (rf_from s) (rf_from ?s) out
       else serves desc (may_serve conds keep tab) (must_serve conds keep tab) (rf_from s) None out"
    using refill_round_batch[where tab = tab and s = s and limit = limit and desc = desc and conds = conds and keep = keep and s' = ?s] assms(1,2) by blast
  have first: "ahead desc a (positionOf r)" using r(2) by (simp add: ahead_of_row)
  show ?thesis
  proof (cases "rf_more ?s")
    case True
    then obtain q where q: "rf_from ?s = Some (positionOf q)" "later desc (rf_from s) q" "read_row conds tab q"
      and later_out: "serves desc (may_serve conds keep tab) (must_serve conds keep tab) (Some (positionOf r)) (Some (positionOf q)) out"
      using then_ r(1) by auto
    have "serves desc (may_serve conds keep tab) (must_serve conds keep tab) a (Some (positionOf q)) (rf_seen s @ out)"
      by (rule serves_join[OF served later_out first]) (use q(2) r(1) in \<open>simp add: ahead_of_row\<close>)
    moreover have "later desc a q" using later_trans[OF first] q(2) r(1) by simp
    ultimately show ?thesis using True q out by (auto simp: refill_ok_def)
  next
    case False
    then have "serves desc (may_serve conds keep tab) (must_serve conds keep tab) a None (rf_seen s @ out)"
      using serves_join_end[OF served _ first] then_ r(1) by simp
    then show ?thesis using False out by (simp add: refill_ok_def)
  qed
qed

lemma refill_ok:
  assumes "\<And>k. distinct (map lr_id (tab k))" "1 \<le> limit" "refill_ok desc conds keep tab a s"
  shows "refill_ok desc conds keep tab a (refill desc conds keep limit tab rounds s)"
  using assms(3) by (induction rounds arbitrary: s) (simp_all add: refill_round_ok assms(1,2))

definition start_of :: "('v, 'i) cursor \<Rightarrow> ('v, 'i) position option" where
  "start_of c = (case c of StartCursor \<Rightarrow> None | AtPosition p \<Rightarrow> Some p)"

text \<open>What a page promises: its rows, and a cursor strictly ahead at a row the table has.\<close>

definition page_ok ::
  "bool \<Rightarrow> ('v::linorder, 'i::linorder, 'd) list_row condition list \<Rightarrow> ('v, 'i, 'd) list_row condition \<Rightarrow>
   (nat \<Rightarrow> ('v, 'i, 'd) list_row list) \<Rightarrow> ('v, 'i) position option \<Rightarrow> ('v, 'i, 'd) list_row list \<Rightarrow> ('v, 'i) cursor option \<Rightarrow> bool" where
  "page_ok desc conds keep tab a records c \<longleftrightarrow>
    (case c of
       None \<Rightarrow> serves desc (may_serve conds keep tab) (must_serve conds keep tab) a None records
     | Some StartCursor \<Rightarrow> a = None \<and> records = []
     | Some (AtPosition p) \<Rightarrow> (\<exists>r. p = positionOf r \<and> later desc a r \<and> read_row conds tab r)
         \<and> serves desc (may_serve conds keep tab) (must_serve conds keep tab) a (Some p) records)"

lemma cut_page:
  assumes "serves desc (may_serve conds keep tab) (must_serve conds keep tab) a b seen" "take n seen \<noteq> []"
  shows "page_ok desc conds keep tab a (take n seen) (Some (AtPosition (positionOf (last (take n seen)))))"
proof -
  have cut: "serves desc (may_serve conds keep tab) (must_serve conds keep tab) a (Some (positionOf (last (take n seen)))) (take n seen)"
    by (rule cut_take[OF assms])
  have "last (take n seen) \<in> set (take n seen)" using assms(2) by simp
  then have "later desc a (last (take n seen))" "read_row conds tab (last (take n seen))"
    using servesD(2,3)[OF cut] by (auto simp: may_serve_def)
  then show ?thesis using cut by (auto simp: page_ok_def)
qed

lemma cursor_page_ok:
  fixes tab :: "nat \<Rightarrow> ('v::linorder, 'i::linorder, 'd) list_row list"
  assumes "\<And>k. distinct (map lr_id (tab k))" "1 \<le> limit"
    and page: "cursor_page desc conds keep limit tab now c = (records, c', now')"
  shows "page_ok desc conds keep tab (start_of c) records c' \<and> c' \<noteq> Some StartCursor"
proof -
  let ?a = "start_of c"
  define s0 :: "('v, 'i, 'd) refill_state" where "s0 = \<lparr> rf_seen = [], rf_from = ?a, rf_more = True, rf_time = now \<rparr>"
  define s where "s = refill desc conds keep limit tab LIST_REFILL_ROUNDS s0"
  have "refill_ok desc conds keep tab ?a (refill_round desc conds keep limit tab s0)"
    using refill_round_batch[where tab = tab and s = s0 and limit = limit and desc = desc and conds = conds and keep = keep
        and s' = "refill_round desc conds keep limit tab s0"] assms(1,2) by (auto simp: refill_ok_def s0_def split: if_splits)
  moreover have "s = refill desc conds keep limit tab 9 (refill_round desc conds keep limit tab s0)"
    using assms(2) by (simp add: s_def LIST_REFILL_ROUNDS_def s0_def eval_nat_numeral)
  ultimately have ok: "refill_ok desc conds keep tab ?a s" using refill_ok[OF assms(1,2)] by simp
  have answer: "records = take limit (rf_seen s)"
    "c' = (if rf_more s \<and> length (rf_seen s) < limit then (case rf_from s of None \<Rightarrow> None | Some p \<Rightarrow> Some (AtPosition p))
      else if rf_more s \<or> limit < length (rf_seen s) then Some (AtPosition (positionOf (last (take limit (rf_seen s))))) else None)"
    using page[symmetric] by (simp_all add: cursor_page_def s_def s0_def start_of_def Let_def)
  consider (short) "rf_more s" "length (rf_seen s) < limit" | (full) "rf_more s \<or> limit < length (rf_seen s)" "limit \<le> length (rf_seen s)"
    | (end_) "\<not> rf_more s" "length (rf_seen s) \<le> limit" by linarith
  then show ?thesis
  proof cases
    case short
    then show ?thesis using ok answer by (auto simp: refill_ok_def page_ok_def)
  next
    case full
    have ne: "take limit (rf_seen s) \<noteq> []" using full(2) assms(2) by auto
    obtain b where "serves desc (may_serve conds keep tab) (must_serve conds keep tab) ?a b (rf_seen s)"
      using ok by (auto simp: refill_ok_def split: if_splits)
    from cut_page[OF this ne] show ?thesis using full answer by auto
  next
    case end_
    then show ?thesis using ok answer by (simp add: refill_ok_def page_ok_def)
  qed
qed

lemma first_page_ok:
  assumes "\<And>k. distinct (map lr_id (tab k))" "1 \<le> limit" "skipCount \<or> tab (now + 1) = tab now"
    and page: "offset_page desc conds keep limit skipCount 1 tab now = (records, c, now')"
  shows "page_ok desc conds keep tab None records c"
proof -
  let ?all = "order_rows desc (where_all conds (tab now))"
  have served: "serves desc (\<lambda>r. r \<in> set (where_all conds (tab now))) (\<lambda>r. r \<in> set (where_all conds (tab now))) None None ?all"
    using order_rows_in_order[OF distinct_where[OF assms(1)]] by (auto simp: serves_def between_def later_def)
  note keep = serves_weaken[where keep = keep and may' = "may_serve conds keep tab" and must' = "must_serve conds keep tab"]
  obtain got total where got: "dynamicSelect desc conds limit 0 skipCount (tab now) (tab (now + 1)) = (got, total)"
    by (metis prod.exhaust)
  have taken: "got = take limit ?all" and more: "total = -1 \<or> 0 \<le> total \<and> int (length got) < total \<longleftrightarrow> limit < length ?all"
    using got assms(3) by (auto simp: dynamicSelect_def Let_def min_def split: if_splits)
  have answer: "records = filter keep got" "c = (if limit < length ?all then
      (if records = [] then Some StartCursor else Some (AtPosition (positionOf (last records)))) else None)"
    using page got more by (auto simp: offset_page_def Let_def)
  show ?thesis
  proof (cases "limit < length ?all")
    case False
    have "serves desc (may_serve conds keep tab) (must_serve conds keep tab) None None (filter keep ?all)"
      by (rule keep[OF served]) (auto simp: may_serve_def must_serve_def)
    then show ?thesis using False answer taken by (simp add: page_ok_def)
  next
    case True
    then have "take limit ?all \<noteq> []" using assms(2) by (cases ?all) auto
    from keep[OF cut_take[OF served this]]
    have "serves desc (may_serve conds keep tab) (must_serve conds keep tab) None (Some (positionOf (last (take limit ?all)))) records"
      using answer(1) taken by (auto simp: may_serve_def must_serve_def)
    from cut_page[OF this, of "length records"] show ?thesis using True answer(2) by (simp add: page_ok_def)
  qed
qed

lemma follow_serves:
  assumes "\<And>k. distinct (map lr_id (tab k))" "1 \<le> limit"
    and "follow desc conds keep limit tab requests now (Some c) = (rest, True)"
  shows "serves desc (may_serve conds keep tab) (must_serve conds keep tab) (start_of c) None rest"
  using assms(3)
proof (induction requests arbitrary: now c rest)
  case (Suc requests)
  obtain records c' now' where page: "cursor_page desc conds keep limit tab now c = (records, c', now')" by (metis prod_cases3)
  obtain rest' where rest: "follow desc conds keep limit tab requests now' c' = (rest', True)" "rest = records @ rest'"
    using Suc.prems page by (auto split: prod.splits)
  have ok: "page_ok desc conds keep tab (start_of c) records c'" "c' \<noteq> Some StartCursor"
    using cursor_page_ok[OF assms(1,2) page] by simp_all
  show ?case
  proof (cases c')
    case None
    then show ?thesis using ok rest by (cases requests) (auto simp: page_ok_def)
  next
    case (Some d)
    then obtain p where d: "d = AtPosition p" using ok(2) by (cases d) auto
    have served: "serves desc (may_serve conds keep tab) (must_serve conds keep tab) (start_of c) (Some p) records" and p: "ahead desc (start_of c) p"
      using ok(1) Some d by (auto simp: page_ok_def ahead_of_row)
    have "serves desc (may_serve conds keep tab) (must_serve conds keep tab) (Some p) None rest'"
      using Suc.IH[of now' d rest'] rest(1) Some d by (simp add: start_of_def)
    then show ?thesis using serves_join_end[OF served _ p] rest(2) by simp
  qed
qed simp

lemma walk_serves:
  assumes "\<And>k. distinct (map lr_id (tab k))" "1 \<le> limit" "skipCount \<or> tab 1 = tab 0"
    and "walk_pages desc conds keep limit skipCount tab requests = (served, True)"
  shows "serves desc (may_serve conds keep tab) (must_serve conds keep tab) None None served"
proof -
  obtain records c now rest where page: "offset_page desc conds keep limit skipCount 1 tab 0 = (records, c, now)"
    and rest: "follow desc conds keep limit tab requests now c = (rest, True)" "served = records @ rest"
    using assms(4) by (auto simp: walk_pages_def split: prod.splits)
  have ok: "page_ok desc conds keep tab None records c" by (rule first_page_ok[OF assms(1,2) _ page]) (use assms(3) in simp)
  show ?thesis
  proof (cases c)
    case None
    then show ?thesis using ok rest by (cases requests) (auto simp: page_ok_def)
  next
    case (Some d)
    have later_rows: "serves desc (may_serve conds keep tab) (must_serve conds keep tab) (start_of d) None rest"
      using follow_serves[OF assms(1,2)] rest(1) Some by simp
    show ?thesis
    proof (cases d)
      case StartCursor
      then show ?thesis using later_rows ok Some rest(2) by (simp add: page_ok_def start_of_def)
    next
      case (AtPosition p)
      have "serves desc (may_serve conds keep tab) (must_serve conds keep tab) None (Some p) records" using ok Some AtPosition by (simp add: page_ok_def)
      then show ?thesis using serves_join_end[of desc _ _ None p records rest] later_rows AtPosition rest(2) by (simp add: start_of_def ahead_def)
    qed
  qed
qed


section \<open>The end of the walk\<close>

definition rows_left :: "bool \<Rightarrow> ('v::linorder, 'i::linorder, 'd) list_row list \<Rightarrow> ('v, 'i) position option \<Rightarrow> nat" where
  "rows_left desc rows a = length (filter (later desc a) rows)"

lemma rows_left_less:
  assumes "r \<in> set rows" "later desc a r"
  shows "rows_left desc rows (Some (positionOf r)) < rows_left desc rows a"
proof -
  have "later desc a x" if "later desc (Some (positionOf r)) x" for x
    using later_trans[of desc a "positionOf r" x] assms(2) that by (simp add: ahead_of_row)
  then have "filter (later desc (Some (positionOf r))) rows = filter (later desc (Some (positionOf r))) (filter (later desc a) rows)"
    by (auto intro!: filter_cong)
  moreover have "\<not> later desc (Some (positionOf r)) r" by (simp add: later_position)
  ultimately show ?thesis unfolding rows_left_def
    using assms length_filter_less[of r "filter (later desc a) rows" "later desc (Some (positionOf r))"] by simp
qed

lemma follow_ends:
  fixes rows :: "('v::linorder, 'i::linorder, 'd) list_row list"
  assumes "distinct (map lr_id rows)" "1 \<le> limit" "rows_left desc rows (start_of c) < requests"
  shows "\<exists>rest. follow desc conds keep limit (\<lambda>k. rows) requests now (Some c) = (rest, True)"
  using assms(3)
proof (induction requests arbitrary: now c)
  case (Suc requests)
  obtain records c' now' where page: "cursor_page desc conds keep limit (\<lambda>k. rows) now c = (records, c', now')" by (metis prod_cases3)
  have ok: "page_ok desc conds keep (\<lambda>k. rows) (start_of c) records c'" "c' \<noteq> Some StartCursor"
    using cursor_page_ok[OF _ assms(2) page] assms(1) by simp_all
  show ?case
  proof (cases c')
    case None
    then show ?thesis using page by (cases requests) auto
  next
    case (Some d)
    then obtain p where d: "d = AtPosition p" using ok(2) by (cases d) auto
    then obtain r where "p = positionOf r" "later desc (start_of c) r" "r \<in> set rows"
      using ok(1) Some by (auto simp: page_ok_def may_serve_def where_all_def)
    then have "rows_left desc rows (start_of d) < requests"
      using rows_left_less[of r rows desc "start_of c"] Suc.prems d by (simp add: start_of_def)
    then show ?thesis using Suc.IH[of d now'] page Some by auto
  qed
qed simp

lemma walk_static:
  assumes "distinct (map lr_id rows)" "1 \<le> limit"
  shows "walk_pages desc conds keep limit skipCount (\<lambda>k. rows) (length rows + 1)
    = (filter keep (order_rows desc (filter (\<lambda>r. \<forall>c \<in> set conds. c r) rows)), True)"
proof -
  let ?all = "order_rows desc (where_all conds rows)"
  obtain records c now where page: "offset_page desc conds keep limit skipCount 1 (\<lambda>k. rows) 0 = (records, c, now)" by (metis prod_cases3)
  have "\<exists>rest. follow desc conds keep limit (\<lambda>k. rows) (length rows + 1) now c = (rest, True)"
  proof (cases c)
    case (Some d)
    have "rows_left desc rows (start_of d) < length rows + 1" by (simp add: rows_left_def less_Suc_eq_le)
    then show ?thesis using follow_ends[OF assms] Some by blast
  qed simp
  then obtain served where walk: "walk_pages desc conds keep limit skipCount (\<lambda>k. rows) (length rows + 1) = (served, True)"
    using page by (auto simp: walk_pages_def)
  have all: "serves desc (may_serve conds keep (\<lambda>k. rows)) (must_serve conds keep (\<lambda>k. rows)) None None served"
    using walk_serves[OF _ assms(2) _ walk] assms(1) by simp
  have "served = filter keep ?all"
  proof (rule in_order_unique)
    show "in_order desc served" by (rule servesD(1)[OF all])
    show "in_order desc (filter keep ?all)"
      by (intro in_order_filter order_rows_in_order distinct_where assms(1))
    have "r \<in> set served \<longleftrightarrow> r \<in> set (filter keep ?all)" for r
    proof
      assume "r \<in> set served"
      then have "may_serve conds keep (\<lambda>k. rows) r" by (rule servesD(3)[OF all])
      then show "r \<in> set (filter keep ?all)" by (simp add: may_serve_def)
    next
      assume "r \<in> set (filter keep ?all)"
      then have "must_serve conds keep (\<lambda>k. rows) r" by (simp add: must_serve_def)
      then show "r \<in> set served" by (rule servesD(5)[OF all]) (simp add: between_def later_def)
    qed
    then show "set served = set (filter keep ?all)" by blast
  qed
  then show ?thesis using walk by (simp add: where_all_def)
qed

text \<open>
  The walk ends, and serves the list.  Over a table that does not change, following the cursors
  comes to an end within one request more than the table has rows, and the pages in a row are the
  rows that match and are kept, in the order of the list.
\<close>

theorem walk_ends_with_the_list:
  assumes "distinct (map lr_id rows)" "1 \<le> limit"
  shows "walk_pages desc conds keep limit skipCount (\<lambda>k. rows) (length rows + 1)
    = (filter keep (order_rows desc (filter (\<lambda>r. \<forall>c \<in> set conds. c r) rows)), True)"
  by (rule walk_static[OF assms])

section \<open>Instances\<close>

definition demo_list :: "(nat, nat, bool) list_row list" where
  "demo_list = [\<lparr> lr_id = 1, lr_val = Some 7, lr_rest = True \<rparr>, \<lparr> lr_id = 2, lr_val = None, lr_rest = True \<rparr>,
     \<lparr> lr_id = 3, lr_val = Some 5, lr_rest = False \<rparr>, \<lparr> lr_id = 4, lr_val = Some 7, lr_rest = True \<rparr>]"

theorem walk_ends_with_the_list_witness:
  "walk_pages True [] lr_rest 1 False (\<lambda>k. demo_list) (length demo_list + 1) = ([\<lparr> lr_id = 2, lr_val = None, lr_rest = True \<rparr>,
     \<lparr> lr_id = 4, lr_val = Some 7, lr_rest = True \<rparr>, \<lparr> lr_id = 1, lr_val = Some 7, lr_rest = True \<rparr>], True)"
proof -
  have "distinct (map lr_id demo_list)" by (simp add: demo_list_def)
  from walk_ends_with_the_list[OF this, of 1 True "[]" lr_rest False]
  show ?thesis by (simp add: demo_list_def order_rows_def row_key_def key_of_def)
qed


text \<open>
  Why the count has to see the page's table: a row of the page deleted before the count makes the
  count say that nothing follows, and the walk ends without a row that was there all along.
\<close>

definition shrinking :: "nat \<Rightarrow> (nat, nat, bool) list_row list" where
  "shrinking k = (if k = 0 then demo_list else tl demo_list)"

lemma walk_that_misses_a_row:
  "walk_pages False [] (\<lambda>r. True) 3 False shrinking requests = ([\<lparr> lr_id = 3, lr_val = Some 5, lr_rest = False \<rparr>,
     \<lparr> lr_id = 1, lr_val = Some 7, lr_rest = True \<rparr>, \<lparr> lr_id = 4, lr_val = Some 7, lr_rest = True \<rparr>], True)"
  "\<lparr> lr_id = 2, lr_val = None, lr_rest = True \<rparr> \<in> set (shrinking k)"
  by (cases requests; simp add: walk_pages_def offset_page_def dynamicSelect_def Let_def shrinking_def demo_list_def
      order_rows_def row_key_def key_of_def where_all_def)
    (simp add: shrinking_def demo_list_def)

end
