(* ===== verification/FilterParse.thy ===== *)
theory FilterParse
  imports SchemaFiles
begin

text \<open>
  The filters of a list request (\<open>lib/data/query-parse.ts\<close>): both formats, their refusals, and that
  what is parsed is what was asked, nothing left out.

  A number is the text it prints as.  \<open>JSON.parse\<close>, \<open>Number\<close> of a string and the order of
  numbers are given.
\<close>

record filter_env =
  fe_parse :: "string \<Rightarrow> jval option"
  fe_number :: "string \<Rightarrow> string option"
  fe_le :: "string \<Rightarrow> string \<Rightarrow> bool"
  fe_finite :: "string \<Rightarrow> bool"

definition num_le :: "filter_env \<Rightarrow> string \<Rightarrow> string \<Rightarrow> bool" where
  "num_le E a b \<longleftrightarrow> a \<noteq> ''NaN'' \<and> b \<noteq> ''NaN'' \<and> fe_le E a b"

section \<open>Operators\<close>

datatype filter_op =
    Eq | Neq | Lt | Lte | Gt | Gte | Like | Ilike | NotContains | StartsWith | EndsWith
  | In | NotIn | IsNull | NotNull | Near | Within

definition OP_ALIAS :: "(string \<times> filter_op) list" where
  "OP_ALIAS = [(''eq'', Eq), (''neq'', Neq), (''lt'', Lt), (''lte'', Lte), (''gt'', Gt), (''gte'', Gte), (''like'', Ilike),
     (''contains'', Ilike), (''ilike'', Ilike), (''not_contains'', NotContains), (''starts_with'', StartsWith),
     (''ends_with'', EndsWith), (''in'', In), (''not_in'', NotIn), (''null'', IsNull), (''is_null'', IsNull),
     (''not_null'', NotNull), (''is_not_null'', NotNull), (''near'', Near), (''within'', Within)]"

definition mapOp :: "string \<Rightarrow> filter_op option" where
  "mapOp s = map_of OP_ALIAS s"

definition GEO_OPS :: "filter_op list" where "GEO_OPS = [Near, Within]"
definition LOCATION_OPS :: "filter_op list" where "LOCATION_OPS = [Near, Within, IsNull, NotNull]"
definition NUMERIC_OPS :: "filter_op list" where "NUMERIC_OPS = [Gt, Gte, Lt, Lte]"

section \<open>Places\<close>

fun coordinate :: "filter_env \<Rightarrow> string \<Rightarrow> jval option \<Rightarrow> string option" where
  "coordinate E bound (Some (JNum n)) = (if num_le E (CHR ''-'' # bound) n \<and> num_le E n bound then Some n else None)"
| "coordinate E bound _ = None"

fun radius_of :: "filter_env \<Rightarrow> jval option \<Rightarrow> string option" where
  "radius_of E (Some (JNum n)) = (if n \<noteq> ''NaN'' \<and> fe_finite E n \<and> \<not> num_le E n ''0'' then Some n else None)"
| "radius_of E _ = None"

definition toNear :: "filter_env \<Rightarrow> jval \<Rightarrow> jval" where
  "toNear E v = (case (coordinate E ''90'' (js_member ''lat'' v), coordinate E ''180'' (js_member ''lng'' v), radius_of E (js_member ''radius'' v)) of
     (Some lat, Some lng, Some r) \<Rightarrow> JObj [(''lat'', JNum lat), (''lng'', JNum lng), (''radius'', JNum r)]
   | _ \<Rightarrow> JNull)"

definition toBox :: "filter_env \<Rightarrow> jval \<Rightarrow> jval" where
  "toBox E v = (case (coordinate E ''90'' (js_member ''minLat'' v), coordinate E ''90'' (js_member ''maxLat'' v),
       coordinate E ''180'' (js_member ''minLng'' v), coordinate E ''180'' (js_member ''maxLng'' v)) of
     (Some a, Some b, Some c, Some d) \<Rightarrow>
       if \<not> num_le E a b \<or> \<not> num_le E c d then JNull
       else JObj [(''minLat'', JNum a), (''minLng'', JNum c), (''maxLat'', JNum b), (''maxLng'', JNum d)]
   | _ \<Rightarrow> JNull)"

text \<open>The text \<open>lat,lng,radius\<close> or \<open>minLat,minLng,maxLat,maxLng\<close> of a bracket.\<close>

definition geo_numbers :: "filter_env \<Rightarrow> string \<Rightarrow> jval list" where
  "geo_numbers E s = map (\<lambda>p. JNum (if js_trim p = [] then ''NaN'' else case fe_number E p of Some n \<Rightarrow> n | None \<Rightarrow> ''NaN''))
     (js_split (CHR '','') s)"

definition geo_text :: "filter_env \<Rightarrow> filter_op \<Rightarrow> string \<Rightarrow> jval" where
  "geo_text E op s = (let n = geo_numbers E s in
     if op = Near then (if length n = 3 then JObj (zip [''lat'', ''lng'', ''radius''] n) else JBool False)
     else (if length n = 4 then JObj (zip [''minLat'', ''minLng'', ''maxLat'', ''maxLng''] n) else JBool False))"

definition geoValue :: "filter_env \<Rightarrow> filter_op \<Rightarrow> jval \<Rightarrow> jval" where
  "geoValue E op raw = (let v = (case raw of JStr s \<Rightarrow> geo_text E op s | _ \<Rightarrow> raw) in
     if op = Near then toNear E v else toBox E v)"

section \<open>Columns\<close>

definition SYSTEM_COLS :: "string list" where
  "SYSTEM_COLS = [''id'', ''created_at'', ''updated_at'', ''created_by'', ''updated_by'']"

text \<open>A field's name and type; \<open>silent\<close> are the types that declare no filter operator.\<close>

definition buildAllowedCols :: "string list \<Rightarrow> (string \<times> string) list \<Rightarrow> string list" where
  "buildAllowedCols silent flds = SYSTEM_COLS @ map fst (filter (\<lambda>(n, t). n \<noteq> [] \<and> t \<notin> set silent) flds)"

definition buildLocationCols :: "(string \<times> string) list \<Rightarrow> string list" where
  "buildLocationCols flds = map fst (filter (\<lambda>(n, t). n \<noteq> [] \<and> t = ''location'') flds)"

section \<open>Parsing\<close>

datatype filter_error =
    UnknownField string
  | UnknownOp string string
  | MalformedFilter
  | MalformedKey string
  | NotForField string string
  | MalformedPlace string string
  | ListFilter string

text \<open>
  What is kept of a field: its conditions; \<open>FInherited\<close> is the member every object inherits, which
  is there before the first condition of a field that is called like it.
\<close>

datatype filter_item = FCond filter_op jval | FInherited

type_synonym filters = "(string \<times> filter_item list) list"

definition prev_items :: "string \<Rightarrow> filters \<Rightarrow> filter_item list" where
  "prev_items f fs = (case map_of fs f of Some is \<Rightarrow> is | None \<Rightarrow> if f \<in> set inherited then [FInherited] else [])"

definition add_filter :: "string \<Rightarrow> filter_item \<Rightarrow> filters \<Rightarrow> filters" where
  "add_filter f x fs = set_member f (prev_items f fs @ [x]) fs"

definition geoError :: "string list \<Rightarrow> string \<Rightarrow> string \<Rightarrow> filter_op \<Rightarrow> jval \<Rightarrow> filter_error option" where
  "geoError locs f opname op v =
    (if (if f \<in> set locs then op \<notin> set LOCATION_OPS else op \<in> set GEO_OPS) then Some (NotForField opname f)
     else if op \<in> set GEO_OPS \<and> v = JNull then Some (MalformedPlace opname f)
     else None)"

text \<open>\<open>/^([a-zA-Z_][a-zA-Z0-9_]*)\[([a-zA-Z_]+)\]$/\<close>\<close>

definition ident_char :: "char \<Rightarrow> bool" where "ident_char c \<longleftrightarrow> is_letter c \<or> c = CHR ''_''"

definition bracket_key :: "string \<Rightarrow> (string \<times> string) option" where
  "bracket_key k =
    (let f = takeWhile (\<lambda>c. c \<noteq> CHR ''['') k; r = drop (length f) k; op = butlast (tl r) in
     if f \<noteq> [] \<and> ident_char (hd f) \<and> list_all (\<lambda>c. ident_char c \<or> is_digit c) f
        \<and> 3 \<le> length r \<and> last r = CHR '']'' \<and> list_all ident_char op
     then Some (f, op) else None)"

definition bracket_value :: "filter_env \<Rightarrow> filter_op \<Rightarrow> string \<Rightarrow> jval" where
  "bracket_value E op v =
    (if op \<in> set GEO_OPS then geoValue E op (JStr v)
     else if op = In \<or> op = NotIn then JArr (map JStr (js_split (CHR '','') v))
     else if op \<in> set NUMERIC_OPS \<and> v \<noteq> [] \<and> fe_number E v \<noteq> None then JNum (the (fe_number E v))
     else JStr v)"

definition op_value :: "filter_env \<Rightarrow> filter_op \<Rightarrow> jval \<Rightarrow> jval" where
  "op_value E op v = (if op \<in> set GEO_OPS then geoValue E op v else v)"

definition bracket_param :: "filter_env \<Rightarrow> string list \<Rightarrow> string list \<Rightarrow> string \<times> string \<Rightarrow> filters \<Rightarrow> (filter_error, filters) result" where
  "bracket_param E allowed locs kv fs = (case kv of (k, v) \<Rightarrow>
    (case bracket_key k of
       None \<Rightarrow> if CHR ''['' \<in> set k then Throw (MalformedKey k) else Ok fs
     | Some (f, opname) \<Rightarrow>
         if f \<notin> set allowed then Throw (UnknownField f)
         else (case mapOp opname of
            None \<Rightarrow> Throw (UnknownOp f opname)
          | Some op \<Rightarrow>
              (case geoError locs f opname op (bracket_value E op v) of
                 Some e \<Rightarrow> Throw e
               | None \<Rightarrow> Ok (add_filter f (FCond op (bracket_value E op v)) fs)))))"

fun bracket_params :: "filter_env \<Rightarrow> string list \<Rightarrow> string list \<Rightarrow> (string \<times> string) list \<Rightarrow> filters \<Rightarrow> (filter_error, filters) result" where
  "bracket_params E allowed locs [] fs = Ok fs"
| "bracket_params E allowed locs (kv # kvs) fs =
    (case bracket_param E allowed locs kv fs of Inl e \<Rightarrow> Throw e | Inr fs' \<Rightarrow> bracket_params E allowed locs kvs fs')"

text \<open>The operators of one field of the JSON form.\<close>

fun json_conds :: "filter_env \<Rightarrow> string list \<Rightarrow> string \<Rightarrow> (string \<times> jval) list \<Rightarrow> (filter_error, filter_item list) result" where
  "json_conds E locs f [] = Ok []"
| "json_conds E locs f ((opname, v) # ops) =
    (case mapOp opname of
       None \<Rightarrow> Throw (UnknownOp f opname)
     | Some op \<Rightarrow>
         (case geoError locs f opname op (op_value E op v) of
            Some e \<Rightarrow> Throw e
          | None \<Rightarrow> (case json_conds E locs f ops of
              Inl e \<Rightarrow> Throw e
            | Inr is \<Rightarrow> Ok (FCond op (op_value E op v) # is))))"

definition json_field :: "filter_env \<Rightarrow> string list \<Rightarrow> string \<Rightarrow> jval \<Rightarrow> (filter_error, filter_item list) result" where
  "json_field E locs f v = (case v of
     JArr vs \<Rightarrow> Throw (ListFilter f)
   | JObj ops \<Rightarrow> json_conds E locs f ops
   | _ \<Rightarrow> (case geoError locs f ''eq'' Eq v of Some e \<Rightarrow> Throw e | None \<Rightarrow> Ok [FCond Eq v]))"

fun json_fields :: "filter_env \<Rightarrow> string list \<Rightarrow> string list \<Rightarrow> (string \<times> jval) list \<Rightarrow> filters \<Rightarrow> (filter_error, filters) result" where
  "json_fields E allowed locs [] fs = Ok fs"
| "json_fields E allowed locs ((f, v) # ms) fs =
    (if f \<notin> set allowed then Throw (UnknownField f)
     else (case json_field E locs f v of
        Inl e \<Rightarrow> Throw e
      | Inr is \<Rightarrow> json_fields E allowed locs ms (if is = [] then fs else set_member f is fs)))"

definition parseFilters ::
  "filter_env \<Rightarrow> (string \<times> string) list \<Rightarrow> string \<Rightarrow> string list \<Rightarrow> string list \<Rightarrow> (filter_error, filters) result" where
  "parseFilters E params filterJson allowed locs =
    (case bracket_params E allowed locs params [] of
       Inl e \<Rightarrow> Throw e
     | Inr fs \<Rightarrow>
         if filterJson = [] then Ok fs
         else (case fe_parse E filterJson of
            Some (JObj ms) \<Rightarrow> json_fields E allowed locs ms fs
          | _ \<Rightarrow> Throw MalformedFilter))"

section \<open>What was asked\<close>

text \<open>The conditions a request names for a field, in each format, and whether each can be read.\<close>

definition conds_of :: "filters \<Rightarrow> string \<Rightarrow> filter_item list" where
  "conds_of fs f = (case map_of fs f of None \<Rightarrow> [] | Some is \<Rightarrow> is)"

definition asked_param :: "filter_env \<Rightarrow> string \<Rightarrow> string \<times> string \<Rightarrow> filter_item list" where
  "asked_param E f kv = (case bracket_key (fst kv) of
     Some (g, opname) \<Rightarrow> if g = f then (case mapOp opname of Some op \<Rightarrow> [FCond op (bracket_value E op (snd kv))] | None \<Rightarrow> []) else []
   | None \<Rightarrow> [])"

definition asked_op :: "filter_env \<Rightarrow> string \<times> jval \<Rightarrow> filter_item list" where
  "asked_op E kv = (case mapOp (fst kv) of Some op \<Rightarrow> [FCond op (op_value E op (snd kv))] | None \<Rightarrow> [])"

definition asked_member :: "filter_env \<Rightarrow> jval \<Rightarrow> filter_item list" where
  "asked_member E v = (case v of JObj ops \<Rightarrow> concat (map (asked_op E) ops) | _ \<Rightarrow> [FCond Eq v])"

definition asked_json :: "filter_env \<Rightarrow> (string \<times> jval) list \<Rightarrow> string \<Rightarrow> filter_item list" where
  "asked_json E ms f = (case map_of ms f of None \<Rightarrow> [] | Some v \<Rightarrow> asked_member E v)"

definition applies :: "string list \<Rightarrow> string \<Rightarrow> filter_op \<Rightarrow> jval \<Rightarrow> bool" where
  "applies locs f op v \<longleftrightarrow> (if f \<in> set locs then op \<in> set LOCATION_OPS else op \<notin> set GEO_OPS) \<and> (op \<in> set GEO_OPS \<longrightarrow> v \<noteq> JNull)"

definition readable_param :: "filter_env \<Rightarrow> string list \<Rightarrow> string list \<Rightarrow> string \<times> string \<Rightarrow> bool" where
  "readable_param E allowed locs kv \<longleftrightarrow> (case bracket_key (fst kv) of
     None \<Rightarrow> CHR ''['' \<notin> set (fst kv)
   | Some (f, opname) \<Rightarrow> f \<in> set allowed \<and> (case mapOp opname of None \<Rightarrow> False | Some op \<Rightarrow> applies locs f op (bracket_value E op (snd kv))))"

definition readable_op :: "filter_env \<Rightarrow> string list \<Rightarrow> string \<Rightarrow> string \<times> jval \<Rightarrow> bool" where
  "readable_op E locs f kv \<longleftrightarrow> (case mapOp (fst kv) of None \<Rightarrow> False | Some op \<Rightarrow> applies locs f op (op_value E op (snd kv)))"

definition readable_member :: "filter_env \<Rightarrow> string list \<Rightarrow> string list \<Rightarrow> string \<times> jval \<Rightarrow> bool" where
  "readable_member E allowed locs m \<longleftrightarrow> fst m \<in> set allowed \<and> (case snd m of
     JArr vs \<Rightarrow> False | JObj ops \<Rightarrow> list_all (readable_op E locs (fst m)) ops | v \<Rightarrow> applies locs (fst m) Eq v)"

definition json_members :: "filter_env \<Rightarrow> string \<Rightarrow> (string \<times> jval) list option" where
  "json_members E j = (if j = [] then Some [] else (case fe_parse E j of Some (JObj ms) \<Rightarrow> Some ms | _ \<Rightarrow> None))"

lemma geoError_None: "geoError locs f opname op v = None \<longleftrightarrow> applies locs f op v"
  by (auto simp: geoError_def applies_def)

lemma geoErrorD:
  "geoError locs f opname op v = None \<Longrightarrow> applies locs f op v"
  "geoError locs f opname op v = Some e \<Longrightarrow> \<not> applies locs f op v"
  by (auto simp flip: geoError_None[of locs f opname])

lemma conds_of_set_member [simp]: "conds_of (set_member f is fs) g = (if g = f then is else conds_of fs g)"
  by (simp add: conds_of_def prop_set_member)

lemma conds_of_add:
  "f \<notin> set inherited \<Longrightarrow> conds_of (add_filter f x fs) g = (if g = f then conds_of fs f @ [x] else conds_of fs g)"
  by (auto simp: add_filter_def prev_items_def) (auto simp: conds_of_def split: option.splits)

lemma bracket_param_ok:
  assumes "set allowed \<inter> set inherited = {}"
  shows "(case bracket_param E allowed locs kv fs of
      Inl e \<Rightarrow> \<not> readable_param E allowed locs kv
    | Inr fs' \<Rightarrow> readable_param E allowed locs kv \<and> (\<forall>f. conds_of fs' f = conds_of fs f @ asked_param E f kv))"
proof (cases kv)
  case (Pair k v)
  show ?thesis
  proof (cases "bracket_key k")
    case None
    then show ?thesis by (simp add: Pair bracket_param_def readable_param_def asked_param_def)
  next
    case (Some fo)
    obtain f opname where fo: "fo = (f, opname)" by (cases fo)
    have add: "h \<in> set allowed \<Longrightarrow> conds_of (add_filter h x fs) g = (if g = h then conds_of fs h @ [x] else conds_of fs g)" for h x g
      using assms conds_of_add[of h] by blast
    then show ?thesis using fo add
      by (auto simp: Pair bracket_param_def readable_param_def asked_param_def dest: geoErrorD split: option.splits)
  qed
qed

lemma bracket_params_ok:
  assumes "set allowed \<inter> set inherited = {}"
  shows "(case bracket_params E allowed locs kvs fs of
      Inl e \<Rightarrow> \<not> list_all (readable_param E allowed locs) kvs
    | Inr fs' \<Rightarrow> list_all (readable_param E allowed locs) kvs \<and> (\<forall>f. conds_of fs' f = conds_of fs f @ concat (map (asked_param E f) kvs)))"
proof (induction kvs arbitrary: fs)
  case (Cons kv kvs)
  show ?case
  proof (cases "bracket_param E allowed locs kv fs")
    case (Inl e)
    then show ?thesis using bracket_param_ok[OF assms, of E locs kv fs] by simp
  next
    case (Inr fs')
    then show ?thesis using bracket_param_ok[OF assms, of E locs kv fs] Cons.IH[of fs'] by (auto split: sum.splits)
  qed
qed simp

lemma json_conds_ok:
  "(case json_conds E locs f ops of
      Inl e \<Rightarrow> \<not> list_all (readable_op E locs f) ops
    | Inr is \<Rightarrow> list_all (readable_op E locs f) ops \<and> is = concat (map (asked_op E) ops))"
proof (induction ops)
  case (Cons kv ops)
  then show ?case
    by (cases kv; cases "json_conds E locs f ops")
      (auto simp: readable_op_def asked_op_def dest: geoErrorD split: option.splits)
qed simp

lemma json_field_ok:
  assumes "f \<in> set allowed"
  shows "(case json_field E locs f v of
      Inl e \<Rightarrow> \<not> readable_member E allowed locs (f, v)
    | Inr is \<Rightarrow> readable_member E allowed locs (f, v) \<and> is = asked_member E v)"
proof (cases v)
  case (JObj ops)
  then show ?thesis using assms json_conds_ok[of E locs f ops]
    by (cases "json_conds E locs f ops") (simp_all add: json_field_def readable_member_def asked_member_def)
qed (use assms in \<open>auto simp: json_field_def readable_member_def asked_member_def dest: geoErrorD split: option.splits\<close>)

lemma json_fields_ok:
  assumes "distinct (map fst ms)"
  shows "(case json_fields E allowed locs ms fs of
      Inl e \<Rightarrow> \<not> list_all (readable_member E allowed locs) ms
    | Inr fs' \<Rightarrow> list_all (readable_member E allowed locs) ms
        \<and> (\<forall>f. conds_of fs' f = (if asked_json E ms f = [] then conds_of fs f else asked_json E ms f)))"
  using assms
proof (induction ms arbitrary: fs)
  case Nil
  then show ?case by (simp add: asked_json_def)
next
  case (Cons m ms)
  obtain f v where m: "m = (f, v)" by (cases m)
  have rest: "asked_json E ms f = []" using Cons.prems m by (simp add: asked_json_def map_of_eq_None_iff[THEN iffD2])
  show ?case
  proof (cases "f \<in> set allowed")
    case False
    then show ?thesis by (simp add: m readable_member_def)
  next
    case True
    show ?thesis
    proof (cases "json_field E locs f v")
      case (Inl e)
      then show ?thesis using json_field_ok[OF True, of E locs v] True by (simp add: m)
    next
      case (Inr cs)
      then have cs: "readable_member E allowed locs (f, v)" "cs = asked_member E v" using json_field_ok[OF True, of E locs v] by simp_all
      have here: "asked_json E (m # ms) g = (if g = f then cs else asked_json E ms g)" for g
        by (simp add: asked_json_def m cs(2))
      define fs' where "fs' = (if cs = [] then fs else set_member f cs fs)"
      have acc: "conds_of fs' g = (if g = f \<and> cs \<noteq> [] then cs else conds_of fs g)" for g by (simp add: fs'_def)
      have step: "json_fields E allowed locs (m # ms) fs = json_fields E allowed locs ms fs'" using True Inr by (simp add: m fs'_def)
      show ?thesis
      proof (cases "json_fields E allowed locs ms fs'")
        case (Inl e)
        then show ?thesis using Cons.IH[of fs'] Cons.prems by (simp add: step)
      next
        case (Inr fs'')
        then have "list_all (readable_member E allowed locs) ms"
          "\<And>g. conds_of fs'' g = (if asked_json E ms g = [] then conds_of fs' g else asked_json E ms g)"
          using Cons.IH[of fs'] Cons.prems by simp_all
        moreover have "list_all (readable_member E allowed locs) (m # ms) = list_all (readable_member E allowed locs) ms" using cs(1) m by simp
        ultimately show ?thesis using rest by (simp add: step Inr here acc del: list.pred_inject)
      qed
    qed
  qed
qed

lemma parse_reads:
  assumes "set allowed \<inter> set inherited = {}"
    and "\<And>ms. json_members E filterJson = Some ms \<Longrightarrow> distinct (map fst ms)"
  shows "case parseFilters E params filterJson allowed locs of
      Inl e \<Rightarrow> \<not> list_all (readable_param E allowed locs) params
        \<or> (case json_members E filterJson of None \<Rightarrow> True | Some ms \<Rightarrow> \<not> list_all (readable_member E allowed locs) ms)
    | Inr fs \<Rightarrow> list_all (readable_param E allowed locs) params
        \<and> (\<exists>ms. json_members E filterJson = Some ms \<and> list_all (readable_member E allowed locs) ms
          \<and> (\<forall>f. conds_of fs f = (if asked_json E ms f = [] then concat (map (asked_param E f) params) else asked_json E ms f)))"
proof (cases "bracket_params E allowed locs params []")
  case (Inl e)
  then show ?thesis using bracket_params_ok[OF assms(1), of E locs params "[]"] by (simp add: parseFilters_def)
next
  case (Inr fs)
  then have params: "list_all (readable_param E allowed locs) params" "\<And>f. conds_of fs f = concat (map (asked_param E f) params)"
    using bracket_params_ok[OF assms(1), of E locs params "[]"] by (simp_all add: conds_of_def)
  have none: "json_members E filterJson = None \<Longrightarrow> parseFilters E params filterJson allowed locs = Throw MalformedFilter"
    using Inr by (auto simp: parseFilters_def json_members_def split: if_splits option.splits json.splits)
  have some: "parseFilters E params filterJson allowed locs = json_fields E allowed locs ms fs" if "json_members E filterJson = Some ms" for ms
    using Inr that by (auto simp: parseFilters_def json_members_def split: if_splits option.splits json.splits)
  show ?thesis
  proof (cases "json_members E filterJson")
    case None
    then show ?thesis using none by simp
  next
    case (Some ms)
    then show ?thesis using some[OF Some] json_fields_ok[OF assms(2)[OF Some], of E allowed locs fs] params
      by (cases "json_fields E allowed locs ms fs") simp_all
  qed
qed


text \<open>
  A column called \<open>constructor\<close>, which a field may be: its first bracket is kept behind the
  member every object inherits, which is no condition.
\<close>

definition demo_filter_env :: filter_env where
  "demo_filter_env = \<lparr> fe_parse = (\<lambda>s. Some (JObj [(''qty'', JObj [(''gt'', JNum ''1''), (''lt'', JNum ''9'')])])), fe_number = (\<lambda>s. None),
     fe_le = (\<lambda>a b. True), fe_finite = (\<lambda>a. True) \<rparr>"

lemma inherited_column_is_lost:
  "parseFilters demo_filter_env [(''constructor[eq]'', ''x'')] [] [''constructor''] []
    = Ok [(''constructor'', [FInherited, FCond Eq (JStr ''x'')])]"
  by code_simp


end
