(* ===== verification/FilterSql.thy ===== *)
theory FilterSql
  imports FilterParse
begin

text \<open>
  One filter condition as SQL (\<open>buildCondition\<close> of \<open>db/dynamic.ts\<close>): the escaping of a \<open>LIKE\<close>
  pattern, that the text operators match their value to the letter, and that no filter a request
  got past the parser fails here.
\<close>

section \<open>LIKE\<close>

abbreviation BACKSLASH :: char where "BACKSLASH \<equiv> CHR 0x5C"

definition like_meta :: "char \<Rightarrow> bool" where
  "like_meta c \<longleftrightarrow> c = BACKSLASH \<or> c = CHR ''%'' \<or> c = CHR ''_''"

definition escapeLike :: "string \<Rightarrow> string" where
  "escapeLike s = concat (map (\<lambda>c. if like_meta c then [BACKSLASH, c] else [c]) s)"

text \<open>\<open>LIKE\<close> of Postgres with its default escape character.\<close>

function like_match :: "string \<Rightarrow> string \<Rightarrow> bool" where
  "like_match [] s \<longleftrightarrow> s = []"
| "like_match (c # p) s \<longleftrightarrow>
    (if c = CHR ''%'' then like_match p s \<or> (case s of [] \<Rightarrow> False | x # t \<Rightarrow> like_match (c # p) t)
     else if c = CHR ''_'' then (case s of [] \<Rightarrow> False | x # t \<Rightarrow> like_match p t)
     else if c = BACKSLASH then (case (p, s) of (d # q, x # t) \<Rightarrow> d = x \<and> like_match q t | _ \<Rightarrow> False)
     else (case s of [] \<Rightarrow> False | x # t \<Rightarrow> c = x \<and> like_match p t))"
  by pat_completeness auto
termination by (relation "measure (\<lambda>(p, s). length p + length s)") auto

lemma escapeLike_Cons [simp]: "escapeLike (c # s) = (if like_meta c then [BACKSLASH, c] else [c]) @ escapeLike s"
  by (simp add: escapeLike_def)

lemma escapeLike_Nil [simp]: "escapeLike [] = []"
  by (simp add: escapeLike_def)

lemma like_percent: "like_match (CHR ''%'' # p) s \<longleftrightarrow> (\<exists>a b. s = a @ b \<and> like_match p b)"
proof (induction s)
  case Nil
  then show ?case by simp
next
  case (Cons x s)
  have "(\<exists>a b. x # s = a @ b \<and> like_match p b) \<longleftrightarrow> like_match p (x # s) \<or> (\<exists>a b. s = a @ b \<and> like_match p b)"
    by (auto simp: Cons_eq_append_conv)
  then show ?case using Cons by simp
qed

lemma like_escaped: "like_match (escapeLike v @ p) s \<longleftrightarrow> (\<exists>t. s = v @ t \<and> like_match p t)"
proof (induction v arbitrary: s)
  case (Cons c v)
  then show ?case by (cases s) (auto simp: like_meta_def)
qed simp

declare like_match.simps(2) [simp del]

lemma like_all [simp]: "like_match ''%'' s"
  by (simp add: like_percent)

section \<open>Conditions\<close>

datatype dyn_sql =
    SqlCompare filter_op jval
  | SqlLike string
  | SqlIlike string
  | SqlNotIlike string
  | SqlAny bool "jval list"
  | SqlNull bool
  | SqlNear jval
  | SqlWithin jval

datatype condition_error = BadIdentifier string | BadPlace string | Unsupported string

definition sanitizeIdentifier :: "string \<Rightarrow> (condition_error, string) result" where
  "sanitizeIdentifier s =
    (if s \<noteq> [] \<and> ident_char (hd s) \<and> list_all (\<lambda>c. ident_char c \<or> is_digit c) s \<and> length s \<le> 63
     then Ok s else Throw (BadIdentifier s))"

text \<open>\<open>String(value)\<close>, and a lone value as a list.\<close>

definition like_text :: "jval \<Rightarrow> string" where
  "like_text v = (if v = JNull then ''null'' else js_string v)"

definition as_list :: "jval \<Rightarrow> jval list" where
  "as_list v = (case v of JArr vs \<Rightarrow> vs | _ \<Rightarrow> [v])"

definition condition_of :: "filter_env \<Rightarrow> string \<Rightarrow> filter_op \<Rightarrow> jval \<Rightarrow> (condition_error, dyn_sql) result" where
  "condition_of E key op v = (case op of
     Like \<Rightarrow> Ok (SqlLike (''%'' @ escapeLike (like_text v) @ ''%''))
   | Ilike \<Rightarrow> Ok (SqlIlike (''%'' @ escapeLike (like_text v) @ ''%''))
   | NotContains \<Rightarrow> Ok (SqlNotIlike (''%'' @ escapeLike (like_text v) @ ''%''))
   | StartsWith \<Rightarrow> Ok (SqlIlike (escapeLike (like_text v) @ ''%''))
   | EndsWith \<Rightarrow> Ok (SqlIlike (''%'' @ escapeLike (like_text v)))
   | In \<Rightarrow> Ok (SqlAny True (as_list v))
   | NotIn \<Rightarrow> Ok (SqlAny False (as_list v))
   | IsNull \<Rightarrow> Ok (SqlNull True)
   | NotNull \<Rightarrow> Ok (SqlNull False)
   | Near \<Rightarrow> if toNear E v = JNull then Throw (BadPlace key) else Ok (SqlNear (toNear E v))
   | Within \<Rightarrow> if toBox E v = JNull then Throw (BadPlace key) else Ok (SqlWithin (toBox E v))
   | _ \<Rightarrow> Ok (SqlCompare op v))"

definition buildCondition :: "filter_env \<Rightarrow> string \<Rightarrow> filter_item \<Rightarrow> (condition_error, dyn_sql) result" where
  "buildCondition E key x =
    (case sanitizeIdentifier key of
       Inl e \<Rightarrow> Throw e
     | Inr col \<Rightarrow> (case x of FInherited \<Rightarrow> Throw (Unsupported key) | FCond op v \<Rightarrow> condition_of E key op v))"

text \<open>
  What a text condition says of a column's text, which is missing when the column is NULL; \<open>up\<close> is
  the folding of case \<open>ILIKE\<close> applies to both sides.
\<close>

fun text_eval :: "(char \<Rightarrow> char) \<Rightarrow> string option \<Rightarrow> dyn_sql \<Rightarrow> bool option" where
  "text_eval up cell (SqlLike p) = map_option (like_match p) cell"
| "text_eval up cell (SqlIlike p) = map_option (\<lambda>s. like_match (map up p) (map up s)) cell"
| "text_eval up cell (SqlNotIlike p) =
    (case cell of None \<Rightarrow> Some True | Some s \<Rightarrow> Some (\<not> like_match (map up p) (map up s)))"
| "text_eval up cell _ = None"

definition keeps_metas :: "(char \<Rightarrow> char) \<Rightarrow> bool" where
  "keeps_metas up \<longleftrightarrow> (\<forall>c. (like_meta c \<longrightarrow> up c = c) \<and> (like_meta (up c) \<longrightarrow> like_meta c))"

lemma keepsD:
  assumes "keeps_metas up"
  shows "like_meta c \<Longrightarrow> up c = c" "like_meta (up c) \<longleftrightarrow> like_meta c"
  using assms unfolding keeps_metas_def by (metis, metis)

lemma fold_escaped: "keeps_metas up \<Longrightarrow> map up (escapeLike v) = escapeLike (map up v)"
proof (induction v)
  case (Cons c v)
  have "like_meta BACKSLASH" by (simp add: like_meta_def)
  then show ?case using Cons keepsD[of up] by (cases "like_meta c") simp_all
qed simp

lemma fold_percent: "keeps_metas up \<Longrightarrow> up (CHR ''%'') = CHR ''%''"
  by (simp add: keeps_metas_def like_meta_def)

definition TEXT_OPS :: "filter_op list" where "TEXT_OPS = [Like, Ilike, NotContains, StartsWith, EndsWith]"

text \<open>What the text operators say, to the letter.\<close>

fun says :: "(char \<Rightarrow> char) \<Rightarrow> filter_op \<Rightarrow> string \<Rightarrow> string \<Rightarrow> bool" where
  "says up Like v s \<longleftrightarrow> (\<exists>a b. s = a @ v @ b)"
| "says up Ilike v s \<longleftrightarrow> (\<exists>a b. map up s = a @ map up v @ b)"
| "says up NotContains v s \<longleftrightarrow> \<not> (\<exists>a b. map up s = a @ map up v @ b)"
| "says up StartsWith v s \<longleftrightarrow> (\<exists>b. map up s = map up v @ b)"
| "says up EndsWith v s \<longleftrightarrow> (\<exists>a. map up s = a @ map up v)"
| "says up _ v s \<longleftrightarrow> False"

lemma like_patterns:
  "like_match (CHR ''%'' # escapeLike v @ ''%'') s \<longleftrightarrow> (\<exists>a b. s = a @ v @ b)"
  "like_match (escapeLike v @ ''%'') s \<longleftrightarrow> (\<exists>b. s = v @ b)"
  "like_match (CHR ''%'' # escapeLike v) s \<longleftrightarrow> (\<exists>a. s = a @ v)"
  using like_escaped[of v "[]"] by (auto simp: like_percent like_escaped)

lemma text_ops: "op \<in> set TEXT_OPS \<longleftrightarrow> op = Like \<or> op = Ilike \<or> op = NotContains \<or> op = StartsWith \<or> op = EndsWith"
  by (simp add: TEXT_OPS_def)

text \<open>
  Text operators match to the letter.  A column that is searched for a value with \<open>like\<close>,
  \<open>contains\<close>, \<open>not_contains\<close>, \<open>starts_with\<close> or \<open>ends_with\<close> is kept exactly when its text has the
  value there, up to the folding of case: no character of the value is a wildcard.  An empty
  column is kept by \<open>not_contains\<close> and by no other.
\<close>

theorem text_operators_are_literal:
  assumes "keeps_metas up" "op \<in> set TEXT_OPS" "sanitizeIdentifier key = Ok key"
  shows "\<exists>q. buildCondition E key (FCond op v) = Ok q
    \<and> (\<forall>s. text_eval up (Some s) q = Some (says up op (like_text v) s))
    \<and> text_eval up None q = (if op = NotContains then Some True else None)"
  using assms(2) fold_percent[OF assms(1)] fold_escaped[OF assms(1)]
  unfolding text_ops by (elim disjE) (simp_all add: buildCondition_def condition_of_def like_patterns assms(3))

theorem text_operators_are_literal_witness:
  "\<exists>q. buildCondition demo_filter_env ''sku'' (FCond Ilike (JStr ''A_1'')) = Ok q
    \<and> (\<forall>s. text_eval lower_char (Some s) q = Some (says lower_char Ilike ''A_1'' s)) \<and> text_eval lower_char None q = None"
proof -
  have "keeps_metas lower_char" unfolding keeps_metas_def like_meta_def by code_simp
  from text_operators_are_literal[OF this, of Ilike "''sku''" demo_filter_env "JStr ''A_1''"] show ?thesis
    by (simp add: TEXT_OPS_def sanitizeIdentifier_def ident_char_def is_letter_def is_digit_def like_text_def)
qed

section \<open>Accepted filters build\<close>

lemma toNear_again: "toNear E v \<noteq> JNull \<Longrightarrow> toNear E (toNear E v) = toNear E v"
proof -
  assume "toNear E v \<noteq> JNull"
  then obtain a b r where *: "coordinate E ''90'' (js_member ''lat'' v) = Some a" "coordinate E ''180'' (js_member ''lng'' v) = Some b"
      "radius_of E (js_member ''radius'' v) = Some r"
    by (auto simp: toNear_def split: option.splits)
  then have "coordinate E ''90'' (Some (JNum a)) = Some a" "coordinate E ''180'' (Some (JNum b)) = Some b" "radius_of E (Some (JNum r)) = Some r"
    by (auto elim!: coordinate.elims radius_of.elims split: if_splits)
  with * show ?thesis by (simp add: toNear_def)
qed

lemma toBox_again: "toBox E v \<noteq> JNull \<Longrightarrow> toBox E (toBox E v) = toBox E v"
proof -
  assume "toBox E v \<noteq> JNull"
  then obtain a b c d where *: "coordinate E ''90'' (js_member ''minLat'' v) = Some a" "coordinate E ''90'' (js_member ''maxLat'' v) = Some b"
      "coordinate E ''180'' (js_member ''minLng'' v) = Some c" "coordinate E ''180'' (js_member ''maxLng'' v) = Some d" "num_le E a b" "num_le E c d"
    by (auto simp: toBox_def split: option.splits if_splits)
  then have "coordinate E ''90'' (Some (JNum a)) = Some a" "coordinate E ''90'' (Some (JNum b)) = Some b"
      "coordinate E ''180'' (Some (JNum c)) = Some c" "coordinate E ''180'' (Some (JNum d)) = Some d"
    by (auto elim!: coordinate.elims split: if_splits)
  with * show ?thesis by (simp add: toBox_def)
qed

text \<open>A condition that was asked and applies has, of a place, one that reads back.\<close>

lemma applied_builds:
  assumes "applies locs f op (op_value E op w)" "sanitizeIdentifier f = Ok f"
  shows "\<exists>q. buildCondition E f (FCond op (op_value E op w)) = Ok q"
proof (cases "op \<in> set GEO_OPS")
  case False
  then show ?thesis using assms(2) by (cases op) (simp_all add: buildCondition_def condition_of_def GEO_OPS_def)
next
  case True
  then have "geoValue E op w \<noteq> JNull" using assms(1) by (simp add: applies_def op_value_def)
  with True show ?thesis using assms(2) toNear_again[of E] toBox_again[of E]
    by (auto simp: buildCondition_def condition_of_def op_value_def GEO_OPS_def geoValue_def Let_def split: if_splits)
qed

lemma bracket_op_value: "op \<in> set GEO_OPS \<Longrightarrow> bracket_value E op v = op_value E op (JStr v)"
  by (simp add: bracket_value_def op_value_def)

lemma plain_builds: "op \<notin> set GEO_OPS \<Longrightarrow> sanitizeIdentifier f = Ok f \<Longrightarrow> \<exists>q. buildCondition E f (FCond op w) = Ok q"
  by (cases op) (simp_all add: buildCondition_def condition_of_def GEO_OPS_def)

lemma asked_param_iff:
  "x \<in> set (asked_param E f kv) \<longleftrightarrow> (\<exists>opname op. bracket_key (fst kv) = Some (f, opname) \<and> mapOp opname = Some op
     \<and> x = FCond op (bracket_value E op (snd kv)))"
proof (cases "bracket_key (fst kv)")
  case (Some a)
  then obtain g opname where k: "bracket_key (fst kv) = Some (g, opname)" by (cases a) simp
  then have "asked_param E f kv = (if g = f then (case mapOp opname of Some op \<Rightarrow> [FCond op (bracket_value E op (snd kv))] | None \<Rightarrow> []) else [])"
    unfolding asked_param_def by simp
  then have "asked_param E f kv = (if g = f \<and> mapOp opname \<noteq> None then [FCond (the (mapOp opname)) (bracket_value E (the (mapOp opname)) (snd kv))] else [])"
    by (cases "mapOp opname") simp_all
  then show ?thesis using k by (cases "g = f \<and> mapOp opname \<noteq> None") auto
qed (simp add: asked_param_def)

lemma asked_param_builds:
  assumes "readable_param E allowed locs kv" "x \<in> set (asked_param E f kv)" "sanitizeIdentifier f = Ok f"
  shows "\<exists>q. buildCondition E f x = Ok q"
proof -
  obtain opname op where "bracket_key (fst kv) = Some (f, opname)" "mapOp opname = Some op" and x: "x = FCond op (bracket_value E op (snd kv))"
    using assms(2) unfolding asked_param_iff by blast
  then have "applies locs f op (bracket_value E op (snd kv))" using assms(1) by (simp add: readable_param_def)
  then show ?thesis using applied_builds[of locs f op E "JStr (snd kv)"] plain_builds[of op f E] assms(3) x bracket_op_value[of op E "snd kv"]
    by (cases "op \<in> set GEO_OPS") auto
qed

lemma asked_member_builds:
  assumes "readable_member E allowed locs (f, v)" "x \<in> set (asked_member E v)" "sanitizeIdentifier f = Ok f"
  shows "\<exists>q. buildCondition E f x = Ok q"
proof (cases "\<exists>ops. v = JObj ops")
  case True
  then obtain ops kv where "v = JObj ops" "kv \<in> set ops" "x \<in> set (asked_op E kv)" using assms(2) by (auto simp: asked_member_def)
  moreover from this have "readable_op E locs f kv" using assms(1) by (simp add: readable_member_def list_all_iff)
  ultimately show ?thesis using applied_builds[of locs f _ E] assms(3) by (auto simp: asked_op_def readable_op_def split: option.splits)
next
  case False
  then have "x = FCond Eq v" using assms(2) by (cases v) (auto simp: asked_member_def)
  then show ?thesis using plain_builds[of Eq f E v] assms(3) by (simp add: GEO_OPS_def)
qed



end
