(* ===== verification/ListCursor.thy ===== *)
theory ListCursor
  imports SchemaFiles
begin

text \<open>
  The cursor of a list (\<open>lib/data/query-parse.ts\<close>): a position sealed for one walk, by AES-GCM
  under a key of the instance, with a nonce made of what is sealed.

  The cipher, the MAC, base64url, \<open>JSON.stringify\<close> and \<open>JSON.parse\<close> are given; \<open>keys\<close> derives the two
  keys from the secret, and is missing when there is none.
\<close>

record token_env =
  te_keys :: "(string \<times> string) option"
  te_hmac :: "string \<Rightarrow> string \<Rightarrow> string"
  te_encrypt :: "string \<Rightarrow> string \<Rightarrow> string \<Rightarrow> string \<Rightarrow> string \<times> string"
  te_decrypt :: "string \<Rightarrow> string \<Rightarrow> string \<Rightarrow> string \<Rightarrow> string \<Rightarrow> string option"
  te_json :: "jval \<Rightarrow> string"
  te_parse :: "string \<Rightarrow> jval option"
  te_b64 :: "string \<Rightarrow> string"
  te_unb64 :: "string \<Rightarrow> string"

abbreviation NUL :: char where "NUL \<equiv> CHR 0x00"

datatype token_error = NoSecret

definition sealToken :: "token_env \<Rightarrow> jval \<Rightarrow> string \<Rightarrow> (token_error, string) result" where
  "sealToken E v aad = (case te_keys E of
     None \<Rightarrow> Throw NoSecret
   | Some (enc, ivKey) \<Rightarrow>
       let plain = te_json E v; iv = take 12 (te_hmac E ivKey (aad @ [NUL] @ plain)); (tag, body) = te_encrypt E enc iv aad plain in
       Ok (te_b64 E (iv @ tag @ body)))"

definition openToken :: "token_env \<Rightarrow> string \<Rightarrow> string \<Rightarrow> jval option" where
  "openToken E token aad =
    (let raw = te_unb64 E token in
     if length raw < 29 then None
     else (case te_keys E of
        None \<Rightarrow> None
      | Some (enc, ivKey) \<Rightarrow>
          (case te_decrypt E enc (take 12 raw) aad (take 16 (drop 12 raw)) (drop 28 raw) of
             None \<Rightarrow> None | Some plain \<Rightarrow> te_parse E plain)))"

record cursor_binding =
  cb_collection :: string
  cb_sort :: string
  cb_desc :: bool

definition cursor_aad :: "cursor_binding \<Rightarrow> string" where
  "cursor_aad b = cb_collection b @ [NUL] @ cb_sort b @ [NUL] @ (if cb_desc b then ''d'' else ''a'')"

definition position_json :: "string \<times> jval \<Rightarrow> jval" where
  "position_json p = JObj [(''id'', JStr (fst p)), (''val'', snd p)]"

definition sealCursor :: "token_env \<Rightarrow> string \<times> jval \<Rightarrow> cursor_binding \<Rightarrow> (token_error, string) result" where
  "sealCursor E p b = sealToken E (position_json p) (cursor_aad b)"

definition START_CURSOR :: "token_env \<Rightarrow> string" where
  "START_CURSOR E = te_b64 E ''{\"start\":true}''"

datatype opened = OpenedStart | OpenedAt string jval

definition openCursor :: "token_env \<Rightarrow> string \<Rightarrow> cursor_binding \<Rightarrow> opened option" where
  "openCursor E c b =
    (if c = [] then None
     else if c = START_CURSOR E then Some OpenedStart
     else (case openToken E c (cursor_aad b) of
        Some (JObj ms) \<Rightarrow>
          (case (map_of ms ''id'', map_of ms ''val'') of
             (Some (JStr i), Some v) \<Rightarrow> if i = [] then None else Some (OpenedAt i v)
           | _ \<Rightarrow> None)
      | _ \<Rightarrow> None))"

text \<open>
  What is relied on: a MAC of at least twelve bytes and a tag of sixteen, a ciphertext that opens
  for the data it was bound to and for no other, and codecs that read back what they wrote.
\<close>

definition sound_tokens :: "token_env \<Rightarrow> bool" where
  "sound_tokens E \<longleftrightarrow> te_keys E \<noteq> None \<and> te_unb64 E [] = []
     \<and> (\<forall>k s. 12 \<le> length (te_hmac E k s))
     \<and> (\<forall>k iv a p. length (fst (te_encrypt E k iv a p)) = 16 \<and> snd (te_encrypt E k iv a p) \<noteq> [])
     \<and> (\<forall>k iv a a' p. te_decrypt E k iv a' (fst (te_encrypt E k iv a p)) (snd (te_encrypt E k iv a p)) = (if a' = a then Some p else None))
     \<and> (\<forall>s. te_unb64 E (te_b64 E s) = s)"

lemma binding_aad:
  assumes "NUL \<notin> set (cb_collection b)" "NUL \<notin> set (cb_sort b)" "NUL \<notin> set (cb_collection b')" "NUL \<notin> set (cb_sort b')"
  shows "cursor_aad b' = cursor_aad b \<longleftrightarrow> b' = b"
proof
  assume eq: "cursor_aad b' = cursor_aad b"
  have parts: "js_split NUL (cursor_aad x) = [cb_collection x, cb_sort x, if cb_desc x then ''d'' else ''a'']"
    if "NUL \<notin> set (cb_collection x)" "NUL \<notin> set (cb_sort x)" for x :: cursor_binding
    using that by (simp add: cursor_aad_def js_split_append js_split_no_sep)
  have "[cb_collection b', cb_sort b', if cb_desc b' then ''d'' else ''a''] = [cb_collection b, cb_sort b, if cb_desc b then ''d'' else ''a'']"
    unfolding parts[OF assms(1,2), symmetric] parts[OF assms(3,4), symmetric] eq by (rule refl)
  then have "cb_collection b' = cb_collection b" "cb_sort b' = cb_sort b" "cb_desc b' = cb_desc b" by (simp_all split: if_splits)
  then show "b' = b" by simp
qed simp

lemma sealed_token:
  assumes "sound_tokens E" "te_parse E (te_json E v) = Some v" "sealToken E v aad = Ok c"
  shows "openToken E c aad' = (if aad' = aad then Some v else None)" "29 \<le> length (te_unb64 E c)"
proof -
  obtain enc ivKey where keys: "te_keys E = Some (enc, ivKey)" using assms(1) by (auto simp: sound_tokens_def)
  define iv where "iv = take 12 (te_hmac E ivKey (aad @ [NUL] @ te_json E v))"
  define box where "box = te_encrypt E enc iv aad (te_json E v)"
  have iv: "length iv = 12" using assms(1) by (simp add: iv_def sound_tokens_def)
  have box: "length (fst box) = 16" "snd box \<noteq> []" using assms(1) by (simp_all add: box_def sound_tokens_def)
  have raw: "te_unb64 E c = iv @ fst box @ snd box" using assms keys
    by (auto simp: sealToken_def sound_tokens_def iv_def box_def Let_def split: prod.splits)
  then show "29 \<le> length (te_unb64 E c)" using iv box by (cases "snd box") auto
  then show "openToken E c aad' = (if aad' = aad then Some v else None)"
    using assms(1,2) keys by (simp add: openToken_def raw iv box(1) sound_tokens_def box_def)
qed

text \<open>
  A cursor opens for its walk alone.  A position that was sealed for a collection, a sort column and a
  direction opens to that position for those three, and for no other collection, column or
  direction: there it is no cursor.
\<close>

theorem cursor_opens_for_its_walk:
  assumes "sound_tokens E" "te_parse E (te_json E (position_json (i, v))) = Some (position_json (i, v))"
    and "sealCursor E (i, v) b = Ok c" "i \<noteq> []"
    and "NUL \<notin> set (cb_collection b)" "NUL \<notin> set (cb_sort b)" "NUL \<notin> set (cb_collection b')" "NUL \<notin> set (cb_sort b')"
  shows "openCursor E c b' = (if b' = b then Some (OpenedAt i v) else None)"
proof -
  have token: "sealToken E (position_json (i, v)) (cursor_aad b) = Ok c" using assms(3) by (simp add: sealCursor_def)
  note opens = sealed_token[OF assms(1,2) token]
  have "te_unb64 E [] = []" "te_unb64 E (START_CURSOR E) = ''{\"start\":true}''" using assms(1) by (simp_all add: sound_tokens_def START_CURSOR_def)
  then have "c \<noteq> []" "c \<noteq> START_CURSOR E" using opens(2) by auto
  then show ?thesis using opens(1)[of "cursor_aad b'"] binding_aad[OF assms(5-8)] assms(4) by (simp add: openCursor_def position_json_def)
qed

text \<open>An instance: a box that carries what it was bound to.\<close>

definition demo_box :: "string \<Rightarrow> string \<Rightarrow> string" where
  "demo_box a p = replicate (length a) CHR ''x'' @ [NUL] @ a @ p"

definition demo_open :: "string \<Rightarrow> string \<Rightarrow> string option" where
  "demo_open a b = (let n = length (takeWhile (\<lambda>c. c \<noteq> NUL) b); r = drop (n + 1) b in if take n r = a then Some (drop n r) else None)"

definition demo_tokens :: token_env where
  "demo_tokens = \<lparr> te_keys = Some (''k'', ''i''), te_hmac = (\<lambda>k s. replicate 12 CHR ''m''), te_encrypt = (\<lambda>k iv a p. (replicate 16 CHR ''t'', demo_box a p)),
     te_decrypt = (\<lambda>k iv a tag b. demo_open a b), te_json = (\<lambda>v. ''p''), te_parse = (\<lambda>s. Some (position_json (''7'', JNum ''3''))),
     te_b64 = (\<lambda>s. s), te_unb64 = (\<lambda>s. s) \<rparr>"

lemma demo_open_box: "demo_open a' (demo_box a p) = (if a' = a then Some p else None)"
proof -
  have "takeWhile (\<lambda>c. c \<noteq> NUL) (replicate n CHR ''x'' @ NUL # r) = replicate n CHR ''x''" for n r
    by (induction n) simp_all
  then show ?thesis by (auto simp: demo_open_def demo_box_def)
qed

theorem cursor_opens_for_its_walk_witness:
  "\<exists>c. sealCursor demo_tokens (''7'', JNum ''3'') \<lparr> cb_collection = ''zvd_orders'', cb_sort = ''qty'', cb_desc = True \<rparr> = Ok c
    \<and> openCursor demo_tokens c \<lparr> cb_collection = ''zvd_orders'', cb_sort = ''qty'', cb_desc = True \<rparr> = Some (OpenedAt ''7'' (JNum ''3''))
    \<and> openCursor demo_tokens c \<lparr> cb_collection = ''zvd_orders'', cb_sort = ''secret'', cb_desc = True \<rparr> = None"
proof -
  let ?b = "\<lparr> cb_collection = ''zvd_orders'', cb_sort = ''qty'', cb_desc = True \<rparr>"
  have sound: "sound_tokens demo_tokens" by (simp add: sound_tokens_def demo_tokens_def demo_open_box) (simp add: demo_box_def)
  have reads: "te_parse demo_tokens (te_json demo_tokens (position_json (''7'', JNum ''3''))) = Some (position_json (''7'', JNum ''3''))"
    by (simp add: demo_tokens_def)
  obtain c where c: "sealCursor demo_tokens (''7'', JNum ''3'') ?b = Ok c" by (simp add: sealCursor_def sealToken_def demo_tokens_def Let_def)
  from cursor_opens_for_its_walk[OF sound reads c] have
    "NUL \<notin> set (cb_collection b') \<Longrightarrow> NUL \<notin> set (cb_sort b') \<Longrightarrow> openCursor demo_tokens c b' = (if b' = ?b then Some (OpenedAt ''7'' (JNum ''3'')) else None)" for b'
    by simp
  from this[of ?b] this[of "?b\<lparr> cb_sort := ''secret'' \<rparr>"] c show ?thesis by simp
qed

end
