(* ===== verification/SyncPull.thy ===== *)
theory SyncPull
  imports ListCursor Digits "HOL-Library.List_Lexorder" "HOL-Library.Product_Lexorder"
begin

text \<open>
  The pull of the sync endpoint (\<open>routes/sync.ts\<close>): the watermark, the position a client holds, and the
  page of rows and tombstones of one collection after it.

  Times are microseconds since 1970.  A row is its id, its \<open>updated_at\<close> and the rest, a tombstone its time
  and the id.  The read gate of a collection is what row rules let through in SQL, what entity access keeps,
  and the shape the caller gets.
\<close>

record 'd sync_row =
  sy_id :: string
  sy_us :: int
  sy_data :: 'd

type_synonym sync_key = "int \<times> string"

definition sync_key :: "'d sync_row \<Rightarrow> sync_key" where
  "sync_key r = (sy_us r, sy_id r)"

record ('d, 'v) read_gate =
  rg_rule :: "'d sync_row \<Rightarrow> bool"
  rg_keep :: "'d sync_row \<Rightarrow> bool"
  rg_shape :: "'d sync_row \<Rightarrow> 'v"

section \<open>The watermark\<close>

text \<open>
  A transaction is open in a session this role may inspect, in one it may not, or is prepared; it has the time it
  started.  Below the watermark every row is final.
\<close>

datatype txn_kind = ClientTxn | ForeignTxn | PreparedTxn

definition syncWatermarkUs :: "int \<Rightarrow> (nat \<times> txn_kind \<times> int) list \<Rightarrow> int" where
  "syncWatermarkUs clock open_txns =
    (if list_ex (\<lambda>(t, k, s). k \<noteq> ClientTxn) open_txns then 0 else fold (\<lambda>(t, k, s) w. min s w) open_txns clock)"

definition SYNC_TOMBSTONE_RETENTION :: int where
  "SYNC_TOMBSTONE_RETENTION = 30 * 86400000000"

section \<open>Positions\<close>

text \<open>Where deletes are complete from, and the key of the last row read.\<close>

record sync_position =
  sp_del :: int
  sp_us :: int
  sp_id :: string

definition int_text :: "int \<Rightarrow> string" where
  "int_text n = (if n < 0 then CHR ''-'' # dec (nat (- n)) else dec (nat n))"

definition big_int :: "string \<Rightarrow> int" where
  "big_int s = (case s of c # t \<Rightarrow> if c = CHR ''-'' then - int (numeral_value 10 t) else int (numeral_value 10 s) | [] \<Rightarrow> 0)"

definition short_digits :: "nat \<Rightarrow> string \<Rightarrow> bool" where
  "short_digits k s \<longleftrightarrow> s \<noteq> [] \<and> length s \<le> k \<and> list_all is_digit s"

definition syncCursorAad :: "string \<Rightarrow> string" where
  "syncCursorAad c = ''sync'' @ [NUL] @ c"

definition position_value :: "sync_position \<Rightarrow> jval" where
  "position_value p = JObj [(''del'', JStr (int_text (sp_del p))), (''us'', JStr (int_text (sp_us p))), (''id'', JStr (sp_id p))]"

definition read_position :: "jval \<Rightarrow> sync_position option" where
  "read_position v = (case (js_member ''del'' v, js_member ''us'' v, js_member ''id'' v) of
     (Some (JStr d), Some (JStr u), Some (JStr i)) \<Rightarrow>
       if short_digits 18 d \<and> short_digits 19 (if starts_with ''-'' u then tl u else u) \<and> i \<noteq> []
       then Some \<lparr> sp_del = big_int d, sp_us = big_int u, sp_id = i \<rparr> else None
   | _ \<Rightarrow> None)"

definition sealPosition :: "token_env \<Rightarrow> string \<Rightarrow> sync_position \<Rightarrow> (token_error, string) result" where
  "sealPosition E c p = sealToken E (position_value p) (syncCursorAad c)"

definition openPosition :: "token_env \<Rightarrow> string \<Rightarrow> string \<Rightarrow> sync_position option" where
  "openPosition E c token = (case openToken E token (syncCursorAad c) of None \<Rightarrow> None | Some v \<Rightarrow> read_position v)"

section \<open>A page\<close>

definition PULL_LIMIT :: nat where "PULL_LIMIT = 1000"

definition past :: "sync_position option \<Rightarrow> sync_key \<Rightarrow> bool" where
  "past p k \<longleftrightarrow> (case p of None \<Rightarrow> True | Some q \<Rightarrow> (sp_us q, sp_id q) < k)"

definition pull_rows :: "('d, 'v) read_gate \<Rightarrow> int \<Rightarrow> sync_position option \<Rightarrow> 'd sync_row list \<Rightarrow> 'd sync_row list" where
  "pull_rows gate w p rows = take (PULL_LIMIT + 1)
     (sort_key sync_key (filter (\<lambda>r. rg_rule gate r \<and> past p (sync_key r) \<and> sy_us r < w) rows))"

definition pull_stones :: "int \<Rightarrow> sync_position option \<Rightarrow> sync_key list \<Rightarrow> sync_key list" where
  "pull_stones w p stones = (if p = None then []
     else take (PULL_LIMIT + 1) (sort (filter (\<lambda>t. past p t \<and> fst t < w) stones)))"

datatype 'd pull_item = PRow "'d sync_row" | PStone sync_key

primrec item_key :: "'d pull_item \<Rightarrow> sync_key" where
  "item_key (PRow r) = sync_key r"
| "item_key (PStone t) = t"

definition merge_items :: "'d sync_row list \<Rightarrow> sync_key list \<Rightarrow> 'd pull_item list" where
  "merge_items rows stones =
    sort_key item_key (map PRow rows @ map PStone (filter (\<lambda>t. t \<notin> set (map sync_key rows)) stones))"

datatype 'v sync_change = Upsert string 'v | Remove string

definition changes_of :: "('d, 'v) read_gate \<Rightarrow> 'd pull_item list \<Rightarrow> 'v sync_change list" where
  "changes_of gate items = concat (map (\<lambda>item. case item of
      PStone t \<Rightarrow> [Remove (snd t)]
    | PRow r \<Rightarrow> if rg_keep gate r then [Upsert (sy_id r) (rg_shape gate r)] else []) items)"

record 'v pull_answer =
  pa_changes :: "'v sync_change list"
  pa_cursor :: "string option"
  pa_full :: bool
  pa_resync :: bool

text \<open>
  One collection: \<open>horizon\<close> is the oldest position whose deletes are all kept, \<open>w\<close> the watermark, \<open>rows\<close> and
  \<open>stones\<close> the tables as the two statements see them.
\<close>

definition start_position :: "token_env \<Rightarrow> string \<Rightarrow> int \<Rightarrow> string option \<Rightarrow> sync_position option \<times> bool" where
  "start_position E c horizon token = (case token of
     None \<Rightarrow> (None, False)
   | Some t \<Rightarrow> (case openPosition E c t of
        None \<Rightarrow> (None, True)
      | Some p \<Rightarrow> if sp_del p < horizon then (None, True) else (Some p, False)))"

definition pull_items :: "('d, 'v) read_gate \<Rightarrow> int \<Rightarrow> sync_position option \<Rightarrow> 'd sync_row list \<Rightarrow> sync_key list \<Rightarrow> 'd pull_item list" where
  "pull_items gate w p rows stones = merge_items (pull_rows gate w p rows) (pull_stones w p stones)"

definition next_position :: "int \<Rightarrow> sync_position option \<Rightarrow> 'd pull_item list \<Rightarrow> sync_position option" where
  "next_position w p items =
    (let full = PULL_LIMIT < length items; page = take PULL_LIMIT items;
         owed = (if full \<or> w = 0 then (case p of None \<Rightarrow> w | Some q \<Rightarrow> sp_del q) else w) in
     if page = [] then map_option (\<lambda>q. q\<lparr> sp_del := owed \<rparr>) p
     else Some \<lparr> sp_del = owed, sp_us = fst (item_key (last page)), sp_id = snd (item_key (last page)) \<rparr>)"

definition pull_collection ::
  "token_env \<Rightarrow> ('d, 'v) read_gate \<Rightarrow> string \<Rightarrow> int \<Rightarrow> int \<Rightarrow> string option \<Rightarrow> 'd sync_row list \<Rightarrow> sync_key list \<Rightarrow>
   (token_error, 'v pull_answer) result" where
  "pull_collection E gate c horizon w token rows stones =
    (case start_position E c horizon token of (p, resync) \<Rightarrow>
      let items = pull_items gate w p rows stones;
          answer = \<lparr> pa_changes = changes_of gate (take PULL_LIMIT items), pa_cursor = None,
                     pa_full = (PULL_LIMIT < length items), pa_resync = resync \<rparr> in
      (case next_position w p items of
         None \<Rightarrow> Ok answer
       | Some q \<Rightarrow> (case sealPosition E c q of Inl e \<Rightarrow> Throw e | Inr t \<Rightarrow> Ok (answer\<lparr> pa_cursor := Some t \<rparr>))))"

section \<open>A request\<close>

text \<open>
  What a request finds of each collection it names: whether it is registered and the caller may read it; its rows,
  missing when the table or its \<open>updated_at\<close> is; and its tombstones.
\<close>

record ('d, 'v) pull_source =
  ps_name :: string
  ps_registered :: bool
  ps_canRead :: bool
  ps_gate :: "('d, 'v) read_gate"
  ps_rows :: "'d sync_row list option"
  ps_stones :: "sync_key list"

datatype pull_error = TooManyCollections | Token token_error

fun pull_sources ::
  "token_env \<Rightarrow> int \<Rightarrow> int \<Rightarrow> (string \<rightharpoonup> string) \<Rightarrow> ('d, 'v) pull_source list \<Rightarrow> (token_error, (string \<times> 'v pull_answer) list) result" where
  "pull_sources E horizon w cursors [] = Ok []"
| "pull_sources E horizon w cursors (s # ss) =
    (case pull_sources E horizon w cursors ss of
       Inl e \<Rightarrow> Throw e
     | Inr rest \<Rightarrow>
         (case (ps_registered s \<and> ps_canRead s, ps_rows s) of
            (False, _) \<Rightarrow> Ok rest
          | (True, None) \<Rightarrow> Ok ((ps_name s, \<lparr> pa_changes = [], pa_cursor = None, pa_full = False,
              pa_resync = snd (start_position E (ps_name s) horizon (cursors (ps_name s))) \<rparr>) # rest)
          | (True, Some rows) \<Rightarrow>
              (case pull_collection E (ps_gate s) (ps_name s) horizon w (cursors (ps_name s)) rows (ps_stones s) of
                 Inl e \<Rightarrow> Throw e
               | Inr a \<Rightarrow> Ok ((ps_name s, a) # rest))))"

definition pull_request ::
  "token_env \<Rightarrow> int \<Rightarrow> int \<Rightarrow> (string \<rightharpoonup> string) \<Rightarrow> ('d, 'v) pull_source list \<Rightarrow> (pull_error, (string \<times> 'v pull_answer) list) result" where
  "pull_request E horizon w cursors sources =
    (if 20 < length sources then Throw TooManyCollections
     else (case pull_sources E horizon w cursors sources of Inl e \<Rightarrow> Throw (Token e) | Inr r \<Rightarrow> Ok r))"

definition hasMore :: "(string \<times> 'v pull_answer) list \<Rightarrow> bool" where
  "hasMore answers = list_ex (\<lambda>(c, a). pa_full a) answers"

section \<open>Positions read back\<close>

definition in_range :: "sync_position \<Rightarrow> bool" where
  "in_range p \<longleftrightarrow> 0 \<le> sp_del p \<and> sp_del p < 10 ^ 18 \<and> \<bar>sp_us p\<bar> < 10 ^ 19 \<and> sp_id p \<noteq> []"

lemma dec_short: "n < 10 ^ Suc k \<Longrightarrow> short_digits (Suc k) (dec n)"
  using radix_length[of n 10 k] dec_digits[of n] by (simp add: short_digits_def)

lemma dec_hd: "dec n \<noteq> [] \<and> hd (dec n) \<noteq> CHR ''-''"
proof -
  have "is_digit (hd (dec n))" using dec_digit[of "hd (dec n)" n] by simp
  then show ?thesis by (auto simp: is_digit_def)
qed

lemma int_text_reads: "big_int (int_text n) = n"
proof (cases "n < 0")
  case False
  obtain c t where "dec (nat n) = c # t" by (cases "dec (nat n)") auto
  then show ?thesis using False dec_hd[of "nat n"] numeral_radix[of 10 "nat n"] by (auto simp: big_int_def int_text_def)
qed (simp add: big_int_def int_text_def numeral_radix)

lemma int_text_short:
  assumes "\<bar>n\<bar> < 10 ^ Suc k"
  shows "short_digits (Suc k) (if starts_with ''-'' (int_text n) then tl (int_text n) else int_text n)"
proof (cases "n < 0")
  case True
  have "nat (- n) < 10 ^ Suc k" using assms True by (simp add: nat_less_iff)
  from dec_short[OF this] show ?thesis using True by (simp add: int_text_def starts_with_def)
next
  case False
  have "nat n < 10 ^ Suc k" using assms False by (simp add: nat_less_iff)
  from dec_short[OF this] show ?thesis using False dec_hd[of "nat n"]
    by (cases "dec (nat n)") (auto simp: int_text_def starts_with_def)
qed

lemma read_position_value:
  assumes "in_range p"
  shows "read_position (position_value p) = Some p"
proof -
  have del: "0 \<le> sp_del p" "\<bar>sp_del p\<bar> < 10 ^ Suc 17" and us: "\<bar>sp_us p\<bar> < 10 ^ Suc 18" and i: "sp_id p \<noteq> []"
    using assms by (simp_all add: in_range_def)
  have "nat (sp_del p) < 10 ^ Suc 17" using del by (simp add: nat_less_iff)
  from dec_short[OF this] have "short_digits 18 (int_text (sp_del p))" using del(1) by (simp add: int_text_def)
  moreover have "short_digits 19 (if starts_with ''-'' (int_text (sp_us p)) then tl (int_text (sp_us p)) else int_text (sp_us p))"
    using int_text_short[OF us] by simp
  ultimately show ?thesis using i by (simp add: read_position_def position_value_def int_text_reads)
qed

definition readable_positions :: "token_env \<Rightarrow> bool" where
  "readable_positions E \<longleftrightarrow> sound_tokens E \<and> (\<forall>p. te_parse E (te_json E (position_value p)) = Some (position_value p))"

lemma sealed_position:
  assumes "readable_positions E" "in_range p" "sealPosition E c p = Ok t"
  shows "openPosition E c t = Some p"
proof -
  have "sound_tokens E" "te_parse E (te_json E (position_value p)) = Some (position_value p)"
    using assms(1) by (simp_all add: readable_positions_def)
  from sealed_token(1)[OF this] show ?thesis
    using assms(2,3) by (simp add: sealPosition_def openPosition_def read_position_value)
qed

end
