(* ===== verification/SyncPages.thy ===== *)
theory SyncPages
  imports SyncPull
begin

text \<open>
  What a page of a pull holds: its items are rows and tombstones past the position and below the watermark, in
  the order of their keys, and nothing of either up to the position it ends at is left out.
\<close>

section \<open>Cutting sorted lists\<close>

lemma take_below:
  fixes f :: "'a \<Rightarrow> 'k::linorder"
  assumes "sorted (map f xs)" "n \<le> length (filter (\<lambda>x. f x < k) xs)" "x \<in> set (take n xs)"
  shows "f x < k"
  using assms
proof (induction xs arbitrary: n)
  case (Cons y ys)
  show ?case
  proof (cases "f y < k")
    case True
    then have "n - 1 \<le> length (filter (\<lambda>x. f x < k) ys)" using Cons.prems(2) by simp
    then show ?thesis using Cons.IH[of "n - 1"] Cons.prems(1,3) True by (cases n) auto
  next
    case False
    then have "filter (\<lambda>x. f x < k) (y # ys) = []" using Cons.prems(1) by (auto simp: filter_empty_conv)
    then show ?thesis using Cons.prems(2,3) by simp
  qed
qed simp

lemma take_misses:
  assumes "sorted (map f xs)" "x \<in> set xs" "x \<notin> set (take n xs)" "y \<in> set (take n xs)"
  shows "f y \<le> f x" "n < length xs"
proof -
  have "x \<in> set (drop n xs)" using assms(2,3) by (metis Un_iff append_take_drop_id set_append)
  moreover have "sorted (map f (take n xs) @ map f (drop n xs))" using assms(1) by (simp flip: map_append)
  ultimately show "f y \<le> f x" using assms(4) by (auto simp: sorted_append)
  show "n < length xs" using \<open>x \<in> set (drop n xs)\<close> by (cases "n < length xs") auto
qed

lemma sorted_take_last:
  assumes "sorted (map f xs)" "x \<in> set xs"
  shows "f x \<le> f (last xs)"
proof -
  have "xs = butlast xs @ [last xs]" using assms(2) by (cases xs) auto
  then have "sorted (map f (butlast xs) @ [f (last xs)])" "x \<in> set (butlast xs) \<or> x = last xs"
    using assms by (metis (no_types) list.simps(8,9) map_append, metis assms(2) Un_iff set_append set_ConsD set_empty empty_iff)
  then show ?thesis by (auto simp: sorted_append)
qed

section \<open>The items of a pull\<close>

definition row_due :: "('d, 'v) read_gate \<Rightarrow> int \<Rightarrow> sync_position option \<Rightarrow> 'd sync_row \<Rightarrow> bool" where
  "row_due gate w p r \<longleftrightarrow> rg_rule gate r \<and> past p (sync_key r) \<and> sy_us r < w"

definition stone_due :: "int \<Rightarrow> sync_position option \<Rightarrow> sync_key \<Rightarrow> bool" where
  "stone_due w p t \<longleftrightarrow> p \<noteq> None \<and> past p t \<and> fst t < w"

lemma pull_rows_due: "r \<in> set (pull_rows gate w p rows) \<Longrightarrow> r \<in> set rows \<and> row_due gate w p r"
  by (auto simp: pull_rows_def row_due_def dest!: in_set_takeD)

lemma pull_stones_due: "t \<in> set (pull_stones w p stones) \<Longrightarrow> t \<in> set stones \<and> stone_due w p t"
  by (auto simp: pull_stones_def stone_due_def split: if_splits dest!: in_set_takeD)

lemma items_sorted: "sorted (map item_key (pull_items gate w p rows stones))"
  by (simp add: pull_items_def merge_items_def)

lemma set_pull_items:
  "set (pull_items gate w p rows stones) = PRow ` set (pull_rows gate w p rows)
     \<union> PStone ` {t \<in> set (pull_stones w p stones). t \<notin> sync_key ` set (pull_rows gate w p rows)}"
  by (auto simp: pull_items_def merge_items_def)

lemma item_due:
  "PRow r \<in> set (pull_items gate w p rows stones) \<Longrightarrow> r \<in> set rows \<and> row_due gate w p r"
  "PStone t \<in> set (pull_items gate w p rows stones) \<Longrightarrow> t \<in> set stones \<and> stone_due w p t"
  by (auto simp: set_pull_items dest: pull_rows_due pull_stones_due)

lemma item_past: "x \<in> set (pull_items gate w p rows stones) \<Longrightarrow> past p (item_key x) \<and> fst (item_key x) < w"
  by (cases x) (auto dest!: item_due simp: row_due_def stone_due_def sync_key_def)

text \<open>Keys tell items apart.\<close>

lemma row_keys_inj:
  assumes "distinct (map sy_id rows)" "r \<in> set rows" "q \<in> set rows" "sync_key r = sync_key q"
  shows "r = q"
  using assms by (auto simp: sync_key_def distinct_map inj_on_def)

lemma fetched_rows: "pull_rows gate w p rows = take (PULL_LIMIT + 1) (sort_key sync_key (filter (row_due gate w p) rows))"
proof -
  have "row_due gate w p = (\<lambda>r. rg_rule gate r \<and> past p (sync_key r) \<and> sy_us r < w)" by (simp add: row_due_def fun_eq_iff)
  then show ?thesis by (simp add: pull_rows_def)
qed

lemma fetched_stones: "p \<noteq> None \<Longrightarrow> pull_stones w p stones = take (PULL_LIMIT + 1) (sort (filter (stone_due w p) stones))"
proof -
  assume p: "p \<noteq> None"
  then have "stone_due w p = (\<lambda>t. past p t \<and> fst t < w)" by (simp add: stone_due_def fun_eq_iff)
  then show ?thesis unfolding pull_stones_def by (simp only: p if_False)
qed

lemma row_ids_keys: "distinct (map sy_id rows) \<Longrightarrow> distinct (map sync_key rows)"
  by (auto simp: distinct_map inj_on_def sync_key_def)

lemma fetched_keys: "distinct (map sy_id rows) \<Longrightarrow> distinct (map sync_key (pull_rows gate w p rows))"
proof -
  assume "distinct (map sy_id rows)"
  then have "distinct (map sync_key rows)" by (rule row_ids_keys)
  then have "distinct (map sync_key (sort_key sync_key (filter (row_due gate w p) rows)))" by (auto simp: distinct_map inj_on_def)
  then show ?thesis unfolding fetched_rows by (simp only: take_map[symmetric] distinct_take)
qed

lemma item_cases:
  assumes "x \<in> set (pull_items gate w p rows stones)"
  obtains r where "x = PRow r" "r \<in> set (pull_rows gate w p rows)"
    | t where "x = PStone t" "t \<in> set (pull_stones w p stones)" "t \<notin> sync_key ` set (pull_rows gate w p rows)"
  using assms unfolding set_pull_items by blast

lemma item_keys_inj:
  assumes "distinct (map sy_id rows)" "x \<in> set (pull_items gate w p rows stones)" "y \<in> set (pull_items gate w p rows stones)"
    and "item_key x = item_key y"
  shows "x = y"
proof (rule item_cases[OF assms(2)]; rule item_cases[OF assms(3)])
  fix r q assume "x = PRow r" "r \<in> set (pull_rows gate w p rows)" "y = PRow q" "q \<in> set (pull_rows gate w p rows)"
  then show "x = y" using row_keys_inj[OF assms(1), of r q] assms(4) by (simp add: pull_rows_due)
qed (use assms(4) in \<open>auto simp: image_iff\<close>)

lemma stones_covered:
  assumes "t \<in> set (pull_stones w p stones)"
  shows "\<exists>x \<in> set (pull_items gate w p rows stones). item_key x = t"
proof (cases "t \<in> sync_key ` set (pull_rows gate w p rows)")
  case True
  then obtain r where "r \<in> set (pull_rows gate w p rows)" "t = sync_key r" by blast
  then show ?thesis by (intro bexI[of _ "PRow r"]) (simp_all add: set_pull_items)
next
  case False
  then show ?thesis using assms by (intro bexI[of _ "PStone t"]) (simp_all add: set_pull_items)
qed

lemma many_below:
  assumes "distinct ks" "\<And>k. k \<in> set ks \<Longrightarrow> k < b \<and> (\<exists>x \<in> set xs. f x = k)"
  shows "length ks \<le> length (filter (\<lambda>x. f x < b) xs)"
proof -
  have "set ks \<subseteq> f ` set (filter (\<lambda>x. f x < b) xs)" using assms(2) by fastforce
  then have "card (set ks) \<le> card (set (filter (\<lambda>x. f x < b) xs))" by (metis card_image_le card_mono finite_imageI List.finite_set order_trans)
  then show ?thesis using distinct_card[OF assms(1)] card_length[of "filter (\<lambda>x. f x < b) xs"] by simp
qed

text \<open>A key that is due and not among the items comes after all of the page.\<close>

lemma enough_below:
  assumes "PULL_LIMIT + 1 \<le> length (filter (\<lambda>x. item_key x < k) (pull_items gate w p rows stones))"
  shows "PULL_LIMIT < length (pull_items gate w p rows stones)"
    "x \<in> set (take PULL_LIMIT (pull_items gate w p rows stones)) \<Longrightarrow> item_key x < k"
proof -
  have "length (filter (\<lambda>x. item_key x < k) (pull_items gate w p rows stones)) \<le> length (pull_items gate w p rows stones)"
    by (rule length_filter_le)
  then show "PULL_LIMIT < length (pull_items gate w p rows stones)" using assms by linarith
  show "x \<in> set (take PULL_LIMIT (pull_items gate w p rows stones)) \<Longrightarrow> item_key x < k"
    by (rule take_below[OF items_sorted]) (use assms in simp_all)
qed

lemma unfetched:
  assumes "sorted (map f xs)" "inj_on f (set xs)" "x \<in> set xs" "x \<notin> set (take n xs)"
  shows "length (take n xs) = n" "y \<in> set (take n xs) \<Longrightarrow> f y < f x"
proof -
  show "length (take n xs) = n" using assms(3,4) by (cases "n < length xs") auto
  assume y: "y \<in> set (take n xs)"
  then have "f y \<noteq> f x" using assms(2-4) by (metis in_set_takeD inj_onD)
  then show "f y < f x" using take_misses(1)[OF assms(1,3,4) y] by simp
qed

lemma row_after_page:
  assumes "distinct (map sy_id rows)" "r \<in> set rows" "row_due gate w p r" "r \<notin> set (pull_rows gate w p rows)"
  shows "PULL_LIMIT + 1 \<le> length (filter (\<lambda>x. item_key x < sync_key r) (pull_items gate w p rows stones))"
proof -
  let ?due = "sort_key sync_key (filter (row_due gate w p) rows)"
  have inj: "inj_on sync_key (set ?due)" using row_ids_keys[OF assms(1)] by (auto simp: distinct_map inj_on_def)
  have r: "r \<in> set ?due" "r \<notin> set (take (PULL_LIMIT + 1) ?due)" using assms(2-4) by (simp_all add: fetched_rows)
  note missed = unfetched[OF _ inj r, folded fetched_rows]
  have "length (map sync_key (pull_rows gate w p rows)) \<le> length (filter (\<lambda>x. item_key x < sync_key r) (pull_items gate w p rows stones))"
  proof (rule many_below[OF fetched_keys[OF assms(1)]])
    fix k assume "k \<in> set (map sync_key (pull_rows gate w p rows))"
    then obtain q where q: "q \<in> set (pull_rows gate w p rows)" "k = sync_key q" by auto
    then have "PRow q \<in> set (pull_items gate w p rows stones)" by (simp add: set_pull_items)
    then show "k < sync_key r \<and> (\<exists>x \<in> set (pull_items gate w p rows stones). item_key x = k)"
      using missed(2)[of q] q by (metis item_key.simps(1) sorted_sort_key)
  qed
  then show ?thesis using missed(1) by simp
qed

lemma stone_after_page:
  assumes "distinct stones" "t \<in> set stones" "stone_due w p t" "t \<notin> set (pull_stones w p stones)"
  shows "PULL_LIMIT + 1 \<le> length (filter (\<lambda>x. item_key x < t) (pull_items gate w p rows stones))"
proof -
  let ?due = "sort (filter (stone_due w p) stones)"
  have p: "p \<noteq> None" using assms(3) by (simp add: stone_due_def)
  have t: "t \<in> set ?due" "t \<notin> set (take (PULL_LIMIT + 1) ?due)" using assms(2-4) by (simp_all add: fetched_stones[OF p])
  have "distinct ?due" using assms(1) by simp
  then have dist: "distinct (pull_stones w p stones)" unfolding fetched_stones[OF p] by (rule distinct_take)
  have sorted: "sorted (map (\<lambda>k. k) ?due)" by simp
  note missed = unfetched[OF sorted _ t, folded fetched_stones[OF p]]
  have "length (pull_stones w p stones) \<le> length (filter (\<lambda>x. item_key x < t) (pull_items gate w p rows stones))"
    by (rule many_below[OF dist]) (use missed(2) stones_covered in \<open>force simp: inj_on_def\<close>)
  then show ?thesis using missed(1) by (simp add: inj_on_def)
qed

section \<open>Nothing is left out\<close>

definition page_of :: "('d, 'v) read_gate \<Rightarrow> int \<Rightarrow> sync_position option \<Rightarrow> 'd sync_row list \<Rightarrow> sync_key list \<Rightarrow> 'd pull_item list" where
  "page_of gate w p rows stones = take PULL_LIMIT (pull_items gate w p rows stones)"

definition full_page :: "('d, 'v) read_gate \<Rightarrow> int \<Rightarrow> sync_position option \<Rightarrow> 'd sync_row list \<Rightarrow> sync_key list \<Rightarrow> bool" where
  "full_page gate w p rows stones \<longleftrightarrow> PULL_LIMIT < length (pull_items gate w p rows stones)"

lemma page_items: "x \<in> set (page_of gate w p rows stones) \<Longrightarrow> x \<in> set (pull_items gate w p rows stones)"
  unfolding page_of_def by (rule in_set_takeD)

lemma item_beyond:
  assumes "distinct (map sy_id rows)" "x \<in> set (pull_items gate w p rows stones)" "x \<notin> set (page_of gate w p rows stones)"
  shows "full_page gate w p rows stones" "y \<in> set (page_of gate w p rows stones) \<Longrightarrow> item_key y < item_key x"
proof -
  have "inj_on item_key (set (pull_items gate w p rows stones))" using item_keys_inj[OF assms(1)] by (rule inj_onI)
  note beyond = unfetched[OF items_sorted this assms(2) assms(3)[unfolded page_of_def], folded page_of_def]
  show "y \<in> set (page_of gate w p rows stones) \<Longrightarrow> item_key y < item_key x" by (rule beyond(2))
  have "pull_items gate w p rows stones \<noteq> page_of gate w p rows stones" using assms(2,3) by auto
  then show "full_page gate w p rows stones" unfolding page_of_def full_page_def by (metis not_less take_all)
qed

lemma row_beyond:
  assumes "distinct (map sy_id rows)" "r \<in> set rows" "row_due gate w p r" "PRow r \<notin> set (page_of gate w p rows stones)"
  shows "full_page gate w p rows stones \<and> (\<forall>y \<in> set (page_of gate w p rows stones). item_key y < sync_key r)"
proof (cases "r \<in> set (pull_rows gate w p rows)")
  case True
  then have "PRow r \<in> set (pull_items gate w p rows stones)" by (simp add: set_pull_items)
  from item_beyond[OF assms(1) this assms(4)] show ?thesis by simp
next
  case False
  from enough_below[OF row_after_page[OF assms(1-3) False]] show ?thesis by (simp add: full_page_def page_of_def)
qed

lemma stone_beyond:
  assumes "distinct (map sy_id rows)" "distinct stones" "t \<in> set stones" "stone_due w p t"
    and "\<And>x. x \<in> set (page_of gate w p rows stones) \<Longrightarrow> item_key x \<noteq> t"
  shows "full_page gate w p rows stones \<and> (\<forall>y \<in> set (page_of gate w p rows stones). item_key y < t)"
proof (cases "t \<in> set (pull_stones w p stones)")
  case True
  from stones_covered[OF this] obtain x where x: "x \<in> set (pull_items gate w p rows stones)" "item_key x = t" by blast
  then have "x \<notin> set (page_of gate w p rows stones)" using assms(5) by blast
  from item_beyond[OF assms(1) x(1) this] show ?thesis using x(2) by simp
next
  case False
  from enough_below[OF stone_after_page[where gate = gate and rows = rows, OF assms(2-4) False]] show ?thesis by (simp add: full_page_def page_of_def)
qed

lemma page_sorted: "sorted (map item_key (page_of gate w p rows stones))"
  unfolding page_of_def take_map[symmetric] by (rule sorted_wrt_take[OF items_sorted])

end
