(* ===== verification/SyncStore.thy ===== *)
theory SyncStore
  imports Crdt
begin

text \<open>
  The offline store of the SDK (\<open>packages/sdk/src/local-store.ts\<close>) and the push loop of its manager
  (\<open>sync-manager.ts\<close>): local writes and their queue, what the server's changes do to local rows, and
  what a push leaves.

  The tables of IndexedDB are a map and a list.  The time, the random part of a queue item's id and what
  the server answers are arguments.  Blobs are left out.
\<close>

section \<open>Rows and the queue\<close>

datatype sync_status = Synced | Pending | Conflict

type_synonym 'v row_data = "string \<rightharpoonup> 'v"

record 'v local_record =
  lo_data :: "'v row_data"
  lo_localVersion :: nat
  lo_serverVersion :: nat
  lo_status :: sync_status
  lo_updatedAt :: nat
  lo_deletedAt :: "nat option"
  lo_conflictData :: "'v row_data option"
  lo_crdtDoc :: "'v lww_document option"

datatype queue_operation = QCreate | QUpdate | QDelete

record 'v queue_item =
  qi_id :: string
  qi_collection :: string
  qi_recordId :: string
  qi_operation :: queue_operation
  qi_payload :: "'v row_data"
  qi_attempts :: nat
  qi_createdAt :: nat
  qi_error :: "string option"

record 'v local_store =
  ls_records :: "string \<times> string \<rightharpoonup> 'v local_record"
  ls_queue :: "'v queue_item list"
  ls_clock :: lamport_clock

text \<open>What the server sends of a row: its data, with or without a CRDT document.\<close>

type_synonym 'v server_row = "'v row_data \<times> 'v lww_document option"

section \<open>Local writes\<close>

definition enqueue :: "nat \<Rightarrow> string \<Rightarrow> string \<Rightarrow> string \<Rightarrow> queue_operation \<Rightarrow> 'v row_data \<Rightarrow> 'v local_store \<Rightarrow> 'v local_store" where
  "enqueue now qid c i op payload st = st\<lparr> ls_queue := ls_queue st @ [\<lparr> qi_id = qid, qi_collection = c, qi_recordId = i,
     qi_operation = op, qi_payload = payload, qi_attempts = 0, qi_createdAt = now, qi_error = None \<rparr>] \<rparr>"

definition store_put :: "nat \<Rightarrow> string \<Rightarrow> string \<Rightarrow> string \<Rightarrow> 'v row_data \<Rightarrow> 'v local_store \<Rightarrow> 'v local_store" where
  "store_put now qid c i data st =
    (let existing = ls_records st (c, i); (clock, lamport) = tick (ls_clock st);
         r = \<lparr> lo_data = data,
               lo_localVersion = (case existing of None \<Rightarrow> 0 | Some e \<Rightarrow> lo_localVersion e) + 1,
               lo_serverVersion = (case existing of None \<Rightarrow> 0 | Some e \<Rightarrow> lo_serverVersion e),
               lo_status = Pending, lo_updatedAt = now, lo_deletedAt = None, lo_conflictData = None,
               lo_crdtDoc = Some (toDocument data lamport (clock_id (ls_clock st))) \<rparr> in
     enqueue now qid c i (if existing = None then QCreate else QUpdate) data
       (st\<lparr> ls_records := (ls_records st)((c, i) \<mapsto> r), ls_clock := clock \<rparr>))"

definition store_get :: "string \<Rightarrow> string \<Rightarrow> 'v local_store \<Rightarrow> 'v local_record option" where
  "store_get c i st = (case ls_records st (c, i) of
     Some r \<Rightarrow> if lo_deletedAt r = None then Some r else None | None \<Rightarrow> None)"

definition store_delete :: "nat \<Rightarrow> string \<Rightarrow> string \<Rightarrow> string \<Rightarrow> 'v local_store \<Rightarrow> 'v local_store" where
  "store_delete now qid c i st = enqueue now qid c i QDelete Map.empty
     (case ls_records st (c, i) of
        None \<Rightarrow> st
      | Some r \<Rightarrow> st\<lparr> ls_records := (ls_records st)((c, i) \<mapsto> r\<lparr> lo_deletedAt := Some now, lo_status := Pending \<rparr>) \<rparr>)"

text \<open>\<open>collection(name).update\<close>: the fields given over those the store shows.\<close>

definition collection_update :: "nat \<Rightarrow> string \<Rightarrow> string \<Rightarrow> string \<Rightarrow> 'v row_data \<Rightarrow> 'v local_store \<Rightarrow> 'v local_store" where
  "collection_update now qid c i data st =
    store_put now qid c i ((case store_get c i st of None \<Rightarrow> Map.empty | Some r \<Rightarrow> lo_data r) ++ data) st"

section \<open>What the server confirms and sends\<close>

text \<open>The index \<open>by-created\<close> orders by the time, and by the item's id within a millisecond.\<close>

definition getPendingOps :: "'v local_store \<Rightarrow> 'v queue_item list" where
  "getPendingOps st = sort_key qi_createdAt (sort_key qi_id (ls_queue st))"

definition markSynced :: "string \<Rightarrow> string \<Rightarrow> string \<Rightarrow> nat \<Rightarrow> 'v local_store \<Rightarrow> 'v local_store" where
  "markSynced qid c i version st = st\<lparr> ls_queue := filter (\<lambda>q. qi_id q \<noteq> qid) (ls_queue st),
     ls_records := (case ls_records st (c, i) of
        None \<Rightarrow> ls_records st
      | Some r \<Rightarrow> (ls_records st)((c, i) \<mapsto> r\<lparr> lo_serverVersion := version, lo_status := Synced \<rparr>)) \<rparr>"

definition markFailed :: "string \<Rightarrow> string \<Rightarrow> 'v local_store \<Rightarrow> 'v local_store" where
  "markFailed qid err st = st\<lparr> ls_queue := map (\<lambda>q. if qi_id q = qid
     then q\<lparr> qi_attempts := qi_attempts q + 1, qi_error := Some err \<rparr> else q) (ls_queue st) \<rparr>"

definition unconfirmed :: "'v local_record \<Rightarrow> bool" where
  "unconfirmed r \<longleftrightarrow> lo_status r \<noteq> Synced \<or> lo_serverVersion r < lo_localVersion r"

definition applyServerUpdate :: "nat \<Rightarrow> string \<Rightarrow> string \<Rightarrow> 'v server_row \<Rightarrow> nat \<Rightarrow> 'v local_store \<Rightarrow> 'v local_store" where
  "applyServerUpdate now c i row version st =
    (let existing = ls_records st (c, i); write = (\<lambda>r. st\<lparr> ls_records := (ls_records st)((c, i) \<mapsto> r) \<rparr>) in
     case existing of
       Some e \<Rightarrow>
         if unconfirmed e then
           (case (lo_crdtDoc e, snd row) of
              (Some own, Some remote) \<Rightarrow>
                (let m = mergeLWW own remote; top = Max (insert 0 (lww_lamport ` ran m)) in
                 (write (e\<lparr> lo_data := fromDocument m, lo_crdtDoc := Some m, lo_serverVersion := version, lo_status := Synced \<rparr>))
                   \<lparr> ls_clock := fst (update (ls_clock st) top) \<rparr>)
            | _ \<Rightarrow> write (e\<lparr> lo_conflictData := Some (fst row), lo_serverVersion := version, lo_status := Conflict \<rparr>))
         else write \<lparr> lo_data = fst row, lo_localVersion = lo_localVersion e, lo_serverVersion = version, lo_status = Synced,
                lo_updatedAt = now, lo_deletedAt = None, lo_conflictData = None, lo_crdtDoc = lo_crdtDoc e \<rparr>
     | None \<Rightarrow> write \<lparr> lo_data = fst row, lo_localVersion = 0, lo_serverVersion = version, lo_status = Synced,
                lo_updatedAt = now, lo_deletedAt = None, lo_conflictData = None, lo_crdtDoc = None \<rparr>)"

definition applyServerDelete :: "string \<Rightarrow> string \<Rightarrow> 'v local_store \<Rightarrow> 'v local_store" where
  "applyServerDelete c i st = st\<lparr> ls_records := (ls_records st)((c, i) := None) \<rparr>"

definition dropSynced :: "string \<Rightarrow> 'v local_store \<Rightarrow> 'v local_store" where
  "dropSynced c st = st\<lparr> ls_records := (\<lambda>k. case ls_records st k of
     None \<Rightarrow> None | Some r \<Rightarrow> if fst k = c \<and> lo_status r = Synced then None else Some r) \<rparr>"

definition resolveConflict :: "nat \<Rightarrow> string \<Rightarrow> string \<Rightarrow> string \<Rightarrow> 'v row_data \<Rightarrow> 'v local_store \<Rightarrow> 'v local_store" where
  "resolveConflict now qid c i resolved st = (case ls_records st (c, i) of
     None \<Rightarrow> st
   | Some r \<Rightarrow> enqueue now qid c i QUpdate resolved (st\<lparr> ls_records := (ls_records st)((c, i) \<mapsto>
       r\<lparr> lo_data := resolved, lo_status := Pending, lo_localVersion := lo_localVersion r + 1, lo_conflictData := None \<rparr>) \<rparr>))"

section \<open>The push loop\<close>

text \<open>
  What came of sending one operation: it was accepted; it was rejected with 409, and then the server's row was
  read, or that failed too; or it failed otherwise.
\<close>

datatype 'v sent = Accepted | Rejected "'v server_row option" | SendFailed string

record 'v sync_config =
  sc_maxRetries :: nat
  sc_lww :: bool
  sc_onConflict :: "'v row_data option \<Rightarrow> 'v row_data \<Rightarrow> 'v row_data"

definition resolution :: "'v sync_config \<Rightarrow> 'v local_record option \<Rightarrow> 'v server_row \<Rightarrow> 'v row_data" where
  "resolution cfg own row = (case (map_option lo_crdtDoc own, snd row) of
     (Some (Some own_doc), Some remote) \<Rightarrow>
       if sc_lww cfg then fromDocument (mergeLWW own_doc remote) else sc_onConflict cfg (map_option lo_data own) (fst row)
   | _ \<Rightarrow> sc_onConflict cfg (map_option lo_data own) (fst row))"

definition sync_op :: "'v sync_config \<Rightarrow> nat \<Rightarrow> string \<Rightarrow> 'v queue_item \<Rightarrow> 'v sent \<Rightarrow> 'v local_store \<Rightarrow> 'v local_store" where
  "sync_op cfg now qid q result st =
    (if sc_maxRetries cfg \<le> qi_attempts q then st
     else (case result of
        Accepted \<Rightarrow> markSynced (qi_id q) (qi_collection q) (qi_recordId q) now st
      | Rejected None \<Rightarrow> st
      | Rejected (Some row) \<Rightarrow> markFailed (qi_id q) ''rejected with 409''
          (resolveConflict now qid (qi_collection q) (qi_recordId q)
            (resolution cfg (store_get (qi_collection q) (qi_recordId q) st) row) st)
      | SendFailed err \<Rightarrow> markFailed (qi_id q) err st))"

text \<open>One \<open>syncNow\<close>: the operations pending at its start in turn, each with its time, a fresh id and its answer.\<close>

fun sync_ops :: "'v sync_config \<Rightarrow> 'v queue_item list \<Rightarrow> (nat \<times> string \<times> 'v sent) list \<Rightarrow> 'v local_store \<Rightarrow> 'v local_store" where
  "sync_ops cfg (q # qs) ((now, qid, result) # answers) st = sync_ops cfg qs answers (sync_op cfg now qid q result st)"
| "sync_ops cfg _ _ st = st"

definition syncNow :: "'v sync_config \<Rightarrow> bool \<Rightarrow> bool \<Rightarrow> (nat \<times> string \<times> 'v sent) list \<Rightarrow> 'v local_store \<Rightarrow> 'v local_store" where
  "syncNow cfg online syncing answers st = (if \<not> online \<or> syncing then st else sync_ops cfg (getPendingOps st) answers st)"

text \<open>What the server took, in the order it took it.\<close>

definition pushed :: "'v sync_config \<Rightarrow> 'v queue_item list \<Rightarrow> (nat \<times> string \<times> 'v sent) list \<Rightarrow> 'v queue_item list" where
  "pushed cfg qs answers = map fst (filter (\<lambda>(q, now, qid, result). qi_attempts q < sc_maxRetries cfg \<and> result = Accepted) (zip qs answers))"

section \<open>Edits stay until they are taken\<close>

text \<open>Everything that can happen to the store, one step at a time.\<close>

datatype 'v store_event =
    LocalPut nat string string string "'v row_data"
  | LocalDelete nat string string string
  | ServerRow nat string string "'v server_row" nat
  | ServerGone string string
  | Restart string
  | Sent nat string "'v queue_item" "'v sent"

primrec store_step :: "'v sync_config \<Rightarrow> 'v store_event \<Rightarrow> 'v local_store \<Rightarrow> 'v local_store" where
  "store_step cfg (LocalPut now qid c i data) st = store_put now qid c i data st"
| "store_step cfg (LocalDelete now qid c i) st = store_delete now qid c i st"
| "store_step cfg (ServerRow now c i row version) st = applyServerUpdate now c i row version st"
| "store_step cfg (ServerGone c i) st = applyServerDelete c i st"
| "store_step cfg (Restart c) st = dropSynced c st"
| "store_step cfg (Sent now qid q result) st = sync_op cfg now qid q result st"

definition same_operation :: "'v queue_item \<Rightarrow> 'v queue_item \<Rightarrow> bool" where
  "same_operation p q \<longleftrightarrow> p\<lparr> qi_attempts := 0, qi_error := None \<rparr> = q\<lparr> qi_attempts := 0, qi_error := None \<rparr>"

text \<open>
  An event that does not touch a row's edits: no local write of the row, no delete of it by the server, no server row
  with a CRDT document to merge, and no answer to one of its operations but a failure.
\<close>

fun spares :: "'v sync_config \<Rightarrow> string \<Rightarrow> string \<Rightarrow> string set \<Rightarrow> 'v store_event \<Rightarrow> bool" where
  "spares cfg c i own (LocalPut now qid c' i' data) \<longleftrightarrow> (c', i') \<noteq> (c, i)"
| "spares cfg c i own (LocalDelete now qid c' i') \<longleftrightarrow> (c', i') \<noteq> (c, i)"
| "spares cfg c i own (ServerRow now c' i' row version) \<longleftrightarrow> (c', i') \<noteq> (c, i) \<or> snd row = None"
| "spares cfg c i own (ServerGone c' i') \<longleftrightarrow> (c', i') \<noteq> (c, i)"
| "spares cfg c i own (Restart c') \<longleftrightarrow> True"
| "spares cfg c i own (Sent now qid q result) \<longleftrightarrow>
    (case result of
       Accepted \<Rightarrow> qi_id q \<notin> own \<and> (qi_collection q, qi_recordId q) \<noteq> (c, i) \<or> sc_maxRetries cfg \<le> qi_attempts q
     | Rejected (Some row) \<Rightarrow> (qi_collection q, qi_recordId q) \<noteq> (c, i) \<or> sc_maxRetries cfg \<le> qi_attempts q
     | _ \<Rightarrow> True)"

definition edit_kept :: "string \<Rightarrow> string \<Rightarrow> 'v row_data \<Rightarrow> 'v queue_item list \<Rightarrow> 'v local_store \<Rightarrow> bool" where
  "edit_kept c i data ops st \<longleftrightarrow> (\<exists>r. ls_records st (c, i) = Some r \<and> lo_data r = data \<and> lo_status r \<noteq> Synced)
     \<and> (\<forall>q \<in> set ops. \<exists>p \<in> set (ls_queue st). same_operation p q)"

lemma same_operation_id: "same_operation p q \<Longrightarrow> qi_id p = qi_id q"
  unfolding same_operation_def by (metis queue_item.ext_inject queue_item.surjective queue_item.update_convs(6,8))

lemma same_operation_failed: "same_operation (p\<lparr> qi_attempts := n, qi_error := e \<rparr>) q = same_operation p q"
  by (simp add: same_operation_def)

lemma kept_queue:
  assumes "edit_kept c i data ops st" "ls_records st' (c, i) = ls_records st (c, i)" "set (ls_queue st) \<subseteq> set (ls_queue st')"
  shows "edit_kept c i data ops st'"
  using assms by (fastforce simp: edit_kept_def)

lemma kept_failed: "edit_kept c i data ops st \<Longrightarrow> edit_kept c i data ops (markFailed qid err st)"
proof -
  assume kept: "edit_kept c i data ops st"
  have "\<exists>p \<in> set (ls_queue (markFailed qid err st)). same_operation p q" if "q \<in> set ops" for q
  proof -
    obtain p where p: "p \<in> set (ls_queue st)" "same_operation p q" using kept \<open>q \<in> set ops\<close> by (auto simp: edit_kept_def)
    define p' where "p' = (if qi_id p = qid then p\<lparr> qi_attempts := qi_attempts p + 1, qi_error := Some err \<rparr> else p)"
    have "p' \<in> set (ls_queue (markFailed qid err st))" using p(1) unfolding markFailed_def p'_def by simp
    moreover have "same_operation p' q" using p(2) by (simp add: p'_def same_operation_failed)
    ultimately show ?thesis by blast
  qed
  then show ?thesis using kept by (auto simp: edit_kept_def markFailed_def)
qed

lemma kept_step:
  assumes kept: "edit_kept c i data ops st" and spares: "spares cfg c i (qi_id ` set ops) e"
  shows "edit_kept c i data ops (store_step cfg e st)"
proof (cases e)
  case (LocalPut now qid c' i' d)
  show ?thesis using spares LocalPut
    by (auto intro!: kept_queue[OF kept] simp: store_put_def enqueue_def Let_def split: prod.splits)
next
  case (LocalDelete now qid c' i')
  show ?thesis using spares LocalDelete
    by (auto intro!: kept_queue[OF kept] simp: store_delete_def enqueue_def split: option.splits)
next
  case (ServerRow now c' i' row version)
  show ?thesis
  proof (cases "(c', i') = (c, i)")
    case True
    obtain r where r: "ls_records st (c, i) = Some r" "lo_data r = data" "lo_status r \<noteq> Synced" using kept by (auto simp: edit_kept_def)
    have "applyServerUpdate now c i row version st = st\<lparr> ls_records := (ls_records st)((c, i) \<mapsto>
        r\<lparr> lo_conflictData := Some (fst row), lo_serverVersion := version, lo_status := Conflict \<rparr>) \<rparr>"
      using True spares ServerRow r by (simp add: applyServerUpdate_def unconfirmed_def split: option.splits)
    then show ?thesis using True ServerRow kept r by (simp add: edit_kept_def)
  next
    case False
    then show ?thesis using ServerRow
      by (auto intro!: kept_queue[OF kept] simp: applyServerUpdate_def Let_def split: option.splits)
  qed
next
  case (ServerGone c' i')
  show ?thesis using spares ServerGone by (auto intro!: kept_queue[OF kept] simp: applyServerDelete_def)
next
  case (Restart c')
  show ?thesis using kept Restart by (auto simp: edit_kept_def dropSynced_def)
next
  case (Sent now qid q result)
  show ?thesis
  proof (cases "sc_maxRetries cfg \<le> qi_attempts q")
    case True
    then show ?thesis using kept Sent by (simp add: sync_op_def)
  next
    case False
    show ?thesis
    proof (cases result)
      case Accepted
      then have other: "qi_id q \<notin> qi_id ` set ops" "(qi_collection q, qi_recordId q) \<noteq> (c, i)" using spares Sent False by auto
      let ?st = "markSynced (qi_id q) (qi_collection q) (qi_recordId q) now st"
      have "\<exists>p \<in> set (ls_queue ?st). same_operation p x" if x: "x \<in> set ops" for x
      proof -
        obtain p where p: "p \<in> set (ls_queue st)" "same_operation p x" using kept x by (auto simp: edit_kept_def)
        then have "qi_id p \<noteq> qi_id q" using same_operation_id[OF p(2)] other(1) x by (metis imageI)
        then show ?thesis using p by (auto simp: markSynced_def)
      qed
      moreover have "ls_records ?st (c, i) = ls_records st (c, i)" using other(2) by (auto simp: markSynced_def split: option.splits)
      ultimately show ?thesis using kept Sent False Accepted by (simp add: edit_kept_def sync_op_def)
    next
      case (Rejected rejected)
      show ?thesis
      proof (cases rejected)
        case None
        then show ?thesis using kept Sent False Rejected by (simp add: sync_op_def)
      next
        case (Some row)
        then have other: "(qi_collection q, qi_recordId q) \<noteq> (c, i)" using spares Sent Rejected False by auto
        have "edit_kept c i data ops (resolveConflict now qid (qi_collection q) (qi_recordId q)
            (resolution cfg (store_get (qi_collection q) (qi_recordId q) st) row) st)"
          by (rule kept_queue[OF kept]) (use other in \<open>auto simp: resolveConflict_def enqueue_def split: option.splits\<close>)
        from kept_failed[OF this] show ?thesis using Sent False Rejected Some by (simp add: sync_op_def)
      qed
    next
      case (SendFailed err)
      then show ?thesis using kept_failed[OF kept] Sent False by (simp add: sync_op_def)
    qed
  qed
qed


section \<open>Instances\<close>

definition plain_config :: "nat sync_config" where
  "plain_config = \<lparr> sc_maxRetries = 5, sc_lww = True, sc_onConflict = (\<lambda>own server. server) \<rparr>"

definition blank_store :: "nat local_store" where
  "blank_store = \<lparr> ls_records = Map.empty, ls_queue = [], ls_clock = new_clock ''d'' 0 \<rparr>"


text \<open>
  The push loop goes on after a failure, so a retry comes after the edits that followed it: the server ends with the older
  value, and the device shows the newer one as confirmed.
\<close>

definition two_edits :: "nat local_store" where
  "two_edits = store_put 2 ''q2'' ''t'' ''a'' [''x'' \<mapsto> 2] (store_put 1 ''q1'' ''t'' ''a'' [''x'' \<mapsto> 1] blank_store)"

lemma retry_comes_late:
  assumes "first_pass = [(3, ''r1'', SendFailed ''offline''), (4, ''r2'', Accepted)]" "second_pass = [(5, ''r3'', Accepted)]"
    and "st = syncNow plain_config True False first_pass two_edits" "st' = syncNow plain_config True False second_pass st"
  shows "map qi_payload (pushed plain_config (getPendingOps two_edits) first_pass @ pushed plain_config (getPendingOps st) second_pass)
      = [[''x'' \<mapsto> 2], [''x'' \<mapsto> 1]]"
    "ls_queue st' = []" "map_option lo_data (ls_records st' (''t'', ''a'')) = Some [''x'' \<mapsto> 2]"
    "map_option lo_status (ls_records st' (''t'', ''a'')) = Some Synced"
  by (simp_all add: assms two_edits_def blank_store_def plain_config_def store_put_def enqueue_def tick_def new_clock_def Let_def
      syncNow_def getPendingOps_def sync_op_def markFailed_def markSynced_def pushed_def)

text \<open>
  An acknowledgement of an earlier operation confirms the row although a later edit is queued: the server's version is a
  time, which no count of local writes exceeds, and the next pull shows the older value.
\<close>

lemma early_acknowledgement:
  assumes "st = sync_op plain_config 1700000000000 ''r'' (hd (ls_queue two_edits)) Accepted two_edits"
    and "st' = applyServerUpdate 1700000000001 ''t'' ''a'' ([''x'' \<mapsto> 1], None) 1700000000001 st"
  shows "map qi_payload (ls_queue st') = [[''x'' \<mapsto> 2]]" "map_option lo_data (ls_records st' (''t'', ''a'')) = Some [''x'' \<mapsto> 1]"
    "map_option lo_conflictData (ls_records st' (''t'', ''a'')) = Some None"
  by (simp_all add: assms two_edits_def blank_store_def plain_config_def store_put_def enqueue_def tick_def new_clock_def Let_def
      sync_op_def markSynced_def applyServerUpdate_def unconfirmed_def)

end
