(* ===== verification/SyncDevice.thy ===== *)
theory SyncDevice
  imports SyncPages SyncStore
begin

text \<open>
  A device that pulls a collection while transactions commit: the tables as the triggers keep them, the
  statements of a pull at their own moments, and \<open>pullChanges\<close> of \<open>sync-manager.ts\<close> over the local store.
\<close>

section \<open>Writes\<close>

text \<open>
  \<open>updated_at\<close> is the start of the writing transaction (the default of the column and the touch trigger), and a
  delete leaves a tombstone of that time (\<open>zveltio_sync_tombstone\<close>).  Row locks put the writes of one row in the
  order of their commits.
\<close>

datatype 'd row_write = InsertRow string 'd | UpdateRow string 'd | DeleteRow string

fun write_row :: "int \<Rightarrow> 'd row_write \<Rightarrow> 'd sync_row list \<times> sync_key list \<Rightarrow> 'd sync_row list \<times> sync_key list" where
  "write_row s (InsertRow i d) (rows, stones) =
    (if i \<in> set (map sy_id rows) then (rows, stones) else (rows @ [\<lparr> sy_id = i, sy_us = s, sy_data = d \<rparr>], stones))"
| "write_row s (UpdateRow i d) (rows, stones) =
    (map (\<lambda>r. if sy_id r = i then \<lparr> sy_id = i, sy_us = s, sy_data = d \<rparr> else r) rows, stones)"
| "write_row s (DeleteRow i) (rows, stones) =
    (if i \<in> set (map sy_id rows) then (filter (\<lambda>r. sy_id r \<noteq> i) rows, stones @ [(s, i)]) else (rows, stones))"

section \<open>The device\<close>

primrec apply_change :: "nat \<Rightarrow> string \<Rightarrow> 'v server_row sync_change \<Rightarrow> 'v local_store \<Rightarrow> 'v local_store" where
  "apply_change now c (Upsert i row) st = applyServerUpdate now c i row now st"
| "apply_change now c (Remove i) st = applyServerDelete c i st"

text \<open>A page applied, whole or cut short after some of its changes; then its cursor is not kept.\<close>

definition apply_page :: "nat \<Rightarrow> string \<Rightarrow> bool \<Rightarrow> 'v server_row sync_change list \<Rightarrow> 'v local_store \<Rightarrow> 'v local_store" where
  "apply_page now c resync changes st = fold (apply_change now c) changes (if resync then dropSynced c st else st)"

section \<open>Everything that happens\<close>

text \<open>
  Where the pull in flight is: its transaction's start, then the watermark, then the rows it read.
\<close>

datatype 'd pull_phase = Idle | Begun int | Marked int int | RowsRead int int "'d sync_row list"

record ('d, 'v) sync_world =
  sw_clock :: int
  sw_open :: "(nat \<times> txn_kind \<times> int) list"
  sw_rows :: "'d sync_row list"
  sw_stones :: "sync_key list"
  sw_store :: "'v local_store"
  sw_cursor :: "string option"
  sw_phase :: "'d pull_phase"
  sw_looping :: bool

datatype 'd sync_event =
    Pass nat
  | BeginTxn nat txn_kind
  | CommitTxn nat "'d row_write list"
  | RollbackTxn nat
  | Purge
  | PullStart
  | PullAgain
  | ReadMark
  | ReadRows
  | ReadStones nat "nat option"
  | PullFails

definition txn_start :: "nat \<Rightarrow> (nat \<times> txn_kind \<times> int) list \<Rightarrow> int option" where
  "txn_start t txns = map_option snd (map_of txns t)"

definition end_txn :: "nat \<Rightarrow> (nat \<times> txn_kind \<times> int) list \<Rightarrow> (nat \<times> txn_kind \<times> int) list" where
  "end_txn t txns = filter (\<lambda>x. fst x \<noteq> t) txns"

definition answered ::
  "token_env \<Rightarrow> ('d, 'v server_row) read_gate \<Rightarrow> string \<Rightarrow> ('d, 'v) sync_world \<Rightarrow> (token_error, 'v server_row pull_answer) result option" where
  "answered E gate c w = (case sw_phase w of
     RowsRead begun mark rows \<Rightarrow>
       Some (pull_collection E gate c (begun - SYNC_TOMBSTONE_RETENTION) mark (sw_cursor w) rows (sw_stones w))
   | _ \<Rightarrow> None)"

definition receive ::
  "nat \<Rightarrow> nat option \<Rightarrow> string \<Rightarrow> 'v server_row pull_answer \<Rightarrow> ('d, 'v) sync_world \<Rightarrow> ('d, 'v) sync_world" where
  "receive now stop c a w = (case stop of
     Some n \<Rightarrow> w\<lparr> sw_store := apply_page now c (pa_resync a) (take n (pa_changes a)) (sw_store w), sw_phase := Idle, sw_looping := False \<rparr>
   | None \<Rightarrow> w\<lparr> sw_store := apply_page now c (pa_resync a) (pa_changes a) (sw_store w),
       sw_cursor := (case pa_cursor a of None \<Rightarrow> sw_cursor w | Some t \<Rightarrow> Some t), sw_phase := Idle, sw_looping := True \<rparr>)"

fun sync_step ::
  "token_env \<Rightarrow> ('d, 'v server_row) read_gate \<Rightarrow> string \<Rightarrow> 'd sync_event \<Rightarrow> ('d, 'v) sync_world \<Rightarrow> ('d, 'v) sync_world" where
  "sync_step E gate c (Pass n) w = w\<lparr> sw_clock := sw_clock w + int n \<rparr>"
| "sync_step E gate c (BeginTxn t k) w =
    (if map_of (sw_open w) t = None then w\<lparr> sw_open := (t, k, sw_clock w) # sw_open w \<rparr> else w)"
| "sync_step E gate c (CommitTxn t ws) w = (case txn_start t (sw_open w) of
     None \<Rightarrow> w
   | Some s \<Rightarrow> (case fold (write_row s) ws (sw_rows w, sw_stones w) of (rows, stones) \<Rightarrow>
       w\<lparr> sw_rows := rows, sw_stones := stones, sw_open := end_txn t (sw_open w) \<rparr>))"
| "sync_step E gate c (RollbackTxn t) w = w\<lparr> sw_open := end_txn t (sw_open w) \<rparr>"
| "sync_step E gate c Purge w = w\<lparr> sw_stones := filter (\<lambda>t. \<not> fst t < sw_clock w - SYNC_TOMBSTONE_RETENTION) (sw_stones w) \<rparr>"
| "sync_step E gate c PullStart w = (if sw_phase w = Idle
     then w\<lparr> sw_phase := Begun (sw_clock w), sw_store := (if sw_cursor w = None then dropSynced c (sw_store w) else sw_store w) \<rparr> else w)"
| "sync_step E gate c PullAgain w = (if sw_phase w = Idle \<and> sw_looping w then w\<lparr> sw_phase := Begun (sw_clock w) \<rparr> else w)"
| "sync_step E gate c ReadMark w = (case sw_phase w of
     Begun b \<Rightarrow> w\<lparr> sw_phase := Marked b (syncWatermarkUs (sw_clock w) (sw_open w)) \<rparr> | _ \<Rightarrow> w)"
| "sync_step E gate c ReadRows w = (case sw_phase w of
     Marked b m \<Rightarrow> w\<lparr> sw_phase := RowsRead b m (sw_rows w) \<rparr> | _ \<Rightarrow> w)"
| "sync_step E gate c (ReadStones now stop) w = (case answered E gate c w of
     None \<Rightarrow> w
   | Some (Inl e) \<Rightarrow> w\<lparr> sw_phase := Idle, sw_looping := False \<rparr>
   | Some (Inr a) \<Rightarrow> receive now stop c a w)"
| "sync_step E gate c PullFails w = w\<lparr> sw_phase := Idle, sw_looping := False \<rparr>"

text \<open>
  What is asked of a run.  A row whose id was deleted is not written by a transaction that started before the one that
  deleted it, no transaction deletes one id twice, the collector does not purge during a pull, and the clock stays
  where its text has 18 digits.
\<close>

fun orderly_write :: "int \<Rightarrow> 'd row_write \<Rightarrow> sync_key list \<Rightarrow> bool" where
  "orderly_write s (InsertRow i d) stones \<longleftrightarrow> i \<noteq> [] \<and> list_all (\<lambda>(u, j). j = i \<longrightarrow> u \<le> s) stones"
| "orderly_write s (UpdateRow i d) stones \<longleftrightarrow> list_all (\<lambda>(u, j). j = i \<longrightarrow> u \<le> s) stones"
| "orderly_write s (DeleteRow i) stones \<longleftrightarrow> (s, i) \<notin> set stones"

fun orderly_writes :: "int \<Rightarrow> 'd row_write list \<Rightarrow> 'd sync_row list \<times> sync_key list \<Rightarrow> bool" where
  "orderly_writes s [] db \<longleftrightarrow> True"
| "orderly_writes s (x # xs) db \<longleftrightarrow> orderly_write s x (snd db) \<and> orderly_writes s xs (write_row s x db)"

fun orderly :: "'d sync_event \<Rightarrow> ('d, 'v) sync_world \<Rightarrow> bool" where
  "orderly (Pass n) w \<longleftrightarrow> sw_clock w + int n < 10 ^ 18"
| "orderly (CommitTxn t ws) w \<longleftrightarrow> (case txn_start t (sw_open w) of None \<Rightarrow> True | Some s \<Rightarrow> orderly_writes s ws (sw_rows w, sw_stones w))"
| "orderly Purge w \<longleftrightarrow> sw_phase w = Idle"
| "orderly e w \<longleftrightarrow> True"

fun orderly_run :: "token_env \<Rightarrow> ('d, 'v server_row) read_gate \<Rightarrow> string \<Rightarrow> 'd sync_event list \<Rightarrow> ('d, 'v) sync_world \<Rightarrow> bool" where
  "orderly_run E gate c [] w \<longleftrightarrow> True"
| "orderly_run E gate c (e # es) w \<longleftrightarrow> orderly e w \<and> orderly_run E gate c es (sync_step E gate c e w)"

definition sync_run :: "token_env \<Rightarrow> ('d, 'v server_row) read_gate \<Rightarrow> string \<Rightarrow> 'd sync_event list \<Rightarrow> ('d, 'v) sync_world \<Rightarrow> ('d, 'v) sync_world" where
  "sync_run E gate c es w = fold (sync_step E gate c) es w"

definition new_world :: "int \<Rightarrow> 'v local_store \<Rightarrow> ('d, 'v) sync_world" where
  "new_world clock st = \<lparr> sw_clock = clock, sw_open = [], sw_rows = [], sw_stones = [], sw_store = st, sw_cursor = None,
     sw_phase = Idle, sw_looping = False \<rparr>"

text \<open>The device's copy of a row.\<close>

definition copy_of :: "string \<Rightarrow> 'v local_store \<Rightarrow> string \<Rightarrow> 'v row_data option" where
  "copy_of c st i = map_option lo_data (store_get c i st)"

section \<open>The tables\<close>

definition db_ok :: "int \<Rightarrow> 'd sync_row list \<times> sync_key list \<Rightarrow> bool" where
  "db_ok clock db \<longleftrightarrow> distinct (map sy_id (fst db)) \<and> distinct (snd db)
     \<and> (\<forall>r \<in> set (fst db). 0 \<le> sy_us r \<and> sy_us r \<le> clock \<and> sy_id r \<noteq> [] \<and> (\<forall>u. (u, sy_id r) \<in> set (snd db) \<longrightarrow> u \<le> sy_us r))
     \<and> (\<forall>(u, i) \<in> set (snd db). 0 \<le> u \<and> u \<le> clock \<and> i \<noteq> [])"

text \<open>From one state of the tables to a later one, all writes being at \<open>m\<close> or after.\<close>

definition grows :: "int \<Rightarrow> 'd sync_row list \<times> sync_key list \<Rightarrow> 'd sync_row list \<times> sync_key list \<Rightarrow> bool" where
  "grows m db db' \<longleftrightarrow> (\<forall>r \<in> set (fst db'). sy_us r < m \<longrightarrow> r \<in> set (fst db))
     \<and> (\<forall>r \<in> set (fst db). sy_id r \<in> sy_id ` set (fst db') \<or> (\<exists>u \<ge> m. (u, sy_id r) \<in> set (snd db')))
     \<and> set (snd db) \<subseteq> set (snd db')
     \<and> (\<forall>t \<in> set (snd db'). fst t < m \<longrightarrow> t \<in> set (snd db))"

lemma growsD:
  assumes "grows m db db'"
  shows "r \<in> set (fst db') \<Longrightarrow> sy_us r < m \<Longrightarrow> r \<in> set (fst db)"
    "r \<in> set (fst db) \<Longrightarrow> sy_id r \<in> sy_id ` set (fst db') \<or> (\<exists>u \<ge> m. (u, sy_id r) \<in> set (snd db'))"
    "t \<in> set (snd db) \<Longrightarrow> t \<in> set (snd db')" "t \<in> set (snd db') \<Longrightarrow> fst t < m \<Longrightarrow> t \<in> set (snd db)"
  using assms unfolding grows_def by blast+

lemma grows_refl: "grows m db db"
  by (auto simp: grows_def)

lemma grows_trans:
  assumes ab: "grows m a b" and bc: "grows m b c"
  shows "grows m a c"
  unfolding grows_def
proof (intro conjI ballI impI)
  show "set (snd a) \<subseteq> set (snd c)" using growsD(3)[OF ab] growsD(3)[OF bc] by blast
  fix r assume "r \<in> set (fst c)" "sy_us r < m"
  then show "r \<in> set (fst a)" using growsD(1)[OF ab] growsD(1)[OF bc] by blast
next
  fix r assume "r \<in> set (fst a)"
  from growsD(2)[OF ab this] show "sy_id r \<in> sy_id ` set (fst c) \<or> (\<exists>u \<ge> m. (u, sy_id r) \<in> set (snd c))"
  proof
    assume "sy_id r \<in> sy_id ` set (fst b)"
    then obtain q where "q \<in> set (fst b)" "sy_id r = sy_id q" by blast
    then show ?thesis using growsD(2)[OF bc, of q] by simp
  next
    assume "\<exists>u \<ge> m. (u, sy_id r) \<in> set (snd b)"
    then show ?thesis using growsD(3)[OF bc] by blast
  qed
next
  fix t assume "t \<in> set (snd c)" "fst t < m"
  then show "t \<in> set (snd a)" using growsD(4)[OF ab] growsD(4)[OF bc] by blast
qed

lemma grows_mono: "grows m a b \<Longrightarrow> m' \<le> m \<Longrightarrow> grows m' a b"
  unfolding grows_def by (meson order_less_le_trans order_trans)

lemma update_ids: "map (\<lambda>x. sy_id (if sy_id x = i then \<lparr> sy_id = i, sy_us = s, sy_data = d \<rparr> else x)) rows = map sy_id rows"
  by (rule map_cong) auto

lemma write_row_ok:
  assumes "db_ok clock db" "orderly_write s x (snd db)" "0 \<le> s" "s \<le> clock"
  shows "db_ok clock (write_row s x db)"
proof -
  obtain rows stones where db: "db = (rows, stones)" by (cases db)
  show ?thesis
  proof (cases x)
    case (InsertRow i d)
    then show ?thesis using assms by (auto simp: db db_ok_def list_all_iff)
  next
    case (UpdateRow i d)
    then show ?thesis using assms by (auto simp: db db_ok_def list_all_iff comp_def update_ids)
  next
    case (DeleteRow i)
    then show ?thesis using assms by (auto simp: db db_ok_def distinct_map_filter)
  qed
qed

lemma write_row_grows: "grows s db (write_row s x db)"
proof -
  obtain rows stones where db: "db = (rows, stones)" by (cases db)
  show ?thesis
  proof (cases x)
    case (UpdateRow i d)
    have "sy_id r \<in> sy_id ` (\<lambda>r. if sy_id r = i then \<lparr> sy_id = i, sy_us = s, sy_data = d \<rparr> else r) ` set rows" if "r \<in> set rows" for r
      using that by (intro rev_image_eqI[OF imageI[OF that]]) simp
    then show ?thesis by (auto simp: db grows_def UpdateRow)
  next
    case (DeleteRow i)
    have "sy_id r \<in> sy_id ` {r \<in> set rows. sy_id r \<noteq> i} \<or> sy_id r = i" if "r \<in> set rows" for r using that by blast
    then show ?thesis by (auto simp: db grows_def DeleteRow)
  qed (auto simp: db grows_def)
qed

lemma writes_ok:
  assumes "db_ok clock db" "orderly_writes s xs db" "0 \<le> s" "s \<le> clock"
  shows "db_ok clock (fold (write_row s) xs db) \<and> grows s db (fold (write_row s) xs db)"
  using assms(1,2)
proof (induction xs arbitrary: db)
  case (Cons x xs)
  have "orderly_write s x (snd db)" "orderly_writes s xs (write_row s x db)" using Cons.prems(2) by simp_all
  then show ?case using Cons.IH[OF write_row_ok[OF Cons.prems(1) _ assms(3,4)]] grows_trans[OF write_row_grows[of s db x]] by simp
qed (simp add: grows_refl)

section \<open>The copies of the device\<close>

text \<open>A device without local edits: every row is as the server sent it.\<close>

definition plain_store :: "string \<Rightarrow> 'v local_store \<Rightarrow> bool" where
  "plain_store c st \<longleftrightarrow> (\<forall>i r. ls_records st (c, i) = Some r \<longrightarrow> lo_status r = Synced \<and> lo_localVersion r = 0 \<and> lo_deletedAt r = None)"

primrec change_copy :: "'v server_row sync_change \<Rightarrow> (string \<rightharpoonup> 'v row_data) \<Rightarrow> (string \<rightharpoonup> 'v row_data)" where
  "change_copy (Upsert i row) C = C(i \<mapsto> fst row)"
| "change_copy (Remove i) C = C(i := None)"

primrec change_id :: "'v sync_change \<Rightarrow> string" where
  "change_id (Upsert i row) = i"
| "change_id (Remove i) = i"

lemma plain_copy: "plain_store c st \<Longrightarrow> copy_of c st i = map_option lo_data (ls_records st (c, i))"
  by (auto simp: plain_store_def copy_of_def store_get_def split: option.splits)

lemma apply_change_records:
  assumes "plain_store c st"
  shows "plain_store c (apply_change now c ch st)" "copy_of c (apply_change now c ch st) = change_copy ch (copy_of c st)"
proof -
  have old: "lo_status r = Synced" "lo_localVersion r = 0" "\<not> unconfirmed r" if "ls_records st (c, i) = Some r" for i r
    using assms that by (auto simp: plain_store_def unconfirmed_def)
  show plain: "plain_store c (apply_change now c ch st)"
    using assms old by (cases ch) (auto simp: plain_store_def applyServerUpdate_def applyServerDelete_def Let_def split: option.splits)
  show "copy_of c (apply_change now c ch st) = change_copy ch (copy_of c st)"
  proof
    fix i
    show "copy_of c (apply_change now c ch st) i = change_copy ch (copy_of c st) i" unfolding plain_copy[OF plain]
      using old by (cases ch) (auto simp: plain_copy[OF assms] applyServerUpdate_def applyServerDelete_def Let_def split: option.splits)
  qed
qed

lemma apply_changes_records:
  assumes "plain_store c st"
  shows "plain_store c (fold (apply_change now c) chs st) \<and> copy_of c (fold (apply_change now c) chs st) = fold change_copy chs (copy_of c st)"
  using assms by (induction chs arbitrary: st) (simp_all add: apply_change_records)

lemma drop_records:
  assumes "plain_store c st"
  shows "plain_store c (dropSynced c st)" "copy_of c (dropSynced c st) = Map.empty"
proof -
  show plain: "plain_store c (dropSynced c st)"
    using assms by (auto simp: plain_store_def dropSynced_def split: option.splits if_splits)
  show "copy_of c (dropSynced c st) = Map.empty"
  proof
    fix i
    show "copy_of c (dropSynced c st) i = Map.empty i" unfolding plain_copy[OF plain]
      using assms by (auto simp: dropSynced_def plain_store_def split: option.splits)
  qed
qed

lemma untouched: "i \<notin> change_id ` set chs \<Longrightarrow> fold change_copy chs C i = C i"
proof (induction chs arbitrary: C)
  case (Cons ch chs)
  then show ?case by (cases ch) auto
qed simp

lemma touched_last: "i \<notin> change_id ` set ys \<Longrightarrow> fold change_copy (xs @ Upsert i row # ys) C i = Some (fst row)"
  by (simp add: untouched)

lemma touched_some:
  "fold change_copy chs C i = Some d \<Longrightarrow> i \<notin> change_id ` set chs \<and> C i = Some d \<or> (\<exists>row. Upsert i row \<in> set chs \<and> d = fst row)"
proof (induction chs arbitrary: C)
  case (Cons ch chs)
  have "fold change_copy chs (change_copy ch C) i = Some d" using Cons.prems by simp
  from Cons.IH[OF this] show ?case by (cases ch) (auto split: if_splits)
qed simp

lemma set_changes:
  "Upsert i row \<in> set (changes_of gate items) \<longleftrightarrow> (\<exists>r. PRow r \<in> set items \<and> rg_keep gate r \<and> i = sy_id r \<and> row = rg_shape gate r)"
  "Remove i \<in> set (changes_of gate items) \<longleftrightarrow> (\<exists>u. PStone (u, i) \<in> set items)"
proof -
  have set: "ch \<in> set (changes_of gate items) \<longleftrightarrow> (\<exists>x \<in> set items. ch \<in> set (changes_of gate [x]))" for ch
    by (induction items) (auto simp: changes_of_def)
  have one: "ch \<in> set (changes_of gate [x]) \<longleftrightarrow> (case x of PStone t \<Rightarrow> ch = Remove (snd t)
      | PRow r \<Rightarrow> rg_keep gate r \<and> ch = Upsert (sy_id r) (rg_shape gate r))" for ch x
    by (cases x) (auto simp: changes_of_def)
  show "Upsert i row \<in> set (changes_of gate items) \<longleftrightarrow> (\<exists>r. PRow r \<in> set items \<and> rg_keep gate r \<and> i = sy_id r \<and> row = rg_shape gate r)"
    (is "_ \<longleftrightarrow> ?R")
  proof
    assume "Upsert i row \<in> set (changes_of gate items)"
    then obtain x where x: "x \<in> set items" "Upsert i row \<in> set (changes_of gate [x])" unfolding set[of "Upsert i row"] by blast
    show ?R by (rule pull_item.exhaust[of x]) (use x in \<open>auto simp: one\<close>)
  next
    assume ?R
    then obtain r where "PRow r \<in> set items" "Upsert i row \<in> set (changes_of gate [PRow r])" by (auto simp: one)
    then show "Upsert i row \<in> set (changes_of gate items)" unfolding set[of "Upsert i row"] by blast
  qed
  show "Remove i \<in> set (changes_of gate items) \<longleftrightarrow> (\<exists>u. PStone (u, i) \<in> set items)" (is "_ \<longleftrightarrow> ?R")
  proof
    assume "Remove i \<in> set (changes_of gate items)"
    then obtain x where x: "x \<in> set items" "Remove i \<in> set (changes_of gate [x])" unfolding set[of "Remove i"] by blast
    show ?R by (rule pull_item.exhaust[of x]) (use x in \<open>auto simp: one\<close>)
  next
    assume ?R
    then obtain u where "PStone (u, i) \<in> set items" "Remove i \<in> set (changes_of gate [PStone (u, i)])" by (auto simp: one)
    then show "Remove i \<in> set (changes_of gate items)" unfolding set[of "Remove i"] by blast
  qed
qed

lemma changes_append: "changes_of gate (xs @ ys) = changes_of gate xs @ changes_of gate ys"
  by (simp add: changes_of_def)

lemma changed_ids: "i \<in> change_id ` set (changes_of gate items) \<Longrightarrow> \<exists>x \<in> set items. snd (item_key x) = i"
proof -
  assume "i \<in> change_id ` set (changes_of gate items)"
  then obtain ch where ch: "ch \<in> set (changes_of gate items)" "i = change_id ch" by blast
  show ?thesis
  proof (cases ch)
    case (Upsert j row)
    then obtain r where "PRow r \<in> set items" "i = sy_id r" using ch by (auto simp: set_changes)
    then show ?thesis by (intro bexI[of _ "PRow r"]) (simp_all add: sync_key_def)
  next
    case (Remove j)
    then obtain u where "PStone (u, i) \<in> set items" using ch by (auto simp: set_changes)
    then show ?thesis by (intro bexI[of _ "PStone (u, i)"]) simp_all
  qed
qed

lemma changes_take: "\<exists>m. take n (changes_of gate items) = changes_of gate (take m items)"
proof (induction items arbitrary: n)
  case (Cons x items)
  have one: "changes_of gate (x # items) = changes_of gate [x] @ changes_of gate items" using changes_append[of gate "[x]" items] by simp
  have short: "length (changes_of gate [x]) \<le> 1" by (cases x) (simp_all add: changes_of_def)
  show ?case
  proof (cases n)
    case 0
    then show ?thesis by (intro exI[of _ 0]) (simp add: changes_of_def)
  next
    case (Suc k)
    obtain m where "take (n - length (changes_of gate [x])) (changes_of gate items) = changes_of gate (take m items)" using Cons.IH by blast
    moreover have "take n (changes_of gate [x]) = changes_of gate [x]" using short Suc by simp
    ultimately have "take n (changes_of gate (x # items)) = changes_of gate (take (Suc m) (x # items))"
      unfolding one take_append using changes_append[of gate "[x]" "take m items"] by simp
    then show ?thesis by blast
  qed
qed (simp add: changes_of_def)

end
