(* ===== verification/SyncConverge.thy ===== *)
theory SyncConverge
  imports SyncDevice
begin

text \<open>
  What a device holds: the invariant of the position it keeps, under every order of transactions and
  statements, and that a device that has caught up holds every row it may see that was final, and none that
  was deleted.
\<close>

section \<open>One page\<close>

abbreviation at_key :: "sync_position \<Rightarrow> sync_key" where
  "at_key p \<equiv> (sp_us p, sp_id p)"

definition covers :: "('d, 'v server_row) read_gate \<Rightarrow> 'd sync_row list \<Rightarrow> sync_position \<Rightarrow> (string \<rightharpoonup> 'v row_data) \<Rightarrow> bool" where
  "covers gate rows p C \<longleftrightarrow> (\<forall>r \<in> set rows. sync_key r \<le> at_key p \<and> rg_rule gate r \<and> rg_keep gate r
     \<longrightarrow> C (sy_id r) = Some (fst (rg_shape gate r)))"

definition explained :: "'d sync_row list \<Rightarrow> sync_key list \<Rightarrow> sync_position \<Rightarrow> (string \<rightharpoonup> 'v row_data) \<Rightarrow> bool" where
  "explained rows stones p C \<longleftrightarrow> (\<forall>i. C i \<noteq> None \<longrightarrow> i \<in> sy_id ` set rows
     \<or> (\<exists>u. (u, i) \<in> set stones \<and> at_key p < (u, i) \<and> sp_del p \<le> u))"

text \<open>What the two statements of a page saw, against the tables at its end.\<close>

definition seen_ok :: "int \<Rightarrow> int \<Rightarrow> 'd sync_row list \<Rightarrow> 'd sync_row list \<times> sync_key list \<Rightarrow> bool" where
  "seen_ok clock m rs db \<longleftrightarrow> 0 \<le> m \<and> db_ok clock db \<and> (\<exists>S0. db_ok clock (rs, S0) \<and> grows m (rs, S0) db)"

lemma seen_rows:
  assumes "seen_ok clock m rs (rows, stones)"
  shows "distinct (map sy_id rs)" "distinct stones" "r \<in> set rows \<Longrightarrow> sy_us r < m \<Longrightarrow> r \<in> set rs"
    "q \<in> set rs \<Longrightarrow> sy_id q \<in> sy_id ` set rows \<or> (\<exists>u \<ge> m. (u, sy_id q) \<in> set stones)"
    "q \<in> set rs \<Longrightarrow> (u, sy_id q) \<in> set stones \<Longrightarrow> u < m \<Longrightarrow> u \<le> sy_us q"
    "r \<in> set rows \<Longrightarrow> (u, sy_id r) \<in> set stones \<Longrightarrow> u \<le> sy_us r"
    "q \<in> set rs \<Longrightarrow> 0 \<le> sy_us q" "t \<in> set stones \<Longrightarrow> 0 \<le> fst t"
proof -
  obtain S0 where S0: "db_ok clock (rs, S0)" "grows m (rs, S0) (rows, stones)" and db: "db_ok clock (rows, stones)"
    using assms by (auto simp: seen_ok_def)
  show "distinct (map sy_id rs)" "q \<in> set rs \<Longrightarrow> 0 \<le> sy_us q" using S0(1) by (simp_all add: db_ok_def)
  show "distinct stones" "r \<in> set rows \<Longrightarrow> (u, sy_id r) \<in> set stones \<Longrightarrow> u \<le> sy_us r" "t \<in> set stones \<Longrightarrow> 0 \<le> fst t"
    using db by (auto simp: db_ok_def)
  note g = growsD[OF S0(2), simplified]
  show "r \<in> set rows \<Longrightarrow> sy_us r < m \<Longrightarrow> r \<in> set rs" by (rule g(1))
  show "q \<in> set rs \<Longrightarrow> sy_id q \<in> sy_id ` set rows \<or> (\<exists>u \<ge> m. (u, sy_id q) \<in> set stones)" by (rule g(2))
  assume "q \<in> set rs" "(u, sy_id q) \<in> set stones" "u < m"
  then have "(u, sy_id q) \<in> set S0" using growsD(4)[OF S0(2), of "(u, sy_id q)"] by simp
  then show "u \<le> sy_us q" using S0(1) \<open>q \<in> set rs\<close> by (auto simp: db_ok_def)
qed

lemma page_row_due: "PRow q \<in> set (page_of gate m p rs S) \<Longrightarrow> q \<in> set rs \<and> row_due gate m p q"
  by (rule item_due(1)[OF page_items])

lemma page_stone_due: "PStone t \<in> set (page_of gate m p rs S) \<Longrightarrow> t \<in> set S \<and> stone_due m p t"
  by (rule item_due(2)[OF page_items])

lemma page_past: "x \<in> set (page_of gate m p rs S) \<Longrightarrow> past p (item_key x) \<and> fst (item_key x) < m"
  by (rule item_past[OF page_items])

text \<open>A page does not touch the rows before its position.\<close>

lemma page_spares:
  assumes "seen_ok clock m rs (rows, stones)" "r \<in> set rows" "sync_key r \<le> at_key p" "x \<in> set (page_of gate m (Some p) rs stones)"
  shows "snd (item_key x) \<noteq> sy_id r"
proof
  assume same: "snd (item_key x) = sy_id r"
  have x: "at_key p < item_key x" "fst (item_key x) < m" using page_past[OF assms(4)] by (simp_all add: past_def)
  have key: "sync_key r < item_key x" using assms(3) x(1) by (rule order_le_less_trans)
  have "sy_us r < m" using key x(2) same by (auto simp: sync_key_def less_prod_def split: prod.splits)
  then have r: "r \<in> set rs" using seen_rows(3)[OF assms(1,2)] by simp
  show False
  proof (cases x)
    case (PRow q)
    then have "q \<in> set rs" "sy_id q = sy_id r"
      using page_row_due[of q gate m "Some p" rs stones] assms(4) same by (simp_all add: sync_key_def)
    then have "q = r" using seen_rows(1)[OF assms(1)] r by (auto simp: distinct_map inj_on_def)
    then show False using key PRow by simp
  next
    case (PStone t)
    then have t: "t \<in> set stones" "t = (fst t, sy_id r)"
      using page_stone_due[of t gate m "Some p" rs stones] assms(4) same by (simp_all add: prod_eq_iff)
    then have "fst t \<le> sy_us r" using seen_rows(6)[OF assms(1,2), of "fst t"] by simp
    then have "t \<le> sync_key r" using t(2) by (cases t) (auto simp: sync_key_def less_eq_prod_def)
    then show False using key PStone by simp
  qed
qed

text \<open>Nor does it touch a row of the page after the row itself.\<close>

lemma page_keeps:
  assumes "seen_ok clock m rs (rows, stones)" "r \<in> set rows" "page_of gate m p rs stones = xs @ PRow r # ys" "PRow r \<notin> set ys" "x \<in> set ys"
  shows "snd (item_key x) \<noteq> sy_id r"
proof
  assume same: "snd (item_key x) = sy_id r"
  have x: "x \<in> set (page_of gate m p rs stones)" "PRow r \<in> set (page_of gate m p rs stones)" using assms(3,5) by simp_all
  have "sorted (map item_key (xs @ PRow r # ys))" using page_sorted[of gate m p rs stones] assms(3) by simp
  then have order: "sync_key r \<le> item_key x" using assms(5) by (auto simp: sorted_append)
  have r: "r \<in> set rs" using page_row_due[OF x(2)] by simp
  show False
  proof (cases x)
    case (PRow q)
    then have "q \<in> set rs" "sy_id q = sy_id r"
      using page_row_due[of q gate m p rs stones] x(1) same by (simp_all add: sync_key_def)
    then have "q = r" using seen_rows(1)[OF assms(1)] r by (auto simp: distinct_map inj_on_def)
    then show False using PRow assms(4,5) by simp
  next
    case (PStone t)
    then have t: "t \<in> set stones" "t = (fst t, sy_id r)"
      using page_stone_due[of t gate m p rs stones] x(1) same by (simp_all add: prod_eq_iff)
    then have "fst t \<le> sy_us r" using seen_rows(6)[OF assms(1,2), of "fst t"] by simp
    then have "item_key x = sync_key r" using t(2) order PStone by (cases t) (auto simp: sync_key_def less_eq_prod_def)
    then have "x = PRow r" using item_keys_inj[OF seen_rows(1)[OF assms(1)] page_items[OF x(1)] page_items[OF x(2)]] by simp
    then show False using PStone by simp
  qed
qed

lemma after_seen:
  assumes "seen_ok clock m rs (rows, stones)" "x \<in> set (page_of gate m p rs stones)" "m \<le> u"
  shows "past p (u, i)"
proof (cases p)
  case (Some q)
  then have "at_key q < item_key x" "fst (item_key x) < m" using page_past[OF assms(2)] by (simp_all add: past_def)
  then have "at_key q < (u, i)" using assms(3) by (cases "item_key x") (auto simp: less_prod_def)
  then show ?thesis by (simp add: past_def Some)
qed (simp add: past_def)

text \<open>The copies after some of a page's changes, from copies that were good up to the position.\<close>

lemma part_covers:
  assumes seen: "seen_ok clock m rs (rows, stones)" and old: "covers gate rows p C"
  shows "covers gate rows p (fold change_copy (changes_of gate (take k (page_of gate m (Some p) rs stones))) C)"
  unfolding covers_def
proof (intro ballI impI, elim conjE)
  fix r assume r: "r \<in> set rows" "sync_key r \<le> at_key p" "rg_rule gate r" "rg_keep gate r"
  have "sy_id r \<notin> change_id ` set (changes_of gate (take k (page_of gate m (Some p) rs stones)))"
    using changed_ids page_spares[OF seen r(1,2)] by (blast dest: in_set_takeD)
  then show "fold change_copy (changes_of gate (take k (page_of gate m (Some p) rs stones))) C (sy_id r) = Some (fst (rg_shape gate r))"
    using old r by (simp add: untouched covers_def)
qed

lemma upsert_explained:
  assumes seen: "seen_ok clock m rs (rows, stones)" and "PRow q \<in> set (page_of gate m p rs stones)"
  shows "sy_id q \<in> sy_id ` set rows \<or> (\<exists>u \<ge> m. (u, sy_id q) \<in> set stones \<and> past p (u, sy_id q))"
  using seen_rows(4)[OF seen] page_row_due[OF assms(2)] after_seen[OF seen assms(2)] by blast

lemma empty_at_zero:
  assumes "seen_ok clock m rs (rows, stones)" "x \<in> set (page_of gate m p rs stones)"
  shows "0 < m"
proof (cases x)
  case (PRow q)
  then show ?thesis using page_row_due[of q gate m p rs stones] seen_rows(7)[OF assms(1), of q] assms(2) by (auto simp: row_due_def)
next
  case (PStone t)
  then show ?thesis using page_stone_due[of t gate m p rs stones] seen_rows(8)[OF assms(1), of t] assms(2) by (auto simp: stone_due_def)
qed

lemma part_explained:
  assumes seen: "seen_ok clock m rs (rows, stones)" and old: "explained rows stones p C" and del: "0 < m \<Longrightarrow> sp_del p \<le> m"
  shows "explained rows stones p (fold change_copy (changes_of gate (take k (page_of gate m (Some p) rs stones))) C)"
  unfolding explained_def
proof (intro allI impI)
  fix i assume "fold change_copy (changes_of gate (take k (page_of gate m (Some p) rs stones))) C i \<noteq> None"
  then obtain d where "fold change_copy (changes_of gate (take k (page_of gate m (Some p) rs stones))) C i = Some d" by blast
  from touched_some[OF this] show "i \<in> sy_id ` set rows \<or> (\<exists>u. (u, i) \<in> set stones \<and> at_key p < (u, i) \<and> sp_del p \<le> u)"
  proof
    assume "i \<notin> change_id ` set (changes_of gate (take k (page_of gate m (Some p) rs stones))) \<and> C i = Some d"
    then show ?thesis using old by (auto simp: explained_def)
  next
    assume "\<exists>row. Upsert i row \<in> set (changes_of gate (take k (page_of gate m (Some p) rs stones))) \<and> d = fst row"
    then obtain q where q: "PRow q \<in> set (page_of gate m (Some p) rs stones)" "i = sy_id q"
      by (auto simp: set_changes dest: in_set_takeD)
    have "sp_del p \<le> m" using del empty_at_zero[OF seen q(1)] by blast
    then show ?thesis using upsert_explained[OF seen q(1)] q(2) by (force simp: past_def)
  qed
qed

text \<open>The copies after the whole page.\<close>

definition ready :: "('d, 'v server_row) read_gate \<Rightarrow> 'd sync_row list \<Rightarrow> sync_key list \<Rightarrow> sync_position option \<Rightarrow> (string \<rightharpoonup> 'v row_data) \<Rightarrow> bool" where
  "ready gate rows stones p C \<longleftrightarrow> (case p of None \<Rightarrow> C = Map.empty | Some q \<Rightarrow> covers gate rows q C \<and> explained rows stones q C)"

lemma page_reaches:
  assumes seen: "seen_ok clock m rs (rows, stones)" and old: "ready gate rows stones p C"
    and r: "r \<in> set rows" "rg_rule gate r" "rg_keep gate r"
    and reach: "past p (sync_key r) \<Longrightarrow> sy_us r < m \<and> (full_page gate m p rs stones \<longrightarrow>
      (\<exists>y \<in> set (page_of gate m p rs stones). sync_key r \<le> item_key y))"
  shows "fold change_copy (changes_of gate (page_of gate m p rs stones)) C (sy_id r) = Some (fst (rg_shape gate r))"
proof (cases "past p (sync_key r)")
  case False
  then obtain q where q: "p = Some q" "sync_key r \<le> at_key q" by (cases p) (auto simp: past_def)
  then have "covers gate rows q C" using old by (simp add: ready_def)
  from part_covers[OF seen this, of "length (page_of gate m p rs stones)"] show ?thesis
    using r q unfolding covers_def by simp
next
  case True
  have rs: "r \<in> set rs" using seen_rows(3)[OF seen r(1)] reach[OF True] by simp
  have due: "row_due gate m p r" using True reach[OF True] r(2) by (simp add: row_due_def)
  have "PRow r \<in> set (page_of gate m p rs stones)"
  proof (rule ccontr)
    assume "PRow r \<notin> set (page_of gate m p rs stones)"
    from row_beyond[OF seen_rows(1)[OF seen] rs due this] reach[OF True] show False by force
  qed
  then obtain xs ys where page: "page_of gate m p rs stones = xs @ PRow r # ys" "PRow r \<notin> set ys" by (meson split_list_last)
  have after: "sy_id r \<notin> change_id ` set (changes_of gate ys)"
    using changed_ids page_keeps[OF seen r(1) page] by blast
  have split: "changes_of gate (page_of gate m p rs stones)
      = changes_of gate xs @ Upsert (sy_id r) (rg_shape gate r) # changes_of gate ys"
    using r(3) by (simp add: page changes_of_def)
  show ?thesis unfolding split by (rule touched_last[OF after])
qed

lemma page_explains:
  assumes seen: "seen_ok clock m rs (rows, stones)" and old: "ready gate rows stones p C"
    and del: "\<And>q. p = Some q \<Longrightarrow> 0 < m \<Longrightarrow> sp_del q \<le> m"
    and some: "fold change_copy (changes_of gate (page_of gate m p rs stones)) C i \<noteq> None"
  shows "i \<in> sy_id ` set rows \<or> (\<exists>u. (u, i) \<in> set stones \<and> past p (u, i) \<and> (\<forall>y \<in> set (page_of gate m p rs stones). item_key y < (u, i))
    \<and> (\<forall>q. p = Some q \<longrightarrow> sp_del q \<le> u) \<and> (m \<le> u \<or> p \<noteq> None \<and> full_page gate m p rs stones))"
proof -
  let ?goal = "\<lambda>u. (u, i) \<in> set stones \<and> past p (u, i) \<and> (\<forall>y \<in> set (page_of gate m p rs stones). item_key y < (u, i))
    \<and> (\<forall>q. p = Some q \<longrightarrow> sp_del q \<le> u) \<and> (m \<le> u \<or> p \<noteq> None \<and> full_page gate m p rs stones)"
  have beyond: "item_key y < (u, i)" if "y \<in> set (page_of gate m p rs stones)" "m \<le> u" for y u
    using page_past[OF that(1)] that(2) by (cases "item_key y") (auto simp: less_prod_def)
  have read: "sy_id q \<in> sy_id ` set rows \<or> (\<exists>u. ?goal u)" if q: "PRow q \<in> set (page_of gate m p rs stones)" "i = sy_id q" for q
  proof -
    have "sp_del q' \<le> u" if "m \<le> u" "p = Some q'" for u q' using del[OF that(2) empty_at_zero[OF seen q(1)]] that(1) by simp
    then show ?thesis using upsert_explained[OF seen q(1)] q(2) beyond by blast
  qed
  obtain d where "fold change_copy (changes_of gate (page_of gate m p rs stones)) C i = Some d" using some by blast
  from touched_some[OF this] show ?thesis
  proof
    assume "\<exists>row. Upsert i row \<in> set (changes_of gate (page_of gate m p rs stones)) \<and> d = fst row"
    then show ?thesis using read by (auto simp: set_changes)
  next
    assume un: "i \<notin> change_id ` set (changes_of gate (page_of gate m p rs stones)) \<and> C i = Some d"
    then obtain q where p: "p = Some q" "explained rows stones q C" using old by (cases p) (auto simp: ready_def)
    then consider "i \<in> sy_id ` set rows" | u where "(u, i) \<in> set stones" "at_key q < (u, i)" "sp_del q \<le> u"
      using un by (auto simp: explained_def)
    then show ?thesis
    proof cases
      case 2
      show ?thesis
      proof (cases "m \<le> u")
        case True
        then show ?thesis using 2 p(1) beyond by (auto simp: past_def)
      next
        case False
        then have due: "stone_due m p (u, i)" using 2 p(1) by (simp add: stone_due_def past_def)
        show ?thesis
        proof (cases "\<exists>x \<in> set (page_of gate m p rs stones). item_key x = (u, i)")
          case True
          then obtain x where x: "x \<in> set (page_of gate m p rs stones)" "item_key x = (u, i)" by blast
          show ?thesis
          proof (cases x)
            case (PRow q)
            then show ?thesis using read[of q] x by (simp add: sync_key_def)
          next
            case (PStone t)
            then have "Remove i \<in> set (changes_of gate (page_of gate m p rs stones))" using x by (auto simp: set_changes)
            then show ?thesis using un by (metis change_id.simps(2) imageI)
          qed
        next
          case nowhere: False
          have "full_page gate m p rs stones \<and> (\<forall>y \<in> set (page_of gate m p rs stones). item_key y < (u, i))"
            by (rule stone_beyond[OF seen_rows(1,2)[OF seen] 2(1) due]) (use nowhere in blast)
          then show ?thesis using 2 p(1) by (auto simp: past_def)
        qed
      qed
    qed simp
  qed
qed

text \<open>The next position: past the page, and good for the copies after it.\<close>

lemma full_has_page: "full_page gate m p rs stones \<Longrightarrow> page_of gate m p rs stones \<noteq> []"
  by (auto simp: full_page_def page_of_def PULL_LIMIT_def)

lemma next_position_alt:
  "next_position m p (pull_items gate m p rs stones) =
    (let owed = (if full_page gate m p rs stones \<or> m = 0 then (case p of None \<Rightarrow> m | Some q \<Rightarrow> sp_del q) else m) in
     if page_of gate m p rs stones = [] then map_option (\<lambda>q. q\<lparr> sp_del := owed \<rparr>) p
     else Some \<lparr> sp_del = owed, sp_us = fst (item_key (last (page_of gate m p rs stones))), sp_id = snd (item_key (last (page_of gate m p rs stones))) \<rparr>)"
  by (simp add: next_position_def full_page_def page_of_def Let_def)

lemma next_key:
  assumes "next_position m p (pull_items gate m p rs stones) = Some p'"
  shows "page_of gate m p rs stones \<noteq> [] \<Longrightarrow> at_key p' = item_key (last (page_of gate m p rs stones))"
    "page_of gate m p rs stones = [] \<Longrightarrow> \<exists>q. p = Some q \<and> at_key p' = at_key q"
    "full_page gate m p rs stones \<or> m = 0 \<Longrightarrow> sp_del p' = (case p of None \<Rightarrow> m | Some q \<Rightarrow> sp_del q)"
    "\<not> (full_page gate m p rs stones \<or> m = 0) \<Longrightarrow> sp_del p' = m"
  using assms by (auto simp: next_position_alt Let_def split: if_splits option.splits)

lemma next_covers:
  assumes seen: "seen_ok clock m rs (rows, stones)" and old: "ready gate rows stones p C"
    and p': "next_position m p (pull_items gate m p rs stones) = Some p'"
  shows "covers gate rows p' (fold change_copy (changes_of gate (page_of gate m p rs stones)) C)"
  unfolding covers_def
proof (intro ballI impI, elim conjE)
  fix r assume r: "r \<in> set rows" "sync_key r \<le> at_key p'" "rg_rule gate r" "rg_keep gate r"
  show "fold change_copy (changes_of gate (page_of gate m p rs stones)) C (sy_id r) = Some (fst (rg_shape gate r))"
  proof (rule page_reaches[OF seen old r(1,3,4)])
    assume past: "past p (sync_key r)"
    have page: "page_of gate m p rs stones \<noteq> []"
    proof
      assume "page_of gate m p rs stones = []"
      from next_key(2)[OF p' this] show False using past r(2) by (auto simp: past_def)
    qed
    then have last: "last (page_of gate m p rs stones) \<in> set (page_of gate m p rs stones)" by simp
    have "sync_key r \<le> item_key (last (page_of gate m p rs stones))" using next_key(1)[OF p' page] r(2) by simp
    moreover from this have "sy_us r < m" using page_past[OF last]
      by (cases "item_key (last (page_of gate m p rs stones))") (auto simp: sync_key_def less_eq_prod_def)
    ultimately show "sy_us r < m \<and> (full_page gate m p rs stones \<longrightarrow> (\<exists>y \<in> set (page_of gate m p rs stones). sync_key r \<le> item_key y))"
      using last by blast
  qed
qed

lemma next_explained:
  assumes seen: "seen_ok clock m rs (rows, stones)" and old: "ready gate rows stones p C"
    and del: "\<And>q. p = Some q \<Longrightarrow> 0 < m \<Longrightarrow> sp_del q \<le> m"
    and p': "next_position m p (pull_items gate m p rs stones) = Some p'"
  shows "explained rows stones p' (fold change_copy (changes_of gate (page_of gate m p rs stones)) C)"
  unfolding explained_def
proof (intro allI impI)
  fix i assume "fold change_copy (changes_of gate (page_of gate m p rs stones)) C i \<noteq> None"
  from page_explains[OF seen old del this] consider "i \<in> sy_id ` set rows"
    | u where "(u, i) \<in> set stones" "past p (u, i)" "\<forall>y \<in> set (page_of gate m p rs stones). item_key y < (u, i)"
      "\<forall>q. p = Some q \<longrightarrow> sp_del q \<le> u" "m \<le> u \<or> p \<noteq> None \<and> full_page gate m p rs stones" by blast
  then show "i \<in> sy_id ` set rows \<or> (\<exists>u. (u, i) \<in> set stones \<and> at_key p' < (u, i) \<and> sp_del p' \<le> u)"
  proof cases
    case 2
    have "at_key p' < (u, i)"
    proof (cases "page_of gate m p rs stones = []")
      case True
      then show ?thesis using next_key(2)[OF p' True] 2(2) by (auto simp: past_def)
    next
      case False
      then show ?thesis using next_key(1)[OF p' False] 2(3) by simp
    qed
    moreover have "0 \<le> u" using seen_rows(8)[OF seen 2(1)] by simp
    then have "sp_del p' \<le> u" using next_key(3,4)[OF p'] 2(4,5) seen
      by (cases p; cases "full_page gate m p rs stones \<or> m = 0") (auto simp: seen_ok_def)
    ultimately show ?thesis using 2(1) by blast
  qed simp
qed

lemma next_none:
  assumes "ready gate rows stones p C" "next_position m p (pull_items gate m p rs stones) = None"
  shows "fold change_copy (changes_of gate (page_of gate m p rs stones)) C = Map.empty"
proof -
  have "p = None" "page_of gate m p rs stones = []" using assms(2) by (auto simp: next_position_alt Let_def split: if_splits)
  then show ?thesis using assms(1) by (simp add: ready_def changes_of_def)
qed

lemma next_in_range:
  assumes seen: "seen_ok clock m rs (rows, stones)" and m: "m < 10 ^ 18" "clock < 10 ^ 18"
    and p: "\<And>q. p = Some q \<Longrightarrow> in_range q"
    and p': "next_position m p (pull_items gate m p rs stones) = Some p'"
  shows "in_range p'"
proof -
  have del: "0 \<le> sp_del p' \<and> sp_del p' < 10 ^ 18"
    using next_key(3,4)[OF p'] p seen m by (cases p; cases "full_page gate m p rs stones \<or> m = 0") (auto simp: seen_ok_def in_range_def)
  show ?thesis
  proof (cases "page_of gate m p rs stones = []")
    case True
    then show ?thesis using next_key(2)[OF p' True] p del by (auto simp: in_range_def)
  next
    case False
    define x where "x = last (page_of gate m p rs stones)"
    have x: "x \<in> set (page_of gate m p rs stones)" using False by (simp add: x_def)
    obtain S0 where db: "db_ok clock (rs, S0)" "db_ok clock (rows, stones)" using seen by (auto simp: seen_ok_def)
    have "0 \<le> fst (item_key x) \<and> fst (item_key x) \<le> clock \<and> snd (item_key x) \<noteq> []"
    proof (cases x)
      case (PRow q)
      then show ?thesis using page_row_due[of q gate m p rs stones] x db(1) by (auto simp: db_ok_def sync_key_def)
    next
      case (PStone t)
      then show ?thesis using page_stone_due[of t gate m p rs stones] x db(2) by (auto simp: db_ok_def)
    qed
    moreover have "at_key p' = item_key x" using next_key(1)[OF p' False] by (simp add: x_def)
    ultimately show ?thesis using del m(2) by (cases "item_key x") (auto simp: in_range_def)
  qed
qed

section \<open>The invariant\<close>

definition starts :: "('d, 'v) sync_world \<Rightarrow> int set" where
  "starts w = (\<lambda>x. snd (snd x)) ` set (sw_open w)"

definition tables_ok :: "string \<Rightarrow> ('d, 'v) sync_world \<Rightarrow> bool" where
  "tables_ok c w \<longleftrightarrow> db_ok (sw_clock w) (sw_rows w, sw_stones w) \<and> 0 \<le> sw_clock w \<and> sw_clock w < 10 ^ 18
     \<and> (\<forall>s \<in> starts w. 0 \<le> s \<and> s \<le> sw_clock w) \<and> plain_store c (sw_store w)"

definition mark_ok :: "int \<Rightarrow> int \<Rightarrow> ('d, 'v) sync_world \<Rightarrow> bool" where
  "mark_ok b m w \<longleftrightarrow> b \<le> sw_clock w \<and> 0 \<le> m \<and> m \<le> sw_clock w \<and> (\<forall>s \<in> starts w. m \<le> s)"

definition phase_ok :: "('d, 'v) sync_world \<Rightarrow> bool" where
  "phase_ok w \<longleftrightarrow> (case sw_phase w of
     Idle \<Rightarrow> True
   | Begun b \<Rightarrow> b \<le> sw_clock w
   | Marked b m \<Rightarrow> mark_ok b m w
   | RowsRead b m rs \<Rightarrow> mark_ok b m w \<and> seen_ok (sw_clock w) m rs (sw_rows w, sw_stones w))"

text \<open>Tombstones older than this may be gone: the horizon the pull in flight goes by, else the collector's.\<close>

definition kept_from :: "('d, 'v) sync_world \<Rightarrow> int" where
  "kept_from w = (case sw_phase w of Idle \<Rightarrow> sw_clock w | Begun b \<Rightarrow> b | Marked b m \<Rightarrow> b | RowsRead b m rs \<Rightarrow> b)
     - SYNC_TOMBSTONE_RETENTION"

definition mark_of :: "('d, 'v) sync_world \<Rightarrow> int option" where
  "mark_of w = (case sw_phase w of Marked b m \<Rightarrow> Some m | RowsRead b m rs \<Rightarrow> Some m | _ \<Rightarrow> None)"

definition position_ok :: "('d, 'v server_row) read_gate \<Rightarrow> string \<Rightarrow> ('d, 'v) sync_world \<Rightarrow> sync_position \<Rightarrow> bool" where
  "position_ok gate c w p \<longleftrightarrow> in_range p \<and> sp_us p < sw_clock w \<and> sp_del p \<le> sw_clock w
     \<and> (\<forall>s \<in> starts w. sp_us p < s \<and> sp_del p \<le> s) \<and> (\<forall>m. mark_of w = Some m \<longrightarrow> 0 < m \<longrightarrow> sp_del p \<le> m)
     \<and> (sp_del p < kept_from w \<or> ready gate (sw_rows w) (sw_stones w) (Some p) (copy_of c (sw_store w)))"

definition device_ok :: "token_env \<Rightarrow> ('d, 'v server_row) read_gate \<Rightarrow> string \<Rightarrow> ('d, 'v) sync_world \<Rightarrow> bool" where
  "device_ok E gate c w \<longleftrightarrow> (case sw_cursor w of
     None \<Rightarrow> sw_phase w = Idle \<and> \<not> sw_looping w \<or> copy_of c (sw_store w) = Map.empty
   | Some t \<Rightarrow> \<exists>p. openPosition E c t = Some p \<and> position_ok gate c w p)"

definition sync_ok :: "token_env \<Rightarrow> ('d, 'v server_row) read_gate \<Rightarrow> string \<Rightarrow> ('d, 'v) sync_world \<Rightarrow> bool" where
  "sync_ok E gate c w \<longleftrightarrow> tables_ok c w \<and> phase_ok w \<and> device_ok E gate c w"

lemma ready_grows:
  assumes "ready gate rows stones (Some p) C" "grows m (rows, stones) (rows', stones')" "sp_us p < m" "sp_del p \<le> m"
  shows "ready gate rows' stones' (Some p) C"
proof -
  note g = growsD[OF assms(2), simplified]
  have "r \<in> set rows" if "r \<in> set rows'" "sync_key r \<le> at_key p" for r
    using g(1)[OF that(1)] that(2) assms(3) by (auto simp: sync_key_def less_eq_prod_def)
  then have "covers gate rows' p C" using assms(1) by (simp add: ready_def covers_def)
  moreover have "i \<in> sy_id ` set rows' \<or> (\<exists>u. (u, i) \<in> set stones' \<and> at_key p < (u, i) \<and> sp_del p \<le> u)" if some: "C i \<noteq> None" for i
  proof -
    have "explained rows stones p C" using assms(1) by (simp add: ready_def)
    then consider r where "r \<in> set rows" "i = sy_id r" | u where "(u, i) \<in> set stones" "at_key p < (u, i)" "sp_del p \<le> u"
      using some unfolding explained_def by blast
    then show ?thesis
    proof cases
      case 1
      have "at_key p < (u, i)" "sp_del p \<le> u" if "m \<le> u" for u using that assms(3,4) by (simp_all add: less_prod_def)
      then show ?thesis using g(2)[OF 1(1)] 1(2) by blast
    next
      case 2
      then show ?thesis using g(3)[of "(u, i)"] by blast
    qed
  qed
  ultimately show ?thesis by (simp add: ready_def explained_def)
qed

lemma seen_grows:
  assumes "seen_ok clock m rs db" "grows m db db'" "db_ok clock' db'" "clock \<le> clock'"
  shows "seen_ok clock' m rs db'"
proof -
  obtain S0 where S0: "db_ok clock (rs, S0)" "grows m (rs, S0) db" using assms(1) by (auto simp: seen_ok_def)
  have "db_ok clock' (rs, S0)" using S0(1) assms(4) by (fastforce simp: db_ok_def)
  then show ?thesis using assms(1,3) grows_trans[OF S0(2) assms(2)] by (auto simp: seen_ok_def)
qed

section \<open>Steps of the world\<close>

text \<open>
  A step that leaves the pull and the device alone: time does not go back, no transaction starts before an open one's or
  the clock's time, and the tables grow from the earliest of them.
\<close>

lemma world_step:
  assumes ok: "sync_ok E gate c w"
    and same: "sw_phase w' = sw_phase w" "sw_store w' = sw_store w" "sw_cursor w' = sw_cursor w" "sw_looping w' = sw_looping w"
    and clock: "sw_clock w \<le> sw_clock w'" "sw_clock w' < 10 ^ 18"
    and starts: "starts w' \<subseteq> insert (sw_clock w) (starts w)" "\<And>m. m \<le> sw_clock w \<Longrightarrow> \<forall>s \<in> starts w. m \<le> s \<Longrightarrow> grows m (sw_rows w, sw_stones w) (sw_rows w', sw_stones w')"
    and db: "db_ok (sw_clock w') (sw_rows w', sw_stones w')"
  shows "sync_ok E gate c w'"
proof -
  have tables: "tables_ok c w" and phase: "phase_ok w" and device: "device_ok E gate c w" using ok by (simp_all add: sync_ok_def)
  have "\<forall>s \<in> starts w'. 0 \<le> s \<and> s \<le> sw_clock w'" using starts(1) tables clock(1) by (fastforce simp: tables_ok_def)
  then have "tables_ok c w'" using tables clock same(2) db by (auto simp: tables_ok_def)
  moreover have "phase_ok w'"
  proof -
    have mark: "mark_ok b m w'" if "mark_ok b m w" for b m
      using that starts(1) clock(1) by (fastforce simp: mark_ok_def)
    have "seen_ok (sw_clock w') m rs (sw_rows w', sw_stones w')"
      if "mark_ok b m w" "seen_ok (sw_clock w) m rs (sw_rows w, sw_stones w)" for b m rs
      by (rule seen_grows[OF that(2) starts(2) db clock(1)]) (use that(1) in \<open>simp_all add: mark_ok_def\<close>)
    then show ?thesis using phase mark clock(1) by (auto simp: phase_ok_def same split: pull_phase.splits)
  qed
  moreover have "device_ok E gate c w'"
  proof -
    have kept: "kept_from w \<le> kept_from w'" using clock(1) by (simp add: kept_from_def same split: pull_phase.splits)
    have "position_ok gate c w' p" if p: "position_ok gate c w p" for p
    proof -
      define m where "m = Min (insert (sw_clock w) (starts w))"
      have fin: "finite (insert (sw_clock w) (starts w))" by (simp add: starts_def)
      have m: "m \<le> sw_clock w" "\<forall>s \<in> starts w. m \<le> s" using fin by (simp_all add: m_def)
      have "m \<in> insert (sw_clock w) (starts w)" unfolding m_def by (rule Min_in) (use fin in auto)
      then have below: "sp_us p < m" "sp_del p \<le> m" using p by (auto simp: position_ok_def)
      have "ready gate (sw_rows w') (sw_stones w') (Some p) (copy_of c (sw_store w'))"
        if "ready gate (sw_rows w) (sw_stones w) (Some p) (copy_of c (sw_store w))"
        using ready_grows[OF that starts(2)[OF m] below] same(2) by simp
      moreover have "mark_of w' = mark_of w" by (simp add: mark_of_def same)
      ultimately show ?thesis using p kept starts(1) clock(1) by (fastforce simp: position_ok_def)
    qed
    then show ?thesis using device by (auto simp: device_ok_def same split: option.splits)
  qed
  ultimately show ?thesis by (simp add: sync_ok_def)
qed

lemma ok_parts:
  assumes "sync_ok E gate c w"
  shows "db_ok (sw_clock w) (sw_rows w, sw_stones w)" "0 \<le> sw_clock w" "sw_clock w < 10 ^ 18" "plain_store c (sw_store w)"
    "s \<in> starts w \<Longrightarrow> 0 \<le> s \<and> s \<le> sw_clock w" "phase_ok w" "device_ok E gate c w"
  using assms by (auto simp: sync_ok_def tables_ok_def)

lemma db_ok_mono: "db_ok a db \<Longrightarrow> a \<le> b \<Longrightarrow> db_ok b db"
  by (fastforce simp: db_ok_def)

lemma end_starts: "x \<in> set (end_txn t txns) \<Longrightarrow> x \<in> set txns"
  by (simp add: end_txn_def)

lemma pass_ok:
  assumes "sync_ok E gate c w" "orderly (Pass n) w"
  shows "sync_ok E gate c (sync_step E gate c (Pass n) w)"
  by (rule world_step[OF assms(1)]) (use assms(2) ok_parts[OF assms(1)] in \<open>auto simp: starts_def grows_refl intro: db_ok_mono\<close>)

lemma begin_ok:
  assumes "sync_ok E gate c w"
  shows "sync_ok E gate c (sync_step E gate c (BeginTxn t k) w)"
  by (rule world_step[OF assms(1)]) (use ok_parts[OF assms(1)] in \<open>auto simp: starts_def grows_refl\<close>)

lemma rollback_ok:
  assumes "sync_ok E gate c w"
  shows "sync_ok E gate c (sync_step E gate c (RollbackTxn t) w)"
  by (rule world_step[OF assms(1)]) (use ok_parts[OF assms(1)] in \<open>auto simp: starts_def grows_refl dest: end_starts\<close>)

lemma commit_ok:
  assumes ok: "sync_ok E gate c w" and ord: "orderly (CommitTxn t ws) w"
  shows "sync_ok E gate c (sync_step E gate c (CommitTxn t ws) w)"
proof (cases "txn_start t (sw_open w)")
  case None
  then show ?thesis using ok by simp
next
  case (Some s)
  then obtain k where "map_of (sw_open w) t = Some (k, s)" by (auto simp: txn_start_def)
  then have "(t, k, s) \<in> set (sw_open w)" by (rule map_of_SomeD)
  then have s: "s \<in> starts w" by (force simp: starts_def)
  obtain rows stones where db: "fold (write_row s) ws (sw_rows w, sw_stones w) = (rows, stones)" by (metis prod.exhaust)
  have "orderly_writes s ws (sw_rows w, sw_stones w)" using ord Some by simp
  from writes_ok[OF ok_parts(1)[OF ok] this] have wrote: "db_ok (sw_clock w) (rows, stones)" "grows s (sw_rows w, sw_stones w) (rows, stones)"
    using ok_parts(5)[OF ok s] db by simp_all
  show ?thesis
    by (rule world_step[OF ok]) (use Some db wrote s ok_parts[OF ok] in \<open>auto simp: starts_def intro: grows_mono dest: end_starts\<close>)
qed

lemma ready_purged:
  assumes "ready gate rows stones (Some p) C" "h \<le> sp_del p"
  shows "ready gate rows (filter (\<lambda>t. \<not> fst t < h) stones) (Some p) C"
proof -
  have "explained rows (filter (\<lambda>t. \<not> fst t < h) stones) p C"
    unfolding explained_def
  proof (intro allI impI)
    fix i assume "C i \<noteq> None"
    moreover have "explained rows stones p C" using assms(1) by (simp add: ready_def)
    ultimately consider "i \<in> sy_id ` set rows" | u where "(u, i) \<in> set stones" "at_key p < (u, i)" "sp_del p \<le> u"
      unfolding explained_def by blast
    then show "i \<in> sy_id ` set rows \<or> (\<exists>u. (u, i) \<in> set (filter (\<lambda>t. \<not> fst t < h) stones) \<and> at_key p < (u, i) \<and> sp_del p \<le> u)"
      using assms(2) by cases force+
  qed
  then show ?thesis using assms(1) by (simp add: ready_def)
qed

lemma purge_ok:
  assumes ok: "sync_ok E gate c w" and ord: "orderly Purge w"
  shows "sync_ok E gate c (sync_step E gate c Purge w)"
proof -
  let ?w = "sync_step E gate c Purge w"
  have idle: "sw_phase w = Idle" using ord by simp
  have "tables_ok c ?w" using ok_parts[OF ok] by (auto simp: tables_ok_def db_ok_def starts_def)
  moreover have "phase_ok ?w" by (simp add: phase_ok_def idle)
  moreover have "position_ok gate c ?w p" if "position_ok gate c w p" for p
  proof (cases "sp_del p < kept_from w")
    case False
    then have "ready gate (sw_rows w) (sw_stones w) (Some p) (copy_of c (sw_store w))" using that by (simp add: position_ok_def)
    from ready_purged[OF this] False that show ?thesis by (auto simp: position_ok_def kept_from_def idle starts_def mark_of_def)
  qed (use that in \<open>auto simp: position_ok_def kept_from_def idle starts_def mark_of_def\<close>)
  ultimately show ?thesis using ok_parts(7)[OF ok] idle by (auto simp: sync_ok_def device_ok_def split: option.splits)
qed

section \<open>Steps of the pull\<close>

text \<open>A step of the pull changes no table and no time.\<close>

lemma device_step:
  assumes "sync_ok E gate c w" "sw_clock w' = sw_clock w" "sw_open w' = sw_open w" "sw_rows w' = sw_rows w" "sw_stones w' = sw_stones w"
    and "plain_store c (sw_store w')" "phase_ok w'" "device_ok E gate c w'"
  shows "sync_ok E gate c w'"
  using assms by (simp add: sync_ok_def tables_ok_def starts_def)

lemma watermark_bounds:
  assumes "0 \<le> clock" "\<forall>x \<in> set txns. 0 \<le> snd (snd x)"
  shows "0 \<le> syncWatermarkUs clock txns \<and> syncWatermarkUs clock txns \<le> clock \<and> (\<forall>x \<in> set txns. syncWatermarkUs clock txns \<le> snd (snd x))"
proof -
  have "0 \<le> a \<Longrightarrow> \<forall>x \<in> set xs. 0 \<le> snd (snd x) \<Longrightarrow> 0 \<le> fold (\<lambda>(t, k, s) w. min s w) xs a \<and> fold (\<lambda>(t, k, s) w. min s w) xs a \<le> a
      \<and> (\<forall>x \<in> set xs. fold (\<lambda>(t, k, s) w. min s w) xs a \<le> snd (snd x))" for a :: int and xs :: "(nat \<times> txn_kind \<times> int) list"
  proof (induction xs arbitrary: a)
    case (Cons x xs)
    from Cons.IH[of "min (snd (snd x)) a"] Cons.prems show ?case by (cases x) auto
  qed simp
  from this[OF assms] show ?thesis using assms by (simp add: syncWatermarkUs_def)
qed

lemma watermark_member: "0 < syncWatermarkUs clock txns \<Longrightarrow> syncWatermarkUs clock txns \<in> insert clock ((\<lambda>x. snd (snd x)) ` set txns)"
proof -
  have "fold (\<lambda>(t, k, s) w. min s w) xs a \<in> insert a ((\<lambda>x. snd (snd x)) ` set xs)" for a :: int and xs :: "(nat \<times> txn_kind \<times> int) list"
  proof (induction xs arbitrary: a)
    case (Cons x xs)
    from Cons.IH[of "min (snd (snd x)) a"] show ?case by (cases x) (auto simp: min_def split: if_splits)
  qed simp
  then show "0 < syncWatermarkUs clock txns \<Longrightarrow> ?thesis" by (simp add: syncWatermarkUs_def split: if_splits)
qed

lemma quiet_position:
  assumes "position_ok gate c w p" "sw_clock w' = sw_clock w" "starts w' = starts w" "sw_rows w' = sw_rows w" "sw_stones w' = sw_stones w"
    "sw_store w' = sw_store w" "kept_from w \<le> kept_from w'" "\<And>m. mark_of w' = Some m \<Longrightarrow> 0 < m \<Longrightarrow> sp_del p \<le> m"
  shows "position_ok gate c w' p"
  using assms by (auto simp: position_ok_def)

lemma start_ok:
  assumes ok: "sync_ok E gate c w"
  shows "sync_ok E gate c (sync_step E gate c PullStart w)"
proof (cases "sw_phase w = Idle")
  case True
  let ?w = "sync_step E gate c PullStart w"
  note parts = ok_parts[OF ok]
  show ?thesis
  proof (rule device_step[OF ok])
    show "plain_store c (sw_store ?w)" using drop_records(1)[OF parts(4)] parts(4) True by simp
    show "phase_ok ?w" using True by (simp add: phase_ok_def)
    show "device_ok E gate c ?w"
    proof (cases "sw_cursor w")
      case None
      then show ?thesis using True drop_records(2)[OF parts(4)] by (simp add: device_ok_def)
    next
      case (Some t)
      then obtain p where p: "openPosition E c t = Some p" "position_ok gate c w p" using parts(7) by (auto simp: device_ok_def)
      have "position_ok gate c ?w p" by (rule quiet_position[OF p(2)]) (use True Some in \<open>auto simp: kept_from_def starts_def mark_of_def\<close>)
      then show ?thesis using p(1) Some True by (simp add: device_ok_def)
    qed
  qed (use True in simp_all)
qed (use ok in simp)

lemma phase_only:
  assumes ok: "sync_ok E gate c w" and step: "w' = w\<lparr> sw_phase := ph, sw_looping := l \<rparr>" and phase: "phase_ok w'"
    and kept: "kept_from w \<le> kept_from w'"
    and marks: "\<And>m. mark_of w' = Some m \<Longrightarrow> 0 < m \<Longrightarrow> mark_of w = Some m \<or> m \<in> insert (sw_clock w) (starts w)"
    and looping: "sw_cursor w = None \<Longrightarrow> \<not> (ph = Idle \<and> \<not> l) \<Longrightarrow> \<not> (sw_phase w = Idle \<and> \<not> sw_looping w)"
  shows "sync_ok E gate c w'"
proof (rule device_step[OF ok])
  show "device_ok E gate c w'"
  proof (cases "sw_cursor w")
    case None
    then show ?thesis using ok_parts(7)[OF ok] looping by (auto simp: device_ok_def step)
  next
    case (Some t)
    then obtain p where p: "openPosition E c t = Some p" "position_ok gate c w p" using ok_parts(7)[OF ok] by (auto simp: device_ok_def)
    have "sp_del p \<le> m" if "mark_of w' = Some m" "0 < m" for m
      using marks[OF that] that p(2) by (auto simp: position_ok_def)
    then have "position_ok gate c w' p" by (intro quiet_position[OF p(2)]) (use kept in \<open>simp_all add: step starts_def\<close>)
    then show ?thesis using p(1) Some by (simp add: device_ok_def step)
  qed
qed (use phase ok_parts(4)[OF ok] in \<open>simp_all add: step\<close>)

lemma again_ok:
  assumes ok: "sync_ok E gate c w"
  shows "sync_ok E gate c (sync_step E gate c PullAgain w)"
proof (cases "sw_phase w = Idle \<and> sw_looping w")
  case True
  show ?thesis
    by (rule phase_only[where ph = "Begun (sw_clock w)" and l = "sw_looping w", OF ok]) (use True in \<open>simp_all add: phase_ok_def kept_from_def mark_of_def\<close>)
qed (use ok in auto)

lemma mark_step_ok:
  assumes ok: "sync_ok E gate c w"
  shows "sync_ok E gate c (sync_step E gate c ReadMark w)"
proof (cases "\<exists>b. sw_phase w = Begun b")
  case True
  then obtain b where b: "sw_phase w = Begun b" by blast
  note parts = ok_parts[OF ok]
  let ?m = "syncWatermarkUs (sw_clock w) (sw_open w)"
  have "0 \<le> ?m \<and> ?m \<le> sw_clock w \<and> (\<forall>x \<in> set (sw_open w). ?m \<le> snd (snd x))"
    by (rule watermark_bounds) (use parts in \<open>auto simp: starts_def\<close>)
  moreover have "b \<le> sw_clock w" using parts(6) b by (simp add: phase_ok_def)
  ultimately show ?thesis
    by (intro phase_only[where ph = "Marked b ?m" and l = "sw_looping w", OF ok]) (use b watermark_member[of "sw_clock w" "sw_open w"] in \<open>auto simp: phase_ok_def mark_ok_def starts_def kept_from_def mark_of_def\<close>)
qed (use ok in \<open>auto split: pull_phase.splits\<close>)

lemma rows_step_ok:
  assumes ok: "sync_ok E gate c w"
  shows "sync_ok E gate c (sync_step E gate c ReadRows w)"
proof (cases "\<exists>b m. sw_phase w = Marked b m")
  case True
  then obtain b m where b: "sw_phase w = Marked b m" by blast
  note parts = ok_parts[OF ok]
  have mark: "mark_ok b m w" using parts(6) b by (simp add: phase_ok_def)
  have "seen_ok (sw_clock w) m (sw_rows w) (sw_rows w, sw_stones w)"
    using parts(1) mark grows_refl by (auto simp: seen_ok_def mark_ok_def)
  then show ?thesis using mark
    by (intro phase_only[where ph = "RowsRead b m (sw_rows w)" and l = "sw_looping w", OF ok]) (use b in \<open>auto simp: phase_ok_def mark_ok_def starts_def kept_from_def mark_of_def\<close>)
qed (use ok in \<open>auto split: pull_phase.splits\<close>)

lemma fails_ok:
  assumes ok: "sync_ok E gate c w"
  shows "sync_ok E gate c (w\<lparr> sw_phase := Idle, sw_looping := False \<rparr>)"
  by (rule phase_only[OF ok refl]) (use ok_parts(6)[OF ok] in \<open>auto simp: phase_ok_def mark_ok_def kept_from_def mark_of_def split: pull_phase.splits\<close>)

text \<open>Where an answer starts from.\<close>

lemma answer_start:
  assumes ok: "sync_ok E gate c w" and phase: "sw_phase w = RowsRead b m rs"
    and start: "start_position E c (b - SYNC_TOMBSTONE_RETENTION) (sw_cursor w) = (p, resync)"
  shows "ready gate (sw_rows w) (sw_stones w) p (if resync then Map.empty else copy_of c (sw_store w))"
    "p = Some q \<Longrightarrow> position_ok gate c w q \<and> \<not> resync"
    "resync \<Longrightarrow> \<exists>t q. sw_cursor w = Some t \<and> openPosition E c t = Some q \<and> position_ok gate c w q \<and> sp_del q < b - SYNC_TOMBSTONE_RETENTION"
    "p = None \<Longrightarrow> \<not> resync \<Longrightarrow> sw_cursor w = None"
    "p = Some q \<Longrightarrow> \<exists>t. sw_cursor w = Some t \<and> openPosition E c t = Some q"
proof -
  have device: "device_ok E gate c w" by (rule ok_parts(7)[OF ok])
  have kept: "kept_from w = b - SYNC_TOMBSTONE_RETENTION" by (simp add: kept_from_def phase)
  have "ready gate (sw_rows w) (sw_stones w) p (if resync then Map.empty else copy_of c (sw_store w))
    \<and> (\<forall>q. p = Some q \<longrightarrow> position_ok gate c w q \<and> \<not> resync)
    \<and> (resync \<longrightarrow> (\<exists>t q. sw_cursor w = Some t \<and> openPosition E c t = Some q \<and> position_ok gate c w q \<and> sp_del q < b - SYNC_TOMBSTONE_RETENTION))
    \<and> (p = None \<longrightarrow> \<not> resync \<longrightarrow> sw_cursor w = None)
    \<and> (\<forall>q. p = Some q \<longrightarrow> (\<exists>t. sw_cursor w = Some t \<and> openPosition E c t = Some q))"
  proof (cases "sw_cursor w")
    case None
    then show ?thesis using start device phase by (auto simp: start_position_def device_ok_def ready_def)
  next
    case (Some t)
    then obtain q where q: "openPosition E c t = Some q" "position_ok gate c w q" using device by (auto simp: device_ok_def)
    show ?thesis
    proof (cases "sp_del q < b - SYNC_TOMBSTONE_RETENTION")
      case True
      then show ?thesis using start Some q by (auto simp: start_position_def ready_def)
    next
      case False
      then have "p = Some q" "\<not> resync" using start Some q(1) by (auto simp: start_position_def)
      moreover have "ready gate (sw_rows w) (sw_stones w) (Some q) (copy_of c (sw_store w))" using q(2) False kept by (simp add: position_ok_def)
      ultimately show ?thesis using q Some by auto
    qed
  qed
  then show "ready gate (sw_rows w) (sw_stones w) p (if resync then Map.empty else copy_of c (sw_store w))"
    "p = Some q \<Longrightarrow> position_ok gate c w q \<and> \<not> resync"
    "resync \<Longrightarrow> \<exists>t q. sw_cursor w = Some t \<and> openPosition E c t = Some q \<and> position_ok gate c w q \<and> sp_del q < b - SYNC_TOMBSTONE_RETENTION"
    "p = None \<Longrightarrow> \<not> resync \<Longrightarrow> sw_cursor w = None"
    "p = Some q \<Longrightarrow> \<exists>t. sw_cursor w = Some t \<and> openPosition E c t = Some q"
    by blast+
qed

lemma applied_page:
  assumes "plain_store c st"
  shows "plain_store c (apply_page now c resync chs st)"
    "copy_of c (apply_page now c resync chs st) = fold change_copy chs (if resync then Map.empty else copy_of c st)"
  using apply_changes_records[of c "if resync then dropSynced c st else st" now chs] drop_records[OF assms] assms
  by (simp_all add: apply_page_def)

lemma answer_parts:
  assumes "pull_collection E gate c h m token rs stones = Ok a" "start_position E c h token = (p, resync)"
  shows "pa_changes a = changes_of gate (page_of gate m p rs stones)" "pa_resync a = resync" "pa_full a = full_page gate m p rs stones"
    "next_position m p (pull_items gate m p rs stones) = None \<Longrightarrow> pa_cursor a = None"
    "next_position m p (pull_items gate m p rs stones) = Some q \<Longrightarrow> \<exists>t. pa_cursor a = Some t \<and> sealPosition E c q = Ok t"
  using assms by (auto simp: pull_collection_def page_of_def full_page_def Let_def split: option.splits sum.splits)

text \<open>What an answer is, of a world that is well.\<close>

lemma answer_facts:
  assumes ok: "sync_ok E gate c w" and phase: "sw_phase w = RowsRead b m rs"
    and start: "start_position E c (b - SYNC_TOMBSTONE_RETENTION) (sw_cursor w) = (p, resync)"
  shows "mark_ok b m w" "seen_ok (sw_clock w) m rs (sw_rows w, sw_stones w)" "p = Some q \<Longrightarrow> 0 < m \<Longrightarrow> sp_del q \<le> m" "p = Some q \<Longrightarrow> in_range q"
  using ok_parts(6)[OF ok] phase answer_start(2)[OF ok phase start]
  by (simp_all add: phase_ok_def position_ok_def mark_of_def)

text \<open>The world when an answer has been dealt with.\<close>

lemma answered_ok:
  assumes ok: "sync_ok E gate c w" and phase: "sw_phase w = RowsRead b m rs"
    and store: "plain_store c st" and cursor: "\<And>t. cur = Some t \<Longrightarrow> \<exists>p. openPosition E c t = Some p \<and> in_range p \<and> sp_us p < sw_clock w
      \<and> sp_del p \<le> sw_clock w \<and> (\<forall>s \<in> starts w. sp_us p < s \<and> sp_del p \<le> s)
      \<and> (sp_del p < b - SYNC_TOMBSTONE_RETENTION \<or> ready gate (sw_rows w) (sw_stones w) (Some p) (copy_of c st))"
    and fresh: "cur = None \<Longrightarrow> l \<Longrightarrow> copy_of c st = Map.empty"
  shows "sync_ok E gate c (w\<lparr> sw_store := st, sw_cursor := cur, sw_phase := Idle, sw_looping := l \<rparr>)"
proof (rule device_step[OF ok])
  let ?w = "w\<lparr> sw_store := st, sw_cursor := cur, sw_phase := Idle, sw_looping := l \<rparr>"
  have b: "b \<le> sw_clock w" using ok_parts(6)[OF ok] phase by (simp add: phase_ok_def mark_ok_def)
  show "device_ok E gate c ?w"
  proof (cases cur)
    case None
    then show ?thesis using fresh by (auto simp: device_ok_def)
  next
    case (Some t)
    then obtain p where p: "openPosition E c t = Some p" "in_range p" "sp_us p < sw_clock w" "sp_del p \<le> sw_clock w"
      "\<forall>s \<in> starts w. sp_us p < s \<and> sp_del p \<le> s"
      "sp_del p < b - SYNC_TOMBSTONE_RETENTION \<or> ready gate (sw_rows w) (sw_stones w) (Some p) (copy_of c st)" using cursor by blast
    have "position_ok gate c ?w p" using p(2-6) b by (auto simp: position_ok_def kept_from_def mark_of_def starts_def)
    then show ?thesis using p(1) by (simp add: device_ok_def Some)
  qed
qed (use store in \<open>simp_all add: phase_ok_def\<close>)

lemma old_position:
  assumes "position_ok gate c w p" "sw_phase w = RowsRead b m rs"
    and "sp_del p < b - SYNC_TOMBSTONE_RETENTION \<or> ready gate (sw_rows w) (sw_stones w) (Some p) C"
  shows "in_range p \<and> sp_us p < sw_clock w \<and> sp_del p \<le> sw_clock w \<and> (\<forall>s \<in> starts w. sp_us p < s \<and> sp_del p \<le> s)
    \<and> (sp_del p < b - SYNC_TOMBSTONE_RETENTION \<or> ready gate (sw_rows w) (sw_stones w) (Some p) C)"
  using assms by (auto simp: position_ok_def)

lemma cut_ok:
  assumes ok: "sync_ok E gate c w" and phase: "sw_phase w = RowsRead b m rs"
    and answer: "pull_collection E gate c (b - SYNC_TOMBSTONE_RETENTION) m (sw_cursor w) rs (sw_stones w) = Ok a"
  shows "sync_ok E gate c (receive now (Some n) c a w)"
proof -
  obtain p resync where start: "start_position E c (b - SYNC_TOMBSTONE_RETENTION) (sw_cursor w) = (p, resync)" by (metis prod.exhaust)
  note a = answer_parts[OF answer start] and s = answer_start[OF ok phase start] and f = answer_facts[OF ok phase start]
  let ?page = "page_of gate m p rs (sw_stones w)"
  let ?st = "apply_page now c (pa_resync a) (take n (pa_changes a)) (sw_store w)"
  obtain k where k: "take n (pa_changes a) = changes_of gate (take k ?page)" using changes_take[of n gate ?page] a(1) by auto
  note st = applied_page[OF ok_parts(4)[OF ok], of now resync "take n (pa_changes a)"]
  have "sync_ok E gate c (w\<lparr> sw_store := ?st, sw_cursor := sw_cursor w, sw_phase := Idle, sw_looping := False \<rparr>)"
  proof (rule answered_ok[OF ok phase])
    fix t assume t: "sw_cursor w = Some t"
    show "\<exists>p. openPosition E c t = Some p \<and> in_range p \<and> sp_us p < sw_clock w \<and> sp_del p \<le> sw_clock w
      \<and> (\<forall>s \<in> starts w. sp_us p < s \<and> sp_del p \<le> s)
      \<and> (sp_del p < b - SYNC_TOMBSTONE_RETENTION \<or> ready gate (sw_rows w) (sw_stones w) (Some p) (copy_of c ?st))"
    proof (cases p)
      case None
      then have resync using s(4) t by (cases resync) simp_all
      then obtain q where q: "openPosition E c t = Some q" "position_ok gate c w q" "sp_del q < b - SYNC_TOMBSTONE_RETENTION" using s(3) t by auto
      show ?thesis using old_position[OF q(2) phase] q(1,3) by blast
    next
      case (Some q)
      have q: "openPosition E c t = Some q" "position_ok gate c w q" "\<not> resync" using s(2,5) Some t by auto
      have old: "covers gate (sw_rows w) q (copy_of c (sw_store w))" "explained (sw_rows w) (sw_stones w) q (copy_of c (sw_store w))"
        using s(1) Some q(3) by (simp_all add: ready_def)
      have "ready gate (sw_rows w) (sw_stones w) (Some q) (copy_of c ?st)"
        using part_covers[OF f(2) old(1), of k] part_explained[OF f(2) old(2) f(3)[OF Some], of gate k] st(2) q(3) a(2) k Some
        by (simp add: ready_def)
      then show ?thesis using old_position[OF q(2) phase] q(1) by blast
    qed
  qed (use st a(2) in auto)
  then show ?thesis by (simp add: receive_def)
qed

lemma whole_ok:
  assumes tokens: "readable_positions E" and ok: "sync_ok E gate c w" and phase: "sw_phase w = RowsRead b m rs"
    and answer: "pull_collection E gate c (b - SYNC_TOMBSTONE_RETENTION) m (sw_cursor w) rs (sw_stones w) = Ok a"
  shows "sync_ok E gate c (receive now None c a w)"
proof -
  obtain p resync where start: "start_position E c (b - SYNC_TOMBSTONE_RETENTION) (sw_cursor w) = (p, resync)" by (metis prod.exhaust)
  note a = answer_parts[OF answer start] and s = answer_start[OF ok phase start] and f = answer_facts[OF ok phase start]
  let ?page = "page_of gate m p rs (sw_stones w)"
  let ?st = "apply_page now c (pa_resync a) (pa_changes a) (sw_store w)"
  let ?cur = "case pa_cursor a of None \<Rightarrow> sw_cursor w | Some t \<Rightarrow> Some t"
  note st = applied_page[OF ok_parts(4)[OF ok], of now resync "pa_changes a", folded a(2)]
  have C: "copy_of c ?st = fold change_copy (changes_of gate ?page) (if resync then Map.empty else copy_of c (sw_store w))"
    using st(2) a(1,2) by simp
  have m: "m \<le> sw_clock w" "\<forall>s \<in> starts w. m \<le> s" "m < 10 ^ 18" using f(1) ok_parts(3)[OF ok] by (auto simp: mark_ok_def)
  have "sync_ok E gate c (w\<lparr> sw_store := ?st, sw_cursor := ?cur, sw_phase := Idle, sw_looping := True \<rparr>)"
  proof (rule answered_ok[OF ok phase])
    show "plain_store c ?st" using st(1) .
    fix t assume t: "?cur = Some t"
    show "\<exists>p. openPosition E c t = Some p \<and> in_range p \<and> sp_us p < sw_clock w \<and> sp_del p \<le> sw_clock w
      \<and> (\<forall>s \<in> starts w. sp_us p < s \<and> sp_del p \<le> s)
      \<and> (sp_del p < b - SYNC_TOMBSTONE_RETENTION \<or> ready gate (sw_rows w) (sw_stones w) (Some p) (copy_of c ?st))"
    proof (cases "next_position m p (pull_items gate m p rs (sw_stones w))")
      case None
      then have "p = None" by (auto simp: next_position_alt Let_def split: if_splits)
      moreover have cursor: "sw_cursor w = Some t" using a(4)[OF None] t by simp
      ultimately have resync using s(4) by (cases resync) simp_all
      then obtain q where q: "openPosition E c t = Some q" "position_ok gate c w q" "sp_del q < b - SYNC_TOMBSTONE_RETENTION" using s(3) cursor by auto
      show ?thesis using old_position[OF q(2) phase] q(1,3) by blast
    next
      case (Some p')
      then have sealed: "sealPosition E c p' = Ok t" using a(5)[OF Some] t by auto
      have range: "in_range p'" by (rule next_in_range[OF f(2) m(3) ok_parts(3)[OF ok] f(4) Some])
      have opens: "openPosition E c t = Some p'" by (rule sealed_position[OF tokens range sealed])
      have old: "sp_us q < sw_clock w" "sp_del q \<le> sw_clock w" "\<forall>s \<in> starts w. sp_us q < s \<and> sp_del q \<le> s" if "p = Some q" for q
        using s(2)[OF that] by (simp_all add: position_ok_def)
      have del: "sp_del p' \<le> sw_clock w \<and> (\<forall>s \<in> starts w. sp_del p' \<le> s)"
        using next_key(3,4)[OF Some] m old by (cases p; cases "full_page gate m p rs (sw_stones w) \<or> m = 0") auto
      have us: "sp_us p' < sw_clock w \<and> (\<forall>s \<in> starts w. sp_us p' < s)"
      proof (cases "?page = []")
        case True
        from next_key(2)[OF Some True] show ?thesis using old by auto
      next
        case False
        then have "last ?page \<in> set ?page" by simp
        from page_past[OF this] have "sp_us p' < m" using next_key(1)[OF Some False] by (cases "item_key (last ?page)") auto
        then show ?thesis using m by (auto intro: less_le_trans)
      qed
      have "ready gate (sw_rows w) (sw_stones w) (Some p') (copy_of c ?st)"
        using next_covers[OF f(2) s(1) Some] next_explained[OF f(2) s(1) f(3) Some] C by (simp add: ready_def)
      then show ?thesis using opens range del us by blast
    qed
  next
    assume none: "?cur = None"
    then have "pa_cursor a = None" by (simp split: option.splits)
    then have "next_position m p (pull_items gate m p rs (sw_stones w)) = None"
      using a(5) by (cases "next_position m p (pull_items gate m p rs (sw_stones w))") auto
    from next_none[OF s(1) this] show "copy_of c ?st = Map.empty" using C by simp
  qed
  then show ?thesis by (simp add: receive_def)
qed

section \<open>Convergence\<close>

lemma sync_step_ok:
  assumes "readable_positions E" "sync_ok E gate c w" "orderly e w"
  shows "sync_ok E gate c (sync_step E gate c e w)"
proof (cases e)
  case (ReadStones now stop)
  show ?thesis
  proof (cases "answered E gate c w")
    case (Some answer)
    then obtain b m rs where phase: "sw_phase w = RowsRead b m rs"
      and answer: "answer = pull_collection E gate c (b - SYNC_TOMBSTONE_RETENTION) m (sw_cursor w) rs (sw_stones w)"
      by (auto simp: answered_def split: pull_phase.splits)
    show ?thesis
    proof (cases answer)
      case (Inl err)
      then show ?thesis using fails_ok[OF assms(2)] Some ReadStones by simp
    next
      case (Inr a)
      then have "pull_collection E gate c (b - SYNC_TOMBSTONE_RETENTION) m (sw_cursor w) rs (sw_stones w) = Ok a" using answer by simp
      from cut_ok[OF assms(2) phase this] whole_ok[OF assms(1,2) phase this] show ?thesis
        using Some Inr ReadStones by (cases stop) simp_all
    qed
  qed (use assms(2) ReadStones in simp)
next
  case (Pass n)
  show ?thesis unfolding Pass by (rule pass_ok[OF assms(2)]) (use assms(3) Pass in simp)
next
  case (BeginTxn t k)
  show ?thesis unfolding BeginTxn by (rule begin_ok[OF assms(2)])
next
  case (CommitTxn t ws)
  show ?thesis unfolding CommitTxn by (rule commit_ok[OF assms(2) assms(3)[unfolded CommitTxn]])
next
  case (RollbackTxn t)
  show ?thesis unfolding RollbackTxn by (rule rollback_ok[OF assms(2)])
next
  case Purge
  show ?thesis unfolding Purge by (rule purge_ok[OF assms(2) assms(3)[unfolded Purge]])
next
  case PullStart
  show ?thesis unfolding PullStart by (rule start_ok[OF assms(2)])
next
  case PullAgain
  show ?thesis unfolding PullAgain by (rule again_ok[OF assms(2)])
next
  case ReadMark
  show ?thesis unfolding ReadMark by (rule mark_step_ok[OF assms(2)])
next
  case ReadRows
  show ?thesis unfolding ReadRows by (rule rows_step_ok[OF assms(2)])
next
  case PullFails
  show ?thesis using fails_ok[OF assms(2)] PullFails by simp
qed

lemma sync_run_ok:
  "readable_positions E \<Longrightarrow> sync_ok E gate c w \<Longrightarrow> orderly_run E gate c es w \<Longrightarrow> sync_ok E gate c (sync_run E gate c es w)"
  unfolding sync_run_def by (induction es arbitrary: w) (simp_all add: sync_step_ok)

lemma new_world_ok:
  assumes "0 \<le> clock" "clock < 10 ^ 18" "\<And>i. ls_records st (c, i) = None"
  shows "sync_ok E gate c (new_world clock st)"
  using assms by (simp add: sync_ok_def new_world_def tables_ok_def phase_ok_def device_ok_def db_ok_def starts_def plain_store_def)


section \<open>Instances\<close>

text \<open>Tokens that carry what they seal, and two gates over rows that say whether they may be seen.\<close>

definition position_text :: "jval \<Rightarrow> string" where
  "position_text v = (case v of JObj [(_, JStr d), (_, JStr u), (_, JStr i)] \<Rightarrow> d @ [NUL] @ u @ [NUL] @ i | _ \<Rightarrow> [])"

definition text_position :: "string \<Rightarrow> jval option" where
  "text_position s = (let d = takeWhile (\<lambda>c. c \<noteq> NUL) s; t = drop (length d + 1) s; u = takeWhile (\<lambda>c. c \<noteq> NUL) t; i = drop (length u + 1) t in
     Some (JObj [(''del'', JStr d), (''us'', JStr u), (''id'', JStr i)]))"

definition sync_tokens :: token_env where
  "sync_tokens = demo_tokens\<lparr> te_json := position_text, te_parse := text_position \<rparr>"

lemma int_text_plain: "NUL \<notin> set (int_text n)"
proof -
  have "NUL \<notin> set (dec k)" for k using dec_digit[of NUL k] by (auto simp: is_digit_def)
  then show ?thesis by (auto simp: int_text_def)
qed

lemma sync_tokens_readable: "readable_positions sync_tokens"
proof -
  have until: "takeWhile (\<lambda>c. c \<noteq> NUL) (d @ NUL # r) = d" if "NUL \<notin> set d" for d r
    using that by (simp add: takeWhile_tail) (metis (mono_tags, lifting) takeWhile_eq_all_conv)
  have "sound_tokens sync_tokens"
    by (simp add: sound_tokens_def sync_tokens_def demo_tokens_def demo_open_box) (simp add: demo_box_def)
  moreover have "te_parse sync_tokens (te_json sync_tokens (position_value p)) = Some (position_value p)" for p
    by (simp add: sync_tokens_def position_text_def text_position_def position_value_def until int_text_plain Let_def)
  ultimately show ?thesis by (simp add: readable_positions_def)
qed

definition bool_gate :: "(bool, nat server_row) read_gate" where
  "bool_gate = \<lparr> rg_rule = sy_data, rg_keep = (\<lambda>r. True), rg_shape = (\<lambda>r. ([''n'' \<mapsto> nat (sy_us r)], None)) \<rparr>"

definition empty_store :: "nat local_store" where
  "empty_store = \<lparr> ls_records = Map.empty, ls_queue = [], ls_clock = new_clock ''d'' 0 \<rparr>"

definition first_pull :: "bool sync_event list" where
  "first_pull = [BeginTxn 1 ClientTxn, CommitTxn 1 [InsertRow ''a'' True], Pass 5, PullStart, ReadMark, ReadRows]"

lemma first_pull_state:
  "sync_run sync_tokens bool_gate ''t'' first_pull (new_world 1 empty_store) =
    \<lparr> sw_clock = 6, sw_open = [], sw_rows = [\<lparr> sy_id = ''a'', sy_us = 1, sy_data = True \<rparr>], sw_stones = [], sw_store = empty_store,
      sw_cursor = None, sw_phase = RowsRead 6 6 [\<lparr> sy_id = ''a'', sy_us = 1, sy_data = True \<rparr>], sw_looping = False \<rparr>"
  by (simp add: sync_run_def first_pull_def new_world_def txn_start_def end_txn_def syncWatermarkUs_def dropSynced_def empty_store_def)

lemma first_pull_orderly: "orderly_run sync_tokens bool_gate ''t'' first_pull (new_world 1 empty_store)"
  by (simp add: first_pull_def new_world_def txn_start_def end_txn_def syncWatermarkUs_def)

definition one_row :: "bool sync_row" where
  "one_row = \<lparr> sy_id = ''a'', sy_us = 1, sy_data = True \<rparr>"

lemma first_answer:
  "\<exists>a t. answered sync_tokens bool_gate ''t'' (sync_run sync_tokens bool_gate ''t'' first_pull (new_world 1 empty_store)) = Some (Ok a) \<and> \<not> pa_full a
    \<and> pa_changes a = [Upsert ''a'' ([''n'' \<mapsto> 1], None)] \<and> \<not> pa_resync a
    \<and> pa_cursor a = Some t \<and> sealPosition sync_tokens ''t'' \<lparr> sp_del = 6, sp_us = 1, sp_id = ''a'' \<rparr> = Ok t"
proof -
  have rows: "pull_rows bool_gate 6 None [one_row] = [one_row]"
    by (simp add: pull_rows_def past_def one_row_def bool_gate_def PULL_LIMIT_def)
  have items: "pull_items bool_gate 6 None [one_row] [] = [PRow one_row]"
    by (simp add: pull_items_def rows pull_stones_def merge_items_def)
  have "sealPosition sync_tokens ''t'' p = Ok t \<longleftrightarrow> sealToken sync_tokens (position_value p) (syncCursorAad ''t'') = Ok t" for p t
    by (simp add: sealPosition_def)
  then obtain t where t: "sealPosition sync_tokens ''t'' \<lparr> sp_del = 6, sp_us = 1, sp_id = ''a'' \<rparr> = Ok t"
    by (auto simp: sealToken_def sync_tokens_def demo_tokens_def Let_def)
  have shown: "changes_of bool_gate [PRow one_row] = [Upsert ''a'' ([''n'' \<mapsto> 1], None)]"
    by (simp add: one_row_def changes_of_def bool_gate_def)
  have start: "start_position sync_tokens ''t'' h None = (None, False)" for h by (simp add: start_position_def)
  have "next_position 6 None [PRow one_row] = Some \<lparr> sp_del = 6, sp_us = 1, sp_id = ''a'' \<rparr>"
    by (simp add: next_position_def PULL_LIMIT_def sync_key_def one_row_def)
  then have "pull_collection sync_tokens bool_gate ''t'' h 6 None [one_row] [] =
      Ok \<lparr> pa_changes = [Upsert ''a'' ([''n'' \<mapsto> 1], None)], pa_cursor = Some t, pa_full = False, pa_resync = False \<rparr>" for h
    by (simp add: pull_collection_def items start t PULL_LIMIT_def shown)
  then show ?thesis using t by (simp add: first_pull_state answered_def one_row_def)
qed


text \<open>
  Two things a caught-up device does not hold.  A row that an older transaction inserts again under the id a younger one
  deleted is older than the tombstone: the device takes the row, then the delete.  And a row that is changed so that the
  caller may not see it any more leaves no trace in the pull: the device keeps what it had.
\<close>

definition held_position :: sync_position where
  "held_position = \<lparr> sp_del = 6, sp_us = 1, sp_id = ''a'' \<rparr>"

definition synced_world :: "string \<Rightarrow> (bool, nat) sync_world" where
  "synced_world t = \<lparr> sw_clock = 6, sw_open = [], sw_rows = [one_row], sw_stones = [],
     sw_store = apply_change 7 ''t'' (Upsert ''a'' ([''n'' \<mapsto> 1], None)) empty_store, sw_cursor = Some t, sw_phase = Idle, sw_looping = True \<rparr>"

definition older_writer :: "bool sync_event list" where
  "older_writer = [BeginTxn 2 ClientTxn, Pass 1, BeginTxn 3 ClientTxn, CommitTxn 3 [DeleteRow ''a''], CommitTxn 2 [InsertRow ''a'' True],
     Pass 1, PullAgain, ReadMark, ReadRows, ReadStones 9 None]"

definition withdrawn :: "bool sync_event list" where
  "withdrawn = [BeginTxn 2 ClientTxn, CommitTxn 2 [UpdateRow ''a'' False], Pass 1, PullAgain, ReadMark, ReadRows, ReadStones 9 None]"

lemma held_opens: "sealPosition sync_tokens ''t'' held_position = Ok t \<Longrightarrow> openPosition sync_tokens ''t'' t = Some held_position"
  by (rule sealed_position[OF sync_tokens_readable]) (simp_all add: in_range_def held_position_def)

lemma older_writer_loses_the_row:
  assumes "sealPosition sync_tokens ''t'' held_position = Ok t" and w: "w = sync_run sync_tokens bool_gate ''t'' older_writer (synced_world t)"
  shows "sw_rows w = [\<lparr> sy_id = ''a'', sy_us = 6, sy_data = True \<rparr>] \<and> sw_clock w = 8 \<and> sw_phase w = Idle
    \<and> copy_of ''t'' (sw_store w) ''a'' = None"
proof -
  let ?r = "\<lparr> sy_id = ''a'', sy_us = 6, sy_data = True \<rparr>"
  have start: "start_position sync_tokens ''t'' (8 - SYNC_TOMBSTONE_RETENTION) (Some t) = (Some held_position, False)"
    using held_opens[OF assms(1)] by (simp add: start_position_def SYNC_TOMBSTONE_RETENTION_def held_position_def)
  have items: "pull_items bool_gate 8 (Some held_position) [?r] [(7, ''a'')] = [PRow ?r, PStone (7, ''a'')]"
    by (simp add: pull_items_def pull_rows_def pull_stones_def merge_items_def past_def held_position_def sync_key_def bool_gate_def
        PULL_LIMIT_def)
  have page: "changes_of bool_gate [PRow ?r, PStone (7, ''a'')] = [Upsert ''a'' ([''n'' \<mapsto> 6], None), Remove ''a'']"
    by (simp add: changes_of_def bool_gate_def)
  obtain t' where t': "sealPosition sync_tokens ''t'' \<lparr> sp_del = 8, sp_us = 7, sp_id = ''a'' \<rparr> = Ok t'"
    by (auto simp: sealPosition_def sealToken_def sync_tokens_def demo_tokens_def Let_def)
  have "next_position 8 (Some held_position) [PRow ?r, PStone (7, ''a'')] = Some \<lparr> sp_del = 8, sp_us = 7, sp_id = ''a'' \<rparr>"
    by (simp add: next_position_def PULL_LIMIT_def)
  then have "pull_collection sync_tokens bool_gate ''t'' (8 - SYNC_TOMBSTONE_RETENTION) 8 (Some t) [?r] [(7, ''a'')] =
      Ok \<lparr> pa_changes = [Upsert ''a'' ([''n'' \<mapsto> 6], None), Remove ''a''], pa_cursor = Some t', pa_full = False, pa_resync = False \<rparr>"
    by (simp add: pull_collection_def items start PULL_LIMIT_def page t')
  then show ?thesis
    by (simp add: w sync_run_def older_writer_def synced_world_def one_row_def txn_start_def end_txn_def syncWatermarkUs_def answered_def
        receive_def apply_page_def copy_of_def store_get_def applyServerDelete_def)
qed

lemma withdrawn_row_stays:
  assumes "sealPosition sync_tokens ''t'' held_position = Ok t" and w: "w = sync_run sync_tokens bool_gate ''t'' withdrawn (synced_world t)"
  shows "sw_rows w = [\<lparr> sy_id = ''a'', sy_us = 6, sy_data = False \<rparr>] \<and> sw_phase w = Idle \<and> copy_of ''t'' (sw_store w) ''a'' = Some [''n'' \<mapsto> 1]"
proof -
  let ?r = "\<lparr> sy_id = ''a'', sy_us = 6, sy_data = False \<rparr>"
  have start: "start_position sync_tokens ''t'' (7 - SYNC_TOMBSTONE_RETENTION) (Some t) = (Some held_position, False)"
    using held_opens[OF assms(1)] by (simp add: start_position_def SYNC_TOMBSTONE_RETENTION_def held_position_def)
  have items: "pull_items bool_gate 7 (Some held_position) [?r] [] = []"
    by (simp add: pull_items_def pull_rows_def pull_stones_def merge_items_def bool_gate_def)
  obtain t' where t': "sealPosition sync_tokens ''t'' (held_position\<lparr> sp_del := 7 \<rparr>) = Ok t'"
    by (auto simp: sealPosition_def sealToken_def sync_tokens_def demo_tokens_def Let_def)
  have "next_position 7 (Some held_position) ([] :: bool pull_item list) = Some (held_position\<lparr> sp_del := 7 \<rparr>)"
    by (simp add: next_position_def)
  then have "pull_collection sync_tokens bool_gate ''t'' (7 - SYNC_TOMBSTONE_RETENTION) 7 (Some t) [?r] [] =
      Ok \<lparr> pa_changes = [], pa_cursor = Some t', pa_full = False, pa_resync = False \<rparr>"
    by (simp add: pull_collection_def items start changes_of_def t' Let_def)
  then show ?thesis
    by (simp add: w sync_run_def withdrawn_def synced_world_def one_row_def txn_start_def end_txn_def syncWatermarkUs_def answered_def
        receive_def apply_page_def copy_of_def store_get_def applyServerUpdate_def empty_store_def)
qed

end
