(* ===== verification/Webhooks.thy ===== *)
theory Webhooks
  imports SafeFetch "HOL-Library.AList" "HOL-Library.Word" "HOL-Library.Multiset"
begin

text \<open>
  Webhooks (\<open>lib/webhooks.ts\<close>) and the after-commit queue they wait in
  (\<open>lib/tenancy/tenant-context.ts\<close>): which hooks a write fires and when, the request one delivery
  makes, and the retries of an instance without a cache.

  The record data of a write is any value; \<open>JSON.stringify\<close>, the HMAC, the decryption of a stored
  secret and the reading of a response's text are arguments, \<open>None\<close> when they throw.
\<close>

section \<open>Hooks and payloads\<close>

text \<open>A row of \<open>zvd_webhooks\<close>; a column that may be null is an option.\<close>

record webhook =
  wh_id :: string
  wh_url :: string
  wh_method :: "string option"
  wh_headers :: "headers option"
  wh_events :: "string list"
  wh_collections :: "string list option"
  wh_active :: "bool option"
  wh_secret :: "string option"
  wh_retry_attempts :: "int option"
  wh_timeout :: "int option"
  wh_tenant_id :: "string option"

text \<open>\<open>DeliveryPayload\<close>\<close>

record 'd payload =
  pl_webhookId :: "string option"
  pl_deliveryId :: "string option"
  pl_tenantId :: "string option"
  pl_url :: string
  pl_method :: "string option"
  pl_headers :: "headers option"
  pl_secret :: "string option"
  pl_timeout :: "int option"
  pl_retryAttempts :: "int option"
  pl_attempt :: nat
  pl_event :: string
  pl_collection :: string
  pl_data :: 'd
  pl_timestamp :: string

definition DEFAULT_TENANT_ID :: string where
  "DEFAULT_TENANT_ID = ''00000000-0000-0000-0000-000000000001''"

text \<open>\<open>x || d\<close> on a text and on a number, which may be null.\<close>

definition or_text :: "string option \<Rightarrow> string \<Rightarrow> string" where
  "or_text s d = (case s of Some (c # cs) \<Rightarrow> c # cs | _ \<Rightarrow> d)"

definition or_number :: "int option \<Rightarrow> int \<Rightarrow> int" where
  "or_number n d = (case n of Some m \<Rightarrow> if m = 0 then d else m | None \<Rightarrow> d)"

text \<open>\<open>x ?? d\<close>\<close>

definition nullish :: "'a option \<Rightarrow> 'a \<Rightarrow> 'a" where
  "nullish x d = (case x of Some y \<Rightarrow> y | None \<Rightarrow> d)"

lemma nullish_simps [simp]: "nullish (Some x) d = x" "nullish None d = d"
  by (simp_all add: nullish_def)

section \<open>One delivery\<close>

definition BLOCKED_HEADERS :: "string list" where
  "BLOCKED_HEADERS = [''authorization'', ''cookie'', ''set-cookie'', ''host'', ''x-forwarded-for'', ''x-real-ip'',
     ''x-forwarded-host'', ''x-original-url'', ''x-rewrite-url'', ''proxy-authorization'', ''www-authenticate'']"

text \<open>\<open>o[k] = v\<close> on a plain object of texts: a text assigned to \<open>__proto__\<close> is ignored.\<close>

definition object_put :: "string \<Rightarrow> string \<Rightarrow> headers \<Rightarrow> headers" where
  "object_put k v hs = (if k = ''__proto__'' then hs else AList.update k v hs)"

definition safeCustomHeaders :: "headers \<Rightarrow> headers" where
  "safeCustomHeaders hs =
    fold (\<lambda>(k, v) out. if js_lower k \<in> set BLOCKED_HEADERS then out else object_put k v out) hs []"

definition SIGNATURE :: string where
  "SIGNATURE = ''X-Zveltio-Signature''"

definition hex_digit :: "nat \<Rightarrow> char" where
  "hex_digit n = ''0123456789abcdef'' ! n"

definition hex_bytes :: "8 word list \<Rightarrow> string" where
  "hex_bytes bs = concat (map (\<lambda>b. [hex_digit (unat b div 16), hex_digit (unat b mod 16)]) bs)"

text \<open>What a delivery is given: the web, and the functions of the platform.\<close>

record 'd sender =
  sd_web :: web
  sd_body :: "string \<Rightarrow> string \<Rightarrow> 'd \<Rightarrow> string \<Rightarrow> string option"
  sd_hmac :: "string \<Rightarrow> string \<Rightarrow> 8 word list"
  sd_text :: "response \<Rightarrow> string option"

definition signature_of :: "'d sender \<Rightarrow> string \<Rightarrow> string \<Rightarrow> string" where
  "signature_of sd secret body = ''sha256='' @ hex_bytes (sd_hmac sd secret body)"

definition delivery_headers :: "'d sender \<Rightarrow> 'd payload \<Rightarrow> string \<Rightarrow> headers" where
  "delivery_headers sd p body =
    (let headers = fold (\<lambda>(k, v). AList.update k v) (safeCustomHeaders (nullish (pl_headers p) []))
           [(''Content-Type'', ''application/json'')];
         secret = or_text (pl_secret p) [] in
     if secret = [] then headers else AList.update SIGNATURE (signature_of sd secret body) headers)"

text \<open>The time a delivery may take, in milliseconds.\<close>

definition delivery_timeout :: "'d payload \<Rightarrow> int" where
  "delivery_timeout p = min (max (or_number (pl_timeout p) 5000) 100) 30000"

datatype delivery_error = NotSerialised | RefusedUrl url_error | NoResponse fetch_error

record outcome =
  oc_ok :: bool
  oc_status :: "nat option"
  oc_body :: "string option"
  oc_error :: "delivery_error option"

definition not_delivered :: "delivery_error \<Rightarrow> outcome" where
  "not_delivered e = \<lparr> oc_ok = False, oc_status = None, oc_body = None, oc_error = Some e \<rparr>"

definition answered_outcome :: "'d sender \<Rightarrow> response \<Rightarrow> outcome" where
  "answered_outcome sd r = \<lparr> oc_ok = (200 \<le> rs_status r \<and> rs_status r \<le> 299), oc_status = Some (rs_status r),
     oc_body = map_option (take 2000) (sd_text sd r), oc_error = None \<rparr>"

definition delivery_init :: "'d sender \<Rightarrow> 'd payload \<Rightarrow> string \<Rightarrow> given_init" where
  "delivery_init sd p body = \<lparr> ri_method = Some (or_text (pl_method p) ''POST''), ri_headers = delivery_headers sd p body,
     ri_body = Some body, ri_redirect = None, ri_serverName = None, ri_proxy = False, gi_headers = True, gi_body = True \<rparr>"

text \<open>The requests a delivery makes, in order, and what came of it.\<close>

definition deliver :: "'d sender \<Rightarrow> 'd payload \<Rightarrow> sent list \<times> outcome" where
  "deliver sd p =
    (case sd_body sd (pl_event p) (pl_collection p) (pl_data p) (pl_timestamp p) of
       None \<Rightarrow> ([], not_delivered NotSerialised)
     | Some body \<Rightarrow>
        (case validatePublicUrl (as_parser (sd_web sd)) (pl_url p) of
           Inl e \<Rightarrow> ([], not_delivered (RefusedUrl e))
         | Inr _ \<Rightarrow>
            (case safeFetch (sd_web sd) (\<lambda>u. True) False (ByUrl (pl_url p)) (Some (delivery_init sd p body)) of
               (log, Inl e) \<Rightarrow> (log, not_delivered (NoResponse e))
             | (log, Inr a) \<Rightarrow> (log, answered_outcome sd (an_response a)))))"

abbreviation delivers :: "'d sender \<Rightarrow> 'd payload \<Rightarrow> bool" where
  "delivers sd p \<equiv> oc_ok (snd (deliver sd p))"

section \<open>Stored secrets\<close>

text \<open>
  \<open>lib/data/field-crypto.ts\<close>: the key of the environment, whether plaintext is allowed, and the keyring, which may
  refuse a text.
\<close>

record field_keys =
  fk_key :: string
  fk_plaintext :: bool
  fk_encrypt :: "string \<Rightarrow> string option"
  fk_decrypt :: "string \<Rightarrow> string option"

definition ENC_PREFIX :: string where
  "ENC_PREFIX = ''enc:v1:''"

definition isEncryptedValue :: "string \<Rightarrow> bool" where
  "isEncryptedValue v \<longleftrightarrow> starts_with ENC_PREFIX v"

definition key_has_shape :: "field_keys \<Rightarrow> bool" where
  "key_has_shape fk \<longleftrightarrow> length (fk_key fk) = 64 \<and> list_all is_hex (fk_key fk)"

definition encryptField :: "field_keys \<Rightarrow> string \<Rightarrow> string option" where
  "encryptField fk v = (if key_has_shape fk then fk_encrypt fk v else None)"

definition decryptField :: "field_keys \<Rightarrow> string \<Rightarrow> string option" where
  "decryptField fk v = (if \<not> isEncryptedValue v then Some v else if key_has_shape fk then fk_decrypt fk v else None)"

text \<open>Both on a text of an encrypted column; \<open>None\<close> when it throws.\<close>

definition maybeEncrypt :: "field_keys \<Rightarrow> string \<Rightarrow> string option" where
  "maybeEncrypt fk v = (if isEncryptedValue v then Some v
     else if fk_key fk = [] then (if fk_plaintext fk then Some v else None)
     else encryptField fk v)"

definition maybeDecrypt :: "field_keys \<Rightarrow> string \<Rightarrow> string" where
  "maybeDecrypt fk v = (if isEncryptedValue v then nullish (decryptField fk v) v else v)"

text \<open>The secret a delivery is signed with: a stored one that is empty is none.\<close>

definition signing_secret :: "field_keys \<Rightarrow> string option \<Rightarrow> string option" where
  "signing_secret fk stored = (case stored of
     None \<Rightarrow> None
   | Some s \<Rightarrow> if s = [] then None else Some (maybeDecrypt fk s))"

section \<open>Delivery rows\<close>

record delivery_row =
  dr_webhook_id :: string
  dr_tenant_id :: string
  dr_attempt :: nat
  dr_max_attempts :: int
  dr_status :: "nat option"
  dr_response_body :: "string option"
  dr_error :: "delivery_error option"
  dr_delivered :: bool

type_synonym delivery_rows = "string \<rightharpoonup> delivery_row"

text \<open>A row is written as the payload's tenant, and the tenant policy hides every other tenant's.\<close>

definition recordOutcome :: "'d payload \<Rightarrow> (delivery_row \<Rightarrow> delivery_row) \<Rightarrow> delivery_rows \<Rightarrow> delivery_rows" where
  "recordOutcome p change rows =
    (let id = or_text (pl_deliveryId p) [] in
     if id = [] then rows
     else (case rows id of
       None \<Rightarrow> rows
     | Some r \<Rightarrow> if dr_tenant_id r = nullish (pl_tenantId p) DEFAULT_TENANT_ID then rows(id \<mapsto> change r) else rows))"

definition outcome_row :: "outcome \<Rightarrow> delivery_row \<Rightarrow> delivery_row" where
  "outcome_row oc r = r\<lparr> dr_status := oc_status oc, dr_response_body := oc_body oc, dr_error := oc_error oc,
     dr_delivered := oc_ok oc \<rparr>"

section \<open>Retries without a cache\<close>

definition max_attempts :: "'d payload \<Rightarrow> int" where
  "max_attempts p = nullish (pl_retryAttempts p) 3"

text \<open>
  From one attempt on: the outcomes, the pauses in milliseconds, whether it was delivered, and the rows.  The
  platform may answer each attempt differently.
\<close>

function deliver_from :: "(nat \<Rightarrow> 'd sender) \<Rightarrow> 'd payload \<Rightarrow> nat \<Rightarrow> delivery_rows
    \<Rightarrow> outcome list \<times> nat list \<times> bool \<times> delivery_rows" where
  "deliver_from sds p attempt rows =
    (let oc = snd (deliver (sds attempt) (p\<lparr> pl_attempt := attempt \<rparr>));
         rows' = recordOutcome p (outcome_row oc) rows in
     if oc_ok oc then ([oc], [], True, rows')
     else if max_attempts p \<le> int attempt then
       ([oc], [], False, recordOutcome p (\<lambda>r. r\<lparr> dr_attempt := attempt + 1 \<rparr>) rows')
     else (case deliver_from sds p (attempt + 1) rows' of
       (ocs, pauses, ok, rows'') \<Rightarrow> (oc # ocs, 2 ^ attempt * 1000 # pauses, ok, rows'')))"
  by pat_completeness auto
termination by (relation "measure (\<lambda>(sds, p, attempt, rows). nat (max_attempts p - int attempt))") auto

declare deliver_from.simps [simp del]

definition deliverWithRetries :: "(nat \<Rightarrow> 'd sender) \<Rightarrow> 'd payload \<Rightarrow> delivery_rows
    \<Rightarrow> outcome list \<times> nat list \<times> bool \<times> delivery_rows" where
  "deliverWithRetries sds p rows = deliver_from sds p 0 rows"

section \<open>Which hooks a write fires\<close>

text \<open>A write as \<open>trigger\<close> is told of it.\<close>

record 'd data_write =
  wr_event :: string
  wr_collection :: string
  wr_data :: 'd
  wr_tenant :: "string option"

definition write_tenant :: "'d data_write \<Rightarrow> string" where
  "write_tenant w = nullish (wr_tenant w) DEFAULT_TENANT_ID"

text \<open>The \<open>WHERE\<close> of the lookup.\<close>

definition hook_matches :: "'d data_write \<Rightarrow> webhook \<Rightarrow> bool" where
  "hook_matches w h \<longleftrightarrow> wh_active h = Some True \<and> wh_tenant_id h = Some (write_tenant w)
     \<and> (wr_event w \<in> set (wh_events h) \<or> ''*'' \<in> set (wh_events h))
     \<and> (case wh_collections h of
          None \<Rightarrow> True
        | Some cs \<Rightarrow> cs = [] \<or> wr_collection w \<in> set cs \<or> ''*'' \<in> set cs)"

definition new_delivery_row :: "'d data_write \<Rightarrow> webhook \<Rightarrow> delivery_row" where
  "new_delivery_row w h = \<lparr> dr_webhook_id = wh_id h, dr_tenant_id = nullish (wh_tenant_id h) (write_tenant w), dr_attempt = 1,
     dr_max_attempts = nullish (wh_retry_attempts h) 3, dr_status = None, dr_response_body = None, dr_error = None,
     dr_delivered = False \<rparr>"

definition hook_payload :: "field_keys \<Rightarrow> string \<Rightarrow> 'd data_write \<Rightarrow> webhook \<times> string option \<Rightarrow> 'd payload" where
  "hook_payload fk now w = (\<lambda>(h, deliveryId).
     \<lparr> pl_webhookId = Some (wh_id h), pl_deliveryId = deliveryId,
       pl_tenantId = Some (nullish (wh_tenant_id h) (write_tenant w)), pl_url = wh_url h,
       pl_method = Some (or_text (wh_method h) ''POST''), pl_headers = Some (nullish (wh_headers h) []),
       pl_secret = signing_secret fk (wh_secret h), pl_timeout = Some (or_number (wh_timeout h) 5000),
       pl_retryAttempts = Some (nullish (wh_retry_attempts h) 3), pl_attempt = 0, pl_event = wr_event w,
       pl_collection = wr_collection w, pl_data = wr_data w, pl_timestamp = now \<rparr>)"

text \<open>
  The hooks that match, each with the id of its delivery row, \<open>None\<close> when the insert was refused; and the rows with
  those added.
\<close>

definition matching :: "(webhook \<Rightarrow> string option) \<Rightarrow> 'd data_write \<Rightarrow> webhook list \<Rightarrow> (webhook \<times> string option) list" where
  "matching inserted w hooks = map (\<lambda>h. (h, inserted h)) (filter (hook_matches w) hooks)"

definition insert_rows :: "'d data_write \<Rightarrow> (webhook \<times> string option) list \<Rightarrow> delivery_rows \<Rightarrow> delivery_rows" where
  "insert_rows w found rows =
    fold (\<lambda>(h, deliveryId) rs. case deliveryId of None \<Rightarrow> rs | Some i \<Rightarrow> rs(i \<mapsto> new_delivery_row w h)) found rows"

text \<open>
  One lookup and the payloads it hands over: the lookup may fail, and a push to the queue that throws ends the loop.
\<close>

fun push_all :: "(nat \<Rightarrow> bool) \<Rightarrow> nat \<Rightarrow> 'a list \<Rightarrow> 'a list" where
  "push_all accepts k [] = []"
| "push_all accepts k (x # xs) = (if accepts k then x # push_all accepts (k + 1) xs else [])"

definition handed :: "field_keys \<Rightarrow> string \<Rightarrow> (nat \<Rightarrow> bool) \<Rightarrow> 'd data_write \<Rightarrow> (webhook \<times> string option) list \<Rightarrow> 'd payload list" where
  "handed fk now accepts w found = push_all accepts 0 (map (hook_payload fk now w) found)"

text \<open>One run of \<open>trigger\<close> outside a transaction: the table's rows as the lookup lists them, \<open>None\<close> when it fails.\<close>

record surroundings =
  su_hooks :: "webhook list option"
  su_inserted :: "webhook \<Rightarrow> string option"
  su_accepts :: "nat \<Rightarrow> bool"
  su_now :: string

definition trigger_now :: "field_keys \<Rightarrow> surroundings \<Rightarrow> 'd data_write \<Rightarrow> delivery_rows \<Rightarrow> delivery_rows \<times> 'd payload list" where
  "trigger_now fk su w rows = (case su_hooks su of
     None \<Rightarrow> (rows, [])
   | Some hooks \<Rightarrow> (let found = matching (su_inserted su) w hooks in
       (insert_rows w found rows, handed fk (su_now su) (su_accepts su) w found)))"

section \<open>Waiting for the commit\<close>

datatype trx_state = Open | Committed | RolledBack

record 'j after_commit_queue =
  ac_jobs :: "'j list"
  ac_state :: trx_state

text \<open>The queue as a job leaves it, and whether the job runs now in the context outside the transaction.\<close>

definition onAfterCommit :: "'j \<Rightarrow> 'j after_commit_queue \<Rightarrow> 'j after_commit_queue \<times> bool" where
  "onAfterCommit j q = (case ac_state q of
     Open \<Rightarrow> (q\<lparr> ac_jobs := ac_jobs q @ [j] \<rparr>, False)
   | Committed \<Rightarrow> (q, True)
   | RolledBack \<Rightarrow> (q, False))"

definition settleAfterCommit :: "'j after_commit_queue \<Rightarrow> bool \<Rightarrow> 'j after_commit_queue \<times> 'j list" where
  "settleAfterCommit q committed =
    (q\<lparr> ac_state := (if committed then Committed else RolledBack), ac_jobs := [] \<rparr>, if committed then ac_jobs q else [])"

text \<open>
  A transaction is named by its number and those of the transactions it was opened in, the innermost first; \<open>[]\<close> is
  no transaction.
\<close>

type_synonym trx_path = "nat list"
type_synonym 'j trxs = "trx_path \<rightharpoonup> 'j after_commit_queue"

text \<open>
  \<open>trigger\<close>: inside a transaction it queues itself, to be called again in the context outside, where it looks up the
  hooks when that is none.
\<close>

fun trigger :: "trx_path \<Rightarrow> 'j \<Rightarrow> 'j trxs \<Rightarrow> 'j trxs \<times> 'j list" where
  "trigger [] w ts = (ts, [w])"
| "trigger (i # outer) w ts = (case ts (i # outer) of
     None \<Rightarrow> (ts, [])
   | Some q \<Rightarrow> (case onAfterCommit w q of
       (q', runs) \<Rightarrow> if runs then trigger outer w (ts(i # outer \<mapsto> q')) else (ts(i # outer \<mapsto> q'), [])))"

fun run_jobs :: "trx_path \<Rightarrow> 'j list \<Rightarrow> 'j trxs \<Rightarrow> 'j trxs \<times> 'j list" where
  "run_jobs outer [] ts = (ts, [])"
| "run_jobs outer (j # js) ts = (case trigger outer j ts of (ts', out) \<Rightarrow>
     (case run_jobs outer js ts' of (ts'', out') \<Rightarrow> (ts'', out @ out')))"

text \<open>Every transaction of a path has been opened.\<close>

fun begun :: "trx_path \<Rightarrow> 'j trxs \<Rightarrow> bool" where
  "begun [] ts \<longleftrightarrow> True"
| "begun (i # outer) ts \<longleftrightarrow> i # outer \<in> dom ts \<and> begun outer ts"

text \<open>
  What happens to the transactions of a process: one is opened in a context that there is, a write triggers in one,
  also when that has ended, and one ends.
\<close>

datatype 'j trx_event = Begin trx_path | Fires trx_path 'j | Ends trx_path bool

fun trx_step :: "'j trx_event \<Rightarrow> 'j trxs \<Rightarrow> 'j trxs \<times> 'j list" where
  "trx_step (Begin p) ts =
    (if p \<noteq> [] \<and> begun (tl p) ts \<and> p \<notin> dom ts then (ts(p \<mapsto> \<lparr> ac_jobs = [], ac_state = Open \<rparr>), []) else (ts, []))"
| "trx_step (Fires p w) ts = (if begun p ts then trigger p w ts else (ts, []))"
| "trx_step (Ends p committed) ts = (case ts p of
     None \<Rightarrow> (ts, [])
   | Some q \<Rightarrow> if ac_state q \<noteq> Open then (ts, [])
       else (case settleAfterCommit q committed of (q', js) \<Rightarrow> run_jobs (tl p) js (ts(p \<mapsto> q'))))"

text \<open>A history: the transactions at the end, the writes whose hooks were looked up, and those that triggered.\<close>

fun trx_run :: "'j trx_event list \<Rightarrow> 'j trxs \<Rightarrow> 'j trxs \<times> 'j list" where
  "trx_run [] ts = (ts, [])"
| "trx_run (e # es) ts = (case trx_step e ts of (ts', out) \<Rightarrow>
     (case trx_run es ts' of (ts'', out') \<Rightarrow> (ts'', out @ out')))"

fun fired :: "'j trx_event list \<Rightarrow> 'j trxs \<Rightarrow> (trx_path \<times> 'j) list" where
  "fired [] ts = []"
| "fired (e # es) ts = (case e of Fires p w \<Rightarrow> if begun p ts then [(p, w)] else [] | _ \<Rightarrow> []) @ fired es (fst (trx_step e ts))"

text \<open>
  What became of a context: it is committed when each of its transactions is; else the innermost that is not decides.
  That one holds what was triggered in it.
\<close>

fun fate :: "trx_path \<Rightarrow> 'j trxs \<Rightarrow> trx_state" where
  "fate [] ts = Committed"
| "fate (i # outer) ts = (case ts (i # outer) of
     None \<Rightarrow> RolledBack
   | Some q \<Rightarrow> if ac_state q = Committed then fate outer ts else ac_state q)"

fun holder :: "trx_path \<Rightarrow> 'j trxs \<Rightarrow> trx_path" where
  "holder [] ts = []"
| "holder (i # outer) ts = (case ts (i # outer) of
     Some q \<Rightarrow> if ac_state q = Committed then holder outer ts else i # outer
   | None \<Rightarrow> i # outer)"

lemma fate_holder:
  "begun p ts \<Longrightarrow> (fate p ts = Committed \<longleftrightarrow> holder p ts = []) \<and>
    (holder p ts \<noteq> [] \<longrightarrow> (\<exists>q. ts (holder p ts) = Some q \<and> ac_state q = fate p ts \<and> ac_state q \<noteq> Committed))"
  by (induction p) (auto split: if_splits)

text \<open>Jobs handed to a context go to its holder.\<close>

definition give :: "trx_path \<Rightarrow> 'j list \<Rightarrow> 'j trxs \<Rightarrow> 'j trxs \<times> 'j list" where
  "give h js ts = (if h = [] then (ts, js)
     else (case ts h of
       Some q \<Rightarrow> if ac_state q = Open then (ts(h \<mapsto> q\<lparr> ac_jobs := ac_jobs q @ js \<rparr>), []) else (ts, [])
     | None \<Rightarrow> (ts, [])))"

lemma trigger_gives: "trigger p w ts = give (holder p ts) [w] ts"
proof (induction p)
  case (Cons i outer)
  show ?case
  proof (cases "ts (i # outer)")
    case (Some q)
    then show ?thesis
      using Cons.IH by (cases "ac_state q") (simp_all add: onAfterCommit_def give_def fun_upd_idem)
  qed (simp add: give_def)
qed (simp add: give_def)

lemma holder_same_states:
  assumes "\<And>x. map_option ac_state (ts' x) = map_option ac_state (ts x)"
  shows "holder p ts' = holder p ts" "fate p ts' = fate p ts" "begun p ts' = begun p ts"
proof (induction p)
  case (Cons i outer)
  case 1 then show ?case using Cons assms [of "i # outer"] by (cases "ts (i # outer)") auto
  case 2 then show ?case using Cons assms [of "i # outer"] by (cases "ts (i # outer)") auto
  case 3 then show ?case using Cons assms [of "i # outer"] by (cases "ts (i # outer)") auto
qed auto

lemma give_states: "map_option ac_state (fst (give h js ts) x) = map_option ac_state (ts x)"
  by (auto simp: give_def split: option.splits)

lemma give_twice: "(case give h js ts of (ts', out) \<Rightarrow> (case give h ks ts' of (ts'', out') \<Rightarrow> (ts'', out @ out'))) = give h (js @ ks) ts"
  by (auto simp: give_def split: option.splits)

lemma give_none: "give h [] ts = (ts, [])"
  by (auto simp: give_def fun_upd_idem split: option.splits)

lemma run_jobs_gives: "run_jobs p js ts = give (holder p ts) js ts"
proof (induction js arbitrary: ts)
  case (Cons j js)
  have "holder p (fst (give (holder p ts) [j] ts)) = holder p ts"
    by (rule holder_same_states(1) [OF give_states])
  then show ?case
    using Cons.IH give_twice [where h = "holder p ts" and js = "[j]" and ts = ts and ks = js]
    by (simp add: trigger_gives split: prod.splits)
qed (simp add: give_none)

subsection \<open>Every write is announced, held or dropped\<close>

definition held :: "(trx_path \<times> 'j) list \<Rightarrow> 'j trxs \<Rightarrow> trx_path \<Rightarrow> 'j multiset" where
  "held fs ts h = image_mset snd (filter_mset (\<lambda>f. holder (fst f) ts = h) (mset fs))"

definition kept_apart :: "(trx_path \<times> 'j) list \<Rightarrow> 'j list \<Rightarrow> 'j trxs \<Rightarrow> bool" where
  "kept_apart fs out ts \<longleftrightarrow> (\<forall>f \<in> set fs. begun (fst f) ts) \<and> (\<forall>p \<in> dom ts. p \<noteq> [] \<and> begun p ts)
     \<and> mset out = held fs ts []
     \<and> (\<forall>p q. ts p = Some q \<longrightarrow> (if ac_state q = Open then mset (ac_jobs q) = held fs ts p else ac_jobs q = []))"

lemma kept_apartI:
  assumes "\<forall>f \<in> set fs. begun (fst f) ts" "\<forall>p \<in> dom ts. p \<noteq> [] \<and> begun p ts" "mset out = held fs ts []"
    and "\<And>p q. ts p = Some q \<Longrightarrow> if ac_state q = Open then mset (ac_jobs q) = held fs ts p else ac_jobs q = []"
  shows "kept_apart fs out ts"
  using assms unfolding kept_apart_def by blast

lemma held_simps: "held [] ts h = {#}"
    "held (f # fs) ts h = (if holder (fst f) ts = h then add_mset (snd f) (held fs ts h) else held fs ts h)"
  by (auto simp: held_def)

lemma held_append: "held (fs @ gs) ts h = held fs ts h + held gs ts h"
  by (simp add: held_def)

lemma held_at: "held (map (Pair p) js) ts h = (if holder p ts = h then mset js else {#})"
  by (induction js) (auto simp: held_def)

lemma held_states: "(\<And>x. map_option ac_state (ts' x) = map_option ac_state (ts x)) \<Longrightarrow> held fs ts' h = held fs ts h"
  unfolding held_def by (subst holder_same_states(1) [of ts' ts]) auto

lemma held_cong: "(\<And>f. f \<in> set fs \<Longrightarrow> holder (fst f) ts' = h \<longleftrightarrow> holder (fst f) ts = h) \<Longrightarrow> held fs ts' h = held fs ts h"
  by (induction fs) (auto simp: held_def)

lemma held_none: "(\<And>f. f \<in> set fs \<Longrightarrow> holder (fst f) ts \<noteq> h) \<Longrightarrow> held fs ts h = {#}"
  by (induction fs) (auto simp: held_def)

lemma held_filter: "held (filter (\<lambda>f. holder (fst f) ts \<noteq> p) fs) ts h = (if h = p then {#} else held fs ts h)"
  by (induction fs) (auto simp: held_def)

lemma kept_give:
  assumes inv: "kept_apart fs out ts" and p: "begun p ts" and g: "give (holder p ts) js ts = (ts', out')"
  shows "kept_apart (fs @ map (Pair p) js) (out @ out') ts'"
proof -
  let ?h = "holder p ts"
  have st: "map_option ac_state (ts' x) = map_option ac_state (ts x)" for x
    using give_states [of ?h js ts x] g by simp
  note same = holder_same_states [where ts' = ts' and ts = ts, OF st] held_states [where ts' = ts' and ts = ts, OF st]
  have d: "dom ts' = dom ts"
  proof (rule set_eqI)
    show "x \<in> dom ts' \<longleftrightarrow> x \<in> dom ts" for x using st [of x] by (cases "ts x"; cases "ts' x") auto
  qed
  have b: "\<forall>f \<in> set (fs @ map (Pair p) js). begun (fst f) ts'" "\<forall>x \<in> dom ts'. x \<noteq> [] \<and> begun x ts'"
    using inv p by (auto simp: kept_apart_def same d)
  have h: "held (fs @ map (Pair p) js) ts' x = held fs ts x + (if ?h = x then mset js else {#})" for x
    by (simp only: held_append held_at same)
  have o: "mset out = held fs ts []"
    and jobs: "ts x = Some q \<Longrightarrow> if ac_state q = Open then mset (ac_jobs q) = held fs ts x else ac_jobs q = []" for x q
    using inv unfolding kept_apart_def by blast+
  show ?thesis
  proof (cases "?h = []")
    case True
    then have "ts' = ts" "out' = js" using g by (auto simp: give_def)
    then show ?thesis using b h o jobs True by (auto simp: kept_apart_def)
  next
    case False
    then obtain q where q: "ts ?h = Some q" "ac_state q \<noteq> Committed" using fate_holder [OF p] by blast
    show ?thesis
    proof (cases "ac_state q = Open")
      case True
      then have t: "ts' = ts(?h \<mapsto> q\<lparr> ac_jobs := ac_jobs q @ js \<rparr>)" "out' = []" using g q False by (auto simp: give_def)
      show ?thesis
      proof (rule kept_apartI [OF b])
        show "mset (out @ out') = held (fs @ map (Pair p) js) ts' []" using h [of "[]"] False o t(2) by simp
        show "if ac_state r = Open then mset (ac_jobs r) = held (fs @ map (Pair p) js) ts' x else ac_jobs r = []"
          if "ts' x = Some r" for x r
          using that h [of x] jobs [OF q(1)] jobs [of x r] True t(1) by (cases "x = ?h") auto
      qed
    next
      case closed: False
      then have t: "ts' = ts" "out' = []" using g q False by (auto simp: give_def)
      show ?thesis
      proof (rule kept_apartI [OF b])
        show "mset (out @ out') = held (fs @ map (Pair p) js) ts' []" using h [of "[]"] False o t(2) by simp
        show "if ac_state r = Open then mset (ac_jobs r) = held (fs @ map (Pair p) js) ts' x else ac_jobs r = []"
          if "ts' x = Some r" for x r
          using that h [of x] jobs [of x r] closed q(1) t(1) by (cases "x = ?h") auto
      qed
    qed
  qed
qed

lemma kept_begin:
  assumes inv: "kept_apart fs out ts" and new: "p \<noteq> []" "begun (tl p) ts" "p \<notin> dom ts"
    and t: "t = ts(p \<mapsto> \<lparr> ac_jobs = [], ac_state = Open \<rparr>)"
  shows "kept_apart fs out t"
proof -
  have same: "begun x ts \<Longrightarrow> begun x t \<and> holder x t = holder x ts" for x
    using new(3) by (induction x) (auto simp: t)
  have no: "begun x ts \<Longrightarrow> holder x ts \<noteq> p" for x
    using fate_holder [of x ts] new by (metis domI)
  have f: "\<forall>f \<in> set fs. begun (fst f) ts" using inv by (simp add: kept_apart_def)
  have h: "held fs t x = held fs ts x" for x
    by (rule held_cong) (use f same in metis)
  have n: "held fs ts p = {#}" by (rule held_none) (use f no in blast)
  have "begun p t" using new same [of "tl p"] by (cases p) (auto simp: t)
  moreover have "\<forall>x \<in> dom ts. x \<noteq> [] \<and> begun x t" using inv same by (auto simp: kept_apart_def)
  moreover have "dom t = insert p (dom ts)" by (simp add: t)
  moreover have "mset out = held fs t []" using inv h by (simp add: kept_apart_def)
  moreover have "if ac_state q = Open then mset (ac_jobs q) = held fs t x else ac_jobs q = []" if "t x = Some q" for x q
    using that inv n h unfolding kept_apart_def t by (cases "x = p") auto
  ultimately show ?thesis using f same new(1) by (intro kept_apartI) auto
qed

lemma holder_ends:
  assumes "ts p = Some q" "ac_state q = Open" "p \<noteq> []" "ac_state q' = (if c then Committed else RolledBack)"
    and t: "t = ts(p \<mapsto> q')"
  shows "begun x t = begun x ts" "holder x t = (if holder x ts = p \<and> c then holder (tl p) t else holder x ts)"
proof -
  have at: "t p = Some q'" "\<And>y. y \<noteq> p \<Longrightarrow> t y = ts y" "p \<in> dom ts" using assms by auto
  show "begun x t = begun x ts" using at by (induction x) (auto simp: dom_def, metis+)
  show "holder x t = (if holder x ts = p \<and> c then holder (tl p) t else holder x ts)"
  proof (induction x)
    case (Cons i outer)
    show ?case
    proof (cases "i # outer = p")
      case True
      then show ?thesis using at assms(1,2,4) by (cases c) auto
    next
      case False
      then show ?thesis using at Cons by (auto split: option.splits)
    qed
  qed (use assms in auto)
qed

lemma kept_ends:
  assumes inv: "kept_apart fs out ts" and q: "ts p = Some q" "ac_state q = Open"
    and s: "settleAfterCommit q c = (q', js)" and r: "run_jobs (tl p) js (ts(p \<mapsto> q')) = (ts', out')"
  shows "kept_apart fs (out @ out') ts'"
proof -
  define t where t: "t = ts(p \<mapsto> q')"
  have q': "ac_state q' = (if c then Committed else RolledBack)" "ac_jobs q' = []" "js = (if c then ac_jobs q else [])"
    using s by (auto simp: settleAfterCommit_def)
  have p: "p \<noteq> []" "begun p ts" using inv q by (auto simp: kept_apart_def dom_def)
  obtain H where H: "holder (tl p) t = H" by blast
  have begun: "begun x t = begun x ts" and hold: "holder x t = (if holder x ts = p \<and> c then H else holder x ts)" for x
    using holder_ends [OF q p(1) q'(1) t] unfolding H by blast+
  define fs0 where "fs0 = filter (\<lambda>f. holder (fst f) ts \<noteq> p) fs"
  have at: "t p = Some q'" "\<And>y. y \<noteq> p \<Longrightarrow> t y = ts y" "dom t = dom ts" using q by (auto simp: t)
  have h0: "held fs0 t x = (if x = p then {#} else held fs ts x)" for x
    unfolding fs0_def held_filter [symmetric] by (rule held_cong) (simp add: hold)
  have "kept_apart fs0 out t"
    unfolding kept_apart_def
  proof (intro conjI allI impI)
    show "\<forall>f \<in> set fs0. begun (fst f) t" "\<forall>x \<in> dom t. x \<noteq> [] \<and> begun x t" "mset out = held fs0 t []"
      using inv p(1) at(3) by (auto simp: kept_apart_def fs0_def begun h0 [unfolded fs0_def])
    show "if ac_state r = Open then mset (ac_jobs r) = held fs0 t x else ac_jobs r = []" if "t x = Some r" for x r
      using that inv at q' unfolding kept_apart_def h0 by (cases "x = p") auto
  qed
  moreover have "begun (tl p) t" using p by (cases p) (auto simp: begun)
  moreover have r': "give (holder (tl p) t) js t = (ts', out')" using r by (simp add: run_jobs_gives t)
  ultimately have k: "kept_apart (fs0 @ map (Pair (tl p)) js) (out @ out') ts'" by (rule kept_give)
  have st: "map_option ac_state (ts' x) = map_option ac_state (t x)" for x
    using give_states [of "holder (tl p) t" js t x] r' by simp
  note same = holder_same_states [where ts' = ts' and ts = t, OF st] held_states [where ts' = ts' and ts = t, OF st]
  have open_jobs: "mset (ac_jobs q) = held fs ts p" using inv q by (auto simp: kept_apart_def)
  have split: "held gs t x = held (filter (\<lambda>f. holder (fst f) ts \<noteq> p) gs) t x
      + (if (if c then H else p) = x then held gs ts p else {#})" for gs :: "(trx_path \<times> 'a) list" and x
    by (induction gs) (auto simp: held_simps hold)
  have moved: "held fs ts' x = held (fs0 @ map (Pair (tl p)) js) ts' x" if "c \<or> x \<noteq> p" for x
    using split [of fs x] that open_jobs q'(3) unfolding held_append held_at same fs0_def [symmetric] H by auto
  have rest: "c \<or> x \<noteq> p" if "ts' x = Some r" "ac_state r = Open" for x r
    using that st [of p] at(1) q'(1) by (cases "x = p"; cases c) auto
  show ?thesis
    using k inv moved [of "[]"] moved rest p(1) unfolding kept_apart_def
    by (auto simp: same begun fs0_def)
qed

lemma kept_trx_step:
  assumes "kept_apart fs out ts" "trx_step e ts = (ts', out')"
  shows "kept_apart (fs @ fired [e] ts) (out @ out') ts'"
proof (cases e)
  case (Begin p)
  then show ?thesis using assms kept_begin [OF assms(1) _ _ _ refl, of p] by (auto split: if_splits)
next
  case (Fires p w)
  then show ?thesis using assms kept_give [of fs out ts p "[w]" ts' out'] by (auto simp: trigger_gives split: if_splits)
next
  case (Ends p c)
  then show ?thesis using assms kept_ends [OF assms(1), of p _ c] by (auto split: option.splits if_splits prod.splits)
qed

lemma kept_run:
  "kept_apart fs out ts \<Longrightarrow> trx_run es ts = (ts', out') \<Longrightarrow> kept_apart (fs @ fired es ts) (out @ out') ts'"
proof (induction es arbitrary: fs out ts out')
  case (Cons e es)
  obtain t o1 where t: "trx_step e ts = (t, o1)" by (cases "trx_step e ts")
  obtain o2 where o: "trx_run es t = (ts', o2)" "out' = o1 @ o2" using Cons.prems t by (auto split: prod.splits)
  show ?case using Cons.IH [OF kept_trx_step [OF Cons.prems(1) t] o(1)] t o(2) by simp
qed simp

lemma push_all_prefix: "\<exists>n. push_all accepts k xs = take n xs"
proof (induction xs arbitrary: k)
  case (Cons x xs)
  obtain n where "push_all accepts (k + 1) xs = take n xs" using Cons.IH by blast
  then have "push_all accepts k (x # xs) = take (if accepts k then Suc n else 0) (x # xs)" by simp
  then show ?case by blast
qed simp

lemma push_all_all: "\<forall>k. accepts k \<Longrightarrow> push_all accepts k xs = xs"
  by (induction xs arbitrary: k) auto

text \<open>The payloads of one lookup: the first so many of the hooks that match, all of them when every push is taken.\<close>

definition payloads_of :: "field_keys \<Rightarrow> surroundings \<Rightarrow> 'd data_write \<Rightarrow> webhook list \<Rightarrow> 'd payload list" where
  "payloads_of fk su w hooks = map (\<lambda>h. hook_payload fk (su_now su) w (h, su_inserted su h)) (filter (hook_matches w) hooks)"

lemma trigger_now_payloads:
  assumes "su_hooks su = Some hooks"
  obtains n where "snd (trigger_now fk su w rows) = take n (payloads_of fk su w hooks)"
    "(\<forall>k. su_accepts su k) \<longrightarrow> snd (trigger_now fk su w rows) = payloads_of fk su w hooks"
proof -
  have "snd (trigger_now fk su w rows) = push_all (su_accepts su) 0 (payloads_of fk su w hooks)"
    using assms by (simp add: trigger_now_def handed_def matching_def payloads_of_def Let_def comp_def)
  then show thesis using that push_all_prefix [of "su_accepts su" 0 "payloads_of fk su w hooks"] push_all_all by metis
qed

text \<open>C34. After any history of transactions, nested and ending in any order, with writes firing in them and after
them, the writes whose hooks were looked up are, each once, those all of whose transactions have committed by then.
Each such lookup hands over one payload for every active hook of the writer's tenant that wants the event and the
collection, in order, and for no other, as far as the queue takes them.\<close>

theorem hooks_wait_for_the_commit:
  assumes "trx_run es Map.empty = (ts, out)" "w \<in> set out" "su_hooks su = Some hooks"
  shows "mset out = image_mset snd (filter_mset (\<lambda>f. fate (fst f) ts = Committed) (mset (fired es Map.empty)))
    \<and> (\<exists>n. snd (trigger_now fk su w rows) = take n (payloads_of fk su w hooks))
    \<and> ((\<forall>k. su_accepts su k) \<longrightarrow> snd (trigger_now fk su w rows) = payloads_of fk su w hooks)
    \<and> (\<forall>p \<in> set (payloads_of fk su w hooks). \<exists>h \<in> set hooks. pl_webhookId p = Some (wh_id h) \<and> pl_url p = wh_url h
       \<and> wh_tenant_id h = Some (write_tenant w) \<and> pl_tenantId p = Some (write_tenant w) \<and> wh_active h = Some True
       \<and> pl_data p = wr_data w \<and> pl_attempt p = 0)"
proof (intro conjI)
  have "kept_apart [] [] (Map.empty :: 'd data_write trxs)" by (simp add: kept_apart_def held_def)
  then have k: "kept_apart (fired es Map.empty) out ts" using kept_run [of "[]" "[]" Map.empty es ts out] assms(1) by simp
  have "mset out = held (fired es Map.empty) ts []" using k by (simp add: kept_apart_def)
  also have "\<dots> = image_mset snd (filter_mset (\<lambda>f. fate (fst f) ts = Committed) (mset (fired es Map.empty)))"
    unfolding held_def using k fate_holder
    by (intro arg_cong [where f = "image_mset snd"] filter_mset_cong) (auto simp: kept_apart_def)
  finally show "mset out = image_mset snd (filter_mset (\<lambda>f. fate (fst f) ts = Committed) (mset (fired es Map.empty)))" .
  obtain n where n: "snd (trigger_now fk su w rows) = take n (payloads_of fk su w hooks)"
    "(\<forall>k. su_accepts su k) \<longrightarrow> snd (trigger_now fk su w rows) = payloads_of fk su w hooks"
    using trigger_now_payloads [OF assms(3), of fk w rows] by blast
  then show "\<exists>n. snd (trigger_now fk su w rows) = take n (payloads_of fk su w hooks)"
    "(\<forall>k. su_accepts su k) \<longrightarrow> snd (trigger_now fk su w rows) = payloads_of fk su w hooks" by blast+
  show "\<forall>p \<in> set (payloads_of fk su w hooks). \<exists>h \<in> set hooks. pl_webhookId p = Some (wh_id h) \<and> pl_url p = wh_url h
       \<and> wh_tenant_id h = Some (write_tenant w) \<and> pl_tenantId p = Some (write_tenant w) \<and> wh_active h = Some True
       \<and> pl_data p = wr_data w \<and> pl_attempt p = 0"
    by (auto simp: payloads_of_def hook_payload_def hook_matches_def intro!: bexI)
qed

text \<open>
  Write 1 in a transaction, write 2 in one nested in it, write 3 in one that is rolled back, and write 4 after the
  commit; then two hooks of the tenant of which one is switched off.
\<close>

definition demo_write :: "nat \<Rightarrow> nat data_write" where
  "demo_write k = \<lparr> wr_event = ''insert'', wr_collection = ''orders'', wr_data = k, wr_tenant = Some ''t1'' \<rparr>"

definition demo_hook :: "string \<Rightarrow> bool \<Rightarrow> string \<Rightarrow> webhook" where
  "demo_hook i active t = \<lparr> wh_id = i, wh_url = ''https://a.example/x'', wh_method = None, wh_headers = None,
     wh_events = [''insert'', ''update''], wh_collections = Some [], wh_active = Some active, wh_secret = None,
     wh_retry_attempts = Some 2, wh_timeout = None, wh_tenant_id = Some t \<rparr>"

definition demo_surroundings :: surroundings where
  "demo_surroundings = \<lparr> su_hooks = Some [demo_hook ''h1'' True ''t1'', demo_hook ''h2'' False ''t1'', demo_hook ''h3'' True ''t2''],
     su_inserted = (\<lambda>h. Some (''row-'' @ wh_id h)), su_accepts = (\<lambda>k. True), su_now = ''now'' \<rparr>"

definition demo_keys :: field_keys where
  "demo_keys = \<lparr> fk_key = replicate 64 (CHR ''a''), fk_plaintext = False, fk_encrypt = (\<lambda>s. Some (ENC_PREFIX @ rev s)),
     fk_decrypt = (\<lambda>s. Some (rev (drop 7 s))) \<rparr>"

definition demo_history :: "nat data_write trx_event list" where
  "demo_history = [Begin [1], Fires [1] (demo_write 1), Begin [2, 1], Fires [2, 1] (demo_write 2), Ends [2, 1] True,
     Begin [3], Fires [3] (demo_write 3), Ends [3] False, Ends [1] True, Fires [2, 1] (demo_write 4)]"

lemma demo_history_runs:
  "map wr_data (snd (trx_run demo_history Map.empty)) = [1, 2, 4]"
  "snd (trx_run demo_history Map.empty) = map demo_write [1, 2, 4]"
  by code_simp+

theorem hooks_wait_for_the_commit_witness:
  "map pl_webhookId (snd (trigger_now demo_keys demo_surroundings (demo_write 2) Map.empty)) = [Some ''h1'']
    \<and> 2 \<in> wr_data ` set (snd (trx_run demo_history Map.empty))"
proof -
  let ?r = "trx_run demo_history (Map.empty :: nat data_write trxs)"
  have r: "?r = (fst ?r, snd ?r)" by simp
  have w: "demo_write 2 \<in> set (snd ?r)" unfolding demo_history_runs(2) by simp
  have h: "su_hooks demo_surroundings = Some [demo_hook ''h1'' True ''t1'', demo_hook ''h2'' False ''t1'', demo_hook ''h3'' True ''t2'']"
    "\<forall>k. su_accepts demo_surroundings k"
    by (simp_all add: demo_surroundings_def)
  have "snd (trigger_now demo_keys demo_surroundings (demo_write 2) Map.empty) = payloads_of demo_keys demo_surroundings
      (demo_write 2) [demo_hook ''h1'' True ''t1'', demo_hook ''h2'' False ''t1'', demo_hook ''h3'' True ''t2'']"
    using hooks_wait_for_the_commit [OF r w h(1)] h(2) by blast
  moreover have "map pl_webhookId (payloads_of demo_keys demo_surroundings
      (demo_write 2) [demo_hook ''h1'' True ''t1'', demo_hook ''h2'' False ''t1'', demo_hook ''h3'' True ''t2'']) = [Some ''h1'']"
    by code_simp
  ultimately show ?thesis using w by (force simp: demo_write_def)
qed

section \<open>The requests of a delivery\<close>

text \<open>The values a header has on the wire, where its spellings are one.\<close>

definition header_values :: "string \<Rightarrow> headers \<Rightarrow> string list" where
  "header_values k hs = map snd (filter (\<lambda>h. js_lower (fst h) = k) hs)"

lemma header_values_new [simp]: "header_values k (new_headers hs) = header_values k hs"
  by (induction hs) (auto simp: header_values_def new_headers_def)

lemma header_values_none: "k \<notin> header_names hs \<Longrightarrow> header_values k hs = []"
  by (induction hs) (auto simp: header_values_def header_names_def)

lemma header_values_update:
  "js_lower n = k \<Longrightarrow> k \<notin> header_names hs \<Longrightarrow> header_values k (AList.update n v hs) = [v]"
  by (induction hs) (auto simp: header_values_def header_names_def)

lemma header_names_update: "header_names (AList.update k v hs) = insert (js_lower k) (header_names hs)"
proof -
  have "header_names hs' = js_lower ` fst ` set hs'" for hs' :: headers by (auto simp: header_names_def)
  then show ?thesis by (simp add: dom_update)
qed

lemma header_names_simps [simp]: "header_names [] = {}" "header_names (h # hs) = insert (js_lower (fst h)) (header_names hs)"
  by (auto simp: header_names_def)

lemma custom_names: "header_names (safeCustomHeaders hs) \<subseteq> header_names hs - set BLOCKED_HEADERS"
proof -
  define step where "step = (\<lambda>(k, v) out. if js_lower k \<in> set BLOCKED_HEADERS then out else object_put k v out)"
  have "header_names (fold step hs out) \<subseteq> header_names out \<union> (header_names hs - set BLOCKED_HEADERS)" for out
  proof (induction hs arbitrary: out)
    case (Cons h hs)
    obtain k v where h: "h = (k, v)" by (cases h)
    have "header_names (step h out) \<subseteq> header_names out \<union> ({js_lower k} - set BLOCKED_HEADERS)"
      by (auto simp: step_def h object_put_def header_names_update)
    then show ?case using Cons.IH [of "step h out"] h by auto
  qed simp
  then show ?thesis unfolding safeCustomHeaders_def step_def by force
qed

lemma spread_names: "header_names (fold (\<lambda>(k, v). AList.update k v) hs out) = header_names out \<union> header_names hs"
  by (induction hs arbitrary: out) (auto simp: header_names_update)

lemma ascii_names: "js_lower ''Content-Type'' = ''content-type''" "js_lower SIGNATURE = ''x-zveltio-signature''"
  "''content-type'' \<notin> set BLOCKED_HEADERS" "''x-zveltio-signature'' \<notin> set BLOCKED_HEADERS"
  "''x-zveltio-signature'' \<noteq> ''content-type''" "''x-zveltio-signature'' \<noteq> ''host''"
  by code_simp+

lemma delivery_names:
  "header_names (delivery_headers sd p body) \<subseteq> {''content-type'', ''x-zveltio-signature''}
     \<union> (header_names (nullish (pl_headers p) []) - set BLOCKED_HEADERS)"
  using custom_names [of "nullish (pl_headers p) []"]
  by (auto simp: delivery_headers_def Let_def header_names_update spread_names ascii_names)

text \<open>The signature alone is sent when no custom header is one by another spelling.\<close>

lemma delivery_signature:
  assumes "or_text (pl_secret p) [] = secret" "secret \<noteq> []" "''x-zveltio-signature'' \<notin> header_names (nullish (pl_headers p) [])"
  shows "header_values ''x-zveltio-signature'' (delivery_headers sd p body) = [signature_of sd secret body]"
proof -
  have "''x-zveltio-signature'' \<notin> header_names (fold (\<lambda>(k, v). AList.update k v)
      (safeCustomHeaders (nullish (pl_headers p) [])) [(''Content-Type'', ''application/json'')])"
    using custom_names [of "nullish (pl_headers p) []"] assms(3) by (auto simp: spread_names ascii_names)
  then show ?thesis using assms(1,2) by (simp add: delivery_headers_def Let_def header_values_update ascii_names)
qed

lemma request_values:
  assumes "k \<noteq> ''host''"
  shows "header_values k (ri_headers (st_init (request_of w ptp href u i pin))) = header_values k (ri_headers i)"
proof -
  have l: "js_lower ''host'' = ''host''" by code_simp
  have "header_values k (header_set ''host'' v (new_headers hs)) = header_values k (new_headers hs)" for v hs
    using assms l by (auto simp: header_values_def header_set_def header_delete_def intro!: arg_cong [where f = "map snd"] filter_cong)
  then show ?thesis by (auto simp: request_of_def pinnedRequest_def split: option.splits)
qed

lemma request_body: "ri_body (st_init (request_of w ptp href u i pin)) = ri_body i"
  by (auto simp: request_of_def pinnedRequest_def split: option.splits)

lemma deliver_requests:
  assumes "deliver sd p = (log, oc)" "log \<noteq> []"
  obtains body res where "sd_body sd (pl_event p) (pl_collection p) (pl_data p) (pl_timestamp p) = Some body"
    "safe_hop (sd_web sd) (\<lambda>u. True) False (pl_url p) (request_init.truncate (delivery_init sd p body)) Follow 0 = (log, res)"
  using assms by (auto simp: deliver_def safeFetch_def delivery_init_def split: option.splits sum.splits prod.splits)


definition demo_sender :: "web \<Rightarrow> nat sender" where
  "demo_sender w = \<lparr> sd_web = w, sd_body = (\<lambda>e c d t. Some (e @ c)), sd_hmac = (\<lambda>k b. [of_nat (length k), 255]),
     sd_text = (\<lambda>r. Some (concat (rs_chunks r))) \<rparr>"

definition demo_payload :: "string option \<Rightarrow> headers \<Rightarrow> nat payload" where
  "demo_payload secret hs = \<lparr> pl_webhookId = Some ''h1'', pl_deliveryId = Some ''row-h1'', pl_tenantId = Some ''t1'',
     pl_url = ''https://a.example/x'', pl_method = None, pl_headers = Some hs, pl_secret = secret, pl_timeout = Some 7,
     pl_retryAttempts = Some 2, pl_attempt = 0, pl_event = ''insert'', pl_collection = ''orders'', pl_data = 5,
     pl_timestamp = ''now'' \<rparr>"

definition demo_delivery :: "sent list \<times> outcome" where
  "demo_delivery = deliver (demo_sender demo_web) (demo_payload (Some ''abc'') [(''Cookie'', ''c''), (''X-Env'', ''prod'')])"


text \<open>
  A custom header that spells the signature's name in another case is sent beside it: the receiver reads both values
  as one, which is no signature.
\<close>

lemma spelt_signature_is_doubled:
  "header_values ''x-zveltio-signature'' (delivery_headers (demo_sender demo_web)
     (demo_payload (Some ''abc'') [(''x-zveltio-signature'', ''v1'')]) body) = [''v1'', ''sha256=03ff'']"
  "header_values ''content-type'' (delivery_headers (demo_sender demo_web)
     (demo_payload None [(''content-type'', ''text/plain'')]) body) = [''application/json'', ''text/plain'']"
  by code_simp+

text \<open>
  A stored secret that the key does not open, or is not opened for want of a key, signs as it is stored: the signature
  can be made by whoever reads the table.
\<close>

lemma unopened_secret_signs:
  assumes "isEncryptedValue s" "decryptField fk s = None"
  shows "signing_secret fk (Some s) = Some s"
proof -
  have "s \<noteq> []" using assms(1) by (auto simp: isEncryptedValue_def ENC_PREFIX_def starts_with_def)
  then show ?thesis using assms by (simp add: signing_secret_def maybeDecrypt_def)
qed

lemma opened_secret_signs:
  assumes "key_has_shape fk" "fk_key fk \<noteq> []" "\<not> isEncryptedValue s" "s \<noteq> []" "fk_encrypt fk s = Some c" "isEncryptedValue c"
    and "fk_decrypt fk c = Some s"
  shows "maybeEncrypt fk s = Some c" "signing_secret fk (Some c) = Some s"
  using assms by (auto simp: maybeEncrypt_def encryptField_def signing_secret_def maybeDecrypt_def decryptField_def
    isEncryptedValue_def ENC_PREFIX_def starts_with_def)

section \<open>The retries without a cache\<close>

lemma deliver_from_result:
  "deliver_from sds p a rows = (ocs, pauses, ok, rows') \<Longrightarrow>
    ocs \<noteq> [] \<and> ocs = map (\<lambda>k. snd (deliver (sds k) (p\<lparr> pl_attempt := k \<rparr>))) [a..<a + length ocs]
    \<and> pauses = map (\<lambda>k. 2 ^ k * 1000) [a..<a + length ocs - 1] \<and> ok = oc_ok (last ocs) \<and> (\<forall>oc \<in> set (butlast ocs). \<not> oc_ok oc)
    \<and> length ocs \<le> nat (max_attempts p - int a) + 1 \<and> (\<not> ok \<longrightarrow> length ocs = nat (max_attempts p - int a) + 1)"
proof (induction "nat (max_attempts p - int a)" arbitrary: a rows ocs pauses ok)
  case 0
  then show ?case by (auto simp: deliver_from.simps [of sds p a rows] Let_def split: if_splits)
next
  case (Suc n)
  let ?oc = "snd (deliver (sds a) (p\<lparr> pl_attempt := a \<rparr>))"
  let ?rows = "recordOutcome p (outcome_row ?oc) rows"
  note e = Suc.prems [unfolded deliver_from.simps [of sds p a rows] Let_def]
  have more: "(max_attempts p \<le> int a) = False" and n: "n = nat (max_attempts p - int (a + 1))" using Suc.hyps(2) by auto
  show ?case
  proof (cases "oc_ok ?oc")
    case True
    then show ?thesis using e by auto
  next
    case False
    obtain os ps ok' r where rec: "deliver_from sds p (a + 1) ?rows = (os, ps, ok', r)" by (metis prod_cases4)
    then have s: "ocs = ?oc # os" "pauses = 2 ^ a * 1000 # ps" "ok = ok'" "rows' = r"
      using e False more by auto
    have IH: "os \<noteq> []" "os = map (\<lambda>k. snd (deliver (sds k) (p\<lparr> pl_attempt := k \<rparr>))) [Suc a..<Suc a + length os]"
      "ps = map (\<lambda>k. 2 ^ k * 1000) [Suc a..<Suc a + length os - 1]" "ok' = oc_ok (last os)" "\<forall>oc \<in> set (butlast os). \<not> oc_ok oc"
      "length os \<le> n + 1" "\<not> ok' \<longrightarrow> length os = n + 1"
      using Suc.hyps(1) [OF n, of ?rows os ps ok'] rec s(4) n by auto
    obtain m where m: "length os = Suc m" using IH(1) by (cases os) auto
    have u: "[a..<a + length (?oc # os)] = a # [Suc a..<Suc a + length os]"
      "[a..<a + length (?oc # os) - 1] = a # [Suc a..<Suc a + length os - 1]"
      by (simp_all add: m upt_conv_Cons del: upt_Suc)
    have "ocs = map (\<lambda>k. snd (deliver (sds k) (p\<lparr> pl_attempt := k \<rparr>))) [a..<a + length ocs]"
      unfolding s(1) u list.map by (simp only: IH(2) [symmetric])
    moreover have "pauses = map (\<lambda>k. 2 ^ k * 1000) [a..<a + length ocs - 1]"
      unfolding s(1,2) u list.map by (simp only: IH(3) [symmetric])
    moreover have "ocs \<noteq> [] \<and> ok = oc_ok (last ocs) \<and> (\<forall>oc \<in> set (butlast ocs). \<not> oc_ok oc)
      \<and> length ocs \<le> nat (max_attempts p - int a) + 1 \<and> (\<not> ok \<longrightarrow> length ocs = nat (max_attempts p - int a) + 1)"
      using IH(1,4-7) False Suc.hyps(2) by (auto simp: s)
    ultimately show ?thesis by blast
  qed
qed

text \<open>A delivery given up is on record with the attempts made: one more than the row calls its most.\<close>

lemma deliver_from_row:
  assumes "deliver_from sds p a rows = (ocs, pauses, ok, rows')" "pl_deliveryId p = Some i" "i \<noteq> []"
    and "rows i = Some r" "dr_tenant_id r = nullish (pl_tenantId p) DEFAULT_TENANT_ID"
  shows "\<exists>r'. rows' i = Some r' \<and> dr_delivered r' = ok \<and> dr_status r' = oc_status (last ocs)
    \<and> dr_max_attempts r' = dr_max_attempts r \<and> dr_attempt r' = (if ok then dr_attempt r else a + length ocs)"
  using assms(1,4,5)
proof (induction "nat (max_attempts p - int a)" arbitrary: a rows ocs pauses ok r)
  case 0
  then show ?case using assms(2,3)
    by (cases i) (auto simp: deliver_from.simps [of sds p a rows] Let_def recordOutcome_def or_text_def outcome_row_def split: if_splits)
next
  case (Suc n)
  let ?oc = "snd (deliver (sds a) (p\<lparr> pl_attempt := a \<rparr>))"
  let ?rows = "recordOutcome p (outcome_row ?oc) rows"
  note e = Suc.prems(1) [unfolded deliver_from.simps [of sds p a rows] Let_def]
  have more: "(max_attempts p \<le> int a) = False" and n: "n = nat (max_attempts p - int (a + 1))" using Suc.hyps(2) by auto
  have row: "?rows i = Some (outcome_row ?oc r)"
    using assms(2,3) Suc.prems(2,3) by (cases i) (auto simp: recordOutcome_def or_text_def)
  show ?case
  proof (cases "oc_ok ?oc")
    case True
    then show ?thesis using e row by (auto simp: outcome_row_def)
  next
    case False
    obtain os ps ok' r' where rec: "deliver_from sds p (a + 1) ?rows = (os, ps, ok', r')" by (metis prod_cases4)
    then have s: "ocs = ?oc # os" "ok = ok'" "rows' = r'" using e False more by auto
    have "dr_tenant_id (outcome_row ?oc r) = nullish (pl_tenantId p) DEFAULT_TENANT_ID"
      using Suc.prems(3) by (simp add: outcome_row_def)
    moreover have "os \<noteq> []" using deliver_from_result [OF rec] by blast
    ultimately show ?thesis using Suc.hyps(1) [OF n rec [folded s(3)] row] by (auto simp: s outcome_row_def)
  qed
qed

lemma given_up_past_its_most:
  assumes "deliverWithRetries sds (hook_payload fk now w (h, Some i)) rows = (ocs, pauses, False, rows')" "i \<noteq> []"
    and "rows i = Some (new_delivery_row w h)" "0 \<le> nullish (wh_retry_attempts h) 3"
  shows "\<exists>r. rows' i = Some r \<and> int (dr_attempt r) = dr_max_attempts r + 1 \<and> \<not> dr_delivered r"
proof -
  let ?p = "hook_payload fk now w (h, Some i)"
  have p: "pl_deliveryId ?p = Some i" "dr_tenant_id (new_delivery_row w h) = nullish (pl_tenantId ?p) DEFAULT_TENANT_ID"
    "max_attempts ?p = nullish (wh_retry_attempts h) 3"
    by (simp_all add: hook_payload_def new_delivery_row_def max_attempts_def)
  note d = assms(1) [unfolded deliverWithRetries_def]
  have "length ocs = nat (max_attempts ?p - int 0) + 1" using deliver_from_result [OF d] by blast
  then show ?thesis
    using deliver_from_row [OF d p(1) assms(2,3) p(2)] p(3) assms(4) by (auto simp: new_delivery_row_def)
qed

end
