(* ===== verification/WebhookQueue.thy ===== *)
theory WebhookQueue
  imports Webhooks
begin

text \<open>
  The queue of webhook deliveries (\<open>lib/webhook-worker.ts\<close>) and the replay of its dead letters
  (\<open>routes/webhooks.ts\<close>): the Redis structures the engine's replicas share, the steps their workers
  and the administrators take on them in any order, and what becomes of a delivery.

  The retry set, a sorted set, is a list of members and scores; times are in milliseconds.  What an
  atomic Redis command does is one step.
\<close>

section \<open>The shared structures\<close>

text \<open>An entry of the queue: a payload, or a text that is none.\<close>

datatype 'd item = Stored "'d payload" | Malformed string

text \<open>An entry of the dead-letter queue: a payload with the time it was given up, or a text that is none.\<close>

datatype 'd dead_letter = Letter "'d payload" string | Unreadable string

type_synonym 'd retry_set = "('d payload \<times> int) list"

record 'd redis =
  re_queue :: "'d item list"
  re_retry :: "'d retry_set"
  re_dlq :: "'d dead_letter list"

definition zset_add :: "int \<Rightarrow> 'd payload \<Rightarrow> 'd retry_set \<Rightarrow> 'd retry_set" where
  "zset_add score m z = AList.update m score z"

text \<open>\<open>ZREM\<close>, and whether it removed the member.\<close>

definition zrem :: "'d payload \<Rightarrow> 'd retry_set \<Rightarrow> 'd retry_set \<times> bool" where
  "zrem m z = (AList.delete m z, m \<in> fst ` set z)"

text \<open>
  What \<open>ZRANGEBYSCORE -inf now LIMIT 0 10\<close> may answer: ten of the members that are due, or all when they are fewer,
  none of them later than one left out.
\<close>

definition due_members :: "int \<Rightarrow> 'd retry_set \<Rightarrow> 'd payload list" where
  "due_members now z = map fst (filter (\<lambda>(m, s). s \<le> now) z)"

definition zrangebyscore :: "int \<Rightarrow> 'd retry_set \<Rightarrow> 'd payload list \<Rightarrow> bool" where
  "zrangebyscore now z due \<longleftrightarrow> distinct due \<and> set due \<subseteq> set (due_members now z)
     \<and> length due = min 10 (length (due_members now z))
     \<and> (\<forall>(m, s) \<in> set z. \<forall>(m', s') \<in> set z. m \<in> set due \<and> m' \<notin> set due \<and> s' \<le> now \<longrightarrow> s \<le> s')"

text \<open>\<open>LTRIM 0 stop\<close>; a negative stop counts from the end.\<close>

definition ltrim :: "int \<Rightarrow> 'a list \<Rightarrow> 'a list" where
  "ltrim stop xs = take (nat ((if stop < 0 then int (length xs) + stop else stop) + 1)) xs"

text \<open>\<open>LREM 1\<close>: the first entry that is the one given.\<close>

definition lrem :: "'a \<Rightarrow> 'a list \<Rightarrow> 'a list" where
  "lrem x xs = remove1 x xs"

section \<open>Giving up and replaying\<close>

text \<open>\<open>parseInt(WEBHOOK_DLQ_MAX) || 1000\<close>\<close>

definition DLQ_MAX :: "int option \<Rightarrow> int" where
  "DLQ_MAX parsed = or_number parsed 1000"

definition dead_letter_of :: "string \<Rightarrow> 'd payload \<Rightarrow> 'd dead_letter" where
  "dead_letter_of failedAt p = Letter (p\<lparr> pl_secret := None \<rparr>) failedAt"

text \<open>The hooks of an administrator's tenant, by id, with the secret each stores.\<close>

definition ownWebhooks :: "string \<Rightarrow> webhook list \<Rightarrow> string \<rightharpoonup> string option" where
  "ownWebhooks tenant hooks = map_of (map (\<lambda>h. (wh_id h, wh_secret h)) (filter (\<lambda>h. wh_tenant_id h = Some tenant) hooks))"

text \<open>The hook of an entry, where it is one of the caller's: \<open>parseEntry\<close> and the checks after it.\<close>

fun own_entry :: "(string \<rightharpoonup> string option) \<Rightarrow> 'd dead_letter \<Rightarrow> string option option" where
  "own_entry mine (Unreadable s) = None"
| "own_entry mine (Letter p failedAt) =
    (let i = or_text (pl_webhookId p) [] in if i = [] then None else mine i)"

text \<open>What a replay queues for an entry of a tenant's hook with the secret stored.\<close>

fun replayed_payload :: "field_keys \<Rightarrow> string \<Rightarrow> string option \<Rightarrow> 'd dead_letter \<Rightarrow> 'd item" where
  "replayed_payload fk tenant stored (Letter p failedAt) =
    Stored (p\<lparr> pl_secret := signing_secret fk stored, pl_attempt := 0, pl_tenantId := Some tenant \<rparr>)"
| "replayed_payload fk tenant stored (Unreadable s) = Malformed s"

section \<open>The world\<close>

text \<open>A replay of one entry under way: the entry as it was read, and what is to be queued for it.\<close>

record 'd replaying =
  rp_entry :: "'d dead_letter"
  rp_item :: "'d item"

text \<open>
  Beside the structures: what the replicas hold between two commands (payloads being delivered, letters pushed whose
  trim is to come, due members read and not yet claimed, members claimed and not yet queued), the replays that have
  read an entry and those that have queued it; and, for the record, the payloads queued, the attempts made and what
  came of each payload.  A payload that is lost is kept with the attempts it had had.
\<close>

record 'd world =
  wo_redis :: "'d redis"
  wo_hand :: "'d payload list"
  wo_trims :: nat
  wo_seen :: "'d payload list"
  wo_claimed :: "'d payload list"
  wo_read :: "'d replaying list"
  wo_queued :: "'d replaying list"
  wo_pushed :: "'d payload list"
  wo_posts :: "'d payload list"
  wo_done :: "'d payload list"
  wo_dead :: "'d payload list"
  wo_lost :: "'d payload list"

definition empty_world :: "'d world" where
  "empty_world = \<lparr> wo_redis = \<lparr> re_queue = [], re_retry = [], re_dlq = [] \<rparr>, wo_hand = [], wo_trims = 0, wo_seen = [],
     wo_claimed = [], wo_read = [], wo_queued = [], wo_pushed = [], wo_posts = [], wo_done = [], wo_dead = [], wo_lost = [] \<rparr>"

definition drop_nth :: "nat \<Rightarrow> 'a list \<Rightarrow> 'a list" where
  "drop_nth i xs = take i xs @ drop (Suc i) xs"

fun payloads_in :: "'d item list \<Rightarrow> 'd payload list" where
  "payloads_in [] = []"
| "payloads_in (Stored p # is) = p # payloads_in is"
| "payloads_in (Malformed s # is) = payloads_in is"

text \<open>
  The steps: \<open>trigger\<close> queues a payload; a worker pops up to ten entries at once, or one at a time on an old server;
  it delivers one and stores what follows, which the cache may refuse; it trims the dead letters; it reads what is
  due, claims one it read, queues one it claimed; a process dies with a payload in hand or claimed; an administrator
  reads the dead letters, queues one of the own, removes it.
\<close>

datatype 'd queue_event =
    Queue "'d payload"
  | Pop nat
  | Deliver nat "'d sender" int string bool
  | Trim
  | ReadDue int "'d payload list"
  | Claim nat
  | Requeue nat
  | DieDelivering nat
  | DieClaimed nat
  | ReadDead string "webhook list" field_keys
  | Replay nat
  | RemoveDead nat

definition retries_again :: "'d payload \<Rightarrow> bool" where
  "retries_again p \<longleftrightarrow> int (pl_attempt p) < max_attempts p"

definition next_attempt :: "'d payload \<Rightarrow> 'd payload" where
  "next_attempt p = p\<lparr> pl_attempt := pl_attempt p + 1 \<rparr>"

definition retry_delay :: "'d payload \<Rightarrow> int" where
  "retry_delay p = 2 ^ pl_attempt p * 1000"

definition set_redis :: "('d redis \<Rightarrow> 'd redis) \<Rightarrow> 'd world \<Rightarrow> 'd world" where
  "set_redis f w = w\<lparr> wo_redis := f (wo_redis w) \<rparr>"

definition rpush :: "'d item \<Rightarrow> 'd redis \<Rightarrow> 'd redis" where
  "rpush i r = r\<lparr> re_queue := re_queue r @ [i] \<rparr>"

text \<open>A payload delivered or not, and what the worker stores then.\<close>

definition delivered :: "'d payload \<Rightarrow> bool \<Rightarrow> int \<Rightarrow> string \<Rightarrow> bool \<Rightarrow> 'd world \<Rightarrow> 'd world" where
  "delivered p ok now failedAt stores w =
    (let w = w\<lparr> wo_posts := p # wo_posts w \<rparr> in
     if ok then w\<lparr> wo_done := p # wo_done w \<rparr>
     else if retries_again p then
       (if \<not> stores then w\<lparr> wo_lost := next_attempt p # wo_lost w \<rparr>
        else (set_redis (\<lambda>r. r\<lparr> re_retry := zset_add (now + retry_delay p) (next_attempt p) (re_retry r) \<rparr>) w)
          \<lparr> wo_lost := (if next_attempt p \<in> fst ` set (re_retry (wo_redis w)) then [next_attempt p] else []) @ wo_lost w \<rparr>)
     else if \<not> stores then w\<lparr> wo_lost := next_attempt p # wo_lost w \<rparr>
     else (set_redis (\<lambda>r. r\<lparr> re_dlq := dead_letter_of failedAt p # re_dlq r \<rparr>) w)
          \<lparr> wo_dead := p # wo_dead w, wo_trims := wo_trims w + 1 \<rparr>)"

fun queue_step :: "int \<Rightarrow> 'd queue_event \<Rightarrow> 'd world \<Rightarrow> 'd world" where
  "queue_step dlqMax (Queue p) w =
    (if pl_attempt p \<noteq> 0 then w else (set_redis (rpush (Stored p)) w)\<lparr> wo_pushed := p # wo_pushed w \<rparr>)"
| "queue_step dlqMax (Pop n) w =
    (if 10 < n then w
     else (set_redis (\<lambda>r. r\<lparr> re_queue := drop n (re_queue r) \<rparr>) w)
       \<lparr> wo_hand := wo_hand w @ payloads_in (take n (re_queue (wo_redis w))) \<rparr>)"
| "queue_step dlqMax (Deliver i sd now failedAt stores) w =
    (if length (wo_hand w) \<le> i then w
     else (let p = wo_hand w ! i in
       delivered p (delivers sd p) now failedAt stores (w\<lparr> wo_hand := drop_nth i (wo_hand w) \<rparr>)))"
| "queue_step dlqMax Trim w =
    (if wo_trims w = 0 then w
     else (set_redis (\<lambda>r. r\<lparr> re_dlq := ltrim (dlqMax - 1) (re_dlq r) \<rparr>) w)\<lparr> wo_trims := wo_trims w - 1 \<rparr>)"
| "queue_step dlqMax (ReadDue now due) w =
    (if zrangebyscore now (re_retry (wo_redis w)) due then w\<lparr> wo_seen := wo_seen w @ due \<rparr> else w)"
| "queue_step dlqMax (Claim i) w =
    (if length (wo_seen w) \<le> i then w
     else (case zrem (wo_seen w ! i) (re_retry (wo_redis w)) of
       (z, claimed) \<Rightarrow> (set_redis (\<lambda>r. r\<lparr> re_retry := z \<rparr>) w)\<lparr> wo_seen := drop_nth i (wo_seen w),
          wo_claimed := (if claimed then wo_claimed w @ [wo_seen w ! i] else wo_claimed w) \<rparr>))"
| "queue_step dlqMax (Requeue i) w =
    (if length (wo_claimed w) \<le> i then w
     else (set_redis (rpush (Stored (wo_claimed w ! i))) w)\<lparr> wo_claimed := drop_nth i (wo_claimed w) \<rparr>)"
| "queue_step dlqMax (DieDelivering i) w =
    (if length (wo_hand w) \<le> i then w
     else w\<lparr> wo_hand := drop_nth i (wo_hand w), wo_lost := (wo_hand w ! i) # wo_lost w \<rparr>)"
| "queue_step dlqMax (DieClaimed i) w =
    (if length (wo_claimed w) \<le> i then w
     else w\<lparr> wo_claimed := drop_nth i (wo_claimed w), wo_lost := (wo_claimed w ! i) # wo_lost w \<rparr>)"
| "queue_step dlqMax (ReadDead tenant hooks fk) w =
    w\<lparr> wo_read := wo_read w @ concat (map (\<lambda>e. case own_entry (ownWebhooks tenant hooks) e of
         None \<Rightarrow> []
       | Some stored \<Rightarrow> [\<lparr> rp_entry = e, rp_item = replayed_payload fk tenant stored e \<rparr>]) (re_dlq (wo_redis w))) \<rparr>"
| "queue_step dlqMax (Replay i) w =
    (if length (wo_read w) \<le> i then w
     else (let r = wo_read w ! i in
       (set_redis (rpush (rp_item r)) w)\<lparr> wo_read := drop_nth i (wo_read w), wo_queued := wo_queued w @ [r],
          wo_pushed := payloads_in [rp_item r] @ wo_pushed w \<rparr>))"
| "queue_step dlqMax (RemoveDead i) w =
    (if length (wo_queued w) \<le> i then w
     else (set_redis (\<lambda>r. r\<lparr> re_dlq := lrem (rp_entry (wo_queued w ! i)) (re_dlq r) \<rparr>) w)
       \<lparr> wo_queued := drop_nth i (wo_queued w) \<rparr>)"

definition queue_run :: "int \<Rightarrow> 'd queue_event list \<Rightarrow> 'd world \<Rightarrow> 'd world" where
  "queue_run dlqMax es w = fold (queue_step dlqMax) es w"

section \<open>One claim per member\<close>

text \<open>
  What the workers rely on of the retry set: adding a member it holds changes nothing but the score, and taking one
  out tells one caller, of all that ask, that it is theirs.
\<close>

locale claimed_set =
  fixes members :: "'z \<Rightarrow> 'a multiset"
    and sound :: "'z \<Rightarrow> bool"
    and add_to :: "int \<Rightarrow> 'a \<Rightarrow> 'z \<Rightarrow> 'z"
    and take_out :: "'a \<Rightarrow> 'z \<Rightarrow> 'z \<times> bool"
  assumes once: "sound z \<Longrightarrow> count (members z) m \<le> 1"
    and add_law: "sound z \<Longrightarrow> sound (add_to s m z)
      \<and> members (add_to s m z) = (if m \<in># members z then members z else add_mset m (members z))"
    and take_law: "sound z \<Longrightarrow> sound (fst (take_out m z)) \<and> members (fst (take_out m z)) = members z - {#m#}
      \<and> snd (take_out m z) = (m \<in># members z)"
begin

lemma take_moves: "sound z \<Longrightarrow> members (fst (take_out m z)) + (if snd (take_out m z) then {#m#} else {#}) = members z"
  using take_law [of z m] by auto

lemma add_moves: "sound z \<Longrightarrow> members (add_to s m z) + (if m \<in># members z then {#m#} else {#}) = add_mset m (members z)"
  using add_law [of z s m] by auto

text \<open>Of two that ask for one member in a row, the second is not told it is theirs.\<close>

lemma one_claim: "sound z \<Longrightarrow> \<not> snd (take_out m (fst (take_out m z)))"
  using take_law [of z m] take_law [of "fst (take_out m z)" m] once [of z m]
  by (auto simp: not_in_iff dest: in_diffD)

end

interpretation retries: claimed_set "\<lambda>z. mset (map fst z)" "\<lambda>z. distinct (map fst z)" zset_add zrem
proof (unfold_locales, goal_cases)
  case (1 z m)
  then show ?case by (metis count_mset_0_iff distinct_count_atmost_1 le_numeral_extra(4) zero_le_one)
next
  case (2 z s m)
  then show ?case by (induction z) (auto simp: zset_add_def dom_update split: if_splits)
next
  case (3 z m)
  then show ?case
    by (induction z) (auto simp: zrem_def AList.delete_eq diff_single_trivial image_iff)
qed

section \<open>Accounts\<close>

text \<open>A delivery, whatever the attempt, the secret it is signed with and who replayed it.\<close>

definition delivery_of :: "'d payload \<Rightarrow> 'd payload" where
  "delivery_of p = p\<lparr> pl_attempt := 0, pl_secret := None, pl_tenantId := None \<rparr>"

lemma delivery_of_next [simp]: "delivery_of (next_attempt p) = delivery_of p"
  by (simp add: delivery_of_def next_attempt_def)

lemma next_simps [simp]: "pl_attempt (next_attempt p) = pl_attempt p + 1" "max_attempts (next_attempt p) = max_attempts p"
  by (simp_all add: next_attempt_def max_attempts_def)

lemma max_attempts_delivery [simp]: "max_attempts (delivery_of p) = max_attempts p"
  by (simp add: delivery_of_def max_attempts_def)

definition tries :: "'d payload multiset \<Rightarrow> 'd payload multiset" where
  "tries M = sum_mset (image_mset (\<lambda>p. replicate_mset (pl_attempt p) (delivery_of p)) M)"

lemma tries_simps [simp]: "tries {#} = {#}" "tries (add_mset p M) = replicate_mset (pl_attempt p) (delivery_of p) + tries M"
  "tries (M + N) = tries M + tries N"
  by (simp_all add: tries_def)

definition within_budget :: "'d payload \<Rightarrow> bool" where
  "within_budget p \<longleftrightarrow> int (pl_attempt p) \<le> max 0 (max_attempts p) + 1"

text \<open>
  The books: the payloads under way, delivered, given up and lost, those queued and the attempts made.  Every payload
  queued is in one place, and every attempt made is one that a payload has had.
\<close>

definition balanced :: "'d payload multiset \<Rightarrow> 'd payload multiset \<Rightarrow> 'd payload multiset \<Rightarrow> 'd payload multiset
    \<Rightarrow> 'd payload multiset \<Rightarrow> 'd payload multiset \<Rightarrow> bool" where
  "balanced way won dead lost pushed posts \<longleftrightarrow>
     image_mset delivery_of pushed = image_mset delivery_of (way + won + dead + lost)
     \<and> image_mset delivery_of posts = tries (way + lost + image_mset next_attempt (won + dead))
     \<and> (\<forall>p \<in># way. int (pl_attempt p) \<le> max 0 (max_attempts p)) \<and> (\<forall>p \<in># lost + image_mset next_attempt (won + dead). within_budget p)
     \<and> (\<forall>p \<in># dead. max_attempts p \<le> int (pl_attempt p))"

lemma balanced_push:
  "balanced way won dead lost pushed posts \<Longrightarrow> pl_attempt p = 0 \<Longrightarrow> balanced (add_mset p way) won dead lost (add_mset p pushed) posts"
  by (auto simp: balanced_def)

lemma balanced_won:
  "balanced (add_mset p way) won dead lost pushed posts \<Longrightarrow> balanced way (add_mset p won) dead lost pushed (add_mset p posts)"
  by (auto simp: balanced_def within_budget_def)

lemma balanced_dead:
  "balanced (add_mset p way) won dead lost pushed posts \<Longrightarrow> \<not> retries_again p
    \<Longrightarrow> balanced way won (add_mset p dead) lost pushed (add_mset p posts)"
  by (auto simp: balanced_def within_budget_def retries_again_def)

lemma balanced_lost:
  "balanced (add_mset p way) won dead lost pushed posts \<Longrightarrow> balanced way won dead (add_mset p lost) pushed posts"
  by (auto simp: balanced_def within_budget_def)

lemma balanced_lost_after:
  "balanced (add_mset p way) won dead lost pushed posts \<Longrightarrow> balanced way won dead (add_mset (next_attempt p) lost) pushed (add_mset p posts)"
  by (auto simp: balanced_def within_budget_def)

lemma balanced_retry:
  "balanced (add_mset p way) won dead lost pushed posts \<Longrightarrow> retries_again p
    \<Longrightarrow> balanced (add_mset (next_attempt p) way) won dead lost pushed (add_mset p posts)"
  by (auto simp: balanced_def within_budget_def retries_again_def)

definition under_way :: "'d world \<Rightarrow> 'd payload multiset" where
  "under_way w = mset (payloads_in (re_queue (wo_redis w))) + mset (wo_hand w) + mset (map fst (re_retry (wo_redis w)))
     + mset (wo_claimed w)"

definition accounted :: "'d world \<Rightarrow> bool" where
  "accounted w \<longleftrightarrow> balanced (under_way w) (mset (wo_done w)) (mset (wo_dead w)) (mset (wo_lost w)) (mset (wo_pushed w)) (mset (wo_posts w))
     \<and> distinct (map fst (re_retry (wo_redis w))) \<and> (\<forall>r \<in> set (wo_read w). \<forall>p \<in> set (payloads_in [rp_item r]). pl_attempt p = 0)"

lemma payloads_in_append [simp]: "payloads_in (is @ js) = payloads_in is @ payloads_in js"
  by (induction "is" rule: payloads_in.induct) auto

lemma payloads_split: "mset (payloads_in (take n is)) + mset (payloads_in (drop n is)) = mset (payloads_in is)"
  by (metis append_take_drop_id mset_append payloads_in_append)

lemma mset_drop_nth: "i < length xs \<Longrightarrow> mset xs = add_mset (xs ! i) (mset (drop_nth i xs))"
  unfolding drop_nth_def by (subst id_take_nth_drop [of i xs]) auto

lemma set_drop_nth: "set (drop_nth i xs) \<subseteq> set xs"
  unfolding drop_nth_def by (auto dest: in_set_takeD in_set_dropD)

lemma accountedI:
  assumes "balanced (under_way w) (mset (wo_done w)) (mset (wo_dead w)) (mset (wo_lost w)) (mset (wo_pushed w)) (mset (wo_posts w))"
    and "distinct (map fst (re_retry (wo_redis w)))" "\<And>r p. r \<in> set (wo_read w) \<Longrightarrow> p \<in> set (payloads_in [rp_item r]) \<Longrightarrow> pl_attempt p = 0"
  shows "accounted w"
  using assms by (auto simp: accounted_def)

lemma accounted_delivered:
  assumes a: "accounted w" and i: "i < length (wo_hand w)" and p: "p = wo_hand w ! i"
  shows "accounted (delivered p ok now failedAt stores (w\<lparr> wo_hand := drop_nth i (wo_hand w) \<rparr>))"
proof -
  let ?w = "w\<lparr> wo_hand := drop_nth i (wo_hand w) \<rparr>"
  let ?z = "re_retry (wo_redis w)"
  have u: "under_way w = add_mset p (under_way ?w)" by (simp add: under_way_def mset_drop_nth [OF i] p)
  have b: "balanced (add_mset p (under_way ?w)) (mset (wo_done w)) (mset (wo_dead w)) (mset (wo_lost w)) (mset (wo_pushed w)) (mset (wo_posts w))"
    and d: "distinct (map fst ?z)" and r: "\<And>r p. r \<in> set (wo_read w) \<Longrightarrow> p \<in> set (payloads_in [rp_item r]) \<Longrightarrow> pl_attempt p = 0"
    using a u by (auto simp: accounted_def)
  consider (won) "ok" | (lost) "\<not> ok" "\<not> stores" | (again) "\<not> ok" "stores" "retries_again p" | (dead) "\<not> ok" "stores" "\<not> retries_again p"
    by blast
  then show ?thesis
  proof cases
    case won
    then show ?thesis using balanced_won [OF b] d r by (intro accountedI) (auto simp: delivered_def under_way_def)
  next
    case lost
    then show ?thesis using balanced_lost_after [OF b] d r
      by (cases "retries_again p"; intro accountedI) (auto simp: delivered_def under_way_def Let_def)
  next
    case dead
    then show ?thesis using balanced_dead [OF b] d r
      by (intro accountedI) (auto simp: delivered_def under_way_def Let_def set_redis_def)
  next
    case again
    let ?z' = "zset_add (now + retry_delay p) (next_attempt p) ?z"
    have d': "distinct (map fst ?z')" using retries.add_law d by blast
    show ?thesis
    proof (cases "next_attempt p \<in> fst ` set ?z")
      case True
      then have "mset (map fst ?z') = mset (map fst ?z)" using retries.add_law [OF d] by auto
      then show ?thesis using True again balanced_lost_after [OF b] d' r
        by (intro accountedI) (auto simp: delivered_def under_way_def Let_def set_redis_def)
    next
      case False
      then have "mset (map fst ?z') = add_mset (next_attempt p) (mset (map fst ?z))"
        using retries.add_law [OF d] by auto
      then show ?thesis using False again balanced_retry [OF b] d' r
        by (intro accountedI) (auto simp: delivered_def under_way_def Let_def set_redis_def)
    qed
  qed
qed

lemma accounted_step: "accounted w \<Longrightarrow> accounted (queue_step dlqMax e w)"
proof -
  assume a: "accounted w"
  then have b: "balanced (under_way w) (mset (wo_done w)) (mset (wo_dead w)) (mset (wo_lost w)) (mset (wo_pushed w)) (mset (wo_posts w))"
    and d: "distinct (map fst (re_retry (wo_redis w)))"
    and r: "\<And>r p. r \<in> set (wo_read w) \<Longrightarrow> p \<in> set (payloads_in [rp_item r]) \<Longrightarrow> pl_attempt p = 0"
    by (auto simp: accounted_def)
  show ?thesis
  proof (cases e)
    case (Queue p)
    then show ?thesis using a d r balanced_push [OF b, of p]
      by (cases "pl_attempt p = 0") (auto intro!: accountedI simp: set_redis_def rpush_def under_way_def)
  next
    case (Pop n)
    have "under_way (queue_step dlqMax (Pop n) w) = under_way w"
      by (simp add: under_way_def set_redis_def payloads_split [of n "re_queue (wo_redis w)", symmetric])
    then show ?thesis using Pop a b d r by (cases "10 < n") (auto intro!: accountedI simp: set_redis_def)
  next
    case (Deliver i sd now failedAt stores)
    then show ?thesis using a accounted_delivered [OF a, of i] by (cases "i < length (wo_hand w)") (simp_all add: Let_def)
  next
    case Trim
    then show ?thesis using a b d r
      by (cases "wo_trims w = 0") (auto intro!: accountedI simp: set_redis_def under_way_def)
  next
    case (ReadDue now due)
    then show ?thesis using a b d r
      by (cases "zrangebyscore now (re_retry (wo_redis w)) due") (auto intro!: accountedI simp: under_way_def)
  next
    case (Claim i)
    show ?thesis
    proof (cases "i < length (wo_seen w)")
      case True
      let ?m = "wo_seen w ! i" and ?z = "re_retry (wo_redis w)"
      have "under_way (queue_step dlqMax (Claim i) w) = under_way w"
        using True retries.take_moves [OF d, of ?m]
        by (cases "zrem ?m ?z") (auto simp: under_way_def set_redis_def not_le split: if_splits)
      moreover have "distinct (map fst (fst (zrem ?m ?z)))" using retries.take_law [OF d] by blast
      ultimately show ?thesis using Claim True b r
        by (cases "zrem ?m ?z") (auto intro!: accountedI simp: set_redis_def not_le)
    qed (use Claim a in simp)
  next
    case (Requeue i)
    show ?thesis
    proof (cases "i < length (wo_claimed w)")
      case True
      have "under_way (queue_step dlqMax (Requeue i) w) = under_way w"
        using True by (simp add: under_way_def set_redis_def rpush_def mset_drop_nth [OF True])
      then show ?thesis using Requeue True b d r by (auto intro!: accountedI simp: set_redis_def rpush_def)
    qed (use Requeue a in simp)
  next
    case (DieDelivering i)
    show ?thesis
    proof (cases "i < length (wo_hand w)")
      case True
      have "under_way w = add_mset (wo_hand w ! i) (under_way (queue_step dlqMax e w))"
        using True DieDelivering by (simp add: under_way_def mset_drop_nth [OF True])
      then show ?thesis using DieDelivering True b d r balanced_lost by (auto intro!: accountedI)
    qed (use DieDelivering a in simp)
  next
    case (DieClaimed i)
    show ?thesis
    proof (cases "i < length (wo_claimed w)")
      case True
      have "under_way w = add_mset (wo_claimed w ! i) (under_way (queue_step dlqMax e w))"
        using True DieClaimed by (simp add: under_way_def mset_drop_nth [OF True])
      then show ?thesis using DieClaimed True b d r balanced_lost by (auto intro!: accountedI)
    qed (use DieClaimed a in simp)
  next
    case (ReadDead tenant hooks fk)
    have "pl_attempt p = 0" if "p \<in> set (payloads_in [replayed_payload fk tenant stored x])" for p stored x
      using that by (cases x) auto
    then show ?thesis using ReadDead a b d r by (auto intro!: accountedI simp: under_way_def split: option.splits)
  next
    case (Replay i)
    show ?thesis
    proof (cases "i < length (wo_read w)")
      case True
      let ?x = "wo_read w ! i"
      have x: "\<And>p. p \<in> set (payloads_in [rp_item ?x]) \<Longrightarrow> pl_attempt p = 0" using r [of ?x] True by auto
      show ?thesis
      proof (cases "rp_item ?x")
        case (Stored p)
        then show ?thesis using Replay True d r set_drop_nth [of i "wo_read w"] balanced_push [OF b, of p] x
          by (auto intro!: accountedI simp: set_redis_def rpush_def under_way_def Let_def not_le)
      next
        case (Malformed s)
        then show ?thesis using Replay True d r set_drop_nth [of i "wo_read w"] b
          by (auto intro!: accountedI simp: set_redis_def rpush_def under_way_def Let_def not_le)
      qed
    qed (use Replay a in simp)
  next
    case (RemoveDead i)
    then show ?thesis using a b d r
      by (cases "i < length (wo_queued w)") (auto intro!: accountedI simp: set_redis_def under_way_def not_le)
  qed
qed

lemma accounted_empty: "accounted empty_world"
  by (simp add: accounted_def empty_world_def balanced_def under_way_def)

lemma accounted_run: "accounted w \<Longrightarrow> accounted (queue_run dlqMax es w)"
  unfolding queue_run_def by (induction es arbitrary: w) (auto intro: accounted_step)

section \<open>How often a delivery is attempted\<close>

definition occurrences :: "'d payload \<Rightarrow> 'd payload list \<Rightarrow> nat" where
  "occurrences d ps = length (filter (\<lambda>p. delivery_of p = delivery_of d) ps)"

lemma occurrences_count: "occurrences d ps = count (image_mset delivery_of (mset ps)) (delivery_of d)"
  by (induction ps) (auto simp: occurrences_def)

lemma tries_bound:
  assumes "\<forall>p \<in># M. within_budget p"
  shows "count (tries M) (delivery_of d) \<le> count (image_mset delivery_of M) (delivery_of d) * (nat (max_attempts d) + 1)"
  using assms
proof (induction M)
  case (add p M)
  have "pl_attempt p \<le> nat (max_attempts d) + 1" if "delivery_of p = delivery_of d"
    using add.prems that max_attempts_delivery [of p] max_attempts_delivery [of d] by (auto simp: within_budget_def)
  with add show ?case by (auto simp: algebra_simps)
qed simp

lemma tries_one:
  assumes "count (image_mset delivery_of M) (delivery_of d) = 1" "p \<in># M" "delivery_of p = delivery_of d"
  shows "count (tries M) (delivery_of d) = pl_attempt p"
proof -
  obtain N where N: "M = add_mset p N" using assms(2) by (metis insert_DiffM)
  then have "count (image_mset delivery_of N) (delivery_of d) = 0" using assms by simp
  then have "delivery_of d \<notin># image_mset delivery_of N" unfolding count_eq_zero_iff .
  then have "count (tries N) (delivery_of d) = 0" by (induction N) auto
  then show ?thesis using N assms(3) by simp
qed

lemma accounted_counts:
  assumes "accounted w"
  defines "M \<equiv> under_way w + mset (wo_lost w) + image_mset next_attempt (mset (wo_done w) + mset (wo_dead w))"
  shows "occurrences d (wo_pushed w) = count (image_mset delivery_of M) (delivery_of d)" "occurrences d (wo_posts w) = count (tries M) (delivery_of d)"
    "\<forall>p \<in># M. within_budget p"
proof -
  have n: "image_mset delivery_of (image_mset next_attempt N) = image_mset delivery_of N" for N :: "'a payload multiset"
    by (simp add: multiset.map_comp comp_def)
  have b: "balanced (under_way w) (mset (wo_done w)) (mset (wo_dead w)) (mset (wo_lost w)) (mset (wo_pushed w)) (mset (wo_posts w))"
    using assms(1) by (simp add: accounted_def)
  show "occurrences d (wo_pushed w) = count (image_mset delivery_of M) (delivery_of d)"
    using b by (simp add: balanced_def occurrences_count M_def n)
  show "occurrences d (wo_posts w) = count (tries M) (delivery_of d)"
    using b by (simp add: balanced_def occurrences_count M_def)
  show "\<forall>p \<in># M. within_budget p" using b by (auto simp: balanced_def M_def within_budget_def)
qed


section \<open>Nothing is lost without a failure\<close>

text \<open>A step in which no process dies and no write to the cache is refused.\<close>

fun quiet :: "'d queue_event \<Rightarrow> bool" where
  "quiet (Deliver i sd now failedAt stores) \<longleftrightarrow> stores"
| "quiet (DieDelivering i) \<longleftrightarrow> False"
| "quiet (DieClaimed i) \<longleftrightarrow> False"
| "quiet _ \<longleftrightarrow> True"

text \<open>A payload is lost otherwise only when an equal one is stored already: then the delivery was queued twice.\<close>

definition twice_if_lost :: "'d world \<Rightarrow> bool" where
  "twice_if_lost w \<longleftrightarrow> (\<forall>p \<in> set (wo_lost w). 2 \<le> occurrences p (wo_pushed w))"

lemma occurrences_Cons: "occurrences d (p # ps) = (if delivery_of p = delivery_of d then 1 else 0) + occurrences d ps"
  by (simp add: occurrences_def)

lemma occurrences_append: "occurrences d (ps @ qs) = occurrences d ps + occurrences d qs"
  by (simp add: occurrences_def)

lemma occurrences_next [simp]: "occurrences (next_attempt p) ps = occurrences p ps"
  by (simp add: occurrences_def)

lemma two_under_way:
  assumes a: "accounted w" and p: "p \<in> set (wo_hand w)" and m: "next_attempt p \<in> fst ` set (re_retry (wo_redis w))"
  shows "2 \<le> occurrences p (wo_pushed w)"
proof -
  have "1 \<le> count (image_mset delivery_of (mset (wo_hand w))) (delivery_of p)" using p by simp
  moreover have "1 \<le> count (image_mset delivery_of (mset (map fst (re_retry (wo_redis w))))) (delivery_of p)"
    using m by (auto simp: image_iff Bex_def)
  moreover have "occurrences p (wo_pushed w) = count (image_mset delivery_of (under_way w + mset (wo_done w) + mset (wo_dead w) + mset (wo_lost w))) (delivery_of p)"
    using a by (simp add: accounted_def balanced_def occurrences_count)
  ultimately show ?thesis unfolding under_way_def image_mset_union count_union by linarith
qed

lemma twice_step:
  assumes "accounted w" "twice_if_lost w" "quiet e"
  shows "twice_if_lost (queue_step dlqMax e w)"
proof -
  have more: "twice_if_lost w'" if "wo_lost w' = wo_lost w" "wo_pushed w' = ps @ wo_pushed w" for w' ps
    using assms(2) that by (auto simp: twice_if_lost_def occurrences_append)
  show ?thesis
  proof (cases e)
    case (Deliver i sd now failedAt stores)
    show ?thesis
    proof (cases "i < length (wo_hand w)")
      case True
      let ?p = "wo_hand w ! i"
      have "?p \<in> set (wo_hand w)" using True by simp
      then have "2 \<le> occurrences ?p (wo_pushed w)" if "(next_attempt ?p, b) \<in> set (re_retry (wo_redis w))" for b
        using two_under_way [OF assms(1)] that by force
      then show ?thesis using Deliver True assms(2,3)
        by (auto simp: twice_if_lost_def delivered_def Let_def set_redis_def not_le)
    qed (use Deliver assms in simp)
  next
    case (Queue p)
    then show ?thesis using assms(2) more [of _ "[p]"] by (cases "pl_attempt p = 0") (simp_all add: set_redis_def)
  next
    case (Replay i)
    then show ?thesis using assms(2) more [of _ "payloads_in [rp_item (wo_read w ! i)]"]
      by (cases "i < length (wo_read w)") (simp_all add: set_redis_def Let_def)
  next
    case (Claim i)
    then show ?thesis using assms(2) more [of _ "[]"]
      by (cases "zrem (wo_seen w ! i) (re_retry (wo_redis w))") (simp add: set_redis_def)
  qed (use assms more [of _ "[]"] in \<open>simp_all add: set_redis_def\<close>)
qed

lemma twice_run:
  "accounted w \<Longrightarrow> twice_if_lost w \<Longrightarrow> \<forall>e \<in> set es. quiet e \<Longrightarrow> twice_if_lost (queue_run dlqMax es w)"
  unfolding queue_run_def by (induction es arbitrary: w) (auto intro: accounted_step twice_step)

text \<open>C37. At any moment of such a run, for each time a delivery was queued it is under way once, delivered, given up
or lost once; and while no process dies and no write is refused, a delivery that was queued once is never lost: it is
on its way in one place, or was delivered or given up, once.\<close>

theorem deliveries_are_accounted:
  assumes "w = queue_run dlqMax es empty_world"
  shows "occurrences d (wo_pushed w) = count (image_mset delivery_of (under_way w)) (delivery_of d) + occurrences d (wo_done w)
      + occurrences d (wo_dead w) + occurrences d (wo_lost w)
    \<and> ((\<forall>e \<in> set es. quiet e) \<and> occurrences d (wo_pushed w) \<le> 1 \<longrightarrow> occurrences d (wo_lost w) = 0)"
proof (intro conjI impI)
  have a: "accounted w" unfolding assms by (rule accounted_run [OF accounted_empty])
  then show "occurrences d (wo_pushed w) = count (image_mset delivery_of (under_way w)) (delivery_of d) + occurrences d (wo_done w)
      + occurrences d (wo_dead w) + occurrences d (wo_lost w)"
    by (simp add: accounted_def balanced_def occurrences_count)
  assume q: "(\<forall>e \<in> set es. quiet e) \<and> occurrences d (wo_pushed w) \<le> 1"
  have "twice_if_lost w" unfolding assms
    by (rule twice_run [OF accounted_empty]) (use q in \<open>simp_all add: twice_if_lost_def empty_world_def\<close>)
  then have "delivery_of p \<noteq> delivery_of d" if "p \<in> set (wo_lost w)" for p
    using that q by (fastforce simp: twice_if_lost_def occurrences_def)
  then show "occurrences d (wo_lost w) = 0" by (simp add: occurrences_def filter_empty_conv)
qed

section \<open>Runs\<close>

text \<open>
  An endpoint that is not reached: a delivery with two retries is attempted three times and given up.  Two replicas
  read the first retry when it is due, and one of them is given it.
\<close>

definition unreached :: "nat sender" where
  "unreached = (demo_sender demo_web)\<lparr> sd_body := (\<lambda>e c d t. None) \<rparr>"

definition try_no :: "nat \<Rightarrow> nat payload" where
  "try_no k = \<lparr> pl_webhookId = Some ''h1'', pl_deliveryId = None, pl_tenantId = None, pl_url = [], pl_method = None,
     pl_headers = None, pl_secret = None, pl_timeout = None, pl_retryAttempts = Some 2, pl_attempt = k, pl_event = [],
     pl_collection = [], pl_data = 0, pl_timestamp = [] \<rparr>"

definition demo_queue :: "nat queue_event list" where
  "demo_queue = [Queue (try_no 0), Pop 10, Deliver 0 unreached 0 ''t0'' True,
     ReadDue 1000 [try_no 1], ReadDue 1001 [try_no 1], Claim 0, Claim 0, Requeue 0, Pop 10,
     Deliver 0 unreached 2000 ''t1'' True, ReadDue 4000 [try_no 2], Claim 0, Requeue 0, Pop 1,
     Deliver 0 unreached 5000 ''t2'' True, Trim]"

definition demo_end :: "nat world" where
  "demo_end = queue_run 3 demo_queue empty_world"

lemma demo_end_run:
  "(wo_posts demo_end, wo_pushed demo_end, wo_dead demo_end, length (re_dlq (wo_redis demo_end))) =
     ([try_no 2, try_no 1, try_no 0], [try_no 0], [try_no 2], 1)"
  by code_simp

lemma demo_end_books:
  "wo_posts demo_end = [try_no 2, try_no 1, try_no 0]" "wo_pushed demo_end = [try_no 0]" "wo_dead demo_end = [try_no 2]"
  "\<forall>e \<in> set demo_queue. quiet e" "max_attempts (try_no 0) = 2"
  using demo_end_run by (simp_all add: demo_queue_def try_no_def max_attempts_def)

lemma delivery_of_try [simp]: "delivery_of (try_no k) = \<lparr> pl_webhookId = Some ''h1'', pl_deliveryId = None,
     pl_tenantId = None, pl_url = [], pl_method = None, pl_headers = None, pl_secret = None, pl_timeout = None,
     pl_retryAttempts = Some 2, pl_attempt = 0, pl_event = [], pl_collection = [], pl_data = 0, pl_timestamp = [] \<rparr>"
  by (simp add: delivery_of_def try_no_def)


theorem deliveries_are_accounted_witness:
  "occurrences (try_no 0) (wo_lost demo_end) = 0 \<and> occurrences (try_no 0) (wo_done demo_end) = 0"
proof -
  have "occurrences (try_no 0) (wo_pushed demo_end) = 1" "occurrences (try_no 0) (wo_dead demo_end) = 1"
    by (simp_all add: demo_end_books occurrences_def)
  then show ?thesis
    using deliveries_are_accounted [OF demo_end_def, of "try_no 0"] demo_end_books(4) by simp
qed

text \<open>
  Two administrators of a tenant who replay at once queue a dead letter twice: what \<open>LREM\<close> answers is not looked at.
\<close>

definition demo_replays :: "nat queue_event list" where
  "demo_replays = [Queue ((try_no 0)\<lparr> pl_retryAttempts := Some 0 \<rparr>), Pop 1, Deliver 0 unreached 0 ''t0'' True,
     ReadDead ''t1'' [demo_hook ''h1'' True ''t1''] demo_keys, ReadDead ''t1'' [demo_hook ''h1'' True ''t1''] demo_keys,
     Replay 0, RemoveDead 0, Replay 0, RemoveDead 0]"

lemma replays_queue_twice:
  "(let r = wo_redis (queue_run 3 demo_replays empty_world) in (length (re_queue r), re_dlq r)) = (2, [])"
  by code_simp

section \<open>Dead letters\<close>

text \<open>No letter keeps a secret, and the letters are at most as many as are kept and the trims to come.\<close>

definition letters_kept :: "int \<Rightarrow> 'd world \<Rightarrow> bool" where
  "letters_kept dlqMax w \<longleftrightarrow> (\<forall>p t. Letter p t \<in> set (re_dlq (wo_redis w)) \<longrightarrow> pl_secret p = None)
     \<and> int (length (re_dlq (wo_redis w))) \<le> dlqMax + int (wo_trims w)"

lemma letters_delivered:
  "letters_kept m w \<Longrightarrow> letters_kept m (delivered p ok now failedAt stores (w\<lparr> wo_hand := h \<rparr>))"
  by (auto simp: letters_kept_def delivered_def Let_def set_redis_def dead_letter_of_def)

lemma letters_same:
  "letters_kept m w \<Longrightarrow> re_dlq (wo_redis w') = re_dlq (wo_redis w) \<Longrightarrow> wo_trims w' = wo_trims w \<Longrightarrow> letters_kept m w'"
  by (simp add: letters_kept_def)

lemma letters_step:
  assumes "letters_kept m w" "0 < m"
  shows "letters_kept m (queue_step m e w)"
proof (cases e)
  case (Deliver i sd now failedAt stores)
  then show ?thesis using assms letters_delivered [OF assms(1)] by (simp add: Let_def)
next
  case Trim
  have "set (ltrim (m - 1) xs) \<subseteq> set xs" for xs :: "'a dead_letter list"
    by (auto simp: ltrim_def dest: in_set_takeD)
  then show ?thesis using Trim assms by (auto simp: letters_kept_def set_redis_def ltrim_def)
next
  case (Claim i)
  show ?thesis unfolding Claim
    by (rule letters_same [OF assms(1)]; cases "zrem (wo_seen w ! i) (re_retry (wo_redis w))") (simp_all add: set_redis_def)
next
  case (RemoveDead i)
  let ?x = "rp_entry (wo_queued w ! i)" and ?xs = "re_dlq (wo_redis w)"
  have l: "set (lrem ?x ?xs) \<subseteq> set ?xs" "int (length (lrem ?x ?xs)) \<le> int (length ?xs)"
    by (simp_all add: lrem_def length_remove1 set_remove1_subset)
  show ?thesis
  proof (cases "i < length (wo_queued w)")
    case True
    then have "queue_step m e w = (set_redis (\<lambda>r. r\<lparr> re_dlq := lrem ?x (re_dlq r) \<rparr>) w)\<lparr> wo_queued := drop_nth i (wo_queued w) \<rparr>"
      using RemoveDead by simp
    then show ?thesis using assms(1) subsetD [OF l(1)] order_trans [OF l(2)]
      unfolding letters_kept_def by (simp add: set_redis_def) blast
  qed (use RemoveDead assms in simp)
qed (simp_all add: letters_same [OF assms(1)] set_redis_def rpush_def Let_def)

lemma letters_run: "0 < m \<Longrightarrow> letters_kept m (queue_run m es empty_world)"
proof -
  assume m: "0 < m"
  have "letters_kept m w \<Longrightarrow> letters_kept m (fold (queue_step m) es w)" for w
    by (induction es arbitrary: w) (auto intro: letters_step [OF _ m])
  moreover have "letters_kept m empty_world" using m by (simp add: letters_kept_def empty_world_def)
  ultimately show ?thesis by (simp add: queue_run_def)
qed

end
