(* ===== verification/WebhookPolls.thy ===== *)
theory WebhookPolls
  imports WebhookQueue
begin

text \<open>
  One poll of a worker (\<open>_process\<close> of \<open>lib/webhook-worker.ts\<close>) from end to end, as the steps it takes
  when no other process takes one in between, and what polling comes to: every delivery that is queued is
  settled.
\<close>

section \<open>One poll\<close>

text \<open>The payloads popped, one after the other, each with what is stored then; a letter pushed is followed by its trim.\<close>

definition deliver_one :: "int \<Rightarrow> nat \<Rightarrow> 'd sender \<Rightarrow> int \<Rightarrow> string \<Rightarrow> 'd world \<Rightarrow> 'd world" where
  "deliver_one dlqMax base sd now failedAt w =
    (let w' = queue_step dlqMax (Deliver base sd now failedAt True) w in
     if wo_trims w < wo_trims w' then queue_step dlqMax Trim w' else w')"

fun deliver_all :: "int \<Rightarrow> nat \<Rightarrow> (nat \<Rightarrow> 'd sender) \<Rightarrow> int \<Rightarrow> string \<Rightarrow> nat \<Rightarrow> 'd world \<Rightarrow> 'd world" where
  "deliver_all dlqMax base sds now failedAt 0 w = w"
| "deliver_all dlqMax base sds now failedAt (Suc n) w =
    deliver_all dlqMax base sds now failedAt n (deliver_one dlqMax base (sds n) now failedAt w)"

text \<open>The members read are claimed in turn, and each claimed one is queued.\<close>

definition claim_one :: "int \<Rightarrow> nat \<Rightarrow> nat \<Rightarrow> 'd world \<Rightarrow> 'd world" where
  "claim_one dlqMax seen claimed w =
    (let w' = queue_step dlqMax (Claim seen) w in
     if claimed < length (wo_claimed w') then queue_step dlqMax (Requeue claimed) w' else w')"

fun claim_all :: "int \<Rightarrow> nat \<Rightarrow> nat \<Rightarrow> nat \<Rightarrow> 'd world \<Rightarrow> 'd world" where
  "claim_all dlqMax seen claimed 0 w = w"
| "claim_all dlqMax seen claimed (Suc n) w = claim_all dlqMax seen claimed n (claim_one dlqMax seen claimed w)"

text \<open>What a poll meets: the platform for each delivery, the times of its two halves, and what the cache lists as due.\<close>

record 'd polling =
  po_senders :: "nat \<Rightarrow> 'd sender"
  po_delivered :: int
  po_failedAt :: string
  po_now :: int
  po_due :: "'d retry_set \<Rightarrow> 'd payload list"

definition deliver_popped :: "int \<Rightarrow> 'd polling \<Rightarrow> 'd world \<Rightarrow> 'd world" where
  "deliver_popped dlqMax po w =
    (let base = length (wo_hand w); popped = queue_step dlqMax (Pop 10) w
     in deliver_all dlqMax base (po_senders po) (po_delivered po) (po_failedAt po) (length (wo_hand popped) - base) popped)"

definition requeue_due :: "int \<Rightarrow> 'd polling \<Rightarrow> 'd world \<Rightarrow> 'd world" where
  "requeue_due dlqMax po w =
    (let due = po_due po (re_retry (wo_redis w))
     in claim_all dlqMax (length (wo_seen w)) (length (wo_claimed w)) (length due) (queue_step dlqMax (ReadDue (po_now po) due) w))"

definition process :: "int \<Rightarrow> 'd polling \<Rightarrow> 'd world \<Rightarrow> 'd world" where
  "process dlqMax po w = requeue_due dlqMax po (deliver_popped dlqMax po w)"

section \<open>Every poll with work to do does some\<close>

definition budget :: "'d payload \<Rightarrow> nat" where
  "budget p = 1 + nat (max_attempts p - int (pl_attempt p))"

fun item_weight :: "'d item \<Rightarrow> nat" where
  "item_weight (Stored p) = 2 * budget p"
| "item_weight (Malformed s) = 1"

text \<open>The work a world has left.\<close>

definition work :: "'d world \<Rightarrow> nat" where
  "work w = sum_list (map item_weight (re_queue (wo_redis w))) + sum_list (map (\<lambda>p. 2 * budget p) (wo_hand w))
     + sum_list (map (\<lambda>(p, s). 2 * budget p + 1) (re_retry (wo_redis w))) + sum_list (map (\<lambda>p. 2 * budget p) (wo_claimed w))"

lemma work_payloads: "sum_list (map (\<lambda>p. 2 * budget p) (payloads_in is)) \<le> sum_list (map item_weight is)"
  by (induction "is" rule: payloads_in.induct) auto

lemma work_split: "sum_list (map item_weight (take n is)) + sum_list (map item_weight (drop n is)) = sum_list (map item_weight is)"
  by (metis append_take_drop_id map_append sum_list_append)

lemma sum_drop_nth: "i < length xs \<Longrightarrow> sum_list (map f xs) = f (xs ! i) + sum_list (map f (drop_nth i xs))" for f :: "'b \<Rightarrow> nat"
  unfolding drop_nth_def by (subst id_take_nth_drop [of i xs]) auto

lemma sum_zset_add:
  "sum_list (map (\<lambda>(p, s). f p) (zset_add t m z)) \<le> sum_list (map (\<lambda>(p, s). f p) z) + f m" for f :: "'d payload \<Rightarrow> nat"
  unfolding zset_add_def by (induction z) auto

lemma sum_zrem:
  fixes f :: "'d payload \<Rightarrow> nat"
  assumes "distinct (map fst z)"
  shows "sum_list (map (\<lambda>(p, s). f p) (fst (zrem m z))) + (if snd (zrem m z) then f m else 0) = sum_list (map (\<lambda>(p, s). f p) z)"
  using assms
proof (induction z)
  case (Cons e z)
  obtain p s where e: "e = (p, s)" by (cases e)
  have gone: "AList.delete p z = z" if "p \<notin> fst ` set z"
    using that by (induction z) (auto simp: AList.delete_eq)
  show ?case
  proof (cases "p = m")
    case True
    then have "AList.delete m (e # z) = z" using Cons.prems gone e by (simp add: AList.delete_eq)
    then show ?thesis using True e by (simp add: zrem_def)
  next
    case False
    then show ?thesis using Cons e by (auto simp: zrem_def AList.delete_eq)
  qed
qed (simp add: zrem_def)

text \<open>A delivery leaves less work than it found.\<close>

lemma work_delivered:
  "work (delivered p ok now failedAt stores w) < work w + 2 * budget p"
proof -
  have b: "budget p = Suc (budget (next_attempt p))" if "retries_again p"
    using that by (auto simp: budget_def retries_again_def next_attempt_def max_attempts_def)
  have "1 \<le> budget p" by (simp add: budget_def)
  then show ?thesis
    using b sum_zset_add [where f = "\<lambda>p. 2 * budget p + 1" and t = "now + retry_delay p" and m = "next_attempt p" and z = "re_retry (wo_redis w)"]
    by (auto simp: delivered_def work_def Let_def set_redis_def)
qed

lemma work_deliver:
  assumes "i < length (wo_hand w)"
  shows "work (queue_step dlqMax (Deliver i sd now failedAt stores) w) < work w"
proof -
  have "work w = work (w\<lparr> wo_hand := drop_nth i (wo_hand w) \<rparr>) + 2 * budget (wo_hand w ! i)"
    using sum_drop_nth [OF assms, of "\<lambda>p. 2 * budget p"] by (simp add: work_def)
  then show ?thesis
    using work_delivered [of "wo_hand w ! i" _ now failedAt stores "w\<lparr> wo_hand := drop_nth i (wo_hand w) \<rparr>"] assms
    by (simp add: Let_def not_le)
qed

subsection \<open>The first half\<close>

lemma delivered_fields [simp]:
  "wo_hand (delivered p ok now failedAt stores w) = wo_hand w" "wo_claimed (delivered p ok now failedAt stores w) = wo_claimed w"
  "wo_seen (delivered p ok now failedAt stores w) = wo_seen w"
  by (simp_all add: delivered_def Let_def set_redis_def)

lemma trim_fields [simp]:
  "wo_hand (queue_step m Trim w) = wo_hand w" "wo_claimed (queue_step m Trim w) = wo_claimed w"
  "wo_seen (queue_step m Trim w) = wo_seen w" "work (queue_step m Trim w) = work w"
  by (simp_all add: set_redis_def work_def)

lemma length_drop_nth [simp]: "i < length xs \<Longrightarrow> length (drop_nth i xs) = length xs - 1"
  by (simp add: drop_nth_def)

lemma deliver_one_facts:
  assumes "base < length (wo_hand w)"
  shows "work (deliver_one m base sd now fa w) < work w" "wo_hand (deliver_one m base sd now fa w) = drop_nth base (wo_hand w)"
    "wo_claimed (deliver_one m base sd now fa w) = wo_claimed w"
    "accounted w \<Longrightarrow> accounted (deliver_one m base sd now fa w)"
proof -
  let ?w = "queue_step m (Deliver base sd now fa True) w"
  have "work ?w < work w" by (rule work_deliver [OF assms])
  moreover have "wo_hand ?w = drop_nth base (wo_hand w)" "wo_claimed ?w = wo_claimed w"
    using assms by (simp_all add: Let_def not_le)
  moreover have "deliver_one m base sd now fa w \<in> {?w, queue_step m Trim ?w}" by (simp add: deliver_one_def Let_def)
  ultimately show "work (deliver_one m base sd now fa w) < work w" "wo_hand (deliver_one m base sd now fa w) = drop_nth base (wo_hand w)"
    "wo_claimed (deliver_one m base sd now fa w) = wo_claimed w"
    by (auto simp del: queue_step.simps)
  show "accounted (deliver_one m base sd now fa w)" if "accounted w"
    unfolding deliver_one_def Let_def using accounted_step that by (auto simp del: queue_step.simps)
qed

lemma deliver_all_facts:
  "length (wo_hand w) = base + n \<Longrightarrow> accounted w \<Longrightarrow>
    work (deliver_all m base sds now fa n w) + n \<le> work w \<and> wo_hand (deliver_all m base sds now fa n w) = take base (wo_hand w)
    \<and> wo_claimed (deliver_all m base sds now fa n w) = wo_claimed w \<and> accounted (deliver_all m base sds now fa n w)"
proof (induction n arbitrary: w)
  case (Suc n)
  let ?w = "deliver_one m base (sds n) now fa w"
  have h: "base < length (wo_hand w)" using Suc.prems(1) by simp
  note f = deliver_one_facts [OF h, of m "sds n" now fa]
  have "length (wo_hand ?w) = base + n" using h Suc.prems(1) by (simp add: f(2))
  moreover have "take base (drop_nth base (wo_hand w)) = take base (wo_hand w)" using h by (simp add: drop_nth_def)
  ultimately show ?case using Suc.IH [of ?w] Suc.prems(2) f by auto
qed simp

lemma deliver_popped_facts:
  assumes "accounted w"
  shows "work (deliver_popped m po w) \<le> work w" "wo_hand (deliver_popped m po w) = wo_hand w"
    "wo_claimed (deliver_popped m po w) = wo_claimed w" "accounted (deliver_popped m po w)"
    "re_queue (wo_redis w) \<noteq> [] \<Longrightarrow> work (deliver_popped m po w) < work w"
    "re_queue (wo_redis w) = [] \<Longrightarrow> wo_redis (deliver_popped m po w) = wo_redis w"
proof -
  let ?q = "re_queue (wo_redis w)" and ?p = "queue_step m (Pop 10) w"
  let ?n = "length (wo_hand ?p) - length (wo_hand w)"
  have hand: "wo_hand ?p = wo_hand w @ payloads_in (take 10 ?q)" by simp
  then have len: "length (wo_hand ?p) = length (wo_hand w) + ?n" "?n = length (payloads_in (take 10 ?q))"
    "take (length (wo_hand w)) (wo_hand ?p) = wo_hand w" by simp_all
  have p: "accounted ?p" by (rule accounted_step [OF assms])
  have pw: "work ?p = work w - sum_list (map item_weight (take 10 ?q)) + sum_list (map (\<lambda>p. 2 * budget p) (payloads_in (take 10 ?q)))"
    using work_split [of 10 ?q] by (simp add: work_def set_redis_def)
  have le: "sum_list (map (\<lambda>p. 2 * budget p) (payloads_in (take 10 ?q))) \<le> sum_list (map item_weight (take 10 ?q))"
    by (rule work_payloads)
  have sub: "sum_list (map item_weight (take 10 ?q)) \<le> work w" using work_split [of 10 ?q] by (simp add: work_def)
  note f = deliver_all_facts [OF len(1) p, of m "po_senders po" "po_delivered po" "po_failedAt po"]
  have d: "deliver_popped m po w = deliver_all m (length (wo_hand w)) (po_senders po) (po_delivered po) (po_failedAt po) ?n ?p"
    by (simp add: deliver_popped_def Let_def)
  have wp: "work ?p \<le> work w" using pw le sub by linarith
  show "work (deliver_popped m po w) \<le> work w" using f wp by (simp only: d) linarith
  show "wo_hand (deliver_popped m po w) = wo_hand w" using f len(3) by (simp only: d)
  show "wo_claimed (deliver_popped m po w) = wo_claimed w" using f by (simp add: d set_redis_def)
  show "accounted (deliver_popped m po w)" using f by (simp only: d)
  show "work (deliver_popped m po w) < work w" if "?q \<noteq> []"
  proof (cases "payloads_in (take 10 ?q) = []")
    case True
    then have "0 < sum_list (map item_weight (take 10 ?q))" using that by (cases ?q; cases "hd ?q") (auto simp: budget_def)
    then show ?thesis using f pw True sub by (simp only: d) simp
  next
    case False
    then have "0 < ?n" using len(2) by simp
    then show ?thesis using f wp by (simp only: d) linarith
  qed
  show "wo_redis (deliver_popped m po w) = wo_redis w" if "?q = []"
    using that by (simp add: deliver_popped_def set_redis_def)
qed

subsection \<open>The second half\<close>

lemma claim_one_facts:
  assumes a: "accounted w" and i: "seen < length (wo_seen w)" and c: "claimed = length (wo_claimed w)"
  shows "work (claim_one m seen claimed w) \<le> work w" "wo_claimed (claim_one m seen claimed w) = wo_claimed w"
    "wo_hand (claim_one m seen claimed w) = wo_hand w" "wo_seen (claim_one m seen claimed w) = drop_nth seen (wo_seen w)"
    "accounted (claim_one m seen claimed w)"
    "wo_seen w ! seen \<in> fst ` set (re_retry (wo_redis w)) \<Longrightarrow> work (claim_one m seen claimed w) < work w"
proof -
  let ?x = "wo_seen w ! seen" and ?z = "re_retry (wo_redis w)"
  let ?w = "queue_step m (Claim seen) w"
  have d: "distinct (map fst ?z)" using a by (simp add: accounted_def)
  obtain z got where z: "zrem ?x ?z = (z, got)" by (cases "zrem ?x ?z")
  then have got: "got \<longleftrightarrow> ?x \<in> fst ` set ?z" by (simp add: zrem_def)
  have s: "sum_list (map (\<lambda>(p, s). 2 * budget p + 1) z) + (if got then 2 * budget ?x + 1 else 0)
      = sum_list (map (\<lambda>(p, s). 2 * budget p + 1) ?z)"
    using sum_zrem [OF d, of "\<lambda>p. 2 * budget p + 1" ?x] z by simp
  have w: "?w = w\<lparr> wo_redis := (wo_redis w)\<lparr> re_retry := z \<rparr>, wo_seen := drop_nth seen (wo_seen w),
      wo_claimed := (if got then wo_claimed w @ [?x] else wo_claimed w) \<rparr>"
    using i z by (simp add: set_redis_def not_le)
  have one: "claim_one m seen claimed w = (if got then queue_step m (Requeue claimed) ?w else ?w)"
    using c by (simp add: claim_one_def w del: queue_step.simps)
  have end_: "claim_one m seen claimed w = w\<lparr> wo_redis := (wo_redis w)\<lparr> re_retry := z,
      re_queue := re_queue (wo_redis w) @ (if got then [Stored ?x] else []) \<rparr>, wo_seen := drop_nth seen (wo_seen w) \<rparr>"
    unfolding one unfolding w using c by (simp add: set_redis_def rpush_def drop_nth_def)
  show "work (claim_one m seen claimed w) \<le> work w" using s by (simp add: end_ work_def split: if_splits)
  show "wo_claimed (claim_one m seen claimed w) = wo_claimed w" "wo_hand (claim_one m seen claimed w) = wo_hand w"
    "wo_seen (claim_one m seen claimed w) = drop_nth seen (wo_seen w)"
    by (simp_all add: end_)
  have "accounted ?w" by (rule accounted_step [OF a])
  then show "accounted (claim_one m seen claimed w)" unfolding one
    by (cases got) (simp_all add: accounted_step del: queue_step.simps)
  show "work (claim_one m seen claimed w) < work w" if "?x \<in> fst ` set ?z"
    using that s got by (simp add: end_ work_def)
qed

lemma claim_all_facts:
  "accounted w \<Longrightarrow> length (wo_seen w) = seen + n \<Longrightarrow> claimed = length (wo_claimed w) \<Longrightarrow>
    work (claim_all m seen claimed n w) \<le> work w \<and> wo_claimed (claim_all m seen claimed n w) = wo_claimed w
    \<and> wo_hand (claim_all m seen claimed n w) = wo_hand w \<and> accounted (claim_all m seen claimed n w)
    \<and> (0 < n \<and> wo_seen w ! seen \<in> fst ` set (re_retry (wo_redis w)) \<longrightarrow> work (claim_all m seen claimed n w) < work w)"
proof (induction n arbitrary: w)
  case (Suc n)
  let ?w = "claim_one m seen claimed w"
  have i: "seen < length (wo_seen w)" using Suc.prems(2) by simp
  note f = claim_one_facts [OF Suc.prems(1) i Suc.prems(3), of m]
  have l: "length (wo_seen ?w) = seen + n" using i Suc.prems(2) by (simp add: f(4))
  have "claimed = length (wo_claimed ?w)" by (simp only: f(2)) (rule Suc.prems(3))
  note IH = Suc.IH [OF f(5) l this]
  have le: "work (claim_all m seen claimed n ?w) \<le> work ?w" using IH by blast
  then have lt: "work (claim_all m seen claimed n ?w) < work w" if "wo_seen w ! seen \<in> fst ` set (re_retry (wo_redis w))"
    using f(6) [OF that] by linarith
  have "work (claim_all m seen claimed n ?w) \<le> work w" using le f(1) by linarith
  then show ?case using IH lt f(2,3) by simp
qed simp

text \<open>The cache answers a read of what is due as it says it does.\<close>

definition due_as_documented :: "'d polling \<Rightarrow> bool" where
  "due_as_documented po \<longleftrightarrow> (\<forall>z. distinct (map fst z) \<longrightarrow> zrangebyscore (po_now po) z (po_due po z))"

lemma process_facts:
  assumes a: "accounted w" and d: "due_as_documented po"
  shows "accounted (process m po w)" "work (process m po w) \<le> work w"
    "wo_hand (process m po w) = wo_hand w" "wo_claimed (process m po w) = wo_claimed w"
    "re_queue (wo_redis w) \<noteq> [] \<or> due_members (po_now po) (re_retry (wo_redis w)) \<noteq> [] \<Longrightarrow> work (process m po w) < work w"
    "re_queue (wo_redis w) = [] \<Longrightarrow> due_members (po_now po) (re_retry (wo_redis w)) = [] \<Longrightarrow> wo_redis (process m po w) = wo_redis w"
proof -
  let ?t = "deliver_popped m po w"
  let ?due = "po_due po (re_retry (wo_redis ?t))"
  let ?r = "queue_step m (ReadDue (po_now po) ?due) ?t"
  note f = deliver_popped_facts [OF a, of m po]
  have "distinct (map fst (re_retry (wo_redis ?t)))" using f(4) by (simp add: accounted_def)
  then have due: "zrangebyscore (po_now po) (re_retry (wo_redis ?t)) ?due" using d by (simp add: due_as_documented_def)
  then have r: "?r = ?t\<lparr> wo_seen := wo_seen ?t @ ?due \<rparr>" by simp
  have ra: "accounted ?r" by (rule accounted_step [OF f(4)])
  have rw: "work ?r = work ?t" by (simp only: r) (simp add: work_def)
  have len: "length (wo_seen ?r) = length (wo_seen ?t) + length ?due" "length (wo_claimed ?t) = length (wo_claimed ?r)"
    by (simp_all only: r) simp_all
  note g = claim_all_facts [OF ra len, of m]
  have p: "process m po w = claim_all m (length (wo_seen ?t)) (length (wo_claimed ?t)) (length ?due) ?r"
    by (simp add: process_def requeue_due_def Let_def del: queue_step.simps)
  show "accounted (process m po w)" using g by (simp only: p)
  have le: "work (process m po w) \<le> work ?t" using g rw by (simp only: p)
  then show "work (process m po w) \<le> work w" using f(1) by linarith
  show "wo_hand (process m po w) = wo_hand w" using g f(2) by (simp only: p r) simp
  show "wo_claimed (process m po w) = wo_claimed w" using g f(3) by (simp only: p r) simp
  show "work (process m po w) < work w"
    if todo: "re_queue (wo_redis w) \<noteq> [] \<or> due_members (po_now po) (re_retry (wo_redis w)) \<noteq> []"
  proof (cases "re_queue (wo_redis w) = []")
    case True
    then have t: "wo_redis ?t = wo_redis w" by (rule f(6))
    then have "due_members (po_now po) (re_retry (wo_redis ?t)) \<noteq> []" using todo True by simp
    moreover have "length ?due = min 10 (length (due_members (po_now po) (re_retry (wo_redis ?t))))"
      using due by (simp only: zrangebyscore_def)
    ultimately have ne: "?due \<noteq> []" by (metis length_0_conv min_def zero_neq_numeral)
    then have "?due ! 0 \<in> set (due_members (po_now po) (re_retry (wo_redis ?t)))"
      using due ne nth_mem [of 0 ?due] unfolding zrangebyscore_def by blast
    then have "wo_seen ?r ! length (wo_seen ?t) \<in> fst ` set (re_retry (wo_redis ?r))"
      using ne by (simp only: r) (force simp: due_members_def nth_append)
    then have "work (process m po w) < work ?r" using g ne by (simp only: p) simp
    then show ?thesis using rw f(1) by linarith
  next
    case False
    then show ?thesis using f(5) le by linarith
  qed
  show "wo_redis (process m po w) = wo_redis w"
    if "re_queue (wo_redis w) = []" "due_members (po_now po) (re_retry (wo_redis w)) = []"
  proof -
    have t: "wo_redis ?t = wo_redis w" by (rule f(6)) (rule that(1))
    then have "?due = []" using due that(2) by (simp add: zrangebyscore_def)
    then show ?thesis using t by (simp only: p r) simp
  qed
qed

section \<open>Every delivery is settled\<close>

fun polls :: "int \<Rightarrow> (nat \<Rightarrow> 'd polling) \<Rightarrow> nat \<Rightarrow> 'd world \<Rightarrow> 'd world" where
  "polls dlqMax po 0 w = w"
| "polls dlqMax po (Suc n) w = process dlqMax (po n) (polls dlqMax po n w)"

lemma polls_facts:
  assumes "accounted w" "\<forall>k. due_as_documented (po k)"
  shows "accounted (polls m po n w) \<and> work (polls m po n w) \<le> work w \<and> wo_hand (polls m po n w) = wo_hand w
    \<and> wo_claimed (polls m po n w) = wo_claimed w"
proof (induction n)
  case (Suc n)
  then show ?case using process_facts(1-4) [of "polls m po n w" "po n" m] assms(2) by auto
qed (use assms in simp)

definition nothing_queued :: "'d world \<Rightarrow> bool" where
  "nothing_queued w \<longleftrightarrow> re_queue (wo_redis w) = [] \<and> re_retry (wo_redis w) = []"

lemma polls_work:
  assumes a: "accounted w" and d: "\<forall>k. due_as_documented (po k)" and late: "\<forall>t k. \<exists>j \<ge> k. t \<le> po_now (po j)"
    and todo: "\<not> nothing_queued (polls m po n w)"
  shows "\<exists>j > n. work (polls m po j w) < work (polls m po n w)"
proof (rule ccontr)
  assume no: "\<not> ?thesis"
  let ?w = "\<lambda>j. polls m po j w"
  have acc: "accounted (?w j)" for j using polls_facts [OF a d] by blast
  have idle: "re_queue (wo_redis (?w j)) = [] \<and> due_members (po_now (po j)) (re_retry (wo_redis (?w j))) = []"
    and same: "work (?w j) = work (?w n)" if "n \<le> j" for j
  proof -
    have le: "work (?w (n + i)) \<le> work (?w n)" for i
    proof (induction i)
      case (Suc i)
      have "work (?w (Suc (n + i))) \<le> work (?w (n + i))"
        using process_facts(2) [OF acc, of "po (n + i)"] d by simp
      then show ?case using Suc by simp
    qed simp
    have ge: "work (?w n) \<le> work (?w i)" if "n < i" for i using no that by force
    show s: "work (?w j) = work (?w n)" using le [of "j - n"] ge [of j] that by (cases "j = n") auto
    have "work (?w n) \<le> work (process m (po j) (?w j))" using ge [of "Suc j"] that by simp
    then show "re_queue (wo_redis (?w j)) = [] \<and> due_members (po_now (po j)) (re_retry (wo_redis (?w j))) = []"
      using process_facts(5) [OF acc [of j], of "po j" m] d s by fastforce
  qed
  have still: "wo_redis (?w (n + i)) = wo_redis (?w n)" for i
  proof (induction i)
    case (Suc i)
    then show ?case using process_facts(6) [OF acc [of "n + i"], of "po (n + i)" m] d idle [of "n + i"] by simp
  qed simp
  have "re_retry (wo_redis (?w n)) \<noteq> []" using todo idle [of n] by (simp add: nothing_queued_def)
  then obtain p s where p: "(p, s) \<in> set (re_retry (wo_redis (?w n)))" by (metis ex_in_conv set_empty2 prod.exhaust)
  obtain j where j: "n \<le> j" "s \<le> po_now (po j)" using late by blast
  then have "p \<in> set (due_members (po_now (po j)) (re_retry (wo_redis (?w j))))"
    using p still [of "j - n"] by (auto simp: due_members_def image_iff)
  then show False using idle [OF j(1)] by simp
qed

lemma polls_empty:
  assumes "accounted w" "\<forall>k. due_as_documented (po k)" "\<forall>t k. \<exists>j \<ge> k. t \<le> po_now (po j)"
  shows "\<exists>n. nothing_queued (polls m po n w)"
proof -
  have "\<exists>j \<ge> n. nothing_queued (polls m po j w)" if "work (polls m po n w) = k" for k n
    using that
  proof (induction k arbitrary: n rule: less_induct)
    case (less k)
    show ?case
    proof (cases "nothing_queued (polls m po n w)")
      case False
      then obtain j where "n < j" "work (polls m po j w) < work (polls m po n w)" using polls_work [OF assms] by blast
      then show ?thesis using less.IH [of "work (polls m po j w)" j] less.prems by (meson less_imp_le order_trans)
    qed blast
  qed
  then show ?thesis by blast
qed


text \<open>A cache that lists the due members by their score answers as documented.\<close>

definition by_score :: "int \<Rightarrow> 'd retry_set \<Rightarrow> 'd payload list" where
  "by_score now z = map fst (take 10 (sort_key snd (filter (\<lambda>e. snd e \<le> now) z)))"

lemma sorted_split: "sorted (map f xs) \<Longrightarrow> x \<in> set (take n xs) \<Longrightarrow> y \<in> set (drop n xs) \<Longrightarrow> f x \<le> f y"
  using sorted_append [of "map f (take n xs)" "map f (drop n xs)"] by (simp flip: map_append)

lemma by_score_documented:
  assumes "distinct (map fst z)"
  shows "zrangebyscore now z (by_score now z)"
proof -
  let ?f = "filter (\<lambda>e. snd e \<le> now) z" and ?s = "sort_key snd (filter (\<lambda>e. snd e \<le> now) z)"
  have m: "due_members now z = map fst ?f" by (simp add: due_members_def case_prod_unfold)
  have "distinct (map fst ?f)" using assms by (simp add: distinct_map inj_on_def)
  then have d: "distinct (map fst ?s)"
    by (metis distinct_map distinct_sort mset_eq_imp_distinct_iff mset_sort set_sort)
  have late: "s \<le> s'" if e: "(p, s) \<in> set z" "(p', s') \<in> set z" "p \<in> set (by_score now z)" "p' \<notin> set (by_score now z)" "s' \<le> now"
    for p s p' s'
  proof -
    obtain t where t: "(p, t) \<in> set (take 10 ?s)" using e(3) by (auto simp: by_score_def)
    then have "(p, t) \<in> set ?s" by (rule in_set_takeD)
    then have "(p, t) \<in> set z" by simp
    then have "t = s" using e(1) assms by (metis eq_key_imp_eq_value)
    moreover have "(p', s') \<in> set ?s" using e(2,5) by simp
    then have "(p', s') \<in> set (take 10 ?s) \<or> (p', s') \<in> set (drop 10 ?s)" by (metis Un_iff append_take_drop_id set_append)
    then have "(p', s') \<in> set (drop 10 ?s)" using e(4) by (force simp: by_score_def)
    ultimately show ?thesis using sorted_split [of snd ?s "(p, s)" 10 "(p', s')"] t by simp
  qed
  have "distinct (by_score now z)" using distinct_take [OF d, of 10] by (simp add: by_score_def take_map)
  moreover have "set (by_score now z) \<subseteq> set (due_members now z)"
    unfolding m by_score_def by (auto dest!: in_set_takeD)
  moreover have "length (by_score now z) = min 10 (length (due_members now z))"
    unfolding m by_score_def by (simp add: min.commute)
  ultimately show ?thesis using late unfolding zrangebyscore_def by auto
qed

definition demo_polling :: "nat \<Rightarrow> nat polling" where
  "demo_polling k = \<lparr> po_senders = (\<lambda>i. unreached), po_delivered = int k * 1000, po_failedAt = [], po_now = int k * 1000,
     po_due = by_score (int k * 1000) \<rparr>"


end
