(* ===== verification/WebhookRoutes.thy ===== *)
theory WebhookRoutes
  imports WebhookQueue
begin

text \<open>
  The routes of webhooks (\<open>routes/webhooks.ts\<close>): what an administrator reads of the dead letters and
  replays of them, and the writes of hooks with the secrets they are told.

  The body of a write comes as the validator passes it on, a field that is not given as \<open>None\<close>; how a
  partial schema reads a field with a default is an argument, and so is the mask, whose characters are
  above 255.  The name of a hook and who created it are left out: nothing here reads them.
\<close>

section \<open>Reading the dead letters\<close>

text \<open>\<open>Math.min(parseInt(limit ?? '50') || 50, 500)\<close>, given what \<open>parseInt\<close> reads.\<close>

definition dlq_limit :: "int option \<Rightarrow> int" where
  "dlq_limit parsed = min (or_number parsed 50) 500"

text \<open>\<open>LRANGE 0 stop\<close> keeps what \<open>LTRIM 0 stop\<close> would.\<close>

definition dlq_page :: "int \<Rightarrow> 'd redis \<Rightarrow> 'd dead_letter list" where
  "dlq_page limit r = ltrim (limit - 1) (re_dlq r)"

fun without_secret :: "'d dead_letter \<Rightarrow> 'd dead_letter" where
  "without_secret (Letter p failedAt) = Letter (p\<lparr> pl_secret := None \<rparr>) failedAt"
| "without_secret (Unreadable s) = Unreadable s"

definition dlq_answer :: "string \<Rightarrow> webhook list \<Rightarrow> int option \<Rightarrow> 'd redis \<Rightarrow> 'd dead_letter list" where
  "dlq_answer tenant hooks parsed r =
    map without_secret (filter (\<lambda>e. own_entry (ownWebhooks tenant hooks) e \<noteq> None) (dlq_page (dlq_limit parsed) r))"

lemma own_entry_hook:
  assumes "own_entry (ownWebhooks tenant hooks) e = Some stored"
  obtains p t h where "e = Letter p t" "h \<in> set hooks" "wh_tenant_id h = Some tenant" "pl_webhookId p = Some (wh_id h)"
    "stored = wh_secret h"
proof (cases e)
  case (Letter p t)
  let ?i = "or_text (pl_webhookId p) []"
  have i: "?i \<noteq> []" "ownWebhooks tenant hooks ?i = Some stored" using assms Letter by (auto simp: Let_def split: if_splits)
  then obtain h where h: "h \<in> set hooks" "wh_tenant_id h = Some tenant" "wh_id h = ?i" "wh_secret h = stored"
    by (auto simp: ownWebhooks_def dest!: map_of_SomeD)
  moreover have "pl_webhookId p = Some ?i" using i(1) by (auto simp: or_text_def split: option.splits list.splits)
  ultimately show thesis using that Letter by metis
qed (use assms in simp)

text \<open>A replay under way: an entry of a hook of the tenant whose administrator read it, and what it queues.\<close>

definition own_replay :: "'d queue_event set \<Rightarrow> 'd replaying \<Rightarrow> bool" where
  "own_replay E r \<longleftrightarrow> (\<exists>tenant hooks fk h p t. ReadDead tenant hooks fk \<in> E \<and> h \<in> set hooks \<and> wh_tenant_id h = Some tenant
     \<and> rp_entry r = Letter p t \<and> pl_webhookId p = Some (wh_id h)
     \<and> rp_item r = Stored (p\<lparr> pl_secret := signing_secret fk (wh_secret h), pl_attempt := 0, pl_tenantId := Some tenant \<rparr>))"

lemma own_replay_mono: "own_replay E r \<Longrightarrow> E \<subseteq> F \<Longrightarrow> own_replay F r"
  unfolding own_replay_def by (metis subsetD)

lemma drop_nth_subset: "x \<in> set (drop_nth i xs) \<Longrightarrow> x \<in> set xs"
  by (rule subsetD [OF set_drop_nth])

lemma delivered_reads: "wo_read (delivered p ok now fa stores w) = wo_read w" "wo_queued (delivered p ok now fa stores w) = wo_queued w"
  by (simp_all add: delivered_def Let_def set_redis_def)

lemma replays_step:
  assumes "\<forall>r \<in> set (wo_read w) \<union> set (wo_queued w). own_replay E r"
  shows "\<forall>r \<in> set (wo_read (queue_step m e w)) \<union> set (wo_queued (queue_step m e w)). own_replay (insert e E) r"
proof -
  have old: "\<forall>r \<in> set (wo_read w) \<union> set (wo_queued w). own_replay (insert e E) r"
    using assms own_replay_mono [of E _ "insert e E"] by blast
  have same: ?thesis if "set (wo_read (queue_step m e w)) \<subseteq> set (wo_read w) \<union> set (wo_queued w)"
    "set (wo_queued (queue_step m e w)) \<subseteq> set (wo_read w) \<union> set (wo_queued w)"
    using that old by blast
  show ?thesis
  proof (cases e)
    case (ReadDead tenant hooks fk)
    have new: "own_replay (insert e E) \<lparr> rp_entry = x, rp_item = replayed_payload fk tenant stored x \<rparr>"
      if "own_entry (ownWebhooks tenant hooks) x = Some stored" for x stored
      using that ReadDead by (elim own_entry_hook) (auto simp: own_replay_def)
    then show ?thesis using ReadDead old by (auto split: option.splits)
  next
    case (Replay i)
    then show ?thesis using old
      by (cases "i < length (wo_read w)") (auto simp: Let_def set_redis_def not_le dest: drop_nth_subset)
  next
    case (RemoveDead i)
    then show ?thesis using old
      by (cases "i < length (wo_queued w)") (auto simp: set_redis_def not_le dest: drop_nth_subset)
  next
    case (Deliver i sd now fa stores)
    then show ?thesis using old by (simp add: Let_def delivered_reads)
  next
    case (Claim i)
    show ?thesis by (rule same; cases "zrem (wo_seen w ! i) (re_retry (wo_redis w))") (simp_all add: Claim set_redis_def)
  qed (use old in \<open>simp_all add: set_redis_def\<close>)
qed

lemma replays_run:
  "\<forall>r \<in> set (wo_read w) \<union> set (wo_queued w). own_replay E r \<Longrightarrow>
    \<forall>r \<in> set (wo_read (queue_run m es w)) \<union> set (wo_queued (queue_run m es w)). own_replay (E \<union> set es) r"
proof (induction es arbitrary: w E)
  case (Cons e es)
  from Cons.IH [OF replays_step [OF Cons.prems, of m e]] show ?case by (simp add: queue_run_def)
qed (simp add: queue_run_def)

text \<open>C40. After any run, no dead letter keeps a signing secret, and there are at most as many as are kept and the
trims still to come.  What an administrator is answered are letters of hooks of the own tenant, without a secret.
Every replay under way is of a letter of a hook of the tenant whose administrator read it; it queues that payload
for that tenant with a full budget, signed as the hook's stored secret says.\<close>

theorem dead_letters_stay_home:
  assumes "w = queue_run dlqMax es empty_world" "0 < dlqMax"
  shows "int (length (re_dlq (wo_redis w))) \<le> dlqMax + int (wo_trims w)
    \<and> (\<forall>p t. Letter p t \<in> set (re_dlq (wo_redis w)) \<longrightarrow> pl_secret p = None)
    \<and> (\<forall>e \<in> set (dlq_answer tenant hooks parsed (wo_redis w)). \<exists>p t h. e = Letter p t \<and> pl_secret p = None \<and> h \<in> set hooks
        \<and> wh_tenant_id h = Some tenant \<and> pl_webhookId p = Some (wh_id h))
    \<and> (\<forall>r \<in> set (wo_read w) \<union> set (wo_queued w). own_replay (set es) r)"
proof (intro conjI)
  have l: "letters_kept dlqMax w" unfolding assms(1) by (rule letters_run [OF assms(2)])
  then show "int (length (re_dlq (wo_redis w))) \<le> dlqMax + int (wo_trims w)"
    "\<forall>p t. Letter p t \<in> set (re_dlq (wo_redis w)) \<longrightarrow> pl_secret p = None"
    by (auto simp: letters_kept_def)
  show "\<forall>r \<in> set (wo_read w) \<union> set (wo_queued w). own_replay (set es) r"
    using replays_run [of empty_world "{}" dlqMax es] by (simp add: assms(1) empty_world_def)
  show "\<forall>e \<in> set (dlq_answer tenant hooks parsed (wo_redis w)). \<exists>p t h. e = Letter p t \<and> pl_secret p = None \<and> h \<in> set hooks
        \<and> wh_tenant_id h = Some tenant \<and> pl_webhookId p = Some (wh_id h)"
  proof
    fix e
    assume "e \<in> set (dlq_answer tenant hooks parsed (wo_redis w))"
    then obtain x stored where x: "own_entry (ownWebhooks tenant hooks) x = Some stored" "e = without_secret x"
      by (auto simp: dlq_answer_def)
    from x(1) obtain p t h where "x = Letter p t" "h \<in> set hooks" "wh_tenant_id h = Some tenant" "pl_webhookId p = Some (wh_id h)"
      by (rule own_entry_hook)
    then show "\<exists>p t h. e = Letter p t \<and> pl_secret p = None \<and> h \<in> set hooks
        \<and> wh_tenant_id h = Some tenant \<and> pl_webhookId p = Some (wh_id h)"
      using x(2) by auto
  qed
qed

text \<open>A letter of tenant \<open>t1\<close> and one, newer, of another tenant's hook; the administrator of \<open>t1\<close> starts a replay.\<close>

definition demo_letters :: "nat queue_event list" where
  "demo_letters = [Queue ((try_no 0)\<lparr> pl_retryAttempts := Some 0 \<rparr>),
     Queue ((try_no 0)\<lparr> pl_webhookId := Some ''h3'', pl_retryAttempts := Some 0, pl_secret := Some ''s'' \<rparr>), Pop 10,
     Deliver 0 unreached 0 ''t0'' True, Deliver 0 unreached 0 ''t1'' True, Trim,
     ReadDead ''t1'' [demo_hook ''h1'' True ''t1'', demo_hook ''h3'' True ''t2''] demo_keys]"

definition demo_desk :: "nat world" where
  "demo_desk = queue_run 3 demo_letters empty_world"

lemma demo_desk_state:
  "(length (wo_read demo_desk), length (re_dlq (wo_redis demo_desk)),
    length (dlq_answer ''t1'' [demo_hook ''h1'' True ''t1''] None (wo_redis demo_desk))) = (1, 2, 1)"
  by code_simp

theorem dead_letters_stay_home_witness:
  "own_replay (set demo_letters) (hd (wo_read demo_desk)) \<and> length (re_dlq (wo_redis demo_desk)) = 2
    \<and> (\<exists>p t. hd (dlq_answer ''t1'' [demo_hook ''h1'' True ''t1''] None (wo_redis demo_desk)) = Letter p t
         \<and> pl_secret p = None \<and> pl_webhookId p = Some ''h1'')"
proof -
  let ?answer = "dlq_answer ''t1'' [demo_hook ''h1'' True ''t1''] None (wo_redis demo_desk)"
  have l: "length (wo_read demo_desk) = 1" "length (re_dlq (wo_redis demo_desk)) = 2" "length ?answer = 1"
    using demo_desk_state by simp_all
  then have "hd (wo_read demo_desk) \<in> set (wo_read demo_desk)" "hd ?answer \<in> set ?answer"
    by (metis hd_in_set length_0_conv one_neq_zero)+
  moreover have "0 < (3 :: int)" by simp
  note dead_letters_stay_home [OF demo_desk_def this, of "''t1''" "[demo_hook ''h1'' True ''t1'']" None]
  moreover have "wh_id (demo_hook ''h1'' True ''t1'') = ''h1''" by (simp add: demo_hook_def)
  ultimately show ?thesis using l(2) by fastforce
qed

text \<open>The limit counts the letters of every tenant: newer ones of another hide one's own from the answer.\<close>

lemma others_hide_the_own:
  "dlq_answer ''t1'' [demo_hook ''h1'' True ''t1''] (Some 1) (wo_redis demo_desk) = []"
  by code_simp

section \<open>Writing hooks\<close>

record hook_body =
  hb_url :: "string option"
  hb_method :: "string option"
  hb_headers :: "headers option"
  hb_events :: "string list option"
  hb_collections :: "string list option"
  hb_active :: "bool option"
  hb_secret :: "string option"
  hb_retry_attempts :: "int option"
  hb_timeout :: "int option"

text \<open>\<open>WebhookSchema\<close> on a body: the fields with a default are given one.\<close>

definition with_defaults :: "hook_body \<Rightarrow> hook_body" where
  "with_defaults b = b\<lparr> hb_method := Some (nullish (hb_method b) ''POST''), hb_headers := Some (nullish (hb_headers b) []),
     hb_collections := Some (nullish (hb_collections b) []), hb_active := Some (nullish (hb_active b) True),
     hb_retry_attempts := Some (nullish (hb_retry_attempts b) 3), hb_timeout := Some (nullish (hb_timeout b) 5000) \<rparr>"

text \<open>The hooks and, for the record, the secret an administrator was last told or gave for each.\<close>

record hook_desk =
  hd_rows :: "webhook list"
  hd_told :: "string \<rightharpoonup> string"

text \<open>
  What the routes are given: the keys, the address guard, the mask, how a partial schema reads a body.
\<close>

record hook_door =
  ho_keys :: field_keys
  ho_url_ok :: "string \<Rightarrow> bool"
  ho_mask :: string
  ho_partial :: "hook_body \<Rightarrow> hook_body"

definition createHook :: "hook_door \<Rightarrow> string \<Rightarrow> string \<Rightarrow> string \<Rightarrow> hook_body \<Rightarrow> hook_desk \<Rightarrow> hook_desk" where
  "createHook door tenant i generated body st =
    (let data = with_defaults body in
     case (hb_url data, hb_events data) of
       (Some url, Some events) \<Rightarrow>
         if events = [] \<or> \<not> ho_url_ok door url \<or> i \<in> wh_id ` set (hd_rows st) then st
         else (let secret = or_text (hb_secret data) generated in
           case maybeEncrypt (ho_keys door) secret of
             None \<Rightarrow> st
           | Some stored \<Rightarrow> st\<lparr> hd_rows := hd_rows st @ [\<lparr> wh_id = i, wh_url = url, wh_method = hb_method data,
               wh_headers = hb_headers data, wh_events = events, wh_collections = hb_collections data,
               wh_active = hb_active data, wh_secret = Some stored, wh_retry_attempts = hb_retry_attempts data,
               wh_timeout = hb_timeout data, wh_tenant_id = Some tenant \<rparr>],
               hd_told := (hd_told st)(i \<mapsto> secret) \<rparr>)
     | _ \<Rightarrow> st)"

definition or_keep :: "'a option \<Rightarrow> 'a option \<Rightarrow> 'a option" where
  "or_keep new old = (case new of None \<Rightarrow> old | Some x \<Rightarrow> Some x)"

definition set_columns :: "hook_body \<Rightarrow> string option \<Rightarrow> webhook \<Rightarrow> webhook" where
  "set_columns data secret h = h\<lparr> wh_url := nullish (hb_url data) (wh_url h), wh_method := or_keep (hb_method data) (wh_method h),
     wh_headers := or_keep (hb_headers data) (wh_headers h), wh_events := nullish (hb_events data) (wh_events h),
     wh_collections := or_keep (hb_collections data) (wh_collections h), wh_active := or_keep (hb_active data) (wh_active h),
     wh_secret := or_keep secret (wh_secret h), wh_retry_attempts := or_keep (hb_retry_attempts data) (wh_retry_attempts h),
     wh_timeout := or_keep (hb_timeout data) (wh_timeout h) \<rparr>"

text \<open>The rows of an id in a tenant, of which there is one or none.\<close>

definition own_hook :: "string \<Rightarrow> string \<Rightarrow> webhook \<Rightarrow> bool" where
  "own_hook tenant i h \<longleftrightarrow> wh_id h = i \<and> wh_tenant_id h = Some tenant"

definition update_own :: "string \<Rightarrow> string \<Rightarrow> (webhook \<Rightarrow> webhook) \<Rightarrow> string option \<Rightarrow> hook_desk \<Rightarrow> hook_desk" where
  "update_own tenant i f told st =
    (if \<exists>h \<in> set (hd_rows st). own_hook tenant i h then
       st\<lparr> hd_rows := map (\<lambda>h. if own_hook tenant i h then f h else h) (hd_rows st),
           hd_told := (case told of None \<Rightarrow> hd_told st | Some s \<Rightarrow> (hd_told st)(i \<mapsto> s)) \<rparr>
     else st)"

definition patchHook :: "hook_door \<Rightarrow> string \<Rightarrow> string \<Rightarrow> hook_body \<Rightarrow> hook_desk \<Rightarrow> hook_desk" where
  "patchHook door tenant i body st =
    (let data = ho_partial door body; url = or_text (hb_url data) [] in
     if url \<noteq> [] \<and> \<not> ho_url_ok door url then st
     else (case hb_secret data of
       None \<Rightarrow> update_own tenant i (set_columns data None) None st
     | Some s \<Rightarrow>
         if s = ho_mask door then update_own tenant i (set_columns data None) None st
         else if s \<noteq> [] then (case maybeEncrypt (ho_keys door) s of
             None \<Rightarrow> st
           | Some stored \<Rightarrow> update_own tenant i (set_columns data (Some stored)) (Some s) st)
         else update_own tenant i (set_columns data (Some s)) (Some s) st))"

definition rotateSecret :: "hook_door \<Rightarrow> string \<Rightarrow> string \<Rightarrow> string \<Rightarrow> hook_desk \<Rightarrow> hook_desk" where
  "rotateSecret door tenant i generated st = (case maybeEncrypt (ho_keys door) generated of
     None \<Rightarrow> st
   | Some stored \<Rightarrow> update_own tenant i (\<lambda>h. h\<lparr> wh_secret := Some stored \<rparr>) (Some generated) st)"

definition removeHook :: "string \<Rightarrow> string \<Rightarrow> hook_desk \<Rightarrow> hook_desk" where
  "removeHook tenant i st = st\<lparr> hd_rows := filter (\<lambda>h. \<not> own_hook tenant i h) (hd_rows st) \<rparr>"

text \<open>What a caller sees of a hook.\<close>

definition maskSecret :: "string \<Rightarrow> webhook \<Rightarrow> webhook" where
  "maskSecret masked h = h\<lparr> wh_secret := (if or_text (wh_secret h) [] = [] then None else Some masked) \<rparr>"

datatype hook_write =
    CreateHook string string string hook_body
  | PatchHook string string hook_body
  | RotateSecret string string string
  | RemoveHook string string

fun write_hook :: "hook_door \<Rightarrow> hook_write \<Rightarrow> hook_desk \<Rightarrow> hook_desk" where
  "write_hook door (CreateHook tenant i generated body) st = createHook door tenant i generated body st"
| "write_hook door (PatchHook tenant i body) st = patchHook door tenant i body st"
| "write_hook door (RotateSecret tenant i generated) st = rotateSecret door tenant i generated st"
| "write_hook door (RemoveHook tenant i) st = removeHook tenant i st"

definition no_hooks :: hook_desk where
  "no_hooks = \<lparr> hd_rows = [], hd_told = Map.empty \<rparr>"

section \<open>Hooks sign with the secret that was told\<close>

text \<open>The keyring opens what it seals, and what it seals is known by its prefix.\<close>

definition keyring_opens :: "field_keys \<Rightarrow> bool" where
  "keyring_opens fk \<longleftrightarrow> (\<forall>s c. fk_encrypt fk s = Some c \<longrightarrow> isEncryptedValue c \<and> fk_decrypt fk c = Some s)"

text \<open>A secret as callers send and the generator makes them: not empty, and no text that is taken as encrypted.\<close>

definition plain_secret :: "string \<Rightarrow> bool" where
  "plain_secret s \<longleftrightarrow> s \<noteq> [] \<and> \<not> isEncryptedValue s"

fun plain_write :: "hook_door \<Rightarrow> hook_write \<Rightarrow> bool" where
  "plain_write door (CreateHook tenant i generated body) \<longleftrightarrow> plain_secret (or_text (hb_secret body) generated)"
| "plain_write door (PatchHook tenant i body) \<longleftrightarrow> (case hb_secret (ho_partial door body) of None \<Rightarrow> True | Some s \<Rightarrow> plain_secret s)"
| "plain_write door (RotateSecret tenant i generated) \<longleftrightarrow> plain_secret generated"
| "plain_write door (RemoveHook tenant i) \<longleftrightarrow> True"

definition told_secret :: "field_keys \<Rightarrow> string option \<Rightarrow> webhook \<Rightarrow> bool" where
  "told_secret fk told h \<longleftrightarrow> told \<noteq> None \<and> signing_secret fk (wh_secret h) = told
     \<and> (fk_key fk \<noteq> [] \<longrightarrow> isEncryptedValue (or_text (wh_secret h) []))"

definition signs_as_told :: "field_keys \<Rightarrow> hook_desk \<Rightarrow> bool" where
  "signs_as_told fk st \<longleftrightarrow> distinct (map wh_id (hd_rows st)) \<and> (\<forall>h \<in> set (hd_rows st). told_secret fk (hd_told st (wh_id h)) h)"

lemma stored_signs:
  assumes "keyring_opens fk" "plain_secret s" "maybeEncrypt fk s = Some c"
  shows "signing_secret fk (Some c) = Some s \<and> (fk_key fk \<noteq> [] \<longrightarrow> isEncryptedValue (or_text (Some c) []))"
proof (cases "fk_key fk = []")
  case True
  then have "c = s" using assms by (auto simp: maybeEncrypt_def plain_secret_def split: if_splits)
  then show ?thesis using assms(2) by (simp add: True signing_secret_def plain_secret_def maybeDecrypt_def)
next
  case False
  then have k: "key_has_shape fk" "fk_encrypt fk s = Some c"
    using assms(2,3) by (auto simp: maybeEncrypt_def plain_secret_def encryptField_def split: if_splits)
  then have c: "isEncryptedValue c" "fk_decrypt fk c = Some s" using assms(1) by (auto simp: keyring_opens_def)
  then have "c \<noteq> []" by (auto simp: isEncryptedValue_def ENC_PREFIX_def starts_with_def)
  then have "or_text (Some c) [] = c" by (cases c) (simp_all add: or_text_def)
  then show ?thesis using k c by (simp add: signing_secret_def maybeDecrypt_def decryptField_def \<open>c \<noteq> []\<close>)
qed

lemma update_own_signs:
  assumes "signs_as_told fk st" "\<And>h. wh_id (f h) = wh_id h"
    and "\<And>h. h \<in> set (hd_rows st) \<Longrightarrow> case told of None \<Rightarrow> wh_secret (f h) = wh_secret h | Some s \<Rightarrow> told_secret fk (Some s) (f h)"
  shows "signs_as_told fk (update_own tenant i f told st)"
proof (cases "\<exists>h \<in> set (hd_rows st). own_hook tenant i h")
  case True
  let ?g = "\<lambda>h. if own_hook tenant i h then f h else h"
  have ids: "map wh_id (map ?g (hd_rows st)) = map wh_id (hd_rows st)" using assms(2) by auto
  have d: "distinct (map wh_id (hd_rows st))" using assms(1) by (simp add: signs_as_told_def)
  obtain k where k: "k \<in> set (hd_rows st)" "own_hook tenant i k" using True by blast
  have only: "own_hook tenant i h" if "h \<in> set (hd_rows st)" "wh_id h = i" for h
    using d k that unfolding own_hook_def by (metis distinct_map inj_onD)
  have "told_secret fk (hd_told (update_own tenant i f told st) (wh_id (?g h))) (?g h)" if "h \<in> set (hd_rows st)" for h
  proof (cases "own_hook tenant i h")
    case own: True
    then have "wh_id (?g h) = i" using assms(2) by (simp add: own_hook_def)
    then show ?thesis using own True assms(1) assms(3) [OF that] that
      by (cases told) (auto simp: update_own_def signs_as_told_def told_secret_def own_hook_def)
  next
    case False
    then have "wh_id h \<noteq> i" using only [OF that] by blast
    then show ?thesis using False True assms(1) that by (cases told) (auto simp: update_own_def signs_as_told_def)
  qed
  moreover have "hd_rows (update_own tenant i f told st) = map ?g (hd_rows st)" using True by (simp add: update_own_def)
  moreover note d [folded ids]
  ultimately show ?thesis unfolding signs_as_told_def by (metis (no_types, lifting) imageE set_map)
qed (use assms(1) in \<open>simp add: update_own_def\<close>)

lemma set_columns_fields [simp]: "wh_id (set_columns data s h) = wh_id h" "wh_secret (set_columns data s h) = or_keep s (wh_secret h)"
  by (simp_all add: set_columns_def)

lemma or_keep_simps [simp]: "or_keep (Some x) y = Some x" "or_keep None y = y"
  by (simp_all add: or_keep_def)

lemma write_signs:
  assumes k: "keyring_opens (ho_keys door)" and st: "signs_as_told (ho_keys door) st" and e: "plain_write door e"
  shows "signs_as_told (ho_keys door) (write_hook door e st)"
proof (cases e)
  case (CreateHook tenant i generated body)
  have s: "hb_secret (with_defaults body) = hb_secret body" by (simp add: with_defaults_def)
  show ?thesis using CreateHook st e stored_signs [OF k]
    by (auto simp: createHook_def Let_def s signs_as_told_def told_secret_def split: option.splits)
next
  case (PatchHook tenant i body)
  show ?thesis using PatchHook st e stored_signs [OF k]
    by (auto simp: patchHook_def Let_def plain_secret_def told_secret_def intro!: update_own_signs split: option.splits)
next
  case (RotateSecret tenant i generated)
  show ?thesis using RotateSecret st e stored_signs [OF k]
    by (auto simp: rotateSecret_def told_secret_def intro!: update_own_signs split: option.splits)
next
  case (RemoveHook tenant i)
  then show ?thesis using st by (auto simp: removeHook_def signs_as_told_def distinct_map_filter)
qed


text \<open>A hook created, saved with the mask, aimed at by another tenant, and given a new secret.\<close>

definition no_field :: hook_body where
  "no_field = \<lparr> hb_url = None, hb_method = None, hb_headers = None, hb_events = None, hb_collections = None,
     hb_active = None, hb_secret = None, hb_retry_attempts = None, hb_timeout = None \<rparr>"

definition demo_door :: "(hook_body \<Rightarrow> hook_body) \<Rightarrow> hook_door" where
  "demo_door part = \<lparr> ho_keys = demo_keys, ho_url_ok = (\<lambda>u. True), ho_mask = ''********'', ho_partial = part \<rparr>"

definition demo_create :: hook_write where
  "demo_create = CreateHook ''t1'' ''h1'' ''5ec'' (no_field\<lparr> hb_url := Some ''https://a.example/x'',
     hb_events := Some [''insert''], hb_collections := Some [''orders''], hb_active := Some False \<rparr>)"

definition demo_writes :: "hook_write list" where
  "demo_writes = [demo_create, PatchHook ''t1'' ''h1'' (no_field\<lparr> hb_secret := Some ''********'' \<rparr>),
     PatchHook ''t2'' ''h1'' (no_field\<lparr> hb_secret := Some ''theirs'' \<rparr>), RotateSecret ''t1'' ''h1'' ''cafe'']"

lemma demo_keys_open: "keyring_opens (ho_keys (demo_door part))"
  by (simp add: keyring_opens_def demo_door_def demo_keys_def isEncryptedValue_def ENC_PREFIX_def starts_with_def)

lemma demo_writes_plain:
  "plain_secret ''5ec'' \<and> plain_secret ''********'' \<and> plain_secret ''theirs'' \<and> plain_secret ''cafe''"
  by code_simp

lemma demo_writes_kept:
  "map (\<lambda>h. (wh_id h, wh_tenant_id h)) (hd_rows (fold (write_hook (demo_door id)) demo_writes no_hooks)) = [(''h1'', Some ''t1'')]
    \<and> hd_told (fold (write_hook (demo_door id)) demo_writes no_hooks) ''h1'' = Some ''cafe''"
  by code_simp


section \<open>Updates that do more than they say\<close>

text \<open>An update with an empty secret leaves a hook that signs nothing, where a create makes one.\<close>

lemma empty_secret_unsigns:
  "map (\<lambda>h. signing_secret demo_keys (wh_secret h))
     (hd_rows (fold (write_hook (demo_door id)) [demo_create, PatchHook ''t1'' ''h1'' (no_field\<lparr> hb_secret := Some [] \<rparr>)] no_hooks)) = [None]
    \<and> map (\<lambda>h. signing_secret demo_keys (wh_secret h)) (hd_rows (write_hook (demo_door id) demo_create no_hooks)) = [Some ''5ec'']"
  by code_simp

text \<open>
  A partial schema that fills in the defaults, as Zod 4 documents for a default within an optional field: an update of the
  address alone activates a hook that was switched off and extends it from one collection to all.
\<close>

lemma partial_update_resets:
  "map (\<lambda>h. (wh_active h, wh_collections h)) (hd_rows (write_hook (demo_door with_defaults) demo_create no_hooks))
      = [(Some False, Some [''orders''])]
    \<and> map (\<lambda>h. (wh_active h, wh_collections h)) (hd_rows (fold (write_hook (demo_door with_defaults))
         [demo_create, PatchHook ''t1'' ''h1'' (no_field\<lparr> hb_url := Some ''https://b.example'' \<rparr>)] no_hooks))
      = [(Some True, Some [])]"
  by code_simp

end
