(* ===== verification/Spec2Isabelle.thy ===== *)
theory Spec2Isabelle
  imports SqlLex RowRuleSafety UrlValidator Crdt Cron TrxSequencer RateLimit WorkerSqlPolicy ColumnAgreement Csv ClientIp EventBus
    SocketBan Egress SchemaSafety ValidationRules ListPages FilterSql ListCursor SyncConverge WebhookPolls WebhookRoutes
begin

text \<open>
  Zveltio is a back end in TypeScript: collections of records in Postgres behind an HTTP
  engine (\<open>packages/engine\<close>), with tenants, roles, rules on rows and columns, flows and
  extensions in sandboxes, and SDKs that work offline (\<open>packages/sdk\<close>).  This library models
  the parts of it that decide: who may see or write what, what a sandbox may reach, how
  often a caller may call, and in which order work runs.  Paths below are relative to
  \<open>src/packages/engine/src/\<close> unless they begin with \<open>sdk\<close>.

  \<^bold>\<open>Shared.\<close>  \<open>Prelude\<close> has the strings of JavaScript (one character per code unit below
  256), results as sums, and the three truth values of SQL.  \<open>Digits\<close> has numerals;
  \<open>JsRegex\<close> backtracking matchers for the regular expressions of the source; \<open>Json\<close> the
  values \<open>JSON.parse\<close> returns.

  \<^bold>\<open>Rules on rows.\<close>  \<open>RuleOperators\<close> is \<open>lib/tenancy/rule-operators.ts\<close>; \<open>Permissions\<close> and
  \<open>RlsIdentity\<close> say who a request is (\<open>permissions.ts\<close>, \<open>tenant-context.ts\<close>,
  \<open>tenant-manager.ts\<close>, \<open>middleware/tenant.ts\<close>, \<open>lib/data/auth.ts\<close>); \<open>Rls\<close> is \<open>rls.ts\<close>, the
  filters of a caller and three appliers; \<open>RowRulePolicy\<close> and \<open>SqlExpr\<close> are
  \<open>row-rule-policy.ts\<close>, the fourth, a Postgres policy as a tree and as the text sent.
  \<open>Appliers\<close> states the contract the appliers share as a locale and proves each one keeps
  it; \<open>PolicySemantics\<close> gives the policy its value; \<open>RowRuleAgreement\<close> proves the four keep
  the same rows; \<open>RowRuleSafety\<close> how they fail and where they part; \<open>RowRuleStore\<close> that the
  policies follow the stored rules; \<open>SqlLex\<close> that the text sent reads back as meant.
  What Postgres does with a column type is the parameter \<open>pg\<close>.

  \<^bold>\<open>Rules on columns.\<close>  \<open>ColumnRules\<close> is \<open>lib/tenancy/column-permissions.ts\<close>, the guard
  compiled from it (\<open>lib/data/column-guard.ts\<close>) and its trigger (migration 095), with
  every history of writes to the rules; \<open>ColumnAgreement\<close> proves the engine's filter and
  the guard on the table agree for sessions and keys.

  \<^bold>\<open>What a sandbox may reach.\<close>  \<open>SqlText\<close>, \<open>ExtensionTables\<close> and \<open>WorkerSqlPolicy\<close> are
  \<open>lib/extensions/worker-sql-policy.ts\<close>.  \<open>UrlValidator\<close> is the address guard
  (\<open>lib/security/url-validator.ts\<close>), \<open>SafeFetch\<close> the fetch held to it on every hop
  (\<open>lib/edge-functions/safe-fetch.ts\<close>), \<open>Egress\<close> and \<open>EgressChannel\<close> the list an edge function
  declares and the channel its requests come through (\<open>egress.ts\<close>).  \<open>SocketBan\<close> is the
  seccomp filter (\<open>lib/socket-ban.ts\<close>) as bytes, read and run as classic BPF.

  \<^bold>\<open>Traffic and order.\<close>  \<open>RateWindows\<close> and \<open>RateLimit\<close> are \<open>middleware/rate-limit.ts\<close>;
  \<open>ClientIp\<close> is \<open>lib/security/client-ip.ts\<close>; \<open>Cron\<close> is \<open>lib/flows/cron.ts\<close>; \<open>TrxSequencer\<close>
  is \<open>db/trx-sequencer.ts\<close>, the turns on one connection; \<open>EventBus\<close> is the awaited event of
  \<open>lib/runtime/event-bus.ts\<close>; \<open>Csv\<close> is \<open>lib/security/csv.ts\<close>; \<open>Crdt\<close> is \<open>sdk/src/crdt.ts\<close>.

  \<^bold>\<open>Schema as code.\<close>  \<open>SchemaFiles\<close>, \<open>SchemaPlan\<close> and \<open>SchemaMigrate\<close> are
  \<open>lib/schema-artifact/plan.ts\<close>: reading a file set, the diff of two collections, migrations,
  roles and \<open>planSchema\<close>, with the canonical form of \<open>export.ts\<close>.  \<open>SchemaRoles\<close> has the role
  tables, their export and the role ops run on them, and proves that applying a plan reaches
  the files; \<open>SchemaSafety\<close> has the admission of \<open>apply.ts\<close> and proves that an admitted plan
  loses nothing unasked, that an export shows no drift, and what a second run of a migration
  meets.

  \<^bold>\<open>Validation rules.\<close>  \<open>Validation\<close> and \<open>ValidationRecord\<close> are
  \<open>lib/validation-engine.ts\<close>: what an expression may be, a value and a record against the rules
  and groups of its fields; they prove what a verdict says, that transition rules can wait for the
  lock, and that a tenant's rules only tighten.  \<open>ValidationRules\<close> has the cache a write reads
  its rules through, as interleaved steps, and the writes of \<open>lib/validation-writes.ts\<close>.

  \<^bold>\<open>List queries.\<close>  \<open>FilterParse\<close> and \<open>FilterSql\<close> are the filters of a list from the request
  (\<open>lib/data/query-parse.ts\<close>) to their conditions (\<open>buildCondition\<close> of \<open>db/dynamic.ts\<close>); they prove
  that what is parsed is what was asked, that a text operator matches its value to the letter, and
  that an accepted filter never throws.  \<open>ListCursor\<close> is the seal of a cursor, which opens for its
  walk alone.  \<open>ListPages\<close> is the offset page, the keyset walk and its refill (\<open>lib/data/handlers/list.ts\<close>),
  each statement over the table of its moment: the walk serves every row once, and ends.  The ten
  rounds of the refill are those of the code; a theorem about a walk counts its requests.

  \<^bold>\<open>Offline sync.\<close>  \<open>SyncStore\<close> is the local store of the SDK and the push loop of its manager
  (\<open>local-store.ts\<close>, \<open>sync-manager.ts\<close>): an edit stays until the server takes it.  \<open>SyncPull\<close> and
  \<open>SyncPages\<close> are the pull of \<open>routes/sync.ts\<close>: watermark, positions, and a page that leaves nothing out.
  \<open>SyncDevice\<close> puts the tables, the transactions and a pulling device into one run of events, and
  \<open>SyncConverge\<close> has its invariant and proves that a device which has caught up holds what is final.

  \<^bold>\<open>Webhooks.\<close>  \<open>Webhooks\<close> is \<open>lib/webhooks.ts\<close> with the after-commit queue of
  \<open>lib/tenancy/tenant-context.ts\<close> and the stored secrets of \<open>lib/data/field-crypto.ts\<close>: which hooks a
  write fires once its transactions have committed, and the request a delivery makes through
  \<open>SafeFetch\<close>.  \<open>WebhookQueue\<close> is the queue in Redis under the workers of many replicas
  (\<open>lib/webhook-worker.ts\<close>) and the replays of \<open>routes/webhooks.ts\<close>; its locale is what a claim
  of a retry promises, and its books show how often a delivery is attempted and where it is.
  \<open>WebhookPolls\<close> is one poll of that worker from end to end, and that polling settles every delivery;
  \<open>WebhookRoutes\<close> the dead letters an administrator reads, and the writes of hooks with their secrets.

  \<^bold>\<open>How it is modelled.\<close>  State is passed explicitly, in records; an error is the left of a
  sum; a Postgres table is a list of rows or a map; steps that interleave are events, and
  a theorem speaks of every list of them.  Code outside the repository is an argument:
  the URL class, the resolver, \<open>fetch\<close>, Casbin, the casts of Postgres.  Where a theorem
  needs something of it, that is a named hypothesis, and its witness instantiates it.
  What a language defines (SQL savepoints and lexing, classic BPF, the grammar of CSV) is
  written out where a theorem is about it.

  \<^bold>\<open>Bounds.\<close>  Nothing runs on fuel: loops are structural or have a measure.  A guarded fetch
  recurses on six hops less those made; the search of \<open>Cron\<close> looks at the days the
  source does, four years of them.  The constants (50 requests, 6 in flight,
  5 MiB, 60 seconds) are those of the code.

  \<^bold>\<open>Not modelled.\<close>  Code units above 255; floating-point numbers; the wording of error
  messages; caches that only repeat an answer; metrics and logs; the worker host and its
  processes; loading, licensing and downloading of extensions; the DDL manager and the
  ops of a schema apply that run DDL, the other record
  handlers, the time travel, full-text search and expansion of a list, the push endpoint of sync, and the routes, which put the layers above together around SQL text; flows,
  realtime, mail, backups and storage, which are input and output; the generated schema,
  the command line, the SDK wrappers and the Svelte applications.
\<close>

end
